(* ===== verification/Prelude.thy ===== *)
theory Prelude
  imports Main "HOL-Library.Word" "HOL-Library.Monad_Syntax"
begin

unbundle bit_operations_syntax

text \<open>
  What every component of the model shares: the arithmetic of Rust's \<open>usize\<close> and
  \<open>isize\<close> on a 64-bit target, the slice operations of the standard library the sources
  call (\<open>get\<close>, \<open>insert\<close>, \<open>binary_search_by\<close>, \<open>partition_point\<close>), range bounds, the
  alignment lemmas, and the collections of rules the component theories extend.

  A \<open>usize\<close> is a \<open>nat\<close> below \<open>usize_size\<close>. An operation that panics on overflow (or on a
  failed assertion) returns an \<open>option\<close>, with \<open>None\<close> for the panic; wrapping and saturating
  operations write the wrap-around and the saturation out. A function that both returns an
  \<open>Option\<close> in Rust and may panic therefore has type \<open>'a option option\<close>: the outer
  \<open>None\<close> is the panic.
\<close>

named_theorems usize_defs \<open>definitions of the machine arithmetic\<close>
named_theorems align_rules \<open>facts on rounding to a power of two\<close>

section \<open>Machine integers\<close>

definition usize_size :: nat where
  [usize_defs]: "usize_size = 18446744073709551616"

definition usize_max :: nat where
  [usize_defs]: "usize_max = 18446744073709551615"

definition isize_max :: int where
  [usize_defs]: "isize_max = 9223372036854775807"

definition isize_min :: int where
  [usize_defs]: "isize_min = - 9223372036854775808"

definition i32_max :: int where
  [usize_defs]: "i32_max = 2147483647"

definition i32_min :: int where
  [usize_defs]: "i32_min = - 2147483648"

definition wrapping_sub :: "nat \<Rightarrow> nat \<Rightarrow> nat" where
  "wrapping_sub a b = (a + (usize_size - b)) mod usize_size"

definition wrapping_neg :: "nat \<Rightarrow> nat" where
  "wrapping_neg a = (usize_size - a) mod usize_size"

definition checked_add :: "nat \<Rightarrow> nat \<Rightarrow> nat option" where
  "checked_add a b = (if a + b < usize_size then Some (a + b) else None)"

definition saturating_sub :: "nat \<Rightarrow> nat \<Rightarrow> nat" where
  [simp]: "saturating_sub a b = a - b"

definition saturating_add_signed :: "nat \<Rightarrow> int \<Rightarrow> nat" where
  "saturating_add_signed a d = nat (max 0 (min (int usize_max) (int a + d)))"

definition next_multiple_of :: "nat \<Rightarrow> nat \<Rightarrow> nat option" where
  "next_multiple_of a m =
     (if m = 0 then None
      else if a mod m = 0 then Some a
      else checked_add a (m - a mod m))"

definition div_ceil :: "nat \<Rightarrow> nat \<Rightarrow> nat" where
  "div_ceil a m = (if a mod m = 0 then a div m else a div m + 1)"

definition midpoint :: "nat \<Rightarrow> nat \<Rightarrow> nat" where
  "midpoint a b = (a + b) div 2"

lemma usize_max_less: "n < usize_size \<longleftrightarrow> n \<le> usize_max"
  by (auto simp: usize_defs)

lemma wrapping_sub_le: "b \<le> a \<Longrightarrow> a < usize_size \<Longrightarrow> wrapping_sub a b = a - b"
proof -
  assume "b \<le> a" "a < usize_size"
  then have eq: "a + (usize_size - b) = (a - b) + usize_size" by linarith
  show ?thesis
    unfolding wrapping_sub_def eq using \<open>a < usize_size\<close> by simp
qed

lemma wrapping_sub_zero_one: "wrapping_sub 0 1 = usize_max"
  by (simp add: wrapping_sub_def usize_defs)

lemma wrapping_sub_Suc: "a < usize_max \<Longrightarrow> wrapping_sub (a + 1) 1 = a"
  by (subst wrapping_sub_le) (simp_all add: usize_defs)

lemma saturating_add_signed_le: "saturating_add_signed a d \<le> usize_max"
  by (auto simp: saturating_add_signed_def)

lemma saturating_add_signed_exact:
  "0 \<le> int a + d \<Longrightarrow> int a + d \<le> int usize_max \<Longrightarrow> int (saturating_add_signed a d) = int a + d"
  by (simp add: saturating_add_signed_def)

lemma saturating_add_signed_lower:
  "int p \<ge> int a + d \<Longrightarrow> p \<ge> saturating_add_signed a d"
  by (auto simp: saturating_add_signed_def)

lemma saturating_add_signed_upper:
  "int p \<le> int a + d \<Longrightarrow> p \<le> usize_max \<Longrightarrow> p \<le> saturating_add_signed a d"
  by (auto simp: saturating_add_signed_def)

section \<open>Rounding to a multiple\<close>

lemma next_multiple_of_Some:
  assumes "next_multiple_of a m = Some r"
  shows "a \<le> r" and "r mod m = 0" and "r < a + m" and "0 < m"
proof -
  from assms have m: "0 < m" by (auto simp: next_multiple_of_def split: if_splits)
  show "0 < m" by (rule m)
  have lt: "a mod m < m" using m by simp
  from assms lt show "a \<le> r"
    by (auto simp: next_multiple_of_def checked_add_def split: if_splits)
  from assms m lt show "r < a + m"
    by (auto simp: next_multiple_of_def checked_add_def split: if_splits)
  show "r mod m = 0"
  proof (cases "a mod m = 0")
    case True
    with assms m show ?thesis by (auto simp: next_multiple_of_def)
  next
    case False
    with assms m have "r = a + (m - a mod m)"
      by (auto simp: next_multiple_of_def checked_add_def split: if_splits)
    also have "\<dots> = (a - a mod m) + m"
      using lt by (simp add: mod_less_eq_dividend)
    also have "\<dots> = m * (a div m) + m" by (simp add: minus_mod_eq_mult_div)
    finally show ?thesis by simp
  qed
qed

lemma next_multiple_of_bounded: "next_multiple_of a m = Some r \<Longrightarrow> a < usize_size \<Longrightarrow> r < usize_size"
  by (auto simp: next_multiple_of_def checked_add_def split: if_splits)

text \<open>Of the multiples of \<open>m\<close> at or above \<open>a\<close>, it is the least one.\<close>

lemma next_multiple_of_least:
  assumes "next_multiple_of a m = Some r" and "a \<le> p" and "p mod m = 0"
  shows "r \<le> p"
proof (rule ccontr)
  assume "\<not> r \<le> p"
  note r = next_multiple_of_Some [OF assms(1)]
  from r(2) obtain i where i: "r = m * i" by auto
  from assms(3) obtain j where j: "p = m * j" by auto
  from \<open>\<not> r \<le> p\<close> i j have "j < i" by simp
  then have "m * Suc j \<le> m * i" by (intro mult_le_mono2) simp
  with i j have "p + m \<le> r" by simp
  with r(3) assms(2) show False by simp
qed

lemma next_multiple_of_exists:
  "0 < m \<Longrightarrow> a + m \<le> usize_size \<Longrightarrow> \<exists>r. next_multiple_of a m = Some r"
proof -
  assume "0 < m" "a + m \<le> usize_size"
  then have "a mod m < m" by simp
  have "a + (m - a mod m) < usize_size" if "a mod m \<noteq> 0"
    using that \<open>a + m \<le> usize_size\<close> \<open>0 < m\<close> by linarith
  with \<open>0 < m\<close> show ?thesis by (auto simp: next_multiple_of_def checked_add_def)
qed

lemma next_multiple_of_id: "0 < m \<Longrightarrow> a mod m = 0 \<Longrightarrow> next_multiple_of a m = Some a"
  by (simp add: next_multiple_of_def)

text \<open>
  The idiom \<open>x & align.wrapping_neg()\<close> clears the low bits: for a power of two it rounds
  \<open>x\<close> down to a multiple of the alignment.
\<close>

definition align_down :: "nat \<Rightarrow> nat \<Rightarrow> nat" where
  "align_down x a = (x AND wrapping_neg a)"

definition is_power_of_two :: "nat \<Rightarrow> bool" where
  "is_power_of_two n \<longleftrightarrow> (n \<noteq> 0 \<and> n AND (n - 1) = 0)"

lemma wrapping_neg_pow2:
  assumes "k < 64"
  shows "wrapping_neg (2 ^ k) = push_bit k (mask (64 - k))"
proof -
  have e: "(2::nat) ^ k * 2 ^ (64 - k) = 2 ^ 64"
    using assms by (simp flip: power_add)
  have "push_bit k (mask (64 - k)) = (2::nat) ^ 64 - 2 ^ k"
    using e by (simp only: push_bit_eq_mult mask_eq_exp_minus_1 mult.commute [of _ "2 ^ k"]
        diff_mult_distrib2 mult_1_right)
  moreover have "usize_size - 2 ^ k < usize_size"
    by (simp add: usize_defs)
  ultimately show ?thesis
    by (simp add: wrapping_neg_def usize_defs)
qed

lemma align_down_pow2:
  assumes "k < 64" and "x < usize_size"
  shows "align_down x (2 ^ k) = 2 ^ k * (x div 2 ^ k)"
proof -
  have "take_bit 64 x = x"
    using assms(2) by (simp add: take_bit_nat_eq_self_iff usize_defs)
  then have hi: "bit x n \<Longrightarrow> n < 64" for n
    by (metis bit_take_bit_iff)
  have "x AND push_bit k (mask (64 - k)) = push_bit k (drop_bit k x)"
    by (rule bit_eqI)
      (auto simp: bit_and_iff bit_push_bit_iff bit_drop_bit_eq bit_mask_iff
        dest: hi)
  then show ?thesis
    using assms(1)
    by (simp add: align_down_def wrapping_neg_pow2 push_bit_eq_mult drop_bit_eq_div mult.commute)
qed


lemma align_down_pow2_mod [align_rules]:
  "k < 64 \<Longrightarrow> x < usize_size \<Longrightarrow> align_down x (2 ^ k) mod 2 ^ k = 0"
  by (simp add: align_down_pow2)

lemma align_down_pow2_le [align_rules]:
  "k < 64 \<Longrightarrow> x < usize_size \<Longrightarrow> align_down x (2 ^ k) \<le> x"
  by (simp add: align_down_pow2)

lemma align_down_pow2_greatest [align_rules]:
  assumes "k < 64" and "x < usize_size" and "p \<le> x" and "p mod 2 ^ k = 0"
  shows "p \<le> align_down x (2 ^ k)"
proof -
  have "p = 2 ^ k * (p div 2 ^ k)" using assms(4) by auto
  also have "\<dots> \<le> 2 ^ k * (x div 2 ^ k)"
    using assms(3) by (intro mult_le_mono2 div_le_mono)
  finally show ?thesis using assms(1,2) by (simp add: align_down_pow2)
qed

section \<open>Slices and vectors\<close>

text \<open>\<open>slice::get\<close>: a checked read.\<close>

definition slice_get :: "'a list \<Rightarrow> nat \<Rightarrow> 'a option" where
  "slice_get xs i = (if i < length xs then Some (xs ! i) else None)"

text \<open>
  Insertion at an index, as \<open>Vec::insert\<close>: a panic past the end, and when the length would
  no longer be a \<open>usize\<close>.
\<close>

definition vec_insert :: "nat \<Rightarrow> 'a \<Rightarrow> 'a list \<Rightarrow> 'a list option" where
  "vec_insert i x xs =
     (if i \<le> length xs \<and> length xs < usize_max then Some (take i xs @ x # drop i xs) else None)"

lemma slice_get_Some [simp]: "slice_get xs i = Some x \<longleftrightarrow> i < length xs \<and> xs ! i = x"
  by (auto simp: slice_get_def)

lemma slice_get_None [simp]: "slice_get xs i = None \<longleftrightarrow> length xs \<le> i"
  by (auto simp: slice_get_def)

lemma vec_insert_set: "vec_insert i x xs = Some ys \<Longrightarrow> set ys = insert x (set xs)"
  by (auto simp: vec_insert_def split: if_splits dest: in_set_takeD in_set_dropD)
    (metis Un_iff append_take_drop_id set_append)

lemma vec_insert_append:
  "length xs = i \<Longrightarrow> i + length ys < usize_max \<Longrightarrow> vec_insert i x (xs @ ys) = Some (xs @ x # ys)"
  by (auto simp: vec_insert_def)

lemma vec_insert_length: "vec_insert i x xs = Some ys \<Longrightarrow> length ys = Suc (length xs) \<and> length ys \<le> usize_max"
  by (auto simp: vec_insert_def split: if_splits)

section \<open>Binary search\<close>

text \<open>
  \<open>slice::binary_search_by\<close> as the standard library implements it: the window
  \<open>[base, base + size)\<close> halves, the middle element decides which half stays, and one last
  comparison at \<open>base\<close> gives the answer. \<open>Inr i\<close> is \<open>Ok(i)\<close> (an equal element is at
  \<open>i\<close>) and \<open>Inl i\<close> is \<open>Err(i)\<close> (it would be inserted at \<open>i\<close>).
\<close>

datatype ordering = Less | Equal | Greater

function bs_loop :: "('a \<Rightarrow> ordering) \<Rightarrow> 'a list \<Rightarrow> nat \<Rightarrow> nat \<Rightarrow> nat" where
  "bs_loop f xs sz base =
     (if sz \<le> 1 then base
      else let half = sz div 2; mid = base + half
           in bs_loop f xs (sz - half) (if f (xs ! mid) = Greater then base else mid))"
  by pat_completeness auto
termination
  by (relation "measure (\<lambda>(f, xs, sz, base). sz)") auto

declare bs_loop.simps [simp del]

definition binary_search_by :: "('a \<Rightarrow> ordering) \<Rightarrow> 'a list \<Rightarrow> nat + nat" where
  "binary_search_by f xs =
     (if xs = [] then Inl 0
      else let base = bs_loop f xs (length xs) 0
           in case f (xs ! base) of
                Equal \<Rightarrow> Inr base
              | Less \<Rightarrow> Inl (base + 1)
              | Greater \<Rightarrow> Inl base)"

definition compare :: "'a::linorder \<Rightarrow> 'a \<Rightarrow> ordering" where
  "compare a b = (if a < b then Less else if a = b then Equal else Greater)"

definition binary_search_by_key :: "'k::linorder \<Rightarrow> ('a \<Rightarrow> 'k) \<Rightarrow> 'a list \<Rightarrow> nat + nat" where
  "binary_search_by_key k g xs = binary_search_by (\<lambda>x. compare (g x) k) xs"

text \<open>\<open>partition_point\<close> is a binary search that never answers \<open>Equal\<close>.\<close>

definition partition_point :: "('a \<Rightarrow> bool) \<Rightarrow> 'a list \<Rightarrow> nat" where
  "partition_point p xs =
     (case binary_search_by (\<lambda>x. if p x then Less else Greater) xs of Inl i \<Rightarrow> i | Inr i \<Rightarrow> i)"

text \<open>
  What the loop establishes from \<open>base\<close>: the window never leaves the slice; elements before
  the answer are not \<open>Greater\<close> and elements after it are; once the window has moved, its
  first element is not \<open>Greater\<close>.
\<close>

definition bs_answer :: "('a \<Rightarrow> ordering) \<Rightarrow> 'a list \<Rightarrow> nat \<Rightarrow> nat \<Rightarrow> bool" where
  "bs_answer f xs base r \<longleftrightarrow> base \<le> r \<and> r < length xs
    \<and> (\<forall>i < r. f (xs ! i) \<noteq> Greater)
    \<and> (\<forall>i < length xs. r < i \<longrightarrow> f (xs ! i) = Greater)
    \<and> (r = base \<or> f (xs ! r) \<noteq> Greater)"

definition upwards :: "('a \<Rightarrow> ordering) \<Rightarrow> 'a list \<Rightarrow> bool" where
  "upwards f xs \<longleftrightarrow> (\<forall>j < length xs. \<forall>i \<le> j. f (xs ! i) = Greater \<longrightarrow> f (xs ! j) = Greater)"

lemma bs_loop_answer:
  assumes mono: "upwards f xs"
  shows "0 < sz \<Longrightarrow> base + sz \<le> length xs \<Longrightarrow>
    (\<forall>i < base. f (xs ! i) \<noteq> Greater) \<Longrightarrow>
    (\<forall>i < length xs. base + sz \<le> i \<longrightarrow> f (xs ! i) = Greater) \<Longrightarrow>
    bs_answer f xs base (bs_loop f xs sz base)"
proof (induction sz arbitrary: base rule: less_induct)
  case (less sz)
  show ?case
  proof (cases "sz = 1")
    case True
    with less.prems show ?thesis by (simp add: bs_loop.simps bs_answer_def)
  next
    case False
    define half mid where "half = sz div 2" and "mid = base + half"
    from False less.prems(1) have h: "0 < half" "half < sz" "half \<le> sz - half"
      by (auto simp: half_def)
    have mid: "mid < length xs" using h less.prems(2) by (simp add: mid_def)
    show ?thesis
    proof (cases "f (xs ! mid) = Greater")
      case True
      have eq: "bs_loop f xs sz base = bs_loop f xs (sz - half) base"
        using False less.prems(1) True
        by (subst bs_loop.simps) (simp add: Let_def half_def mid_def)
      have "\<forall>i < length xs. base + (sz - half) \<le> i \<longrightarrow> f (xs ! i) = Greater"
      proof (intro allI impI)
        fix i assume "i < length xs" "base + (sz - half) \<le> i"
        with h have "mid \<le> i" by (simp add: mid_def)
        with True \<open>i < length xs\<close> show "f (xs ! i) = Greater"
          using mono by (auto simp: upwards_def)
      qed
      with less.IH [of "sz - half" base] less.prems h show ?thesis by (simp add: eq)
    next
      case le: False
      have eq: "bs_loop f xs sz base = bs_loop f xs (sz - half) mid"
        using False less.prems(1) le
        by (subst bs_loop.simps) (simp add: Let_def half_def mid_def)
      have lo: "\<forall>i < mid. f (xs ! i) \<noteq> Greater"
        using le mono mid by (auto simp: upwards_def)
      have win: "mid + (sz - half) = base + sz" using h by (simp add: mid_def)
      have "bs_answer f xs mid (bs_loop f xs (sz - half) mid)"
        using less.IH [of "sz - half" mid] less.prems lo h by (simp add: win)
      then show ?thesis using le by (auto simp: eq bs_answer_def mid_def)
    qed
  qed
qed

lemma bs_loop_whole:
  "upwards f xs \<Longrightarrow> xs \<noteq> [] \<Longrightarrow> bs_answer f xs 0 (bs_loop f xs (length xs) 0)"
  by (rule bs_loop_answer) auto

text \<open>
  On a slice that is partitioned (the documented precondition), \<open>partition_point\<close> is the
  length of the first part.
\<close>

definition partitioned :: "('a \<Rightarrow> bool) \<Rightarrow> 'a list \<Rightarrow> bool" where
  "partitioned p xs \<longleftrightarrow> (\<forall>j < length xs. \<forall>i \<le> j. p (xs ! j) \<longrightarrow> p (xs ! i))"

definition splits_at :: "('a \<Rightarrow> bool) \<Rightarrow> 'a list \<Rightarrow> nat \<Rightarrow> bool" where
  "splits_at p xs n \<longleftrightarrow> n \<le> length xs \<and> (\<forall>i < length xs. p (xs ! i) \<longleftrightarrow> i < n)"

lemma partition_point_splits:
  assumes "partitioned p xs"
  shows "splits_at p xs (partition_point p xs)"
proof (cases "xs = []")
  case True
  then show ?thesis by (simp add: splits_at_def partition_point_def binary_search_by_def)
next
  case False
  let ?f = "\<lambda>x. if p x then Less else Greater"
  define r where "r = bs_loop ?f xs (length xs) 0"
  have "upwards ?f xs" using assms by (auto simp: upwards_def partitioned_def)
  from bs_loop_whole [OF this False]
  have "bs_answer ?f xs 0 r" by (simp add: r_def)
  then have pre: "i < r \<Longrightarrow> p (xs ! i)"
    and post: "r < i \<Longrightarrow> i < length xs \<Longrightarrow> \<not> p (xs ! i)" and len: "r < length xs" for i
    by (auto simp: bs_answer_def split: if_splits)
  have "partition_point p xs = (if p (xs ! r) then r + 1 else r)"
    using False by (simp add: partition_point_def binary_search_by_def Let_def r_def)
  moreover have "p (xs ! i) \<longleftrightarrow> i < (if p (xs ! r) then r + 1 else r)" if "i < length xs" for i
  proof -
    consider "i < r" | "i = r" | "r < i" by arith
    then show ?thesis by cases (use pre post that in auto)
  qed
  ultimately show ?thesis using len by (simp add: splits_at_def)
qed

lemma splits_at_unique: "splits_at p xs m \<Longrightarrow> splits_at p xs n \<Longrightarrow> m = n"
  unfolding splits_at_def by (metis linorder_neqE_nat nat_less_le order.strict_trans2)

lemma partition_point_eq:
  "partitioned p xs \<Longrightarrow> splits_at p xs n \<Longrightarrow> partition_point p xs = n"
  by (blast intro: splits_at_unique partition_point_splits)

lemma partition_point_takeWhile:
  "partitioned p xs \<Longrightarrow> partition_point p xs = length (takeWhile p xs)"
proof (rule partition_point_eq)
  assume part: "partitioned p xs"
  have "p (xs ! i) \<longleftrightarrow> i < length (takeWhile p xs)" if "i < length xs" for i
  proof (cases "i < length (takeWhile p xs)")
    case True
    then show ?thesis by (metis nth_mem set_takeWhileD takeWhile_nth)
  next
    case False
    then have "length (takeWhile p xs) < length xs" using that by simp
    then have "\<not> p (xs ! length (takeWhile p xs))" by (rule nth_length_takeWhile)
    with False that part show ?thesis by (auto simp: partitioned_def not_less)
  qed
  then show "splits_at p xs (length (takeWhile p xs))"
    by (simp add: splits_at_def length_takeWhile_le)
qed

text \<open>
  On strictly increasing keys, the search finds the key if it is there and otherwise answers
  the only index at which inserting it keeps the keys increasing.
\<close>

lemma compare_Greater [simp]: "compare a b = Greater \<longleftrightarrow> b < a"
  by (auto simp: compare_def)

lemma binary_search_by_key_cases:
  assumes sorted: "sorted_wrt (<) (map g xs)"
  obtains (Found) i where "binary_search_by_key k g xs = Inr i" "i < length xs" "g (xs ! i) = k"
  | (Missing) i where "binary_search_by_key k g xs = Inl i" "splits_at (\<lambda>x. g x < k) xs i"
      "k \<notin> g ` set xs"
proof (cases "xs = []")
  case True
  then show thesis
    by (intro Missing [of 0])
      (simp_all add: binary_search_by_key_def binary_search_by_def splits_at_def)
next
  case False
  let ?f = "\<lambda>x. compare (g x) k"
  define r where "r = bs_loop ?f xs (length xs) 0"
  have inc: "g (xs ! i) < g (xs ! j)" if "i < j" "j < length xs" for i j
    using sorted that by (simp add: sorted_wrt_iff_nth_less)
  have "upwards ?f xs"
    unfolding upwards_def by (metis compare_Greater inc le_less less_trans)
  from bs_loop_whole [OF this False]
  have ans: "bs_answer ?f xs 0 r" by (simp add: r_def)
  then have len: "r < length xs" and after: "\<forall>i < length xs. r < i \<longrightarrow> k < g (xs ! i)"
    and start: "r = 0 \<or> g (xs ! r) \<le> k"
    by (auto simp: bs_answer_def not_less)
  have before: "g (xs ! i) < k" if "i < r" for i
    using start inc [OF that len] that by auto
  have eq: "binary_search_by_key k g xs =
      (if g (xs ! r) < k then Inl (r + 1) else if g (xs ! r) = k then Inr r else Inl r)"
    using False
    by (simp add: binary_search_by_key_def binary_search_by_def Let_def compare_def r_def)
  have split: "splits_at (\<lambda>x. g x < k) xs (if g (xs ! r) < k then r + 1 else r)"
    if "g (xs ! r) \<noteq> k"
    unfolding splits_at_def
  proof (intro conjI allI impI)
    show "(if g (xs ! r) < k then r + 1 else r) \<le> length xs" using len by auto
    fix i assume "i < length xs"
    then consider "i < r" | "i = r" | "r < i" "k < g (xs ! i)" using after by force
    then show "(g (xs ! i) < k) = (i < (if g (xs ! r) < k then r + 1 else r))"
      by cases (use before in auto)
  qed
  have "k \<notin> g ` set xs" if "g (xs ! r) \<noteq> k"
  proof
    assume "k \<in> g ` set xs"
    then obtain i where "i < length xs" "g (xs ! i) = k" by (auto simp: in_set_conv_nth)
    then show False using before after that by (metis less_irrefl linorder_neqE_nat)
  qed
  with split show thesis
    using Found [of r] Missing [of "if g (xs ! r) < k then r + 1 else r"] len eq
    by (cases "g (xs ! r) = k") (simp_all split: if_splits)
qed

section \<open>Range bounds and layouts\<close>

text \<open>\<open>std::ops::Bound<isize>\<close> and \<open>std::alloc::Layout\<close>.\<close>

datatype bound = Included int | Excluded int | Unbounded

record layout =
  layout_size :: nat
  layout_align :: nat

end
