(* ===== verification/Vec_Spec.thy ===== *)
theory Vec_Spec
  imports Prelude
begin

text \<open>
  The interface through which the process context uses its vectors: a state with contents, on
  which \<open>insert(index, value)\<close> is list insertion. The sorted tables of the process context
  are proved against this interface once; \<open>Pod_Vec\<close> provides it.
\<close>

text \<open>A sequence of insertions, stopping at the first panic.\<close>

fun run_inserts :: "('s \<Rightarrow> nat \<Rightarrow> 'a \<Rightarrow> 's option) \<Rightarrow> 's \<Rightarrow> (nat \<times> 'a) list \<Rightarrow> 's option" where
  "run_inserts ins s [] = Some s"
| "run_inserts ins s ((i, x) # ops) = Option.bind (ins s i x) (\<lambda>s'. run_inserts ins s' ops)"

definition list_insert_at :: "'a list \<Rightarrow> nat \<Rightarrow> 'a \<Rightarrow> 'a list option" where
  "list_insert_at xs i x = vec_insert i x xs"

lemma sorted_wrt_insert_at:
  fixes g :: "'a \<Rightarrow> 'k::linorder"
  assumes "sorted_wrt (<) (map g xs)" and "splits_at (\<lambda>y. g y < g x) xs i" and "g x \<notin> g ` set xs"
  shows "sorted_wrt (<) (map g (take i xs @ x # drop i xs))"
proof -
  have lt: "g y < g x" if "y \<in> set (take i xs)" for y
    using that assms(2) by (auto simp: splits_at_def in_set_conv_nth)
  have gt: "g x < g y" if y: "y \<in> set (drop i xs)" for y
  proof -
    from y obtain j where "j < length xs - i" "y = xs ! (i + j)" by (auto simp: in_set_conv_nth)
    then have "\<not> g y < g x" "y \<in> set xs" using assms(2) by (auto simp: splits_at_def)
    with assms(3) show ?thesis by (metis image_eqI not_less_iff_gr_or_eq)
  qed
  have "sorted_wrt (<) (map g (take i xs) @ map g (drop i xs))"
    using assms(1) by (metis append_take_drop_id map_append)
  then show ?thesis
    using lt gt by (auto simp: sorted_wrt_append intro: less_trans)
qed

locale index_vec =
  fixes inv :: "'s \<Rightarrow> bool"
    and contents :: "'s \<Rightarrow> 'a list option"
    and insert :: "'s \<Rightarrow> nat \<Rightarrow> 'a \<Rightarrow> 's option"
  assumes contents_total: "inv s \<Longrightarrow> contents s \<noteq> None"
    and insert_inv: "inv s \<Longrightarrow> insert s i x = Some s' \<Longrightarrow> inv s'"
    and insert_contents: "inv s \<Longrightarrow> contents s = Some xs \<Longrightarrow> insert s i x = Some s' \<Longrightarrow>
          contents s' = list_insert_at xs i x"
begin

lemma run_refines:
  "inv s \<Longrightarrow> contents s = Some xs \<Longrightarrow> run_inserts insert s ops = Some s' \<Longrightarrow>
    inv s' \<and> contents s' = run_inserts list_insert_at xs ops"
proof (induction ops arbitrary: s xs)
  case Nil
  then show ?case by simp
next
  case (Cons op ops)
  obtain i x where op: "op = (i, x)" by (cases op)
  with Cons.prems obtain t where t: "insert s i x = Some t" "run_inserts insert t ops = Some s'"
    by (auto simp: bind_eq_Some_conv)
  from Cons.prems t have "inv t" by (blast intro: insert_inv)
  moreover from this obtain ys where ys: "contents t = Some ys" using contents_total by blast
  moreover have "list_insert_at xs i x = Some ys"
    using insert_contents [OF Cons.prems(1,2) t(1)] ys by simp
  ultimately show ?case using Cons.IH t(2) by (simp add: op)
qed

lemma insert_sorted:
  assumes "inv s" and "contents s = Some xs" and "sorted_wrt (<) (map g xs)"
    and "binary_search_by_key (g x) g xs = Inl i" and "insert s i x = Some s'"
  obtains ys where "contents s' = Some ys" "sorted_wrt (<) (map g ys)"
    "set ys = Set.insert x (set xs)"
proof -
  from binary_search_by_key_cases [OF assms(3), of "g x"] assms(4)
  have i: "splits_at (\<lambda>y. g y < g x) xs i" "g x \<notin> g ` set xs" by (metis Inl_Inr_False sum.inject(1))+
  have "list_insert_at xs i x \<noteq> None"
    using insert_contents [OF assms(1,2,5)] contents_total [OF insert_inv [OF assms(1,5)]] by simp
  then have ins: "vec_insert i x xs = Some (take i xs @ x # drop i xs)"
    by (auto simp: list_insert_at_def vec_insert_def split: if_splits)
  let ?ys = "take i xs @ x # drop i xs"
  have "contents s' = Some ?ys"
    using insert_contents [OF assms(1,2,5)] ins by (simp add: list_insert_at_def)
  moreover have "set ?ys = Set.insert x (set xs)"
    by (rule vec_insert_set [OF ins])
  ultimately show thesis
    using that sorted_wrt_insert_at [OF assms(3) i] by blast
qed

end

end
