(* ===== verification/Pod_Vec.thy ===== *)
theory Pod_Vec
  imports Vec_Spec
begin

text \<open>
  \<open>PodVec<T>\<close> (\<open>abi/src/alloc/vec.rs\<close>) and its growth on Linux
  (\<open>abi/src/alloc/linux.rs\<close>): a vector whose storage is a mapping obtained from the
  operating system. The memory is a typed store with one cell per element address, and the
  list of live mappings; \<open>mmap\<close> is a parameter. The contract shown is that \<open>insert\<close> is
  list insertion on the elements the vector holds, that every access stays inside the current
  mapping, and that growing leaks no mapping and touches nothing else.
\<close>

section \<open>State\<close>

record pod_vec =
  pv_ptr :: nat
  pv_len :: nat
  pv_cap :: nat
  pv_raw_ptr :: nat
  pv_raw_len :: nat

text \<open>
  The process memory: \<open>cells a\<close> is the value of type \<open>T\<close> stored at byte address \<open>a\<close>
  (\<open>None\<close>: never written or unmapped), \<open>mapped\<close> the live mappings as address and length.
\<close>

record 'a mem =
  cells :: "nat \<Rightarrow> 'a option"
  mapped :: "(nat \<times> nat) list"

text \<open>\<open>PodVec::new\<close> is the all-zero bit pattern.\<close>

definition pod_vec_new :: pod_vec where
  "pod_vec_new = \<lparr>pv_ptr = 0, pv_len = 0, pv_cap = 0, pv_raw_ptr = 0, pv_raw_len = 0\<rparr>"

section \<open>Operations\<close>

text \<open>
  \<open>ptr::copy_from\<close> and \<open>ptr::copy_from_nonoverlapping\<close>: \<open>n\<close> elements of \<open>sz\<close> bytes
  move at once, so overlapping ranges are copied as by \<open>memmove\<close>.
\<close>

definition copy_cells :: "nat \<Rightarrow> nat \<Rightarrow> nat \<Rightarrow> nat \<Rightarrow> (nat \<Rightarrow> 'a option) \<Rightarrow> (nat \<Rightarrow> 'a option)" where
  "copy_cells sz dst src n c =
     (\<lambda>a. if dst \<le> a \<and> a < dst + n * sz \<and> (a - dst) mod sz = 0 then c (src + (a - dst)) else c a)"

text \<open>\<open>munmap\<close>: the mapping is gone, and so is what it stored.\<close>

definition munmap :: "nat \<Rightarrow> nat \<Rightarrow> 'a mem \<Rightarrow> 'a mem" where
  "munmap p n m = m\<lparr>cells := (\<lambda>a. if p \<le> a \<and> a < p + n then None else cells m a),
                    mapped := remove1 (p, n) (mapped m)\<rparr>"

definition as_ptr :: "layout \<Rightarrow> pod_vec \<Rightarrow> nat" where
  "as_ptr ty v = (if pv_cap v = 0 then layout_align ty else pv_ptr v)"

text \<open>\<open>as_slice\<close>: the elements, or \<open>None\<close> if one of them is not initialized memory.\<close>

definition as_slice :: "layout \<Rightarrow> 'a mem \<Rightarrow> pod_vec \<Rightarrow> 'a list option" where
  "as_slice ty m v = those (map (\<lambda>i. cells m (as_ptr ty v + i * layout_size ty)) [0..<pv_len v])"

definition checked_mul :: "nat \<Rightarrow> nat \<Rightarrow> nat option" where
  "checked_mul a b = (if a * b < usize_size then Some (a * b) else None)"

definition raw_len_for_grow :: "layout \<Rightarrow> pod_vec \<Rightarrow> nat \<Rightarrow> nat option" where
  "raw_len_for_grow ty v align = do {
     new_cap \<leftarrow> checked_add (pv_cap v) (max (pv_cap v div 2) 1);
     bytes \<leftarrow> checked_mul new_cap (layout_size ty);
     aligned \<leftarrow> (if align < layout_align ty then checked_add bytes (layout_align ty - 1)
                 else Some bytes);
     next_multiple_of aligned align
   }"

text \<open>\<open>ptr::align_offset\<close>, in bytes.\<close>

definition align_offset :: "nat \<Rightarrow> nat \<Rightarrow> nat" where
  "align_offset p al = (if p mod al = 0 then 0 else al - p mod al)"

text \<open>Moves the elements to a new mapping; answers the old one.\<close>

definition raw_ptr_assign ::
    "layout \<Rightarrow> 'a mem \<Rightarrow> pod_vec \<Rightarrow> nat \<Rightarrow> nat \<Rightarrow> 'a mem \<times> pod_vec \<times> (nat \<times> nat)" where
  "raw_ptr_assign ty m v raw_ptr raw_len =
     (let off = align_offset raw_ptr (layout_align ty);
          new_ptr = raw_ptr + off;
          m' = m\<lparr>cells := copy_cells (layout_size ty) new_ptr (as_ptr ty v) (pv_len v) (cells m)\<rparr>;
          v' = v\<lparr>pv_ptr := new_ptr, pv_cap := (raw_len - off) div layout_size ty,
                 pv_raw_ptr := raw_ptr, pv_raw_len := raw_len\<rparr>
      in (m', v', (pv_raw_ptr v, pv_raw_len v)))"

text \<open>
  \<open>mm ms n\<close> is the kernel's answer to an anonymous \<open>mmap\<close> of \<open>n\<close> bytes when \<open>ms\<close> is
  mapped (\<open>None\<close>: \<open>MAP_FAILED\<close>, on which the code panics), \<open>page\<close> the page size.
\<close>

definition reserve_one_realloc ::
    "((nat \<times> nat) list \<Rightarrow> nat \<Rightarrow> nat option) \<Rightarrow> nat \<Rightarrow> layout \<Rightarrow> 'a mem \<Rightarrow> pod_vec
      \<Rightarrow> ('a mem \<times> pod_vec) option" where
  "reserve_one_realloc mm page ty m v = do {
     raw_len \<leftarrow> raw_len_for_grow ty v page;
     raw_ptr \<leftarrow> mm (mapped m) raw_len;
     let m0 = m\<lparr>mapped := (raw_ptr, raw_len) # mapped m\<rparr>;
     (case raw_ptr_assign ty m0 v raw_ptr raw_len of
        (m', v', (old_ptr, old_len)) \<Rightarrow>
          Some (if old_ptr = 0 then (m', v') else (munmap old_ptr old_len m', v')))
   }"

definition reserve_one ::
    "((nat \<times> nat) list \<Rightarrow> nat \<Rightarrow> nat option) \<Rightarrow> nat \<Rightarrow> layout \<Rightarrow> 'a mem \<Rightarrow> pod_vec
      \<Rightarrow> ('a mem \<times> pod_vec) option" where
  "reserve_one mm page ty m v =
     (if pv_len v = pv_cap v then reserve_one_realloc mm page ty m v else Some (m, v))"

definition pod_vec_insert ::
    "((nat \<times> nat) list \<Rightarrow> nat \<Rightarrow> nat option) \<Rightarrow> nat \<Rightarrow> layout \<Rightarrow> 'a mem \<Rightarrow> pod_vec
      \<Rightarrow> nat \<Rightarrow> 'a \<Rightarrow> ('a mem \<times> pod_vec) option" where
  "pod_vec_insert mm page ty m v index value =
     (if \<not> index \<le> pv_len v then None
      else do {
        (m1, v1) \<leftarrow> reserve_one mm page ty m v;
        let sz = layout_size ty;
        let ptr = pv_ptr v1 + index * sz;
        let c1 = (if index \<noteq> pv_len v1
                  then copy_cells sz (ptr + sz) ptr (pv_len v1 - index) (cells m1)
                  else cells m1);
        Some (m1\<lparr>cells := c1(ptr \<mapsto> value)\<rparr>, v1\<lparr>pv_len := pv_len v1 + 1\<rparr>)
      })"

section \<open>Invariant\<close>

definition ranges_apart :: "nat \<times> nat \<Rightarrow> nat \<times> nat \<Rightarrow> bool" where
  "ranges_apart a b \<longleftrightarrow> fst a + snd a \<le> fst b \<or> fst b + snd b \<le> fst a"

text \<open>What \<open>mmap\<close> promises: a non-null, page-aligned range apart from every live mapping.\<close>

definition mmap_ok :: "((nat \<times> nat) list \<Rightarrow> nat \<Rightarrow> nat option) \<Rightarrow> nat \<Rightarrow> bool" where
  "mmap_ok mm page \<longleftrightarrow> (\<forall>ms n p. mm ms n = Some p \<longrightarrow>
     0 < p \<and> p mod page = 0 \<and> (\<forall>r \<in> set ms. ranges_apart (p, n) r))"

definition type_ok :: "layout \<Rightarrow> nat \<Rightarrow> bool" where
  "type_ok ty page \<longleftrightarrow> 0 < layout_size ty
     \<and> (\<exists>j. layout_align ty = 2 ^ j) \<and> (\<exists>k. page = 2 ^ k)"

definition pod_vec_inv :: "layout \<Rightarrow> 'a mem \<Rightarrow> pod_vec \<Rightarrow> bool" where
  "pod_vec_inv ty m v \<longleftrightarrow>
     pv_len v \<le> pv_cap v \<and> pv_cap v \<le> usize_max
     \<and> sorted_wrt ranges_apart (mapped m)
     \<and> (if pv_cap v = 0 then pv_raw_ptr v = 0
        else pv_raw_ptr v \<noteq> 0
          \<and> (pv_raw_ptr v, pv_raw_len v) \<in> set (mapped m)
          \<and> pv_raw_ptr v \<le> pv_ptr v
          \<and> pv_ptr v + pv_cap v * layout_size ty \<le> pv_raw_ptr v + pv_raw_len v
          \<and> pv_ptr v mod layout_align ty = 0)"

definition holds :: "layout \<Rightarrow> 'a mem \<Rightarrow> pod_vec \<Rightarrow> 'a list \<Rightarrow> bool" where
  "holds ty m v xs \<longleftrightarrow> length xs = pv_len v
     \<and> (\<forall>i < pv_len v. cells m (pv_ptr v + i * layout_size ty) = Some (xs ! i))"

lemma those_Some: "those ys = Some xs \<longleftrightarrow> ys = map Some xs"
  by (induction ys arbitrary: xs) (auto split: option.splits)

lemma map_upt_eq_Some:
  "map f [0..<n] = map Some xs \<longleftrightarrow> length xs = n \<and> (\<forall>i < n. f i = Some (xs ! i))"
  by (simp only: list_eq_iff_nth_eq) auto

lemma as_slice_holds:
  "pod_vec_inv ty m v \<Longrightarrow> as_slice ty m v = Some xs \<longleftrightarrow> holds ty m v xs"
  unfolding as_slice_def those_Some holds_def map_upt_eq_Some
  by (cases "pv_len v = 0") (simp_all add: as_ptr_def pod_vec_inv_def)

lemma pod_vec_new_inv: "sorted_wrt ranges_apart (mapped m) \<Longrightarrow> pod_vec_inv ty m pod_vec_new"
  by (simp add: pod_vec_inv_def pod_vec_new_def)

lemma pod_vec_new_empty: "as_slice ty m pod_vec_new = Some []"
  by (simp add: as_slice_def pod_vec_new_def)

section \<open>Copies and mappings\<close>

lemma copy_cells_inside:
  "0 < sz \<Longrightarrow> i < n \<Longrightarrow> copy_cells sz dst src n c (dst + i * sz) = c (src + i * sz)"
  by (simp add: copy_cells_def)

lemma copy_cells_outside:
  "a < dst \<or> dst + n * sz \<le> a \<Longrightarrow> copy_cells sz dst src n c a = c a"
  by (auto simp: copy_cells_def)

lemma raw_len_for_grow_room:
  assumes "raw_len_for_grow ty v page = Some n"
  shows "(pv_cap v + 1) * layout_size ty + (if page < layout_align ty then layout_align ty - 1 else 0) \<le> n"
    and "n \<le> usize_max"
proof -
  let ?new = "pv_cap v + max (pv_cap v div 2) 1"
  from assms obtain aligned where al: "next_multiple_of aligned page = Some n"
    and eq: "aligned = ?new * layout_size ty + (if page < layout_align ty then layout_align ty - 1 else 0)"
    and lt: "aligned < usize_size"
    by (auto simp: raw_len_for_grow_def checked_add_def checked_mul_def bind_eq_Some_conv
        split: if_splits)
  have "(pv_cap v + 1) * layout_size ty \<le> ?new * layout_size ty" by (intro mult_le_mono1) simp
  with eq next_multiple_of_Some(1) [OF al]
  show "(pv_cap v + 1) * layout_size ty + (if page < layout_align ty then layout_align ty - 1 else 0) \<le> n"
    by linarith
  show "n \<le> usize_max"
    using next_multiple_of_bounded [OF al lt] by (simp add: usize_max_less)
qed

lemma align_offset_room:
  assumes "type_ok ty page" and "p mod page = 0"
  shows "align_offset p (layout_align ty) \<le> (if page < layout_align ty then layout_align ty - 1 else 0)"
    and "(p + align_offset p (layout_align ty)) mod layout_align ty = 0"
proof -
  let ?al = "layout_align ty"
  from assms(1) obtain j k where jk: "?al = 2 ^ j" "page = 2 ^ k" by (auto simp: type_ok_def)
  then have pos: "0 < ?al" by simp
  have "?al dvd page" if "\<not> page < ?al"
  proof -
    from that jk have "(2::nat) ^ j \<le> 2 ^ k" by simp
    then have "j \<le> k" by (rule power_le_imp_le_exp [rotated]) simp
    then show ?thesis unfolding jk by (rule le_imp_power_dvd)
  qed
  then have "p mod ?al = 0" if "\<not> page < ?al"
    using that assms(2) by (metis dvd_trans mod_eq_0_iff_dvd)
  moreover have "p mod ?al < ?al" using pos by simp
  ultimately show "align_offset p ?al \<le> (if page < ?al then ?al - 1 else 0)"
    by (auto simp: align_offset_def)
  show "(p + align_offset p ?al) mod ?al = 0"
  proof (cases "p mod ?al = 0")
    case True
    then show ?thesis by (simp add: align_offset_def)
  next
    case False
    have "p + (?al - p mod ?al) = (p - p mod ?al) + ?al"
      using pos by (simp add: less_imp_le)
    also have "\<dots> = ?al * (p div ?al) + ?al" by (simp only: minus_mod_eq_mult_div)
    finally have "(p + (?al - p mod ?al)) mod ?al = 0" by simp
    with False show ?thesis by (simp add: align_offset_def)
  qed
qed

section \<open>Growing\<close>

lemma ranges_apart_sym: "ranges_apart a b \<Longrightarrow> ranges_apart b a"
  by (auto simp: ranges_apart_def)

lemma sorted_wrt_remove1: "sorted_wrt P xs \<Longrightarrow> sorted_wrt P (remove1 x xs)"
  by (induction xs) (auto dest: notin_set_remove1 set_remove1_subset [THEN subsetD])

text \<open>An address inside a mapping is in no other one.\<close>

definition in_range :: "nat \<Rightarrow> nat \<times> nat \<Rightarrow> bool" where
  "in_range a r \<longleftrightarrow> fst r \<le> a \<and> a < fst r + snd r"

lemma in_range_apart: "ranges_apart r s \<Longrightarrow> in_range a r \<Longrightarrow> \<not> in_range a s"
  by (auto simp: ranges_apart_def in_range_def)

lemma slot_step: "i < k \<Longrightarrow> i * sz + sz \<le> k * (sz::nat)"
  using mult_le_mono1 [of "Suc i" k sz] by simp

lemma slot_in_range:
  assumes "pod_vec_inv ty m v" and "0 < layout_size ty" and "i < pv_cap v"
  shows "in_range (pv_ptr v + i * layout_size ty) (pv_raw_ptr v, pv_raw_len v)"
proof -
  have inv: "pv_raw_ptr v \<le> pv_ptr v"
    "pv_ptr v + pv_cap v * layout_size ty \<le> pv_raw_ptr v + pv_raw_len v"
    using assms(1,3) by (simp_all add: pod_vec_inv_def)
  show ?thesis
    unfolding in_range_def fst_conv snd_conv
    using inv assms(2) slot_step [OF assms(3), of "layout_size ty"] by linarith
qed

lemma reserve_one_realloc_correct:
  assumes mm: "mmap_ok mm page" and ty: "type_ok ty page"
    and inv: "pod_vec_inv ty m v" and xs: "holds ty m v xs"
    and r: "reserve_one_realloc mm page ty m v = Some (m', v')"
  shows "pod_vec_inv ty m' v'" and "holds ty m' v' xs" and "pv_len v' = pv_len v"
    and "pv_cap v < pv_cap v'"
    and "mapped m' = (pv_raw_ptr v', pv_raw_len v') #
           (if pv_raw_ptr v = 0 then mapped m else remove1 (pv_raw_ptr v, pv_raw_len v) (mapped m))"
    and "\<And>a. \<not> in_range a (pv_raw_ptr v', pv_raw_len v') \<Longrightarrow>
           \<not> (pv_raw_ptr v \<noteq> 0 \<and> in_range a (pv_raw_ptr v, pv_raw_len v)) \<Longrightarrow> cells m' a = cells m a"
proof -
  let ?sz = "layout_size ty" and ?al = "layout_align ty"
  let ?old = "(pv_raw_ptr v, pv_raw_len v)"
  from r obtain n p where n: "raw_len_for_grow ty v page = Some n"
    and p: "mm (mapped m) n = Some p"
    by (auto simp: reserve_one_realloc_def bind_eq_Some_conv)
  define off where "off = align_offset p ?al"
  define c where "c = copy_cells ?sz (p + off) (as_ptr ty v) (pv_len v) (cells m)"
  have m': "m' = (if pv_raw_ptr v = 0 then m\<lparr>mapped := (p, n) # mapped m, cells := c\<rparr>
      else munmap (pv_raw_ptr v) (pv_raw_len v) (m\<lparr>mapped := (p, n) # mapped m, cells := c\<rparr>))"
    and v': "v' = v\<lparr>pv_ptr := p + off, pv_cap := (n - off) div ?sz, pv_raw_ptr := p, pv_raw_len := n\<rparr>"
    using r n p
    by (auto simp: reserve_one_realloc_def raw_ptr_assign_def Let_def off_def c_def split: if_splits)
  from mm p have p0: "0 < p" and pmod: "p mod page = 0"
    and apart: "\<forall>s \<in> set (mapped m). ranges_apart (p, n) s"
    by (auto simp: mmap_ok_def)
  have sz: "0 < ?sz" using ty by (simp add: type_ok_def)
  have room: "off + (pv_cap v + 1) * ?sz \<le> n"
    using align_offset_room(1) [OF ty pmod] raw_len_for_grow_room(1) [OF n]
    by (simp add: off_def)
  then have "(pv_cap v + 1) * ?sz div ?sz \<le> (n - off) div ?sz" by (intro div_le_mono) simp
  with sz have cap: "pv_cap v < pv_cap v'" by (simp add: v')
  then show "pv_cap v < pv_cap v'" .
  show len: "pv_len v' = pv_len v" by (simp add: v')
  have max: "(n - off) div ?sz \<le> usize_max"
    using raw_len_for_grow_room(2) [OF n] by (meson diff_le_self div_le_dividend le_trans)
  have new: "(n - off) div ?sz * ?sz + off \<le> n"
    using room div_times_less_eq_dividend [of "n - off" ?sz] by linarith
  have old_mapped: "pv_raw_ptr v \<noteq> 0 \<Longrightarrow> ?old \<in> set (mapped m)"
    using inv by (auto simp: pod_vec_inv_def split: if_splits)
  with p0 apart have ne: "pv_raw_ptr v \<noteq> 0 \<Longrightarrow> ranges_apart (p, n) ?old" by blast
  have n0: "0 < n" using room sz by (metis add_gr_0 le_add2 le_zero_eq mult_is_0 neq0_conv add_is_0 zero_neq_one)
  have diff: "pv_raw_ptr v \<noteq> 0 \<Longrightarrow> (p, n) \<noteq> ?old"
    using ne n0 by (auto simp: ranges_apart_def)
  show mapped': "mapped m' = (pv_raw_ptr v', pv_raw_len v') #
      (if pv_raw_ptr v = 0 then mapped m else remove1 ?old (mapped m))"
    using diff by (auto simp: m' v' munmap_def)
  show "pod_vec_inv ty m' v'"
    unfolding pod_vec_inv_def mapped'
    using inv p0 new max cap apart align_offset_room(2) [OF ty pmod] len
    by (auto simp: pod_vec_inv_def v' off_def algebra_simps sorted_wrt_remove1
        dest: set_remove1_subset [THEN subsetD] split: if_splits)
  have keep: "\<not> in_range a ?old" if "pv_raw_ptr v \<noteq> 0" "in_range a (p, n)" for a
    using in_range_apart [OF ne [OF that(1)] that(2)] .
  have cells': "cells m' a = c a" if "in_range a (p, n) \<or> pv_raw_ptr v = 0 \<or> \<not> in_range a ?old" for a
    using that keep [of a] by (auto simp: m' munmap_def in_range_def)
  show "holds ty m' v' xs"
    unfolding holds_def
  proof (intro conjI allI impI)
    show "length xs = pv_len v'" using xs len by (simp add: holds_def)
    fix i assume "i < pv_len v'"
    then have i: "i < pv_len v" "i < pv_cap v'" "pv_cap v \<noteq> 0"
      using len cap inv by (auto simp: pod_vec_inv_def)
    have "in_range (pv_ptr v' + i * ?sz) (pv_raw_ptr v', pv_raw_len v')"
      by (rule slot_in_range [OF \<open>pod_vec_inv ty m' v'\<close> sz i(2)])
    then have "cells m' (pv_ptr v' + i * ?sz) = c (p + off + i * ?sz)"
      by (subst cells') (simp_all add: v')
    also have "\<dots> = cells m (pv_ptr v + i * ?sz)"
      using i copy_cells_inside [OF sz i(1)] by (simp add: c_def as_ptr_def)
    finally show "cells m' (pv_ptr v' + i * ?sz) = Some (xs ! i)"
      using xs i(1) by (simp add: holds_def)
  qed
  fix a assume a: "\<not> in_range a (pv_raw_ptr v', pv_raw_len v')"
    "\<not> (pv_raw_ptr v \<noteq> 0 \<and> in_range a ?old)"
  have "pv_len v * ?sz \<le> pv_cap v * ?sz"
    using inv by (intro mult_le_mono1) (simp add: pod_vec_inv_def)
  with room have "off + pv_len v * ?sz \<le> n" unfolding add_mult_distrib by linarith
  with a have "c a = cells m a"
    unfolding c_def by (intro copy_cells_outside) (auto simp: in_range_def v')
  with a show "cells m' a = cells m a" by (subst cells') auto
qed

section \<open>Insertion\<close>

lemma vec_insert_nth:
  "i \<le> length xs \<Longrightarrow> k \<le> length xs \<Longrightarrow>
    (take i xs @ x # drop i xs) ! k = (if k < i then xs ! k else if k = i then x else xs ! (k - 1))"
  by (auto simp: nth_append nth_Cons' min_def)

text \<open>The state after the capacity check: room for one more element, same elements.\<close>

lemma reserve_one_correct:
  assumes "mmap_ok mm page" "type_ok ty page" "pod_vec_inv ty m v" "holds ty m v xs"
    and "reserve_one mm page ty m v = Some (m', v')"
  shows "pod_vec_inv ty m' v'" and "holds ty m' v' xs" and "pv_len v' = pv_len v"
    and "pv_len v' < pv_cap v'"
proof -
  have le: "pv_len v \<le> pv_cap v" using assms(3) by (simp add: pod_vec_inv_def)
  have "pod_vec_inv ty m' v' \<and> holds ty m' v' xs \<and> pv_len v' = pv_len v \<and> pv_len v' < pv_cap v'"
  proof (cases "pv_len v = pv_cap v")
    case True
    with assms(5) have r: "reserve_one_realloc mm page ty m v = Some (m', v')"
      by (simp add: reserve_one_def)
    show ?thesis
      using reserve_one_realloc_correct(1-4) [OF assms(1-4) r] True by simp
  next
    case False
    with assms le show ?thesis by (simp add: reserve_one_def)
  qed
  then show "pod_vec_inv ty m' v'" and "holds ty m' v' xs" and "pv_len v' = pv_len v"
    and "pv_len v' < pv_cap v'" by simp_all
qed

lemma pod_vec_insert_correct:
  assumes mm: "mmap_ok mm page" and ty: "type_ok ty page" and inv: "pod_vec_inv ty m v"
    and xs: "holds ty m v xs" and ins: "pod_vec_insert mm page ty m v i x = Some (m', v')"
  shows "pod_vec_inv ty m' v'" and "holds ty m' v' (take i xs @ x # drop i xs)"
    and "i \<le> length xs" and "length xs < usize_max"
proof -
  let ?sz = "layout_size ty"
  from ins obtain m1 v1 where i: "i \<le> pv_len v" and rs: "reserve_one mm page ty m v = Some (m1, v1)"
    by (auto simp: pod_vec_insert_def bind_eq_Some_conv split: if_splits)
  note r1 = reserve_one_correct [OF mm ty inv xs rs]
  define q where "q = pv_ptr v1 + i * ?sz"
  define c where "c = (if i \<noteq> pv_len v1 then copy_cells ?sz (q + ?sz) q (pv_len v1 - i) (cells m1)
    else cells m1)"
  have m': "m' = m1\<lparr>cells := c(q \<mapsto> x)\<rparr>" and v': "v' = v1\<lparr>pv_len := pv_len v1 + 1\<rparr>"
    using ins rs i by (auto simp: pod_vec_insert_def Let_def q_def c_def)
  have sz: "0 < ?sz" using ty by (simp add: type_ok_def)
  show "pod_vec_inv ty m' v'" using r1 by (auto simp: pod_vec_inv_def m' v' split: if_splits)
  show len: "i \<le> length xs" using i xs by (simp add: holds_def)
  show "length xs < usize_max" using r1 xs by (auto simp: holds_def pod_vec_inv_def)
  show "holds ty m' v' (take i xs @ x # drop i xs)"
    unfolding holds_def
  proof (intro conjI allI impI)
    show "length (take i xs @ x # drop i xs) = pv_len v'"
      using len xs r1(3) by (simp add: holds_def v')
    fix k assume "k < pv_len v'"
    then have k: "k \<le> length xs" using r1(2) by (simp add: v' holds_def)
    have old: "cells m1 (pv_ptr v1 + j * ?sz) = Some (xs ! j)" if "j < length xs" for j
      using r1(2) that by (simp add: holds_def)
    consider "k < i" | "k = i" | (gt) "i < k" by arith
    then show "cells m' (pv_ptr v' + k * ?sz) = Some ((take i xs @ x # drop i xs) ! k)"
    proof cases
      case 1
      then have "pv_ptr v1 + k * ?sz < q" using sz slot_step [OF 1, of ?sz] by (simp add: q_def)
      then have "cells m' (pv_ptr v' + k * ?sz) = cells m1 (pv_ptr v1 + k * ?sz)"
        by (simp add: m' v' c_def copy_cells_outside)
      with 1 len k show ?thesis by (simp add: old vec_insert_nth)
    next
      case 2
      with len show ?thesis by (simp add: m' v' q_def vec_insert_nth)
    next
      case gt
      have slot: "pv_ptr v1 + k * ?sz = (q + ?sz) + (k - 1 - i) * ?sz"
      proof -
        from gt have "k = i + 1 + (k - 1 - i)" by simp
        then have "k * ?sz = (i + 1 + (k - 1 - i)) * ?sz" by (rule arg_cong)
        then show ?thesis by (simp only: q_def add_mult_distrib mult_1 add.assoc)
      qed
      have "cells m' (pv_ptr v' + k * ?sz) = c (pv_ptr v1 + k * ?sz)"
        using slot sz by (simp add: m' v')
      also have "\<dots> = cells m1 (q + (k - 1 - i) * ?sz)"
        using gt k r1(2) sz unfolding slot by (simp add: c_def copy_cells_inside holds_def)
      also have "q + (k - 1 - i) * ?sz = pv_ptr v1 + (k - 1) * ?sz"
      proof -
        from gt have "i + (k - 1 - i) = k - 1" by simp
        then show ?thesis by (simp only: q_def add.assoc flip: add_mult_distrib)
      qed
      finally show ?thesis using gt len k by (simp add: old vec_insert_nth)
    qed
  qed
qed

section \<open>The vector as a list\<close>

text \<open>
  \<open>PodVec\<close> provides the interface: the invariant carries the kernel's promise on \<open>mmap\<close>.
\<close>

definition vec_inv ::
    "((nat \<times> nat) list \<Rightarrow> nat \<Rightarrow> nat option) \<Rightarrow> nat \<Rightarrow> layout \<Rightarrow> 'a mem \<times> pod_vec \<Rightarrow> bool" where
  "vec_inv mm page ty = (\<lambda>(m, v). mmap_ok mm page \<and> type_ok ty page \<and> pod_vec_inv ty m v
     \<and> as_slice ty m v \<noteq> None)"

definition vec_contents :: "layout \<Rightarrow> 'a mem \<times> pod_vec \<Rightarrow> 'a list option" where
  "vec_contents ty = (\<lambda>(m, v). as_slice ty m v)"

definition vec_insert_op ::
    "((nat \<times> nat) list \<Rightarrow> nat \<Rightarrow> nat option) \<Rightarrow> nat \<Rightarrow> layout \<Rightarrow> 'a mem \<times> pod_vec \<Rightarrow> nat \<Rightarrow> 'a
      \<Rightarrow> ('a mem \<times> pod_vec) option" where
  "vec_insert_op mm page ty = (\<lambda>(m, v) i x. pod_vec_insert mm page ty m v i x)"

lemma vec_insert_op_correct:
  assumes inv: "vec_inv mm page ty s" and xs: "vec_contents ty s = Some xs"
    and ins: "vec_insert_op mm page ty s i x = Some s'"
  shows "vec_inv mm page ty s'" and "vec_contents ty s' = list_insert_at xs i x"
proof -
  obtain m v m' v' where s: "s = (m, v)" "s' = (m', v')" by (metis surj_pair)
  from inv have i: "mmap_ok mm page" "type_ok ty page" "pod_vec_inv ty m v"
    by (auto simp: s vec_inv_def)
  have h: "holds ty m v xs" using xs as_slice_holds [OF i(3)] by (simp add: s vec_contents_def)
  have ins': "pod_vec_insert mm page ty m v i x = Some (m', v')"
    using ins by (simp add: s vec_insert_op_def)
  note c = pod_vec_insert_correct [OF i h ins']
  then have "as_slice ty m' v' = Some (take i xs @ x # drop i xs)"
    by (simp add: as_slice_holds)
  with c i show "vec_inv mm page ty s'" and "vec_contents ty s' = list_insert_at xs i x"
    by (simp_all add: s vec_inv_def vec_contents_def list_insert_at_def vec_insert_def)
qed

interpretation pv: index_vec "vec_inv mm page ty" "vec_contents ty" "vec_insert_op mm page ty"
  for mm page ty
proof unfold_locales
  fix s s' :: "'a mem \<times> pod_vec" and i x
  assume inv: "vec_inv mm page ty s"
  then show "vec_contents ty s \<noteq> None"
    by (cases s) (simp add: vec_inv_def vec_contents_def)
  then obtain xs where "vec_contents ty s = Some xs" by blast
  moreover assume "vec_insert_op mm page ty s i x = Some s'"
  ultimately show "vec_inv mm page ty s'" using vec_insert_op_correct(1) [OF inv] by blast
qed (rule vec_insert_op_correct(2))

section \<open>No mapping leaks\<close>

definition owned :: "pod_vec \<Rightarrow> (nat \<times> nat) list" where
  "owned v = (if pv_cap v = 0 then [] else [(pv_raw_ptr v, pv_raw_len v)])"

text \<open>What a vector may change of the memory around it: nothing of the other mappings.\<close>

definition only_own :: "(nat \<times> nat) list \<Rightarrow> 'a mem \<Rightarrow> 'a mem \<times> pod_vec \<Rightarrow> bool" where
  "only_own ms m0 = (\<lambda>(m, v). mapped m = owned v @ ms
     \<and> (\<forall>a. (\<exists>r \<in> set ms. in_range a r) \<longrightarrow> cells m a = cells m0 a))"

lemma vec_inv_holds:
  assumes "vec_inv mm page ty (m, v)"
  obtains xs where "mmap_ok mm page" "type_ok ty page" "pod_vec_inv ty m v" "holds ty m v xs"
  using assms as_slice_holds [of ty m v] by (auto simp: vec_inv_def)

lemma owned_apart:
  assumes "pod_vec_inv ty m v" and "only_own ms m0 (m, v)" and "pv_cap v \<noteq> 0"
    and "r \<in> set ms" and "in_range a r"
  shows "\<not> in_range a (pv_raw_ptr v, pv_raw_len v)"
proof -
  have "sorted_wrt ranges_apart (owned v @ ms)"
    using assms(1,2) by (simp add: pod_vec_inv_def only_own_def)
  with assms(3,4) have "ranges_apart (pv_raw_ptr v, pv_raw_len v) r" by (simp add: owned_def)
  with assms(5) show ?thesis by (blast intro: ranges_apart_sym dest: in_range_apart)
qed

lemma reserve_one_only_own:
  assumes i: "mmap_ok mm page" "type_ok ty page" "pod_vec_inv ty m v" "holds ty m v xs"
    and own: "only_own ms m0 (m, v)" and rs: "reserve_one mm page ty m v = Some (m1, v1)"
  shows "only_own ms m0 (m1, v1)"
proof (cases "pv_len v = pv_cap v")
  case False
  with rs own show ?thesis by (simp add: reserve_one_def)
next
  case True
  with rs have rr: "reserve_one_realloc mm page ty m v = Some (m1, v1)"
    by (simp add: reserve_one_def)
  note c = reserve_one_realloc_correct [OF i rr]
  have map1: "mapped m1 = owned v1 @ ms"
    using c(4,5) own i(3) by (auto simp: only_own_def owned_def pod_vec_inv_def)
  have "cells m1 a = cells m a" if r: "r \<in> set ms" "in_range a r" for a r
  proof (rule c(6))
    have "sorted_wrt ranges_apart (owned v1 @ ms)" using c(1) map1 by (simp add: pod_vec_inv_def)
    with r c(4) have "ranges_apart (pv_raw_ptr v1, pv_raw_len v1) r" by (simp add: owned_def)
    with r show "\<not> in_range a (pv_raw_ptr v1, pv_raw_len v1)"
      by (blast intro: ranges_apart_sym dest: in_range_apart)
    show "\<not> (pv_raw_ptr v \<noteq> 0 \<and> in_range a (pv_raw_ptr v, pv_raw_len v))"
      using owned_apart [OF i(3) own _ r] i(3) by (cases "pv_cap v = 0") (auto simp: pod_vec_inv_def)
  qed
  with own map1 show ?thesis by (auto simp: only_own_def)
qed

text \<open>The bytes an insertion writes, from slot \<open>i\<close> to one past the last, are the vector's own.\<close>

lemma insert_slots_inside:
  assumes inv: "pod_vec_inv ty m v" and sz: "0 < layout_size ty"
    and i: "i \<le> pv_len v" "pv_len v < pv_cap v"
    and out: "\<not> in_range a (pv_raw_ptr v, pv_raw_len v)"
  shows "a < pv_ptr v + i * layout_size ty
    \<or> pv_ptr v + i * layout_size ty + layout_size ty + (pv_len v - i) * layout_size ty \<le> a"
proof -
  let ?sz = "layout_size ty" and ?q = "pv_ptr v + i * layout_size ty"
  have b: "pv_raw_ptr v \<le> pv_ptr v" "pv_ptr v + pv_cap v * ?sz \<le> pv_raw_ptr v + pv_raw_len v"
    using inv i by (simp_all add: pod_vec_inv_def)
  have "?q + ?sz + (pv_len v - i) * ?sz = pv_ptr v + (i + (pv_len v - i)) * ?sz + ?sz"
    by (simp only: add_mult_distrib)
  also have "\<dots> = pv_ptr v + (pv_len v * ?sz + ?sz)" using i by simp
  finally have "?q + ?sz + (pv_len v - i) * ?sz \<le> pv_ptr v + pv_cap v * ?sz"
    using slot_step [OF i(2), of ?sz] by simp
  with out b sz show ?thesis unfolding in_range_def fst_conv snd_conv by linarith
qed

lemma pod_vec_insert_only_own:
  assumes inv: "vec_inv mm page ty (m, v)" and own: "only_own ms m0 (m, v)"
    and ins: "pod_vec_insert mm page ty m v i x = Some (m', v')"
  shows "only_own ms m0 (m', v')"
proof -
  let ?sz = "layout_size ty"
  obtain xs where i: "mmap_ok mm page" "type_ok ty page" "pod_vec_inv ty m v" "holds ty m v xs"
    using vec_inv_holds [OF inv] .
  from ins obtain m1 v1 where le: "i \<le> pv_len v" and rs: "reserve_one mm page ty m v = Some (m1, v1)"
    by (auto simp: pod_vec_insert_def bind_eq_Some_conv split: if_splits)
  note r1 = reserve_one_correct [OF i rs]
  have own1: "only_own ms m0 (m1, v1)" by (rule reserve_one_only_own [OF i own rs])
  have sz: "0 < ?sz" using i by (simp add: type_ok_def)
  define q where "q = pv_ptr v1 + i * ?sz"
  have m': "mapped m' = mapped m1" and v': "owned v' = owned v1"
    and cells': "cells m' a = (if a = q then Some x else if i \<noteq> pv_len v1
      then copy_cells ?sz (q + ?sz) q (pv_len v1 - i) (cells m1) a else cells m1 a)" for a
    using ins rs le by (auto simp: pod_vec_insert_def Let_def q_def owned_def)
  have "cells m' a = cells m1 a" if "r \<in> set ms" "in_range a r" for a r
  proof -
    have "\<not> in_range a (pv_raw_ptr v1, pv_raw_len v1)"
      using owned_apart [OF r1(1) own1 _ that] r1(4) by simp
    then have "a < q \<or> q + ?sz + (pv_len v1 - i) * ?sz \<le> a"
      unfolding q_def using insert_slots_inside [OF r1(1) sz _ r1(4)] le r1(3) by simp
    with sz have "a < q + ?sz \<or> q + ?sz + (pv_len v1 - i) * ?sz \<le> a" and "a \<noteq> q" by auto
    then show ?thesis by (simp add: cells' copy_cells_outside)
  qed
  with own1 show ?thesis by (auto simp: only_own_def m' v')
qed

lemma run_only_own:
  "vec_inv mm page ty s \<Longrightarrow> only_own ms m0 s \<Longrightarrow>
    run_inserts (vec_insert_op mm page ty) s ops = Some s' \<Longrightarrow> only_own ms m0 s'"
proof (induction ops arbitrary: s)
  case Nil
  then show ?case by simp
next
  case (Cons op ops)
  obtain i x m v where o: "op = (i, x)" "s = (m, v)" by (metis surj_pair)
  with Cons.prems(3) obtain t where t: "vec_insert_op mm page ty s i x = Some t"
      "run_inserts (vec_insert_op mm page ty) t ops = Some s'"
    by (auto simp: bind_eq_Some_conv)
  obtain m' v' where t': "t = (m', v')" by (cases t)
  have "only_own ms m0 t"
    using pod_vec_insert_only_own [of mm page ty m v ms m0 i x m' v'] Cons.prems(1,2) t(1)
    by (simp add: o t' vec_insert_op_def)
  with Cons.IH pv.insert_inv [OF Cons.prems(1) t(1)] t(2) show ?case by blast
qed

section \<open>Properties\<close>

text \<open>
  A kernel for the examples: pages of 16 bytes, each mapping past all the others.
\<close>

definition bump_mmap :: "(nat \<times> nat) list \<Rightarrow> nat \<Rightarrow> nat option" where
  "bump_mmap ms n = Some (16 * (1 + sum_list (map (\<lambda>(p, l). p + l) ms)))"

lemma bump_mmap_ok: "mmap_ok bump_mmap 16"
proof -
  have "fst r + snd r \<le> sum_list (map (\<lambda>(p, l). p + l) ms)" if "r \<in> set ms" for r :: "nat \<times> nat" and ms
    using that by (induction ms) auto
  then show ?thesis by (fastforce simp: mmap_ok_def bump_mmap_def ranges_apart_def)
qed

definition example_type :: layout where
  "example_type = \<lparr>layout_size = 4, layout_align = 4\<rparr>"

lemma example_type_ok: "type_ok example_type 16"
  unfolding type_ok_def example_type_def
  by (simp, intro conjI exI [of _ 2] exI [of _ 4]; simp)

text \<open>
  C33. A \<open>PodVec\<close> is the list its insertions describe: from the zero bit pattern, any sequence
  of \<open>insert(index, value)\<close> that does not panic leaves exactly the list obtained by inserting
  into the empty list at the same indices, whatever mappings the kernel hands out and however
  often the storage is reallocated.
\<close>

theorem pod_vec_is_list:
  assumes "mmap_ok mm page" and "type_ok ty page" and "sorted_wrt ranges_apart (mapped m)"
    and "run_inserts (vec_insert_op mm page ty) (m, pod_vec_new) ops = Some s"
  shows "vec_contents ty s = run_inserts list_insert_at [] ops"
proof -
  have "vec_inv mm page ty (m, pod_vec_new)"
    using assms(1-3) by (simp add: vec_inv_def pod_vec_new_inv pod_vec_new_empty)
  moreover have "vec_contents ty (m, pod_vec_new) = Some []"
    by (simp add: vec_contents_def pod_vec_new_empty)
  ultimately show ?thesis using pv.run_refines assms(4) by blast
qed

lemma example_run:
  "run_inserts (vec_insert_op bump_mmap 16 example_type)
     (\<lparr>cells = (\<lambda>a. None), mapped = [(16, 8)]\<rparr>, pod_vec_new) [(0, ''b''), (0, ''a'')] \<noteq> None"
  by (simp add: vec_insert_op_def pod_vec_insert_def reserve_one_def reserve_one_realloc_def
      raw_len_for_grow_def pod_vec_new_def example_type_def checked_add_def checked_mul_def
      next_multiple_of_def usize_defs bump_mmap_def raw_ptr_assign_def align_offset_def Let_def)

theorem pod_vec_is_list_witness:
  "\<exists>s. run_inserts (vec_insert_op bump_mmap 16 example_type)
      (\<lparr>cells = (\<lambda>a. None), mapped = [(16, 8)]\<rparr>, pod_vec_new) [(0, ''b''), (0, ''a'')] = Some s
    \<and> vec_contents example_type s = Some [''a'', ''b'']"
proof -
  obtain s where s: "run_inserts (vec_insert_op bump_mmap 16 example_type)
      (\<lparr>cells = (\<lambda>a. None), mapped = [(16, 8)]\<rparr>, pod_vec_new) [(0, ''b''), (0, ''a'')] = Some s"
    using example_run by blast
  have "vec_contents example_type s = run_inserts list_insert_at [] [(0, ''b''), (0, ''a'')]"
    by (rule pod_vec_is_list [OF bump_mmap_ok example_type_ok _ s]) simp
  with s show ?thesis by (simp add: list_insert_at_def vec_insert_def usize_defs)
qed

text \<open>
  Growing leaks nothing and corrupts nothing: whatever was mapped before a sequence of
  insertions is still mapped with the same contents, and the vector adds at most its one
  current mapping (every mapping it outgrew has been unmapped).
\<close>

theorem pod_vec_no_leak:
  assumes "mmap_ok mm page" and "type_ok ty page" and "sorted_wrt ranges_apart (mapped m)"
    and "run_inserts (vec_insert_op mm page ty) (m, pod_vec_new) ops = Some (m', v')"
  shows "mapped m' = owned v' @ mapped m
    \<and> (\<forall>r \<in> set (mapped m). \<forall>a. in_range a r \<longrightarrow> cells m' a = cells m a)"
proof -
  have "vec_inv mm page ty (m, pod_vec_new)"
    using assms(1-3) by (simp add: vec_inv_def pod_vec_new_inv pod_vec_new_empty)
  moreover have "only_own (mapped m) m (m, pod_vec_new)"
    by (simp add: only_own_def owned_def pod_vec_new_def)
  ultimately have "only_own (mapped m) m (m', v')" using run_only_own assms(4) by blast
  then show ?thesis by (auto simp: only_own_def)
qed

theorem pod_vec_no_leak_witness:
  "\<exists>m' v'. run_inserts (vec_insert_op bump_mmap 16 example_type)
      (\<lparr>cells = (\<lambda>a. None), mapped = [(16, 8)]\<rparr>, pod_vec_new) [(0, ''b''), (0, ''a'')] = Some (m', v')
    \<and> mapped m' = owned v' @ [(16, 8)]"
proof -
  obtain m' v' where s: "run_inserts (vec_insert_op bump_mmap 16 example_type)
      (\<lparr>cells = (\<lambda>a. None), mapped = [(16, 8)]\<rparr>, pod_vec_new) [(0, ''b''), (0, ''a'')] = Some (m', v')"
    using example_run by force
  from pod_vec_no_leak [OF bump_mmap_ok example_type_ok _ s] s show ?thesis by simp
qed

end
