(* ===== verification/Range_Alloc.thy ===== *)
theory Range_Alloc
  imports Prelude
begin

text \<open>
  \<open>BoundedRangeAllocator\<close> (\<open>abi/src/context/process.rs\<close>): the allocator that serves memory
  within a given distance of an address from ranges it has adopted. The state is the vector of
  free ranges (as the list \<open>PodVec\<close> implements, see \<open>Pod_Vec\<close>) and two bounds; the
  operations are \<open>adopt_range\<close>, \<open>reclaim\<close>, \<open>alloc_near\<close> and the functions it calls. The
  outer \<open>option\<close> of a result is \<open>None\<close> where the code panics.
\<close>

section \<open>State\<close>

text \<open>A range \<open>(start, end)\<close> is \<open>[*mut u8; 2]\<close>; \<open>min_addr\<close> is one more than the least address, 0 at first.\<close>

record range_alloc =
  ranges :: "(nat \<times> nat) list"
  min_addr :: nat
  max_addr :: nat

definition range_alloc_zeroed :: range_alloc where
  "range_alloc_zeroed = \<lparr>ranges = [], min_addr = 0, max_addr = 0\<rparr>"

definition MIN_RANGE_LEN :: nat where
  "MIN_RANGE_LEN = 8"

section \<open>Adopting a range\<close>

text \<open>Recording the bounds of a new range; when zero-initialized \<open>min_addr\<close> starts at 0.\<close>

definition note_bounds :: "range_alloc \<Rightarrow> nat \<Rightarrow> nat \<Rightarrow> range_alloc" where
  "note_bounds self rstart rend =
     (let self1 = (if rstart < wrapping_sub (min_addr self) 1
                   then self\<lparr>min_addr := rstart + 1\<rparr> else self)
      in if max_addr self1 < rend then self1\<lparr>max_addr := rend\<rparr> else self1)"

text \<open>
  The tail of \<open>adopt_range\<close>: append to the range before \<open>index\<close> if it ends where the new
  one starts, otherwise insert the new range if it is big enough.
\<close>

definition adopt_after :: "range_alloc \<Rightarrow> nat \<Rightarrow> nat \<Rightarrow> nat \<Rightarrow> nat \<Rightarrow> range_alloc option" where
  "adopt_after self range_len index rstart rend =
     (let prev = wrapping_sub index 1;
          detached = (if MIN_RANGE_LEN \<le> range_len
                      then map_option (\<lambda>rs. self\<lparr>ranges := rs\<rparr>)
                             (vec_insert index (rstart, rend) (ranges self))
                      else Some self)
      in case slice_get (ranges self) prev of
           Some (start, end) \<Rightarrow>
             if end = rstart
             then Some (self\<lparr>ranges := (ranges self)[prev := (start, rend)]\<rparr>)
             else detached
         | None \<Rightarrow> detached)"

definition adopt_range :: "range_alloc \<Rightarrow> nat \<Rightarrow> nat \<Rightarrow> range_alloc option" where
  "adopt_range self rstart rend =
     (if rend \<le> rstart then Some self
      else
        let range_len = rend - rstart;
            self1 = note_bounds self rstart rend;
            index = partition_point (\<lambda>(start, _). start < rend) (ranges self1)
        in case slice_get (ranges self1) index of
             Some (start, end) \<Rightarrow>
               if start = rend
               then Some (self1\<lparr>ranges := (ranges self1)[index := (rstart, end)]\<rparr>)
               else adopt_after self1 range_len index rstart rend
           | None \<Rightarrow> adopt_after self1 range_len index rstart rend)"

text \<open>\<open>reclaim\<close> gives back the bytes of a value: its address and \<open>size_of_val\<close>.\<close>

definition reclaim :: "range_alloc \<Rightarrow> nat \<Rightarrow> nat \<Rightarrow> range_alloc option" where
  "reclaim self ptr len = adopt_range self ptr (ptr + len)"

section \<open>Allocating\<close>

text \<open>
  Serving from the range at \<open>index\<close>, once it is known to have room: from the start or the end
  where that avoids a split (an unaligned value prefers the start, an aligned one the end),
  otherwise by splitting it in three.
\<close>

definition serve_split :: "range_alloc \<Rightarrow> nat \<Rightarrow> nat \<Rightarrow> nat \<Rightarrow> nat \<Rightarrow> nat
    \<Rightarrow> (nat option \<times> range_alloc) option" where
  "serve_split self sz index start end mn =
     (let new_len = mn - start;
          new_end = start + new_len;
          rs = (ranges self)[index := (new_end + sz, end)]
      in if MIN_RANGE_LEN \<le> new_len
         then map_option (\<lambda>rs'. (Some new_end, self\<lparr>ranges := rs'\<rparr>)) (vec_insert index (start, new_end) rs)
         else Some (Some new_end, self\<lparr>ranges := rs\<rparr>))"

definition serve_range :: "range_alloc \<Rightarrow> layout \<Rightarrow> nat \<Rightarrow> nat \<Rightarrow> nat \<Rightarrow> nat \<Rightarrow> nat
    \<Rightarrow> (nat option \<times> range_alloc) option" where
  "serve_range self l index start end mn mx =
     (let sz = layout_size l;
          from_start = (Some start, self\<lparr>ranges := (ranges self)[index := (start + sz, end)]\<rparr>);
          from_end = (Some (end - sz), self\<lparr>ranges := (ranges self)[index := (start, end - sz)]\<rparr>)
      in if layout_align l = 1
         then (if start = mn then Some from_start
               else if end = mx + sz then Some from_end
               else serve_split self sz index start end mn)
         else (if end = mx + sz then Some from_end
               else if start = mn then Some from_start
               else serve_split self sz index start end mn))"

text \<open>
  The probing loop over the ranges from \<open>index\<close> on: \<open>take_while\<close> stops it at the first range
  that does not start below \<open>max_addr\<close>.
\<close>

fun probe_ranges :: "range_alloc \<Rightarrow> layout \<Rightarrow> nat \<Rightarrow> nat \<Rightarrow> nat \<Rightarrow> (nat \<times> nat) list
    \<Rightarrow> (nat option \<times> range_alloc) option" where
  "probe_ranges self l lo hi index [] = Some (None, self)"
| "probe_ranges self l lo hi index ((start, end) # rest) =
     (if \<not> start < hi then Some (None, self)
      else do {
        mn \<leftarrow> next_multiple_of (max start lo) (layout_align l);
        let mx = align_down (min (saturating_sub end (layout_size l)) hi) (layout_align l);
        if mx < mn then probe_ranges self l lo hi (Suc index) rest
        else serve_range self l index start end mn mx
      })"

definition alloc_layout_between :: "range_alloc \<Rightarrow> layout \<Rightarrow> nat \<Rightarrow> nat
    \<Rightarrow> (nat option \<times> range_alloc) option" where
  "alloc_layout_between self l min0 max0 = do {
     lo \<leftarrow> next_multiple_of min0 (layout_align l);
     let hi = align_down max0 (layout_align l);
     if hi < lo \<or> max_addr self \<le> lo \<or> hi \<le> wrapping_sub (min_addr self) 1
     then Some (None, self)
     else
       let index = partition_point (\<lambda>(_, end). end \<le> lo) (ranges self)
       in probe_ranges self l lo hi index (drop index (ranges self))
   }"

text \<open>The bounds as offsets from an address; \<open>None\<close> is the early \<open>return None\<close>.\<close>

fun start_offset :: "bound \<Rightarrow> int option" where
  "start_offset (Excluded b) = (if b = isize_max then None else Some (b + 1))"
| "start_offset (Included b) = Some b"
| "start_offset Unbounded = Some isize_min"

fun end_offset :: "bound \<Rightarrow> int option" where
  "end_offset (Excluded b) = (if b = isize_min then None else Some (b - 1))"
| "end_offset (Included b) = Some b"
| "end_offset Unbounded = Some isize_max"

definition alloc_layout_inside_bounds :: "range_alloc \<Rightarrow> layout \<Rightarrow> nat \<Rightarrow> bound \<Rightarrow> bound
    \<Rightarrow> (nat option \<times> range_alloc) option" where
  "alloc_layout_inside_bounds self l addr start end =
     (case start_offset start of
        None \<Rightarrow> Some (None, self)
      | Some mn \<Rightarrow>
          (case end_offset end of
             None \<Rightarrow> Some (None, self)
           | Some mx \<Rightarrow>
               let lo = saturating_add_signed addr mn;
                   hi = min (saturating_add_signed addr mx)
                            (saturating_sub (max_addr self) (layout_size l))
               in alloc_layout_between self l lo hi))"

text \<open>\<open>alloc_near::<T>\<close>, with \<open>T\<close>'s layout.\<close>

definition alloc_near :: "range_alloc \<Rightarrow> layout \<Rightarrow> nat \<Rightarrow> bound \<Rightarrow> bound
    \<Rightarrow> (nat option \<times> range_alloc) option" where
  "alloc_near self l ptr start end = alloc_layout_inside_bounds self l ptr start end"

section \<open>Invariant\<close>

text \<open>The highest address of an object: Rust's \<open>isize::MAX\<close>.\<close>

definition va_max :: nat where
  "va_max = 9223372036854775807"

definition before :: "nat \<times> nat \<Rightarrow> nat \<times> nat \<Rightarrow> bool" where
  [simp]: "before r r' \<longleftrightarrow> snd r \<le> fst r'"

definition range_ok :: "range_alloc \<Rightarrow> nat \<times> nat \<Rightarrow> bool" where
  "range_ok a r \<longleftrightarrow> 0 < fst r \<and> fst r \<le> snd r \<and> snd r \<le> max_addr a
     \<and> 0 < min_addr a \<and> min_addr a \<le> fst r + 1"

text \<open>The ranges are in address order, inside the recorded bounds, and inside the address space.\<close>

definition alloc_inv :: "range_alloc \<Rightarrow> bool" where
  "alloc_inv a \<longleftrightarrow> sorted_wrt before (ranges a) \<and> (\<forall>r \<in> set (ranges a). range_ok a r)
     \<and> max_addr a \<le> va_max \<and> min_addr a \<le> va_max \<and> length (ranges a) \<le> usize_max"

text \<open>The bytes available for allocation.\<close>

definition free_bytes :: "range_alloc \<Rightarrow> nat set" where
  "free_bytes a = (\<Union>r \<in> set (ranges a). {fst r..<snd r})"

text \<open>A block of memory in the caller's hands does not meet any free range, not even an empty one.\<close>

definition apart :: "nat \<times> nat \<Rightarrow> nat \<times> nat \<Rightarrow> bool" where
  "apart b c \<longleftrightarrow> snd b \<le> fst c \<or> snd c \<le> fst b"

definition clear_of :: "range_alloc \<Rightarrow> nat \<times> nat \<Rightarrow> bool" where
  "clear_of a b \<longleftrightarrow> (\<forall>r \<in> set (ranges a). apart b r)"

lemma alloc_inv_zeroed: "alloc_inv range_alloc_zeroed"
  by (simp add: alloc_inv_def range_alloc_zeroed_def va_max_def usize_defs)

lemma alloc_inv_sorted:
  assumes "alloc_inv a" and "i < j" and "j < length (ranges a)"
  shows "snd (ranges a ! i) \<le> fst (ranges a ! j)"
  using assms by (auto simp: alloc_inv_def sorted_wrt_iff_nth_less)

lemma alloc_inv_range:
  "alloc_inv a \<Longrightarrow> r \<in> set (ranges a) \<Longrightarrow> 0 < fst r \<and> fst r \<le> snd r \<and> snd r \<le> max_addr a
    \<and> 0 < min_addr a \<and> min_addr a \<le> fst r + 1 \<and> snd r \<le> va_max"
  by (auto simp: alloc_inv_def range_ok_def)

text \<open>
  Replacing one range by ranges inside it, in order, keeps the invariant; a block that was
  clear of the free ranges stays clear.
\<close>

lemma shrink_inv:
  assumes inv: "alloc_inv a" and rs: "ranges a = pre @ (s, e) # post"
    and mid: "sorted_wrt before mid" "\<forall>r \<in> set mid. s \<le> fst r \<and> fst r \<le> snd r \<and> snd r \<le> e"
    and len: "length (pre @ mid @ post) \<le> usize_max"
  shows "alloc_inv (a\<lparr>ranges := pre @ mid @ post\<rparr>)"
    and "clear_of a b \<Longrightarrow> clear_of (a\<lparr>ranges := pre @ mid @ post\<rparr>) b"
proof -
  have ok: "range_ok a r" if "r \<in> set (pre @ mid @ post)" for r
  proof (cases "r \<in> set mid")
    case True
    moreover have "range_ok a (s, e)" using inv rs by (simp add: alloc_inv_def)
    ultimately show ?thesis using mid(2) by (fastforce simp: range_ok_def)
  next
    case False
    with that inv rs show ?thesis by (auto simp: alloc_inv_def)
  qed
  have "sorted_wrt before (pre @ (s, e) # post)" using inv rs by (simp add: alloc_inv_def)
  then have "sorted_wrt before (pre @ mid @ post)"
    using mid by (fastforce simp: sorted_wrt_append)
  with ok inv len show "alloc_inv (a\<lparr>ranges := pre @ mid @ post\<rparr>)"
    by (auto simp: alloc_inv_def range_ok_def)
  show "clear_of (a\<lparr>ranges := pre @ mid @ post\<rparr>) b" if "clear_of a b"
    using that mid(2) by (fastforce simp: clear_of_def rs apart_def)
qed

section \<open>Adopting\<close>

lemma note_bounds_ranges [simp]: "ranges (note_bounds a s e) = ranges a"
  by (simp add: note_bounds_def Let_def)

lemma note_bounds_props:
  assumes "alloc_inv a" and "s < e" and "e \<le> va_max"
  shows "0 < min_addr (note_bounds a s e)" and "min_addr (note_bounds a s e) \<le> s + 1"
    and "0 < min_addr a \<Longrightarrow> min_addr (note_bounds a s e) \<le> min_addr a"
    and "max_addr (note_bounds a s e) = max (max_addr a) e"
proof -
  have m: "min_addr a \<le> va_max" using assms(1) by (simp add: alloc_inv_def)
  have w: "wrapping_sub (min_addr a) 1 = (if min_addr a = 0 then usize_max else min_addr a - 1)"
    using m wrapping_sub_zero_one
    by (auto intro!: wrapping_sub_le simp: va_max_def usize_defs)
  have "s < usize_max" using assms(2,3) by (simp add: va_max_def usize_defs)
  with w show "0 < min_addr (note_bounds a s e)" and "min_addr (note_bounds a s e) \<le> s + 1"
    and "0 < min_addr a \<Longrightarrow> min_addr (note_bounds a s e) \<le> min_addr a"
    by (auto simp: note_bounds_def Let_def)
  show "max_addr (note_bounds a s e) = max (max_addr a) e"
    by (auto simp: note_bounds_def Let_def)
qed

lemma note_bounds_inv:
  assumes "alloc_inv a" and "s < e" and "e \<le> va_max"
  shows "alloc_inv (note_bounds a s e)"
proof -
  note p = note_bounds_props [OF assms]
  have "range_ok (note_bounds a s e) r" if "r \<in> set (ranges a)" for r
    using alloc_inv_range [OF assms(1) that] p by (auto simp: range_ok_def)
  with assms p show ?thesis by (auto simp: alloc_inv_def)
qed

text \<open>
  Where the code puts a new range that is clear of the others: all ranges before the index end
  at or below its start, all others start at or above its end.
\<close>

lemma partitioned_starts:
  "alloc_inv a \<Longrightarrow> partitioned (\<lambda>(start, _). start < (x::nat)) (ranges a)"
proof -
  assume inv: "alloc_inv a"
  have "fst (ranges a ! i) \<le> fst (ranges a ! j)" if "i \<le> j" "j < length (ranges a)" for i j
  proof (cases "i = j")
    case False
    with that have "snd (ranges a ! i) \<le> fst (ranges a ! j)" by (intro alloc_inv_sorted [OF inv]) auto
    moreover have "fst (ranges a ! i) \<le> snd (ranges a ! i)"
      using alloc_inv_range [OF inv, of "ranges a ! i"] that by simp
    ultimately show ?thesis by simp
  qed simp
  then show ?thesis by (fastforce simp: partitioned_def split: prod.splits)
qed

lemma insertion_point:
  assumes inv: "alloc_inv a" and clear: "clear_of a (s, e)" and "s < e"
    and i: "i = partition_point (\<lambda>(start, _). start < e) (ranges a)"
  obtains pre post where "ranges a = pre @ post" "length pre = i"
    "\<forall>r \<in> set pre. snd r \<le> s" "\<forall>r \<in> set post. e \<le> fst r"
proof -
  let ?pre = "take i (ranges a)" and ?post = "drop i (ranges a)"
  have "splits_at (\<lambda>(start, _). start < e) (ranges a) i"
    unfolding i by (rule partition_point_splits [OF partitioned_starts [OF inv]])
  then have sp: "splits_at (\<lambda>r. fst r < e) (ranges a) i" by (simp add: case_prod_beta')
  have "snd r \<le> s" if r: "r \<in> set ?pre" for r
  proof -
    from r sp have "fst r < e" by (auto simp: splits_at_def in_set_conv_nth)
    moreover from r have "r \<in> set (ranges a)" by (rule in_set_takeD)
    ultimately show ?thesis using clear by (auto simp: clear_of_def apart_def)
  qed
  moreover have "e \<le> fst r" if r: "r \<in> set ?post" for r
  proof -
    from r obtain j where "j < length (ranges a) - i" "r = ranges a ! (i + j)"
      by (auto simp: in_set_conv_nth)
    moreover from this(1) have "i + j < length (ranges a)" by simp
    ultimately show ?thesis using sp unfolding splits_at_def by (metis not_add_less1 not_less)
  qed
  moreover have "length ?pre = i" using sp by (simp add: splits_at_def)
  ultimately show thesis by (intro that [of ?pre ?post]) auto
qed

text \<open>A range that continues no free range and is continued by none.\<close>

definition detached :: "range_alloc \<Rightarrow> nat \<times> nat \<Rightarrow> bool" where
  "detached a b \<longleftrightarrow> (\<forall>r \<in> set (ranges a). snd r \<noteq> fst b \<and> fst r \<noteq> snd b)"

text \<open>The three ways the list of ranges can change.\<close>

definition adopted :: "range_alloc \<Rightarrow> nat \<Rightarrow> nat \<Rightarrow> range_alloc \<Rightarrow> bool" where
  "adopted a s e a' \<longleftrightarrow>
     (\<exists>pre old post s' e'. ranges a = pre @ old @ post
        \<and> a' = (note_bounds a s e)\<lparr>ranges := pre @ (s', e') # post\<rparr>
        \<and> (\<forall>r \<in> set pre. snd r \<le> s') \<and> (\<forall>r \<in> set post. e' \<le> fst r)
        \<and> (old = [(e, e')] \<and> s' = s \<or> old = [(s', s)] \<and> e' = e \<or> old = [] \<and> s' = s \<and> e' = e)
        \<and> length (ranges a') \<le> usize_max)
     \<or> (e - s < MIN_RANGE_LEN \<and> detached a (s, e) \<and> a' = note_bounds a s e)"

lemma adopt_after_adopted:
  assumes inv: "alloc_inv a" and rs: "ranges a = pre @ post" "\<forall>r \<in> set pre. snd r \<le> s"
      "\<forall>r \<in> set post. e < fst r" and "s < e"
    and res: "adopt_after (note_bounds a s e) (e - s) (length pre) s e = Some a'"
  shows "adopted a s e a'"
proof -
  have ge: "\<forall>r \<in> set post. e \<le> fst r" using rs(3) by (auto intro: less_imp_le)
  show ?thesis
  proof (cases "pre \<noteq> [] \<and> snd (last pre) = s")
    case True
    then obtain pre' s0 where pre: "pre = pre' @ [(s0, s)]"
      by (metis append_butlast_last_id prod.collapse)
    have "length pre - 1 < length (ranges a)" using pre rs by simp
    moreover have "wrapping_sub (length pre) 1 = length pre - 1"
      using inv pre rs by (intro wrapping_sub_le) (auto simp: alloc_inv_def usize_defs)
    moreover have "ranges a ! (length pre - 1) = (s0, s)" using pre rs by (simp add: nth_append)
    ultimately have a': "a' = (note_bounds a s e)\<lparr>ranges := (ranges a)[length pre - 1 := (s0, e)]\<rparr>"
      using res by (simp add: adopt_after_def slice_get_def)
    have upd: "(ranges a)[length pre - 1 := (s0, e)] = pre' @ (s0, e) # post"
      using pre rs by (simp add: list_update_append)
    have "\<forall>r \<in> set pre'. snd r \<le> s0"
      using inv by (auto simp: alloc_inv_def rs pre sorted_wrt_append)
    then show ?thesis
      unfolding adopted_def using rs(1,2) ge pre upd inv
      by (intro disjI1 exI [of _ pre'] exI [of _ "[(s0, s)]"] exI [of _ post] exI [of _ s0] exI [of _ e])
        (simp add: a' alloc_inv_def)
  next
    case False
    have "\<not> (\<exists>s0. slice_get (ranges a) (wrapping_sub (length pre) 1) = Some (s0, s))"
    proof (cases "pre = []")
      case True
      have "usize_max \<ge> length (ranges a)" using inv by (simp add: alloc_inv_def)
      with True show ?thesis using wrapping_sub_zero_one by simp
    next
      case nonempty: False
      then have "wrapping_sub (length pre) 1 = length pre - 1"
        using inv rs by (intro wrapping_sub_le) (auto simp: alloc_inv_def usize_defs Suc_le_eq)
      with nonempty rs False show ?thesis by (auto simp: nth_append last_conv_nth)
    qed
    with res have "(if MIN_RANGE_LEN \<le> e - s
        then map_option (\<lambda>rs. (note_bounds a s e)\<lparr>ranges := rs\<rparr>) (vec_insert (length pre) (s, e) (ranges a))
        else Some (note_bounds a s e)) = Some a'"
      by (auto simp: adopt_after_def Let_def split: option.splits if_splits prod.splits)
    then consider (drop) "e - s < MIN_RANGE_LEN" "a' = note_bounds a s e"
      | (ins) rs' where "vec_insert (length pre) (s, e) (ranges a) = Some rs'"
          "a' = (note_bounds a s e)\<lparr>ranges := rs'\<rparr>"
      by (auto split: if_splits)
    then show ?thesis
    proof cases
      case drop
      have ok: "fst r \<le> snd r" if "r \<in> set (ranges a)" for r using alloc_inv_range [OF inv that] by simp
      have "snd r < s" if r: "r \<in> set pre" for r
      proof -
        obtain q x where q: "pre = q @ [x]" using r by (cases pre rule: rev_cases) auto
        then have "snd x < s" using False rs(2) by force
        moreover have "fst x \<le> snd x" using ok q rs(1) by simp
        moreover have "r = x \<or> snd r \<le> fst x"
          using r q inv by (auto simp: alloc_inv_def rs(1) sorted_wrt_append)
        ultimately show ?thesis by auto
      qed
      then have "snd r \<noteq> s \<and> fst r \<noteq> e" if "r \<in> set (ranges a)" for r
        using that ok [OF that] rs(1,3) \<open>s < e\<close> by fastforce
      then have "detached a (s, e)" by (simp add: detached_def)
      with drop show ?thesis by (simp add: adopted_def)
    next
      case ins
      then have "rs' = pre @ (s, e) # post" by (simp add: vec_insert_def rs split: if_splits)
      with ins rs(1,2) ge vec_insert_length [OF ins(1)] show ?thesis
        unfolding adopted_def
        by (intro disjI1 exI [of _ pre] exI [of _ "[]"] exI [of _ post] exI [of _ s] exI [of _ e]) simp
    qed
  qed
qed

lemma adopt_range_adopted:
  assumes inv: "alloc_inv a" and "0 < s" "s < e" and clear: "clear_of a (s, e)"
    and res: "adopt_range a s e = Some a'"
  shows "adopted a s e a'"
proof -
  obtain pre post where rs: "ranges a = pre @ post" "\<forall>r \<in> set pre. snd r \<le> s" "\<forall>r \<in> set post. e \<le> fst r"
    and len: "length pre = partition_point (\<lambda>(start, _). start < e) (ranges a)"
    by (rule insertion_point [OF inv clear \<open>s < e\<close> refl])
  have "(e \<le> s) = False" using \<open>s < e\<close> by simp
  then have res': "(case slice_get (ranges a) (length pre) of
      Some (start, e') \<Rightarrow>
        if start = e then Some ((note_bounds a s e)\<lparr>ranges := (ranges a)[length pre := (s, e')]\<rparr>)
        else adopt_after (note_bounds a s e) (e - s) (length pre) s e
    | None \<Rightarrow> adopt_after (note_bounds a s e) (e - s) (length pre) s e) = Some a'"
    using res by (simp only: adopt_range_def Let_def note_bounds_ranges if_False flip: len)
  show ?thesis
  proof (cases "\<exists>e' post'. post = (e, e') # post'")
    case True
    then obtain e' post' where post: "post = (e, e') # post'" by blast
    with res' rs have a': "a' = (note_bounds a s e)\<lparr>ranges := pre @ (s, e') # post'\<rparr>"
      by (simp add: slice_get_def)
    have "\<forall>r \<in> set post'. e' \<le> fst r"
      using inv by (auto simp: alloc_inv_def rs post sorted_wrt_append)
    then show ?thesis
      unfolding adopted_def using rs post inv
      by (intro disjI1 exI [of _ pre] exI [of _ "[(e, e')]"] exI [of _ post'] exI [of _ s] exI [of _ e'])
        (simp add: a' alloc_inv_def)
  next
    case False
    then have res2: "adopt_after (note_bounds a s e) (e - s) (length pre) s e = Some a'"
      using res' rs by (cases post) (auto simp: slice_get_def split: if_splits prod.splits)
    have "sorted_wrt before post" "\<forall>r \<in> set post. fst r \<le> snd r"
      using inv alloc_inv_range [of a] by (auto simp: alloc_inv_def rs(1) sorted_wrt_append)
    with False rs(3) have "\<forall>r \<in> set post. e < fst r" by (cases post) fastforce+
    from adopt_after_adopted [OF inv rs(1,2) this \<open>s < e\<close> res2] show ?thesis .
  qed
qed

lemma free_bytes_append:
  "ranges a = xs @ ys \<Longrightarrow> free_bytes a = (\<Union>r \<in> set xs. {fst r..<snd r}) \<union> (\<Union>r \<in> set ys. {fst r..<snd r})"
  by (auto simp: free_bytes_def)

text \<open>
  Adopting keeps the invariant; exactly the new bytes become free, or none of them when the
  range is short and detached; and a block apart from the new range stays clear.
\<close>

lemma adopted_correct:
  assumes inv: "alloc_inv a" and se: "0 < s" "s < e" "e \<le> va_max" and ad: "adopted a s e a'"
  shows "alloc_inv a'"
    and "free_bytes a' = free_bytes a \<union> {s..<e}
      \<or> e - s < MIN_RANGE_LEN \<and> detached a (s, e) \<and> free_bytes a' = free_bytes a"
    and "clear_of a b \<Longrightarrow> apart b (s, e) \<Longrightarrow> fst b < snd b \<Longrightarrow> clear_of a' b"
proof -
  let ?n = "note_bounds a s e"
  note p = note_bounds_props [OF inv se(2,3)]
  have n: "alloc_inv ?n" by (rule note_bounds_inv [OF inv se(2,3)])
  from ad consider (drop) "e - s < MIN_RANGE_LEN" "detached a (s, e)" "a' = ?n"
    | (place) pre old post s' e' where "ranges a = pre @ old @ post"
        "a' = ?n\<lparr>ranges := pre @ (s', e') # post\<rparr>"
        "\<forall>r \<in> set pre. snd r \<le> s'" "\<forall>r \<in> set post. e' \<le> fst r"
        "old = [(e, e')] \<and> s' = s \<or> old = [(s', s)] \<and> e' = e \<or> old = [] \<and> s' = s \<and> e' = e"
        "length (ranges a') \<le> usize_max"
    unfolding adopted_def by blast
  then have "alloc_inv a'
    \<and> (free_bytes a' = free_bytes a \<union> {s..<e}
      \<or> e - s < MIN_RANGE_LEN \<and> detached a (s, e) \<and> free_bytes a' = free_bytes a)
    \<and> (clear_of a b \<and> apart b (s, e) \<and> fst b < snd b \<longrightarrow> clear_of a' b)"
  proof cases
    case drop
    with n show ?thesis by (simp add: free_bytes_def clear_of_def)
  next
    case place
    note rs = place(1) and a' = place(2) and pre = place(3) and post = place(4)
      and old = place(5) and len = place(6)
    have rold: "\<forall>r \<in> set old. range_ok ?n r" using n rs by (simp add: alloc_inv_def)
    have new: "range_ok ?n (s', e')"
      using old rold p se by (auto simp: range_ok_def)
    have "sorted_wrt before (pre @ post)" using inv rs by (auto simp: alloc_inv_def sorted_wrt_append)
    with pre post new have "sorted_wrt before (pre @ (s', e') # post)"
      by (auto simp: sorted_wrt_append range_ok_def intro: le_trans)
    then have "alloc_inv a'"
      using n new len rs by (auto simp: alloc_inv_def a' range_ok_def)
    moreover have "{s'..<e'} = (\<Union>r \<in> set old. {fst r..<snd r}) \<union> {s..<e}"
      using old new rold se by (auto simp: range_ok_def)
    then have "free_bytes a' = free_bytes a \<union> {s..<e}"
      by (auto simp: free_bytes_def a' rs)
    moreover have "clear_of a' b" if "clear_of a b" "apart b (s, e)" "fst b < snd b"
      using that old by (auto simp: clear_of_def a' rs apart_def)
    ultimately show ?thesis by blast
  qed
  then show "alloc_inv a'"
    and "free_bytes a' = free_bytes a \<union> {s..<e}
      \<or> e - s < MIN_RANGE_LEN \<and> detached a (s, e) \<and> free_bytes a' = free_bytes a"
    and "clear_of a b \<Longrightarrow> apart b (s, e) \<Longrightarrow> fst b < snd b \<Longrightarrow> clear_of a' b"
    by blast+
qed

section \<open>Serving an allocation\<close>

text \<open>What taking \<open>[p, p + sz)\<close> out of the range \<open>(s, e)\<close> leaves of it.\<close>

definition served :: "range_alloc \<Rightarrow> nat \<Rightarrow> nat \<Rightarrow> range_alloc \<Rightarrow> bool" where
  "served a p sz a' \<longleftrightarrow>
     (\<exists>pre s e post mid. ranges a = pre @ (s, e) # post \<and> a' = a\<lparr>ranges := pre @ mid @ post\<rparr>
        \<and> s \<le> p \<and> p + sz \<le> e \<and> length (pre @ mid @ post) \<le> usize_max
        \<and> (mid = [(p + sz, e)] \<and> p - s < MIN_RANGE_LEN \<or> mid = [(s, p)] \<and> p + sz = e
           \<or> mid = [(s, p), (p + sz, e)]))"

lemma serve_range_served:
  assumes inv: "alloc_inv a" and rs: "ranges a = pre @ (s, e) # post"
    and mn: "s \<le> mn" "mn \<le> mx" "mx + layout_size l \<le> e"
    and res: "serve_range a l (length pre) s e mn mx = Some (r, a')"
  obtains p where "r = Some p" "p = mn \<or> p = mx" "served a p (layout_size l) a'"
proof -
  let ?sz = "layout_size l"
  have len: "length (ranges a) \<le> usize_max" using inv by (simp add: alloc_inv_def)
  have start: "served a s ?sz (a\<lparr>ranges := (ranges a)[length pre := (s + ?sz, e)]\<rparr>)" if "s = mn"
    unfolding served_def using rs len mn that
    by (intro exI [of _ pre] exI [of _ s] exI [of _ e] exI [of _ post] exI [of _ "[(s + ?sz, e)]"])
      (simp add: MIN_RANGE_LEN_def)
  have "end": "served a mx ?sz (a\<lparr>ranges := (ranges a)[length pre := (s, e - ?sz)]\<rparr>)" if "e = mx + ?sz"
    unfolding served_def using rs len mn that
    by (intro exI [of _ pre] exI [of _ s] exI [of _ e] exI [of _ post] exI [of _ "[(s, mx)]"]) simp
  have split: "r = Some mn \<and> served a mn ?sz a'"
    if sp: "serve_split a ?sz (length pre) s e mn = Some (r, a')"
  proof (cases "MIN_RANGE_LEN \<le> mn - s")
    case True
    with sp mn rs have r: "r = Some mn" and vi: "vec_insert (length pre) (s, mn) (pre @ (mn + ?sz, e) # post) = Some (ranges a')"
      and a': "a' = a\<lparr>ranges := ranges a'\<rparr>"
      by (auto simp: serve_split_def Let_def)
    from vi have "ranges a' = pre @ [(s, mn), (mn + ?sz, e)] @ post"
      by (auto simp: vec_insert_def split: if_splits)
    moreover from vi have "length (ranges a') \<le> usize_max" using vec_insert_length [OF vi] by simp
    ultimately have "a' = a\<lparr>ranges := pre @ [(s, mn), (mn + ?sz, e)] @ post\<rparr>"
      and "length (pre @ [(s, mn), (mn + ?sz, e)] @ post) \<le> usize_max" using a' by simp_all
    with rs mn r show ?thesis
      unfolding served_def
      by (intro conjI exI [of _ pre] exI [of _ s] exI [of _ e] exI [of _ post]
          exI [of _ "[(s, mn), (mn + ?sz, e)]"]) simp_all
  next
    case False
    with sp mn rs have r: "r = Some mn" and a': "a' = a\<lparr>ranges := pre @ [(mn + ?sz, e)] @ post\<rparr>"
      by (auto simp: serve_split_def Let_def)
    with rs mn len False show ?thesis
      unfolding served_def
      by (intro conjI exI [of _ pre] exI [of _ s] exI [of _ e] exI [of _ post]
          exI [of _ "[(mn + ?sz, e)]"]) simp_all
  qed
  have "(r = Some mn \<or> r = Some mx) \<and> served a (the r) ?sz a'"
    using res start "end" split by (auto simp: serve_range_def Let_def split: if_splits)
  with that show thesis by auto
qed

lemma served_correct:
  assumes inv: "alloc_inv a" and "served a p sz a'"
  shows "alloc_inv a'" and "{p..<p + sz} \<subseteq> free_bytes a" and "clear_of a' (p, p + sz)"
    and "\<exists>lost. free_bytes a = free_bytes a' \<union> {p..<p + sz} \<union> lost \<and> card lost < MIN_RANGE_LEN"
    and "clear_of a b \<Longrightarrow> clear_of a' b"
    and "\<exists>r \<in> set (ranges a). fst r \<le> p \<and> p + sz \<le> snd r"
proof -
  from assms(2) obtain pre s e post mid where rs: "ranges a = pre @ (s, e) # post"
    and a': "a' = a\<lparr>ranges := pre @ mid @ post\<rparr>" and p: "s \<le> p" "p + sz \<le> e"
    and len: "length (pre @ mid @ post) \<le> usize_max"
    and mid: "mid = [(p + sz, e)] \<and> p - s < MIN_RANGE_LEN \<or> mid = [(s, p)] \<and> p + sz = e
      \<or> mid = [(s, p), (p + sz, e)]"
    unfolding served_def by blast
  have m: "sorted_wrt before mid" "\<forall>r \<in> set mid. s \<le> fst r \<and> fst r \<le> snd r \<and> snd r \<le> e"
    using mid p by auto
  note sh = shrink_inv [OF inv rs m len]
  show "alloc_inv a'" and "clear_of a b \<Longrightarrow> clear_of a' b" using sh by (simp_all add: a')
  show "{p..<p + sz} \<subseteq> free_bytes a" using p by (force simp: free_bytes_def rs)
  show "\<exists>r \<in> set (ranges a). fst r \<le> p \<and> p + sz \<le> snd r" using p by (simp add: rs)
  have "\<forall>r \<in> set pre. snd r \<le> s" "\<forall>r \<in> set post. e \<le> fst r"
    using inv by (auto simp: alloc_inv_def rs sorted_wrt_append)
  then show "clear_of a' (p, p + sz)"
    using mid p by (fastforce simp: clear_of_def a' apart_def)
  show "\<exists>lost. free_bytes a = free_bytes a' \<union> {p..<p + sz} \<union> lost \<and> card lost < MIN_RANGE_LEN"
    using mid
  proof (elim disjE)
    assume "mid = [(p + sz, e)] \<and> p - s < MIN_RANGE_LEN"
    with p show ?thesis by (intro exI [of _ "{s..<p}"]) (auto simp: free_bytes_def rs a')
  qed (use p in \<open>intro exI [of _ "{}"], force simp: free_bytes_def rs a' MIN_RANGE_LEN_def\<close>)+
qed

section \<open>Finding a range\<close>

definition layout_ok :: "layout \<Rightarrow> bool" where
  "layout_ok l \<longleftrightarrow> (\<exists>k < 63. layout_align l = 2 ^ k)"

text \<open>\<open>q\<close> is an address the request accepts in the free range \<open>r\<close>.\<close>

definition fits :: "layout \<Rightarrow> nat \<Rightarrow> nat \<Rightarrow> nat \<times> nat \<Rightarrow> nat \<Rightarrow> bool" where
  "fits l lo hi r q \<longleftrightarrow> lo \<le> q \<and> q \<le> hi \<and> q mod layout_align l = 0
     \<and> fst r \<le> q \<and> q + layout_size l \<le> snd r"

lemma layout_ok_align:
  assumes "layout_ok l" and "x < usize_size"
  shows "align_down x (layout_align l) \<le> x"
    and "align_down x (layout_align l) mod layout_align l = 0"
    and "p \<le> x \<Longrightarrow> p mod layout_align l = 0 \<Longrightarrow> p \<le> align_down x (layout_align l)"
proof -
  from assms(1) obtain k where k: "k < 63" "layout_align l = 2 ^ k" unfolding layout_ok_def by auto
  then have "k < 64" by simp
  with k(2) assms(2) show "align_down x (layout_align l) \<le> x"
    and "align_down x (layout_align l) mod layout_align l = 0"
    and "p \<le> x \<Longrightarrow> p mod layout_align l = 0 \<Longrightarrow> p \<le> align_down x (layout_align l)"
    by (simp_all add: align_rules)
qed

text \<open>One step of the loop: the window of acceptable addresses in one range.\<close>

lemma probe_window:
  assumes l: "layout_ok l" and hi: "hi < usize_size" and s: "0 < s"
    and mn: "next_multiple_of (max s lo) (layout_align l) = Some mn"
    and mx: "mx = align_down (min (e - layout_size l) hi) (layout_align l)"
  shows "fits l lo hi (s, e) q \<Longrightarrow> mn \<le> q \<and> q \<le> mx"
    and "mn \<le> mx \<Longrightarrow> s \<le> mn \<and> lo \<le> mn \<and> mx \<le> hi \<and> mx + layout_size l \<le> e
      \<and> mn mod layout_align l = 0 \<and> mx mod layout_align l = 0"
proof -
  let ?m = "min (e - layout_size l) hi"
  have m: "?m < usize_size" using hi by simp
  note ad = layout_ok_align [OF l m]
  note nm = next_multiple_of_Some [OF mn]
  show "mn \<le> q \<and> q \<le> mx" if f: "fits l lo hi (s, e) q"
  proof
    show "mn \<le> q" using f by (intro next_multiple_of_least [OF mn]) (auto simp: fits_def)
    show "q \<le> mx" unfolding mx using f by (intro ad(3)) (auto simp: fits_def)
  qed
  show "s \<le> mn \<and> lo \<le> mn \<and> mx \<le> hi \<and> mx + layout_size l \<le> e
      \<and> mn mod layout_align l = 0 \<and> mx mod layout_align l = 0" if le: "mn \<le> mx"
  proof -
    have "mx \<le> ?m" unfolding mx by (rule ad(1))
    moreover have "0 < mx" using le nm(1) s by simp
    ultimately have "mx \<le> hi" "mx + layout_size l \<le> e" by auto
    with nm ad(2) show ?thesis by (auto simp: mx)
  qed
qed

lemma probe_ranges_correct:
  assumes inv: "alloc_inv a" and l: "layout_ok l" and hi: "hi < usize_size"
  shows "ranges a = pre @ rest \<Longrightarrow> length pre = i \<Longrightarrow> probe_ranges a l lo hi i rest = Some (r, a') \<Longrightarrow>
    (\<exists>p. r = Some p \<and> lo \<le> p \<and> p \<le> hi \<and> p mod layout_align l = 0 \<and> served a p (layout_size l) a')
    \<or> (r = None \<and> a' = a \<and> (\<forall>x \<in> set rest. \<forall>q. fits l lo hi x q \<longrightarrow> hi \<le> fst x))"
proof (induction rest arbitrary: pre i)
  case Nil
  then show ?case by simp
next
  case (Cons x rest)
  note i = Cons.prems(2) [symmetric] and call = Cons.prems(3) [folded Cons.prems(2)]
  obtain s e where x: "x = (s, e)" by (cases x)
  have s: "0 < s" using alloc_inv_range [OF inv, of x] Cons.prems(1) by (simp add: x)
  show ?case
  proof (cases "s < hi")
    case False
    have "s \<le> fst y" if "y \<in> set rest" for y
      using inv Cons.prems(1) that alloc_inv_range [OF inv, of x]
      by (fastforce simp: alloc_inv_def x sorted_wrt_append)
    with False Cons.prems(1) call show ?thesis by (force simp: x)
  next
    case True
    with call obtain mn where mn: "next_multiple_of (max s lo) (layout_align l) = Some mn"
      by (auto simp: x bind_eq_Some_conv)
    define mx where "mx = align_down (min (e - layout_size l) hi) (layout_align l)"
    note w = probe_window [OF l hi s mn mx_def]
    show ?thesis
    proof (cases "mx < mn")
      case less: True
      have "probe_ranges a l lo hi (length (pre @ [x])) rest = Some (r, a')"
        using call True mn less by (simp add: x mx_def Let_def)
      moreover have "\<not> fits l lo hi x q" for q using w(1) [of q] less by (auto simp: x)
      ultimately show ?thesis using Cons.IH [of "pre @ [x]" "length (pre @ [x])"] Cons.prems(1) by auto
    next
      case False
      then have le: "mn \<le> mx" by simp
      have sv: "serve_range a l (length pre) s e mn mx = Some (r, a')"
        using call True mn False by (simp add: x mx_def Let_def)
      have rs: "ranges a = pre @ (s, e) # rest" using Cons.prems(1) by (simp add: x)
      obtain p where "r = Some p" "p = mn \<or> p = mx" "served a p (layout_size l) a'"
        using serve_range_served [OF inv rs _ le _ sv] w(2) [OF le] by blast
      with w(2) [OF le] le show ?thesis by auto
    qed
  qed
qed

lemma partitioned_ends:
  assumes inv: "alloc_inv a"
  shows "partitioned (\<lambda>(_, end). end \<le> (x::nat)) (ranges a)"
proof -
  have "snd (ranges a ! i) \<le> snd (ranges a ! j)" if "i \<le> j" "j < length (ranges a)" for i j
  proof (cases "i = j")
    case False
    with that have "snd (ranges a ! i) \<le> fst (ranges a ! j)" by (intro alloc_inv_sorted [OF inv]) auto
    moreover have "fst (ranges a ! j) \<le> snd (ranges a ! j)"
      using alloc_inv_range [OF inv, of "ranges a ! j"] that by simp
    ultimately show ?thesis by simp
  qed simp
  then show ?thesis by (fastforce simp: partitioned_def split: prod.splits)
qed

text \<open>
  An allocation answers an aligned address within the bounds, taken out of one free range; if
  it answers \<open>None\<close>, nothing changed and no free range has room, except possibly a range that
  starts exactly at the upper bound.
\<close>

lemma alloc_layout_between_correct:
  assumes inv: "alloc_inv a" and l: "layout_ok l" and max0: "max0 < usize_size"
    and res: "alloc_layout_between a l min0 max0 = Some (r, a')"
  shows "r = Some p \<Longrightarrow> min0 \<le> p \<and> p \<le> max0 \<and> p mod layout_align l = 0 \<and> served a p (layout_size l) a'"
    and "r = None \<Longrightarrow> a' = a"
    and "r = None \<Longrightarrow> 0 < layout_size l \<Longrightarrow> x \<in> set (ranges a) \<Longrightarrow> fits l min0 max0 x q \<Longrightarrow>
      fst x = q \<and> q = align_down max0 (layout_align l)"
proof -
  define hi where "hi = align_down max0 (layout_align l)"
  note ad = layout_ok_align [OF l max0]
  have hi: "hi < usize_size" using ad(1) max0 by (simp add: hi_def)
  from res obtain lo where lo: "next_multiple_of min0 (layout_align l) = Some lo"
    by (auto simp: alloc_layout_between_def bind_eq_Some_conv)
  note nm = next_multiple_of_Some [OF lo]
  define i where "i = partition_point (\<lambda>(_, end). end \<le> lo) (ranges a)"
  let ?early = "hi < lo \<or> max_addr a \<le> lo \<or> hi \<le> wrapping_sub (min_addr a) 1"
  have cases: "if ?early then r = None \<and> a' = a
      else probe_ranges a l lo hi i (drop i (ranges a)) = Some (r, a')"
    using res lo by (auto simp: alloc_layout_between_def hi_def [symmetric] i_def Let_def split: if_splits)
  have sp: "splits_at (\<lambda>r. snd r \<le> lo) (ranges a) i"
    using partition_point_splits [OF partitioned_ends [OF inv]] by (simp add: i_def case_prod_beta')
  then have len: "length (take i (ranges a)) = i" by (simp add: splits_at_def)
  have probe: "\<not> ?early \<Longrightarrow>
      (\<exists>p. r = Some p \<and> lo \<le> p \<and> p \<le> hi \<and> p mod layout_align l = 0 \<and> served a p (layout_size l) a')
      \<or> (r = None \<and> a' = a \<and> (\<forall>x \<in> set (drop i (ranges a)). \<forall>q. fits l lo hi x q \<longrightarrow> hi \<le> fst x))"
  proof -
    assume "\<not> ?early"
    with cases have "probe_ranges a l lo hi i (drop i (ranges a)) = Some (r, a')" by presburger
    from probe_ranges_correct [OF inv l hi append_take_drop_id [symmetric] len this]
    show ?thesis .
  qed
  show "min0 \<le> p \<and> p \<le> max0 \<and> p mod layout_align l = 0 \<and> served a p (layout_size l) a'" if "r = Some p"
    using that probe cases nm(1) ad(1) by (fastforce simp: hi_def split: if_splits)
  show "a' = a" if "r = None" using that probe cases by (auto split: if_splits)
  show "fst x = q \<and> q = hi"
    if none: "r = None" and sz: "0 < layout_size l" and x: "x \<in> set (ranges a)" and f: "fits l min0 max0 x q"
  proof -
    have q: "lo \<le> q" "q \<le> hi" "fst x \<le> q" "q + layout_size l \<le> snd x"
      using f next_multiple_of_least [OF lo] ad(3) by (auto simp: fits_def hi_def)
    have f': "fits l lo hi x q" using f q by (simp add: fits_def)
    note rx = alloc_inv_range [OF inv x]
    have "hi \<le> fst x"
    proof (cases ?early)
      case True
      have m: "min_addr a \<le> va_max" using inv by (simp add: alloc_inv_def)
      have "wrapping_sub (min_addr a) 1 = min_addr a - 1"
        using rx m by (intro wrapping_sub_le) (auto simp: va_max_def usize_defs)
      with True q rx sz show ?thesis by auto
    next
      case False
      have "x \<notin> set (take i (ranges a))"
      proof
        assume "x \<in> set (take i (ranges a))"
        with sp have "snd x \<le> lo" by (auto simp: splits_at_def in_set_conv_nth)
        with q sz show False by simp
      qed
      with x have "x \<in> set (drop i (ranges a))" by (metis Un_iff append_take_drop_id set_append)
      with probe [OF False] none f' show ?thesis by blast
    qed
    with q show ?thesis by auto
  qed
qed


section \<open>The operations of the component\<close>

text \<open>Adopting a range that is clear of the free ranges never panics while the vector has room.\<close>

lemma adopt_range_total:
  assumes inv: "alloc_inv a" and clear: "clear_of a (s, e)" and "s < e"
    and room: "length (ranges a) < usize_max"
  shows "adopt_range a s e \<noteq> None"
proof -
  obtain pre post where rs: "ranges a = pre @ post" and len: "length pre = partition_point (\<lambda>(start, _). start < e) (ranges a)"
    by (rule insertion_point [OF inv clear \<open>s < e\<close> refl])
  have "vec_insert (length pre) r (ranges a) \<noteq> None" for r
    using rs room by (simp add: vec_insert_def)
  then have "adopt_after (note_bounds a s e) n (length pre) s e \<noteq> None" for n
    by (auto simp: adopt_after_def Let_def split: option.split)
  then show ?thesis
    by (auto simp: adopt_range_def Let_def simp flip: len split: option.split)
qed

text \<open>An offset that satisfies the bounds the caller gave.\<close>

fun above_start :: "bound \<Rightarrow> int \<Rightarrow> bool" where
  "above_start (Included b) d \<longleftrightarrow> b \<le> d"
| "above_start (Excluded b) d \<longleftrightarrow> b < d"
| "above_start Unbounded d \<longleftrightarrow> True"

fun below_end :: "bound \<Rightarrow> int \<Rightarrow> bool" where
  "below_end (Included b) d \<longleftrightarrow> d \<le> b"
| "below_end (Excluded b) d \<longleftrightarrow> d < b"
| "below_end Unbounded d \<longleftrightarrow> True"

definition offset_ok :: "bound \<Rightarrow> bound \<Rightarrow> nat \<Rightarrow> nat \<Rightarrow> bool" where
  "offset_ok start end addr p \<longleftrightarrow> above_start start (int p - int addr) \<and> below_end end (int p - int addr)"

lemma start_offset_above:
  "start_offset b = Some d \<Longrightarrow> saturating_add_signed addr d \<le> p \<Longrightarrow> p < usize_max \<Longrightarrow> above_start b (int p - int addr)"
  by (cases b) (auto simp: saturating_add_signed_def split: if_splits)

lemma end_offset_below:
  "end_offset b = Some d \<Longrightarrow> p \<le> saturating_add_signed addr d \<Longrightarrow> 0 < p \<Longrightarrow> below_end b (int p - int addr)"
  by (cases b) (auto simp: saturating_add_signed_def split: if_splits)

lemma start_offset_complete:
  "above_start b d \<Longrightarrow> isize_min \<le> d \<Longrightarrow> d \<le> isize_max \<Longrightarrow> \<exists>d'. start_offset b = Some d' \<and> d' \<le> d"
  by (cases b) auto

lemma end_offset_complete:
  "below_end b d \<Longrightarrow> isize_min \<le> d \<Longrightarrow> d \<le> isize_max \<Longrightarrow> \<exists>d'. end_offset b = Some d' \<and> d \<le> d'"
  by (cases b) auto

lemma end_offset_beyond:
  "end_offset b = Some d \<Longrightarrow> saturating_add_signed addr d < q \<Longrightarrow> q \<le> va_max \<Longrightarrow>
    \<not> below_end b (int q - int addr)"
  by (cases b) (auto simp: saturating_add_signed_def va_max_def usize_defs max_def min_def split: if_splits)

lemma alloc_inside_elim:
  assumes "alloc_near a l addr start end = Some (Some p, a')"
  obtains mn mx where "start_offset start = Some mn" "end_offset end = Some mx"
    "alloc_layout_between a l (saturating_add_signed addr mn)
       (min (saturating_add_signed addr mx) (max_addr a - layout_size l)) = Some (Some p, a')"
  using assms by (auto simp: alloc_near_def alloc_layout_inside_bounds_def Let_def split: option.splits)

lemma alloc_near_served:
  assumes inv: "alloc_inv a" and l: "layout_ok l"
    and res: "alloc_near a l addr start end = Some (Some p, a')"
  shows "served a p (layout_size l) a'" and "offset_ok start end addr p" and "p mod layout_align l = 0"
    and "0 < p"
proof -
  obtain mn mx where off: "start_offset start = Some mn" "end_offset end = Some mx"
    and call: "alloc_layout_between a l (saturating_add_signed addr mn)
       (min (saturating_add_signed addr mx) (max_addr a - layout_size l)) = Some (Some p, a')"
    by (rule alloc_inside_elim [OF res])
  have hi: "min (saturating_add_signed addr mx) (max_addr a - layout_size l) < usize_size"
    using inv by (auto simp: alloc_inv_def va_max_def usize_defs)
  note c = alloc_layout_between_correct(1) [OF inv l hi call refl]
  then show sv: "served a p (layout_size l) a'" and "p mod layout_align l = 0" by auto
  from served_correct(6) [OF inv sv] obtain r where r: "r \<in> set (ranges a)" "fst r \<le> p"
      "p + layout_size l \<le> snd r" by blast
  note rr = alloc_inv_range [OF inv r(1)]
  show pos: "0 < p" using rr r by simp
  have "p < usize_max" using rr r by (auto simp: va_max_def usize_defs)
  with c off pos show "offset_ok start end addr p"
    by (auto simp: offset_ok_def intro: start_offset_above end_offset_below)
qed

lemma alloc_near_none:
  assumes inv: "alloc_inv a" and l: "layout_ok l"
    and res: "alloc_near a l addr start end = Some (None, a')"
  shows "a' = a"
proof -
  have hi: "min (saturating_add_signed addr mx) (max_addr a - layout_size l) < usize_size" for mx
    using inv by (auto simp: alloc_inv_def va_max_def usize_defs)
  from res show ?thesis
    using alloc_layout_between_correct(2) [OF inv l hi _ refl]
    by (auto simp: alloc_near_def alloc_layout_inside_bounds_def Let_def split: option.splits)
qed

text \<open>The loop panics only when rounding up overflows.\<close>

lemma vec_insert_total: "i \<le> length xs \<Longrightarrow> length xs < usize_max \<Longrightarrow> vec_insert i x xs \<noteq> None"
  by (simp add: vec_insert_def)

lemma serve_range_total:
  "i < length (ranges a) \<Longrightarrow> length (ranges a) < usize_max \<Longrightarrow> serve_range a l i s e mn mx \<noteq> None"
  by (auto simp: serve_range_def serve_split_def Let_def vec_insert_def)

lemma probe_ranges_total:
  assumes l: "layout_ok l" and room: "length (ranges a) < usize_max"
    and lo: "lo + layout_align l < usize_size" and hi: "hi + layout_align l < usize_size"
  shows "i + length rest \<le> length (ranges a) \<Longrightarrow> probe_ranges a l lo hi i rest \<noteq> None"
proof (induction rest arbitrary: i)
  case (Cons x rest)
  obtain s e where x: "x = (s, e)" by (cases x)
  show ?case
  proof (cases "s < hi")
    case True
    have "0 < layout_align l" using l by (auto simp: layout_ok_def)
    moreover have "max s lo + layout_align l < usize_size" using True lo hi by auto
    ultimately obtain mn where "next_multiple_of (max s lo) (layout_align l) = Some mn"
      using next_multiple_of_exists [of "layout_align l" "max s lo"] by auto
    moreover have "probe_ranges a l lo hi (Suc i) rest \<noteq> None" using Cons by simp
    moreover have "serve_range a l i s e mn mx \<noteq> None" for mx
      using serve_range_total [OF _ room] Cons.prems by simp
    ultimately show ?thesis by (simp add: x Let_def)
  qed (simp add: x)
qed simp

text \<open>
  The address space is finite: with a start bound that leaves room for rounding up, an
  allocation never panics.
\<close>

definition start_rounds :: "layout \<Rightarrow> nat \<Rightarrow> bound \<Rightarrow> bool" where
  "start_rounds l addr start \<longleftrightarrow>
     (case start_offset start of None \<Rightarrow> True
      | Some mn \<Rightarrow> saturating_add_signed addr mn + layout_align l \<le> usize_size)"

lemma alloc_layout_between_total:
  assumes inv: "alloc_inv a" and l: "layout_ok l" and room: "length (ranges a) < usize_max"
    and mn: "min0 + layout_align l \<le> usize_size" and mx: "max0 \<le> va_max"
  shows "alloc_layout_between a l min0 max0 \<noteq> None"
proof -
  from l obtain k where k: "k \<le> 62" "layout_align l = 2 ^ k" unfolding layout_ok_def by auto
  from power_increasing [OF k(1), of "2::nat"] k(2)
  have al: "0 < layout_align l" "layout_align l \<le> 2 ^ 62" by simp_all
  from next_multiple_of_exists [OF al(1) mn] obtain lo where lo: "next_multiple_of min0 (layout_align l) = Some lo"
    by auto
  define hi i where "hi = align_down max0 (layout_align l)"
    and "i = partition_point (\<lambda>(_, end). end \<le> lo) (ranges a)"
  have "max0 < usize_size" using mx by (simp add: va_max_def usize_defs)
  from layout_ok_align(1) [OF l this] mx have hi: "hi \<le> va_max" by (simp add: hi_def)
  have i: "i \<le> length (ranges a)"
    using partition_point_splits [OF partitioned_ends [OF inv]] by (simp add: i_def splits_at_def)
  have "probe_ranges a l lo hi i (drop i (ranges a)) \<noteq> None" if "lo \<le> hi"
    using that al hi i by (intro probe_ranges_total [OF l room]) (auto simp: va_max_def usize_defs)
  with lo show ?thesis
    by (auto simp: alloc_layout_between_def hi_def i_def Let_def)
qed

lemma align_down_gap:
  assumes l: "layout_ok l" and x: "x < usize_size"
  shows "x < align_down x (layout_align l) + layout_align l"
proof (rule ccontr)
  let ?q = "align_down x (layout_align l)"
  assume "\<not> x < ?q + layout_align l"
  then have "?q + layout_align l \<le> ?q"
    using layout_ok_align(2) [OF l x] by (intro layout_ok_align(3) [OF l x]) auto
  moreover have "0 < layout_align l" using l by (auto simp: layout_ok_def)
  ultimately show False by simp
qed

section \<open>The allocator and its callers\<close>

text \<open>
  The callers' view: the allocator together with the blocks in use. A caller lends it fresh
  memory (which meets neither a free range nor a block in use), asks for an object that is not
  zero-sized, or gives back a block it got.
\<close>

inductive alloc_step :: "range_alloc \<times> (nat \<times> nat) list \<Rightarrow> range_alloc \<times> (nat \<times> nat) list \<Rightarrow> bool" where
  step_adopt: "0 < s \<Longrightarrow> s < e \<Longrightarrow> e \<le> va_max \<Longrightarrow> clear_of a (s, e) \<Longrightarrow> (\<forall>b \<in> set live. apart b (s, e)) \<Longrightarrow>
    adopt_range a s e = Some a' \<Longrightarrow> alloc_step (a, live) (a', live)"
| step_alloc: "layout_ok l \<Longrightarrow> 0 < layout_size l \<Longrightarrow> alloc_near a l addr start end = Some (Some p, a') \<Longrightarrow>
    alloc_step (a, live) (a', (p, p + layout_size l) # live)"
| step_none: "layout_ok l \<Longrightarrow> alloc_near a l addr start end = Some (None, a') \<Longrightarrow>
    alloc_step (a, live) (a', live)"
| step_reclaim: "reclaim a p len = Some a' \<Longrightarrow> alloc_step (a, pre @ (p, p + len) # post) (a', pre @ post)"

inductive alloc_reachable :: "range_alloc \<times> (nat \<times> nat) list \<Rightarrow> bool" where
  reach_init: "alloc_reachable (range_alloc_zeroed, [])"
| reach_step: "alloc_reachable st \<Longrightarrow> alloc_step st st' \<Longrightarrow> alloc_reachable st'"

inductive_cases alloc_stepE: "alloc_step (a, live) st'"

definition owners_ok :: "range_alloc \<times> (nat \<times> nat) list \<Rightarrow> bool" where
  "owners_ok st \<longleftrightarrow> alloc_inv (fst st) \<and> sorted_wrt apart (snd st)
     \<and> (\<forall>b \<in> set (snd st). 0 < fst b \<and> fst b < snd b \<and> snd b \<le> va_max \<and> clear_of (fst st) b)"

lemma apart_sym: "apart b c \<Longrightarrow> apart c b"
  by (auto simp: apart_def)

lemma sorted_wrt_apart_remove:
  "sorted_wrt apart (pre @ b # post) \<Longrightarrow> sorted_wrt apart (pre @ post) \<and> (\<forall>c \<in> set (pre @ post). apart c b)"
  by (auto simp: sorted_wrt_append intro: apart_sym)

lemma adopt_keeps_owners:
  assumes ok: "owners_ok (a, live)" and se: "0 < s" "s < e" "e \<le> va_max" and clear: "clear_of a (s, e)"
    and ap: "\<forall>b \<in> set live. apart b (s, e)" and res: "adopt_range a s e = Some a'"
  shows "owners_ok (a', live)"
proof -
  have inv: "alloc_inv a" using ok by (simp add: owners_ok_def)
  note c = adopted_correct [OF inv se adopt_range_adopted [OF inv se(1,2) clear res]]
  show ?thesis using ok ap c(1,3) by (auto simp: owners_ok_def)
qed

lemma alloc_keeps_owners:
  assumes ok: "owners_ok (a, live)" and l: "layout_ok l" and sz: "0 < layout_size l"
    and res: "alloc_near a l addr start end = Some (Some p, a')"
  shows "owners_ok (a', (p, p + layout_size l) # live)"
proof -
  have inv: "alloc_inv a" using ok by (simp add: owners_ok_def)
  note s = alloc_near_served [OF inv l res]
  note c = served_correct [OF inv s(1)]
  from c(6) obtain r where r: "r \<in> set (ranges a)" "fst r \<le> p" "p + layout_size l \<le> snd r" by blast
  have "apart b (p, p + layout_size l)" if "b \<in> set live" for b
  proof -
    have "apart b r" using ok that r(1) by (simp add: owners_ok_def clear_of_def)
    with r show ?thesis by (auto simp: apart_def)
  qed
  moreover have "p + layout_size l \<le> va_max" using alloc_inv_range [OF inv r(1)] r by simp
  ultimately show ?thesis
    using ok c(1,3,5) s(4) sz by (auto simp: owners_ok_def intro: apart_sym)
qed

lemma alloc_step_owners: "alloc_step st st' \<Longrightarrow> owners_ok st \<Longrightarrow> owners_ok st'"
proof (induction rule: alloc_step.induct)
  case (step_adopt s e a live a')
  then show ?case by (blast intro: adopt_keeps_owners)
next
  case (step_alloc l a addr start "end" p a' live)
  show ?case
    by (rule alloc_keeps_owners [OF step_alloc.prems step_alloc.hyps])
next
  case (step_none l a addr start "end" a' live)
  have "alloc_inv a" using step_none.prems by (simp add: owners_ok_def)
  from alloc_near_none [OF this step_none.hyps] step_none.prems show ?case by simp
next
  case (step_reclaim a p len a' pre post)
  let ?b = "(p, p + len)"
  from step_reclaim.prems have b: "0 < p" "p < p + len" "p + len \<le> va_max" "clear_of a ?b"
    by (auto simp: owners_ok_def)
  from step_reclaim.prems have "sorted_wrt apart (pre @ ?b # post)" by (simp add: owners_ok_def)
  note rest = sorted_wrt_apart_remove [OF this]
  have "owners_ok (a, pre @ post)" using step_reclaim.prems rest by (auto simp: owners_ok_def)
  from adopt_keeps_owners [OF this b] rest step_reclaim.hyps show ?case
    by (simp add: reclaim_def)
qed

lemma alloc_reachable_owners: "alloc_reachable st \<Longrightarrow> owners_ok st"
proof (induction rule: alloc_reachable.induct)
  case reach_init
  show ?case by (simp add: owners_ok_def alloc_inv_zeroed)
next
  case (reach_step st st')
  then show ?case by (blast intro: alloc_step_owners)
qed

section \<open>Properties\<close>

text \<open>
  C7. Adopting (or reclaiming) a range that is clear of the free ranges succeeds, keeps the ranges sorted,
  disjoint and inside the recorded bounds, and makes exactly its bytes available; only a range
  shorter than \<open>MIN_RANGE_LEN\<close> that no free range ends at and none starts at may be dropped.
\<close>

theorem adopt_range_correct:
  assumes "alloc_inv a" and "0 < s" and "s < e" and "e \<le> va_max" and "clear_of a (s, e)"
    and "length (ranges a) < usize_max"
  shows "\<exists>a'. adopt_range a s e = Some a' \<and> alloc_inv a'
    \<and> (free_bytes a' = free_bytes a \<union> {s..<e}
      \<or> e - s < MIN_RANGE_LEN \<and> detached a (s, e) \<and> free_bytes a' = free_bytes a)"
proof -
  obtain a' where a': "adopt_range a s e = Some a'"
    using adopt_range_total [OF assms(1,5,3,6)] by blast
  note ad = adopt_range_adopted [OF assms(1,2,3,5) a']
  from adopted_correct(1,2) [OF assms(1-4) ad] a' show ?thesis by auto
qed

definition example_alloc :: range_alloc where
  "example_alloc = \<lparr>ranges = [(4096, 8192), (12288, 16384)], min_addr = 4097, max_addr = 16384\<rparr>"

lemma example_alloc_inv: "alloc_inv example_alloc" and example_alloc_room: "length (ranges example_alloc) < usize_max"
  by (simp_all add: alloc_inv_def example_alloc_def range_ok_def va_max_def usize_defs)

theorem adopt_range_correct_witness:
  "\<exists>a'. adopt_range example_alloc 8192 9000 = Some a' \<and> alloc_inv a'
    \<and> (free_bytes a' = free_bytes example_alloc \<union> {8192..<9000}
       \<or> 9000 - (8192::nat) < MIN_RANGE_LEN \<and> detached example_alloc (8192, 9000) \<and> free_bytes a' = free_bytes example_alloc)"
  by (rule adopt_range_correct [OF example_alloc_inv _ _ _ _ example_alloc_room])
    (simp_all add: va_max_def clear_of_def apart_def example_alloc_def)

text \<open>
  C4. An address that \<open>alloc_near\<close> returns is aligned, at an offset from the given address
  that satisfies both bounds, and its bytes were free and are free no more; no other byte is
  taken, except fewer than \<open>MIN_RANGE_LEN\<close> bytes of padding that may be dropped.
\<close>

theorem alloc_near_sound:
  assumes "alloc_inv a" and "layout_ok l" and "alloc_near a l addr start end = Some (Some p, a')"
  shows "offset_ok start end addr p \<and> p mod layout_align l = 0 \<and> alloc_inv a'
    \<and> {p..<p + layout_size l} \<subseteq> free_bytes a \<and> {p..<p + layout_size l} \<inter> free_bytes a' = {}
    \<and> (\<exists>lost. free_bytes a = free_bytes a' \<union> {p..<p + layout_size l} \<union> lost \<and> card lost < MIN_RANGE_LEN)"
proof -
  note s = alloc_near_served [OF assms]
  note c = served_correct [OF assms(1) s(1)]
  from c(3) have "{p..<p + layout_size l} \<inter> free_bytes a' = {}"
    by (fastforce simp: clear_of_def apart_def free_bytes_def)
  with s c(1,2,4) show ?thesis by blast
qed

definition thunk_layout :: layout where
  "thunk_layout = \<lparr>layout_size = 32, layout_align = 8\<rparr>"

lemma thunk_layout_ok: "layout_ok thunk_layout"
  by (auto simp: layout_ok_def thunk_layout_def intro: exI [of _ 3])

lemma align_down_8: "x < usize_size \<Longrightarrow> align_down x 8 = 8 * (x div 8)"
  using align_down_pow2 [of 3 x] by simp

lemmas alloc_eval = alloc_near_def alloc_layout_inside_bounds_def alloc_layout_between_def
  saturating_add_signed_def next_multiple_of_def checked_add_def align_down_8 wrapping_sub_def
  partition_point_def binary_search_by_def bs_loop.simps serve_range_def serve_split_def
  vec_insert_def MIN_RANGE_LEN_def usize_defs Let_def

lemma example_alloc_near:
  "alloc_near example_alloc thunk_layout 10000 (Included (-1000)) (Excluded 5000)
    = Some (Some 12288, example_alloc\<lparr>ranges := [(4096, 8192), (12320, 16384)]\<rparr>)"
  by (simp add: alloc_eval example_alloc_def thunk_layout_def)

theorem alloc_near_sound_witness:
  "offset_ok (Included (-1000)) (Excluded 5000) 10000 12288
    \<and> {12288..<12288 + layout_size thunk_layout} \<subseteq> free_bytes example_alloc"
  using alloc_near_sound [OF example_alloc_inv thunk_layout_ok example_alloc_near] by simp


text \<open>A block the request could be served with, and one that ends what the request may use.\<close>

definition serves :: "range_alloc \<Rightarrow> layout \<Rightarrow> nat \<Rightarrow> bound \<Rightarrow> bound \<Rightarrow> nat \<times> nat \<Rightarrow> nat \<Rightarrow> bool" where
  "serves a l addr start end x p \<longleftrightarrow> x \<in> set (ranges a) \<and> fst x \<le> p \<and> p + layout_size l \<le> snd x
     \<and> p mod layout_align l = 0 \<and> offset_ok start end addr p
     \<and> int p - int addr \<in> {isize_min..isize_max}"

definition last_block :: "range_alloc \<Rightarrow> layout \<Rightarrow> nat \<Rightarrow> bound \<Rightarrow> bound \<Rightarrow> nat \<Rightarrow> bool" where
  "last_block a l addr start end p \<longleftrightarrow> max_addr a < p + layout_align l + layout_size l
     \<or> \<not> offset_ok start end addr (p + layout_align l)"

lemma alloc_near_total:
  assumes inv: "alloc_inv a" and l: "layout_ok l" and room: "length (ranges a) < usize_max"
    and st: "start_rounds l addr start"
  shows "alloc_near a l addr start end \<noteq> None"
proof -
  have "min (saturating_add_signed addr mx) (max_addr a - layout_size l) \<le> va_max" for mx
    using inv by (auto simp: alloc_inv_def)
  from alloc_layout_between_total [OF inv l room _ this] st show ?thesis
    by (auto simp: alloc_near_def alloc_layout_inside_bounds_def Let_def start_rounds_def split: option.splits)
qed

lemma alloc_near_none_why:
  assumes inv: "alloc_inv a" and l: "layout_ok l" and sz: "0 < layout_size l"
    and res: "alloc_near a l addr start end = Some (None, a')" and sv: "serves a l addr start end x p"
  shows "p = fst x \<and> last_block a l addr start end p"
proof -
  let ?l = "layout_align l" and ?sz = "layout_size l"
  have x: "x \<in> set (ranges a)" and p: "fst x \<le> p" "p + ?sz \<le> snd x" "p mod ?l = 0"
    and off: "offset_ok start end addr p" and d: "int p - int addr \<in> {isize_min..isize_max}"
    using sv by (simp_all add: serves_def)
  have mxa: "max_addr a \<le> va_max" using inv by (simp add: alloc_inv_def)
  note rx = alloc_inv_range [OF inv x]
  obtain mn where mn: "start_offset start = Some mn" "mn \<le> int p - int addr"
    using start_offset_complete [of start "int p - int addr"] off d by (auto simp: offset_ok_def)
  obtain mx where mx: "end_offset end = Some mx" "int p - int addr \<le> mx"
    using end_offset_complete [of "end" "int p - int addr"] off d by (auto simp: offset_ok_def)
  define lo hi where "lo = saturating_add_signed addr mn"
    and "hi = min (saturating_add_signed addr mx) (max_addr a - ?sz)"
  have hi_less: "hi < usize_size" using mxa by (auto simp: hi_def va_max_def usize_defs)
  have "lo \<le> p" using mn(2) by (auto simp: lo_def intro: saturating_add_signed_lower)
  moreover have "p \<le> hi"
    using mx(2) p rx by (auto simp: hi_def va_max_def usize_defs intro!: saturating_add_signed_upper)
  ultimately have f: "fits l lo hi x p" using p by (simp add: fits_def)
  have call: "alloc_layout_between a l lo hi = Some (None, a')"
    using res mn(1) mx(1) by (simp add: alloc_near_def alloc_layout_inside_bounds_def lo_def hi_def Let_def)
  from alloc_layout_between_correct(3) [OF inv l hi_less call refl sz x f]
  have px: "fst x = p" "p = align_down hi ?l" by auto
  have "hi < p + ?l" using align_down_gap [OF l hi_less] px(2) by simp
  moreover have "\<not> offset_ok start end addr (p + ?l)"
    if "saturating_add_signed addr mx < p + ?l" "p + ?l \<le> max_addr a"
    using end_offset_beyond [OF mx(1) that(1)] that(2) mxa by (simp add: offset_ok_def)
  ultimately show ?thesis using px(1) by (auto simp: hi_def min_def last_block_def split: if_splits)
qed

text \<open>
  C6. \<open>alloc_near\<close> never panics when the start bound leaves room for rounding up, and it only
  answers \<open>None\<close>, changing nothing, when no free range has an aligned block inside the bounds, with
  one exception: a block at the very start of a range that is also the last block the bounds or the
  recorded \<open>max_addr\<close> allow.
\<close>

theorem alloc_near_complete:
  assumes "alloc_inv a" and "layout_ok l" and "0 < layout_size l" and "length (ranges a) < usize_max"
    and "start_rounds l addr start"
  shows "\<exists>r a'. alloc_near a l addr start end = Some (r, a') \<and> (r = None \<longrightarrow> a' = a
    \<and> (\<forall>x p. serves a l addr start end x p \<longrightarrow> p = fst x \<and> last_block a l addr start end p))"
proof -
  obtain r a' where ra: "alloc_near a l addr start end = Some (r, a')"
    using alloc_near_total [OF assms(1,2,4,5), of "end"] by auto
  show ?thesis
  proof (cases r)
    case None
    with ra have res: "alloc_near a l addr start end = Some (None, a')" by simp
    show ?thesis
      using res alloc_near_none [OF assms(1,2) res] alloc_near_none_why [OF assms(1-3) res] by blast
  qed (use ra in simp)
qed

theorem alloc_near_complete_witness:
  "\<exists>r a'. alloc_near example_alloc thunk_layout 10000 (Included (-1000)) Unbounded = Some (r, a')"
proof -
  have "0 < layout_size thunk_layout" "start_rounds thunk_layout 10000 (Included (-1000))"
    by (simp_all add: thunk_layout_def start_rounds_def saturating_add_signed_def usize_defs)
  from alloc_near_complete [OF example_alloc_inv thunk_layout_ok this(1) example_alloc_room this(2)]
  show ?thesis by blast
qed

text \<open>
  C5. In every state the callers can reach, the blocks in use are pairwise disjoint and none of their
  bytes is available for allocation.
\<close>

theorem blocks_never_overlap:
  assumes "alloc_reachable (a, live)"
  shows "(\<forall>i j. i < j \<and> j < length live \<longrightarrow>
      {fst (live ! i)..<snd (live ! i)} \<inter> {fst (live ! j)..<snd (live ! j)} = {})
    \<and> (\<forall>b \<in> set live. {fst b..<snd b} \<inter> free_bytes a = {})"
proof -
  from alloc_reachable_owners [OF assms] have ok: "owners_ok (a, live)" .
  have "{fst (live ! i)..<snd (live ! i)} \<inter> {fst (live ! j)..<snd (live ! j)} = {}"
    if "i < j" "j < length live" for i j
  proof -
    have "apart (live ! i) (live ! j)" using ok that by (simp add: owners_ok_def sorted_wrt_iff_nth_less)
    then show ?thesis by (auto simp: apart_def)
  qed
  moreover have "{fst b..<snd b} \<inter> free_bytes a = {}" if "b \<in> set live" for b
    using ok that by (fastforce simp: owners_ok_def clear_of_def apart_def free_bytes_def)
  ultimately show ?thesis by blast
qed

lemma example_adopt: "adopt_range range_alloc_zeroed 4096 8192
    = Some \<lparr>ranges = [(4096, 8192)], min_addr = 4097, max_addr = 8192\<rparr>"
  by (simp add: adopt_range_def range_alloc_zeroed_def note_bounds_def adopt_after_def slice_get_def alloc_eval)

lemma example_second_alloc:
  "alloc_near \<lparr>ranges = [(4096, 8192)], min_addr = 4097, max_addr = 8192\<rparr> thunk_layout 5000
     (Included (-200)) (Included 200)
   = Some (Some 4800, \<lparr>ranges = [(4096, 4800), (4832, 8192)], min_addr = 4097, max_addr = 8192\<rparr>)"
  by (simp add: alloc_eval thunk_layout_def)

lemma example_reachable:
  "alloc_reachable (\<lparr>ranges = [(4096, 4800), (4832, 8192)], min_addr = 4097, max_addr = 8192\<rparr>, [(4800, 4832)])"
proof -
  have "alloc_step (range_alloc_zeroed, []) (\<lparr>ranges = [(4096, 8192)], min_addr = 4097, max_addr = 8192\<rparr>, [])"
    by (rule step_adopt [OF _ _ _ _ _ example_adopt])
      (simp_all add: va_max_def clear_of_def range_alloc_zeroed_def)
  moreover have "alloc_step (\<lparr>ranges = [(4096, 8192)], min_addr = 4097, max_addr = 8192\<rparr>, [])
      (\<lparr>ranges = [(4096, 4800), (4832, 8192)], min_addr = 4097, max_addr = 8192\<rparr>, [(4800, 4832)])"
    using step_alloc [OF thunk_layout_ok _ example_second_alloc, of "[]"] by (simp add: thunk_layout_def)
  ultimately show ?thesis by (blast intro: reach_init reach_step)
qed

theorem blocks_never_overlap_witness:
  "{4800..<4832} \<inter> free_bytes \<lparr>ranges = [(4096, 4800), (4832, 8192)], min_addr = 4097, max_addr = 8192\<rparr> = {}"
  using blocks_never_overlap [OF example_reachable] by simp

text \<open>
  The exception is reachable: an allocator whose only range was just adopted never serves a
  request for exactly that range, wherever the request is centred and whatever its bounds (the
  loop skips a range that starts at the highest address the request could use).
\<close>

theorem exact_fit_refused:
  assumes "layout_ok l" and "0 < s" and "s < e" and "e \<le> va_max" and "MIN_RANGE_LEN \<le> e - s"
    and "layout_size l = e - s" and "start_rounds l addr start"
  shows "Option.bind (adopt_range range_alloc_zeroed s e) (\<lambda>a. alloc_near a l addr start end)
    = Some (None, \<lparr>ranges = [(s, e)], min_addr = s + 1, max_addr = e\<rparr>)"
proof -
  let ?a = "\<lparr>ranges = [(s, e)], min_addr = s + 1, max_addr = e\<rparr>"
  have su: "s < usize_max" using assms(3,4) by (simp add: va_max_def usize_defs)
  have ad: "adopt_range range_alloc_zeroed s e = Some ?a"
    using assms(2-5) su wrapping_sub_zero_one
    by (simp add: adopt_range_def range_alloc_zeroed_def note_bounds_def Let_def partition_point_def
        binary_search_by_def adopt_after_def slice_get_def vec_insert_def)
  have inv: "alloc_inv ?a"
    using assms(2-4) by (simp add: alloc_inv_def range_ok_def va_max_def usize_defs)
  have "alloc_near ?a l addr start end \<noteq> None"
    using su by (intro alloc_near_total [OF inv assms(1) _ assms(7)]) (simp add: usize_defs)
  then obtain r a' where ra: "alloc_near ?a l addr start end = Some (r, a')" by auto
  have "r = None"
  proof (rule ccontr)
    assume "r \<noteq> None"
    then obtain p where r: "r = Some p" by blast
    obtain mn mx where call: "alloc_layout_between ?a l (saturating_add_signed addr mn)
        (min (saturating_add_signed addr mx) (max_addr ?a - layout_size l)) = Some (Some p, a')"
      using ra [unfolded r] by (rule alloc_inside_elim)
    let ?m = "min (saturating_add_signed addr mx) s"
    have m: "?m < usize_size" using su by (simp add: usize_defs)
    have hi: "align_down ?m (layout_align l) \<le> s"
      using layout_ok_align(1) [OF assms(1) m] by simp
    have "probe_ranges ?a l lo (align_down ?m (layout_align l)) i (drop j [(s, e)]) = Some (None, ?a)" for lo i j
      using hi by (cases j) simp_all
    with call assms(3,6) show False
      by (auto simp: alloc_layout_between_def bind_eq_Some_conv Let_def split: if_splits)
  qed
  with alloc_near_none [OF inv assms(1)] ra show ?thesis by (simp add: ad)
qed

theorem exact_fit_refused_witness:
  "Option.bind (adopt_range range_alloc_zeroed 4096 4128)
      (\<lambda>a. alloc_near a thunk_layout 5000 (Included (-2000)) Unbounded)
    = Some (None, \<lparr>ranges = [(4096, 4128)], min_addr = 4096 + 1, max_addr = 4128\<rparr>)"
  by (rule exact_fit_refused [OF thunk_layout_ok])
    (simp_all add: va_max_def MIN_RANGE_LEN_def thunk_layout_def start_rounds_def
      saturating_add_signed_def usize_defs)

end
