(* ===== verification/Process_Context.thy ===== *)
theory Process_Context
  imports Pod_Vec Range_Alloc
begin

text \<open>
  \<open>ProcessContext\<close> (\<open>abi/src/context/process.rs\<close>), the part shared by all copies of the library
  in a process: the table of thunks, sorted by the address of the hooked function, in a
  \<open>PodVec\<close>. The address a \<open>ThunkFn\<close> refers to is the address of its atomic function pointer.
\<close>

section \<open>The table of thunks\<close>

record thunk_fn =
  tf_addr :: nat
  tf_thunk :: nat

record thunk_slot =
  slot_index :: nat
  slot_target :: nat

type_synonym thunk_vec = "thunk_fn mem \<times> pod_vec"

record process_context =
  pc_thunks :: thunk_vec
  pc_alloc :: range_alloc

definition THUNK_FN :: layout where
  "THUNK_FN = \<lparr>layout_size = 16, layout_align = 8\<rparr>"

text \<open>\<open>Inr\<close> is \<open>Ok\<close> with the thunk, \<open>Inl\<close> is \<open>Err\<close> with the slot for a new one.\<close>

definition get_thunk :: "process_context \<Rightarrow> nat \<Rightarrow> (thunk_slot + nat) option" where
  "get_thunk self target = do {
     thunks \<leftarrow> vec_contents THUNK_FN (pc_thunks self);
     case binary_search_by_key target tf_addr thunks of
       Inl index \<Rightarrow> Some (Inl \<lparr>slot_index = index, slot_target = target\<rparr>)
     | Inr i \<Rightarrow> Some (Inr (tf_thunk (thunks ! i)))
   }"

definition insert_thunk ::
    "((nat \<times> nat) list \<Rightarrow> nat \<Rightarrow> nat option) \<Rightarrow> nat \<Rightarrow> process_context \<Rightarrow> thunk_slot \<Rightarrow> nat
      \<Rightarrow> process_context option" where
  "insert_thunk mm page self slot thunk =
     map_option (\<lambda>v. self\<lparr>pc_thunks := v\<rparr>)
       (vec_insert_op mm page THUNK_FN (pc_thunks self) (slot_index slot)
          \<lparr>tf_addr = slot_target slot, tf_thunk = thunk\<rparr>)"

text \<open>The contract: a finite map from hooked addresses to thunks.\<close>

definition thunk_map :: "process_context \<Rightarrow> (nat \<rightharpoonup> nat) option" where
  "thunk_map c = map_option (\<lambda>ts. map_of (map (\<lambda>t. (tf_addr t, tf_thunk t)) ts))
     (vec_contents THUNK_FN (pc_thunks c))"

definition thunks_inv :: "((nat \<times> nat) list \<Rightarrow> nat \<Rightarrow> nat option) \<Rightarrow> nat \<Rightarrow> process_context \<Rightarrow> bool" where
  "thunks_inv mm page c \<longleftrightarrow> vec_inv mm page THUNK_FN (pc_thunks c)
     \<and> (\<exists>ts. vec_contents THUNK_FN (pc_thunks c) = Some ts \<and> sorted_wrt (<) (map tf_addr ts))"

lemma sorted_keys_distinct: "sorted_wrt (<) (map g ts) \<Longrightarrow> distinct (map (g :: 'a \<Rightarrow> nat) ts)"
  by (simp add: strict_sorted_iff)

lemma thunk_map_at:
  assumes "sorted_wrt (<) (map tf_addr ts)" and "i < length ts"
  shows "map_of (map (\<lambda>t. (tf_addr t, tf_thunk t)) ts) (tf_addr (ts ! i)) = Some (tf_thunk (ts ! i))"
proof -
  have "distinct (map fst (map (\<lambda>t. (tf_addr t, tf_thunk t)) ts))"
    using sorted_keys_distinct [OF assms(1)] by (simp add: comp_def)
  moreover have "(tf_addr (ts ! i), tf_thunk (ts ! i)) \<in> set (map (\<lambda>t. (tf_addr t, tf_thunk t)) ts)"
    using assms(2) by force
  ultimately show ?thesis by (rule map_of_is_SomeI)
qed

lemma thunk_map_insert:
  assumes "sorted_wrt (<) (map tf_addr ys)" and "set ys = insert t (set ts)" and "tf_addr t \<notin> tf_addr ` set ts"
    and "sorted_wrt (<) (map tf_addr ts)"
  shows "map_of (map (\<lambda>t. (tf_addr t, tf_thunk t)) ys)
    = (map_of (map (\<lambda>t. (tf_addr t, tf_thunk t)) ts))(tf_addr t \<mapsto> tf_thunk t)"
proof -
  let ?e = "\<lambda>t. (tf_addr t, tf_thunk t)"
  have d: "distinct (map fst (map ?e ys))" "distinct (map fst (map ?e (t # ts)))"
    using sorted_keys_distinct [OF assms(1)] sorted_keys_distinct [OF assms(4)] assms(3)
    by (simp_all add: comp_def)
  have "set (map ?e ys) = set (map ?e (t # ts))" using assms(2) by simp
  then have "map_of (map ?e ys) = map_of (map ?e (t # ts))" using map_of_inject_set [OF d] by blast
  then show ?thesis by simp
qed

lemma get_thunk_correct:
  assumes inv: "thunks_inv mm page c"
  obtains (Hooked) thunk f where "get_thunk c target = Some (Inr thunk)" "thunk_map c = Some f"
      "f target = Some thunk"
  | (Slot) slot ts where "get_thunk c target = Some (Inl slot)" "slot_target slot = target"
      "vec_contents THUNK_FN (pc_thunks c) = Some ts" "sorted_wrt (<) (map tf_addr ts)"
      "binary_search_by_key target tf_addr ts = Inl (slot_index slot)" "target \<notin> tf_addr ` set ts"
proof -
  obtain ts where ts: "vec_contents THUNK_FN (pc_thunks c) = Some ts" "sorted_wrt (<) (map tf_addr ts)"
    using inv by (auto simp: thunks_inv_def)
  show thesis
  proof (cases rule: binary_search_by_key_cases [OF ts(2), of target, case_names Found Missing])
    case (Found i)
    then show ?thesis
      using Hooked [of "tf_thunk (ts ! i)" "map_of (map (\<lambda>t. (tf_addr t, tf_thunk t)) ts)"]
        thunk_map_at [OF ts(2), of i] ts(1) by (simp add: get_thunk_def thunk_map_def)
  next
    case (Missing i)
    then show ?thesis
      using Slot [of "\<lparr>slot_index = i, slot_target = target\<rparr>" ts] ts by (simp add: get_thunk_def)
  qed
qed

lemma insert_thunk_correct:
  assumes inv: "thunks_inv mm page c" and slot: "get_thunk c target = Some (Inl slot)"
    and ins: "insert_thunk mm page c slot thunk = Some c'"
  obtains f where "thunk_map c = Some f" "f target = None" "thunks_inv mm page c'"
    "thunk_map c' = Some (f(target \<mapsto> thunk))" "pc_alloc c' = pc_alloc c"
proof (cases rule: get_thunk_correct [OF inv, of target, case_names Hooked Slot])
  case (Slot slot' ts)
  let ?t = "\<lparr>tf_addr = target, tf_thunk = thunk\<rparr>"
  have sl: "slot' = slot" using Slot(1) slot by simp
  obtain v where v: "vec_insert_op mm page THUNK_FN (pc_thunks c) (slot_index slot) ?t = Some v"
    and c': "c' = c\<lparr>pc_thunks := v\<rparr>"
    using ins Slot(2) sl by (auto simp: insert_thunk_def)
  have vi: "vec_inv mm page THUNK_FN (pc_thunks c)" using inv by (simp add: thunks_inv_def)
  have b: "binary_search_by_key (tf_addr ?t) tf_addr ts = Inl (slot_index slot)" using Slot(5) sl by simp
  obtain ys where ys: "vec_contents THUNK_FN v = Some ys" "sorted_wrt (<) (map tf_addr ys)"
      "set ys = Set.insert ?t (set ts)"
    using pv.insert_sorted [OF vi Slot(3,4) b v] .
  have "thunks_inv mm page c'"
    using ys pv.insert_inv [OF vi v] by (auto simp: thunks_inv_def c')
  moreover have "thunk_map c' = Some ((map_of (map (\<lambda>t. (tf_addr t, tf_thunk t)) ts))(target \<mapsto> thunk))"
    using thunk_map_insert [OF ys(2,3) _ Slot(4)] Slot(6) ys(1) by (simp add: thunk_map_def c')
  moreover have "map_of (map (\<lambda>t. (tf_addr t, tf_thunk t)) ts) target = None"
    using Slot(6) by (auto simp: map_of_eq_None_iff)
  ultimately show ?thesis using that Slot(3) by (simp add: thunk_map_def c')
qed (use slot in simp)

section \<open>Properties\<close>

text \<open>
  C38. The table of thunks is a finite map: \<open>get_thunk\<close> answers exactly the thunk of the address when
  the map has one and otherwise a slot; inserting a thunk at the slot it answered keeps the table
  sorted and adds that one entry, so the next \<open>get_thunk\<close> finds it and every other address is unchanged.
\<close>

theorem thunk_table_is_map:
  assumes "thunks_inv mm page c"
  shows "\<exists>f. thunk_map c = Some f
    \<and> (\<forall>target thunk. get_thunk c target = Some (Inr thunk) \<longleftrightarrow> f target = Some thunk)
    \<and> (\<forall>target slot thunk c'. get_thunk c target = Some (Inl slot)
        \<and> insert_thunk mm page c slot thunk = Some c' \<longrightarrow>
        thunks_inv mm page c' \<and> thunk_map c' = Some (f(target \<mapsto> thunk))
        \<and> get_thunk c' target = Some (Inr thunk) \<and> pc_alloc c' = pc_alloc c)"
proof -
  obtain f where f: "thunk_map c = Some f" using assms by (auto simp: thunks_inv_def thunk_map_def)
  have get: "get_thunk d target = Some (Inr thunk) \<longleftrightarrow> g target = Some thunk"
    if inv: "thunks_inv mm page d" and g: "thunk_map d = Some g" for d g target thunk
  proof (cases rule: get_thunk_correct [OF inv, of target, case_names Hooked Slot])
    case (Slot slot ts)
    then have "g target = None" using g by (auto simp: thunk_map_def map_of_eq_None_iff)
    with Slot(1) show ?thesis by simp
  qed (use g in auto)
  have "thunks_inv mm page c' \<and> thunk_map c' = Some (f(target \<mapsto> thunk))
      \<and> get_thunk c' target = Some (Inr thunk) \<and> pc_alloc c' = pc_alloc c"
    if s: "get_thunk c target = Some (Inl slot)" and i: "insert_thunk mm page c slot thunk = Some c'"
    for target slot thunk c'
    by (rule insert_thunk_correct [OF assms s i]) (use f get in auto)
  with f get [OF assms f] show ?thesis by blast
qed

definition example_context :: process_context where
  "example_context = \<lparr>pc_thunks = (\<lparr>cells = (\<lambda>a. None), mapped = []\<rparr>, pod_vec_new), pc_alloc = range_alloc_zeroed\<rparr>"

lemma example_context_inv: "thunks_inv bump_mmap 16 example_context"
proof -
  have "type_ok THUNK_FN 16"
    unfolding type_ok_def THUNK_FN_def by (simp, intro conjI exI [of _ 3] exI [of _ 4]; simp)
  then show ?thesis
    by (auto simp: thunks_inv_def example_context_def vec_inv_def bump_mmap_ok pod_vec_new_inv
        vec_contents_def pod_vec_new_empty)
qed

theorem thunk_table_is_map_witness:
  "\<exists>f. thunk_map example_context = Some f \<and> f 4096 = None"
proof -
  have "get_thunk example_context 4096 = Some (Inl \<lparr>slot_index = 0, slot_target = 4096\<rparr>)"
    by (simp add: get_thunk_def example_context_def vec_contents_def pod_vec_new_empty
        binary_search_by_key_def binary_search_by_def)
  moreover from thunk_table_is_map [OF example_context_inv] obtain f
    where "thunk_map example_context = Some f"
      "get_thunk example_context 4096 = Some (Inr t) \<longleftrightarrow> f 4096 = Some t" for t by blast
  ultimately show ?thesis by (cases "f 4096") auto
qed

end
