(* ===== verification/Keyed_List.thy ===== *)
theory Keyed_List
  imports Prelude
begin

text \<open>
  The interface of the hook list: a collection in which every element has a key of its own,
  that can be walked from the newest element to the oldest, and from which any element can be
  removed through its key. The client (the temporary hooks) relies on these laws only;
  \<open>Linked_Slab\<close> provides them.
\<close>

text \<open>The element after the one with a given key.\<close>

fun next_of :: "('k \<times> 'a) list \<Rightarrow> 'k \<Rightarrow> 'a option" where
  "next_of [] k = None"
| "next_of ((j, x) # es) k = (if j = k then map_option snd (if es = [] then None else Some (hd es)) else next_of es k)"

text \<open>What is left when the element with a given key is taken out.\<close>

definition without_key :: "'k \<Rightarrow> ('k \<times> 'a) list \<Rightarrow> ('k \<times> 'a) list" where
  "without_key k es = filter (\<lambda>e. fst e \<noteq> k) es"

lemma without_key_split:
  "distinct (map fst (xs @ (k, x) # ys)) \<Longrightarrow> without_key k (xs @ (k, x) # ys) = xs @ ys"
proof -
  assume "distinct (map fst (xs @ (k, x) # ys))"
  then have "\<forall>e \<in> set xs. fst e \<noteq> k" "\<forall>e \<in> set ys. fst e \<noteq> k" by (auto simp: rev_image_eqI)
  then show ?thesis by (simp add: without_key_def)
qed

lemma without_key_missing: "k \<notin> fst ` set es \<Longrightarrow> without_key k es = es"
  unfolding without_key_def by (rule filter_True) (auto simp: rev_image_eqI)

lemma map_of_without_key: "map_of (without_key k es) = (map_of es)(k := None)"
  by (induction es) (auto simp: without_key_def)

lemma distinct_without_key: "distinct (map fst es) \<Longrightarrow> distinct (map fst (without_key k es))"
  by (simp add: without_key_def distinct_map_filter)

lemma fst_without_key: "fst ` set (without_key k es) = fst ` set es - {k}"
  by (auto simp: without_key_def)

text \<open>The element with a given key, changed in place.\<close>

definition change_at :: "'k \<Rightarrow> ('a \<Rightarrow> 'a) \<Rightarrow> ('k \<times> 'a) list \<Rightarrow> ('k \<times> 'a) list" where
  "change_at k f es = map (\<lambda>e. (fst e, if fst e = k then f (snd e) else snd e)) es"

lemma change_at_simps [simp]:
  "change_at k f [] = []"
  "change_at k f ((j, x) # es) = (j, if j = k then f x else x) # change_at k f es"
  by (simp_all add: change_at_def)

lemma change_at_keys [simp]: "map fst (change_at k f es) = map fst es"
  by (simp add: change_at_def)

lemma change_at_fst [simp]: "fst ` set (change_at k f es) = fst ` set es"
  by (metis change_at_keys list.set_map)

lemma next_of_split:
  "k \<notin> fst ` set xs \<Longrightarrow> next_of (xs @ (k, x) # ys) k = (if ys = [] then None else Some (snd (hd ys)))"
  by (induction xs) auto

lemma next_of_missing: "k \<notin> fst ` set es \<Longrightarrow> next_of es k = None"
  by (induction es) auto

lemma keyed_before: "distinct (map fst (xs @ (k, x) # ys)) \<Longrightarrow> k \<notin> fst ` set xs"
  by auto

lemma next_of_in: "next_of es k = Some x \<Longrightarrow> \<exists>j. (j, x) \<in> set es"
proof (induction es k rule: next_of.induct)
  case (2 j y es k)
  then show ?case by (cases es) (auto split: if_splits)
qed simp

lemma keyed_split:
  assumes "k \<in> fst ` set es" and "distinct (map fst es)"
  obtains xs x ys where "es = xs @ (k, x) # ys" "k \<notin> fst ` set xs" "k \<notin> fst ` set ys"
proof -
  from assms(1) obtain x where "(k, x) \<in> set es" by auto
  then obtain xs ys where "es = xs @ (k, x) # ys" by (auto dest: split_list)
  with assms(2) that show thesis by fastforce
qed

text \<open>A history of the collection: elements added and keys given back.\<close>

datatype ('k, 'a) list_op = Push 'a | Remove 'k

fun run_ops :: "('s \<Rightarrow> 'a \<Rightarrow> 'k \<times> 's) \<Rightarrow> ('s \<Rightarrow> 'k \<Rightarrow> 'a option \<times> 's) \<Rightarrow> 's \<Rightarrow> ('k, 'a) list_op list \<Rightarrow> 's" where
  "run_ops push rem s [] = s"
| "run_ops push rem s (Push x # ops) = run_ops push rem (snd (push s x)) ops"
| "run_ops push rem s (Remove k # ops) = run_ops push rem (snd (rem s k)) ops"

text \<open>
  A walk over the elements in which each element is found from the key of the one before it,
  as a hook finds the hook to call next.
\<close>

fun walk :: "('s \<Rightarrow> 'k \<Rightarrow> 'a option) \<Rightarrow> ('a \<Rightarrow> 'k) \<Rightarrow> 's \<Rightarrow> nat \<Rightarrow> 'a option \<Rightarrow> 'a list" where
  "walk nxt key s 0 c = []"
| "walk nxt key s (Suc n) c = (case c of None \<Rightarrow> [] | Some x \<Rightarrow> x # walk nxt key s n (nxt s (key x)))"

locale keyed_list =
  fixes holds :: "'s \<Rightarrow> ('k \<times> 'a) list \<Rightarrow> bool"
    and front :: "'s \<Rightarrow> 'a option"
    and lookup :: "'s \<Rightarrow> 'k \<Rightarrow> 'a option"
    and get_next :: "'s \<Rightarrow> 'k \<Rightarrow> 'a option"
    and push :: "'s \<Rightarrow> 'a \<Rightarrow> 'k \<times> 's"
    and rem :: "'s \<Rightarrow> 'k \<Rightarrow> 'a option \<times> 's"
  assumes keys_distinct: "holds s es \<Longrightarrow> distinct (map fst es)"
    and front_holds: "holds s es \<Longrightarrow> front s = (if es = [] then None else Some (snd (hd es)))"
    and lookup_holds: "holds s es \<Longrightarrow> lookup s k = map_of es k"
    and get_next_holds: "holds s es \<Longrightarrow> get_next s k = next_of es k"
    and push_holds: "holds s es \<Longrightarrow> fst (push s x) \<notin> fst ` set es \<and> holds (snd (push s x)) ((fst (push s x), x) # es)"
    and rem_holds: "holds s es \<Longrightarrow> fst (rem s k) = map_of es k \<and> holds (snd (rem s k)) (without_key k es)"
begin

lemma run_holds: "holds s es \<Longrightarrow> \<exists>es'. holds (run_ops push rem s ops) es'"
proof (induction ops arbitrary: s es)
  case (Cons op ops)
  then show ?case
  proof (cases op)
    case (Push x)
    with Cons.IH push_holds [OF Cons.prems] show ?thesis by auto
  next
    case (Remove k)
    with Cons.IH rem_holds [OF Cons.prems] show ?thesis by auto
  qed
qed auto

lemma push_remove:
  assumes "holds s es"
  shows "fst (rem (snd (push s x)) (fst (push s x))) = Some x"
    and "holds (snd (rem (snd (push s x)) (fst (push s x)))) es"
proof -
  let ?k = "fst (push s x)" and ?s = "snd (push s x)"
  have p: "?k \<notin> fst ` set es" "holds ?s ((?k, x) # es)" using push_holds [OF assms] by auto
  have "without_key ?k ((?k, x) # es) = es"
    using without_key_missing [OF p(1)] by (simp add: without_key_def)
  with rem_holds [OF p(2), of ?k] show "fst (rem ?s ?k) = Some x" and "holds (snd (rem ?s ?k)) es"
    by auto
qed

lemma lookup_after_push:
  assumes "holds s es"
  shows "lookup (snd (push s x)) (fst (push s x)) = Some x"
    and "k \<noteq> fst (push s x) \<Longrightarrow> lookup (snd (push s x)) k = lookup s k"
  using lookup_holds [OF push_holds [OF assms, THEN conjunct2]] lookup_holds [OF assms] by simp_all

lemma lookup_after_rem:
  assumes "holds s es"
  shows "lookup (snd (rem s k)) j = (if j = k then None else lookup s j)"
proof -
  show ?thesis
    using lookup_holds [OF rem_holds [OF assms, THEN conjunct2]] lookup_holds [OF assms]
    by (simp add: map_of_without_key)
qed

text \<open>A walk from the front meets every element once, the newest first.\<close>

lemma walk_suffix:
  "holds s (pre @ es) \<Longrightarrow> (\<forall>(k, x) \<in> set (pre @ es). key x = k) \<Longrightarrow> length es \<le> n \<Longrightarrow>
    walk get_next key s n (if es = [] then None else Some (snd (hd es))) = map snd es"
proof (induction es arbitrary: pre n)
  case Nil
  then show ?case by (cases n) auto
next
  case (Cons e es)
  obtain k x where e: "e = (k, x)" by (cases e)
  from Cons.prems(3) obtain m where n: "n = Suc m" "length es \<le> m" by (cases n) auto
  have "k \<notin> fst ` set pre" using keys_distinct [OF Cons.prems(1)] e by auto
  then have "get_next s k = (if es = [] then None else Some (snd (hd es)))"
    using get_next_holds [OF Cons.prems(1), of k] by (simp add: e next_of_split)
  moreover have "walk get_next key s m (if es = [] then None else Some (snd (hd es))) = map snd es"
    using Cons.IH [of "pre @ [e]" m] Cons.prems n by simp
  ultimately show ?case using Cons.prems(2) by (auto simp: e n)
qed

lemma walk_all:
  assumes "holds s es" and "\<forall>(k, x) \<in> set es. key x = k" and "length es \<le> n"
  shows "walk get_next key s n (front s) = map snd es"
  using walk_suffix [of s "[]" es key n] assms front_holds [OF assms(1)] by simp

end

end
