(* ===== verification/Linked_Slab.thy ===== *)
theory Linked_Slab
  imports Keyed_List
begin

text \<open>
  \<open>LinkedSlab<T>\<close> (\<open>abi/src/linked_slab.rs\<close>): a doubly linked list threaded through the
  entries of a \<open>slab::Slab\<close>. The \<open>slab\<close> crate is a parameter: a record of its operations,
  with the documented behaviour the code relies on as \<open>slab_laws\<close>. A reference returned by
  \<open>get_mut\<close> is modelled by what is written through it.
\<close>

section \<open>State\<close>

record 'a node =
  item :: 'a
  nxt :: nat
  prv :: nat

record ('s, 'n) slab_ops =
  slab_empty :: 's
  slab_len :: "'s \<Rightarrow> nat"
  slab_capacity :: "'s \<Rightarrow> nat"
  slab_get :: "'s \<Rightarrow> nat \<Rightarrow> 'n option"
  slab_put :: "'s \<Rightarrow> nat \<Rightarrow> 'n \<Rightarrow> 's"
  slab_insert :: "'s \<Rightarrow> 'n \<Rightarrow> nat \<times> 's"
  slab_try_remove :: "'s \<Rightarrow> nat \<Rightarrow> ('n \<times> 's) option"

record 's linked_slab =
  inner :: 's
  head :: nat

section \<open>Operations\<close>

definition ls_new :: "('s, 'a node) slab_ops \<Rightarrow> 's linked_slab" where
  "ls_new sl = \<lparr>inner = slab_empty sl, head = usize_max\<rparr>"

definition ls_len :: "('s, 'a node) slab_ops \<Rightarrow> 's linked_slab \<Rightarrow> nat" where
  "ls_len sl self = slab_len sl (inner self)"

definition ls_is_empty :: "('s, 'a node) slab_ops \<Rightarrow> 's linked_slab \<Rightarrow> bool" where
  "ls_is_empty sl self \<longleftrightarrow> slab_len sl (inner self) = 0"

definition ls_capacity :: "('s, 'a node) slab_ops \<Rightarrow> 's linked_slab \<Rightarrow> nat" where
  "ls_capacity sl self = slab_capacity sl (inner self)"

definition ls_get :: "('s, 'a node) slab_ops \<Rightarrow> 's linked_slab \<Rightarrow> nat \<Rightarrow> 'a option" where
  "ls_get sl self key = do { node \<leftarrow> slab_get sl (inner self) key; Some (item node) }"

definition ls_first :: "('s, 'a node) slab_ops \<Rightarrow> 's linked_slab \<Rightarrow> 'a option" where
  "ls_first sl self = ls_get sl self (head self)"

definition ls_get_next :: "('s, 'a node) slab_ops \<Rightarrow> 's linked_slab \<Rightarrow> nat \<Rightarrow> 'a option" where
  "ls_get_next sl self key = do { node \<leftarrow> slab_get sl (inner self) key; ls_get sl self (nxt node) }"

text \<open>\<open>if let Some(node) = self.inner.get_mut(key)\<close> with a body that updates the node.\<close>

definition update_node :: "('s, 'a node) slab_ops \<Rightarrow> nat \<Rightarrow> ('a node \<Rightarrow> 'a node) \<Rightarrow> 's \<Rightarrow> 's" where
  "update_node sl key f s = (case slab_get sl s key of Some n \<Rightarrow> slab_put sl s key (f n) | None \<Rightarrow> s)"

definition ls_get_mut :: "('s, 'a node) slab_ops \<Rightarrow> 's linked_slab \<Rightarrow> nat \<Rightarrow> ('a \<Rightarrow> 'a) \<Rightarrow> 's linked_slab" where
  "ls_get_mut sl self key f = self\<lparr>inner := update_node sl key (\<lambda>n. n\<lparr>item := f (item n)\<rparr>) (inner self)\<rparr>"

definition ls_push_front :: "('s, 'a node) slab_ops \<Rightarrow> 's linked_slab \<Rightarrow> 'a \<Rightarrow> nat \<times> 's linked_slab" where
  "ls_push_front sl self x =
     (let old_first = head self;
          (key, s1) = slab_insert sl (inner self) \<lparr>item = x, nxt = old_first, prv = usize_max\<rparr>;
          s2 = update_node sl old_first (\<lambda>n. n\<lparr>prv := key\<rparr>) s1
      in (key, self\<lparr>inner := s2, head := key\<rparr>))"

definition ls_remove :: "('s, 'a node) slab_ops \<Rightarrow> 's linked_slab \<Rightarrow> nat \<Rightarrow> 'a option \<times> 's linked_slab" where
  "ls_remove sl self key =
     (case slab_try_remove sl (inner self) key of
        None \<Rightarrow> (None, self)
      | Some (node, s1) \<Rightarrow>
          (let (prev, self2) =
             (case slab_get sl s1 (prv node) of
                Some p \<Rightarrow> (prv node, self\<lparr>inner := slab_put sl s1 (prv node) (p\<lparr>nxt := nxt node\<rparr>)\<rparr>)
              | None \<Rightarrow> (usize_max, self\<lparr>inner := s1, head := nxt node\<rparr>))
           in (Some (item node),
               self2\<lparr>inner := update_node sl (nxt node) (\<lambda>n. n\<lparr>prv := prev\<rparr>) (inner self2)\<rparr>)))"

text \<open>The iterator; nothing in its code bounds it, so a cyclic list would be walked forever.\<close>

partial_function (option) ls_iter_from :: "('s, 'a node) slab_ops \<Rightarrow> 's \<Rightarrow> nat \<Rightarrow> 'a list option" where
  "ls_iter_from sl s next =
     (case slab_get sl s next of
        None \<Rightarrow> Some []
      | Some node \<Rightarrow> do { rest \<leftarrow> ls_iter_from sl s (nxt node); Some (item node # rest) })"

definition ls_iter :: "('s, 'a node) slab_ops \<Rightarrow> 's linked_slab \<Rightarrow> 'a list option" where
  "ls_iter sl self = ls_iter_from sl (inner self) (head self)"

section \<open>What the code relies on\<close>

text \<open>
  The documented behaviour of \<open>slab::Slab\<close>: a finite map from keys, in which \<open>insert\<close> picks a
  vacant key; a key is an index into a vector, so it is never \<open>usize::MAX\<close>.
\<close>

definition slab_laws :: "('s, 'n) slab_ops \<Rightarrow> ('s \<Rightarrow> bool) \<Rightarrow> bool" where
  "slab_laws sl valid \<longleftrightarrow>
     valid (slab_empty sl) \<and> slab_get sl (slab_empty sl) = Map.empty
     \<and> (\<forall>s. valid s \<longrightarrow> finite (dom (slab_get sl s)))
     \<and> (\<forall>s. valid s \<longrightarrow> slab_len sl s = card (dom (slab_get sl s)))
     \<and> (\<forall>s. valid s \<longrightarrow> slab_get sl s usize_max = None)
     \<and> (\<forall>s n k s'. valid s \<longrightarrow> slab_insert sl s n = (k, s') \<longrightarrow>
          valid s' \<and> slab_get sl s k = None \<and> slab_get sl s' = (slab_get sl s)(k \<mapsto> n))
     \<and> (\<forall>s k n m. valid s \<longrightarrow> slab_get sl s k = Some m \<longrightarrow>
          valid (slab_put sl s k n) \<and> slab_get sl (slab_put sl s k n) = (slab_get sl s)(k \<mapsto> n))
     \<and> (\<forall>s k. valid s \<longrightarrow> slab_get sl s k = None \<longrightarrow> slab_try_remove sl s k = None)
     \<and> (\<forall>s k n. valid s \<longrightarrow> slab_get sl s k = Some n \<longrightarrow>
          (\<exists>s'. slab_try_remove sl s k = Some (n, s') \<and> valid s' \<and> slab_get sl s' = (slab_get sl s)(k := None)))"

lemma slab_lawsD:
  assumes "slab_laws sl valid"
  shows slab_empty_law: "valid (slab_empty sl)" "slab_get sl (slab_empty sl) = Map.empty"
    and slab_finite_law: "valid s \<Longrightarrow> finite (dom (slab_get sl s))"
    and slab_len_law: "valid s \<Longrightarrow> slab_len sl s = card (dom (slab_get sl s))"
    and slab_max_law: "valid s \<Longrightarrow> slab_get sl s usize_max = None"
    and slab_insert_law: "valid s \<Longrightarrow> slab_insert sl s n = (k, s') \<Longrightarrow>
          valid s' \<and> slab_get sl s k = None \<and> slab_get sl s' = (slab_get sl s)(k \<mapsto> n)"
    and slab_put_law: "valid s \<Longrightarrow> slab_get sl s k = Some m \<Longrightarrow>
          valid (slab_put sl s k n) \<and> slab_get sl (slab_put sl s k n) = (slab_get sl s)(k \<mapsto> n)"
    and slab_remove_None_law: "valid s \<Longrightarrow> slab_get sl s k = None \<Longrightarrow> slab_try_remove sl s k = None"
    and slab_remove_Some_law: "valid s \<Longrightarrow> slab_get sl s k = Some m \<Longrightarrow>
          \<exists>s'. slab_try_remove sl s k = Some (m, s') \<and> valid s' \<and> slab_get sl s' = (slab_get sl s)(k := None)"
  using assms unfolding slab_laws_def by simp_all

lemma update_node_law:
  assumes "slab_laws sl valid" and "valid s"
  shows "valid (update_node sl k f s)"
    and "slab_get sl (update_node sl k f s) = (slab_get sl s)(k := map_option f (slab_get sl s k))"
  using slab_put_law [OF assms, of k] assms(2)
  by (auto simp: update_node_def fun_upd_idem split: option.split)


section \<open>The list in the slab\<close>

text \<open>
  \<open>chain g p es e\<close>: the nodes \<open>g\<close> of the slab link the entries \<open>es\<close> in order, from a first
  node whose \<open>prev\<close> is \<open>p\<close> to a last node whose \<open>next\<close> is \<open>e\<close>.
\<close>

fun head_or :: "(nat \<times> 'a) list \<Rightarrow> nat \<Rightarrow> nat" where
  "head_or [] e = e"
| "head_or ((k, x) # es) e = k"

fun chain :: "(nat \<Rightarrow> 'a node option) \<Rightarrow> nat \<Rightarrow> (nat \<times> 'a) list \<Rightarrow> nat \<Rightarrow> bool" where
  "chain g p [] e \<longleftrightarrow> True"
| "chain g p ((k, x) # es) e \<longleftrightarrow> g k = Some \<lparr>item = x, nxt = head_or es e, prv = p\<rparr> \<and> chain g k es e"

definition last_or :: "(nat \<times> 'a) list \<Rightarrow> nat \<Rightarrow> nat" where
  "last_or es p = (if es = [] then p else fst (last es))"

definition ls_holds ::
    "('s, 'a node) slab_ops \<Rightarrow> ('s \<Rightarrow> bool) \<Rightarrow> 's linked_slab \<Rightarrow> (nat \<times> 'a) list \<Rightarrow> bool" where
  "ls_holds sl valid self es \<longleftrightarrow> slab_laws sl valid \<and> valid (inner self)
     \<and> head self = head_or es usize_max
     \<and> chain (slab_get sl (inner self)) usize_max es usize_max
     \<and> distinct (map fst es) \<and> dom (slab_get sl (inner self)) = fst ` set es"

lemma head_or_append: "head_or (xs @ ys) e = head_or xs (head_or ys e)"
  by (cases "(xs, e)" rule: head_or.cases) auto

lemma last_or_simps [simp]:
  "last_or [] p = p" "last_or (xs @ [e]) p = fst e" "last_or (e # es) p = last_or es (fst e)"
  by (auto simp: last_or_def)

lemma chain_append: "chain g p (xs @ ys) e \<longleftrightarrow> chain g p xs (head_or ys e) \<and> chain g (last_or xs p) ys e"
  by (induction g p xs e rule: chain.induct) (auto simp: head_or_append)

lemma chain_frame: "chain g p es e \<Longrightarrow> (\<And>k. k \<in> fst ` set es \<Longrightarrow> g' k = g k) \<Longrightarrow> chain g' p es e"
  by (induction g p es e rule: chain.induct) auto

lemma chain_upd [simp]: "k \<notin> fst ` set es \<Longrightarrow> chain (g(k := v)) p es e = chain g p es e"
  by (induction g p es e rule: chain.induct) auto

lemma dom_upd_option: "dom (g(k := map_option f (g k))) = dom g"
  by (auto simp: dom_def)

text \<open>Changing one node changes the links at the seams only.\<close>

lemma chain_set_prev:
  "chain g p es e \<Longrightarrow> distinct (map fst es) \<Longrightarrow>
    chain (g(head_or es d := map_option (\<lambda>n. n\<lparr>prv := q\<rparr>) (g (head_or es d)))) q es e"
  by (cases "(es, d)" rule: head_or.cases) simp_all

lemma chain_set_next:
  assumes "chain g p (xs @ [(j, y)]) e" and "j \<notin> fst ` set xs"
  shows "chain (g(j := map_option (\<lambda>n. n\<lparr>nxt := e'\<rparr>) (g j))) p (xs @ [(j, y)]) e'"
  using assms by (simp add: chain_append)

lemma ls_holds_head_max: "ls_holds sl valid self es \<Longrightarrow> usize_max \<notin> fst ` set es"
  unfolding ls_holds_def by (metis domIff slab_max_law)

lemma ls_new_holds: "slab_laws sl valid \<Longrightarrow> ls_holds sl valid (ls_new sl) []"
  by (simp add: ls_holds_def ls_new_def slab_empty_law)

lemma chain_nth:
  "chain g p (xs @ (k, x) # ys) e \<Longrightarrow> g k = Some \<lparr>item = x, nxt = head_or ys e, prv = last_or xs p\<rparr>"
  by (simp add: chain_append)

lemma ls_get_holds:
  assumes h: "ls_holds sl valid self es"
  shows "ls_get sl self k = map_of es k"
proof (cases "k \<in> fst ` set es")
  case True
  with h obtain xs x ys where es: "es = xs @ (k, x) # ys" "k \<notin> fst ` set xs"
    unfolding ls_holds_def by (metis keyed_split)
  with h have "slab_get sl (inner self) k = Some \<lparr>item = x, nxt = head_or ys usize_max, prv = last_or xs usize_max\<rparr>"
    by (metis chain_nth ls_holds_def)
  moreover have "map_of es k = Some x" using es by (simp add: map_add_Some_iff map_of_eq_None_iff)
  ultimately show ?thesis by (simp add: ls_get_def)
next
  case False
  with h have "slab_get sl (inner self) k = None" by (metis domIff ls_holds_def)
  with False show ?thesis by (simp add: ls_get_def map_of_eq_None_iff [THEN iffD2])
qed

lemma ls_first_holds:
  assumes h: "ls_holds sl valid self es"
  shows "ls_first sl self = (if es = [] then None else Some (snd (hd es)))"
proof (cases es)
  case Nil
  with h have "head self = usize_max" "map_of es usize_max = None" by (simp_all add: ls_holds_def)
  with Nil show ?thesis by (simp add: ls_first_def ls_get_holds [OF h])
next
  case (Cons e es')
  then show ?thesis
    using h by (cases e) (simp add: ls_first_def ls_get_holds [OF h] ls_holds_def)
qed

lemma ls_get_next_holds:
  assumes h: "ls_holds sl valid self es"
  shows "ls_get_next sl self k = next_of es k"
proof (cases "k \<in> fst ` set es")
  case True
  with h obtain xs x ys where es: "es = xs @ (k, x) # ys" "k \<notin> fst ` set xs" "k \<notin> fst ` set ys"
    unfolding ls_holds_def by (metis keyed_split)
  have dist: "distinct (map fst (xs @ (k, x) # ys))" using h es(1) by (simp add: ls_holds_def)
  have "slab_get sl (inner self) k = Some \<lparr>item = x, nxt = head_or ys usize_max, prv = last_or xs usize_max\<rparr>"
    using h es by (metis chain_nth ls_holds_def)
  then have "ls_get_next sl self k = map_of es (head_or ys usize_max)"
    by (simp add: ls_get_next_def ls_get_holds [OF h])
  also have "\<dots> = (if ys = [] then None else Some (snd (hd ys)))"
  proof (cases ys)
    case Nil
    then show ?thesis using ls_holds_head_max [OF h] by (simp add: map_of_eq_None_iff)
  next
    case (Cons e ys')
    then obtain j y where "ys = (j, y) # ys'" by (cases e) simp
    with dist es(1) show ?thesis by (auto simp: map_add_Some_iff map_of_eq_None_iff)
  qed
  finally show ?thesis by (simp add: es(1) next_of_split [OF es(2)])
next
  case False
  with h have "slab_get sl (inner self) k = None" by (metis domIff ls_holds_def)
  with False show ?thesis by (simp add: ls_get_next_def next_of_missing)
qed

lemma ls_push_front_holds:
  assumes h: "ls_holds sl valid self es" and push: "ls_push_front sl self x = (k, self')"
  shows "k \<notin> fst ` set es" and "ls_holds sl valid self' ((k, x) # es)"
proof -
  have laws: "slab_laws sl valid" and valid: "valid (inner self)"
    and ch: "chain (slab_get sl (inner self)) usize_max es usize_max"
    and dist: "distinct (map fst es)" and keys: "dom (slab_get sl (inner self)) = fst ` set es"
    and first: "head self = head_or es usize_max"
    using h by (simp_all add: ls_holds_def)
  obtain s1 where ins: "slab_insert sl (inner self) \<lparr>item = x, nxt = head self, prv = usize_max\<rparr> = (k, s1)"
    and self': "self' = self\<lparr>inner := update_node sl (head self) (\<lambda>n. n\<lparr>prv := k\<rparr>) s1, head := k\<rparr>"
    using push by (auto simp: ls_push_front_def Let_def split: prod.splits)
  note i = slab_insert_law [OF laws valid ins]
  let ?g = "slab_get sl s1"
  let ?g' = "?g(head self := map_option (\<lambda>n. n\<lparr>prv := k\<rparr>) (?g (head self)))"
  have get: "slab_get sl (inner self') = ?g'" and valid': "valid (inner self')"
    using update_node_law [OF laws, of s1] i by (simp_all add: self')
  show fresh: "k \<notin> fst ` set es" using i keys by (metis domIff)
  have "k \<noteq> usize_max" using slab_max_law [OF laws, of s1] i by auto
  with fresh have kf: "k \<noteq> head self" by (cases es) (auto simp: first)
  have "chain ?g usize_max es usize_max" by (rule chain_frame [OF ch]) (use i fresh in auto)
  from chain_set_prev [OF this dist, of usize_max k] have "chain ?g' k es usize_max" by (simp add: first)
  moreover have "?g' k = Some \<lparr>item = x, nxt = head_or es usize_max, prv = usize_max\<rparr>"
    using i kf by (simp add: first)
  moreover have "dom ?g' = insert k (fst ` set es)"
  proof -
    have "dom ?g' = dom ?g" by (rule dom_upd_option)
    also have "\<dots> = insert k (fst ` set es)" using i keys by simp
    finally show ?thesis .
  qed
  ultimately show "ls_holds sl valid self' ((k, x) # es)"
    using laws valid' dist fresh by (simp add: ls_holds_def get) (simp add: self')
qed

lemma ls_remove_missing:
  assumes h: "ls_holds sl valid self es" and "k \<notin> fst ` set es"
  shows "ls_remove sl self k = (None, self)"
proof -
  from h have "slab_laws sl valid" "valid (inner self)" and "slab_get sl (inner self) k = None"
    using assms(2) unfolding ls_holds_def by (auto simp: domIff)
  from slab_remove_None_law [OF this] show ?thesis by (simp add: ls_remove_def)
qed

text \<open>The two writes of a removal: the \<open>next\<close> of the node before and the \<open>prev\<close> of the node after.\<close>

lemma chain_relink:
  assumes ch: "chain g p (xs @ (k, x) # ys) e" and dist: "distinct (map fst (xs @ (k, x) # ys))"
    and e: "e \<notin> fst ` set xs"
    and g1: "g1 = (if xs = [] then g(k := None)
                  else (g(k := None))(last_or xs p := map_option (\<lambda>n. n\<lparr>nxt := head_or ys e\<rparr>) (g (last_or xs p))))"
  shows "chain (g1(head_or ys e := map_option (\<lambda>n. n\<lparr>prv := last_or xs p\<rparr>) (g1 (head_or ys e)))) p (xs @ ys) e"
proof -
  have a: "chain g p xs k" and b: "chain g k ys e" using ch by (simp_all add: chain_append)
  have d: "distinct (map fst ys)" "k \<notin> fst ` set ys" "k \<notin> fst ` set xs" using dist by auto
  have hd: "head_or ys e \<notin> fst ` set xs"
    using dist e by (cases "(ys, e)" rule: head_or.cases) auto
  show ?thesis
  proof (cases xs rule: rev_cases)
    case Nil
    have "chain g1 k ys e" using b d Nil by (simp add: g1)
    from chain_set_prev [OF this d(1), of e p] Nil show ?thesis by simp
  next
    case (snoc xs' jy)
    obtain j y where xs: "xs = xs' @ [(j, y)]" using snoc by (cases jy) simp
    have j: "j \<notin> fst ` set ys" "j \<notin> fst ` set xs'" "k \<noteq> j" using dist xs by auto
    have g1': "g1 = (g(k := None))(j := map_option (\<lambda>n. n\<lparr>nxt := head_or ys e\<rparr>) ((g(k := None)) j))"
      using j by (simp add: g1 xs)
    have "chain (g(k := None)) p (xs' @ [(j, y)]) k" using a d xs by simp
    from chain_set_next [OF this j(2), of "head_or ys e"] have "chain g1 p xs (head_or ys e)"
      unfolding g1' xs .
    moreover have "chain g1 k ys e" using b d j by (simp add: g1')
    from chain_set_prev [OF this d(1), of e j]
    have "chain (g1(head_or ys e := map_option (\<lambda>n. n\<lparr>prv := j\<rparr>) (g1 (head_or ys e)))) j ys e" .
    ultimately show ?thesis using xs hd by (simp add: chain_append)
  qed
qed

lemma ls_remove_present:
  assumes h: "ls_holds sl valid self es" and es: "es = xs @ (k, x) # ys"
  shows "fst (ls_remove sl self k) = Some x" and "ls_holds sl valid (snd (ls_remove sl self k)) (xs @ ys)"
proof -
  let ?g = "slab_get sl (inner self)"
  have laws: "slab_laws sl valid" and valid: "valid (inner self)" and first: "head self = head_or es usize_max"
    and ch: "chain ?g usize_max es usize_max" and dist: "distinct (map fst es)" and keys: "dom ?g = fst ` set es"
    using h by (simp_all add: ls_holds_def)
  note node = chain_nth [OF ch [unfolded es]]
  obtain s1 where s1: "slab_try_remove sl (inner self) k
        = Some (\<lparr>item = x, nxt = head_or ys usize_max, prv = last_or xs usize_max\<rparr>, s1)"
      "valid s1" "slab_get sl s1 = ?g(k := None)"
    using slab_remove_Some_law [OF laws valid node] by blast
  have max: "usize_max \<notin> fst ` set xs" using ls_holds_head_max [OF h] es by auto
  define s2 g1 where
    "s2 = (if xs = [] then s1 else update_node sl (last_or xs usize_max) (\<lambda>n. n\<lparr>nxt := head_or ys usize_max\<rparr>) s1)"
    and "g1 = (if xs = [] then ?g(k := None)
        else (?g(k := None))(last_or xs usize_max := map_option (\<lambda>n. n\<lparr>nxt := head_or ys usize_max\<rparr>) (?g (last_or xs usize_max))))"
  have lk: "xs \<noteq> [] \<Longrightarrow> last_or xs usize_max \<noteq> k" "xs \<noteq> [] \<Longrightarrow> last_or xs usize_max \<in> fst ` set xs"
    using dist es by (auto simp: last_or_def)
  have v2: "valid s2" and g2: "slab_get sl s2 = g1"
    using update_node_law [OF laws s1(2)] s1 lk by (auto simp: s2_def g1_def)
  have none: "slab_get sl s1 usize_max = None" using slab_max_law [OF laws s1(2)] .
  have prev_in: "\<exists>p. slab_get sl s1 (last_or xs usize_max) = Some p" if "xs \<noteq> []"
  proof -
    have "last_or xs usize_max \<in> dom ?g" using lk(2) [OF that] keys es by auto
    with lk(1) [OF that] s1(3) show ?thesis by auto
  qed
  have res: "ls_remove sl self k = (Some x,
      (if xs = [] then self\<lparr>head := head_or ys usize_max\<rparr> else self)\<lparr>inner :=
         update_node sl (head_or ys usize_max) (\<lambda>n. n\<lparr>prv := last_or xs usize_max\<rparr>) s2\<rparr>)"
  proof (cases "xs = []")
    case True
    with s1(1) none show ?thesis by (simp add: ls_remove_def s2_def)
  next
    case False
    with prev_in obtain p where "slab_get sl s1 (last_or xs usize_max) = Some p" by blast
    with s1(1) False show ?thesis by (simp add: ls_remove_def s2_def update_node_def [of sl "last_or xs usize_max"])
  qed
  then show "fst (ls_remove sl self k) = Some x" by simp
  let ?n = "head_or ys usize_max"
  let ?g2 = "g1(?n := map_option (\<lambda>n. n\<lparr>prv := last_or xs usize_max\<rparr>) (g1 ?n))"
  have "chain ?g2 usize_max (xs @ ys) usize_max"
    by (rule chain_relink [OF ch [unfolded es] dist [unfolded es] max g1_def])
  moreover have "dom ?g2 = fst ` set (xs @ ys)"
  proof -
    have "dom ?g2 = dom g1" by (rule dom_upd_option)
    also have "\<dots> = dom (?g(k := None))"
      using lk(1) dom_upd_option [of "?g(k := None)" "last_or xs usize_max"] by (auto simp: g1_def)
    also have "\<dots> = dom ?g - {k}" by simp
    also have "\<dots> = fst ` set (xs @ ys)" using dist by (auto simp: keys es)
    finally show ?thesis .
  qed
  moreover have "(if xs = [] then head_or ys usize_max else head self) = head_or (xs @ ys) usize_max"
    by (cases "(xs, k)" rule: head_or.cases) (simp_all add: first es)
  ultimately show "ls_holds sl valid (snd (ls_remove sl self k)) (xs @ ys)"
    using update_node_law [OF laws v2] laws dist es by (auto simp: ls_holds_def res g2)
qed


lemma ls_remove_holds:
  assumes h: "ls_holds sl valid self es"
  shows "fst (ls_remove sl self k) = map_of es k \<and> ls_holds sl valid (snd (ls_remove sl self k)) (without_key k es)"
proof (cases "k \<in> fst ` set es")
  case True
  have dist: "distinct (map fst es)" using h by (simp add: ls_holds_def)
  with True obtain xs x ys where es: "es = xs @ (k, x) # ys" "k \<notin> fst ` set xs" by (rule keyed_split)
  have "map_of es k = Some x" using es by (simp add: map_add_Some_iff map_of_eq_None_iff)
  with ls_remove_present [OF h es(1)] without_key_split dist show ?thesis
    by (metis es(1))
next
  case False
  then have "map_of es k = None" by (simp add: map_of_eq_None_iff)
  with ls_remove_missing [OF h False] h show ?thesis by (simp add: without_key_missing [OF False])
qed

interpretation ls: keyed_list "ls_holds sl valid" "ls_first sl" "ls_get sl" "ls_get_next sl"
    "ls_push_front sl" "ls_remove sl"
proof unfold_locales
  fix s es k x
  assume h: "ls_holds sl valid s es"
  show "distinct (map fst es)" using h by (simp add: ls_holds_def)
  show "ls_first sl s = (if es = [] then None else Some (snd (hd es)))" by (rule ls_first_holds [OF h])
  show "ls_get sl s k = map_of es k" by (rule ls_get_holds [OF h])
  show "ls_get_next sl s k = next_of es k" by (rule ls_get_next_holds [OF h])
  show "fst (ls_push_front sl s x) \<notin> fst ` set es
      \<and> ls_holds sl valid (snd (ls_push_front sl s x)) ((fst (ls_push_front sl s x), x) # es)"
    using ls_push_front_holds [OF h] by (metis prod.collapse)
  show "fst (ls_remove sl s k) = map_of es k \<and> ls_holds sl valid (snd (ls_remove sl s k)) (without_key k es)"
    by (rule ls_remove_holds [OF h])
qed

text \<open>The iterator ends and yields the items from the newest to the oldest.\<close>

lemma ls_iter_from_chain:
  "chain (slab_get sl s) p es e \<Longrightarrow> slab_get sl s e = None \<Longrightarrow>
    ls_iter_from sl s (head_or es e) = Some (map snd es)"
proof (induction "slab_get sl s" p es e rule: chain.induct)
  case (1 p e)
  then show ?case by (simp add: ls_iter_from.simps)
next
  case (2 p k x es e)
  then have "ls_iter_from sl s (head_or es e) = Some (map snd es)" by simp
  with 2 show ?case by (subst ls_iter_from.simps) simp
qed

lemma ls_iter_holds: "ls_holds sl valid self es \<Longrightarrow> ls_iter sl self = Some (map snd es)"
  unfolding ls_iter_def ls_holds_def using ls_iter_from_chain slab_max_law by metis

lemma ls_len_holds: "ls_holds sl valid self es \<Longrightarrow> ls_len sl self = length es"
  unfolding ls_holds_def ls_len_def
  by (metis slab_len_law distinct_card length_map list.set_map)

lemma ls_is_empty_holds: "ls_holds sl valid self es \<Longrightarrow> ls_is_empty sl self \<longleftrightarrow> es = []"
  using ls_len_holds [of sl valid self es] by (simp add: ls_is_empty_def ls_len_def)

lemma head_or_change_at [simp]: "head_or (change_at k f es) e = head_or es e"
  by (cases "(es, e)" rule: head_or.cases) auto

lemma chain_change_at:
  "chain g p es e \<Longrightarrow> distinct (map fst es) \<Longrightarrow>
    chain (g(k := map_option (\<lambda>n. n\<lparr>item := f (item n)\<rparr>) (g k))) p (change_at k f es) e"
proof (induction g p es e rule: chain.induct)
  case (2 g p j x es e)
  show ?case
  proof (cases "j = k")
    case True
    with 2 have "k \<notin> fst ` set es" by auto
    then have same: "change_at k f es = es" by (induction es) auto
    let ?v = "map_option (\<lambda>n. n\<lparr>item := f (item n)\<rparr>) (g k)"
    have "?v = Some \<lparr>item = f x, nxt = head_or es e, prv = p\<rparr>" using 2 True by simp
    moreover have "chain (g(k := ?v)) k es e"
      unfolding chain_upd [OF \<open>k \<notin> fst ` set es\<close>] using 2 True by simp
    ultimately show ?thesis using True same by (simp only: change_at_simps chain.simps) simp
  qed (use 2 in auto)
qed simp

lemma ls_get_mut_holds:
  assumes h: "ls_holds sl valid self es"
  shows "ls_holds sl valid (ls_get_mut sl self k f) (change_at k f es)"
proof -
  let ?u = "\<lambda>n. n\<lparr>item := f (item n)\<rparr>" and ?g = "slab_get sl (inner self)"
  have laws: "slab_laws sl valid" "valid (inner self)" using h by (simp_all add: ls_holds_def)
  note u = update_node_law [OF laws, of k ?u]
  have "chain (?g(k := map_option ?u (?g k))) usize_max (change_at k f es) usize_max"
    using h by (intro chain_change_at) (simp_all add: ls_holds_def)
  moreover have "dom (?g(k := map_option ?u (?g k))) = fst ` set es"
    using h dom_upd_option [of ?g k ?u] by (simp add: ls_holds_def)
  ultimately show ?thesis
    using h u by (simp add: ls_holds_def ls_get_mut_def)
qed

section \<open>A slab\<close>

text \<open>
  A slab that satisfies the laws, on an association list: an inserted entry gets the key after
  the greatest one.
\<close>

definition fresh_key :: "(nat \<times> 'n) list \<Rightarrow> nat" where
  "fresh_key s = (let k = Suc (fold (\<lambda>e m. max (fst e) m) s 0) in if k = usize_max then Suc k else k)"

definition list_slab :: "((nat \<times> 'n) list, 'n) slab_ops" where
  "list_slab = \<lparr>slab_empty = [], slab_len = length, slab_capacity = length, slab_get = map_of,
     slab_put = (\<lambda>s k n. (k, n) # without_key k s),
     slab_insert = (\<lambda>s n. (fresh_key s, (fresh_key s, n) # s)),
     slab_try_remove = (\<lambda>s k. map_option (\<lambda>n. (n, without_key k s)) (map_of s k))\<rparr>"

definition list_slab_valid :: "(nat \<times> 'n) list \<Rightarrow> bool" where
  "list_slab_valid s \<longleftrightarrow> distinct (map fst s) \<and> usize_max \<notin> fst ` set s"

lemma fold_max_ge: "m \<le> fold (\<lambda>e m. max (fst e) m) s (m::nat)"
  by (induction s arbitrary: m) (auto intro: le_trans [OF max.cobounded2])

lemma fold_max_key: "k \<in> fst ` set s \<Longrightarrow> k \<le> fold (\<lambda>e m. max (fst e) m) s (m::nat)"
  by (induction s arbitrary: m) (auto intro: le_trans [OF max.cobounded1 fold_max_ge])

lemma fresh_key_new: "fresh_key s \<notin> fst ` set s"
proof
  assume "fresh_key s \<in> fst ` set s"
  then have "fresh_key s \<le> fold (\<lambda>e m. max (fst e) m) s 0" by (rule fold_max_key)
  then show False by (simp add: fresh_key_def Let_def split: if_splits)
qed

lemma fresh_key_max: "fresh_key s \<noteq> usize_max"
  by (simp add: fresh_key_def Let_def)

lemma list_slab_sel [simp]:
  "slab_empty list_slab = []" "slab_len list_slab = length" "slab_get list_slab = map_of"
  "slab_put list_slab s k n = (k, n) # without_key k s"
  "slab_insert list_slab s n = (fresh_key s, (fresh_key s, n) # s)"
  "slab_try_remove list_slab s k = map_option (\<lambda>n. (n, without_key k s)) (map_of s k)"
  by (simp_all add: list_slab_def)

lemma list_slab_laws: "slab_laws list_slab list_slab_valid"
  unfolding slab_laws_def list_slab_sel
proof (intro conjI allI impI)
  fix s :: "(nat \<times> 'n) list" and k n
  assume v: "list_slab_valid s"
  show "finite (dom (map_of s))" by (rule finite_dom_map_of)
  show "length s = card (dom (map_of s))"
    using v distinct_card [of "map fst s"] by (simp add: list_slab_valid_def dom_map_of_conv_image_fst)
  show "map_of s usize_max = None"
    using v by (simp add: list_slab_valid_def map_of_eq_None_iff)
  fix s' assume i: "(fresh_key s, (fresh_key s, n) # s) = (k, s')"
  then show "list_slab_valid s'"
    using v fresh_key_new [of s] fresh_key_max [of s] by (auto simp: list_slab_valid_def)
  show "map_of s k = None" using i fresh_key_new [of s] by (simp add: map_of_eq_None_iff)
  show "map_of s' = (map_of s)(k \<mapsto> n)" using i by auto
next
  fix s :: "(nat \<times> 'n) list" and k n m
  assume v: "list_slab_valid s" and k: "map_of s k = Some m"
  have "k \<in> fst ` set s" using map_of_SomeD [OF k] by (auto intro: rev_image_eqI)
  with v show "list_slab_valid ((k, n) # without_key k s)"
    by (auto simp: list_slab_valid_def distinct_without_key fst_without_key)
  show "map_of ((k, n) # without_key k s) = (map_of s)(k \<mapsto> n)"
    by (simp add: map_of_without_key)
next
  fix s :: "(nat \<times> 'n) list" and k n
  assume v: "list_slab_valid s" and k: "map_of s k = Some n"
  then show "\<exists>s'. map_option (\<lambda>n. (n, without_key k s)) (map_of s k) = Some (n, s') \<and> list_slab_valid s'
      \<and> map_of s' = (map_of s)(k := None)"
    by (simp add: list_slab_valid_def distinct_without_key fst_without_key map_of_without_key)
qed (simp_all add: list_slab_valid_def)

section \<open>Properties\<close>

text \<open>
  C34. The linked slab refines the list of its entries, the newest first: \<open>push_front\<close> answers a key no
  entry has and adds the entry at the front, \<open>remove\<close> answers and takes out exactly the entry with
  the key (both neighbours relinked), and writing through \<open>get_mut\<close> changes that entry alone.
\<close>

theorem linked_slab_refines:
  assumes "ls_holds sl valid self es"
  shows "(\<forall>x. fst (ls_push_front sl self x) \<notin> fst ` set es
      \<and> ls_holds sl valid (snd (ls_push_front sl self x)) ((fst (ls_push_front sl self x), x) # es))
    \<and> (\<forall>k. fst (ls_remove sl self k) = map_of es k
      \<and> ls_holds sl valid (snd (ls_remove sl self k)) (without_key k es))
    \<and> (\<forall>k f. ls_holds sl valid (ls_get_mut sl self k f) (change_at k f es))"
  using ls.push_holds [OF assms] ls_remove_holds [OF assms] ls_get_mut_holds [OF assms] by blast

lemma example_list: "ls_holds list_slab list_slab_valid (snd (ls_push_front list_slab (ls_new list_slab) True)) [(1, True)]"
proof -
  have "ls_push_front list_slab (ls_new list_slab) True = (1, snd (ls_push_front list_slab (ls_new list_slab) True))"
    by (simp add: ls_push_front_def ls_new_def fresh_key_def usize_max_def Let_def)
  from ls_push_front_holds(2) [OF ls_new_holds [OF list_slab_laws] this] show ?thesis .
qed

theorem linked_slab_refines_witness:
  "fst (ls_remove list_slab (snd (ls_push_front list_slab (ls_new list_slab) True)) 1) = Some True"
  using linked_slab_refines [OF example_list] by simp

text \<open>
  After any history of \<open>push_front\<close> and \<open>remove\<close> calls, the iterator ends, it yields each element
  once, and \<open>len\<close>, \<open>is_empty\<close>, \<open>first\<close>, \<open>get\<close> and \<open>get_next\<close> all describe that same list.
\<close>

theorem linked_slab_history:
  assumes "slab_laws sl valid"
  shows "\<exists>es. distinct (map fst es) \<and> (let self = run_ops (ls_push_front sl) (ls_remove sl) (ls_new sl) ops in
      ls_iter sl self = Some (map snd es) \<and> ls_len sl self = length es \<and> (ls_is_empty sl self \<longleftrightarrow> es = [])
      \<and> ls_first sl self = (if es = [] then None else Some (snd (hd es)))
      \<and> (\<forall>k. ls_get sl self k = map_of es k \<and> ls_get_next sl self k = next_of es k))"
proof -
  from ls.run_holds [OF ls_new_holds [OF assms], of ops] obtain es
    where "ls_holds sl valid (run_ops (ls_push_front sl) (ls_remove sl) (ls_new sl) ops) es" by blast
  note h = this
  show ?thesis
    unfolding Let_def
    using ls.keys_distinct [OF h] ls_iter_holds [OF h] ls_len_holds [OF h] ls_is_empty_holds [OF h]
      ls_first_holds [OF h] ls_get_holds [OF h] ls_get_next_holds [OF h] by blast
qed

theorem linked_slab_history_witness:
  "\<exists>es :: (nat \<times> bool) list. distinct (map fst es) \<and> ls_iter list_slab (run_ops (ls_push_front list_slab) (ls_remove list_slab)
      (ls_new list_slab) [Push False, Push True, Remove 1]) = Some (map snd es)"
  using linked_slab_history [OF list_slab_laws, of "[Push False, Push True, Remove 1]"] by (simp only: Let_def) blast

text \<open>
  Removing the entry just pushed gives back its element and leaves the list as it was.
\<close>

theorem push_front_then_remove:
  assumes "ls_holds sl valid self es" and "ls_push_front sl self x = (k, self')"
  shows "fst (ls_remove sl self' k) = Some x \<and> ls_holds sl valid (snd (ls_remove sl self' k)) es"
  using ls.push_remove [OF assms(1), of x] assms(2) by simp

theorem push_front_then_remove_witness:
  "fst (ls_remove list_slab (snd (ls_push_front list_slab (ls_new list_slab) True))
     (fst (ls_push_front list_slab (ls_new list_slab) True))) = Some True"
  by (rule push_front_then_remove [OF ls_new_holds [OF list_slab_laws] surjective_pairing, THEN conjunct1])

end
