(* ===== verification/Lock_Spec.thy ===== *)
theory Lock_Spec
  imports Prelude
begin

text \<open>
  The interface of a lock between threads: a lock has at most one owner, takes it when it has
  none, and gives it up when that owner drops its guard. The process context relies on this
  contract for its exclusive borrow; \<open>Pod_Sync\<close> shows that both mutexes provide it.
\<close>

inductive lock_spec :: "nat option \<Rightarrow> nat option \<Rightarrow> bool" where
  stutter: "lock_spec p p"
| acquire: "lock_spec None (Some t)"
| release: "lock_spec (Some t) None"

inductive_simps lock_spec_iff: "lock_spec p p'"

text \<open>A guard's data: what the threads do to the protected value, step by step.\<close>

locale lock_protocol =
  fixes step :: "'s \<Rightarrow> 's \<Rightarrow> bool"
    and sim :: "'s \<Rightarrow> nat option \<Rightarrow> bool"
    and holds_guard :: "'s \<Rightarrow> nat \<Rightarrow> bool"
  assumes sim_step: "sim s p \<Longrightarrow> step s s' \<Longrightarrow> \<exists>p'. lock_spec p p' \<and> sim s' p'"
    and sim_guard: "sim s p \<Longrightarrow> holds_guard s t \<longleftrightarrow> p = Some t"
begin

lemma sim_reach: "step\<^sup>*\<^sup>* s s' \<Longrightarrow> sim s p \<Longrightarrow> \<exists>p'. lock_spec\<^sup>*\<^sup>* p p' \<and> sim s' p'"
proof (induction rule: rtranclp_induct)
  case base
  then show ?case by blast
next
  case (step y z)
  then obtain q q' where "lock_spec\<^sup>*\<^sup>* p q" "lock_spec q q'" "sim z q'"
    using sim_step by blast
  then show ?case by (meson rtranclp.rtrancl_into_rtrancl)
qed

text \<open>Mutual exclusion.\<close>

lemma one_guard:
  assumes "sim s p" and "step\<^sup>*\<^sup>* s s'" and "holds_guard s' t" and "holds_guard s' u"
  shows "t = u"
  using sim_reach [OF assms(2,1)] sim_guard assms(3,4) by auto

text \<open>
  A guard passes from one thread to another only through a state in which nobody holds one.
\<close>

lemma handover:
  assumes "sim s p" and "step\<^sup>*\<^sup>* s s'" and "holds_guard s' t" and "step s' s''" and "holds_guard s'' u"
  shows "t = u"
proof -
  obtain q where q: "sim s' q" using sim_reach [OF assms(2,1)] by blast
  moreover obtain q' where "lock_spec q q'" "sim s'' q'" using sim_step [OF q assms(4)] by blast
  ultimately show ?thesis using sim_guard assms(3,5) by (auto simp: lock_spec_iff)
qed

end

end
