(* ===== verification/Pod_Sync.thy ===== *)
theory Pod_Sync
  imports Lock_Spec
begin

text \<open>
  \<open>PodMutex\<close> and \<open>PodSpinMutex\<close> (\<open>abi/src/sync/pod.rs\<close>): the mutexes in the memory shared by
  every copy of the library. A state is the value of the atomic and the point each thread has
  reached in \<open>lock\<close> or in the guard's \<open>drop\<close>; a step is one atomic access (or one return from
  the operating system). All accesses are to a single atomic, whose read-modify-writes are
  totally ordered, so a step relation over one value describes them.

  The waiting primitives of the \<open>atomic_wait\<close> crate are parameters: when \<open>wait\<close> blocks, and which of
  the sleeping threads \<open>wake_one\<close> wakes.
\<close>

type_synonym u32 = "32 word"

definition UNLOCKED :: u32 where "UNLOCKED = 0"
definition LOCKED :: u32 where "LOCKED = 1"
definition CONTENDED :: u32 where "CONTENDED = 2"

lemma lock_words [simp]:
  "UNLOCKED \<noteq> LOCKED" "UNLOCKED \<noteq> CONTENDED" "LOCKED \<noteq> CONTENDED"
  "LOCKED \<noteq> UNLOCKED" "CONTENDED \<noteq> UNLOCKED" "CONTENDED \<noteq> LOCKED"
  by (simp_all add: UNLOCKED_def LOCKED_def CONTENDED_def)

section \<open>The futex mutex\<close>

record futex =
  fx_blocks :: "u32 \<Rightarrow> u32 \<Rightarrow> bool"
  fx_wakes :: "nat set \<Rightarrow> nat set"

text \<open>
  The documentation of \<open>atomic_wait\<close>: \<open>wait\<close> blocks only if the atomic still has the expected
  value (and may return spuriously), \<open>wake_one\<close> wakes a waiting thread if there is one.
\<close>

definition futex_laws :: "futex \<Rightarrow> bool" where
  "futex_laws fx \<longleftrightarrow> (\<forall>v e. fx_blocks fx v e \<longleftrightarrow> v = e)
     \<and> (\<forall>W. fx_wakes fx W \<subseteq> W \<and> (W \<noteq> {} \<longrightarrow> fx_wakes fx W \<noteq> {}))"

text \<open>
  Where a thread is: \<open>Check v\<close> is the loop head with \<open>state = v\<close>, \<open>Wait\<close> the call of \<open>wait\<close>,
  \<open>Reload\<close> the load after it, and \<open>Wake\<close> the call of \<open>wake_one\<close> in the guard's \<open>drop\<close>.
\<close>

datatype mutex_pc = Outside | Check u32 | Wait | Asleep | Reload | Guard | Wake

record mutex_state =
  atom :: u32
  pc :: "nat \<Rightarrow> mutex_pc"

definition at_pc :: "mutex_state \<Rightarrow> nat \<Rightarrow> mutex_pc \<Rightarrow> mutex_state" where
  [simp]: "at_pc s t c = s\<lparr>pc := (pc s)(t := c)\<rparr>"

definition sleepers :: "mutex_state \<Rightarrow> nat set" where
  "sleepers s = {t. pc s t = Asleep}"

text \<open>\<open>compare_exchange\<close> and \<open>swap\<close> on the atomic: the old value, and the state after.\<close>

definition compare_exchange :: "mutex_state \<Rightarrow> u32 \<Rightarrow> u32 \<Rightarrow> (u32 + u32) \<times> mutex_state" where
  "compare_exchange s old new = (if atom s = old then (Inr old, s\<lparr>atom := new\<rparr>) else (Inl (atom s), s))"

definition atomic_swap :: "mutex_state \<Rightarrow> u32 \<Rightarrow> u32 \<times> mutex_state" where
  "atomic_swap s new = (atom s, s\<lparr>atom := new\<rparr>)"

definition lock_start :: "mutex_state \<Rightarrow> nat \<Rightarrow> mutex_state" where
  "lock_start s t = (case compare_exchange s UNLOCKED LOCKED of
      (Inl state, s') \<Rightarrow> at_pc s' t (Check state)
    | (Inr _, s') \<Rightarrow> at_pc s' t Guard)"

definition lock_check :: "mutex_state \<Rightarrow> nat \<Rightarrow> u32 \<Rightarrow> mutex_state" where
  "lock_check s t state =
     (if state \<noteq> CONTENDED
      then (case atomic_swap s CONTENDED of (old, s') \<Rightarrow>
              if old = UNLOCKED then at_pc s' t Guard else at_pc s' t Wait)
      else at_pc s t Wait)"

definition lock_wait :: "futex \<Rightarrow> mutex_state \<Rightarrow> nat \<Rightarrow> mutex_state" where
  "lock_wait fx s t = at_pc s t (if fx_blocks fx (atom s) CONTENDED then Asleep else Reload)"

definition lock_reload :: "mutex_state \<Rightarrow> nat \<Rightarrow> mutex_state" where
  "lock_reload s t = at_pc s t (Check (atom s))"

definition guard_drop :: "mutex_state \<Rightarrow> nat \<Rightarrow> mutex_state" where
  "guard_drop s t = (case atomic_swap s UNLOCKED of (old, s') \<Rightarrow>
      at_pc s' t (if old = CONTENDED then Wake else Outside))"

definition guard_wake :: "futex \<Rightarrow> mutex_state \<Rightarrow> nat \<Rightarrow> mutex_state" where
  "guard_wake fx s t = s\<lparr>pc := (\<lambda>u. if u = t then Outside
      else if u \<in> fx_wakes fx (sleepers s) then Reload else pc s u)\<rparr>"

inductive mutex_step :: "futex \<Rightarrow> mutex_state \<Rightarrow> mutex_state \<Rightarrow> bool" for fx where
  start: "pc s t = Outside \<Longrightarrow> mutex_step fx s (lock_start s t)"
| check: "pc s t = Check state \<Longrightarrow> mutex_step fx s (lock_check s t state)"
| wait: "pc s t = Wait \<Longrightarrow> mutex_step fx s (lock_wait fx s t)"
| spurious: "pc s t = Asleep \<Longrightarrow> mutex_step fx s (at_pc s t Reload)"
| reload: "pc s t = Reload \<Longrightarrow> mutex_step fx s (lock_reload s t)"
| unlock: "pc s t = Guard \<Longrightarrow> mutex_step fx s (guard_drop s t)"
| wake: "pc s t = Wake \<Longrightarrow> mutex_step fx s (guard_wake fx s t)"

inductive_cases mutex_stepE: "mutex_step fx s s'"

text \<open>A zeroed mutex, with no thread inside.\<close>

definition mutex_zeroed :: mutex_state where
  "mutex_zeroed = \<lparr>atom = 0, pc = (\<lambda>_. Outside)\<rparr>"

text \<open>The owner of the abstract lock is the thread that holds the guard.\<close>

definition mutex_owner :: "mutex_state \<Rightarrow> nat option \<Rightarrow> bool" where
  "mutex_owner s p \<longleftrightarrow> (\<forall>t. pc s t = Guard \<longleftrightarrow> p = Some t)
     \<and> (atom s = UNLOCKED \<longleftrightarrow> p = None) \<and> atom s \<in> {UNLOCKED, LOCKED, CONTENDED}"

definition mutex_guard :: "mutex_state \<Rightarrow> nat \<Rightarrow> bool" where
  "mutex_guard s t \<longleftrightarrow> pc s t = Guard"

lemmas mutex_step_defs = lock_start_def lock_check_def lock_wait_def lock_reload_def guard_drop_def
  guard_wake_def compare_exchange_def atomic_swap_def

lemma mutex_zeroed_owner: "mutex_owner mutex_zeroed None"
  by (simp add: mutex_owner_def mutex_zeroed_def UNLOCKED_def)

lemma wakes_asleep: "futex_laws fx \<Longrightarrow> u \<in> fx_wakes fx (sleepers s) \<Longrightarrow> pc s u = Asleep"
  unfolding futex_laws_def sleepers_def by blast

lemma owner_guard: "mutex_owner s p \<Longrightarrow> pc s t = Guard \<longleftrightarrow> p = Some t"
  by (simp add: mutex_owner_def)

lemma owner_move [intro]:
  "mutex_owner s p \<Longrightarrow> pc s t \<noteq> Guard \<Longrightarrow> c \<noteq> Guard \<Longrightarrow> mutex_owner (s\<lparr>pc := (pc s)(t := c)\<rparr>) p"
  by (auto simp: mutex_owner_def)

lemma owner_wake:
  assumes "futex_laws fx" and "mutex_owner s p" and "pc s t = Wake"
  shows "mutex_owner (guard_wake fx s t) p"
proof -
  have "pc (guard_wake fx s t) u = Guard \<longleftrightarrow> pc s u = Guard" for u
    using wakes_asleep [OF assms(1), of u s] assms(3) by (auto simp: guard_wake_def)
  moreover have "atom (guard_wake fx s t) = atom s" by (simp add: guard_wake_def)
  ultimately show ?thesis using assms(2) unfolding mutex_owner_def by presburger
qed

text \<open>Each step of the mutex is a step of the abstract lock.\<close>

lemma mutex_sim_step:
  assumes fx: "futex_laws fx" and own: "mutex_owner s p" and st: "mutex_step fx s s'"
  shows "\<exists>p'. lock_spec p p' \<and> mutex_owner s' p'"
  using st
proof cases
  case (start t)
  show ?thesis
  proof (cases "atom s = UNLOCKED")
    case True
    with start own have "mutex_owner s' (Some t)" "p = None"
      by (auto simp: mutex_owner_def mutex_step_defs)
    then show ?thesis by (auto intro: acquire)
  next
    case False
    with start own have "mutex_owner s' p" by (auto simp: mutex_step_defs)
    then show ?thesis by (auto intro: stutter)
  qed
next
  case (check t state)
  show ?thesis
  proof (cases "atom s = UNLOCKED \<and> state \<noteq> CONTENDED")
    case True
    with check own have "mutex_owner s' (Some t)" "p = None"
      by (auto simp: mutex_owner_def mutex_step_defs)
    then show ?thesis by (auto intro: acquire)
  next
    case False
    have "p \<noteq> Some t" using check(2) owner_guard [OF own, of t] by simp
    with False check own have "mutex_owner s' p" by (auto simp: mutex_owner_def mutex_step_defs)
    then show ?thesis by (auto intro: stutter)
  qed
next
  case (unlock t)
  with own have "mutex_owner s' None" "p = Some t"
    by (auto simp: mutex_owner_def mutex_step_defs)
  then show ?thesis by (auto intro: release)
next
  case (wake t)
  with owner_wake [OF fx own] show ?thesis by (auto intro: stutter)
next
  case (wait t)
  with own have "mutex_owner s' p" by (auto simp: mutex_step_defs)
  then show ?thesis by (auto intro: stutter)
next
  case (spurious t)
  with own have "mutex_owner s' p" by auto
  then show ?thesis by (auto intro: stutter)
next
  case (reload t)
  with own have "mutex_owner s' p" by (auto simp: mutex_step_defs)
  then show ?thesis by (auto intro: stutter)
qed

interpretation mx: lock_protocol "mutex_step (fx::futex)" "\<lambda>s p. futex_laws fx \<and> mutex_owner s p" mutex_guard
proof unfold_locales
  fix s s' p t
  assume o: "futex_laws fx \<and> mutex_owner s p"
  then show "mutex_step fx s s' \<Longrightarrow> \<exists>p'. lock_spec p p' \<and> futex_laws fx \<and> mutex_owner s' p'"
    using mutex_sim_step by blast
  show "mutex_guard s t = (p = Some t)" using o by (simp add: mutex_owner_def mutex_guard_def)
qed

section \<open>No wake-up is lost\<close>

text \<open>
  A contender that is awake sets \<open>CONTENDED\<close> before it sleeps or takes the lock; a thread about
  to call \<open>wake_one\<close> wakes a sleeper.
\<close>

definition awake_contender :: "mutex_pc \<Rightarrow> bool" where
  "awake_contender c \<longleftrightarrow> (\<exists>v. c = Check v) \<or> c \<in> {Wait, Reload, Wake}"

definition will_wake :: "mutex_state \<Rightarrow> bool" where
  "will_wake s \<longleftrightarrow> atom s = CONTENDED \<or> (\<exists>u. awake_contender (pc s u))"

lemma will_wakeI: "awake_contender (pc s u) \<Longrightarrow> will_wake s"
  by (auto simp: will_wake_def)

lemma will_wake_other:
  assumes "will_wake s" and "\<not> awake_contender (pc s t)" and "atom s \<noteq> CONTENDED"
  shows "will_wake (s\<lparr>atom := v, pc := (pc s)(t := c)\<rparr>)"
proof -
  from assms obtain u where "awake_contender (pc s u)" "u \<noteq> t" by (auto simp: will_wake_def)
  then show ?thesis by (intro will_wakeI [of _ u]) simp
qed

lemma will_wake_step:
  assumes fx: "futex_laws fx" and st: "mutex_step fx s s'"
    and inv: "sleepers s \<noteq> {} \<longrightarrow> will_wake s" and sl: "sleepers s' \<noteq> {}"
  shows "will_wake s'"
proof -
  have move: "sleepers s \<noteq> {} \<or> c = Asleep"
    if "s' = s\<lparr>atom := v, pc := (pc s)(t := c)\<rparr>" for v t c
    using sl that by (auto simp: sleepers_def split: if_splits)
  show ?thesis
    using st
  proof cases
    case (start t)
    show ?thesis
    proof (cases "atom s = UNLOCKED")
      case True
      with start have s': "s' = s\<lparr>atom := LOCKED, pc := (pc s)(t := Guard)\<rparr>" by (simp add: mutex_step_defs)
      have "will_wake s" using move [OF s'] inv by simp
      with True start show ?thesis unfolding s' by (intro will_wake_other) (auto simp: awake_contender_def)
    next
      case False
      with start show ?thesis
        by (intro will_wakeI [of _ t]) (simp add: mutex_step_defs awake_contender_def)
    qed
  next
    case (check t state)
    then show ?thesis
      by (cases "state = CONTENDED")
        (auto simp: mutex_step_defs will_wake_def awake_contender_def)
  next
    case (wait t)
    then show ?thesis
      using fx by (auto simp: mutex_step_defs will_wake_def awake_contender_def futex_laws_def)
  next
    case (spurious t)
    then show ?thesis by (intro will_wakeI [of _ t]) (simp add: awake_contender_def)
  next
    case (reload t)
    then show ?thesis by (intro will_wakeI [of _ t]) (simp add: mutex_step_defs awake_contender_def)
  next
    case (unlock t)
    show ?thesis
    proof (cases "atom s = CONTENDED")
      case True
      with unlock show ?thesis
        by (intro will_wakeI [of _ t]) (simp add: mutex_step_defs awake_contender_def)
    next
      case False
      with unlock have s': "s' = s\<lparr>atom := UNLOCKED, pc := (pc s)(t := Outside)\<rparr>" by (simp add: mutex_step_defs)
      have "will_wake s" using move [OF s'] inv by simp
      with False unlock show ?thesis unfolding s' by (intro will_wake_other) (auto simp: awake_contender_def)
    qed
  next
    case (wake t)
    then have "sleepers s \<noteq> {}" using sl by (auto simp: sleepers_def guard_wake_def split: if_splits)
    with fx obtain u where u: "u \<in> fx_wakes fx (sleepers s)" unfolding futex_laws_def by blast
    with wakes_asleep [OF fx this] wake have "u \<noteq> t" by auto
    with u wake show ?thesis by (intro will_wakeI [of _ u]) (simp add: guard_wake_def awake_contender_def)
  qed
qed

lemma will_wake_reach:
  assumes fx: "futex_laws fx" and "(mutex_step fx)\<^sup>*\<^sup>* s s'" and "sleepers s = {}"
  shows "sleepers s' \<noteq> {} \<longrightarrow> will_wake s'"
  using assms(2)
proof (induction rule: rtranclp_induct)
  case base
  then show ?case using assms(3) by simp
next
  case (step y z)
  then show ?case using will_wake_step [OF fx] by blast
qed

section \<open>The spin lock\<close>

text \<open>
  \<open>try_lock_weak\<close> may fail although the atomic is \<open>UNLOCKED\<close>; the inner loop reads until it is.
\<close>

datatype spin_pc = SOutside | STry | SSpin | SGuard

record spin_state =
  spin_atom :: u32
  spin_pc :: "nat \<Rightarrow> spin_pc"

definition spin_at :: "spin_state \<Rightarrow> nat \<Rightarrow> spin_pc \<Rightarrow> spin_state" where
  "spin_at s t c = s\<lparr>spin_pc := (spin_pc s)(t := c)\<rparr>"

text \<open>\<open>weak_fails\<close> is whether \<open>compare_exchange_weak\<close> fails spuriously.\<close>

definition try_lock_weak :: "spin_state \<Rightarrow> bool \<Rightarrow> spin_state option" where
  "try_lock_weak s weak_fails =
     (if spin_atom s = UNLOCKED \<and> \<not> weak_fails then Some (s\<lparr>spin_atom := LOCKED\<rparr>) else None)"

definition spin_try :: "spin_state \<Rightarrow> nat \<Rightarrow> bool \<Rightarrow> spin_state" where
  "spin_try s t weak_fails = (case try_lock_weak s weak_fails of
      Some s' \<Rightarrow> spin_at s' t SGuard
    | None \<Rightarrow> spin_at s t SSpin)"

definition spin_read :: "spin_state \<Rightarrow> nat \<Rightarrow> spin_state" where
  "spin_read s t = spin_at s t (if spin_atom s \<noteq> UNLOCKED then SSpin else STry)"

definition spin_drop :: "spin_state \<Rightarrow> nat \<Rightarrow> spin_state" where
  "spin_drop s t = spin_at (s\<lparr>spin_atom := UNLOCKED\<rparr>) t SOutside"

inductive spin_step :: "spin_state \<Rightarrow> spin_state \<Rightarrow> bool" where
  spin_call: "spin_pc s t = SOutside \<Longrightarrow> spin_step s (spin_at s t STry)"
| spin_attempt: "spin_pc s t = STry \<Longrightarrow> spin_step s (spin_try s t weak_fails)"
| spin_poll: "spin_pc s t = SSpin \<Longrightarrow> spin_step s (spin_read s t)"
| spin_unlock: "spin_pc s t = SGuard \<Longrightarrow> spin_step s (spin_drop s t)"

definition spin_zeroed :: spin_state where
  "spin_zeroed = \<lparr>spin_atom = 0, spin_pc = (\<lambda>_. SOutside)\<rparr>"

definition spin_owner :: "spin_state \<Rightarrow> nat option \<Rightarrow> bool" where
  "spin_owner s p \<longleftrightarrow> (\<forall>t. spin_pc s t = SGuard \<longleftrightarrow> p = Some t)
     \<and> (spin_atom s = (if p = None then UNLOCKED else LOCKED))"

definition spin_guard :: "spin_state \<Rightarrow> nat \<Rightarrow> bool" where
  "spin_guard s t \<longleftrightarrow> spin_pc s t = SGuard"

lemma spin_zeroed_owner: "spin_owner spin_zeroed None"
  by (simp add: spin_owner_def spin_zeroed_def UNLOCKED_def)

lemma spin_owner_guard: "spin_owner s p \<Longrightarrow> spin_pc s t = SGuard \<longleftrightarrow> p = Some t"
  by (simp add: spin_owner_def)

lemma spin_move: "spin_owner s p \<Longrightarrow> spin_pc s t \<noteq> SGuard \<Longrightarrow> c \<noteq> SGuard \<Longrightarrow> spin_owner (spin_at s t c) p"
  by (auto simp: spin_owner_def spin_at_def)

lemma spin_sim_step: "spin_owner s p \<Longrightarrow> spin_step s s' \<Longrightarrow> \<exists>p'. lock_spec p p' \<and> spin_owner s' p'"
proof -
  assume own: "spin_owner s p"
  assume "spin_step s s'"
  then show ?thesis
  proof cases
    case (spin_call t)
    with own show ?thesis by (auto intro!: exI [of _ p] spin_move stutter)
  next
    case (spin_attempt t weak_fails)
    show ?thesis
    proof (cases "spin_atom s = UNLOCKED \<and> \<not> weak_fails")
      case True
      with spin_attempt own have "spin_owner s' (Some t)" "p = None"
        by (auto simp: spin_owner_def spin_try_def try_lock_weak_def spin_at_def split: if_splits)
      then show ?thesis by (auto intro: acquire)
    next
      case False
      with spin_attempt have "s' = spin_at s t SSpin" by (auto simp: spin_try_def try_lock_weak_def)
      moreover have "spin_owner (spin_at s t SSpin) p" using own spin_attempt(2) by (intro spin_move) simp_all
      ultimately show ?thesis by (blast intro: stutter)
    qed
  next
    case (spin_poll t)
    with own show ?thesis by (auto simp: spin_read_def intro!: exI [of _ p] spin_move stutter)
  next
    case (spin_unlock t)
    with own have "spin_owner s' None" "p = Some t"
      by (auto simp: spin_owner_def spin_drop_def spin_at_def)
    then show ?thesis by (auto intro: release)
  qed
qed

interpretation spin: lock_protocol spin_step spin_owner spin_guard
  by unfold_locales (auto simp: spin_guard_def spin_owner_guard dest: spin_sim_step)

section \<open>Properties\<close>

text \<open>
  C35. From the zeroed state, at most one thread holds the guard of a \<open>PodMutex\<close>, whatever the
  interleaving and whichever sleeper \<open>wake_one\<close> picks, and the guard never passes directly from one
  thread to another.
\<close>

theorem pod_mutex_exclusion:
  assumes "futex_laws fx" and "(mutex_step fx)\<^sup>*\<^sup>* mutex_zeroed s"
  shows "(\<forall>t u. mutex_guard s t \<and> mutex_guard s u \<longrightarrow> t = u)
    \<and> (\<forall>s' t u. mutex_step fx s s' \<and> mutex_guard s t \<and> mutex_guard s' u \<longrightarrow> t = u)"
  using mx.one_guard mx.handover assms mutex_zeroed_owner by blast

definition wake_least :: "nat set \<Rightarrow> nat set" where
  "wake_least W = (if W = {} then {} else {LEAST t. t \<in> W})"

definition example_futex :: futex where
  "example_futex = \<lparr>fx_blocks = (=), fx_wakes = wake_least\<rparr>"

lemma example_futex_laws: "futex_laws example_futex"
  by (auto simp: futex_laws_def example_futex_def wake_least_def intro: LeastI)

theorem pod_mutex_exclusion_witness:
  "mutex_guard (lock_start mutex_zeroed 3) 3 \<and> \<not> mutex_guard (lock_start mutex_zeroed 3) 4"
proof
  show g: "mutex_guard (lock_start mutex_zeroed 3) 3"
    by (simp add: mutex_guard_def mutex_zeroed_def mutex_step_defs UNLOCKED_def)
  have "mutex_step example_futex mutex_zeroed (lock_start mutex_zeroed 3)"
    by (rule start) (simp add: mutex_zeroed_def)
  then have "(mutex_step example_futex)\<^sup>*\<^sup>* mutex_zeroed (lock_start mutex_zeroed 3)" by simp
  from pod_mutex_exclusion [OF example_futex_laws this] g show "\<not> mutex_guard (lock_start mutex_zeroed 3) 4"
    by force
qed

text \<open>
  C36. No wake-up is lost: while a thread sleeps in \<open>wait\<close>, either the mutex is held and marked
  \<open>CONTENDED\<close>, so that dropping the guard calls \<open>wake_one\<close>, or some thread is awake that will
  call \<open>wake_one\<close> or contend for the lock.
\<close>

theorem pod_mutex_no_lost_wakeup:
  assumes "futex_laws fx" and "(mutex_step fx)\<^sup>*\<^sup>* mutex_zeroed s" and "pc s t = Asleep"
  shows "(\<exists>h. mutex_guard s h \<and> pc (guard_drop s h) h = Wake) \<or> (\<exists>u. awake_contender (pc s u))"
proof -
  have "sleepers mutex_zeroed = {}" by (simp add: sleepers_def mutex_zeroed_def)
  from will_wake_reach [OF assms(1,2) this] assms(3) have "will_wake s" by (auto simp: sleepers_def)
  moreover obtain p where "mutex_owner s p"
    using mx.sim_reach [OF assms(2)] assms(1) mutex_zeroed_owner by blast
  then have "\<exists>h. mutex_guard s h" if "atom s = CONTENDED"
    using that by (cases p) (auto simp: mutex_owner_def mutex_guard_def)
  ultimately show ?thesis
    by (auto simp: will_wake_def guard_drop_def atomic_swap_def)
qed

text \<open>Thread 0 takes the lock, thread 1 contends and goes to sleep.\<close>

definition example_sleep :: mutex_state where
  "example_sleep = lock_wait example_futex (lock_check (lock_start (lock_start mutex_zeroed 0) 1) 1 LOCKED) 1"

lemma example_sleep_reachable: "(mutex_step example_futex)\<^sup>*\<^sup>* mutex_zeroed example_sleep"
proof -
  let ?s1 = "lock_start mutex_zeroed 0"
  let ?s2 = "lock_start ?s1 1"
  let ?s3 = "lock_check ?s2 1 LOCKED"
  have "mutex_step example_futex mutex_zeroed ?s1" by (rule start) (simp add: mutex_zeroed_def)
  moreover have "mutex_step example_futex ?s1 ?s2"
    by (rule start) (simp add: mutex_zeroed_def mutex_step_defs UNLOCKED_def)
  moreover have "mutex_step example_futex ?s2 ?s3"
    by (rule check) (simp add: mutex_zeroed_def mutex_step_defs UNLOCKED_def LOCKED_def)
  moreover have "mutex_step example_futex ?s3 example_sleep"
    unfolding example_sleep_def
    by (rule wait) (simp add: mutex_zeroed_def mutex_step_defs UNLOCKED_def LOCKED_def CONTENDED_def)
  ultimately show ?thesis by (meson rtranclp.rtrancl_into_rtrancl rtranclp.rtrancl_refl)
qed

theorem pod_mutex_no_lost_wakeup_witness:
  "(\<exists>h. mutex_guard example_sleep h \<and> pc (guard_drop example_sleep h) h = Wake)
    \<or> (\<exists>u. awake_contender (pc example_sleep u))"
  by (rule pod_mutex_no_lost_wakeup [OF example_futex_laws example_sleep_reachable, of 1])
    (simp add: example_sleep_def mutex_zeroed_def mutex_step_defs UNLOCKED_def LOCKED_def CONTENDED_def
      example_futex_def)

text \<open>
  From the zeroed state, at most one thread holds the guard of a \<open>PodSpinMutex\<close>, even when the
  weak compare-and-exchange fails spuriously.
\<close>

theorem pod_spin_mutex_exclusion:
  assumes "spin_step\<^sup>*\<^sup>* spin_zeroed s" and "spin_guard s t" and "spin_guard s u"
  shows "t = u"
  using spin.one_guard [OF spin_zeroed_owner assms] .

theorem pod_spin_mutex_exclusion_witness:
  "\<not> spin_guard (spin_try (spin_at spin_zeroed 7 STry) 7 False) 8"
proof
  assume u: "spin_guard (spin_try (spin_at spin_zeroed 7 STry) 7 False) 8"
  let ?s1 = "spin_at spin_zeroed 7 STry"
  have "spin_step spin_zeroed ?s1" by (rule spin_call) (simp add: spin_zeroed_def)
  moreover have "spin_step ?s1 (spin_try ?s1 7 False)" by (rule spin_attempt) (simp add: spin_at_def)
  ultimately have "spin_step\<^sup>*\<^sup>* spin_zeroed (spin_try ?s1 7 False)" by simp
  then have "(7::nat) = 8"
    by (rule pod_spin_mutex_exclusion [OF _ _ u])
      (simp add: spin_guard_def spin_try_def try_lock_weak_def spin_at_def spin_zeroed_def UNLOCKED_def)
  then show False by simp
qed

end
