(* ===== verification/Shared_Map.thy ===== *)
theory Shared_Map
  imports Prelude
begin

text \<open>
  The named mapping through which copies of the library find each other
  (\<open>abi/src/alloc.rs\<close>, \<open>abi/src/alloc/linux.rs\<close>): its name, made from the process id and the start
  time read from \<open>/proc/self/stat\<close>, and the protocol of \<open>MmapRaw::named\<close>, in which one thread
  creates and sizes the shared object while others open it and poll until it has a size.
\<close>

section \<open>The name\<close>

text \<open>\<open>str::split(' ')\<close>.\<close>

fun split_space :: "string \<Rightarrow> string list" where
  "split_space [] = [[]]"
| "split_space (c # s) =
     (if c = CHR '' '' then [] # split_space s
      else (c # hd (split_space s)) # tl (split_space s))"

text \<open>\<open>stat.split(' ').nth(21).unwrap_or("0")\<close> on the contents of \<open>/proc/self/stat\<close>.\<close>

definition start_time :: "string \<Rightarrow> string" where
  "start_time stat = (case slice_get (split_space stat) 21 of Some f \<Rightarrow> f | None \<Rightarrow> ''0'')"

definition mmap_name :: "string \<Rightarrow> string" where
  "mmap_name name = ''/'' @ name @ [CHR 0x00]"

definition builder_name :: "string \<Rightarrow> string \<Rightarrow> string \<Rightarrow> string" where
  "builder_name version pid stat =
     mmap_name (''diversion-'' @ version @ ''-'' @ pid @ ''-'' @ start_time stat)"

text \<open>
  A line of \<open>proc_pid_stat(5)\<close>: the process id, the command name in parentheses, and the fields
  from the third on; the start time is field 22.
\<close>

fun join_space :: "string list \<Rightarrow> string" where
  "join_space [] = []"
| "join_space [f] = f"
| "join_space (f # fs) = f @ '' '' @ join_space fs"

definition stat_line :: "string \<Rightarrow> string \<Rightarrow> string list \<Rightarrow> string" where
  "stat_line pid comm flds = pid @ '' ('' @ comm @ '') '' @ join_space flds"

definition spaces :: "string \<Rightarrow> nat" where
  "spaces s = length (filter (\<lambda>c. c = CHR '' '') s)"

lemma split_space_nonempty [simp]: "split_space s \<noteq> []"
  by (cases s) auto

lemma length_split_space: "length (split_space s) = Suc (spaces s)"
proof (induction s)
  case (Cons c s)
  then show ?case by (simp add: spaces_def)
qed (simp add: spaces_def)

lemma split_space_append:
  "split_space (s @ CHR '' '' # t) = split_space s @ split_space t"
proof (induction s)
  case (Cons c s)
  then show ?case by (cases "split_space s") auto
qed simp

lemma split_space_word: "spaces s = 0 \<Longrightarrow> split_space s = [s]"
proof (induction s)
  case (Cons c s)
  then show ?case by (auto simp: spaces_def split: if_splits)
qed simp

lemma split_join: "fs \<noteq> [] \<Longrightarrow> \<forall>f \<in> set fs. spaces f = 0 \<Longrightarrow> split_space (join_space fs) = fs"
  by (induction fs rule: join_space.induct) (simp_all add: split_space_word split_space_append)

lemma spaces_append: "spaces (s @ t) = spaces s + spaces t"
  by (simp add: spaces_def)

lemma split_stat_line:
  assumes "spaces pid = 0" and "flds \<noteq> []" and "\<forall>f \<in> set flds. spaces f = 0"
  shows "split_space (stat_line pid comm flds) = pid # split_space (CHR ''('' # comm @ '')'') @ flds"
proof -
  have "stat_line pid comm flds = pid @ CHR '' '' # ((CHR ''('' # comm @ '')'') @ CHR '' '' # join_space flds)"
    by (simp add: stat_line_def)
  then show ?thesis
    using split_join [OF assms(2,3)] split_space_word [OF assms(1)] by (simp only: split_space_append) simp
qed

section \<open>The protocol of \<open>named\<close>\<close>

text \<open>
  The shared objects: \<open>shm_name\<close> is the object the name refers to, \<open>obj_size\<close> the size of each
  object, \<open>next_obj\<close> the next object the kernel creates. Per thread: the point reached in \<open>named\<close>,
  the number of its file descriptors that are open, and how often it found the object still empty.
\<close>

datatype named_pc =
    Start
  | Truncate nat
  | Open
  | Stat nat
  | Sleep
  | Map nat nat
  | Close "(nat \<times> nat) option"
  | Done nat nat
  | Failed

record named_state =
  shm_name :: "nat option"
  obj_size :: "nat \<Rightarrow> nat"
  next_obj :: nat
  npc :: "nat \<Rightarrow> named_pc"
  fds :: "nat \<Rightarrow> nat"
  polls :: "nat \<Rightarrow> nat"

definition goto :: "named_state \<Rightarrow> nat \<Rightarrow> named_pc \<Rightarrow> named_state" where
  "goto s t c = s\<lparr>npc := (npc s)(t := c)\<rparr>"

definition open_fd :: "named_state \<Rightarrow> nat \<Rightarrow> named_state" where
  "open_fd s t = s\<lparr>fds := (fds s)(t := fds s t + 1)\<rparr>"

definition close_fd :: "named_state \<Rightarrow> nat \<Rightarrow> named_state" where
  "close_fd s t = s\<lparr>fds := (fds s)(t := fds s t - 1)\<rparr>"

text \<open>\<open>shm_open\<close> with \<open>O_CREAT | O_EXCL\<close>: a new object of size 0, \<open>EEXIST\<close>, or another error (\<open>fails\<close>).\<close>

definition named_create :: "named_state \<Rightarrow> nat \<Rightarrow> bool \<Rightarrow> named_state" where
  "named_create s t fails =
     (if fails then goto s t Failed
      else if shm_name s = None
      then goto (open_fd (s\<lparr>shm_name := Some (next_obj s), obj_size := (obj_size s)(next_obj s := 0),
                            next_obj := Suc (next_obj s)\<rparr>) t) t (Truncate (next_obj s))
      else goto s t Open)"

text \<open>\<open>ftruncate\<close>; if it fails, the descriptor is closed and the name unlinked.\<close>

definition named_truncate :: "named_state \<Rightarrow> nat \<Rightarrow> nat \<Rightarrow> nat \<Rightarrow> bool \<Rightarrow> named_state" where
  "named_truncate s t obj sz fails =
     (if fails then goto ((close_fd s t)\<lparr>shm_name := None\<rparr>) t Failed
      else goto (s\<lparr>obj_size := (obj_size s)(obj := max sz 1)\<rparr>) t (Map obj (max sz 1)))"

definition named_open :: "named_state \<Rightarrow> nat \<Rightarrow> bool \<Rightarrow> named_state" where
  "named_open s t fails =
     (case shm_name s of
        Some obj \<Rightarrow> if fails then goto s t Failed else goto (open_fd s t) t (Stat obj)
      | None \<Rightarrow> goto s t Failed)"

text \<open>\<open>fstat\<close>: an object that is still empty is polled again; its descriptor is not closed.\<close>

definition named_stat :: "named_state \<Rightarrow> nat \<Rightarrow> nat \<Rightarrow> bool \<Rightarrow> named_state" where
  "named_stat s t obj fails =
     (if fails then goto (close_fd s t) t Failed
      else if 0 < obj_size s obj then goto s t (Map obj (min (obj_size s obj) 4294967295))
      else goto (s\<lparr>polls := (polls s)(t := polls s t + 1)\<rparr>) t Sleep)"

definition named_map :: "named_state \<Rightarrow> nat \<Rightarrow> nat \<Rightarrow> nat \<Rightarrow> bool \<Rightarrow> named_state" where
  "named_map s t obj sz fails = goto s t (Close (if fails then None else Some (obj, sz)))"

definition named_close :: "named_state \<Rightarrow> nat \<Rightarrow> (nat \<times> nat) option \<Rightarrow> named_state" where
  "named_close s t res =
     goto (close_fd s t) t (case res of Some (obj, sz) \<Rightarrow> Done obj sz | None \<Rightarrow> Failed)"

inductive named_step :: "nat \<Rightarrow> named_state \<Rightarrow> named_state \<Rightarrow> bool" for sz where
  n_create: "npc s t = Start \<Longrightarrow> named_step sz s (named_create s t fails)"
| n_truncate: "npc s t = Truncate obj \<Longrightarrow> named_step sz s (named_truncate s t obj sz fails)"
| n_open: "npc s t = Open \<Longrightarrow> named_step sz s (named_open s t fails)"
| n_stat: "npc s t = Stat obj \<Longrightarrow> named_step sz s (named_stat s t obj fails)"
| n_sleep: "npc s t = Sleep \<Longrightarrow> named_step sz s (goto s t Open)"
| n_map: "npc s t = Map obj n \<Longrightarrow> named_step sz s (named_map s t obj n fails)"
| n_close: "npc s t = Close res \<Longrightarrow> named_step sz s (named_close s t res)"

definition named_init :: named_state where
  "named_init = \<lparr>shm_name = None, obj_size = (\<lambda>_. 0), next_obj = 0, npc = (\<lambda>_. Start),
     fds = (\<lambda>_. 0), polls = (\<lambda>_. 0)\<rparr>"

text \<open>The object a thread maps or has mapped.\<close>

fun mapping_of :: "named_pc \<Rightarrow> (nat \<times> nat) option" where
  "mapping_of (Map obj n) = Some (obj, n)"
| "mapping_of (Close res) = res"
| "mapping_of (Done obj n) = Some (obj, n)"
| "mapping_of _ = None"

text \<open>The descriptors a thread needs at each point.\<close>

fun needed_fds :: "named_pc \<Rightarrow> nat" where
  "needed_fds (Truncate obj) = 1"
| "needed_fds (Stat obj) = 1"
| "needed_fds (Map obj n) = 1"
| "needed_fds (Close res) = 1"
| "needed_fds _ = 0"

text \<open>
  Only the object the name refers to has a size, at most one thread is between creating an
  object and sizing it, and that object is then the empty one the name refers to.
\<close>

definition named_inv :: "named_state \<Rightarrow> bool" where
  "named_inv s \<longleftrightarrow>
     (\<forall>obj. 0 < obj_size s obj \<longrightarrow> shm_name s = Some obj)
     \<and> (\<forall>t obj. npc s t = Truncate obj \<longrightarrow> shm_name s = Some obj \<and> obj_size s obj = 0)
     \<and> (\<forall>t u obj obj'. npc s t = Truncate obj \<and> npc s u = Truncate obj' \<longrightarrow> t = u)
     \<and> (\<forall>t obj n. mapping_of (npc s t) = Some (obj, n) \<longrightarrow> 0 < n \<and> n \<le> obj_size s obj)
     \<and> (\<forall>obj. shm_name s = Some obj \<longrightarrow> obj < next_obj s)
     \<and> (\<forall>obj. next_obj s \<le> obj \<longrightarrow> obj_size s obj = 0)"

lemmas named_defs = goto_def open_fd_def close_fd_def named_create_def named_truncate_def named_open_def
  named_stat_def named_map_def named_close_def

lemma named_init_inv: "named_inv named_init"
  by (simp add: named_inv_def named_init_def)

lemma named_inv_fds [simp]:
  "named_inv (open_fd s t) = named_inv s" "named_inv (close_fd s t) = named_inv s"
  "named_inv (s\<lparr>polls := p\<rparr>) = named_inv s"
  by (simp_all add: named_inv_def open_fd_def close_fd_def)

lemma fds_sel [simp]:
  "obj_size (open_fd s t) = obj_size s" "obj_size (close_fd s t) = obj_size s"
  "npc (open_fd s t) = npc s" "npc (close_fd s t) = npc s"
  by (simp_all add: open_fd_def close_fd_def)

lemma goto_inv:
  assumes inv: "named_inv s" and c: "\<And>obj. c \<noteq> Truncate obj"
    and m: "\<And>obj n. mapping_of c = Some (obj, n) \<Longrightarrow> 0 < n \<and> n \<le> obj_size s obj"
  shows "named_inv (goto s t c)"
proof -
  have tr: "npc (goto s t c) u = Truncate obj \<Longrightarrow> npc s u = Truncate obj" for u obj
    using c by (auto simp: goto_def split: if_splits)
  have mp: "mapping_of (npc (goto s t c) u) = Some (obj, n) \<Longrightarrow> 0 < n \<and> n \<le> obj_size s obj" for u obj n
    using m inv by (auto simp: goto_def named_inv_def split: if_splits)
  have sel: "shm_name (goto s t c) = shm_name s" "obj_size (goto s t c) = obj_size s" "next_obj (goto s t c) = next_obj s"
    by (simp_all add: goto_def)
  show ?thesis
    unfolding named_inv_def [of "goto s t c"] sel
    using inv [unfolded named_inv_def] tr mp by (intro conjI allI impI) (blast+)
qed

lemma named_inv_map: "named_inv s \<Longrightarrow> mapping_of (npc s t) = Some (obj, n) \<Longrightarrow> 0 < n \<and> n \<le> obj_size s obj"
  by (simp add: named_inv_def)

lemma named_inv_size: "named_inv s \<Longrightarrow> 0 < obj_size s obj \<Longrightarrow> shm_name s = Some obj"
  by (simp add: named_inv_def)

lemma create_inv:
  "named_inv s \<Longrightarrow> shm_name s = None \<Longrightarrow>
    named_inv (goto (s\<lparr>shm_name := Some (next_obj s), obj_size := (obj_size s)(next_obj s := 0),
      next_obj := Suc (next_obj s)\<rparr>) t (Truncate (next_obj s)))"
  by (fastforce simp: named_inv_def goto_def)

lemma truncate_inv:
  assumes inv: "named_inv s" and t: "npc s t = Truncate obj" and n: "0 < n"
  shows "named_inv (goto (s\<lparr>obj_size := (obj_size s)(obj := n)\<rparr>) t (Map obj n))"
    and "named_inv (goto (s\<lparr>shm_name := None\<rparr>) t Failed)"
proof -
  have name: "shm_name s = Some obj" "obj_size s obj = 0" using inv t by (auto simp: named_inv_def)
  have only: "npc s u = Truncate obj' \<Longrightarrow> u = t" for u obj' using inv t by (auto simp: named_inv_def)
  have zero: "obj_size s = (\<lambda>_. 0)"
  proof
    fix o'
    show "obj_size s o' = 0" using named_inv_size [OF inv, of o'] name by (cases "obj_size s o'") auto
  qed
  have nomap: "mapping_of (npc s u) = None" for u
    using named_inv_map [OF inv, of u] zero by (cases "mapping_of (npc s u)") auto
  have "obj < next_obj s" using inv name by (simp add: named_inv_def)
  then show "named_inv (goto (s\<lparr>obj_size := (obj_size s)(obj := n)\<rparr>) t (Map obj n))"
    using name only zero nomap n by (auto simp: named_inv_def goto_def)
  show "named_inv (goto (s\<lparr>shm_name := None\<rparr>) t Failed)"
    using only zero nomap by (auto simp: named_inv_def goto_def)
qed

lemma named_step_inv: "named_step sz s s' \<Longrightarrow> named_inv s \<Longrightarrow> named_inv s'"
proof (induction rule: named_step.induct)
  case (n_create s t fails)
  have "goto (open_fd x t) t c = open_fd (goto x t c) t" for x c by (simp add: goto_def open_fd_def)
  with create_inv [OF n_create.prems] n_create.prems show ?case
    by (auto simp: named_create_def intro: goto_inv)
next
  case (n_truncate s t obj fails)
  have "goto ((close_fd s t)\<lparr>shm_name := None\<rparr>) t c = close_fd (goto (s\<lparr>shm_name := None\<rparr>) t c) t" for c
    by (simp add: goto_def close_fd_def)
  with truncate_inv [OF n_truncate.prems n_truncate.hyps, of "max sz 1"] show ?case
    by (auto simp: named_truncate_def)
next
  case (n_open s t fails)
  then show ?case by (auto simp: named_open_def intro!: goto_inv split: option.split)
next
  case (n_stat s t obj fails)
  then show ?case by (auto simp: named_stat_def intro!: goto_inv)
next
  case (n_map s t obj n fails)
  then have "0 < n \<and> n \<le> obj_size s obj" using named_inv_map [of s t obj n] by simp
  with n_map show ?case by (auto simp: named_map_def intro!: goto_inv split: if_splits)
next
  case (n_close s t res)
  have "0 < n \<and> n \<le> obj_size s obj" if "res = Some (obj, n)" for obj n
    using named_inv_map [of s t obj n] n_close that by simp
  with n_close show ?case by (auto simp: named_close_def intro!: goto_inv split: option.splits)
next
  case (n_sleep s t)
  then show ?case by (auto intro!: goto_inv)
qed

lemma named_step_fds:
  "named_step sz s s' \<Longrightarrow> \<forall>t. fds s t = polls s t + needed_fds (npc s t) \<Longrightarrow>
    \<forall>t. fds s' t = polls s' t + needed_fds (npc s' t)"
  by (induction rule: named_step.induct) (auto simp: named_defs split: option.split)

lemma named_reach_inv: "(named_step sz)\<^sup>*\<^sup>* named_init s \<Longrightarrow> named_inv s"
  by (induction rule: rtranclp_induct) (auto intro: named_init_inv named_step_inv)

lemma named_reach_fds:
  "(named_step sz)\<^sup>*\<^sup>* named_init s \<Longrightarrow> \<forall>t. fds s t = polls s t + needed_fds (npc s t)"
proof (induction rule: rtranclp_induct)
  case base
  show ?case by (simp add: named_init_def)
next
  case (step y z)
  show ?case by (rule named_step_fds [OF step.hyps(2) step.IH])
qed

section \<open>Properties\<close>

text \<open>
  C40. However the threads interleave and whichever system calls fail, every mapping that \<open>named\<close>
  returns is of one and the same object (the one the name refers to), is not empty, and does not extend
  past the object: no thread maps an object before its creator has sized it.
\<close>

theorem named_maps_one_object:
  assumes "(named_step sz)\<^sup>*\<^sup>* named_init s" and "npc s t = Done obj n" and "npc s u = Done obj' n'"
  shows "obj = obj' \<and> shm_name s = Some obj \<and> 0 < n \<and> n \<le> obj_size s obj"
proof -
  have m: "mapping_of (npc s t) = Some (obj, n)" "mapping_of (npc s u) = Some (obj', n')"
    using assms(2,3) by simp_all
  note inv = named_reach_inv [OF assms(1)]
  have n: "0 < n \<and> n \<le> obj_size s obj" "0 < n' \<and> n' \<le> obj_size s obj'"
    using named_inv_map [OF inv m(1)] named_inv_map [OF inv m(2)] by simp_all
  then have "shm_name s = Some obj" "shm_name s = Some obj'" by (auto intro: named_inv_size [OF inv])
  with n show ?thesis by simp
qed

definition example_created :: named_state where
  "example_created = named_close (named_map (named_truncate (named_create named_init 0 False) 0 0 40 False)
     0 0 40 False) 0 (Some (0, 40))"

lemma example_created_reachable: "(named_step 40)\<^sup>*\<^sup>* named_init example_created"
proof -
  let ?s1 = "named_create named_init 0 False"
  let ?s2 = "named_truncate ?s1 0 0 40 False"
  let ?s3 = "named_map ?s2 0 0 40 False"
  have "named_step 40 named_init ?s1" by (rule n_create) (simp add: named_init_def)
  moreover have "named_step 40 ?s1 ?s2" by (rule n_truncate) (simp add: named_init_def named_defs)
  moreover have "named_step 40 ?s2 ?s3" by (rule n_map) (simp add: named_init_def named_defs)
  moreover have "named_step 40 ?s3 example_created"
    unfolding example_created_def by (rule n_close) (simp add: named_init_def named_defs)
  ultimately show ?thesis by (meson rtranclp.rtrancl_into_rtrancl rtranclp.rtrancl_refl)
qed

theorem named_maps_one_object_witness: "shm_name example_created = Some 0"
proof -
  have "npc example_created 0 = Done 0 40" by (simp add: example_created_def named_init_def named_defs)
  from named_maps_one_object [OF example_created_reachable this this] show ?thesis by simp
qed

text \<open>
  \<open>named\<close> leaves one file descriptor open for every time it found the object still empty: when it
  has returned, with a mapping or an error, a thread holds exactly as many descriptors as it polled
  (the descriptor of an empty object is dropped without \<open>close\<close> before the next \<open>shm_open\<close>).
\<close>

theorem named_leaks_polled_fds:
  assumes "(named_step sz)\<^sup>*\<^sup>* named_init s" and "(\<exists>obj n. npc s t = Done obj n) \<or> npc s t = Failed"
  shows "fds s t = polls s t"
  using named_reach_fds [OF assms(1)] assms(2) by force

text \<open>Thread 0 creates the object; thread 1 opens it before it is sized, polls once, and maps it.\<close>

definition example_polled :: named_state where
  "example_polled =
     (let s1 = named_open (named_create (named_create named_init 0 False) 1 False) 1 False;
          s2 = goto (named_stat s1 1 0 False) 1 Open;
          s3 = named_open (named_truncate s2 0 0 40 False) 1 False
      in named_close (named_map (named_stat s3 1 0 False) 1 0 40 False) 1 (Some (0, 40)))"

lemma example_polled_reachable: "(named_step 40)\<^sup>*\<^sup>* named_init example_polled"
proof -
  define a where "a = named_create named_init 0 False"
  define b where "b = named_create a 1 False"
  define c where "c = named_open b 1 False"
  define d where "d = named_stat c 1 0 False"
  define e where "e = goto d 1 Open"
  define f where "f = named_truncate e 0 0 40 False"
  define g where "g = named_open f 1 False"
  define h where "h = named_stat g 1 0 False"
  define i where "i = named_map h 1 0 40 False"
  note defs = a_def b_def c_def d_def e_def f_def g_def h_def i_def named_init_def named_defs
  have "(named_step 40)\<^sup>*\<^sup>* named_init a" unfolding a_def by (rule r_into_rtranclp, rule n_create) (simp add: named_init_def)
  also have "(named_step 40)\<^sup>*\<^sup>* a b" unfolding b_def by (rule r_into_rtranclp, rule n_create) (simp add: defs)
  also have "(named_step 40)\<^sup>*\<^sup>* b c" unfolding c_def by (rule r_into_rtranclp, rule n_open) (simp add: defs)
  also have "(named_step 40)\<^sup>*\<^sup>* c d" unfolding d_def by (rule r_into_rtranclp, rule n_stat) (simp add: defs)
  also have "(named_step 40)\<^sup>*\<^sup>* d e" unfolding e_def by (rule r_into_rtranclp, rule n_sleep) (simp add: defs)
  also have "(named_step 40)\<^sup>*\<^sup>* e f" unfolding f_def by (rule r_into_rtranclp, rule n_truncate) (simp add: defs)
  also have "(named_step 40)\<^sup>*\<^sup>* f g" unfolding g_def by (rule r_into_rtranclp, rule n_open) (simp add: defs)
  also have "(named_step 40)\<^sup>*\<^sup>* g h" unfolding h_def by (rule r_into_rtranclp, rule n_stat) (simp add: defs)
  also have "(named_step 40)\<^sup>*\<^sup>* h i" unfolding i_def by (rule r_into_rtranclp, rule n_map) (simp add: defs)
  also have "(named_step 40)\<^sup>*\<^sup>* i (named_close i 1 (Some (0, 40)))" by (rule r_into_rtranclp, rule n_close) (simp add: defs)
  also have "named_close i 1 (Some (0, 40)) = example_polled"
    by (simp add: example_polled_def Let_def a_def b_def c_def d_def e_def f_def g_def h_def i_def)
  finally show ?thesis .
qed

theorem named_leaks_polled_fds_witness: "fds example_polled 1 = polls example_polled 1 \<and> polls example_polled 1 = 1"
proof
  have "npc example_polled 1 = Done 0 40"
    by (simp add: example_polled_def Let_def named_init_def named_defs)
  then show "fds example_polled 1 = polls example_polled 1"
    by (intro named_leaks_polled_fds [OF example_polled_reachable]) blast
  show "polls example_polled 1 = 1" by (simp add: example_polled_def Let_def named_init_def named_defs)
qed

text \<open>
  \<open>start_time\<close> reads the start time (field 22) of \<open>/proc/self/stat\<close> only when the command name
  has no space: each space in it shifts the field that is read by one, so that two spaces make it the
  number of threads and the name of the shared object changes while the process runs.
\<close>

theorem start_time_shifted_by_spaces:
  assumes "spaces pid = 0" and "\<forall>f \<in> set flds. spaces f = 0" and "spaces comm \<le> 19"
    and "19 - spaces comm < length flds"
  shows "start_time (stat_line pid comm flds) = flds ! (19 - spaces comm)"
proof -
  have ne: "flds \<noteq> []" using assms(4) by auto
  let ?c = "split_space (CHR ''('' # comm @ '')'')"
  have lc: "length ?c = Suc (spaces comm)"
    unfolding length_split_space by (simp add: spaces_def)
  have "length (pid # ?c) = spaces comm + 2" using lc by simp
  moreover have "21 = (spaces comm + 2) + (19 - spaces comm)" using assms(3) by simp
  ultimately have "((pid # ?c) @ flds) ! 21 = flds ! (19 - spaces comm)"
    by (metis nth_append_length_plus)
  moreover have "21 < length ((pid # ?c) @ flds)" using lc assms(3,4) by simp
  ultimately show ?thesis
    using split_stat_line [OF assms(1) ne assms(2), of comm] by (simp add: start_time_def slice_get_def)
qed

theorem start_time_shifted_by_spaces_witness:
  "start_time (stat_line ''42'' ''my game x'' (replicate 17 ''0'' @ [''12'', ''0'', ''99887'', ''7''])) = ''12''"
proof -
  have "spaces ''my game x'' = 2" by (simp add: spaces_def)
  then show ?thesis
    using start_time_shifted_by_spaces
      [of "''42''" "replicate 17 ''0'' @ [''12'', ''0'', ''99887'', ''7'']" "''my game x''"]
    by (simp add: spaces_def nth_append)
qed

end
