(* ===== verification/Context_Acquire.thy ===== *)
theory Context_Acquire
  imports Lock_Spec
begin

text \<open>
  \<open>ProcessContext::acquire\<close> (\<open>abi/src/context/process.rs\<close>): how the threads of all copies of the
  library in a process come to share one context. Each copy has its own static pointer; the
  shared mapping (\<open>ProcessContextOuter\<close>, one object for all copies, see \<open>Shared_Map\<close>) holds the
  pointer to the context and a spin lock; the context itself starts with a mutex. Both locks are
  the abstract lock of \<open>Lock_Spec\<close>, which \<open>Pod_Sync\<close> implements.
\<close>

definition INNER_SIZE :: nat where
  "INNER_SIZE = 16 * 1024 * 1024"

datatype acquire_pc =
    ALoad | ANamed | ASpin | AInit | AStore | ARelease nat | AInner nat | AGuard nat | AError

record acquire_state =
  inner_ptr :: nat
  inner_size :: nat
  spin :: "nat option"
  statics :: "nat \<Rightarrow> nat"
  size_of_inner :: "nat \<Rightarrow> nat"
  mutex :: "nat \<Rightarrow> nat option"
  apc :: "nat \<Rightarrow> acquire_pc"

definition go :: "acquire_state \<Rightarrow> nat \<Rightarrow> acquire_pc \<Rightarrow> acquire_state" where
  "go s t c = s\<lparr>apc := (apc s)(t := c)\<rparr>"

text \<open>\<open>PROCESS_CONTEXT.load\<close>; \<open>copy t\<close> is the copy of the library that thread \<open>t\<close> runs in.\<close>

definition acquire_load :: "(nat \<Rightarrow> nat) \<Rightarrow> acquire_state \<Rightarrow> nat \<Rightarrow> acquire_state" where
  "acquire_load copy s t =
     (let p = statics s (copy t) in if p = 0 then go s t ANamed else go s t (AInner p))"

definition acquire_named :: "acquire_state \<Rightarrow> nat \<Rightarrow> bool \<Rightarrow> acquire_state" where
  "acquire_named s t fails = go s t (if fails then AError else ASpin)"

text \<open>
  Under the spin lock: the first thread maps the context (\<open>anon\<close> is the kernel's answer); if that
  fails, the error is returned and the guard dropped.
\<close>

definition acquire_init :: "acquire_state \<Rightarrow> nat \<Rightarrow> nat option \<Rightarrow> acquire_state" where
  "acquire_init s t anon =
     (if inner_ptr s = 0
      then (case anon of
              None \<Rightarrow> go (s\<lparr>spin := None\<rparr>) t AError
            | Some p \<Rightarrow> go (s\<lparr>inner_ptr := p, inner_size := INNER_SIZE,
                             size_of_inner := (size_of_inner s)(p := INNER_SIZE)\<rparr>) t AStore)
      else go s t AStore)"

definition acquire_store :: "(nat \<Rightarrow> nat) \<Rightarrow> acquire_state \<Rightarrow> nat \<Rightarrow> acquire_state" where
  "acquire_store copy s t =
     go (s\<lparr>statics := (statics s)(copy t := inner_ptr s)\<rparr>) t (ARelease (inner_ptr s))"

definition acquire_release :: "acquire_state \<Rightarrow> nat \<Rightarrow> nat \<Rightarrow> acquire_state" where
  "acquire_release s t p = go (s\<lparr>spin := None\<rparr>) t (AInner p)"

text \<open>The steps; taking a lock is a step of the abstract lock, and an address from \<open>mmap\<close> is not null.\<close>

inductive acquire_step :: "(nat \<Rightarrow> nat) \<Rightarrow> acquire_state \<Rightarrow> acquire_state \<Rightarrow> bool" for copy where
  a_load: "apc s t = ALoad \<Longrightarrow> acquire_step copy s (acquire_load copy s t)"
| a_named: "apc s t = ANamed \<Longrightarrow> acquire_step copy s (acquire_named s t fails)"
| a_spin: "apc s t = ASpin \<Longrightarrow> spin s = None \<Longrightarrow> acquire_step copy s (go (s\<lparr>spin := Some t\<rparr>) t AInit)"
| a_init: "apc s t = AInit \<Longrightarrow> anon \<noteq> Some 0 \<Longrightarrow> acquire_step copy s (acquire_init s t anon)"
| a_store: "apc s t = AStore \<Longrightarrow> acquire_step copy s (acquire_store copy s t)"
| a_release: "apc s t = ARelease p \<Longrightarrow> acquire_step copy s (acquire_release s t p)"
| a_inner: "apc s t = AInner p \<Longrightarrow> mutex s p = None \<Longrightarrow>
    acquire_step copy s (go (s\<lparr>mutex := (mutex s)(p := Some t)\<rparr>) t (AGuard p))"
| a_drop: "apc s t = AGuard p \<Longrightarrow> acquire_step copy s (go (s\<lparr>mutex := (mutex s)(p := None)\<rparr>) t ALoad)"

definition acquire_start :: acquire_state where
  "acquire_start = \<lparr>inner_ptr = 0, inner_size = 0, spin = None, statics = (\<lambda>_. 0),
     size_of_inner = (\<lambda>_. 0), mutex = (\<lambda>_. None), apc = (\<lambda>_. ALoad)\<rparr>"

text \<open>
  The pointer is written once: whoever has read it, in whichever copy, has the same one, and the
  context behind it has its size.
\<close>

fun pointer_ok :: "nat \<Rightarrow> nat option \<Rightarrow> (nat \<Rightarrow> nat option) \<Rightarrow> nat \<Rightarrow> acquire_pc \<Rightarrow> bool" where
  "pointer_ok P sp mx t AInit \<longleftrightarrow> sp = Some t"
| "pointer_ok P sp mx t AStore \<longleftrightarrow> sp = Some t \<and> P \<noteq> 0"
| "pointer_ok P sp mx t (ARelease p) \<longleftrightarrow> sp = Some t \<and> p = P \<and> P \<noteq> 0"
| "pointer_ok P sp mx t (AInner p) \<longleftrightarrow> p = P \<and> P \<noteq> 0 \<and> sp \<noteq> Some t"
| "pointer_ok P sp mx t (AGuard p) \<longleftrightarrow> p = P \<and> P \<noteq> 0 \<and> sp \<noteq> Some t \<and> mx p = Some t"
| "pointer_ok P sp mx t _ \<longleftrightarrow> sp \<noteq> Some t"

definition acquire_inv :: "acquire_state \<Rightarrow> bool" where
  "acquire_inv s \<longleftrightarrow>
     (\<forall>t. pointer_ok (inner_ptr s) (spin s) (mutex s) t (apc s t))
     \<and> (\<forall>c. statics s c = 0 \<or> statics s c = inner_ptr s)
     \<and> (inner_ptr s \<noteq> 0 \<longrightarrow> size_of_inner s (inner_ptr s) = INNER_SIZE \<and> inner_size s = INNER_SIZE)"

lemma pointer_ok_other:
  assumes "pointer_ok P sp mx t c"
  shows "sp = Some u \<Longrightarrow> t \<noteq> u \<Longrightarrow> pointer_ok P None mx t c"
    and "sp = None \<Longrightarrow> t \<noteq> u \<Longrightarrow> pointer_ok P (Some u) mx t c"
    and "sp = Some u \<Longrightarrow> P = 0 \<Longrightarrow> t \<noteq> u \<Longrightarrow> pointer_ok P' sp mx t c"
    and "mx P = None \<Longrightarrow> pointer_ok P sp (mx(P := v)) t c"
    and "mx P = Some u \<Longrightarrow> t \<noteq> u \<Longrightarrow> pointer_ok P sp (mx(P := v)) t c"
  using assms by (cases c; auto)+

lemma acquire_start_inv: "acquire_inv acquire_start"
  by (simp add: acquire_inv_def acquire_start_def)

lemma acquire_step_inv: "acquire_step copy s s' \<Longrightarrow> acquire_inv s \<Longrightarrow> acquire_inv s'"
proof (induction rule: acquire_step.induct)
  case (a_load s t)
  let ?p = "statics s (copy t)"
  have "pointer_ok (inner_ptr s) (spin s) (mutex s) t ALoad" "?p = 0 \<or> ?p = inner_ptr s"
    using a_load by (metis acquire_inv_def)+
  then consider "?p = 0" "spin s \<noteq> Some t" | "?p = inner_ptr s" "inner_ptr s \<noteq> 0" "spin s \<noteq> Some t" by force
  then show ?case by cases (use a_load in \<open>auto simp: acquire_load_def acquire_inv_def go_def Let_def\<close>)
next
  case (a_named s t fails)
  have "pointer_ok (inner_ptr s) (spin s) (mutex s) t ANamed"
    using a_named by (metis acquire_inv_def)
  with a_named show ?case by (auto simp: acquire_named_def acquire_inv_def go_def)
next
  case (a_spin s t)
  then show ?case by (auto simp: acquire_inv_def go_def intro: pointer_ok_other)
next
  case (a_init s t anon)
  have sp: "spin s = Some t" using a_init by (metis acquire_inv_def pointer_ok.simps(1))
  with a_init show ?case
    by (cases anon) (auto simp: acquire_init_def acquire_inv_def go_def intro: pointer_ok_other)
next
  case (a_store s t)
  have "spin s = Some t \<and> inner_ptr s \<noteq> 0" using a_store by (metis acquire_inv_def pointer_ok.simps(2))
  with a_store show ?case by (auto simp: acquire_store_def acquire_inv_def go_def)
next
  case (a_release s t p)
  have "spin s = Some t \<and> p = inner_ptr s \<and> inner_ptr s \<noteq> 0"
    using a_release by (metis acquire_inv_def pointer_ok.simps(3))
  with a_release show ?case
    by (auto simp: acquire_release_def acquire_inv_def go_def intro: pointer_ok_other)
next
  case (a_inner s t p)
  have "p = inner_ptr s \<and> inner_ptr s \<noteq> 0 \<and> spin s \<noteq> Some t"
    using a_inner by (metis acquire_inv_def pointer_ok.simps(4))
  with a_inner show ?case
    by (auto simp: acquire_inv_def go_def intro: pointer_ok_other)
next
  case (a_drop s t p)
  have "p = inner_ptr s \<and> inner_ptr s \<noteq> 0 \<and> spin s \<noteq> Some t \<and> mutex s p = Some t"
    using a_drop by (metis acquire_inv_def pointer_ok.simps(5))
  with a_drop show ?case
    by (auto simp: acquire_inv_def go_def intro: pointer_ok_other)
qed

lemma acquire_reach_inv: "(acquire_step copy)\<^sup>*\<^sup>* acquire_start s \<Longrightarrow> acquire_inv s"
  by (induction rule: rtranclp_induct) (auto intro: acquire_start_inv acquire_step_inv)

section \<open>Properties\<close>

text \<open>
  C37. Across all copies of the library in a process, at most one thread holds a guard of the process
  context, every guard ever given out is to one and the same non-null context, and that context has been
  given its size; this holds when system calls fail and acquisitions are repeated.
\<close>

theorem process_context_exclusive:
  assumes "(acquire_step copy)\<^sup>*\<^sup>* acquire_start s" and "apc s t = AGuard p" and "apc s u = AGuard q"
  shows "t = u \<and> p = q \<and> p = inner_ptr s \<and> p \<noteq> 0 \<and> size_of_inner s p = INNER_SIZE"
proof -
  have inv: "acquire_inv s" by (rule acquire_reach_inv [OF assms(1)])
  have "p = inner_ptr s \<and> inner_ptr s \<noteq> 0 \<and> mutex s p = Some t"
    "q = inner_ptr s \<and> mutex s q = Some u"
    using inv assms(2,3) by (metis acquire_inv_def pointer_ok.simps(5))+
  with inv show ?thesis by (auto simp: acquire_inv_def)
qed

text \<open>Thread 0 of copy 0 initializes the context at \<open>4096\<close> and takes the guard.\<close>

definition example_guard :: acquire_state where
  "example_guard = acquire_start\<lparr>inner_ptr := 4096, inner_size := INNER_SIZE,
     statics := (\<lambda>_. 0)(0 := 4096), size_of_inner := (\<lambda>_. 0)(4096 := INNER_SIZE),
     mutex := (\<lambda>_. None)(4096 := Some 0), apc := (\<lambda>_. ALoad)(0 := AGuard 4096)\<rparr>"

lemma example_guard_reachable: "(acquire_step (\<lambda>_. 0))\<^sup>*\<^sup>* acquire_start example_guard"
proof -
  define a where "a = acquire_load (\<lambda>_. 0) acquire_start 0"
  define b where "b = acquire_named a 0 False"
  define c where "c = go (b\<lparr>spin := Some 0\<rparr>) 0 AInit"
  define d where "d = acquire_init c 0 (Some 4096)"
  define e where "e = acquire_store (\<lambda>_. 0) d 0"
  define f where "f = acquire_release e 0 4096"
  note defs = a_def b_def c_def d_def e_def f_def acquire_start_def acquire_load_def acquire_named_def
    acquire_init_def acquire_store_def acquire_release_def go_def Let_def
  have "(acquire_step (\<lambda>_. 0))\<^sup>*\<^sup>* acquire_start a"
    unfolding a_def by (rule r_into_rtranclp, rule a_load) (simp add: defs)
  also have "(acquire_step (\<lambda>_. 0))\<^sup>*\<^sup>* a b"
    unfolding b_def by (rule r_into_rtranclp, rule a_named) (simp add: defs)
  also have "(acquire_step (\<lambda>_. 0))\<^sup>*\<^sup>* b c"
    unfolding c_def by (rule r_into_rtranclp, rule a_spin) (simp_all add: defs)
  also have "(acquire_step (\<lambda>_. 0))\<^sup>*\<^sup>* c d"
    unfolding d_def by (rule r_into_rtranclp, rule a_init) (simp_all add: defs)
  also have "(acquire_step (\<lambda>_. 0))\<^sup>*\<^sup>* d e"
    unfolding e_def by (rule r_into_rtranclp, rule a_store) (simp add: defs)
  also have "(acquire_step (\<lambda>_. 0))\<^sup>*\<^sup>* e f"
    unfolding f_def by (rule r_into_rtranclp, rule a_release) (simp add: defs)
  also have "(acquire_step (\<lambda>_. 0))\<^sup>*\<^sup>* f (go (f\<lparr>mutex := (mutex f)(4096 := Some 0)\<rparr>) 0 (AGuard 4096))"
    by (rule r_into_rtranclp, rule a_inner) (simp_all add: defs)
  also have "go (f\<lparr>mutex := (mutex f)(4096 := Some 0)\<rparr>) 0 (AGuard 4096) = example_guard"
    by (simp add: defs example_guard_def)
  finally show ?thesis .
qed

theorem process_context_exclusive_witness: "inner_ptr example_guard = 4096"
proof -
  have "apc example_guard 0 = AGuard 4096" by (simp add: example_guard_def)
  from process_context_exclusive [OF example_guard_reachable this this] show ?thesis by simp
qed

end
