(* ===== verification/Bytes.thy ===== *)
theory Bytes
  imports Prelude
begin

text \<open>
  Byte sequences and byte-addressed memory: little-endian encodings of fixed-width integers
  (\<open>to_le_bytes\<close>, \<open>from_le_bytes\<close>), and reads and writes of a range of bytes. The theories on
  machine code are stated over these.
\<close>

type_synonym byte = "8 word"
type_synonym memory = "nat \<Rightarrow> byte"

named_theorems byte_rules \<open>facts on little-endian encodings\<close>

section \<open>Little-endian integers\<close>

fun le_bytes :: "nat \<Rightarrow> int \<Rightarrow> byte list" where
  "le_bytes 0 x = []"
| "le_bytes (Suc n) x = word_of_int x # le_bytes n (x div 256)"

fun from_le :: "byte list \<Rightarrow> int" where
  "from_le [] = 0"
| "from_le (b # bs) = uint b + 256 * from_le bs"

text \<open>The two's complement reading of an unsigned value of \<open>n\<close> bytes.\<close>

definition as_signed :: "nat \<Rightarrow> int \<Rightarrow> int" where
  "as_signed n u = (if 2 * u < 256 ^ n then u else u - 256 ^ n)"

definition i32_from_le :: "byte list \<Rightarrow> int" where
  "i32_from_le bs = as_signed 4 (from_le bs)"

lemma length_le_bytes [simp]: "length (le_bytes n x) = n"
  by (induction n arbitrary: x) auto

lemma uint_byte [simp]: "uint (word_of_int x :: byte) = x mod 256"
  by (simp add: uint_word_of_int)

lemma byte_bounds: "0 \<le> uint (b :: byte)" "uint (b :: byte) < 256"
  using uint_lt2p [of b] by auto

lemma byte_eq_iff: "word_of_int x = b \<longleftrightarrow> x mod 256 = uint (b :: byte)"
  by (metis uint_byte word_of_int_uint)

lemma from_le_bounds: "0 \<le> from_le bs \<and> from_le bs < 256 ^ length bs"
proof (induction bs)
  case (Cons b bs)
  then show ?case using byte_bounds [of b] by simp
qed simp

lemma from_le_append: "from_le (xs @ ys) = from_le xs + 256 ^ length xs * from_le ys"
  by (induction xs) (simp_all add: algebra_simps)

lemma from_le_bytes [byte_rules]: "from_le (le_bytes n x) = x mod 256 ^ n"
proof (induction n arbitrary: x)
  case (Suc n)
  have "x mod (256 * 256 ^ n) = 256 * (x div 256 mod 256 ^ n) + x mod 256"
    by (rule zmod_zmult2_eq) simp
  then show ?case by (simp add: Suc)
qed simp

lemma le_bytes_from [byte_rules]: "length bs = n \<Longrightarrow> le_bytes n (from_le bs) = bs"
proof (induction bs arbitrary: n)
  case (Cons b bs)
  have "(uint b + 256 * from_le bs) div 256 = from_le bs"
    using byte_bounds [of b] by simp
  moreover have "word_of_int (uint b + 256 * from_le bs) = b"
    unfolding byte_eq_iff using byte_bounds [of b] by simp
  ultimately show ?case using Cons by auto
qed simp

lemma digit_eq: "0 \<le> a \<Longrightarrow> a < 256 \<Longrightarrow> 0 \<le> b \<Longrightarrow> b < 256 \<Longrightarrow>
    (a = b \<and> p = q) \<longleftrightarrow> 256 * p + a = b + 256 * (q :: int)"
proof
  assume b: "0 \<le> a" "a < 256" "0 \<le> b" "b < 256" and eq: "256 * p + a = b + 256 * q"
  have "(256 * p + a) div 256 = p" "(b + 256 * q) div 256 = q" using b by simp_all
  with eq show "a = b \<and> p = q" by simp
qed simp

lemma le_bytes_eq_iff: "length bs = n \<Longrightarrow> le_bytes n x = bs \<longleftrightarrow> x mod 256 ^ n = from_le bs"
proof (induction bs arbitrary: n x)
  case (Cons b bs)
  then obtain m where n: "n = Suc m" "length bs = m" by auto
  have m: "x mod (256 * 256 ^ m) = 256 * (x div 256 mod 256 ^ m) + x mod 256"
    by (rule zmod_zmult2_eq) simp
  have "x mod 256 = uint b \<and> x div 256 mod 256 ^ m = from_le bs \<longleftrightarrow>
      256 * (x div 256 mod 256 ^ m) + x mod 256 = uint b + 256 * from_le bs"
    using byte_bounds [of b] by (intro digit_eq) auto
  with Cons.IH [OF n(2), of "x div 256"] m show ?case by (simp add: n byte_eq_iff)
qed simp

lemma drop_le_bytes: "drop k (le_bytes n x) = le_bytes (n - k) (x div 256 ^ k)"
proof (induction k arbitrary: n x)
  case (Suc k)
  then show ?case by (cases n) (simp_all add: zdiv_zmult2_eq)
qed simp

lemma as_signed_bounds: "0 \<le> u \<Longrightarrow> u < 256 ^ n \<Longrightarrow> - (256 ^ n) \<le> 2 * as_signed n u \<and> 2 * as_signed n u < 256 ^ n"
  by (auto simp: as_signed_def)

lemma as_signed_mod: "0 \<le> u \<Longrightarrow> u < 256 ^ n \<Longrightarrow> as_signed n u mod 256 ^ n = u"
  by (auto simp: as_signed_def mod_pos_pos_trivial minus_mod_self2)

lemma as_signed_of_mod: "- (256 ^ n) \<le> 2 * x \<Longrightarrow> 2 * x < 256 ^ n \<Longrightarrow> as_signed n (x mod 256 ^ n) = x"
proof (cases "0 \<le> x")
  case True
  moreover assume "2 * x < 256 ^ n"
  ultimately show ?thesis by (simp add: as_signed_def mod_pos_pos_trivial)
next
  case False
  assume b: "- (256 ^ n) \<le> 2 * x"
  have "(x + 256 ^ n) mod 256 ^ n = x + 256 ^ n" using False b by (intro mod_pos_pos_trivial) auto
  then have "x mod 256 ^ n = x + 256 ^ n" by simp
  with False b show ?thesis by (simp add: as_signed_def)
qed

lemma i32_round_trip [byte_rules]:
  "i32_min \<le> d \<Longrightarrow> d \<le> i32_max \<Longrightarrow> i32_from_le (le_bytes 4 d) = d"
  using as_signed_of_mod [of 4 d] by (simp add: i32_from_le_def from_le_bytes usize_defs)

lemma le_bytes_4: "le_bytes 4 x = [word_of_int x, word_of_int (x div 256),
    word_of_int (x div 256 div 256), word_of_int (x div 256 div 256 div 256)]"
  by (simp add: numeral_eq_Suc)

section \<open>Memory\<close>

definition read_bytes :: "memory \<Rightarrow> nat \<Rightarrow> nat \<Rightarrow> byte list" where
  "read_bytes m a n = map (\<lambda>i. m (a + i)) [0..<n]"

definition write_bytes :: "nat \<Rightarrow> byte list \<Rightarrow> memory \<Rightarrow> memory" where
  "write_bytes a bs m = (\<lambda>x. if a \<le> x \<and> x < a + length bs then bs ! (x - a) else m x)"

lemma length_read_bytes [simp]: "length (read_bytes m a n) = n"
  by (simp add: read_bytes_def)

lemma nth_read_bytes [simp]: "i < n \<Longrightarrow> read_bytes m a n ! i = m (a + i)"
  by (simp add: read_bytes_def)

lemma read_write_same: "length bs = n \<Longrightarrow> read_bytes (write_bytes a bs m) a n = bs"
  by (rule nth_equalityI) (auto simp: write_bytes_def)

lemma write_bytes_outside: "\<not> (a \<le> x \<and> x < a + length bs) \<Longrightarrow> write_bytes a bs m x = m x"
  by (auto simp: write_bytes_def)

lemma read_write_apart:
  "a + length bs \<le> b \<or> b + n \<le> a \<Longrightarrow> read_bytes (write_bytes a bs m) b n = read_bytes m b n"
  by (rule nth_equalityI) (auto simp: write_bytes_def)

lemma read_bytes_cong: "(\<And>a. p \<le> a \<Longrightarrow> a < p + n \<Longrightarrow> m a = m' a) \<Longrightarrow> read_bytes m p n = read_bytes m' p n"
  by (rule nth_equalityI) auto

lemma read_bytes_take: "k \<le> n \<Longrightarrow> take k (read_bytes m a n) = read_bytes m a k"
  by (rule nth_equalityI) auto

lemma read_bytes_drop: "drop k (read_bytes m a n) = read_bytes m (a + k) (n - k)"
  by (rule nth_equalityI) (auto simp: add.assoc)

lemma read_bytes_append: "read_bytes m a (k + n) = read_bytes m a k @ read_bytes m (a + k) n"
  by (rule nth_equalityI) (auto simp: nth_append)

lemma write_read_same: "write_bytes a (read_bytes m a n) m = m"
  by (rule ext) (auto simp: write_bytes_def)

text \<open>Reading and replacing the bytes at an offset in a structure.\<close>

definition put_at :: "nat \<Rightarrow> byte list \<Rightarrow> byte list \<Rightarrow> byte list" where
  "put_at off new bs = take off bs @ new @ drop (off + length new) bs"

definition get_at :: "nat \<Rightarrow> nat \<Rightarrow> byte list \<Rightarrow> nat" where
  "get_at off n bs = nat (from_le (take n (drop off bs)))"

lemma length_put_at [simp]: "off + length new \<le> length bs \<Longrightarrow> length (put_at off new bs) = length bs"
  by (simp add: put_at_def)

lemma get_put_same: "off + length new \<le> length bs \<Longrightarrow> n = length new \<Longrightarrow> get_at off n (put_at off new bs) = nat (from_le new)"
  by (simp add: get_at_def put_at_def)

lemma get_put_other:
  assumes "off + length new \<le> length bs" and "o' + n \<le> off \<or> off + length new \<le> o'"
  shows "get_at o' n (put_at off new bs) = get_at o' n bs"
proof (cases "o' + n \<le> off")
  case True
  then show ?thesis using assms(1) by (simp add: get_at_def put_at_def take_drop min_def)
next
  case False
  with assms show ?thesis by (simp add: get_at_def put_at_def)
qed

end
