(* ===== verification/Jmp_Encoding.thy ===== *)
theory Jmp_Encoding
  imports Bytes
begin

text \<open>
  The machine code the installer writes (\<open>installer/arch/x86_64.rs\<close>, \<open>hook_site.rs\<close>,
  \<open>intrinsics.rs\<close>): the relative jump placed on a hooked function, the thunk it leads to, the
  range of thunks a jump can reach while keeping the bytes after the first instruction, and the
  atomic compare-and-exchange that puts the jump in place. What the two jumps do is the meaning
  the processor gives their encodings.
\<close>

section \<open>Displacements\<close>

definition as_isize :: "nat \<Rightarrow> int" where
  "as_isize n = (if int n \<le> isize_max then int n else int n - 2 ^ 64)"

text \<open>A panic if the difference leaves \<open>isize\<close> or \<open>i32\<close>.\<close>

definition disp32_between :: "nat \<Rightarrow> nat \<Rightarrow> int option" where
  "disp32_between ip target =
     (let d = as_isize target - as_isize ip
      in if isize_min \<le> d \<and> d \<le> isize_max \<and> i32_min \<le> d \<and> d \<le> i32_max then Some d else None)"

text \<open>An inclusive range of offsets, \<open>start\<close> and \<open>last\<close>.\<close>

definition disp32_range :: "nat \<Rightarrow> int \<times> int" where
  "disp32_range insn_len = (i32_min + int insn_len, i32_max + int insn_len)"

section \<open>Instructions\<close>

record jmp_rel =
  jr_opcode :: byte
  jr_disp :: int

record jmp_abs =
  ja_opcode :: byte
  ja_modrm :: byte
  ja_disp :: int

record thunk =
  th_jmp_abs :: jmp_abs
  th_ud2 :: "byte list"
  th_ptr :: nat

definition JMP_REL_LEN :: nat where "JMP_REL_LEN = 5"
definition JMP_ABS_LEN :: nat where "JMP_ABS_LEN = 6"
definition MAX_INSN_LEN :: nat where "MAX_INSN_LEN = 15"
definition DISASM_LEN :: nat where "DISASM_LEN = JMP_REL_LEN - 1 + MAX_INSN_LEN"
definition JMP_REL_RANGE :: "int \<times> int" where "JMP_REL_RANGE = disp32_range JMP_REL_LEN"

definition jmp_rel_new :: "int \<Rightarrow> jmp_rel" where
  "jmp_rel_new disp = \<lparr>jr_opcode = 0xe9, jr_disp = disp\<rparr>"

definition jmp_rel_encode :: "nat \<Rightarrow> nat \<Rightarrow> jmp_rel option" where
  "jmp_rel_encode ip target = do {
     next_ip \<leftarrow> checked_add ip JMP_REL_LEN;
     disp \<leftarrow> disp32_between next_ip target;
     Some (jmp_rel_new disp)
   }"

definition jmp_rel_bytes :: "jmp_rel \<Rightarrow> byte list" where
  "jmp_rel_bytes j = jr_opcode j # le_bytes 4 (jr_disp j)"

definition jmp_abs_new :: "int \<Rightarrow> jmp_abs" where
  "jmp_abs_new disp = \<lparr>ja_opcode = 0xff, ja_modrm = 0x25, ja_disp = disp\<rparr>"

definition jmp_abs_bytes :: "jmp_abs \<Rightarrow> byte list" where
  "jmp_abs_bytes j = ja_opcode j # ja_modrm j # le_bytes 4 (ja_disp j)"

text \<open>The thunk: \<open>repr(C)\<close> puts the jump at offset 0 and the pointer at offset 8, after the \<open>ud2\<close>.\<close>

definition THUNK_LAYOUT :: layout where "THUNK_LAYOUT = \<lparr>layout_size = 16, layout_align = 8\<rparr>"
definition THUNK_PTR :: nat where "THUNK_PTR = 8"

definition thunk_new :: "nat \<Rightarrow> thunk" where
  "thunk_new ptr = \<lparr>th_jmp_abs = jmp_abs_new (int THUNK_PTR - int JMP_ABS_LEN), th_ud2 = [0x0f, 0x0b],
     th_ptr = ptr\<rparr>"

definition thunk_bytes :: "thunk \<Rightarrow> byte list" where
  "thunk_bytes t = jmp_abs_bytes (th_jmp_abs t) @ th_ud2 t @ le_bytes 8 (int (th_ptr t))"

text \<open>
  The offsets of a jump that, placed over an instruction of \<open>len\<close> bytes, repeats the bytes after
  it: the displacement bytes that would fall there are fixed to what is there.
\<close>

definition fix_bytes :: "byte list \<Rightarrow> nat \<Rightarrow> byte list \<Rightarrow> byte list" where
  "fix_bytes bytes len disp = foldl (\<lambda>d i. d[i - 1 := bytes ! i]) disp [len..<JMP_REL_LEN]"

definition short_encoding_range :: "byte list \<Rightarrow> nat \<Rightarrow> (int \<times> int) option" where
  "short_encoding_range bytes len =
     (if len = 0 then None
      else Some (i32_from_le (fix_bytes bytes len (le_bytes 4 i32_min)) + int JMP_REL_LEN,
                 i32_from_le (fix_bytes bytes len (le_bytes 4 i32_max)) + int JMP_REL_LEN))"

section \<open>Putting the jump in place\<close>

text \<open>\<open>lock cmpxchg\<close> on eight bytes: the result and the memory after.\<close>

definition unaligned_cmpxchg :: "int \<Rightarrow> int \<Rightarrow> nat \<Rightarrow> memory \<Rightarrow> bool \<times> memory" where
  "unaligned_cmpxchg new old dst m =
     (if from_le (read_bytes m dst 8) = old then (True, write_bytes dst (le_bytes 8 new) m) else (False, m))"

text \<open>
  On Windows the function is protected by an exception handler: if the exchange faults, because not all
  eight bytes are \<open>writable\<close>, it answers false.
\<close>

definition win_unaligned_cmpxchg :: "(nat \<Rightarrow> bool) \<Rightarrow> int \<Rightarrow> int \<Rightarrow> nat \<Rightarrow> memory \<Rightarrow> bool \<times> memory" where
  "win_unaligned_cmpxchg writable new old dst m =
     (if list_all writable [dst..<dst + 8] then unaligned_cmpxchg new old dst m else (False, m))"

definition detour :: "byte list \<Rightarrow> nat \<Rightarrow> jmp_rel \<Rightarrow> memory \<Rightarrow> bool \<times> memory" where
  "detour bytes target jmp m =
     (let old = take 8 bytes;
          new = jmp_rel_bytes jmp @ drop (length (jmp_rel_bytes jmp)) old
      in unaligned_cmpxchg (from_le new) (from_le old) target m)"

section \<open>What the processor does\<close>

text \<open>
  The target of the instruction at \<open>ip\<close> if it is one of the two jumps: \<open>E9\<close> adds a 32-bit
  displacement to the address of the next instruction, \<open>FF /4\<close> with a \<open>rip\<close>-relative operand
  loads the target from memory.
\<close>

definition jump_target :: "memory \<Rightarrow> nat \<Rightarrow> nat option" where
  "jump_target m ip =
     (if m ip = 0xe9 then Some (nat (int ip + 5 + i32_from_le (read_bytes m (ip + 1) 4)))
      else if m ip = 0xff \<and> m (ip + 1) = 0x25
      then Some (nat (from_le (read_bytes m (nat (int ip + 6 + i32_from_le (read_bytes m (ip + 2) 4))) 8)))
      else None)"

lemma length_jmp_rel_bytes [simp]: "length (jmp_rel_bytes j) = 5"
  by (simp add: jmp_rel_bytes_def)

lemma length_thunk_bytes [simp]: "length (thunk_bytes (thunk_new p)) = 16"
  by (simp add: thunk_bytes_def thunk_new_def jmp_abs_bytes_def)

lemma disp32_between_Some:
  "disp32_between ip target = Some d \<Longrightarrow> int ip \<le> isize_max \<Longrightarrow> int target \<le> isize_max \<Longrightarrow>
    d = int target - int ip \<and> i32_min \<le> d \<and> d \<le> i32_max"
  by (auto simp: disp32_between_def as_isize_def Let_def split: if_splits)

lemma disp32_between_in_range:
  "int ip \<le> isize_max \<Longrightarrow> int target \<le> isize_max \<Longrightarrow> i32_min \<le> int target - int ip \<Longrightarrow> int target - int ip \<le> i32_max \<Longrightarrow>
    disp32_between ip target = Some (int target - int ip)"
  by (auto simp: disp32_between_def as_isize_def Let_def usize_defs)

text \<open>The exchange succeeds exactly when the bytes are still those that were read.\<close>

lemma from_le_inject: "length xs = length ys \<Longrightarrow> from_le xs = from_le ys \<longleftrightarrow> xs = ys"
  by (metis le_bytes_from)

lemma detour_cases:
  assumes "8 \<le> length bytes"
  shows "detour bytes target jmp m =
    (if read_bytes m target 8 = take 8 bytes
     then (True, write_bytes target (jmp_rel_bytes jmp) m) else (False, m))"
proof (cases "read_bytes m target 8 = take 8 bytes")
  case True
  let ?new = "jmp_rel_bytes jmp @ drop 5 (take 8 bytes)"
  have "length ?new = 8" using assms by simp
  then have "le_bytes 8 (from_le ?new) = ?new" by (rule le_bytes_from)
  moreover have "write_bytes target ?new m = write_bytes target (jmp_rel_bytes jmp) m"
  proof
    fix x
    have "bytes ! (x - target) = m x" if "target \<le> x" "x < target + 8"
    proof -
      have "take 8 bytes ! (x - target) = m x" using True that by (metis add_diff_inverse_nat
          le_add_diff_inverse nat_add_left_cancel_less not_le nth_read_bytes)
      then show ?thesis using that by simp
    qed
    then show "write_bytes target ?new m x = write_bytes target (jmp_rel_bytes jmp) m x"
      using assms by (auto simp: write_bytes_def nth_append)
  qed
  ultimately show ?thesis using True by (simp add: detour_def unaligned_cmpxchg_def)
next
  case False
  then have "from_le (read_bytes m target 8) \<noteq> from_le (take 8 bytes)"
    using assms from_le_inject [of "read_bytes m target 8" "take 8 bytes"] by simp
  with False show ?thesis by (simp add: detour_def unaligned_cmpxchg_def)
qed

text \<open>Either way the memory changes only if the answer is true, and then only these eight bytes.\<close>

theorem win_cmpxchg_changes:
  "win_unaligned_cmpxchg writable new old dst m =
    (if (\<forall>a. dst \<le> a \<and> a < dst + 8 \<longrightarrow> writable a) \<and> from_le (read_bytes m dst 8) = old
     then (True, write_bytes dst (le_bytes 8 new) m) else (False, m))"
  by (auto simp: win_unaligned_cmpxchg_def unaligned_cmpxchg_def list_all_iff)

text \<open>A jump read back from the memory it was written to.\<close>

lemma jmp_rel_lands:
  assumes "read_bytes m ip 5 = jmp_rel_bytes (jmp_rel_new d)" and "i32_min \<le> d" and "d \<le> i32_max"
  shows "jump_target m ip = Some (nat (int ip + 5 + d))"
proof -
  have "m ip = 0xe9" using arg_cong [OF assms(1), of "\<lambda>bs. bs ! 0"] by (simp add: jmp_rel_bytes_def jmp_rel_new_def)
  moreover have "read_bytes m (ip + 1) 4 = le_bytes 4 d"
    using arg_cong [OF assms(1), of "drop 1"] by (simp add: read_bytes_drop jmp_rel_bytes_def jmp_rel_new_def)
  ultimately show ?thesis using i32_round_trip [OF assms(2,3)] by (simp add: jump_target_def)
qed

lemma le_bytes_4_2: "le_bytes 4 2 = [2, 0, 0, 0]"
  by (simp add: le_bytes_4)

lemma thunk_bytes_new: "thunk_bytes (thunk_new p) = [0xff, 0x25, 2, 0, 0, 0, 0x0f, 0x0b] @ le_bytes 8 (int p)"
  by (simp add: thunk_bytes_def thunk_new_def jmp_abs_bytes_def jmp_abs_new_def THUNK_PTR_def JMP_ABS_LEN_def le_bytes_4_2)

lemma thunk_lands:
  assumes "read_bytes m a 16 = thunk_bytes (thunk_new p)" and "p < usize_size"
  shows "jump_target m a = Some p"
proof -
  let ?b = "thunk_bytes (thunk_new p)"
  note bs = thunk_bytes_new [of p]
  have "m a = 0xff" using arg_cong [OF assms(1), of "\<lambda>bs. bs ! 0"] bs by simp
  moreover have "m (a + 1) = 0x25" using arg_cong [OF assms(1), of "\<lambda>bs. bs ! 1"] bs by simp
  moreover have "read_bytes m (a + 2) 4 = [2, 0, 0, 0]"
    using arg_cong [OF assms(1), of "\<lambda>bs. take 4 (drop 2 bs)"] bs
    by (simp add: read_bytes_drop read_bytes_take)
  moreover have "read_bytes m (a + 8) 8 = le_bytes 8 (int p)"
    using arg_cong [OF assms(1), of "drop 8"] bs by (simp add: read_bytes_drop)
  moreover have "nat (from_le (le_bytes 8 (int p))) = p"
    using assms(2) by (simp add: from_le_bytes usize_defs)
  moreover have "nat (8 + int a) = a + 8" by simp
  ultimately show ?thesis
    by (simp add: jump_target_def i32_from_le_def as_signed_def)
qed

section \<open>The range of a short encoding\<close>

lemma fix_bytes_nth:
  fixes bs d :: "byte list"
  assumes "0 < a" and "a + n \<le> length d + 1"
  shows "length (foldl (\<lambda>d i. d[i - 1 := bs ! i]) d [a..<a + n]) = length d"
    and "j < length d \<Longrightarrow> foldl (\<lambda>d i. d[i - 1 := bs ! i]) d [a..<a + n] ! j
      = (if a \<le> j + 1 \<and> j + 1 < a + n then bs ! (j + 1) else d ! j)"
proof -
  have "length (foldl (\<lambda>d i. d[i - 1 := bs ! i]) d [a..<a + n]) = length d
    \<and> (j < length d \<longrightarrow> foldl (\<lambda>d i. d[i - 1 := bs ! i]) d [a..<a + n] ! j
      = (if a \<le> j + 1 \<and> j + 1 < a + n then bs ! (j + 1) else d ! j))"
    using assms(2)
  proof (induction n)
    case (Suc n)
    with assms(1) show ?case by (auto simp: nth_list_update)
  qed auto
  then show "length (foldl (\<lambda>d i. d[i - 1 := bs ! i]) d [a..<a + n]) = length d"
    and "j < length d \<Longrightarrow> foldl (\<lambda>d i. d[i - 1 := bs ! i]) d [a..<a + n] ! j
      = (if a \<le> j + 1 \<and> j + 1 < a + n then bs ! (j + 1) else d ! j)" by auto
qed

lemma fix_bytes_eq:
  assumes "0 < len" and "len \<le> 5" and "5 \<le> length bytes" and "length disp = 4"
  shows "fix_bytes bytes len disp = take (len - 1) disp @ drop len (take 5 bytes)"
proof -
  have eq: "[len..<JMP_REL_LEN] = [len..<len + (5 - len)]" using assms(2) by (simp add: JMP_REL_LEN_def)
  note f = fix_bytes_nth [where a = len and n = "5 - len" and d = disp and bs = bytes, folded eq, folded fix_bytes_def]
  show ?thesis
  proof (rule nth_equalityI)
    show "length (fix_bytes bytes len disp) = length (take (len - 1) disp @ drop len (take 5 bytes))"
      using f(1) assms by auto
    fix j assume "j < length (fix_bytes bytes len disp)"
    then have j: "j < 4" using f(1) assms by simp
    show "fix_bytes bytes len disp ! j = (take (len - 1) disp @ drop len (take 5 bytes)) ! j"
      using f(2) [of j] assms j by (auto simp: nth_append)
  qed
qed

lemma fix_bytes_long: "5 \<le> len \<Longrightarrow> fix_bytes bytes len disp = disp"
  by (simp add: fix_bytes_def JMP_REL_LEN_def)

text \<open>
  The offsets whose upper bytes are fixed form an interval: \<open>d\<close> is in it exactly when the bytes of
  \<open>d\<close> from the \<open>k\<close>-th on are the given ones.
\<close>

lemma block_iff:
  fixes b h d y :: int
  assumes b: "0 < b" and y: "0 \<le> y" "y < 2 * h" and d: "- (b * h) \<le> d" "d < b * h"
  defines "Y \<equiv> if y < h then y else y - 2 * h"
  shows "b * Y \<le> d \<and> d \<le> b * Y + (b - 1) \<longleftrightarrow> d div b mod (2 * h) = y"
proof -
  define q r where "q = d div b" and "r = d mod b"
  have dq: "d = b * q + r" "0 \<le> r" "r < b" using b by (simp_all add: q_def r_def)
  have q: "- h \<le> q" "q < h"
  proof -
    show "- h \<le> q"
    proof (rule ccontr)
      assume "\<not> - h \<le> q"
      then have "b * (q + 1) \<le> b * (- h)" using b by (intro mult_left_mono) auto
      with dq d(1) show False by (simp add: algebra_simps)
    qed
    show "q < h"
    proof (rule ccontr)
      assume "\<not> q < h"
      then have "b * h \<le> b * q" using b by (intro mult_left_mono) auto
      with dq d(2) show False by simp
    qed
  qed
  have "q mod (2 * h) = y \<longleftrightarrow> q = Y"
  proof (cases "0 \<le> q")
    case True
    then have "q mod (2 * h) = q" using q by simp
    then show ?thesis using True q y by (auto simp: Y_def)
  next
    case False
    have "(q + 2 * h) mod (2 * h) = q + 2 * h" using False q by (intro mod_pos_pos_trivial) auto
    then have "q mod (2 * h) = q + 2 * h" by simp
    then show ?thesis using False q y by (auto simp: Y_def)
  qed
  moreover have "b * Y \<le> d \<and> d \<le> b * Y + (b - 1) \<longleftrightarrow> q = Y"
  proof
    assume "b * Y \<le> d \<and> d \<le> b * Y + (b - 1)"
    then have "b * Y < b * (q + 1)" "b * q < b * (Y + 1)" using dq by (auto simp: algebra_simps)
    then have "Y < q + 1" "q < Y + 1" using b by (simp_all only: mult_less_cancel_left_pos)
    then show "q = Y" by simp
  qed (use dq in auto)
  ultimately show ?thesis by (simp add: q_def)
qed

lemma signed_block:
  fixes d y :: int
  assumes k: "k < 4" and y: "0 \<le> y" "y < 256 ^ (4 - k)" and d: "- (256 ^ 4) \<le> 2 * d" "2 * d < 256 ^ 4"
  shows "as_signed 4 (256 ^ k * y) \<le> d \<and> d \<le> as_signed 4 (256 ^ k * y + (256 ^ k - 1))
    \<longleftrightarrow> d div 256 ^ k mod 256 ^ (4 - k) = y"
proof -
  define b h :: int where "b = 256 ^ k" and "h = 128 * 256 ^ (3 - k)"
  have b: "0 < b" by (simp add: b_def)
  have t: "256 ^ (4 - k) = 2 * h" using k by (cases k rule: nat.exhaust) (auto simp: h_def Suc_diff_le less_Suc_eq_le Suc_diff_Suc numeral_eq_Suc)
  have "b * 256 ^ (4 - k) = 256 ^ 4" using k by (simp add: b_def flip: power_add)
  then have half: "256 ^ 4 = 2 * (b * h)" unfolding t by (simp add: algebra_simps)
  have m: "2 * (b * y) < 2 * (b * h) \<longleftrightarrow> y < h" using b by simp
  have m': "2 * (b * y + (b - 1)) < 2 * (b * h) \<longleftrightarrow> y < h"
  proof -
    have "y < h \<longleftrightarrow> b * (y + 1) \<le> b * h" using b by auto
    then show ?thesis by (auto simp: algebra_simps)
  qed
  have "as_signed 4 (b * y) = b * (if y < h then y else y - 2 * h)"
    by (simp only: as_signed_def half m) (simp add: algebra_simps)
  moreover have "as_signed 4 (b * y + (b - 1)) = b * (if y < h then y else y - 2 * h) + (b - 1)"
    by (simp only: as_signed_def half m') (simp add: algebra_simps)
  ultimately show ?thesis
    using block_iff [of b y h d] b y d unfolding t half b_def [symmetric] by auto
qed

lemma short_encoding_long: "5 \<le> len \<Longrightarrow> short_encoding_range bytes len = Some JMP_REL_RANGE"
  using i32_round_trip [of i32_min] i32_round_trip [of i32_max]
  by (simp add: short_encoding_range_def fix_bytes_long JMP_REL_RANGE_def disp32_range_def usize_defs)

lemma from_le_block:
  assumes "length lo = k"
  shows "from_le (lo @ ys) = from_le lo + 256 ^ k * from_le ys"
  using assms by (simp add: from_le_append)

lemma take_min_max:
  assumes "k < 4"
  shows "from_le (take k (le_bytes 4 i32_min)) = 0" and "from_le (take k (le_bytes 4 i32_max)) = 256 ^ k - 1"
proof -
  have "le_bytes 4 i32_min = [0, 0, 0, 0x80]" "le_bytes 4 i32_max = [0xff, 0xff, 0xff, 0x7f]"
    by (simp_all add: le_bytes_4 usize_defs)
  moreover have "k = 0 \<or> k = 1 \<or> k = 2 \<or> k = 3" using assms by arith
  ultimately show "from_le (take k (le_bytes 4 i32_min)) = 0"
    and "from_le (take k (le_bytes 4 i32_max)) = 256 ^ k - 1" by auto
qed

lemma short_encoding_iff:
  assumes len: "0 < len" "5 \<le> length bytes" and d: "i32_min \<le> d" "d \<le> i32_max"
    and r: "short_encoding_range bytes len = Some (start, stop)"
  shows "start \<le> d + 5 \<and> d + 5 \<le> stop \<longleftrightarrow>
    drop len (jmp_rel_bytes (jmp_rel_new d)) = drop len (take 5 bytes)"
proof (cases "5 \<le> len")
  case True
  then have "start = i32_min + 5 \<and> stop = i32_max + 5"
    using r short_encoding_long [OF True, of bytes] by (simp add: JMP_REL_RANGE_def disp32_range_def JMP_REL_LEN_def)
  with True d show ?thesis by simp
next
  case False
  define k where "k = len - 1"
  let ?y = "drop len (take 5 bytes)"
  have k: "k < 4" "len = Suc k" "length ?y = 4 - k" using False len by (simp_all add: k_def)
  have fix_eq: "fix_bytes bytes len disp = take k disp @ ?y" if "length disp = 4" for disp
    unfolding k_def using fix_bytes_eq [of len bytes disp] that False len by simp
  have lo: "length (take k (le_bytes 4 x)) = k" for x using k(1) by simp
  have bounds: "start = as_signed 4 (256 ^ k * from_le ?y) + 5"
    "stop = as_signed 4 (256 ^ k * from_le ?y + (256 ^ k - 1)) + 5"
    using r len(1) unfolding short_encoding_range_def fix_eq [OF length_le_bytes] i32_from_le_def
      from_le_block [OF lo] take_min_max [OF k(1)]
    by (simp_all add: JMP_REL_LEN_def add.commute)
  have y: "0 \<le> from_le ?y" "from_le ?y < 256 ^ (4 - k)" using from_le_bounds [of ?y] unfolding k(3) by blast+
  have "- (256 ^ 4) \<le> 2 * d" "2 * d < 256 ^ 4" using d by (simp_all add: usize_defs)
  note sb = signed_block [OF k(1) y this]
  have "start \<le> d + 5 \<and> d + 5 \<le> stop \<longleftrightarrow> d div 256 ^ k mod 256 ^ (4 - k) = from_le ?y"
    unfolding bounds add_le_cancel_right by (rule sb)
  also have "\<dots> \<longleftrightarrow> le_bytes (4 - k) (d div 256 ^ k) = ?y"
    using k(3) by (rule le_bytes_eq_iff [symmetric])
  also have "le_bytes (4 - k) (d div 256 ^ k) = drop len (jmp_rel_bytes (jmp_rel_new d))"
    using k(2) by (simp add: jmp_rel_bytes_def jmp_rel_new_def drop_le_bytes)
  finally show ?thesis .
qed

section \<open>Properties\<close>

text \<open>
  C9. The short encoding range is exact: among all 32-bit jumps, those at an offset in the range are
  precisely the ones whose encoding repeats the bytes that follow the first instruction.
\<close>

theorem short_encoding_range_exact:
  assumes "0 < len" and "length bytes = DISASM_LEN" and "i32_min \<le> d" and "d \<le> i32_max"
  shows "\<exists>start stop. short_encoding_range bytes len = Some (start, stop)
    \<and> (start \<le> d + int JMP_REL_LEN \<and> d + int JMP_REL_LEN \<le> stop \<longleftrightarrow>
       drop len (jmp_rel_bytes (jmp_rel_new d)) = drop len (take JMP_REL_LEN bytes))"
proof -
  obtain start stop where r: "short_encoding_range bytes len = Some (start, stop)"
    using assms(1) by (auto simp: short_encoding_range_def)
  have "5 \<le> length bytes" using assms(2) by (simp add: DISASM_LEN_def JMP_REL_LEN_def MAX_INSN_LEN_def)
  from short_encoding_iff [OF assms(1) this assms(3,4) r] r show ?thesis by (simp add: JMP_REL_LEN_def)
qed

definition example_bytes :: "byte list" where
  "example_bytes = [0x55, 0x53, 0x48, 0x83, 0xec, 0x30] @ replicate 13 0x90"

theorem short_encoding_range_exact_witness:
  "\<exists>start stop. short_encoding_range example_bytes 2 = Some (start, stop)
    \<and> start \<le> -326940513 \<and> -326940513 \<le> stop"
proof -
  have "drop 2 (jmp_rel_bytes (jmp_rel_new (-326940518))) = drop 2 (take JMP_REL_LEN example_bytes)"
    by (simp add: jmp_rel_bytes_def jmp_rel_new_def JMP_REL_LEN_def example_bytes_def le_bytes_4)
  moreover have "length example_bytes = DISASM_LEN"
    by (simp add: example_bytes_def DISASM_LEN_def JMP_REL_LEN_def MAX_INSN_LEN_def)
  ultimately show ?thesis
    using short_encoding_range_exact [of 2 example_bytes "-326940518"]
    by (auto simp: usize_defs JMP_REL_LEN_def)
qed

lemma detour_writes:
  assumes "length bytes = DISASM_LEN" and "detour bytes target j m = (True, m')"
  shows "read_bytes m target 8 = take 8 bytes" and "m' = write_bytes target (jmp_rel_bytes j) m"
proof -
  have "8 \<le> length bytes" using assms(1) by (simp add: DISASM_LEN_def JMP_REL_LEN_def MAX_INSN_LEN_def)
  from detour_cases [OF this, of target j m] assms(2)
  show "read_bytes m target 8 = take 8 bytes" and "m' = write_bytes target (jmp_rel_bytes j) m"
    by (auto split: if_splits)
qed

lemma jmp_rel_encode_Some:
  assumes "jmp_rel_encode target thunk = Some j" and "int target + 5 \<le> isize_max" and "int thunk \<le> isize_max"
  shows "j = jmp_rel_new (int thunk - (int target + 5))"
    and "i32_min \<le> int thunk - (int target + 5)" and "int thunk - (int target + 5) \<le> i32_max"
proof -
  have "checked_add target JMP_REL_LEN = Some (target + 5)"
    using assms(2) by (simp add: checked_add_def JMP_REL_LEN_def usize_defs)
  then obtain d where d: "disp32_between (target + 5) thunk = Some d" "j = jmp_rel_new d"
    using assms(1) by (auto simp: jmp_rel_encode_def bind_eq_Some_conv)
  have "int (target + 5) \<le> isize_max" using assms(2) by simp
  from disp32_between_Some [OF d(1) this assms(3)]
  have "d = int thunk - (int target + 5)" "i32_min \<le> d" "d \<le> i32_max" by simp_all
  with d(2) show "j = jmp_rel_new (int thunk - (int target + 5))"
    and "i32_min \<le> int thunk - (int target + 5)" and "int thunk - (int target + 5) \<le> i32_max"
    by simp_all
qed

text \<open>
  C8. After a successful detour, execution of the hooked function reaches the pointer in the thunk: the
  jump at the target leads to the thunk and the thunk's jump to the pointer; only the five bytes of the
  jump have changed.
\<close>

theorem detour_lands:
  assumes "length bytes = DISASM_LEN" and "jmp_rel_encode target thunk = Some j"
    and "int target + 5 \<le> isize_max" and "int thunk \<le> isize_max"
    and "read_bytes m thunk 16 = thunk_bytes (thunk_new p)" and "p < usize_size"
    and "thunk + 16 \<le> target \<or> target + 5 \<le> thunk"
    and "detour bytes target j m = (True, m')"
  shows "jump_target m' target = Some thunk \<and> jump_target m' thunk = Some p
    \<and> (\<forall>x. x < target \<or> target + 5 \<le> x \<longrightarrow> m' x = m x)"
proof -
  note w = detour_writes(2) [OF assms(1,8)]
  note e = jmp_rel_encode_Some [OF assms(2,3,4)]
  have "read_bytes m' target 5 = jmp_rel_bytes (jmp_rel_new (int thunk - (int target + 5)))"
    unfolding w e(1) by (rule read_write_same) simp
  from jmp_rel_lands [OF this e(2,3)] have "jump_target m' target = Some thunk" by simp
  moreover have "read_bytes m' thunk 16 = read_bytes m thunk 16"
    unfolding w using assms(7) by (intro read_write_apart) auto
  then have "jump_target m' thunk = Some p" using assms(5,6) by (intro thunk_lands) simp_all
  moreover have "m' x = m x" if "x < target \<or> target + 5 \<le> x" for x
    unfolding w using that by (intro write_bytes_outside) auto
  ultimately show ?thesis by blast
qed

text \<open>
  A detour through a thunk in the short encoding range rewrites no byte past the first instruction,
  so an instruction pointer anywhere else in the function stays valid; a detour that fails changes nothing.
\<close>

theorem short_detour_keeps_rest:
  assumes "length bytes = DISASM_LEN" and "jmp_rel_encode target thunk = Some j"
    and "int target + 5 \<le> isize_max" and "int thunk \<le> isize_max"
    and "short_encoding_range bytes len = Some (start, stop)"
    and "start \<le> int thunk - int target" and "int thunk - int target \<le> stop"
    and "detour bytes target j m = (done, m')"
  shows "if done then (\<forall>x. x < target \<or> target + len \<le> x \<longrightarrow> m' x = m x) else m' = m"
proof (cases "done")
  case False
  have "8 \<le> length bytes" using assms(1) by (simp add: DISASM_LEN_def JMP_REL_LEN_def MAX_INSN_LEN_def)
  from detour_cases [OF this, of target j m] False assms(8) show ?thesis by (auto split: if_splits)
next
  case True
  with assms(8) have dt: "detour bytes target j m = (True, m')" by simp
  note w = detour_writes [OF assms(1) dt]
  note e = jmp_rel_encode_Some [OF assms(2,3,4)]
  have len: "0 < len" "5 \<le> length bytes"
    using assms(1,5) by (auto simp: short_encoding_range_def DISASM_LEN_def JMP_REL_LEN_def MAX_INSN_LEN_def split: if_splits)
  have same: "drop len (jmp_rel_bytes j) = drop len (take 5 bytes)"
    using short_encoding_iff [OF len e(2,3) assms(5)] assms(6,7) unfolding e(1) by auto
  have "m' x = m x" if x: "target + len \<le> x" "x < target + 5" for x
  proof -
    have "m' x = jmp_rel_bytes j ! (x - target)" using x by (simp add: w(2) write_bytes_def)
    also have "\<dots> = drop len (jmp_rel_bytes j) ! (x - target - len)" using x by simp
    also have "\<dots> = take 8 bytes ! (x - target)" unfolding same using x len by simp
    also have "\<dots> = m x" unfolding w(1) [symmetric] using x by simp
    finally show ?thesis .
  qed
  moreover have "m' x = m x" if "x < target \<or> target + 5 \<le> x" for x
    unfolding w(2) using that by (intro write_bytes_outside) auto
  ultimately show ?thesis using True by (metis not_le)
qed

text \<open>A function at 4096, its thunk at 16384 with a pointer to 65536.\<close>

definition example_memory :: memory where
  "example_memory = write_bytes 4096 example_bytes (write_bytes 16384 (thunk_bytes (thunk_new 65536)) (\<lambda>_. 0))"

lemma length_example_bytes: "length example_bytes = DISASM_LEN"
  by (simp add: example_bytes_def DISASM_LEN_def JMP_REL_LEN_def MAX_INSN_LEN_def)

lemma example_memory_thunk: "read_bytes example_memory 16384 16 = thunk_bytes (thunk_new 65536)"
proof -
  have "read_bytes example_memory 16384 16 = read_bytes (write_bytes 16384 (thunk_bytes (thunk_new 65536)) (\<lambda>_. 0)) 16384 16"
    unfolding example_memory_def by (rule read_write_apart) (simp add: example_bytes_def)
  then show ?thesis by (simp add: read_write_same)
qed

lemma example_memory_code: "read_bytes example_memory 4096 8 = take 8 example_bytes"
proof -
  have "read_bytes example_memory 4096 19 = example_bytes"
    unfolding example_memory_def by (rule read_write_same) (simp add: example_bytes_def)
  then show ?thesis using read_bytes_take [of 8 19 example_memory 4096] by simp
qed

lemma example_encode: "jmp_rel_encode 4096 16384 = Some (jmp_rel_new 12283)"
  by (simp add: jmp_rel_encode_def checked_add_def JMP_REL_LEN_def disp32_between_def as_isize_def usize_defs)

lemma example_detour: "detour example_bytes 4096 (jmp_rel_new 12283) example_memory
    = (True, write_bytes 4096 (jmp_rel_bytes (jmp_rel_new 12283)) example_memory)"
  using detour_cases [of example_bytes 4096] example_memory_code by (simp add: example_bytes_def)

theorem detour_lands_witness:
  "jump_target (write_bytes 4096 (jmp_rel_bytes (jmp_rel_new 12283)) example_memory) 4096 = Some 16384"
proof -
  have "int 4096 + 5 \<le> isize_max" "int 16384 \<le> isize_max" "(65536::nat) < usize_size"
      "(16384::nat) + 16 \<le> 4096 \<or> 4096 + 5 \<le> (16384::nat)"
    by (simp_all add: usize_defs)
  from detour_lands [OF length_example_bytes example_encode this(1,2) example_memory_thunk this(3,4) example_detour]
  show ?thesis by blast
qed

theorem short_detour_keeps_rest_witness:
  "write_bytes 4096 (jmp_rel_bytes (jmp_rel_new 12283)) example_memory 4101 = example_memory 4101"
proof -
  have b: "int 4096 + 5 \<le> isize_max" "int 16384 \<le> isize_max" by (simp_all add: usize_defs)
  have r: "short_encoding_range example_bytes 5 = Some (i32_min + 5, i32_max + 5)"
    using short_encoding_long [of 5 example_bytes] by (simp add: JMP_REL_RANGE_def disp32_range_def JMP_REL_LEN_def)
  have "i32_min + 5 \<le> int 16384 - int 4096" "int 16384 - int 4096 \<le> i32_max + 5" by (simp_all add: usize_defs)
  from short_detour_keeps_rest [OF length_example_bytes example_encode b r this example_detour]
  show ?thesis by simp
qed

end
