(* ===== verification/Linux_Maps.thy ===== *)
theory Linux_Maps
  imports Prelude
begin

text \<open>
  The view of the address space on Linux (\<open>installer/arch/os/linux.rs\<close>): parsing
  \<open>/proc/self/maps\<close>, memory protections, the limits of the address space, and the iterator over
  mapped and unmapped regions from a given address. The text of the file and the answers of the
  kernel are arguments.
\<close>

section \<open>Errors and protections\<close>

datatype io_error = InvalidInput | InvalidData | OutOfMemory | Os nat

type_synonym prot = "32 word"

definition PROT_READ :: prot where "PROT_READ = 1"
definition PROT_WRITE :: prot where "PROT_WRITE = 2"
definition PROT_EXEC :: prot where "PROT_EXEC = 4"
definition RWX :: prot where "RWX = PROT_READ OR PROT_WRITE OR PROT_EXEC"

record region_info =
  ri_start :: nat
  ri_end :: nat
  ri_prot :: prot

record region =
  rg_ptr :: nat
  rg_len :: nat
  rg_prot :: "prot option"

text \<open>The permission field, read up to its end.\<close>

definition read_prot :: "char \<Rightarrow> prot \<Rightarrow> prot \<times> string \<Rightarrow> prot \<times> string" where
  "read_prot c flag st = (case st of (out, s) \<Rightarrow>
     (case s of [] \<Rightarrow> (out, []) | b # s' \<Rightarrow> (if b = c then out OR flag else out, s')))"

definition prot_from_str :: "string \<Rightarrow> prot" where
  "prot_from_str s = fst (read_prot (CHR ''x'') PROT_EXEC
     (read_prot (CHR ''w'') PROT_WRITE (read_prot (CHR ''r'') PROT_READ (0, s))))"

definition try_into_rwx_from_rx :: "prot \<Rightarrow> prot option" where
  "try_into_rwx_from_rx p = (if p AND PROT_EXEC \<noteq> 0 then Some (p OR PROT_WRITE) else None)"

section \<open>Parsing a line\<close>

text \<open>\<open>str::split_once\<close> with a character.\<close>

fun split_once :: "char \<Rightarrow> string \<Rightarrow> (string \<times> string) option" where
  "split_once c [] = None"
| "split_once c (d # s) =
     (if d = c then Some ([], s) else map_option (\<lambda>(a, b). (d # a, b)) (split_once c s))"

text \<open>\<open>usize::from_str_radix\<close>: an optional plus sign, at least one digit, no overflow.\<close>

definition digit_value :: "nat \<Rightarrow> char \<Rightarrow> nat option" where
  "digit_value radix c =
     (let n = of_char c :: nat;
          v = (if 48 \<le> n \<and> n \<le> 57 then n - 48
               else if 97 \<le> n \<and> n \<le> 122 then n - 87
               else if 65 \<le> n \<and> n \<le> 90 then n - 55 else radix)
      in if v < radix then Some v else None)"

fun parse_digits :: "nat \<Rightarrow> nat \<Rightarrow> string \<Rightarrow> nat option" where
  "parse_digits radix acc [] = Some acc"
| "parse_digits radix acc (c # s) = do {
     v \<leftarrow> digit_value radix c;
     (if acc * radix + v < usize_size then parse_digits radix (acc * radix + v) s else None)
   }"

definition from_str_radix :: "nat \<Rightarrow> string \<Rightarrow> nat option" where
  "from_str_radix radix s =
     (case s of
        [] \<Rightarrow> None
      | c # t \<Rightarrow> (if c = CHR ''+'' then (if t = [] then None else parse_digits radix 0 t)
                  else parse_digits radix 0 s))"

definition region_info_from_str :: "string \<Rightarrow> region_info option" where
  "region_info_from_str s = do {
     (start, s) \<leftarrow> split_once (CHR ''-'') s;
     (end, s) \<leftarrow> split_once (CHR '' '') s;
     (prot, _) \<leftarrow> split_once (CHR '' '') s;
     start \<leftarrow> from_str_radix 16 start;
     end \<leftarrow> from_str_radix 16 end;
     Some \<lparr>ri_start = start, ri_end = end, ri_prot = prot_from_str prot\<rparr>
   }"

text \<open>
  The iterator over the file: each item is parsed from the rest of the text, which then continues
  after the next newline. \<open>None\<close> is the error for a malformed line.
\<close>

definition after_newline :: "string \<Rightarrow> string" where
  "after_newline s = (case split_once (CHR 0x0A) s of Some (_, t) \<Rightarrow> t | None \<Rightarrow> [])"

lemma split_once_length: "split_once c s = Some (a, b) \<Longrightarrow> length b < length s"
  by (induction s arbitrary: a) (auto split: if_splits)

lemma after_newline_length: "s \<noteq> [] \<Longrightarrow> length (after_newline s) < length s"
  by (auto simp: after_newline_def split: option.split dest: split_once_length)

function proc_pid_maps :: "string \<Rightarrow> region_info option list" where
  "proc_pid_maps s = (if s = [] then [] else region_info_from_str s # proc_pid_maps (after_newline s))"
  by pat_completeness auto
termination
  by (relation "measure length") (auto simp: after_newline_length)

declare proc_pid_maps.simps [simp del]

text \<open>\<open>Protection::of\<close>: the first region that contains the address, or the first malformed line.\<close>

fun find_prot :: "region_info option list \<Rightarrow> nat \<Rightarrow> io_error + prot" where
  "find_prot [] addr = Inl InvalidInput"
| "find_prot (None # rs) addr = Inl InvalidData"
| "find_prot (Some r # rs) addr =
     (if ri_start r \<le> addr \<and> addr < ri_end r then Inr (ri_prot r) else find_prot rs addr)"

definition protection_of :: "string \<Rightarrow> nat \<Rightarrow> io_error + prot" where
  "protection_of maps addr = find_prot (proc_pid_maps maps) addr"

section \<open>The limits of the address space\<close>

record sys_info =
  alloc_granularity :: nat
  min_address :: nat
  max_address :: nat

text \<open>\<open>SysInfo::new\<close>; \<open>None\<close> is its failed assertion.\<close>

definition is_multiple_of :: "nat \<Rightarrow> nat \<Rightarrow> bool" where
  "is_multiple_of a b \<longleftrightarrow> (if b = 0 then a = 0 else a mod b = 0)"

definition sys_info_new :: "nat \<Rightarrow> nat \<Rightarrow> nat \<Rightarrow> nat \<Rightarrow> sys_info option" where
  "sys_info_new page_size gran mn mx =
     (if is_power_of_two page_size \<and> is_multiple_of gran page_size \<and> mn < mx
         \<and> is_multiple_of mn gran \<and> is_multiple_of mx gran
      then Some \<lparr>alloc_granularity = gran, min_address = mn, max_address = mx\<rparr> else None)"

fun trim_end :: "string \<Rightarrow> string" where
  "trim_end [] = []"
| "trim_end (c # s) = (if trim_end s = [] \<and> c \<in> {CHR '' '', CHR 0x0A, CHR 0x0D, CHR 0x09} then [] else c # trim_end s)"

text \<open>\<open>file\<close> is \<open>/proc/sys/vm/mmap_min_addr\<close> if it can be read.\<close>

definition mmap_min_addr :: "nat \<Rightarrow> string option \<Rightarrow> nat option" where
  "mmap_min_addr page_size file =
     (let fallback = 64 * 1024;
          min_addr = (case file of
              Some str \<Rightarrow> (case from_str_radix 10 (trim_end str) of Some n \<Rightarrow> n | None \<Rightarrow> fallback)
            | None \<Rightarrow> fallback)
      in next_multiple_of (max min_addr page_size) page_size)"

definition VA_MAX :: nat where "VA_MAX = 9223372036854775807"

text \<open>\<open>rlimit\<close> is \<open>RLIMIT_AS\<close>, \<open>None\<close> for \<open>RLIM_INFINITY\<close>.\<close>

definition sys_info_get :: "nat \<Rightarrow> string option \<Rightarrow> nat option \<Rightarrow> sys_info option" where
  "sys_info_get page_size file rlimit = do {
     mn \<leftarrow> mmap_min_addr page_size file;
     let mx = VA_MAX - page_size + 1;
     let mx = (case rlimit of None \<Rightarrow> mx | Some l \<Rightarrow> min (align_down l page_size) mx);
     sys_info_new page_size page_size mn mx
   }"

section \<open>Iterating over the regions\<close>

text \<open>
  \<open>partition_point\<close> with a closure that changes a variable: the predicate threads a state through
  the comparisons, in the order the standard library makes them (see \<open>bs_loop\<close>).
\<close>

function bs_loop_mut :: "('a \<Rightarrow> 's \<Rightarrow> bool \<times> 's) \<Rightarrow> 'a list \<Rightarrow> nat \<Rightarrow> nat \<Rightarrow> 's \<Rightarrow> nat \<times> 's" where
  "bs_loop_mut f xs sz base st =
     (if sz \<le> 1 then (base, st)
      else let half = sz div 2; mid = base + half
           in case f (xs ! mid) st of (p, st') \<Rightarrow>
                bs_loop_mut f xs (sz - half) (if p then mid else base) st')"
  by pat_completeness auto
termination
  by (relation "measure (\<lambda>(f, xs, sz, base, st). sz)") auto

declare bs_loop_mut.simps [simp del]

definition partition_point_mut :: "('a \<Rightarrow> 's \<Rightarrow> bool \<times> 's) \<Rightarrow> 'a list \<Rightarrow> 's \<Rightarrow> nat \<times> 's" where
  "partition_point_mut f xs st =
     (if xs = [] then (0, st)
      else case bs_loop_mut f xs (length xs) 0 st of (base, st1) \<Rightarrow>
             (case f (xs ! base) st1 of (p, st2) \<Rightarrow> (if p then base + 1 else base, st2)))"

text \<open>The state of the iterator: the regions left, the lowest last, and the end of the previous one.\<close>

definition region_of :: "nat \<Rightarrow> nat \<Rightarrow> prot option \<Rightarrow> region" where
  "region_of start end p = \<lparr>rg_ptr = start, rg_len = end - start, rg_prot = p\<rparr>"

definition region_next :: "nat \<Rightarrow> region_info list \<times> nat \<Rightarrow> (region \<times> region_info list \<times> nat) option" where
  "region_next mx st = (case st of (regions, prev_end) \<Rightarrow>
     if regions \<noteq> [] then
       let next = last regions in
       if prev_end < ri_start next
       then Some (region_of prev_end (ri_start next) None, regions, ri_start next)
       else Some (region_of (ri_start next) (ri_end next) (Some (ri_prot next)), butlast regions, ri_end next)
     else if prev_end < mx then Some (region_of prev_end mx None, [], mx)
     else None)"

definition iter_measure :: "nat \<Rightarrow> region_info list \<times> nat \<Rightarrow> nat" where
  "iter_measure mx st = (case st of (regions, prev_end) \<Rightarrow>
     2 * length regions + (if regions \<noteq> [] then (if prev_end < ri_start (last regions) then 1 else 0)
                           else if prev_end < mx then 1 else 0))"

text \<open>
  Everything the iterator yields; a mapped region is followed by at most one unmapped one, so
  it ends.
\<close>

lemma region_next_measure:
  "region_next mx st = Some (r, st') \<Longrightarrow> length (fst st') < length (fst st)
    \<or> fst st' = fst st \<and> iter_measure mx st' < iter_measure mx st"
  by (cases st) (auto simp: region_next_def iter_measure_def Let_def split: if_splits)

function region_list :: "nat \<Rightarrow> region_info list \<times> nat \<Rightarrow> region list" where
  "region_list mx st = (case region_next mx st of None \<Rightarrow> [] | Some (r, st') \<Rightarrow> r # region_list mx st')"
  by pat_completeness auto
termination
proof (relation "measures [\<lambda>(mx, st). length (fst st), \<lambda>(mx, st). iter_measure mx st]")
  show "wf (measures [\<lambda>(mx, st). length (fst st), \<lambda>(mx, st). iter_measure mx st])" by simp
next
  fix mx st x r st'
  assume "region_next mx st = Some x" "(r, st') = x"
  then have n: "region_next mx st = Some (r, st')" by simp
  from region_next_measure [OF n]
  show "((mx, st'), mx, st) \<in> measures [\<lambda>(mx, st). length (fst st), \<lambda>(mx, st). iter_measure mx st]"
    by auto
qed

declare region_list.simps [simp del]

fun collect :: "'a option list \<Rightarrow> 'a list option" where
  "collect [] = Some []"
| "collect (None # xs) = None"
| "collect (Some x # xs) = map_option (Cons x) (collect xs)"

definition drop_before :: "nat \<Rightarrow> region_info \<Rightarrow> nat \<Rightarrow> bool \<times> nat" where
  "drop_before start r prev_end = (if ri_end r \<le> start then (False, ri_end r) else (True, prev_end))"

definition region_iter :: "sys_info \<Rightarrow> string \<Rightarrow> nat \<Rightarrow> io_error + region list" where
  "region_iter info maps start =
     (case collect (takeWhile (\<lambda>r. case r of Some r \<Rightarrow> ri_start r < max_address info | None \<Rightarrow> True) (proc_pid_maps maps)) of
        None \<Rightarrow> Inl InvalidData
      | Some rs \<Rightarrow>
          let regions = rev (sort_key ri_start rs);
              (index, prev_end) = partition_point_mut (drop_before start) regions (min_address info)
          in Inr (region_list (max_address info) (take index regions, prev_end)))"


section \<open>The partition point with a side effect\<close>

text \<open>
  The closure records the end of each region it rejects. Whatever order the search compares in,
  the last rejected element it looks at is the one at the partition point, so that is what is
  recorded in the end.
\<close>

definition recording :: "('a \<Rightarrow> bool) \<Rightarrow> ('a \<Rightarrow> 's) \<Rightarrow> 'a \<Rightarrow> 's \<Rightarrow> bool \<times> 's" where
  "recording q g x st = (if q x then (True, st) else (False, g x))"

definition recorded :: "('a \<Rightarrow> bool) \<Rightarrow> ('a \<Rightarrow> 's) \<Rightarrow> 'a list \<Rightarrow> 's \<Rightarrow> nat \<Rightarrow> 's \<Rightarrow> bool" where
  "recorded q g xs st0 stop st \<longleftrightarrow> stop = length xs \<and> st = st0
     \<or> (\<exists>w. w < length xs \<and> \<not> q (xs ! w) \<and> st = g (xs ! w) \<and> (stop = w \<or> stop = w + 1))"

lemma recording_simps [simp]:
  "q x \<Longrightarrow> recording q g x st = (True, st)" "\<not> q x \<Longrightarrow> recording q g x st = (False, g x)"
  by (simp_all add: recording_def)

lemma bs_loop_mut_loop:
  assumes part: "partitioned q xs"
  shows "0 < sz \<Longrightarrow> base + sz \<le> length xs \<Longrightarrow> (\<forall>i < base. q (xs ! i)) \<Longrightarrow>
    (0 < base \<longrightarrow> q (xs ! base)) \<Longrightarrow> recorded q g xs st0 (base + sz) st \<Longrightarrow>
    (case bs_loop_mut (recording q g) xs sz base st of (r, st') \<Rightarrow>
      r = bs_loop (\<lambda>x. if q x then Less else Greater) xs sz base \<and> r < length xs
      \<and> (\<forall>i < r. q (xs ! i)) \<and> recorded q g xs st0 (r + 1) st')"
proof (induction sz arbitrary: base st rule: less_induct)
  case (less sz)
  show ?case
  proof (cases "sz = 1")
    case True
    with less.prems show ?thesis by (simp add: bs_loop_mut.simps bs_loop.simps)
  next
    case False
    define half mid where "half = sz div 2" and "mid = base + half"
    from False less.prems(1) have h: "0 < half" "half < sz" "sz - half = half \<or> sz - half = half + 1"
      by (auto simp: half_def)
    have mid: "mid < length xs" using h less.prems(2) by (simp add: mid_def)
    have sz: "\<not> sz \<le> 1" using False less.prems(1) by simp
    show ?thesis
    proof (cases "q (xs ! mid)")
      case True
      have lo: "\<forall>i < mid. q (xs ! i)" using True part mid by (auto simp: partitioned_def)
      have "mid + (sz - half) = base + sz" using h by (simp add: mid_def)
      with less.IH [of "sz - half" mid st] less.prems lo h True mid show ?thesis
        by (subst bs_loop_mut.simps, subst bs_loop.simps)
          (simp add: sz Let_def half_def [symmetric] mid_def [symmetric])
    next
      case rej: False
      have "recorded q g xs st0 (base + (sz - half)) (g (xs ! mid))"
        unfolding recorded_def using rej mid h(3) by (intro disjI2 exI [of _ mid]) (auto simp: mid_def)
      with less.IH [of "sz - half" base "g (xs ! mid)"] less.prems h rej show ?thesis
        by (subst bs_loop_mut.simps, subst bs_loop.simps)
          (simp add: sz Let_def half_def [symmetric] mid_def [symmetric])
    qed
  qed
qed

lemma partition_point_mut_eq:
  assumes part: "partitioned q xs"
  shows "partition_point_mut (recording q g) xs st0 =
    (partition_point q xs, if partition_point q xs < length xs then g (xs ! partition_point q xs) else st0)"
proof (cases "xs = []")
  case True
  then show ?thesis by (simp add: partition_point_mut_def partition_point_def binary_search_by_def)
next
  case False
  obtain r st where l: "bs_loop_mut (recording q g) xs (length xs) 0 st0 = (r, st)" by force
  have "recorded q g xs st0 (length xs) st0" by (simp add: recorded_def)
  with bs_loop_mut_loop [OF part, of "length xs" 0 g st0 st0, unfolded l prod.case] False
  have r: "r = bs_loop (\<lambda>x. if q x then Less else Greater) xs (length xs) 0" "r < length xs"
      "\<forall>i < r. q (xs ! i)" "recorded q g xs st0 (r + 1) st"
    by auto
  have pp: "partition_point q xs = (if q (xs ! r) then r + 1 else r)"
    using False r(1) by (simp add: partition_point_def binary_search_by_def Let_def)
  have "st = (if r + 1 < length xs then g (xs ! (r + 1)) else st0)" if "q (xs ! r)"
    using r(2,4) that by (auto simp: recorded_def)
  with l False pp r(2) show ?thesis
    by (cases "q (xs ! r)") (simp_all add: partition_point_mut_def)
qed

lemma drop_before_recording: "drop_before start = recording (\<lambda>r. \<not> ri_end r \<le> start) ri_end"
  by (intro ext) (simp add: drop_before_def recording_def)

section \<open>The regions tile the address space\<close>

fun tiles :: "nat \<Rightarrow> nat \<Rightarrow> region_info list \<Rightarrow> region list" where
  "tiles mx prev [] = (if prev < mx then [region_of prev mx None] else [])"
| "tiles mx prev (r # rs) =
     (if prev < ri_start r then [region_of prev (ri_start r) None] else [])
     @ region_of (ri_start r) (ri_end r) (Some (ri_prot r)) # tiles mx (ri_end r) rs"

lemma region_list_tiles: "region_list mx (rev rs, prev) = tiles mx prev rs"
proof (induction rs arbitrary: prev)
  case Nil
  show ?case by (simp add: region_list.simps [of mx "([], prev)"] region_list.simps [of mx "([], mx)"] region_next_def)
next
  case (Cons r rs)
  let ?regs = "rev (r # rs)"
  have at: "region_list mx (?regs, p) = region_of (ri_start r) (ri_end r) (Some (ri_prot r)) # tiles mx (ri_end r) rs"
    if "\<not> p < ri_start r" for p
    using that Cons.IH by (subst region_list.simps) (simp add: region_next_def Let_def butlast_append)
  show ?case
  proof (cases "prev < ri_start r")
    case True
    then have "region_list mx (?regs, prev) = region_of prev (ri_start r) None # region_list mx (?regs, ri_start r)"
      by (subst region_list.simps) (simp add: region_next_def Let_def)
    with at [of "ri_start r"] True show ?thesis by simp
  qed (use at in simp)
qed

definition covers :: "region \<Rightarrow> nat \<Rightarrow> bool" where
  "covers r a \<longleftrightarrow> rg_ptr r \<le> a \<and> a < rg_ptr r + rg_len r"

definition maps_at :: "region_info list \<Rightarrow> nat \<Rightarrow> region_info option" where
  "maps_at rs a = find (\<lambda>r. ri_start r \<le> a \<and> a < ri_end r) rs"

text \<open>Regions of \<open>/proc/self/maps\<close> in address order.\<close>

definition maps_sorted :: "region_info list \<Rightarrow> bool" where
  "maps_sorted rs \<longleftrightarrow> sorted_wrt (\<lambda>r r'. ri_end r \<le> ri_start r') rs \<and> (\<forall>r \<in> set rs. ri_start r < ri_end r)"

lemma covers_region_of: "s \<le> e \<Longrightarrow> covers (region_of s e p) a \<longleftrightarrow> s \<le> a \<and> a < e"
  by (auto simp: covers_def region_of_def)

lemma maps_sorted_Cons: "maps_sorted (r # rs) \<longleftrightarrow>
    maps_sorted rs \<and> ri_start r < ri_end r \<and> (\<forall>r' \<in> set rs. ri_end r \<le> ri_start r')"
  by (auto simp: maps_sorted_def)

lemma maps_at_None: "\<forall>r \<in> set rs. a < ri_start r \<Longrightarrow> maps_at rs a = None"
  by (auto simp: maps_at_def find_None_iff)

lemma tiles_correct:
  "maps_sorted rs \<Longrightarrow> (\<forall>r \<in> set rs. prev \<le> ri_start r) \<or> (\<exists>r rs'. rs = r # rs' \<and> prev \<le> ri_end r) \<Longrightarrow>
    (\<forall>t \<in> set (tiles mx prev rs). (\<forall>a. covers t a \<longrightarrow> rg_prot t = map_option ri_prot (maps_at rs a))
      \<and> (prev \<le> rg_ptr t \<or> (\<exists>r rs'. rs = r # rs' \<and> rg_ptr t = ri_start r)))
    \<and> sorted_wrt (\<lambda>t t'. rg_ptr t + rg_len t \<le> rg_ptr t') (tiles mx prev rs)
    \<and> (\<forall>a. prev \<le> a \<and> a < mx \<longrightarrow> (\<exists>t \<in> set (tiles mx prev rs). covers t a))"
proof (induction rs arbitrary: prev)
  case Nil
  then show ?case by (auto simp: covers_region_of maps_at_def) (auto simp: region_of_def)
next
  case (Cons r rs)
  from Cons.prems(1) have r: "maps_sorted rs" "ri_start r < ri_end r" "\<forall>r' \<in> set rs. ri_end r \<le> ri_start r'"
    by (simp_all add: maps_sorted_Cons)
  from Cons.prems(2) have prev: "prev \<le> ri_end r" using r(2) by auto
  note ih = Cons.IH [of "ri_end r", OF r(1) disjI1 [OF r(3)]]
  let ?T = "tiles mx (ri_end r) rs"
  have low: "ri_end r \<le> rg_ptr t" if "t \<in> set ?T" for t
  proof -
    have "ri_end r \<le> rg_ptr t \<or> (\<exists>r' rs'. rs = r' # rs' \<and> rg_ptr t = ri_start r')" using bspec [OF ih [THEN conjunct1] that] by (rule conjunct2)
    then show ?thesis
    proof (elim disjE exE conjE)
      fix r' rs' assume "rs = r' # rs'" "rg_ptr t = ri_start r'"
      with r(3) show ?thesis by simp
    qed
  qed
  have later: "rg_prot t = map_option ri_prot (maps_at (r # rs) a)" if t: "t \<in> set ?T" "covers t a" for t a
  proof -
    have "ri_end r \<le> a" using low [OF t(1)] t(2) by (simp add: covers_def)
    then have "maps_at (r # rs) a = maps_at rs a" by (simp add: maps_at_def)
    then show ?thesis using bspec [OF ih [THEN conjunct1] t(1)] t(2) by simp
  qed
  have here: "maps_at (r # rs) a = Some r" if "ri_start r \<le> a" "a < ri_end r" for a
    using that by (simp add: maps_at_def)
  have gap: "maps_at (r # rs) a = None" if "a < ri_start r" for a
    using that r by (intro maps_at_None) (auto intro: less_le_trans)
  have sorted: "sorted_wrt (\<lambda>t t'. rg_ptr t + rg_len t \<le> rg_ptr t') ?T" using ih [THEN conjunct2] by (rule conjunct1)
  have cov: "\<exists>t \<in> set (tiles mx prev (r # rs)). covers t a" if a: "prev \<le> a" "a < mx" for a
  proof -
    consider "a < ri_start r" | "ri_start r \<le> a" "a < ri_end r" | "ri_end r \<le> a" by linarith
    then show ?thesis
    proof cases
      case 3
      with ih [THEN conjunct2, THEN conjunct2] a(2) obtain t where "t \<in> set ?T" "covers t a" by blast
      then show ?thesis by auto
    qed (use a r(2) in \<open>auto simp: covers_region_of\<close>)
  qed
  show ?case
  proof (intro conjI)
    show "sorted_wrt (\<lambda>t t'. rg_ptr t + rg_len t \<le> rg_ptr t') (tiles mx prev (r # rs))"
      using sorted low r(2) by (fastforce simp: region_of_def)
    show "\<forall>a. prev \<le> a \<and> a < mx \<longrightarrow> (\<exists>t \<in> set (tiles mx prev (r # rs)). covers t a)" using cov by blast
    show "\<forall>t \<in> set (tiles mx prev (r # rs)).
        (\<forall>a. covers t a \<longrightarrow> rg_prot t = map_option ri_prot (maps_at (r # rs) a))
        \<and> (prev \<le> rg_ptr t \<or> (\<exists>r' rs'. r # rs = r' # rs' \<and> rg_ptr t = ri_start r'))"
    proof
      fix t assume "t \<in> set (tiles mx prev (r # rs))"
      then consider (free) "t = region_of prev (ri_start r) None" "prev < ri_start r"
        | (map) "t = region_of (ri_start r) (ri_end r) (Some (ri_prot r))" | (rest) "t \<in> set ?T"
        by (auto split: if_splits)
      then show "(\<forall>a. covers t a \<longrightarrow> rg_prot t = map_option ri_prot (maps_at (r # rs) a))
          \<and> (prev \<le> rg_ptr t \<or> (\<exists>r' rs'. r # rs = r' # rs' \<and> rg_ptr t = ri_start r'))"
      proof cases
        case free
        then show ?thesis using gap by (auto simp: covers_region_of) (auto simp: region_of_def)
      next
        case map
        then show ?thesis using here r(2) by (auto simp: covers_region_of) (auto simp: region_of_def)
      next
        case rest
        then show ?thesis using later low prev by (meson le_trans)
      qed
    qed
  qed
qed

section \<open>Printing a line\<close>

text \<open>A line as the kernel prints it: lower-case hexadecimal numbers, padded with zeros.\<close>

definition hex_char :: "nat \<Rightarrow> char" where
  "hex_char v = char_of (if v < 10 then 48 + v else 87 + v)"

fun to_hex :: "nat \<Rightarrow> string" where
  "to_hex n = (if n < 16 then [hex_char n] else to_hex (n div 16) @ [hex_char (n mod 16)])"

declare to_hex.simps [simp del]

definition perm_char :: "prot \<Rightarrow> prot \<Rightarrow> char \<Rightarrow> char" where
  "perm_char p flag c = (if p AND flag \<noteq> 0 then c else CHR ''-'')"

definition print_region :: "nat \<Rightarrow> nat \<Rightarrow> region_info \<Rightarrow> string \<Rightarrow> string" where
  "print_region k j r rest = replicate k (CHR ''0'') @ to_hex (ri_start r) @ ''-''
     @ replicate j (CHR ''0'') @ to_hex (ri_end r) @ '' ''
     @ [perm_char (ri_prot r) PROT_READ (CHR ''r''), perm_char (ri_prot r) PROT_WRITE (CHR ''w''),
        perm_char (ri_prot r) PROT_EXEC (CHR ''x''), CHR ''p''] @ '' '' @ rest"

lemma of_hex_char: "v < 16 \<Longrightarrow> (of_char (hex_char v) :: nat) = (if v < 10 then 48 + v else 87 + v)"
  by (simp add: hex_char_def)

lemma digit_value_hex: "v < 16 \<Longrightarrow> digit_value 16 (hex_char v) = Some v"
  by (auto simp: digit_value_def of_hex_char Let_def)

lemma hex_char_0: "hex_char 0 = CHR ''0''"
  by (simp add: hex_char_def char_of_eq_iff)

lemma hex_char_plain: "v < 16 \<Longrightarrow> hex_char v \<noteq> CHR ''-'' \<and> hex_char v \<noteq> CHR '' '' \<and> hex_char v \<noteq> CHR ''+'' \<and> hex_char v \<noteq> CHR 0x0A"
proof -
  assume v: "v < 16"
  have "(of_char (hex_char v) :: nat) \<ge> 48" using of_hex_char [OF v] by simp
  then show ?thesis by auto
qed

lemma to_hex_chars: "c \<in> set (to_hex n) \<Longrightarrow> \<exists>v < 16. c = hex_char v"
proof (induction n rule: to_hex.induct)
  case (1 n)
  then show ?case
    by (cases "n < 16") (auto simp: to_hex.simps [of n], metis mod_less_divisor zero_less_numeral)
qed

lemma parse_digits_append:
  "parse_digits radix acc (s @ t) = Option.bind (parse_digits radix acc s) (\<lambda>a. parse_digits radix a t)"
proof (induction s arbitrary: acc)
  case (Cons c s)
  then show ?case by (cases "digit_value radix c") auto
qed simp

lemma parse_to_hex: "n < usize_size \<Longrightarrow> parse_digits 16 0 (to_hex n) = Some n"
proof (induction n rule: to_hex.induct)
  case (1 n)
  show ?case
  proof (cases "n < 16")
    case True
    with 1 show ?thesis by (simp add: to_hex.simps [of n] digit_value_hex usize_defs)
  next
    case False
    have "parse_digits 16 0 (to_hex (n div 16)) = Some (n div 16)" using 1 False by (simp add: less_mult_imp_div_less)
    moreover have "n div 16 * 16 + n mod 16 = n" by simp
    ultimately show ?thesis
      using False 1 by (simp add: to_hex.simps [of n] parse_digits_append digit_value_hex)
  qed
qed

lemma parse_padded: "n < usize_size \<Longrightarrow> parse_digits 16 0 (replicate k (CHR ''0'') @ to_hex n) = Some n"
proof (induction k)
  case (Suc k)
  then show ?case using digit_value_hex [of 0] by (simp add: hex_char_0 usize_defs)
qed (simp add: parse_to_hex)

lemma padded_chars: "c \<in> set (replicate k (CHR ''0'') @ to_hex n) \<Longrightarrow> c \<noteq> CHR ''-'' \<and> c \<noteq> CHR '' '' \<and> c \<noteq> CHR ''+'' \<and> c \<noteq> CHR 0x0A"
proof -
  assume "c \<in> set (replicate k (CHR ''0'') @ to_hex n)"
  then have "c = hex_char 0 \<or> c \<in> set (to_hex n)" by (auto simp: hex_char_0)
  then obtain v where "v < 16" "c = hex_char v" using to_hex_chars [of c n] by fastforce
  with hex_char_plain [of v] show ?thesis by simp
qed

lemma to_hex_nonempty: "to_hex n \<noteq> []"
  by (simp add: to_hex.simps [of n])

lemma from_str_radix_padded:
  "n < usize_size \<Longrightarrow> from_str_radix 16 (replicate k (CHR ''0'') @ to_hex n) = Some n"
proof -
  assume n: "n < usize_size"
  obtain c t where ct: "replicate k (CHR ''0'') @ to_hex n = c # t"
    using to_hex_nonempty [of n] by (cases "replicate k (CHR ''0'') @ to_hex n") auto
  have "c \<noteq> CHR ''+''" using padded_chars [of c k n] ct by simp
  with parse_padded [OF n, of k] ct show ?thesis by (simp add: from_str_radix_def)
qed

lemma split_once_at: "c \<notin> set s \<Longrightarrow> split_once c (s @ c # t) = Some (s, t)"
  by (induction s) auto

lemma prot_from_perms:
  "prot_from_str [a, b, c, d] = (if a = CHR ''r'' then PROT_READ else 0) OR (if b = CHR ''w'' then PROT_WRITE else 0)
     OR (if c = CHR ''x'' then PROT_EXEC else 0)"
  by (auto simp: prot_from_str_def read_prot_def or.assoc)

lemma prot_bits:
  assumes "p AND NOT RWX = 0"
  shows "prot_from_str [perm_char p PROT_READ (CHR ''r''), perm_char p PROT_WRITE (CHR ''w''),
      perm_char p PROT_EXEC (CHR ''x''), d] = p"
proof -
  have bits: "p AND push_bit n 1 = (if bit p n then push_bit n 1 else 0)" for n
    by (rule bit_eqI) (auto simp: bit_and_iff bit_exp_iff)
  have single: "(if p AND f \<noteq> 0 then f else 0) = p AND f" if f: "f = push_bit n 1" for f :: prot and n
    using bits [of n] unfolding f by (simp split: if_splits)
  have "p = p AND RWX"
    using assms by (metis and.right_neutral bit.conj_disj_distrib bit.disj_cancel_right or.right_neutral)
  also have "\<dots> = (p AND PROT_READ) OR (p AND PROT_WRITE) OR (p AND PROT_EXEC)"
    by (simp add: RWX_def bit.conj_disj_distrib)
  finally show ?thesis
    using single [of 1 0] single [of 2 1] single [of 4 2]
    by (auto simp: prot_from_perms perm_char_def PROT_READ_def PROT_WRITE_def PROT_EXEC_def split: if_splits)
qed


section \<open>The iterator as a tiling\<close>

lemma collect_Some: "collect xs = Some rs \<longleftrightarrow> xs = map Some rs"
  by (induction xs arbitrary: rs rule: collect.induct) (auto simp: Cons_eq_map_conv map_eq_Cons_conv)

lemma collect_takeWhile:
  "collect (takeWhile (\<lambda>r. case r of Some r \<Rightarrow> P r | None \<Rightarrow> True) (map Some rs)) = Some (takeWhile P rs)"
  by (induction rs) auto

lemma maps_sorted_takeWhile: "maps_sorted rs \<Longrightarrow> maps_sorted (takeWhile P rs)"
  unfolding maps_sorted_def by (metis sorted_wrt_append takeWhile_dropWhile_id set_takeWhileD)

lemma maps_sorted_sort: "maps_sorted rs \<Longrightarrow> sort_key ri_start rs = rs"
proof -
  assume "maps_sorted rs"
  then have "sorted (map ri_start rs)"
    by (induction rs) (auto simp: maps_sorted_Cons intro: order_trans less_imp_le)
  then show ?thesis by (rule sort_key_id_if_sorted)
qed

text \<open>What precedes the start address, in a sorted list, is a prefix.\<close>

lemma maps_prefix:
  "maps_sorted rs \<Longrightarrow> r \<in> set (dropWhile (\<lambda>r. ri_end r \<le> start) rs) \<Longrightarrow> start < ri_end r"
proof (induction rs)
  case (Cons q rs)
  show ?case
  proof (cases "ri_end q \<le> start")
    case True
    with Cons show ?thesis by (simp add: maps_sorted_Cons)
  next
    case False
    moreover have "ri_start r < ri_end r" "r = q \<or> ri_end q \<le> ri_start r"
      using Cons.prems False by (auto simp: maps_sorted_def)
    ultimately show ?thesis by auto
  qed
qed simp

lemma maps_at_append: "maps_at (xs @ ys) a = (case maps_at xs a of None \<Rightarrow> maps_at ys a | r \<Rightarrow> r)"
  by (induction xs) (auto simp: maps_at_def)

lemma maps_at_low: "\<forall>r \<in> set rs. ri_end r \<le> a \<Longrightarrow> maps_at rs a = None"
  by (auto simp: maps_at_def find_None_iff)

lemma maps_at_takeWhile: "maps_sorted rs \<Longrightarrow> a < mx \<Longrightarrow> maps_at (takeWhile (\<lambda>r. ri_start r < mx) rs) a = maps_at rs a"
proof (induction rs)
  case (Cons r rs)
  have "maps_at (r # rs) a = None" if "mx \<le> ri_start r"
  proof (rule maps_at_None, rule ballI)
    fix q assume "q \<in> set (r # rs)"
    then have "ri_start r \<le> ri_start q" using Cons.prems(1) by (auto simp: maps_sorted_Cons intro: order_trans less_imp_le)
    then show "a < ri_start q" using that Cons.prems(2) by simp
  qed
  with Cons show ?case by (auto simp: maps_sorted_Cons maps_at_def)
qed (simp add: maps_at_def)

lemma takeWhile_rejects: "\<forall>x \<in> set xs. \<not> P x \<Longrightarrow> takeWhile P xs = []"
  by (cases xs) auto

definition prev_end :: "nat \<Rightarrow> nat \<Rightarrow> region_info list \<Rightarrow> nat" where
  "prev_end mn start rs = (let low = takeWhile (\<lambda>r. ri_end r \<le> start) rs in if low = [] then mn else ri_end (last low))"

lemma region_iter_eq:
  fixes info :: sys_info
  assumes lines: "collect (proc_pid_maps maps) = Some rs" and ordered: "maps_sorted rs"
  defines "ks \<equiv> takeWhile (\<lambda>r. ri_start r < max_address info) rs"
  shows "region_iter info maps start = Inr (tiles (max_address info) (prev_end (min_address info) start ks)
      (dropWhile (\<lambda>r. ri_end r \<le> start) ks))"
proof -
  let ?A = "takeWhile (\<lambda>r. ri_end r \<le> start) ks" and ?B = "dropWhile (\<lambda>r. ri_end r \<le> start) ks"
  let ?q = "\<lambda>r. \<not> ri_end r \<le> start"
  have ks: "maps_sorted ks" unfolding ks_def using ordered by (rule maps_sorted_takeWhile)
  have split: "rev ks = rev ?B @ rev ?A" by (metis rev_append takeWhile_dropWhile_id)
  have B: "\<forall>r \<in> set ?B. ?q r" using maps_prefix [OF ks] by (auto simp: not_le)
  have A: "\<forall>r \<in> set ?A. \<not> ?q r" by (auto dest: set_takeWhileD)
  have part: "partitioned ?q (rev ks)"
    unfolding partitioned_def
  proof (intro allI impI)
    fix j i assume ji: "j < length (rev ks)" "i \<le> j" "?q (rev ks ! j)"
    have "j < length ?B"
    proof (rule ccontr)
      assume "\<not> j < length ?B"
      moreover from this have "j - length ?B < length (rev ?A)" using ji(1) arg_cong [OF split, of length] by simp
      ultimately have "rev ks ! j \<in> set ?A"
        unfolding split by (metis length_rev nth_append nth_mem set_rev)
      with A ji(3) show False by blast
    qed
    with ji(2) have "i < length (rev ?B)" by simp
    then have "rev ks ! i \<in> set ?B" unfolding split by (metis nth_append nth_mem set_rev)
    with B show "?q (rev ks ! i)" by blast
  qed
  have "takeWhile ?q (rev ?A) = []" by (rule takeWhile_rejects) (use A in \<open>simp only: set_rev\<close>)
  moreover have "takeWhile ?q (rev ?B @ rev ?A) = rev ?B @ takeWhile ?q (rev ?A)"
    by (rule takeWhile_append2, rule B [rule_format]) (simp only: set_rev)
  ultimately have "takeWhile ?q (rev ks) = rev ?B" by (simp only: split append_Nil2)
  with partition_point_takeWhile [OF part] have n: "partition_point ?q (rev ks) = length ?B" by simp
  have len: "length ?B = length (rev ks) - length ?A" "length ?A \<le> length (rev ks)"
    using arg_cong [OF split, of length] by simp_all
  have hd: "rev ks ! length ?B = last ?A" if "?A \<noteq> []"
    unfolding split using that by (simp add: nth_append hd_rev [symmetric] hd_conv_nth)
  have length_pos: "?A \<noteq> [] \<Longrightarrow> length ?B < length (rev ks)" using len by (simp add: length_greater_0_conv [symmetric] del: length_greater_0_conv)
  have pp: "partition_point_mut (drop_before start) (rev ks) (min_address info)
      = (length ?B, prev_end (min_address info) start ks)"
    unfolding drop_before_recording partition_point_mut_eq [OF part] n
    using hd len length_pos by (cases "?A = []") (simp_all add: prev_end_def Let_def)
  have "collect (takeWhile (\<lambda>r. case r of Some r \<Rightarrow> ri_start r < max_address info | None \<Rightarrow> True)
      (proc_pid_maps maps)) = Some ks"
    using lines by (simp only: collect_Some collect_takeWhile ks_def)
  moreover have "take (length ?B) (rev ks) = rev ?B" unfolding split by simp
  ultimately show ?thesis
    by (simp only: region_iter_def option.case Let_def maps_sorted_sort [OF ks] pp prod.case region_list_tiles)
qed

lemma prev_end_le: "mn \<le> start \<Longrightarrow> prev_end mn start rs \<le> start"
  by (auto simp: prev_end_def Let_def dest!: last_in_set dest: set_takeWhileD)

lemma maps_sorted_last: "maps_sorted xs \<Longrightarrow> r \<in> set xs \<Longrightarrow> ri_end r \<le> ri_end (last xs)"
proof (induction xs)
  case (Cons q xs)
  show ?case
  proof (cases "xs = []")
    case False
    have "ri_end q \<le> ri_start (last xs)" "ri_start (last xs) < ri_end (last xs)"
      using Cons.prems(1) last_in_set [OF False] by (auto simp: maps_sorted_def)
    then have "ri_end q \<le> ri_end (last xs)" by simp
    with Cons False show ?thesis by (cases "r = q") (auto simp: maps_sorted_Cons)
  qed (use Cons in simp)
qed simp

lemma maps_at_after:
  assumes "maps_sorted rs" "prev_end mn start rs \<le> a \<or> takeWhile (\<lambda>r. ri_end r \<le> start) rs = []"
  shows "maps_at (dropWhile (\<lambda>r. ri_end r \<le> start) rs) a = maps_at rs a"
proof (cases "takeWhile (\<lambda>r. ri_end r \<le> start) rs = []")
  case True
  then show ?thesis by (metis append_Nil takeWhile_dropWhile_id)
next
  case False
  let ?A = "takeWhile (\<lambda>r. ri_end r \<le> start) rs"
  have "\<forall>r \<in> set ?A. ri_end r \<le> ri_end (last ?A)"
    using maps_sorted_last [OF maps_sorted_takeWhile [OF assms(1)]] by blast
  then have "\<forall>r \<in> set ?A. ri_end r \<le> a" using assms(2) False by (force simp: prev_end_def Let_def)
  then have "maps_at ?A a = None" by (rule maps_at_low)
  moreover have "maps_at rs a = maps_at (?A @ dropWhile (\<lambda>r. ri_end r \<le> start) rs) a" by simp
  ultimately show ?thesis by (simp only: maps_at_append option.case)
qed

text \<open>
  C26. The region iterator tiles the address space: whatever the start address, if the lines of
  \<open>/proc/self/maps\<close> parse and are in address order, the regions the iterator yields are disjoint and
  ascending, every address between the start and the maximum lies in one of them, and a region
  carries the protection of the mapping at each of its addresses, or none where nothing is mapped.
\<close>

theorem region_iter_tiles:
  assumes "collect (proc_pid_maps maps) = Some rs" "maps_sorted rs" "min_address info \<le> start"
  shows "\<exists>ts. region_iter info maps start = Inr ts
    \<and> sorted_wrt (\<lambda>t t'. rg_ptr t + rg_len t \<le> rg_ptr t') ts
    \<and> (\<forall>t a. t \<in> set ts \<longrightarrow> covers t a \<longrightarrow> a < max_address info \<longrightarrow> rg_prot t = map_option ri_prot (maps_at rs a))
    \<and> (\<forall>a. start \<le> a \<longrightarrow> a < max_address info \<longrightarrow> (\<exists>t. t \<in> set ts \<and> covers t a))"
proof -
  let ?mx = "max_address info" and ?p = "\<lambda>r. ri_end r \<le> start"
  let ?ks = "takeWhile (\<lambda>r. ri_start r < ?mx) rs"
  let ?B = "dropWhile ?p ?ks" and ?prev = "prev_end (min_address info) start ?ks"
  let ?ts = "tiles ?mx ?prev ?B"
  have ks: "maps_sorted ?ks" using assms(2) by (rule maps_sorted_takeWhile)
  then have B: "maps_sorted ?B"
    unfolding maps_sorted_def by (metis sorted_wrt_append takeWhile_dropWhile_id set_dropWhileD)
  have prev: "?prev \<le> start" using assms(3) by (rule prev_end_le)
  have above: "\<forall>r \<in> set ?B. ?prev \<le> ri_start r" if "takeWhile ?p ?ks \<noteq> []"
  proof -
    have "sorted_wrt (\<lambda>r r'. ri_end r \<le> ri_start r') (takeWhile ?p ?ks @ ?B)"
      using ks unfolding takeWhile_dropWhile_id maps_sorted_def by (rule conjunct1)
    then have "\<forall>r \<in> set (takeWhile ?p ?ks). \<forall>r' \<in> set ?B. ri_end r \<le> ri_start r'"
      unfolding sorted_wrt_append by (elim conjE)
    with that show ?thesis by (simp add: prev_end_def Let_def)
  qed
  have start: "(\<forall>r \<in> set ?B. ?prev \<le> ri_start r) \<or> (\<exists>r rs'. ?B = r # rs' \<and> ?prev \<le> ri_end r)"
  proof (cases ?B)
    case (Cons r rs')
    have "start < ri_end r" by (rule maps_prefix [OF ks]) (simp only: Cons list.set_intros)
    with Cons prev show ?thesis by simp
  qed (simp only: list.set ball_simps simp_thms)
  note tc = tiles_correct [OF B start, of ?mx]
  have prot: "rg_prot t = map_option ri_prot (maps_at rs a)" if t: "t \<in> set ?ts" "covers t a" "a < ?mx" for t a
  proof -
    have from_prev: "?prev \<le> rg_ptr t" if low: "takeWhile ?p ?ks \<noteq> []"
      using conjunct2 [OF bspec [OF conjunct1 [OF tc] t(1)]] above [OF low] by (elim disjE exE conjE) simp_all
    have "maps_at ?B a = maps_at ?ks a"
      by (rule maps_at_after [OF ks, of "min_address info"]) (use from_prev t(2) in \<open>auto simp: covers_def\<close>)
    also have "\<dots> = maps_at rs a" by (rule maps_at_takeWhile [OF assms(2) t(3)])
    finally show ?thesis using conjunct1 [OF bspec [OF conjunct1 [OF tc] t(1)]] t(2) by simp
  qed
  have "\<exists>t. t \<in> set ?ts \<and> covers t a" if "start \<le> a" "a < ?mx" for a
    using conjunct2 [OF conjunct2 [OF tc]] prev that by (meson le_trans)
  then show ?thesis
    using region_iter_eq [OF assms(1,2), of info start] prot conjunct1 [OF conjunct2 [OF tc]] by blast
qed

lemmas parse_eval = proc_pid_maps.simps region_info_from_str_def from_str_radix_def digit_value_def
  prot_from_str_def read_prot_def after_newline_def PROT_READ_def PROT_WRITE_def PROT_EXEC_def Let_def

theorem region_iter_tiles_witness:
  "\<exists>ts. region_iter \<lparr>alloc_granularity = 16, min_address = 16, max_address = 256\<rparr>
      (''20-40 r-xp 0'' @ [CHR 0x0A] @ ''40-60 rw-p 0'' @ [CHR 0x0A]) 48 = Inr ts
    \<and> sorted_wrt (\<lambda>t t'. rg_ptr t + rg_len t \<le> rg_ptr t') ts
    \<and> (\<exists>t. t \<in> set ts \<and> covers t 200 \<and> rg_prot t = None)
    \<and> (\<exists>t. t \<in> set ts \<and> covers t 64 \<and> rg_prot t = Some 3)"
proof -
  let ?maps = "''20-40 r-xp 0'' @ [CHR 0x0A] @ ''40-60 rw-p 0'' @ [CHR 0x0A]"
  let ?rs = "[\<lparr>ri_start = 32, ri_end = 64, ri_prot = 5\<rparr>, \<lparr>ri_start = 64, ri_end = 96, ri_prot = 3\<rparr>]"
  have "collect (proc_pid_maps ?maps) = Some ?rs" by (simp add: parse_eval usize_defs)
  moreover have "maps_sorted ?rs" by (simp add: maps_sorted_def)
  moreover have "min_address \<lparr>alloc_granularity = 16, min_address = 16, max_address = 256\<rparr> \<le> 48" by simp
  ultimately obtain ts where ts: "region_iter \<lparr>alloc_granularity = 16, min_address = 16, max_address = 256\<rparr> ?maps 48 = Inr ts"
      "sorted_wrt (\<lambda>t t'. rg_ptr t + rg_len t \<le> rg_ptr t') ts"
      "\<And>t a. t \<in> set ts \<Longrightarrow> covers t a \<Longrightarrow> a < 256 \<Longrightarrow> rg_prot t = map_option ri_prot (maps_at ?rs a)"
      "\<And>a. 48 \<le> a \<Longrightarrow> a < 256 \<Longrightarrow> \<exists>t. t \<in> set ts \<and> covers t a"
    using region_iter_tiles [of ?maps ?rs "\<lparr>alloc_granularity = 16, min_address = 16, max_address = 256\<rparr>" 48]
    by (auto simp del: append.simps)
  obtain t where "t \<in> set ts" "covers t 200" using ts(4) [of 200] by auto
  moreover obtain t' where "t' \<in> set ts" "covers t' 64" using ts(4) [of 64] by auto
  ultimately show ?thesis
    using ts(1,2) ts(3) [of t 200] ts(3) [of t' 64] by (intro exI [of _ ts]) (auto simp: maps_at_def simp del: append.simps)
qed

text \<open>
  Parsing inverts printing: a line in the kernel's format (two hexadecimal addresses with any
  number of leading zeros, the permission field, then anything) is read back as the region printed,
  and the iterator over the file moves on to the text after the next newline.
\<close>

theorem region_line_roundtrip:
  assumes "ri_start r < usize_size" "ri_end r < usize_size" "ri_prot r AND NOT RWX = 0" "CHR 0x0A \<notin> set rest"
  shows "proc_pid_maps (print_region k j r rest @ [CHR 0x0A] @ after) = Some r # proc_pid_maps after"
proof -
  let ?s = "replicate k (CHR ''0'') @ to_hex (ri_start r)" and ?e = "replicate j (CHR ''0'') @ to_hex (ri_end r)"
  let ?p = "[perm_char (ri_prot r) PROT_READ (CHR ''r''), perm_char (ri_prot r) PROT_WRITE (CHR ''w''),
        perm_char (ri_prot r) PROT_EXEC (CHR ''x''), CHR ''p'']"
  let ?rest = "rest @ CHR 0x0A # after"
  have line: "print_region k j r rest @ [CHR 0x0A] @ after
      = ?s @ CHR ''-'' # (?e @ CHR '' '' # (?p @ CHR '' '' # ?rest))"
    by (simp add: print_region_def)
  have "CHR ''-'' \<notin> set ?s" "CHR '' '' \<notin> set ?e" using padded_chars by metis+
  moreover have "CHR '' '' \<notin> set ?p" by (simp add: perm_char_def)
  ultimately have parse: "region_info_from_str (print_region k j r rest @ [CHR 0x0A] @ after) = Some r"
    unfolding line region_info_from_str_def
    by (simp only: split_once_at Option.bind.simps prod.case from_str_radix_padded assms prot_bits simp_thms) simp
  have nl: "CHR 0x0A \<notin> set ?s" "CHR 0x0A \<notin> set ?e" using padded_chars by metis+
  have "after_newline (print_region k j r rest @ [CHR 0x0A] @ after) = after"
  proof -
    have "split_once (CHR 0x0A) ((?s @ CHR ''-'' # ?e @ CHR '' '' # ?p @ CHR '' '' # rest) @ CHR 0x0A # after)
        = Some (?s @ CHR ''-'' # ?e @ CHR '' '' # ?p @ CHR '' '' # rest, after)"
      by (rule split_once_at) (use nl assms(4) in \<open>simp add: perm_char_def\<close>)
    moreover have "print_region k j r rest @ [CHR 0x0A] @ after = (?s @ CHR ''-'' # ?e @ CHR '' '' # ?p @ CHR '' '' # rest) @ CHR 0x0A # after"
      by (simp add: print_region_def)
    ultimately show ?thesis unfolding after_newline_def by simp
  qed
  moreover have "print_region k j r rest @ [CHR 0x0A] @ after \<noteq> []" by simp
  ultimately show ?thesis using parse by (subst proc_pid_maps.simps) simp
qed

theorem region_line_roundtrip_witness:
  "proc_pid_maps (print_region 2 0 \<lparr>ri_start = 4194304, ri_end = 4198400, ri_prot = 5\<rparr> ''00000000 00:00 0'' @ [CHR 0x0A] @ [])
     = [Some \<lparr>ri_start = 4194304, ri_end = 4198400, ri_prot = 5\<rparr>]"
  using region_line_roundtrip [of "\<lparr>ri_start = 4194304, ri_end = 4198400, ri_prot = 5\<rparr>" "''00000000 00:00 0''" 2 0 "[]"]
  by (simp add: usize_defs RWX_def PROT_READ_def PROT_WRITE_def PROT_EXEC_def proc_pid_maps.simps [of "[]"])

end
