(* ===== verification/Xsave_Layout.thy ===== *)
theory Xsave_Layout
  imports Bytes
begin

text \<open>
  The memory layout of a saved register context: the \<open>repr(C)\<close> structures of
  \<open>hook/custom/xsave.rs\<close> and \<open>hook/custom/x86_64.rs\<close>, with the offsets and sizes computed from
  their fields by the layout rule of \<open>repr(C)\<close>, and the choice of the save routine by the
  supported processor state.
\<close>

section \<open>The layout rule\<close>

text \<open>A field is a name, a size and an alignment; each starts at the next multiple of its alignment.\<close>

type_synonym struct = "(string \<times> nat \<times> nat) list"

definition align_up :: "nat \<Rightarrow> nat \<Rightarrow> nat" where
  "align_up n a = (n + (a - 1)) div a * a"

fun field_offsets :: "nat \<Rightarrow> struct \<Rightarrow> (string \<times> nat) list" where
  "field_offsets off [] = []"
| "field_offsets off ((f, s, a) # fs) = (f, align_up off a) # field_offsets (align_up off a + s) fs"

fun struct_end :: "nat \<Rightarrow> struct \<Rightarrow> nat" where
  "struct_end off [] = off"
| "struct_end off ((f, s, a) # fs) = struct_end (align_up off a + s) fs"

definition align_of :: "struct \<Rightarrow> nat" where
  "align_of st = fold (\<lambda>(f, s, a). max a) st 1"

definition size_of :: "struct \<Rightarrow> nat" where
  "size_of st = align_up (struct_end 0 st) (align_of st)"

definition offset_of :: "struct \<Rightarrow> string \<Rightarrow> nat" where
  "offset_of st f = (case map_of (field_offsets 0 st) f of Some off \<Rightarrow> off | None \<Rightarrow> 0)"

section \<open>The structures\<close>

definition XSaveLegacy :: struct where
  "XSaveLegacy = [(''fcw'', 2, 2), (''fsw'', 2, 2), (''ftw'', 1, 1), (''_reserved05'', 1, 1),
     (''fop'', 2, 2), (''fip'', 4, 4), (''fcs'', 2, 2), (''_reserved0e'', 2, 2), (''fdp'', 4, 4),
     (''fds'', 2, 2), (''_reserved16'', 2, 2), (''mxcsr'', 4, 4), (''mxcsr_mask'', 4, 4),
     (''x87_regs'', 8 * 16, 1), (''xmm_regs'', 16 * 16, 1), (''_reserved1a0'', 96, 1)]"

definition XSaveHeader :: struct where
  "XSaveHeader = [(''xstate_bv'', 8, 8), (''xcomp_bv'', 8, 8), (''_reserved10'', 48, 1)]"

definition XSaveArea :: struct where
  "XSaveArea = [(''legacy'', size_of XSaveLegacy, align_of XSaveLegacy),
     (''header'', size_of XSaveHeader, align_of XSaveHeader)]"

definition XSaveAvx :: struct where
  "XSaveAvx = [(''ymm_h_regs'', 16 * 16, 1)]"

definition XSaveAvx512Kmasks :: struct where
  "XSaveAvx512Kmasks = [(''k_regs'', 8 * 8, 8)]"

definition XSaveAvx512Zmm0_15h :: struct where
  "XSaveAvx512Zmm0_15h = [(''zmm_h_regs'', 16 * 32, 1)]"

definition XSaveAvx512Zmm15_31 :: struct where
  "XSaveAvx512Zmm15_31 = [(''zmm_regs'', 16 * 64, 1)]"

definition XSaveAvx512 :: struct where
  "XSaveAvx512 = [(''kmasks'', size_of XSaveAvx512Kmasks, align_of XSaveAvx512Kmasks),
     (''zmm_0_15h'', size_of XSaveAvx512Zmm0_15h, align_of XSaveAvx512Zmm0_15h),
     (''zmm_16_31'', size_of XSaveAvx512Zmm15_31, align_of XSaveAvx512Zmm15_31)]"

definition Legacy :: struct where
  "Legacy = [(''eflags'', 4, 4), (''_reserved04'', 4, 4), (''regs'', 16 * 8, 8),
     (''_reserved88'', 8, 8), (''xsave'', size_of XSaveArea, align_of XSaveArea)]"

text \<open>The pointers to the three parts of a saved context; a null pointer is \<open>0\<close>.\<close>

record context_ptrs =
  legacy_ptr :: nat
  avx_ptr :: nat
  avx512_ptr :: nat

lemma xsavelegacy_size [simp]: "size_of XSaveLegacy = 512" "align_of XSaveLegacy = 4"
  unfolding size_of_def [of XSaveLegacy] align_of_def [of XSaveLegacy] unfolding XSaveLegacy_def by (simp_all add: align_up_def)

lemma xsaveheader_size [simp]: "size_of XSaveHeader = 64" "align_of XSaveHeader = 8"
  unfolding size_of_def [of XSaveHeader] align_of_def [of XSaveHeader] unfolding XSaveHeader_def by (simp_all add: align_up_def)

lemma xsavearea_size [simp]: "size_of XSaveArea = 576" "align_of XSaveArea = 8"
  unfolding size_of_def [of XSaveArea] align_of_def [of XSaveArea] unfolding XSaveArea_def by (simp_all add: align_up_def)

lemma xsaveavx_size [simp]: "size_of XSaveAvx = 256" "align_of XSaveAvx = 1"
  unfolding size_of_def [of XSaveAvx] align_of_def [of XSaveAvx] unfolding XSaveAvx_def by (simp_all add: align_up_def)

lemma xsaveavx512kmasks_size [simp]: "size_of XSaveAvx512Kmasks = 64" "align_of XSaveAvx512Kmasks = 8"
  unfolding size_of_def [of XSaveAvx512Kmasks] align_of_def [of XSaveAvx512Kmasks] unfolding XSaveAvx512Kmasks_def by (simp_all add: align_up_def)

lemma xsaveavx512zmm0_15h_size [simp]: "size_of XSaveAvx512Zmm0_15h = 512" "align_of XSaveAvx512Zmm0_15h = 1"
  unfolding size_of_def [of XSaveAvx512Zmm0_15h] align_of_def [of XSaveAvx512Zmm0_15h] unfolding XSaveAvx512Zmm0_15h_def by (simp_all add: align_up_def)

lemma xsaveavx512zmm15_31_size [simp]: "size_of XSaveAvx512Zmm15_31 = 1024" "align_of XSaveAvx512Zmm15_31 = 1"
  unfolding size_of_def [of XSaveAvx512Zmm15_31] align_of_def [of XSaveAvx512Zmm15_31] unfolding XSaveAvx512Zmm15_31_def by (simp_all add: align_up_def)

lemma xsaveavx512_size [simp]: "size_of XSaveAvx512 = 1600" "align_of XSaveAvx512 = 8"
  unfolding size_of_def [of XSaveAvx512] align_of_def [of XSaveAvx512] unfolding XSaveAvx512_def by (simp_all add: align_up_def)

lemma legacy_size [simp]: "size_of Legacy = 720" "align_of Legacy = 8"
  unfolding size_of_def [of Legacy] align_of_def [of Legacy] unfolding Legacy_def by (simp_all add: align_up_def)

lemma xsavelegacy_offsets [simp]: "offset_of XSaveLegacy ''x87_regs'' = 32" "offset_of XSaveLegacy ''xmm_regs'' = 160"
  unfolding XSaveLegacy_def by (simp_all add: offset_of_def align_up_def)

lemma xsavearea_offsets [simp]: "offset_of XSaveArea ''legacy'' = 0" "offset_of XSaveArea ''header'' = 512"
  unfolding XSaveArea_def by (simp_all add: offset_of_def align_up_def)

lemma legacy_offsets [simp]: "offset_of Legacy ''eflags'' = 0" "offset_of Legacy ''regs'' = 8" "offset_of Legacy ''xsave'' = 144"
  unfolding Legacy_def by (simp_all add: offset_of_def align_up_def)

lemma xsaveavx_offsets [simp]: "offset_of XSaveAvx ''ymm_h_regs'' = 0"
  unfolding XSaveAvx_def by (simp_all add: offset_of_def align_up_def)

lemma xsaveavx512_offsets [simp]: "offset_of XSaveAvx512 ''kmasks'' = 0" "offset_of XSaveAvx512 ''zmm_0_15h'' = 64" "offset_of XSaveAvx512 ''zmm_16_31'' = 576"
  unfolding XSaveAvx512_def by (simp_all add: offset_of_def align_up_def)

lemma xsaveavx512kmasks_offsets [simp]: "offset_of XSaveAvx512Kmasks ''k_regs'' = 0"
  unfolding XSaveAvx512Kmasks_def by (simp_all add: offset_of_def align_up_def)

lemma xsaveavx512zmm0_15h_offsets [simp]: "offset_of XSaveAvx512Zmm0_15h ''zmm_h_regs'' = 0"
  unfolding XSaveAvx512Zmm0_15h_def by (simp_all add: offset_of_def align_up_def)

lemma xsaveavx512zmm15_31_offsets [simp]: "offset_of XSaveAvx512Zmm15_31 ''zmm_regs'' = 0"
  unfolding XSaveAvx512Zmm15_31_def by (simp_all add: offset_of_def align_up_def)

section \<open>What the processor saves\<close>

definition XSTATE_BV_X87 :: "64 word" where "XSTATE_BV_X87 = 1"
definition XSTATE_BV_SSE :: "64 word" where "XSTATE_BV_SSE = 2"
definition XSTATE_BV_AVX :: "64 word" where "XSTATE_BV_AVX = 4"
definition XSTATE_BV_AVX512 :: "64 word" where "XSTATE_BV_AVX512 = 0xE0"

datatype xsave_supports = Sse | Avx | Avx512

definition from_xcr0 :: "64 word \<Rightarrow> xsave_supports" where
  "from_xcr0 bv =
     (if bv AND XSTATE_BV_AVX512 \<noteq> 0 then Avx512
      else if bv AND XSTATE_BV_AVX \<noteq> 0 then Avx
      else Sse)"

text \<open>\<open>XsaveAvxCpuid::get\<close>: leaf 0DH, subleaf 2, where EAX is the size and EBX the offset.\<close>

record xsave_avx_cpuid =
  cpuid_offset :: nat
  cpuid_size :: nat

datatype xsave_flavor = Xsave_proc | Xsavec_proc

record xsave_config =
  XSTATE_BV :: "64 word"
  XSAVE_SIZE :: nat
  XSAVE_FLAVOR :: xsave_flavor
  XSAVE_AVX_OFFSET :: nat
  XSAVE_AVX512_OFFSET :: nat

text \<open>
  The once-initialised statics of \<open>context_save_proc\<close>; \<open>xcr0\<close>, \<open>xsavec\<close> and \<open>cpuid\<close> are what the
  processor reports, \<open>None\<close> is the panic.
\<close>

definition context_save_config :: "64 word \<Rightarrow> bool \<Rightarrow> xsave_avx_cpuid \<Rightarrow> xsave_config option" where
  "context_save_config xcr0 xsavec cpuid =
     map_option (\<lambda>(sz, flavor, bv, avx_offset, avx512_offset).
         \<lparr>XSTATE_BV = (bv OR XSTATE_BV_X87 OR XSTATE_BV_SSE) AND xcr0, XSAVE_SIZE = sz, XSAVE_FLAVOR = flavor,
           XSAVE_AVX_OFFSET = avx_offset, XSAVE_AVX512_OFFSET = avx512_offset\<rparr>)
       (case (from_xcr0 xcr0, xsavec) of
          (Sse, _) \<Rightarrow> Some (size_of XSaveArea, Xsave_proc, 0, 0, 0)
        | (Avx, True) \<Rightarrow> Some (size_of XSaveArea + size_of XSaveAvx, Xsavec_proc, XSTATE_BV_AVX, size_of Legacy, 0)
        | (Avx, False) \<Rightarrow> Some (cpuid_offset cpuid + cpuid_size cpuid, Xsave_proc, XSTATE_BV_AVX,
            offset_of Legacy ''xsave'' + cpuid_offset cpuid, 0)
        | (Avx512, True) \<Rightarrow> Some (size_of XSaveArea + size_of XSaveAvx + size_of XSaveAvx512, Xsavec_proc,
            XSTATE_BV_AVX OR XSTATE_BV_AVX512, size_of Legacy, size_of Legacy + size_of XSaveAvx)
        | (Avx512, False) \<Rightarrow> None)"

text \<open>\<open>ContextSaveProc::call_proc\<close>: the pointers handed to the hook, from the address of the saved registers.\<close>

definition context_of :: "xsave_config \<Rightarrow> nat \<Rightarrow> context_ptrs" where
  "context_of cfg legacy = \<lparr>legacy_ptr = legacy,
     avx_ptr = (if XSAVE_AVX_OFFSET cfg \<noteq> 0 then (legacy + XSAVE_AVX_OFFSET cfg) mod usize_size else 0),
     avx512_ptr = (if XSAVE_AVX512_OFFSET cfg \<noteq> 0 then (legacy + XSAVE_AVX512_OFFSET cfg) mod usize_size else 0)\<rparr>"

text \<open>A context whose three parts do not overlap; an absent part is null.\<close>

definition context_ok :: "context_ptrs \<Rightarrow> bool" where
  "context_ok c \<longleftrightarrow>
     (avx_ptr c \<noteq> 0 \<longrightarrow> legacy_ptr c + size_of Legacy \<le> avx_ptr c) \<and>
     (avx512_ptr c \<noteq> 0 \<longrightarrow> avx_ptr c \<noteq> 0 \<and> avx_ptr c + size_of XSaveAvx \<le> avx512_ptr c)"

text \<open>
  Whatever state the processor supports, the areas handed to a hook follow one another without
  overlap and fit in the stack space reserved for them; the only refusal is AVX-512 without XSAVEC.
\<close>

theorem config_areas_fit:
  assumes "cpuid_size cpuid = 256" "576 \<le> cpuid_offset cpuid" "0 < legacy"
    and "context_save_config xcr0 xsavec cpuid = Some cfg" "legacy + 144 + XSAVE_SIZE cfg < usize_size"
  shows "context_ok (context_of cfg legacy)
    \<and> (from_xcr0 xcr0 = Sse \<longleftrightarrow> avx_ptr (context_of cfg legacy) = 0)
    \<and> (from_xcr0 xcr0 = Avx512 \<longleftrightarrow> avx512_ptr (context_of cfg legacy) \<noteq> 0)
    \<and> max (legacy + size_of Legacy) (max (avx_ptr (context_of cfg legacy) + size_of XSaveAvx)
        (if avx512_ptr (context_of cfg legacy) = 0 then 0 else avx512_ptr (context_of cfg legacy) + size_of XSaveAvx512))
      = legacy + 144 + XSAVE_SIZE cfg"
  using assms
  by (cases "from_xcr0 xcr0"; cases xsavec)
    (auto simp: context_save_config_def context_of_def context_ok_def dest!: dvd_imp_le)

theorem config_areas_fit_witness:
  "context_ok (context_of \<lparr>XSTATE_BV = 0xE7, XSAVE_SIZE = 2432, XSAVE_FLAVOR = Xsavec_proc,
      XSAVE_AVX_OFFSET = 720, XSAVE_AVX512_OFFSET = 976\<rparr> 4096)"
proof -
  have "context_save_config 0xE7 True \<lparr>cpuid_offset = 576, cpuid_size = 256\<rparr> = Some \<lparr>XSTATE_BV = 0xE7,
      XSAVE_SIZE = 2432, XSAVE_FLAVOR = Xsavec_proc, XSAVE_AVX_OFFSET = 720, XSAVE_AVX512_OFFSET = 976\<rparr>"
    by (simp add: context_save_config_def from_xcr0_def XSTATE_BV_X87_def XSTATE_BV_SSE_def
        XSTATE_BV_AVX_def XSTATE_BV_AVX512_def)
  from config_areas_fit [OF _ _ _ this, of 4096] show ?thesis by (simp add: usize_defs)
qed

end
