(* ===== verification/Registers.thy ===== *)
theory Registers
  imports Xsave_Layout
begin

text \<open>
  The registers a custom hook can name (\<open>hook/custom/x86_64/register.rs\<close>): where each lives in the
  saved context, how it is read and written, and the table of names. A value is the list of its
  bytes. \<open>None\<close> is an undefined register (a failed compile-time assertion) or an access through a
  null part of the context.
\<close>

section \<open>General purpose registers\<close>

definition gpr_resolve :: "context_ptrs \<Rightarrow> nat \<Rightarrow> nat \<Rightarrow> nat option" where
  "gpr_resolve c sz n =
     (if sz \<le> 8 \<and> n < 16 then Some (legacy_ptr c + offset_of Legacy ''regs'' + 8 * n) else None)"

definition gpr_read :: "nat \<Rightarrow> nat \<Rightarrow> memory \<Rightarrow> byte list" where
  "gpr_read sz p m = read_bytes m p sz"

definition gpr_write :: "nat \<Rightarrow> byte list \<Rightarrow> memory \<Rightarrow> memory" where
  "gpr_write p v m = write_bytes p v m"

text \<open>Borrowing a 32-bit register mutably clears the upper half, as the processor does.\<close>

definition gpr_deref_mut :: "nat \<Rightarrow> nat \<Rightarrow> memory \<Rightarrow> memory" where
  "gpr_deref_mut sz p m = (if sz = 4 then write_bytes (p + 4) (le_bytes 4 0) m else m)"

definition gpr_assign :: "nat \<Rightarrow> nat \<Rightarrow> byte list \<Rightarrow> memory \<Rightarrow> memory" where
  "gpr_assign sz p v m = gpr_write p v (gpr_deref_mut sz p m)"

section \<open>Flags\<close>

definition flag_mask :: "nat \<Rightarrow> 32 word" where
  "flag_mask n = push_bit n 1"

definition flag_resolve :: "context_ptrs \<Rightarrow> nat" where
  "flag_resolve c = legacy_ptr c + offset_of Legacy ''eflags''"

definition read_u32 :: "nat \<Rightarrow> memory \<Rightarrow> 32 word" where
  "read_u32 p m = word_of_int (from_le (read_bytes m p 4))"

definition flag_read :: "nat \<Rightarrow> nat \<Rightarrow> memory \<Rightarrow> bool" where
  "flag_read n p m \<longleftrightarrow> read_u32 p m AND flag_mask n \<noteq> 0"

definition flag_write :: "nat \<Rightarrow> nat \<Rightarrow> bool \<Rightarrow> memory \<Rightarrow> memory" where
  "flag_write n p value m =
     write_bytes p (le_bytes 4 (uint ((read_u32 p m AND NOT (flag_mask n)) OR push_bit n (of_bool value)))) m"

section \<open>Floating point and vector registers\<close>

definition xmm_area :: "context_ptrs \<Rightarrow> nat" where
  "xmm_area c = legacy_ptr c + offset_of Legacy ''xsave'' + offset_of XSaveArea ''legacy'' + offset_of XSaveLegacy ''xmm_regs''"

definition st_resolve :: "context_ptrs \<Rightarrow> nat \<Rightarrow> nat option" where
  "st_resolve c n = (if n < 8 then Some (legacy_ptr c + offset_of Legacy ''xsave'' + offset_of XSaveArea ''legacy''
     + offset_of XSaveLegacy ''x87_regs'' + 16 * n) else None)"

definition xmm_resolve :: "context_ptrs \<Rightarrow> nat \<Rightarrow> nat option" where
  "xmm_resolve c n = (if n < 16 then Some (xmm_area c + 16 * n) else None)"

definition ymm_area :: "context_ptrs \<Rightarrow> nat option" where
  "ymm_area c = (if avx_ptr c \<noteq> 0 then Some (avx_ptr c + offset_of XSaveAvx ''ymm_h_regs'') else None)"

definition ymm_read :: "context_ptrs \<Rightarrow> nat \<Rightarrow> memory \<Rightarrow> byte list option" where
  "ymm_read c n m = do {
     hi \<leftarrow> ymm_area c;
     Some (read_bytes m (xmm_area c + 16 * n) 16 @ read_bytes m (hi + 16 * n) 16)
   }"

definition ymm_write :: "context_ptrs \<Rightarrow> nat \<Rightarrow> byte list \<Rightarrow> memory \<Rightarrow> memory option" where
  "ymm_write c n value m = do {
     hi \<leftarrow> ymm_area c;
     Some (write_bytes (hi + 16 * n) (take 16 (drop 16 value))
       (write_bytes (xmm_area c + 16 * n) (take 16 value) m))
   }"

definition zmm_h_area :: "context_ptrs \<Rightarrow> nat" where
  "zmm_h_area c = avx512_ptr c + offset_of XSaveAvx512 ''zmm_0_15h'' + offset_of XSaveAvx512Zmm0_15h ''zmm_h_regs''"

definition zmm_area :: "context_ptrs \<Rightarrow> nat" where
  "zmm_area c = avx512_ptr c + offset_of XSaveAvx512 ''zmm_16_31'' + offset_of XSaveAvx512Zmm15_31 ''zmm_regs''"

definition zmm_read :: "context_ptrs \<Rightarrow> nat \<Rightarrow> memory \<Rightarrow> byte list option" where
  "zmm_read c n m =
     (if avx512_ptr c = 0 then None
      else if 16 \<le> n then Some (read_bytes m (zmm_area c + 64 * (n - 16)) 64)
      else do {
        hi_ymm \<leftarrow> ymm_area c;
        Some (read_bytes m (xmm_area c + 16 * n) 16 @ read_bytes m (hi_ymm + 16 * n) 16
          @ read_bytes m (zmm_h_area c + 32 * n) 32)
      })"

definition zmm_write :: "context_ptrs \<Rightarrow> nat \<Rightarrow> byte list \<Rightarrow> memory \<Rightarrow> memory option" where
  "zmm_write c n value m =
     (if avx512_ptr c = 0 then None
      else if 16 \<le> n then Some (write_bytes (zmm_area c + 64 * (n - 16)) value m)
      else do {
        hi_ymm \<leftarrow> ymm_area c;
        Some (write_bytes (zmm_h_area c + 32 * 1) (take 32 (drop 32 value))
          (write_bytes (hi_ymm + 16 * n) (take 16 (drop 16 value))
            (write_bytes (xmm_area c + 16 * n) (take 16 value) m)))
      })"

definition kmask_resolve :: "context_ptrs \<Rightarrow> nat \<Rightarrow> nat option" where
  "kmask_resolve c n =
     (if n < 8 \<and> avx512_ptr c \<noteq> 0
      then Some (avx512_ptr c + offset_of XSaveAvx512 ''kmasks'' + offset_of XSaveAvx512Kmasks ''k_regs'' + 8 * n) else None)"

section \<open>Registers\<close>

text \<open>\<open>Gpr\<close> carries the size of its value type in bytes.\<close>

datatype reg = Gpr nat nat | Flag nat | St nat | Xmm nat | Ymm nat | Zmm nat | Kmask nat

fun unique :: "reg \<Rightarrow> nat option" where
  "unique (Gpr sz n) = Some n"
| "unique (Xmm n) = Some (n + 16)"
| "unique (Ymm n) = Some (n + 16)"
| "unique (Zmm n) = (if n < 16 then Some (n + 16) else None)"
| "unique (Flag n) = None"
| "unique (St n) = None"
| "unique (Kmask n) = None"

text \<open>The compile-time assertions of \<open>resolve\<close> (and, for a flag, that the shift is in range).\<close>

fun reg_defined :: "reg \<Rightarrow> bool" where
  "reg_defined (Gpr sz n) \<longleftrightarrow> sz \<le> 8 \<and> n < 16"
| "reg_defined (Flag n) \<longleftrightarrow> n < 32"
| "reg_defined (St n) \<longleftrightarrow> n < 8"
| "reg_defined (Xmm n) \<longleftrightarrow> n < 16"
| "reg_defined (Ymm n) \<longleftrightarrow> n < 16"
| "reg_defined (Zmm n) \<longleftrightarrow> n < 32"
| "reg_defined (Kmask n) \<longleftrightarrow> n < 8"

fun reg_len :: "reg \<Rightarrow> nat" where
  "reg_len (Gpr sz n) = sz"
| "reg_len (Flag n) = 1"
| "reg_len (St n) = 10"
| "reg_len (Xmm n) = 16"
| "reg_len (Ymm n) = 32"
| "reg_len (Zmm n) = 64"
| "reg_len (Kmask n) = 8"

text \<open>\<open>Place::read\<close> and \<open>Place::write\<close> of a resolved register; a flag is a byte \<open>0\<close> or \<open>1\<close>.\<close>

fun reg_read :: "context_ptrs \<Rightarrow> reg \<Rightarrow> memory \<Rightarrow> byte list option" where
  "reg_read c (Gpr sz n) m = map_option (\<lambda>p. gpr_read sz p m) (gpr_resolve c sz n)"
| "reg_read c (Flag n) m = Some [of_bool (flag_read n (flag_resolve c) m)]"
| "reg_read c (St n) m = map_option (\<lambda>p. read_bytes m p 10) (st_resolve c n)"
| "reg_read c (Xmm n) m = map_option (\<lambda>p. read_bytes m p 16) (xmm_resolve c n)"
| "reg_read c (Ymm n) m = ymm_read c n m"
| "reg_read c (Zmm n) m = zmm_read c n m"
| "reg_read c (Kmask n) m = map_option (\<lambda>p. read_bytes m p 8) (kmask_resolve c n)"

fun reg_write :: "context_ptrs \<Rightarrow> reg \<Rightarrow> byte list \<Rightarrow> memory \<Rightarrow> memory option" where
  "reg_write c (Gpr sz n) v m = map_option (\<lambda>p. gpr_write p v m) (gpr_resolve c sz n)"
| "reg_write c (Flag n) v m = Some (flag_write n (flag_resolve c) (v \<noteq> [0]) m)"
| "reg_write c (St n) v m = map_option (\<lambda>p. write_bytes p v m) (st_resolve c n)"
| "reg_write c (Xmm n) v m = map_option (\<lambda>p. write_bytes p v m) (xmm_resolve c n)"
| "reg_write c (Ymm n) v m = ymm_write c n v m"
| "reg_write c (Zmm n) v m = zmm_write c n v m"
| "reg_write c (Kmask n) v m = map_option (\<lambda>p. write_bytes p v m) (kmask_resolve c n)"

section \<open>The table of names\<close>

definition GPR64 :: "(string \<times> reg) list" where
  "GPR64 = [(''Rax'', Gpr 8 0), (''Rcx'', Gpr 8 1), (''Rdx'', Gpr 8 2), (''Rbx'', Gpr 8 3),
     (''Rsp'', Gpr 8 4), (''Rbp'', Gpr 8 5), (''Rsi'', Gpr 8 6), (''Rdi'', Gpr 8 7),
     (''R8'', Gpr 8 8), (''R9'', Gpr 8 9), (''R10'', Gpr 8 10), (''R11'', Gpr 8 11),
     (''R12'', Gpr 8 12), (''R13'', Gpr 8 13), (''R14'', Gpr 8 14), (''R15'', Gpr 8 15)]"

definition GPR32 :: "(string \<times> reg) list" where
  "GPR32 = [(''Eax'', Gpr 4 0), (''Ecx'', Gpr 4 1), (''Edx'', Gpr 4 2), (''Ebx'', Gpr 4 3),
     (''Esp'', Gpr 4 4), (''Ebp'', Gpr 4 5), (''Esi'', Gpr 4 6), (''Edi'', Gpr 4 7),
     (''R8d'', Gpr 4 8), (''R9d'', Gpr 4 9), (''R10d'', Gpr 4 10), (''R11d'', Gpr 4 11),
     (''R12d'', Gpr 4 12), (''R13d'', Gpr 4 13), (''R14d'', Gpr 4 14), (''R15d'', Gpr 4 15)]"

definition GPR16 :: "(string \<times> reg) list" where
  "GPR16 = [(''Ax'', Gpr 2 0), (''Cx'', Gpr 2 1), (''Dx'', Gpr 2 2), (''Bx'', Gpr 2 3), (''Sp'', Gpr 2 4),
     (''Bp'', Gpr 2 5), (''Si'', Gpr 2 6), (''Di'', Gpr 2 7), (''R8w'', Gpr 2 8),
     (''R9w'', Gpr 2 9), (''R10w'', Gpr 2 10), (''R11w'', Gpr 2 11), (''R12w'', Gpr 2 12),
     (''R13w'', Gpr 2 13), (''R14w'', Gpr 2 14), (''R15w'', Gpr 2 15)]"

definition GPR8 :: "(string \<times> reg) list" where
  "GPR8 = [(''Al'', Gpr 1 0), (''Cl'', Gpr 1 1), (''Dl'', Gpr 1 2), (''Bl'', Gpr 1 3),
     (''Spl'', Gpr 1 4), (''Bpl'', Gpr 1 5), (''Sil'', Gpr 1 6), (''Dil'', Gpr 1 7),
     (''R8b'', Gpr 1 8), (''R9b'', Gpr 1 9), (''R10b'', Gpr 1 10), (''R11b'', Gpr 1 11),
     (''R12b'', Gpr 1 12), (''R13b'', Gpr 1 13), (''R14b'', Gpr 1 14), (''R15b'', Gpr 1 15)]"

definition FLAGS :: "(string \<times> reg) list" where
  "FLAGS = [(''CF'', Flag 0), (''PF'', Flag 2), (''ZF'', Flag 6), (''SF'', Flag 7), (''OF'', Flag 11)]"

definition STS :: "(string \<times> reg) list" where
  "STS = [(''St0'', St 0), (''St1'', St 1), (''St2'', St 2), (''St3'', St 3), (''St4'', St 4),
     (''St5'', St 5), (''St6'', St 6), (''St7'', St 7)]"

definition XMMS :: "(string \<times> reg) list" where
  "XMMS = [(''Xmm0'', Xmm 0), (''Xmm1'', Xmm 1), (''Xmm2'', Xmm 2), (''Xmm3'', Xmm 3), (''Xmm4'', Xmm 4),
     (''Xmm5'', Xmm 5), (''Xmm6'', Xmm 6), (''Xmm7'', Xmm 7), (''Xmm8'', Xmm 8), (''Xmm9'', Xmm 9),
     (''Xmm10'', Xmm 10), (''Xmm11'', Xmm 11), (''Xmm12'', Xmm 12), (''Xmm13'', Xmm 13),
     (''Xmm14'', Xmm 14), (''Xmm15'', Xmm 15)]"

definition YMMS :: "(string \<times> reg) list" where
  "YMMS = [(''Ymm0'', Ymm 0), (''Ymm1'', Ymm 1), (''Ymm2'', Ymm 2), (''Ymm3'', Ymm 3), (''Ymm4'', Ymm 4),
     (''Ymm5'', Ymm 5), (''Ymm6'', Ymm 6), (''Ymm7'', Ymm 7), (''Ymm8'', Ymm 8), (''Ymm9'', Ymm 9),
     (''Ymm10'', Ymm 10), (''Ymm11'', Ymm 11), (''Ymm12'', Ymm 12), (''Ymm13'', Ymm 13),
     (''Ymm14'', Ymm 14), (''Ymm15'', Ymm 15)]"

definition ZMMS :: "(string \<times> reg) list" where
  "ZMMS = [(''Zmm0'', Zmm 0), (''Zmm1'', Zmm 1), (''Zmm2'', Zmm 2), (''Zmm3'', Zmm 3), (''Zmm4'', Zmm 4),
     (''Zmm5'', Zmm 5), (''Zmm6'', Zmm 6), (''Zmm7'', Zmm 7), (''Zmm8'', Zmm 8), (''Zmm9'', Zmm 9),
     (''Zmm10'', Zmm 10), (''Zmm11'', Zmm 11), (''Zmm12'', Zmm 12), (''Zmm13'', Zmm 13),
     (''Zmm14'', Zmm 14), (''Zmm15'', Zmm 15), (''Zmm16'', Zmm 16), (''Zmm17'', Zmm 17),
     (''Zmm18'', Zmm 18), (''Zmm19'', Zmm 19), (''Zmm20'', Zmm 20), (''Zmm21'', Zmm 21),
     (''Zmm22'', Zmm 22), (''Zmm23'', Zmm 23), (''Zmm24'', Zmm 24), (''Zmm25'', Zmm 25),
     (''Zmm26'', Zmm 26), (''Zmm27'', Zmm 27), (''Zmm28'', Zmm 28), (''Zmm29'', Zmm 29),
     (''Zmm30'', Ymm 30), (''Zmm31'', Ymm 31)]"

definition KMASKS :: "(string \<times> reg) list" where
  "KMASKS = [(''Kmask0'', Kmask 0), (''Kmask1'', Kmask 1), (''Kmask2'', Kmask 2), (''Kmask3'', Kmask 3),
     (''Kmask4'', Kmask 4), (''Kmask5'', Kmask 5), (''Kmask6'', Kmask 6), (''Kmask7'', Kmask 7)]"

definition REGISTERS :: "(string \<times> reg) list" where
  "REGISTERS = GPR64 @ GPR32 @ GPR16 @ GPR8 @ FLAGS @ STS @ XMMS @ YMMS @ ZMMS @ KMASKS"

section \<open>Reading back\<close>

lemmas resolve_defs = gpr_resolve_def st_resolve_def xmm_resolve_def kmask_resolve_def flag_resolve_def
  xmm_area_def ymm_area_def zmm_h_area_def zmm_area_def
lemmas place_defs = resolve_defs gpr_read_def gpr_write_def ymm_read_def ymm_write_def zmm_read_def zmm_write_def

lemma read_write_within:
  "a \<le> b \<Longrightarrow> b + n \<le> a + length bs \<Longrightarrow> read_bytes (write_bytes a bs m) b n = take n (drop (b - a) bs)"
  by (rule nth_equalityI) (auto simp: write_bytes_def)

text \<open>Where a register's value lies; the parts of the vector registers are written separately.\<close>

definition part_ok :: "context_ptrs \<Rightarrow> reg \<Rightarrow> bool" where
  "part_ok c r \<longleftrightarrow> reg_defined r \<and> (case r of
      Ymm n \<Rightarrow> avx_ptr c \<noteq> 0 | Zmm n \<Rightarrow> avx512_ptr c \<noteq> 0 | Kmask n \<Rightarrow> avx512_ptr c \<noteq> 0 | _ \<Rightarrow> True)"

lemma flag_bits:
  assumes "n < 32"
  shows "read_u32 p (flag_write n p v m) = (read_u32 p m AND NOT (flag_mask n)) OR push_bit n (of_bool v)"
proof -
  let ?w = "(read_u32 p m AND NOT (flag_mask n)) OR push_bit n (of_bool v)"
  have "read_bytes (flag_write n p v m) p 4 = le_bytes 4 (uint ?w)"
    by (simp add: flag_write_def read_write_same)
  then have "read_u32 p (flag_write n p v m) = word_of_int (uint ?w mod 256 ^ 4)"
    by (simp add: read_u32_def from_le_bytes)
  also have "uint ?w mod 256 ^ 4 = uint ?w" using uint_lt2p [of ?w] by (intro mod_pos_pos_trivial) simp_all
  finally show ?thesis by simp
qed

lemma flag_read_bit: "n < 32 \<Longrightarrow> flag_read n p m \<longleftrightarrow> bit (read_u32 p m) n"
  by (simp add: flag_read_def flag_mask_def bit_iff_and_push_bit_not_eq_0)

lemma flag_read_write: "n < 32 \<Longrightarrow> k < 32 \<Longrightarrow>
    flag_read k p (flag_write n p v m) = (if k = n then v else flag_read k p m)"
  by (auto simp: flag_read_bit flag_bits flag_mask_def bit_or_iff bit_and_iff bit_not_iff bit_push_bit_iff
      bit_exp_iff bit_1_iff)

text \<open>
  A flag is one bit: writing a flag sets exactly that flag of the saved EFLAGS, leaves every other
  bit as it was, and touches no other byte of the context.
\<close>

theorem flag_write_one_bit:
  assumes "n < 32" "k < 32"
  shows "flag_read k p (flag_write n p v m) = (if k = n then v else flag_read k p m)
    \<and> (\<forall>a. a < p \<or> p + 4 \<le> a \<longrightarrow> flag_write n p v m a = m a)"
  using flag_read_write [OF assms] by (auto simp: flag_write_def write_bytes_def)

lemma from_le_replicate [simp]: "from_le (replicate n 0) = 0"
  by (induction n) simp_all

lemma read_u32_zero [simp]: "read_u32 p (\<lambda>_. 0) = 0"
  by (simp add: read_u32_def read_bytes_def map_replicate_const)

theorem flag_write_one_bit_witness:
  "flag_read 6 0 (flag_write 6 0 True (\<lambda>_. 0)) \<and> \<not> flag_read 0 0 (flag_write 6 0 True (\<lambda>_. 0))"
  using flag_write_one_bit [of 6 6 0 True "\<lambda>_. 0"] flag_write_one_bit [of 6 0 0 True "\<lambda>_. 0"]
  by (simp add: flag_read_def [of 0 0 "\<lambda>_. 0"])

lemmas read_after = read_write_within read_write_apart read_write_same

lemma take_drop_append: "length v = k + n \<Longrightarrow> take k v @ take n (drop k v) = v"
  by (metis append_take_drop_id diff_add_inverse length_drop order_refl take_all_iff)

text \<open>
  C30. Writing a register and reading it back gives the value written, for every register the library
  defines and every well-formed context, except the upper half of ZMM0 and ZMM2 to ZMM15.
\<close>

theorem register_write_read:
  assumes "context_ok c" "part_ok c r" "length v = reg_len r" "r \<notin> Zmm ` ({0} \<union> {2..<16})"
    and flag: "\<And>n. r = Flag n \<Longrightarrow> v = [of_bool b]"
  shows "\<exists>m'. reg_write c r v m = Some m' \<and> reg_read c r m' = Some v"
proof (cases r)
  case (Flag n)
  with assms(2) have "n < 32" by (simp add: part_ok_def)
  with flag [OF Flag] show ?thesis by (simp add: Flag flag_read_write)
next
  case (Ymm n)
  with assms(1,2,3) have len: "length v = 16 + 16" and n: "n < 16" and avx: "avx_ptr c \<noteq> 0" "legacy_ptr c + 720 \<le> avx_ptr c"
    by (auto simp: part_ok_def context_ok_def)
  have apart: "xmm_area c + 16 * n + 16 \<le> avx_ptr c + 16 * n"
    using n avx by (simp add: xmm_area_def)
  show ?thesis
    using len apart avx(1) take_drop_append [OF len]
    by (simp add: Ymm ymm_read_def ymm_write_def ymm_area_def read_write_same read_write_apart)
next
  case (Zmm n)
  with assms(2) have z: "avx512_ptr c \<noteq> 0" "n < 32" by (auto simp: part_ok_def)
  show ?thesis
  proof (cases "16 \<le> n")
    case True
    with z assms(3) show ?thesis by (simp add: Zmm zmm_read_def zmm_write_def read_write_same)
  next
    case False
    with assms(4) have n: "n = 1" by (auto simp: Zmm image_iff)
    from assms(1) z have avx: "avx_ptr c \<noteq> 0" "legacy_ptr c + 720 \<le> avx_ptr c" "avx_ptr c + 256 \<le> avx512_ptr c"
      by (auto simp: context_ok_def)
    from assms(3) have len: "length v = 16 + 48" "length (drop 16 v) = 16 + 32" by (simp_all add: Zmm)
    have v: "take 16 v @ take 16 (drop 16 v) @ drop 32 v = v"
      by (metis append_take_drop_id drop_drop numeral_Bit0)
    show ?thesis
      using len avx z n v
      by (simp add: Zmm zmm_read_def zmm_write_def ymm_area_def zmm_h_area_def xmm_area_def read_write_same read_write_apart)
  qed
qed (use assms in \<open>auto simp: part_ok_def place_defs read_write_same\<close>)

definition example_context :: context_ptrs where
  "example_context = \<lparr>legacy_ptr = 4096, avx_ptr = 4816, avx512_ptr = 5072\<rparr>"

lemma example_context_ok [simp]: "context_ok example_context"
  by (simp add: context_ok_def example_context_def)

lemma example_context_sel [simp]: "legacy_ptr example_context = 4096" "avx_ptr example_context = 4816"
    "avx512_ptr example_context = 5072"
  by (simp_all add: example_context_def)

theorem register_write_read_witness:
  "\<exists>m'. reg_write example_context (Ymm 3) (replicate 16 1 @ replicate 16 2) (\<lambda>_. 0) = Some m'
    \<and> reg_read example_context (Ymm 3) m' = Some (replicate 16 1 @ replicate 16 2)"
  by (rule register_write_read [of example_context "Ymm 3" "replicate 16 1 @ replicate 16 2" True])
    (auto simp: part_ok_def)

text \<open>
  Writing ZMM0 or one of ZMM2 to ZMM15 stores the upper half of the value in ZMM1: the register
  keeps its old upper half, and the upper half of ZMM1 is overwritten.
\<close>

theorem zmm_write_hits_zmm1:
  assumes "context_ok c" "avx512_ptr c \<noteq> 0" "n < 16" "n \<noteq> 1" "length v = 64"
  shows "\<exists>m' old one. reg_write c (Zmm n) v m = Some m' \<and> reg_read c (Zmm n) m = Some old
    \<and> reg_read c (Zmm n) m' = Some (take 32 v @ drop 32 old)
    \<and> reg_read c (Zmm 1) m = Some one \<and> reg_read c (Zmm 1) m' = Some (take 32 one @ drop 32 v)"
proof -
  from assms have avx: "avx_ptr c \<noteq> 0" "legacy_ptr c + 720 \<le> avx_ptr c" "avx_ptr c + 256 \<le> avx512_ptr c"
    by (auto simp: context_ok_def)
  let ?x = "xmm_area c" and ?y = "avx_ptr c" and ?z = "zmm_h_area c"
  have areas: "?x + 256 \<le> ?y" "?y + 256 \<le> ?z"
    using avx by (simp_all add: xmm_area_def zmm_h_area_def)
  have ya: "ymm_area c = Some ?y" using avx by (simp add: ymm_area_def)
  let ?m1 = "write_bytes (?x + 16 * n) (take 16 v) m"
  let ?m2 = "write_bytes (?y + 16 * n) (take 16 (drop 16 v)) ?m1"
  let ?m3 = "write_bytes (?z + 32) (drop 32 v) ?m2"
  have w: "zmm_write c n v m = Some ?m3" using assms(2,3,5) by (simp add: zmm_write_def ya)
  have nn: "n = 0 \<or> 2 \<le> n" using assms(4) by linarith
  then have own: "read_bytes ?m3 (?x + 16 * n) 16 = take 16 v" "read_bytes ?m3 (?y + 16 * n) 16 = take 16 (drop 16 v)"
      "read_bytes ?m3 (?z + 32 * n) 32 = read_bytes m (?z + 32 * n) 32"
    using areas assms(3,5) by (auto simp: read_write_same read_write_apart)
  have one: "read_bytes ?m3 (?x + 16) 16 = read_bytes m (?x + 16) 16" "read_bytes ?m3 (?y + 16) 16 = read_bytes m (?y + 16) 16"
      "read_bytes ?m3 (?z + 32) 32 = drop 32 v"
    using nn areas assms(3,5) by (auto simp: read_write_same read_write_apart)
  have v: "take 32 v = take 16 v @ take 16 (drop 16 v)" by (simp add: take_add [of 16 16, simplified])
  show ?thesis
    using own one assms(2,3) v by (simp add: w zmm_read_def ya)
qed

theorem zmm_write_hits_zmm1_witness:
  "\<exists>m'. reg_write example_context (Zmm 0) (replicate 64 255) (\<lambda>_. 0) = Some m'
     \<and> reg_read example_context (Zmm 0) m' = Some (replicate 32 255 @ replicate 32 0)
     \<and> reg_read example_context (Zmm 1) m' = Some (replicate 32 0 @ replicate 32 255)"
proof -
  let ?m = "(\<lambda>_. 0) :: memory"
  have zero: "read_bytes ?m a n = replicate n 0" for a n by (simp add: read_bytes_def map_replicate_const)
  have old: "reg_read example_context (Zmm 0) ?m = Some (replicate 64 0)"
      "reg_read example_context (Zmm 1) ?m = Some (replicate 64 0)"
    by (simp_all add: zmm_read_def ymm_area_def zero flip: replicate_add)
  show ?thesis
    using zmm_write_hits_zmm1 [of example_context 0 "replicate 64 255" ?m] old
    by auto
qed

section \<open>Sub-registers and the table\<close>

text \<open>
  C31. Assigning through a general purpose register acts as the processor does: an 8- or 16-bit value
  keeps the rest of the 64-bit register, a 32-bit value clears its upper half, and the other registers
  and the rest of memory stay as they were.
\<close>

theorem gpr_assign_as_processor:
  assumes "gpr_resolve c sz n = Some p" "gpr_resolve c 8 n = Some q" "sz = length v" "sz \<in> {1, 2, 4, 8}"
  shows "gpr_read 8 q (gpr_assign sz p v m) = (if sz = 4 then v @ [0, 0, 0, 0] else v @ drop sz (gpr_read 8 q m))
    \<and> (\<forall>a. a < q \<or> q + 8 \<le> a \<longrightarrow> gpr_assign sz p v m a = m a)"
proof -
  from assms(1,2) have pq: "p = q" by (auto simp: gpr_resolve_def split: if_splits)
  have split: "gpr_read 8 q m' = read_bytes m' q sz @ read_bytes m' (q + sz) (8 - sz)" for m'
    using assms(4) by (auto simp: gpr_read_def simp flip: read_bytes_append)
  show ?thesis
  proof (cases "sz = 4")
    case True
    with assms(3) show ?thesis
      by (auto simp: split pq gpr_assign_def gpr_deref_mut_def gpr_write_def read_write_same read_write_apart le_bytes_4 write_bytes_outside)
  next
    case False
    let ?m' = "write_bytes q v m"
    have "gpr_assign sz p v m = ?m'" using False by (simp add: gpr_assign_def gpr_deref_mut_def gpr_write_def pq)
    moreover have "gpr_read 8 q ?m' = v @ drop sz (gpr_read 8 q m)"
      by (subst (1 2) split) (simp add: assms(3) read_write_same read_write_apart)
    moreover have "?m' a = m a" if "a < q \<or> q + 8 \<le> a" for a
      by (rule write_bytes_outside) (use that assms(3,4) in auto)
    ultimately show ?thesis using False by simp
  qed
qed

theorem gpr_assign_as_processor_witness:
  "gpr_read 8 4112 (gpr_assign 4 4112 [1, 2, 3, 4] (\<lambda>_. 9)) = [1, 2, 3, 4, 0, 0, 0, 0]"
  using gpr_assign_as_processor [of example_context 4 1 4112 4112 "[1, 2, 3, 4]" "\<lambda>_. 9"]
  by (simp add: gpr_resolve_def)

lemmas tables = GPR64_def GPR32_def GPR16_def GPR8_def FLAGS_def STS_def XMMS_def YMMS_def ZMMS_def KMASKS_def

text \<open>
  The table of names covers the register file: each size of the general purpose registers, the x87,
  XMM, YMM and mask registers are each listed once, in the order of their encoding; but the names
  Zmm30 and Zmm31 stand for a 256-bit register that is not defined, so no name reaches ZMM30 and ZMM31.
\<close>

theorem table_covers_registers:
  "map snd GPR64 = map (Gpr 8) [0..<16] \<and> map snd GPR32 = map (Gpr 4) [0..<16]
   \<and> map snd GPR16 = map (Gpr 2) [0..<16] \<and> map snd GPR8 = map (Gpr 1) [0..<16]
   \<and> map snd STS = map St [0..<8] \<and> map snd XMMS = map Xmm [0..<16] \<and> map snd YMMS = map Ymm [0..<16]
   \<and> map snd KMASKS = map Kmask [0..<8] \<and> distinct (map fst REGISTERS)
   \<and> map fst (filter (\<lambda>(_, r). \<not> reg_defined r) REGISTERS) = [''Zmm30'', ''Zmm31'']
   \<and> map snd ZMMS = map Zmm [0..<30] @ [Ymm 30, Ymm 31]"
  by (intro conjI; code_simp)
end
