(* ===== verification/Place.thy ===== *)
theory Place
  imports Registers
begin

text \<open>
  Calling a hook with resolved registers (\<open>hook/custom/place.rs\<close>): the check against duplicate
  register arguments, stack references, and the wrappers that let a closure be called once.
\<close>

section \<open>Duplicate registers\<close>

text \<open>The loop of \<open>has_dupes\<close>; \<open>None\<close> is an index out of bounds.\<close>

fun dupes_loop :: "bool list \<Rightarrow> bool \<Rightarrow> nat option list \<Rightarrow> bool option" where
  "dupes_loop slots dup [] = Some dup"
| "dupes_loop slots dup (None # us) = dupes_loop slots dup us"
| "dupes_loop slots dup (Some u # us) =
     (if u < length slots then dupes_loop (slots[u := True]) (dup \<or> slots ! u) us else None)"

definition has_dupes :: "nat option list \<Rightarrow> bool option" where
  "has_dupes us = dupes_loop (replicate 32 False) False us"

text \<open>The numbers that are present.\<close>

fun somes :: "nat option list \<Rightarrow> nat list" where
  "somes [] = []"
| "somes (None # us) = somes us"
| "somes (Some u # us) = u # somes us"

lemma set_somes: "u \<in> set (somes us) \<longleftrightarrow> Some u \<in> set us"
  by (induction us rule: somes.induct) auto

lemma dupes_loop_iff:
  "length slots = 32 \<Longrightarrow> dupes_loop slots dup us = Some b \<longleftrightarrow>
    (\<forall>u \<in> set (somes us). u < 32) \<and>
    b = (dup \<or> \<not> distinct (somes us) \<or> (\<exists>u \<in> set (somes us). slots ! u))"
proof (induction slots dup us rule: dupes_loop.induct)
  case (3 slots dup u us)
  show ?case
  proof (cases "u < 32")
    case True
    have "slots[u := True] ! x \<longleftrightarrow> x = u \<or> slots ! x" for x
      using True 3(2) by (cases "x = u") auto
    with True 3 show ?thesis by (simp add: Bex_def) blast
  qed (use 3 in simp)
qed auto

lemma has_dupes_iff:
  "has_dupes us = Some b \<longleftrightarrow> (\<forall>u \<in> set (somes us). u < 32) \<and> b = (\<not> distinct (somes us))"
proof -
  have "\<not> (\<exists>u \<in> set (somes us). replicate 32 False ! u)" if "\<forall>u \<in> set (somes us). u < 32"
    using that by auto
  then show ?thesis unfolding has_dupes_def by (subst dupes_loop_iff) auto
qed

lemma no_dupes_distinct:
  "distinct (somes us) \<Longrightarrow> i < j \<Longrightarrow> j < length us \<Longrightarrow> us ! i = Some a \<Longrightarrow> us ! j = Some b \<Longrightarrow> a \<noteq> b"
proof (induction us arbitrary: i j)
  case (Cons u us)
  then obtain j' where j: "j = Suc j'" "j' < length us" "us ! j' = Some b" by (cases j) auto
  then have b: "b \<in> set (somes us)" by (metis nth_mem set_somes)
  show ?case
  proof (cases i)
    case 0
    with Cons.prems b show ?thesis by auto
  next
    case (Suc i')
    with Cons.prems j Cons.IH [of i' j'] show ?thesis by (cases u) auto
  qed
qed simp

section \<open>Arguments that cannot interfere\<close>

text \<open>The bytes a register with a unique number may read or, but for ZMM0 to ZMM15, write.\<close>

definition slot :: "context_ptrs \<Rightarrow> nat \<Rightarrow> nat \<Rightarrow> bool" where
  "slot c k a \<longleftrightarrow>
     (if k < 16 then legacy_ptr c + 8 + 8 * k \<le> a \<and> a < legacy_ptr c + 16 + 8 * k
      else xmm_area c + 16 * (k - 16) \<le> a \<and> a < xmm_area c + 16 * (k - 16) + 16
        \<or> avx_ptr c \<noteq> 0 \<and> avx_ptr c + 16 * (k - 16) \<le> a \<and> a < avx_ptr c + 16 * (k - 16) + 16
        \<or> avx512_ptr c \<noteq> 0 \<and> zmm_h_area c + 32 * (k - 16) \<le> a \<and> a < zmm_h_area c + 32 * (k - 16) + 32)"

lemma slots_apart:
  assumes c: "context_ok c" and k: "k < 32" "k' < 32" "k \<noteq> k'" and a: "slot c k a" "slot c k' a"
  shows False
proof -
  have xz: "xmm_area c = legacy_ptr c + 304" "zmm_h_area c = avx512_ptr c + 64"
    by (simp_all add: xmm_area_def zmm_h_area_def)
  have far: "k < 16 \<Longrightarrow> slot c k a \<Longrightarrow> a < legacy_ptr c + 136" "16 \<le> k \<Longrightarrow> slot c k a \<Longrightarrow> legacy_ptr c + 304 \<le> a" for k
    using c by (auto simp: slot_def xz context_ok_def)
  show False
  proof (cases "k < 16"; cases "k' < 16")
    assume "k < 16" "k' < 16"
    then show False using k(3) a by (auto simp: slot_def)
  next
    assume "\<not> k < 16" "\<not> k' < 16"
    then show False using k a c by (auto simp: slot_def xz context_ok_def)
  qed (use far a in \<open>force+\<close>)
qed

lemma write_bytes_frame: "write_bytes p v m a \<noteq> m a \<Longrightarrow> p \<le> a \<and> a < p + length v"
  by (metis write_bytes_outside)

lemma reg_write_in_slot:
  assumes "unique r = Some k" "\<And>n. r \<noteq> Zmm n" "reg_write c r v m = Some m'" "length v = reg_len r" "\<not> slot c k a"
  shows "m' a = m a"
  using assms
  by (cases r)
    (auto simp: place_defs slot_def split: if_splits intro!: write_bytes_outside trans [OF write_bytes_outside write_bytes_outside])

lemma reg_read_in_slot:
  assumes "unique r = Some k" "reg_defined r" "\<And>a. slot c k a \<Longrightarrow> m a = m' a"
  shows "reg_read c r m = reg_read c r m'"
proof (cases r)
  case (Zmm n)
  with assms(1) have n: "n < 16" "k = n + 16" by (auto split: if_splits)
  have hi: "read_bytes m (avx_ptr c + 16 * n) 16 = read_bytes m' (avx_ptr c + 16 * n) 16" if "avx_ptr c \<noteq> 0"
    by (rule read_bytes_cong, rule assms(3)) (use n that in \<open>simp add: slot_def\<close>)
  have lo: "read_bytes m (xmm_area c + 16 * n) 16 = read_bytes m' (xmm_area c + 16 * n) 16"
    by (rule read_bytes_cong, rule assms(3)) (use n in \<open>simp add: slot_def\<close>)
  have zh: "read_bytes m (zmm_h_area c + 32 * n) 32 = read_bytes m' (zmm_h_area c + 32 * n) 32" if "avx512_ptr c \<noteq> 0"
    by (rule read_bytes_cong, rule assms(3)) (use n that in \<open>simp add: slot_def\<close>)
  show ?thesis using n lo hi zh by (auto simp: Zmm zmm_read_def ymm_area_def)
next
  case (Ymm n)
  with assms(1) have n: "k = n + 16" by simp
  have hi: "read_bytes m (avx_ptr c + 16 * n) 16 = read_bytes m' (avx_ptr c + 16 * n) 16" if "avx_ptr c \<noteq> 0"
    by (rule read_bytes_cong, rule assms(3)) (use n that in \<open>simp add: slot_def\<close>)
  have lo: "read_bytes m (xmm_area c + 16 * n) 16 = read_bytes m' (xmm_area c + 16 * n) 16"
    by (rule read_bytes_cong, rule assms(3)) (use n in \<open>simp add: slot_def\<close>)
  show ?thesis using lo hi by (auto simp: Ymm ymm_read_def ymm_area_def)
next
  case (Xmm n)
  with assms(1) have n: "k = n + 16" by simp
  have "read_bytes m (xmm_area c + 16 * n) 16 = read_bytes m' (xmm_area c + 16 * n) 16"
    by (rule read_bytes_cong, rule assms(3)) (use n in \<open>simp add: slot_def\<close>)
  then show ?thesis by (simp add: Xmm xmm_resolve_def)
next
  case (Gpr sz n)
  with assms(1,2) have n: "k = n" "n < 16" "sz \<le> 8" by auto
  have "read_bytes m (legacy_ptr c + 8 + 8 * n) sz = read_bytes m' (legacy_ptr c + 8 + 8 * n) sz"
    by (rule read_bytes_cong, rule assms(3)) (use n in \<open>simp add: slot_def\<close>)
  then show ?thesis by (simp add: Gpr gpr_resolve_def gpr_read_def)
qed (use assms(1) in simp_all)

text \<open>
  The compile-time check does what it is for: if a hook's argument list is accepted, writing one
  general purpose or vector argument (XMM or YMM) never changes what another such argument, of any
  width, reads; the check itself never indexes out of bounds.
\<close>

theorem accepted_arguments_independent:
  assumes "context_ok c" "\<And>r. r \<in> set rs \<Longrightarrow> reg_defined r"
    and "has_dupes (map unique rs) \<noteq> Some True" "i < length rs" "j < length rs" "i \<noteq> j"
    and "unique (rs ! i) \<noteq> None" "unique (rs ! j) \<noteq> None" "\<And>n. rs ! i \<noteq> Zmm n"
    and "reg_write c (rs ! i) v m = Some m'" "length v = reg_len (rs ! i)"
  shows "reg_read c (rs ! j) m' = reg_read c (rs ! j) m"
proof -
  let ?us = "map unique rs"
  have bound: "u < 32" if "unique r = Some u" "r \<in> set rs" for r u
    using assms(2) [OF that(2)] that(1) by (cases r) (auto split: if_splits)
  have "\<forall>u \<in> set (somes ?us). u < 32" using bound by (auto simp: set_somes)
  then have "has_dupes ?us = Some (\<not> distinct (somes ?us))" by (simp add: has_dupes_iff)
  with assms(3) have dis: "distinct (somes ?us)" by simp
  obtain ki kj where k: "unique (rs ! i) = Some ki" "unique (rs ! j) = Some kj" using assms(7,8) by auto
  have ne: "ki \<noteq> kj" using no_dupes_distinct [OF dis, of i j ki kj] no_dupes_distinct [OF dis, of j i kj ki] assms(4-6) k
    by (cases "i < j") auto
  have "m' a = m a" if "slot c kj a" for a
  proof (rule reg_write_in_slot [OF k(1) assms(9) assms(10,11)], rule notI)
    assume "slot c ki a"
    with slots_apart [OF assms(1) bound bound ne, of "rs ! i" "rs ! j" a] k assms(4,5) that show False by simp
  qed
  with reg_read_in_slot [OF k(2) assms(2), of c m' m] assms(5) show ?thesis by simp
qed

theorem accepted_arguments_independent_witness:
  "\<exists>m'. reg_write example_context (Gpr 8 0) [1, 2, 3, 4, 5, 6, 7, 8] (\<lambda>_. 0) = Some m'
    \<and> reg_read example_context (Ymm 0) m' = reg_read example_context (Ymm 0) (\<lambda>_. 0)"
proof -
  let ?m' = "gpr_write 4104 [1, 2, 3, 4, 5, 6, 7, 8] (\<lambda>_. 0)"
  have m': "reg_write example_context (Gpr 8 0) [1, 2, 3, 4, 5, 6, 7, 8] (\<lambda>_. 0) = Some ?m'"
    by (simp add: gpr_resolve_def)
  have "reg_read example_context ([Gpr 8 0, Ymm 0, Flag 0] ! 1) ?m' = reg_read example_context ([Gpr 8 0, Ymm 0, Flag 0] ! 1) (\<lambda>_. 0)"
    by (rule accepted_arguments_independent [of example_context "[Gpr 8 0, Ymm 0, Flag 0]" 0 1 "[1, 2, 3, 4, 5, 6, 7, 8]"])
      (use m' in \<open>auto simp: has_dupes_iff\<close>)
  with m' show ?thesis by (intro exI [of _ ?m']) simp
qed

section \<open>Hooks that run once\<close>

text \<open>
  \<open>FnOnceWrapper\<close>: the closure behind a mutex and a flag that spares later calls the lock. Every
  thread that enters the hook runs \<open>call_with_resolved\<close>; the memory operations of the threads
  interleave.
\<close>

record once_wrapper =
  once_inner :: "nat option"
  once_flag :: bool

definition once_new :: "nat \<Rightarrow> once_wrapper" where
  "once_new f = \<lparr>once_inner = Some f, once_flag = True\<rparr>"

datatype once_pc = Once_enter | Once_take | Once_store nat | Once_call nat | Once_done

text \<open>The guard of the mutex is dropped at the end of the inner block, so the lock covers the \<open>take\<close>.\<close>

definition once_load :: "once_wrapper \<Rightarrow> once_pc" where
  "once_load w = (if once_flag w then Once_take else Once_done)"

definition once_take :: "once_wrapper \<Rightarrow> once_pc \<times> once_wrapper" where
  "once_take w = (case once_inner w of
     Some f \<Rightarrow> (Once_store f, w\<lparr>once_inner := None\<rparr>)
   | None \<Rightarrow> (Once_done, w))"

definition once_store :: "once_wrapper \<Rightarrow> once_wrapper" where
  "once_store w = w\<lparr>once_flag := False\<rparr>"

record once_system =
  once_shared :: once_wrapper
  once_pcs :: "nat \<Rightarrow> once_pc"
  once_calls :: "(nat \<times> nat) list"

inductive once_step :: "once_system \<Rightarrow> once_system \<Rightarrow> bool" where
  load: "once_pcs s t = Once_enter \<Longrightarrow>
    once_step s (s\<lparr>once_pcs := (once_pcs s)(t := once_load (once_shared s))\<rparr>)"
| take: "once_pcs s t = Once_take \<Longrightarrow> once_take (once_shared s) = (pc, w) \<Longrightarrow>
    once_step s (s\<lparr>once_shared := w, once_pcs := (once_pcs s)(t := pc)\<rparr>)"
| store: "once_pcs s t = Once_store f \<Longrightarrow>
    once_step s (s\<lparr>once_shared := once_store (once_shared s), once_pcs := (once_pcs s)(t := Once_call f)\<rparr>)"
| call: "once_pcs s t = Once_call f \<Longrightarrow>
    once_step s (s\<lparr>once_pcs := (once_pcs s)(t := Once_done), once_calls := once_calls s @ [(t, f)]\<rparr>)"

definition once_start :: "nat \<Rightarrow> once_system" where
  "once_start f = \<lparr>once_shared = once_new f, once_pcs = \<lambda>_. Once_enter, once_calls = []\<rparr>"

definition holds_closure :: "nat \<Rightarrow> once_pc \<Rightarrow> bool" where
  "holds_closure f pc \<longleftrightarrow> pc = Once_store f \<or> pc = Once_call f"

definition outside :: "once_pc \<Rightarrow> bool" where
  "outside pc \<longleftrightarrow> pc = Once_enter \<or> pc = Once_take \<or> pc = Once_done"

text \<open>Either nobody has taken the closure yet, or one thread holds it, or that thread has called it.\<close>

definition once_free :: "nat \<Rightarrow> once_system \<Rightarrow> bool" where
  "once_free f s \<longleftrightarrow> once_inner (once_shared s) = Some f \<and> once_flag (once_shared s) \<and> once_calls s = []
     \<and> (\<forall>t. once_pcs s t = Once_enter \<or> once_pcs s t = Once_take)"

definition once_held :: "nat \<Rightarrow> nat \<Rightarrow> once_system \<Rightarrow> bool" where
  "once_held f h s \<longleftrightarrow> once_inner (once_shared s) = None \<and> once_calls s = [] \<and> holds_closure f (once_pcs s h)
     \<and> (\<forall>t. t \<noteq> h \<longrightarrow> outside (once_pcs s t))"

definition once_called :: "nat \<Rightarrow> nat \<Rightarrow> once_system \<Rightarrow> bool" where
  "once_called f h s \<longleftrightarrow> once_inner (once_shared s) = None \<and> once_calls s = [(h, f)] \<and> (\<forall>t. outside (once_pcs s t))"

definition once_inv :: "nat \<Rightarrow> once_system \<Rightarrow> bool" where
  "once_inv f s \<longleftrightarrow> once_free f s \<or> (\<exists>h. once_held f h s) \<or> (\<exists>h. once_called f h s)"

lemmas once_defs = once_free_def once_held_def once_called_def outside_def holds_closure_def
  once_load_def once_take_def once_store_def

lemma once_inv_start: "once_inv f (once_start f)"
  by (simp add: once_inv_def once_free_def once_start_def once_new_def)

lemma once_free_step:
  "once_step s s' \<Longrightarrow> once_free f s \<Longrightarrow> once_free f s' \<or> (\<exists>h. once_held f h s')"
proof (induction rule: once_step.induct)
  case (take s t pc w)
  then have "once_held f t (s\<lparr>once_shared := w, once_pcs := (once_pcs s)(t := pc)\<rparr>)" by (auto simp: once_defs)
  then show ?case by blast
next
  case (store s t g) then show ?case by (auto simp: once_free_def dest: spec [of _ t])
next
  case (call s t g) then show ?case by (auto simp: once_free_def dest: spec [of _ t])
qed (auto simp: once_defs)

lemma once_held_step:
  "once_step s s' \<Longrightarrow> once_held f h s \<Longrightarrow> once_held f h s' \<or> once_called f h s'"
proof (induction rule: once_step.induct)
  case (load s t) then show ?case by (cases "t = h") (auto simp: once_defs)
next
  case (take s t pc w) then show ?case by (cases "t = h") (auto simp: once_defs)
next
  case (store s t g) then show ?case by (cases "t = h") (auto simp: once_defs)
next
  case (call s t g) then show ?case by (cases "t = h") (auto simp: once_defs)
qed

lemma once_called_step: "once_step s s' \<Longrightarrow> once_called f h s \<Longrightarrow> once_called f h s'"
proof (induction rule: once_step.induct)
  case (store s t g) then show ?case by (auto simp: once_defs dest: spec [of _ t])
next
  case (call s t g) then show ?case by (auto simp: once_defs dest: spec [of _ t])
qed (auto simp: once_defs)

lemma once_inv_step: "once_step s s' \<Longrightarrow> once_inv f s \<Longrightarrow> once_inv f s'"
  unfolding once_inv_def using once_free_step once_held_step once_called_step by blast

lemma once_inv_reachable: "once_step\<^sup>*\<^sup>* (once_start f) s \<Longrightarrow> once_inv f s"
  by (induction rule: rtranclp_induct) (use once_inv_start once_inv_step in blast)+

text \<open>
  C32. A hook installed with \<open>hook_once\<close> runs at most once, whatever threads enter it and however
  they interleave, and it is not lost: when a thread has left the hook while none is inside it, the
  closure has been called, exactly once.
\<close>

theorem hook_once_runs_once:
  assumes "once_step\<^sup>*\<^sup>* (once_start f) s"
  shows "length (once_calls s) \<le> 1 \<and> (\<forall>t. (\<forall>u. once_pcs s u = Once_enter \<or> once_pcs s u = Once_done) \<longrightarrow>
    once_pcs s t = Once_done \<longrightarrow> map snd (once_calls s) = [f])"
proof -
  consider "once_free f s" | h where "once_held f h s" | h where "once_called f h s"
    using once_inv_reachable [OF assms] unfolding once_inv_def by blast
  then show ?thesis
  proof cases
    case 1
    then show ?thesis unfolding once_free_def by (metis list.size(3) once_pc.distinct zero_le)
  next
    case (2 h)
    then have "once_calls s = []" "once_pcs s h \<noteq> Once_enter" "once_pcs s h \<noteq> Once_done"
      by (auto simp: once_held_def holds_closure_def)
    then show ?thesis by auto
  qed (simp add: once_called_def)
qed

theorem hook_once_runs_once_witness:
  "\<exists>s. once_step\<^sup>*\<^sup>* (once_start 7) s \<and> length (once_calls s) \<le> 1 \<and> once_calls s = [(3, 7)]"
proof -
  let ?s = "once_start 7" and ?done = "\<lparr>once_inner = None, once_flag = False\<rparr>"
  let ?pc = "\<lambda>pc. (\<lambda>_. Once_enter)(3 := pc)"
  let ?s1 = "\<lparr>once_shared = once_new 7, once_pcs = ?pc Once_take, once_calls = []\<rparr>"
  let ?s2 = "\<lparr>once_shared = \<lparr>once_inner = None, once_flag = True\<rparr>, once_pcs = ?pc (Once_store 7), once_calls = []\<rparr>"
  let ?s3 = "\<lparr>once_shared = ?done, once_pcs = ?pc (Once_call 7), once_calls = []\<rparr>"
  let ?s4 = "\<lparr>once_shared = ?done, once_pcs = ?pc Once_done, once_calls = [(3, 7)]\<rparr>"
  have 1: "once_step ?s ?s1" using once_step.load [of ?s 3] by (simp add: once_start_def once_new_def once_load_def)
  have 2: "once_step ?s1 ?s2" using once_step.take [of ?s1 3] by (simp add: once_new_def once_take_def)
  have 3: "once_step ?s2 ?s3" using once_step.store [of ?s2 3 7] by (simp add: once_store_def)
  have 4: "once_step ?s3 ?s4" using once_step.call [of ?s3 3 7] by simp
  have run: "once_step\<^sup>*\<^sup>* ?s ?s4" using 1 2 3 4 by (meson converse_rtranclp_into_rtranclp rtranclp.rtrancl_refl)
  from hook_once_runs_once [OF run] run show ?thesis by (intro exI [of _ ?s4]) simp
qed

end
