(* ===== verification/Context_Save.thy ===== *)
theory Context_Save
  imports Registers Jmp_Encoding
begin

text \<open>
  Saving and restoring the registers around a custom hook (\<open>hook/custom/x86_64/context_save.rs\<close>):
  the stub written for each hook, and the assembly routines \<open>save_proc\<close>, \<open>xsave\<close>, \<open>xsave_proc\<close>,
  \<open>xsavec_proc\<close> and \<open>xrstor\<close>, instruction by instruction, on a small machine. Registers have the
  numbers of their encoding (\<open>RAX\<close> is 0, \<open>RSP\<close> 4, \<open>RBP\<close> 5). The extended processor state, the
  \<open>XSAVE\<close> instructions, the flags an arithmetic instruction leaves and the compiled hook are
  parameters of the machine.
\<close>

section \<open>The stub\<close>

definition ContextSave :: struct where
  "ContextSave = [(''lea_rsp_sub_80'', 5, 1), (''call_proc_abs'', 6, 1), (''lea_rsp_add_80'', 8, 1),
     (''jmp_next_abs'', 6, 1), (''ud2'', 2, 1), (''data'', 8, 8), (''proc'', 8, 8), (''next'', 8, 8)]"

lemma contextsave_offsets [simp]:
  "offset_of ContextSave ''lea_rsp_sub_80'' = 0" "offset_of ContextSave ''call_proc_abs'' = 5"
  "offset_of ContextSave ''lea_rsp_add_80'' = 11" "offset_of ContextSave ''jmp_next_abs'' = 19"
  "offset_of ContextSave ''ud2'' = 25" "offset_of ContextSave ''data'' = 32"
  "offset_of ContextSave ''proc'' = 40" "offset_of ContextSave ''next'' = 48"
  unfolding ContextSave_def by (simp_all add: offset_of_def align_up_def)

definition lea_rsp_m_disp8 :: "int \<Rightarrow> byte list" where
  "lea_rsp_m_disp8 d = [0x48, 0x8d, 0x64, 0x24] @ le_bytes 1 d"

definition lea_rsp_m_disp32 :: "int \<Rightarrow> byte list" where
  "lea_rsp_m_disp32 d = [0x48, 0x8d, 0xa4, 0x24] @ le_bytes 4 d"

definition call_abs :: "int \<Rightarrow> byte list" where
  "call_abs d = [0xff, 0x15] @ le_bytes 4 d"

definition save_jmp_abs :: "int \<Rightarrow> byte list" where
  "save_jmp_abs d = [0xff, 0x25] @ le_bytes 4 d"

record context_save =
  cs_data :: nat
  cs_proc :: nat
  cs_next :: nat

definition CALL_DISP :: int where
  "CALL_DISP = int (offset_of ContextSave ''proc'') - int (offset_of ContextSave ''lea_rsp_add_80'')"

definition JMP_DISP :: int where
  "JMP_DISP = int (offset_of ContextSave ''next'') - int (offset_of ContextSave ''ud2'')"

definition context_save_new :: "nat \<Rightarrow> nat \<Rightarrow> context_save" where
  "context_save_new data proc = \<lparr>cs_data = data, cs_proc = proc, cs_next = 0\<rparr>"

definition context_save_chain :: "nat \<Rightarrow> context_save \<Rightarrow> context_save" where
  "context_save_chain next cs = cs\<lparr>cs_next := next\<rparr>"

text \<open>The bytes of the structure; five bytes of padding precede the data pointer.\<close>

definition context_save_bytes :: "context_save \<Rightarrow> byte list" where
  "context_save_bytes cs = lea_rsp_m_disp8 (- 0x80) @ call_abs CALL_DISP @ lea_rsp_m_disp32 0x80
     @ save_jmp_abs JMP_DISP @ [0x0f, 0x0b] @ replicate 5 0
     @ le_bytes 8 (int (cs_data cs)) @ le_bytes 8 (int (cs_proc cs)) @ le_bytes 8 (int (cs_next cs))"

section \<open>The machine\<close>

definition read64 :: "nat \<Rightarrow> memory \<Rightarrow> nat" where
  "read64 a m = nat (from_le (read_bytes m a 8))"

definition write64 :: "nat \<Rightarrow> nat \<Rightarrow> memory \<Rightarrow> memory" where
  "write64 a v m = write_bytes a (le_bytes 8 (int v)) m"

record 'x machine =
  m_regs :: "nat \<Rightarrow> nat"
  m_flags :: nat
  m_rip :: nat
  m_xstate :: 'x
  m_mem :: memory

text \<open>
  Blocks of straight-line code; a block ends where control leaves it, and what follows a call is a
  block of its own. \<open>Call_proc\<close> is the compiled hook.
\<close>

datatype label = Stub | Stub_ret | Save_proc | Save_ret1 | Save_ret2 | Xsave | Xsave_ret
  | Xsave_leaf | Xsavec_leaf | Xrstor | Call_proc

datatype insn =
    Pushfq | Popfq | Push nat | Pop nat | Push_mem nat nat
  | Mov nat nat | Load nat nat nat | Store nat nat nat | Lea nat nat int
  | And_neg64 nat | Sub_imm nat nat | Sub_size nat | Zero32 nat | Load_bv nat
  | Xsave_mem nat nat | Xrstor_mem nat nat
  | Call label label | Call_rip nat int label | Call_flavor label | Jmp label | Jmp_mem nat nat | Jmp_rip nat int | Ret

record 'x environment =
  e_stub :: nat
  e_addr :: "label \<Rightarrow> nat"
  e_cfg :: xsave_config
  e_xsave :: "nat \<Rightarrow> 'x \<Rightarrow> byte list \<Rightarrow> byte list"
  e_xrstor :: "nat \<Rightarrow> byte list \<Rightarrow> 'x \<Rightarrow> 'x"
  e_alu :: "nat \<Rightarrow> nat"
  e_hook :: "'x machine \<Rightarrow> 'x machine"

text \<open>The stub lies in allocated memory, the routines in the library's code.\<close>

definition addr_of :: "'x environment \<Rightarrow> label \<Rightarrow> nat" where
  "addr_of e l = (case l of
     Stub \<Rightarrow> e_stub e
   | Stub_ret \<Rightarrow> e_stub e + offset_of ContextSave ''lea_rsp_add_80''
   | _ \<Rightarrow> e_addr e l)"

definition offset_addr :: "nat \<Rightarrow> int \<Rightarrow> nat" where
  "offset_addr a d = nat ((int a + d) mod int usize_size)"

definition set_reg :: "nat \<Rightarrow> nat \<Rightarrow> 'x machine \<Rightarrow> 'x machine" where
  "set_reg r v s = s\<lparr>m_regs := (m_regs s)(r := v)\<rparr>"

definition push :: "nat \<Rightarrow> 'x machine \<Rightarrow> 'x machine" where
  "push v s = (let sp = wrapping_sub (m_regs s 4) 8
     in s\<lparr>m_regs := (m_regs s)(4 := sp), m_mem := write64 sp v (m_mem s)\<rparr>)"

definition pop :: "'x machine \<Rightarrow> nat \<times> 'x machine" where
  "pop s = (read64 (m_regs s 4) (m_mem s), s\<lparr>m_regs := (m_regs s)(4 := (m_regs s 4 + 8) mod usize_size)\<rparr>)"

definition ea :: "'x machine \<Rightarrow> nat \<Rightarrow> nat \<Rightarrow> nat" where
  "ea s base disp = (m_regs s base + disp) mod usize_size"

text \<open>The component bitmap of the \<open>XSAVE\<close> instructions is \<open>edx:eax\<close>.\<close>

definition xmask :: "'x machine \<Rightarrow> nat" where
  "xmask s = m_regs s 2 mod 4294967296 * 4294967296 + m_regs s 0 mod 4294967296"

fun exec1 :: "'x environment \<Rightarrow> insn \<Rightarrow> 'x machine \<Rightarrow> 'x machine" where
  "exec1 e Pushfq s = push (m_flags s) s"
| "exec1 e Popfq s = (case pop s of (v, s') \<Rightarrow> s'\<lparr>m_flags := v\<rparr>)"
| "exec1 e (Push r) s = push (m_regs s r) s"
| "exec1 e (Pop r) s = (case pop s of (v, s') \<Rightarrow> set_reg r v s')"
| "exec1 e (Push_mem b d) s = push (read64 (ea s b d) (m_mem s)) s"
| "exec1 e (Mov d r) s = set_reg d (m_regs s r) s"
| "exec1 e (Load r b d) s = set_reg r (read64 (ea s b d) (m_mem s)) s"
| "exec1 e (Store b d r) s = s\<lparr>m_mem := write64 (ea s b d) (m_regs s r) (m_mem s)\<rparr>"
| "exec1 e (Lea r b d) s = set_reg r (offset_addr (m_regs s b) d) s"
| "exec1 e (And_neg64 r) s = (let v = align_down (m_regs s r) 64 in set_reg r v (s\<lparr>m_flags := e_alu e v\<rparr>))"
| "exec1 e (Sub_imm r n) s = (let v = wrapping_sub (m_regs s r) n in set_reg r v (s\<lparr>m_flags := e_alu e v\<rparr>))"
| "exec1 e (Sub_size r) s =
     (let v = wrapping_sub (m_regs s r) (XSAVE_SIZE (e_cfg e)) in set_reg r v (s\<lparr>m_flags := e_alu e v\<rparr>))"
| "exec1 e (Zero32 r) s = set_reg r 0 (s\<lparr>m_flags := e_alu e 0\<rparr>)"
| "exec1 e (Load_bv r) s = set_reg r (unat (XSTATE_BV (e_cfg e)) mod 4294967296) s"
| "exec1 e (Xsave_mem b d) s = s\<lparr>m_mem := write_bytes (ea s b d)
     (e_xsave e (xmask s) (m_xstate s) (read_bytes (m_mem s) (ea s b d) (XSAVE_SIZE (e_cfg e)))) (m_mem s)\<rparr>"
| "exec1 e (Xrstor_mem b d) s = s\<lparr>m_xstate :=
     e_xrstor e (xmask s) (read_bytes (m_mem s) (ea s b d) (XSAVE_SIZE (e_cfg e))) (m_xstate s)\<rparr>"
| "exec1 e (Call l ret) s = (push (addr_of e ret) s)\<lparr>m_rip := addr_of e l\<rparr>"
| "exec1 e (Call_rip ip d ret) s = (push (addr_of e ret) s)\<lparr>m_rip := read64 (offset_addr ip d) (m_mem s)\<rparr>"
| "exec1 e (Call_flavor ret) s = (push (addr_of e ret) s)\<lparr>m_rip :=
     addr_of e (case XSAVE_FLAVOR (e_cfg e) of Xsave_proc \<Rightarrow> Xsave_leaf | Xsavec_proc \<Rightarrow> Xsavec_leaf)\<rparr>"
| "exec1 e (Jmp l) s = s\<lparr>m_rip := addr_of e l\<rparr>"
| "exec1 e (Jmp_mem b d) s = s\<lparr>m_rip := read64 (ea s b d) (m_mem s)\<rparr>"
| "exec1 e (Jmp_rip ip d) s = s\<lparr>m_rip := read64 (offset_addr ip d) (m_mem s)\<rparr>"
| "exec1 e Ret s = (case pop s of (v, s') \<Rightarrow> s'\<lparr>m_rip := v\<rparr>)"

section \<open>The routines\<close>

text \<open>The stub decoded: its two displacements count from the end of their instruction.\<close>

definition stub_code :: "'x environment \<Rightarrow> insn list" where
  "stub_code e = [Lea 4 4 (- 0x80), Call_rip (e_stub e + offset_of ContextSave ''lea_rsp_add_80'') CALL_DISP Stub_ret]"

definition stub_ret_code :: "'x environment \<Rightarrow> insn list" where
  "stub_ret_code e = [Lea 4 4 0x80, Jmp_rip (e_stub e + offset_of ContextSave ''ud2'') JMP_DISP]"

definition save_proc_code :: "insn list" where "save_proc_code = [Call Xsave Save_ret1]"
definition save_ret1_code :: "insn list" where "save_ret1_code = [Call Call_proc Save_ret2]"
definition save_ret2_code :: "insn list" where "save_ret2_code = [Jmp Xrstor]"

definition xsave_frame_code :: "insn list" where
  "xsave_frame_code = [Pushfq, Push 5, Mov 5 4, And_neg64 4, Sub_imm 4 0x68, Sub_size 4]"

definition xsave_regs_code :: "insn list" where
  "xsave_regs_code = [Push 3, Mov 3 4, Push 2, Push 1, Push 0, Push_mem 5 0x08, Zero32 2,
     Lea 0 5 0xa0, Store 3 0x08 0, Load 0 5 0, Store 3 0x10 0,
     Store 3 0x18 6, Store 3 0x20 7, Store 3 0x28 8, Store 3 0x30 9, Store 3 0x38 10, Store 3 0x40 11,
     Store 3 0x48 12, Store 3 0x50 13, Store 3 0x58 14, Store 3 0x60 15]"

definition xsave_header_code :: "insn list" where
  "xsave_header_code = [Load_bv 0,
     Store 3 0x270 2, Store 3 0x278 2, Store 3 0x280 2, Store 3 0x288 2,
     Store 3 0x290 2, Store 3 0x298 2, Store 3 0x2a0 2, Store 3 0x2a8 2,
     Call_flavor Xsave_ret]"

definition xsave_code :: "insn list" where
  "xsave_code = xsave_frame_code @ xsave_regs_code @ xsave_header_code"

definition xsave_leaf_code :: "insn list" where "xsave_leaf_code = [Xsave_mem 3 0x70, Ret]"
definition xsavec_leaf_code :: "insn list" where "xsavec_leaf_code = [Xsave_mem 3 0x70, Ret]"

definition xsave_ret_code :: "insn list" where
  "xsave_ret_code = [Load 7 5 0x18, Load 7 7 0x15, Mov 6 4, Jmp_mem 5 0x10]"

definition xrstor_code :: "insn list" where
  "xrstor_code = [Load_bv 0, Zero32 2, Xrstor_mem 3 0x70,
     Load 0 3 0x10, Store 5 0 0,
     Load 6 3 0x18, Load 7 3 0x20, Load 8 3 0x28, Load 9 3 0x30, Load 10 3 0x38, Load 11 3 0x40,
     Load 12 3 0x48, Load 13 3 0x50, Load 14 3 0x58, Load 15 3 0x60,
     Popfq, Pop 0, Pop 1, Pop 2, Pop 3, Mov 4 5, Pop 5, Lea 4 4 0x10, Ret]"

definition exec :: "'x environment \<Rightarrow> insn list \<Rightarrow> 'x machine \<Rightarrow> 'x machine" where
  "exec e is s = fold (exec1 e) is s"

definition LABELS :: "label list" where
  "LABELS = [Stub, Stub_ret, Save_proc, Save_ret1, Save_ret2, Xsave, Xsave_ret, Xsave_leaf, Xsavec_leaf, Xrstor, Call_proc]"

definition run_block :: "'x environment \<Rightarrow> label \<Rightarrow> 'x machine \<Rightarrow> 'x machine" where
  "run_block e l = (case l of
     Stub \<Rightarrow> exec e (stub_code e) | Stub_ret \<Rightarrow> exec e (stub_ret_code e)
   | Save_proc \<Rightarrow> exec e save_proc_code | Save_ret1 \<Rightarrow> exec e save_ret1_code | Save_ret2 \<Rightarrow> exec e save_ret2_code
   | Xsave \<Rightarrow> exec e xsave_code | Xsave_ret \<Rightarrow> exec e xsave_ret_code
   | Xsave_leaf \<Rightarrow> exec e xsave_leaf_code | Xsavec_leaf \<Rightarrow> exec e xsavec_leaf_code
   | Xrstor \<Rightarrow> exec e xrstor_code | Call_proc \<Rightarrow> e_hook e)"

text \<open>Run at most \<open>n\<close> blocks, as long as the instruction pointer is at one.\<close>

fun run_machine :: "nat \<Rightarrow> 'x environment \<Rightarrow> 'x machine \<Rightarrow> 'x machine" where
  "run_machine 0 e s = s"
| "run_machine (Suc n) e s = (case find (\<lambda>l. addr_of e l = m_rip s) LABELS of
     None \<Rightarrow> s | Some l \<Rightarrow> run_machine n e (run_block e l s))"


section \<open>Memory and addresses\<close>

lemma read64_write64_same [simp]: "v < usize_size \<Longrightarrow> read64 a (write64 a v m) = v"
  by (simp add: read64_def write64_def read_write_same from_le_bytes usize_defs)

lemma read64_write64_apart: "a + 8 \<le> b \<or> b + 8 \<le> a \<Longrightarrow> read64 b (write64 a v m) = read64 b m"
  by (simp add: read64_def write64_def read_write_apart)

lemma read64_write_bytes_apart: "a + length bs \<le> b \<or> b + 8 \<le> a \<Longrightarrow> read64 b (write_bytes a bs m) = read64 b m"
  by (simp add: read64_def read_write_apart)

lemma read64_bound [simp]: "read64 a m < usize_size"
  using from_le_bounds [of "read_bytes m a 8"] by (simp add: read64_def usize_defs nat_less_iff)

lemma offset_addr_pos: "0 \<le> d \<Longrightarrow> a + nat d < usize_size \<Longrightarrow> offset_addr a d = a + nat d"
  unfolding offset_addr_def by (subst mod_pos_pos_trivial) (simp_all add: nat_add_distrib)

lemma offset_addr_neg: "d < 0 \<Longrightarrow> nat (- d) \<le> a \<Longrightarrow> a < usize_size \<Longrightarrow> offset_addr a d = a - nat (- d)"
  unfolding offset_addr_def by (subst mod_pos_pos_trivial) (simp_all add: nat_diff_distrib' of_nat_diff nat_le_iff)

lemma displacements [simp]: "CALL_DISP = 29" "JMP_DISP = 23"
  by (simp_all add: CALL_DISP_def JMP_DISP_def)

lemma length_context_save_bytes [simp]: "length (context_save_bytes cs) = 56"
  by (simp add: context_save_bytes_def lea_rsp_m_disp8_def lea_rsp_m_disp32_def call_abs_def save_jmp_abs_def)

text \<open>The three pointers of a stub in memory.\<close>

lemma stub_pointers:
  assumes "read_bytes m stub 56 = context_save_bytes cs"
    and "cs_data cs < usize_size" "cs_proc cs < usize_size" "cs_next cs < usize_size"
  shows "read64 (stub + 32) m = cs_data cs \<and> read64 (stub + 40) m = cs_proc cs \<and> read64 (stub + 48) m = cs_next cs"
proof -
  have part: "read_bytes m (stub + k) 8 = take 8 (drop k (context_save_bytes cs))" if "k + 8 \<le> 56" for k
    using that by (simp add: assms(1) [symmetric] read_bytes_drop read_bytes_take)
  show ?thesis
    using assms(2-4) part [of 32] part [of 40] part [of 48]
    by (simp add: read64_def context_save_bytes_def lea_rsp_m_disp8_def lea_rsp_m_disp32_def call_abs_def
        save_jmp_abs_def from_le_bytes usize_defs)
qed

section \<open>The frame\<close>

text \<open>
  A machine about to enter a stub with room for the frame on its stack. \<open>R\<close> is where the routine
  keeps the caller's RBP, \<open>160\<close> bytes below the stack pointer, and \<open>L\<close> the saved registers.
\<close>

definition saved_at :: "'x environment \<Rightarrow> nat \<Rightarrow> nat" where
  "saved_at e sp = align_down (sp - 160) 64 - 144 - XSAVE_SIZE (e_cfg e)"

definition code_ok :: "'x environment \<Rightarrow> bool" where
  "code_ok e \<longleftrightarrow> distinct (map (addr_of e) LABELS) \<and> (\<forall>l. addr_of e l < usize_size) \<and> e_stub e + 56 < usize_size
     \<and> 576 \<le> XSAVE_SIZE (e_cfg e)
     \<and> (\<forall>k x bs. length bs = XSAVE_SIZE (e_cfg e) \<longrightarrow> length (e_xsave e k x bs) = XSAVE_SIZE (e_cfg e))"

definition stub_at :: "'x environment \<Rightarrow> nat \<Rightarrow> nat \<Rightarrow> memory \<Rightarrow> bool" where
  "stub_at e data nxt m \<longleftrightarrow> read_bytes m (e_stub e) 56
     = context_save_bytes (context_save_chain nxt (context_save_new data (addr_of e Save_proc)))"

definition entry_ok :: "'x environment \<Rightarrow> nat \<Rightarrow> nat \<Rightarrow> 'x machine \<Rightarrow> bool" where
  "entry_ok e data nxt s \<longleftrightarrow> code_ok e \<and> m_rip s = e_stub e \<and> stub_at e data nxt (m_mem s)
     \<and> data < usize_size \<and> nxt < usize_size
     \<and> (\<forall>r < 16. m_regs s r < usize_size) \<and> m_flags s < usize_size
     \<and> XSAVE_SIZE (e_cfg e) + 512 \<le> m_regs s 4
     \<and> (m_regs s 4 \<le> e_stub e \<or> e_stub e + XSAVE_SIZE (e_cfg e) + 512 \<le> m_regs s 4)"

lemma align64: "R < usize_size \<Longrightarrow> align_down R 64 \<le> R \<and> R < align_down R 64 + 64 \<and> align_down R 64 mod 64 = 0"
proof -
  assume "R < usize_size"
  then have "align_down R (2 ^ 6) = 2 ^ 6 * (R div 2 ^ 6)" by (intro align_down_pow2) simp_all
  then have "align_down R 64 = 64 * (R div 64)" by simp
  moreover have "R = 64 * (R div 64) + R mod 64" "R mod 64 < 64" by simp_all
  ultimately show ?thesis by (intro conjI; (linarith | simp))
qed
end
