(* ===== verification/Context_Run.thy ===== *)
theory Context_Run
  imports Context_Save
begin

text \<open>
  The runs of the context-saving routines: each block symbolically, then the way from the hooked
  function into the hook and back to the original code.
\<close>

section \<open>Blocks\<close>

lemma wrapping_sub_add: "x + k < usize_size \<Longrightarrow> wrapping_sub (x + k) k = x"
  by (simp add: wrapping_sub_le)

lemmas exec_rules = exec_def push_def pop_def set_reg_def ea_def Let_def

lemma exec_stub:
  assumes "m_regs s 4 = R + 160" "R + 160 < usize_size" "e_stub e + 56 < usize_size"
    and "read64 (e_stub e + 40) (m_mem s) = p" "R + 160 \<le> e_stub e \<or> e_stub e + 56 \<le> R"
  shows "exec e (stub_code e) s = s\<lparr>m_regs := (m_regs s)(4 := R + 24), m_rip := p,
    m_mem := write64 (R + 24) (addr_of e Stub_ret) (m_mem s)\<rparr>"
proof -
  have "offset_addr (R + 160) (- 128) = R + 32" using assms(2) by (simp add: offset_addr_neg)
  moreover have "wrapping_sub (R + 32) 8 = R + 24" using wrapping_sub_add [of "R + 24" 8] assms(2) by (simp add: add.commute)
  moreover have "offset_addr (e_stub e + 11) 29 = e_stub e + 40" using assms(3) by (simp add: offset_addr_pos)
  ultimately show ?thesis
    using assms by (simp add: stub_code_def exec_rules read64_write64_apart)
qed

lemma exec_save_proc:
  assumes "m_regs s 4 = R + 24" "R + 160 < usize_size"
  shows "exec e save_proc_code s = s\<lparr>m_regs := (m_regs s)(4 := R + 16), m_rip := addr_of e Xsave,
    m_mem := write64 (R + 16) (addr_of e Save_ret1) (m_mem s)\<rparr>"
proof -
  have "wrapping_sub (R + 24) 8 = R + 16" using wrapping_sub_add [of "R + 16" 8] assms(2) by (simp add: add.commute)
  with assms show ?thesis by (simp add: save_proc_code_def exec_rules)
qed

lemma exec_frame:
  assumes "m_regs s 4 = R + 16" "R + 160 < usize_size" "align_down R 64 = L + 144 + XSAVE_SIZE (e_cfg e)"
    "L + 144 + XSAVE_SIZE (e_cfg e) \<le> R"
  shows "exec e xsave_frame_code s = s\<lparr>m_regs := (m_regs s)(4 := L + 40, 5 := R),
    m_flags := e_alu e (L + 40), m_mem := write64 R (m_regs s 5) (write64 (R + 8) (m_flags s) (m_mem s))\<rparr>"
proof -
  have "wrapping_sub (R + 16) 8 = R + 8" "wrapping_sub (R + 8) 8 = R"
    using wrapping_sub_add [of "R + 8" 8] wrapping_sub_add [of R 8] assms(2) by (simp_all add: add.commute)
  moreover have "wrapping_sub (L + 144 + XSAVE_SIZE (e_cfg e)) 104 = L + XSAVE_SIZE (e_cfg e) + 40"
    using wrapping_sub_add [of "L + XSAVE_SIZE (e_cfg e) + 40" 104] assms(2,4) by (simp add: algebra_simps)
  moreover have "wrapping_sub (L + XSAVE_SIZE (e_cfg e) + 40) (XSAVE_SIZE (e_cfg e)) = L + 40"
    using wrapping_sub_add [of "L + 40" "XSAVE_SIZE (e_cfg e)"] assms(2,4) by (simp add: algebra_simps)
  ultimately show ?thesis
    using assms by (simp add: xsave_frame_code_def exec_rules fun_upd_twist)
qed


text \<open>The word of the frame that holds register \<open>n\<close>, and the frame filled in.\<close>

definition reg_slot :: "nat \<Rightarrow> nat \<Rightarrow> nat" where
  "reg_slot L n = L + 8 + 8 * n"

definition frame_mem :: "nat \<Rightarrow> (nat \<Rightarrow> nat) \<Rightarrow> nat \<Rightarrow> nat \<Rightarrow> nat \<Rightarrow> memory \<Rightarrow> memory" where
  "frame_mem L r sp bp fl m = fold (\<lambda>(k, v). write64 (L + k) v)
     [(32, r 3), (24, r 2), (16, r 1), (8, r 0), (0, fl), (40, sp), (48, bp), (56, r 6), (64, r 7), (72, r 8),
      (80, r 9), (88, r 10), (96, r 11), (104, r 12), (112, r 13), (120, r 14), (128, r 15)] m"

lemma exec_regs:
  assumes "m_regs s 4 = L + 40" "m_regs s 5 = R" "R + 160 < usize_size" "L + 144 \<le> R"
    and "read64 R (m_mem s) = bp" "read64 (R + 8) (m_mem s) = fl"
  shows "exec e xsave_regs_code s = s\<lparr>m_regs := (m_regs s)(4 := L, 3 := L + 32, 2 := 0, 0 := bp),
    m_flags := e_alu e 0, m_mem := frame_mem L (m_regs s) (R + 160) bp fl (m_mem s)\<rparr>"
proof -
  have pushes: "wrapping_sub (L + 40) 8 = L + 32" "wrapping_sub (L + 32) 8 = L + 24" "wrapping_sub (L + 24) 8 = L + 16"
      "wrapping_sub (L + 16) 8 = L + 8" "wrapping_sub (L + 8) 8 = L"
    using assms(3,4) wrapping_sub_add [of "L + 32" 8] wrapping_sub_add [of "L + 24" 8] wrapping_sub_add [of "L + 16" 8]
      wrapping_sub_add [of "L + 8" 8] wrapping_sub_add [of L 8]
    by (simp_all add: add.commute)
  have sp: "offset_addr R 160 = R + 160" using assms(3) by (simp add: offset_addr_pos)
  show ?thesis
    using assms pushes sp
    by (simp add: xsave_regs_code_def exec_rules frame_mem_def read64_write64_apart fun_upd_twist algebra_simps)
qed

lemma frame_mem_outside: "a < L \<or> L + 136 \<le> a \<Longrightarrow> frame_mem L r sp bp fl m a = m a"
  by (auto simp: frame_mem_def write64_def write_bytes_outside)

lemma frame_mem_flags: "fl < usize_size \<Longrightarrow> read64 L (frame_mem L r sp bp fl m) = fl"
  by (simp add: frame_mem_def read64_write64_apart)

lemma below_16: "n < 16 \<Longrightarrow> n \<in> {15, 13, 11, 9, 7, 5, 3, 1, 14, 12, 10, 8, 6, 4, 2, 0 :: nat}"
  by (simp; presburger)

lemma frame_mem_slots:
  assumes "n < 16" "r n < usize_size" "sp < usize_size" "bp < usize_size"
  shows "read64 (reg_slot L n) (frame_mem L r sp bp fl m) = (if n = 4 then sp else if n = 5 then bp else r n)"
proof -
  show ?thesis
    using assms(2-4) below_16 [OF assms(1)] by (elim insertE emptyE; simp add: frame_mem_def reg_slot_def read64_write64_apart add.commute [of L])
qed

text \<open>The header of the \<open>XSAVE\<close> area is cleared before the area is saved.\<close>

definition clear_header :: "nat \<Rightarrow> memory \<Rightarrow> memory" where
  "clear_header L m = fold (\<lambda>k. write64 (L + k) 0) [656, 664, 672, 680, 688, 696, 704, 712] m"

lemma clear_header_outside: "a < L + 656 \<or> L + 720 \<le> a \<Longrightarrow> clear_header L m a = m a"
  by (auto simp: clear_header_def write64_def write_bytes_outside)

definition bv32 :: "'x environment \<Rightarrow> nat" where
  "bv32 e = unat (XSTATE_BV (e_cfg e)) mod 4294967296"

definition xsave_leaf :: "'x environment \<Rightarrow> label" where
  "xsave_leaf e = (case XSAVE_FLAVOR (e_cfg e) of Xsave_proc \<Rightarrow> Xsave_leaf | Xsavec_proc \<Rightarrow> Xsavec_leaf)"

lemma exec_header:
  assumes "m_regs s 4 = L" "m_regs s 3 = L + 32" "m_regs s 2 = 0" "8 \<le> L" "L + 720 < usize_size"
  shows "exec e xsave_header_code s = s\<lparr>m_regs := (m_regs s)(4 := L - 8, 0 := bv32 e), m_rip := addr_of e (xsave_leaf e),
    m_mem := write64 (L - 8) (addr_of e Xsave_ret) (clear_header L (m_mem s))\<rparr>"
proof -
  have "wrapping_sub L 8 = L - 8" using assms(4,5) by (simp add: wrapping_sub_le)
  with assms show ?thesis
    by (simp add: xsave_header_code_def exec_rules clear_header_def bv32_def xsave_leaf_def fun_upd_twist add.commute [of L])
qed

lemma exec_leaf:
  assumes "m_regs s 4 = L - 8" "m_regs s 3 = L + 32" "m_regs s 2 = 0" "m_regs s 0 = bv32 e" "8 \<le> L" "L + 720 < usize_size"
    and "read64 (L - 8) (m_mem s) = ret" "length (e_xsave e (bv32 e) (m_xstate s) area) = XSAVE_SIZE (e_cfg e)"
    and "area = read_bytes (m_mem s) (L + 144) (XSAVE_SIZE (e_cfg e))" "code = xsave_leaf_code \<or> code = xsavec_leaf_code"
  shows "exec e code s = s\<lparr>m_regs := (m_regs s)(4 := L), m_rip := ret,
    m_mem := write_bytes (L + 144) (e_xsave e (bv32 e) (m_xstate s) area) (m_mem s)\<rparr>"
proof -
  have "bv32 e mod 4294967296 = bv32 e" by (simp add: bv32_def)
  moreover have "L - 8 + 8 \<le> L + 144" using assms(5) by simp
  ultimately show ?thesis
    using assms by (cases s) (auto simp: xsave_leaf_code_def xsavec_leaf_code_def exec_rules xmask_def read64_write_bytes_apart add.commute [of L])
qed

lemma exec_xsave_ret:
  assumes "m_regs s 4 = L" "m_regs s 5 = R" "R + 160 < usize_size" "e_stub e + 56 < usize_size"
    and "read64 (R + 24) (m_mem s) = e_stub e + 11" "read64 (R + 16) (m_mem s) = ret" "read64 (e_stub e + 32) (m_mem s) = data"
  shows "exec e xsave_ret_code s = s\<lparr>m_regs := (m_regs s)(7 := data, 6 := L), m_rip := ret\<rparr>"
  using assms by (simp add: xsave_ret_code_def exec_rules add.commute [of 32])

lemma exec_save_ret1:
  assumes "m_regs s 4 = L" "8 \<le> L" "L < usize_size"
  shows "exec e save_ret1_code s = s\<lparr>m_regs := (m_regs s)(4 := L - 8), m_rip := addr_of e Call_proc,
    m_mem := write64 (L - 8) (addr_of e Save_ret2) (m_mem s)\<rparr>"
  using assms by (simp add: save_ret1_code_def exec_rules wrapping_sub_le)

text \<open>What the restoring routine leaves, from the memory of the frame.\<close>

lemma exec_xrstor:
  assumes "m_regs s 4 = L" "m_regs s 3 = L + 32" "m_regs s 5 = R" "L + 720 \<le> R" "R + 160 < usize_size"
    and "read64 (R + 24) (m_mem s) = ret"
  shows "\<exists>s'. exec e xrstor_code s = s' \<and> m_rip s' = ret \<and> m_regs s' 4 = R + 32
    \<and> (\<forall>n < 16. n \<noteq> 4 \<longrightarrow> m_regs s' n = read64 (reg_slot L n) (m_mem s))
    \<and> m_flags s' = read64 L (m_mem s) \<and> m_mem s' = write64 R (read64 (L + 48) (m_mem s)) (m_mem s)
    \<and> m_xstate s' = e_xrstor e (bv32 e) (read_bytes (m_mem s) (L + 144) (XSAVE_SIZE (e_cfg e))) (m_xstate s)"
proof -
  have lea: "offset_addr (R + 16) 16 = R + 32" "offset_addr (R + 8) 16 = R + 24" using assms(5) by (simp_all add: offset_addr_pos)
  have bv: "bv32 e mod 4294967296 = bv32 e" by (simp add: bv32_def)
  have all: "(\<forall>n < 16. n \<noteq> 4 \<longrightarrow> P n) \<longleftrightarrow> (\<forall>n \<in> {15, 13, 11, 9, 7, 5, 3, 1, 14, 12, 10, 8, 6, 2, 0 :: nat}. P n)" for P
  proof
    assume r: "\<forall>n \<in> {15, 13, 11, 9, 7, 5, 3, 1, 14, 12, 10, 8, 6, 2, 0}. P n"
    show "\<forall>n < 16. n \<noteq> 4 \<longrightarrow> P n" using r below_16 by fast
  qed auto
  show ?thesis
    unfolding all
    using assms lea bv
    by (simp add: xrstor_code_def exec_rules xmask_def bv32_def [symmetric] read64_write64_apart reg_slot_def add.commute [of L])
qed

lemma exec_stub_ret:
  assumes "m_regs s 4 = R + 32" "R + 160 < usize_size" "e_stub e + 56 < usize_size"
    and "read64 (e_stub e + 48) (m_mem s) = nxt"
  shows "exec e (stub_ret_code e) s = s\<lparr>m_regs := (m_regs s)(4 := R + 160), m_rip := nxt\<rparr>"
proof -
  have "offset_addr (R + 32) 128 = R + 160" using assms(2) by (simp add: offset_addr_pos)
  moreover have "offset_addr (e_stub e + 25) 23 = e_stub e + 48" using assms(3) by (simp add: offset_addr_pos)
  ultimately show ?thesis using assms by (simp add: stub_ret_code_def exec_rules)
qed

section \<open>From the hooked function into the hook\<close>

lemma find_label: "distinct (map f xs) \<Longrightarrow> k \<in> set xs \<Longrightarrow> find (\<lambda>l. f l = f k) xs = Some k"
  by (induction xs) (auto simp: image_iff)

lemma run_one: "code_ok e \<Longrightarrow> m_rip s = addr_of e l \<Longrightarrow> run_machine (Suc n) e s = run_machine n e (run_block e l s)"
proof -
  assume "code_ok e" "m_rip s = addr_of e l"
  moreover have "l \<in> set LABELS" by (cases l) (simp_all add: LABELS_def)
  ultimately show ?thesis using find_label [of "addr_of e" LABELS l] by (simp add: code_ok_def)
qed

lemma exec_append: "exec e (xs @ ys) s = exec e ys (exec e xs s)"
  by (simp add: exec_def)

definition frame_base :: "nat \<Rightarrow> nat" where
  "frame_base sp = sp - 160"

text \<open>The layout of the frame: everything lies in order, below the caller's stack.\<close>

lemma frame_layout:
  assumes "entry_ok e data nxt s"
  defines "R \<equiv> m_regs s 4 - 160" and "L \<equiv> saved_at e (m_regs s 4)" and "S \<equiv> XSAVE_SIZE (e_cfg e)"
  shows "m_regs s 4 = R + 160" "R + 160 < usize_size" "align_down R 64 = L + 144 + S" "L + 144 + S \<le> R"
    "64 \<le> L" "576 \<le> S" "e_stub e + 56 < usize_size" "R + 160 \<le> e_stub e \<or> e_stub e + 56 \<le> L - 8"
    "(L + 144 + S) mod 64 = 0" "R < L + 144 + S + 64"
proof -
  have sp: "S + 512 \<le> m_regs s 4" "m_regs s 4 < usize_size" using assms(1) by (simp_all add: entry_ok_def S_def)
  show R: "m_regs s 4 = R + 160" "R + 160 < usize_size" using sp by (simp_all add: R_def)
  have al: "align_down R 64 \<le> R \<and> R < align_down R 64 + 64 \<and> align_down R 64 mod 64 = 0"
    by (rule align64) (use R in simp)
  have big: "S + 352 \<le> R" using sp by (simp add: R_def)
  show lay: "align_down R 64 = L + 144 + S" unfolding L_def saved_at_def using al big by (simp add: R_def [symmetric] S_def)
  with al show "L + 144 + S \<le> R" "(L + 144 + S) mod 64 = 0" "R < L + 144 + S + 64" by simp_all
  show "64 \<le> L" using al big lay by linarith
  show "576 \<le> S" "e_stub e + 56 < usize_size" using assms(1) by (simp_all add: entry_ok_def code_ok_def S_def)
  show "R + 160 \<le> e_stub e \<or> e_stub e + 56 \<le> L - 8"
    using assms(1) al big lay R(1) unfolding entry_ok_def S_def by linarith
qed

text \<open>The machine at the entry of the hook.\<close>

definition area_saved :: "'x environment \<Rightarrow> nat \<Rightarrow> 'x \<Rightarrow> memory \<Rightarrow> byte list" where
  "area_saved e L x m = e_xsave e (bv32 e) x (read_bytes (clear_header L m) (L + 144) (XSAVE_SIZE (e_cfg e)))"

definition hook_memory :: "'x environment \<Rightarrow> nat \<Rightarrow> nat \<Rightarrow> 'x machine \<Rightarrow> memory" where
  "hook_memory e R L s =
     (let m0 = write64 R (m_regs s 5) (write64 (R + 8) (m_flags s)
             (write64 (R + 16) (addr_of e Save_ret1) (write64 (R + 24) (addr_of e Stub_ret) (m_mem s))));
          m1 = frame_mem L (m_regs s) (R + 160) (m_regs s 5) (m_flags s) m0;
          m2 = write64 (L - 8) (addr_of e Xsave_ret) (clear_header L m1)
      in write64 (L - 8) (addr_of e Save_ret2) (write_bytes (L + 144) (area_saved e L (m_xstate s) m1) m2))"

lemma frame_mem_cong: "(\<And>n. n \<noteq> 4 \<Longrightarrow> n \<noteq> 5 \<Longrightarrow> r n = r' n) \<Longrightarrow> frame_mem L r sp bp fl m = frame_mem L r' sp bp fl m"
  by (simp add: frame_mem_def)

lemma read64_cong: "(\<And>a. b \<le> a \<Longrightarrow> a < b + 8 \<Longrightarrow> m a = m' a) \<Longrightarrow> read64 b m = read64 b m'"
  unfolding read64_def by (subst read_bytes_cong [of b 8 m m']) simp_all

lemma read64_frame_outside: "b + 8 \<le> L \<or> L + 136 \<le> b \<Longrightarrow> read64 b (frame_mem L r sp bp fl m) = read64 b m"
  by (rule read64_cong, rule frame_mem_outside) linarith

lemma read64_clear_outside: "b + 8 \<le> L + 656 \<or> L + 720 \<le> b \<Longrightarrow> read64 b (clear_header L m) = read64 b m"
  by (rule read64_cong, rule clear_header_outside) linarith

lemma run_to_hook:
  assumes ok: "entry_ok e data nxt s"
  defines "R \<equiv> m_regs s 4 - 160" and "L \<equiv> saved_at e (m_regs s 4)"
  shows "\<exists>s1. run_machine 6 e s = s1 \<and> m_rip s1 = addr_of e Call_proc \<and> m_mem s1 = hook_memory e R L s
    \<and> m_regs s1 4 = L - 8 \<and> m_regs s1 3 = L + 32 \<and> m_regs s1 5 = R \<and> m_regs s1 7 = data \<and> m_regs s1 6 = L
    \<and> m_xstate s1 = m_xstate s"
proof -
  note lay = frame_layout [OF ok, folded R_def L_def]
  have code: "code_ok e" and rip: "m_rip s = addr_of e Stub" using ok by (simp_all add: entry_ok_def addr_of_def)
  let ?st = "e_stub e"
  have ptr: "read64 (?st + 32) (m_mem s) = data" "read64 (?st + 40) (m_mem s) = addr_of e Save_proc"
    using ok stub_pointers [of "m_mem s" ?st "context_save_chain nxt (context_save_new data (addr_of e Save_proc))"]
    by (simp_all add: entry_ok_def stub_at_def code_ok_def context_save_chain_def context_save_new_def)
  have apart: "R + 160 \<le> ?st \<or> ?st + 56 \<le> R" using lay(4,8) by linarith
  define s_a where "s_a = run_block e Stub s"
  have a: "m_regs s_a 4 = R + 24" "m_rip s_a = addr_of e Save_proc" "m_xstate s_a = m_xstate s" "m_flags s_a = m_flags s"
      "\<And>n. n \<noteq> 4 \<Longrightarrow> m_regs s_a n = m_regs s n" "m_mem s_a = write64 (R + 24) (addr_of e Stub_ret) (m_mem s)"
    unfolding s_a_def run_block_def using exec_stub [OF lay(1,2,7) ptr(2) apart] by simp_all
  define s_b where "s_b = run_block e Save_proc s_a"
  have b: "m_regs s_b 4 = R + 16" "m_rip s_b = addr_of e Xsave" "m_xstate s_b = m_xstate s" "m_flags s_b = m_flags s"
      "\<And>n. n \<noteq> 4 \<Longrightarrow> m_regs s_b n = m_regs s n"
      "m_mem s_b = write64 (R + 16) (addr_of e Save_ret1) (write64 (R + 24) (addr_of e Stub_ret) (m_mem s))"
    unfolding s_b_def run_block_def using exec_save_proc [OF a(1) lay(2)] a by simp_all
  define s_c where "s_c = exec e xsave_frame_code s_b"
  let ?m0 = "write64 R (m_regs s 5) (write64 (R + 8) (m_flags s) (m_mem s_b))"
  have c: "m_regs s_c 4 = L + 40" "m_regs s_c 5 = R" "m_xstate s_c = m_xstate s" "\<And>n. n \<noteq> 4 \<Longrightarrow> n \<noteq> 5 \<Longrightarrow> m_regs s_c n = m_regs s n"
      "m_mem s_c = ?m0"
    unfolding s_c_def using exec_frame [OF b(1) lay(2,3,4)] b by simp_all
  have saved: "read64 R (m_mem s_c) = m_regs s 5" "read64 (R + 8) (m_mem s_c) = m_flags s"
    using ok by (simp_all add: c(5) read64_write64_apart entry_ok_def)
  define s_d where "s_d = exec e xsave_regs_code s_c"
  let ?m1 = "frame_mem L (m_regs s) (R + 160) (m_regs s 5) (m_flags s) ?m0"
  have "L + 144 \<le> R" using lay(4) by simp
  note ex = exec_regs [OF c(1,2) lay(2) this saved, of e]
  have d: "m_regs s_d 4 = L" "m_regs s_d 3 = L + 32" "m_regs s_d 5 = R" "m_regs s_d 2 = 0" "m_xstate s_d = m_xstate s"
      "m_mem s_d = ?m1"
    unfolding s_d_def ex using c frame_mem_cong [of "m_regs s_c" "m_regs s"] by simp_all
  define s_e where "s_e = exec e xsave_header_code s_d"
  have "8 \<le> L" "L + 720 < usize_size" using lay(2,4-6) by linarith+
  note ex = exec_header [OF d(1,2,4) this, of e]
  have e: "m_regs s_e 4 = L - 8" "m_regs s_e 3 = L + 32" "m_regs s_e 5 = R" "m_regs s_e 2 = 0" "m_regs s_e 0 = bv32 e"
      "m_rip s_e = addr_of e (xsave_leaf e)" "m_xstate s_e = m_xstate s"
      "m_mem s_e = write64 (L - 8) (addr_of e Xsave_ret) (clear_header L ?m1)"
    unfolding s_e_def ex using d by simp_all
  have blk: "run_block e Xsave s_b = s_e"
    by (simp add: run_block_def xsave_code_def exec_append s_c_def s_d_def s_e_def)
  define s_f where "s_f = run_block e (xsave_leaf e) s_e"
  let ?area = "read_bytes (m_mem s_e) (L + 144) (XSAVE_SIZE (e_cfg e))"
  have area: "?area = read_bytes (clear_header L ?m1) (L + 144) (XSAVE_SIZE (e_cfg e))"
    using lay(5) by (simp add: e(8) write64_def read_write_apart)
  have ret: "read64 (L - 8) (m_mem s_e) = addr_of e Xsave_ret" using code by (simp add: e(8) code_ok_def)
  have len: "length (e_xsave e (bv32 e) (m_xstate s_e) ?area) = XSAVE_SIZE (e_cfg e)" using code by (simp add: code_ok_def)
  have leaf: "run_block e (xsave_leaf e) s_e = exec e (if xsave_leaf e = Xsave_leaf then xsave_leaf_code else xsavec_leaf_code) s_e"
    by (simp add: run_block_def xsave_leaf_def split: xsave_flavor.split)
  note ex = exec_leaf [OF e(1,2,4,5) \<open>8 \<le> L\<close> \<open>L + 720 < usize_size\<close> ret len refl]
  have f: "m_regs s_f 4 = L" "m_regs s_f 3 = L + 32" "m_regs s_f 5 = R" "m_rip s_f = addr_of e Xsave_ret"
      "m_xstate s_f = m_xstate s" "m_mem s_f = write_bytes (L + 144) (area_saved e L (m_xstate s) ?m1) (m_mem s_e)"
    unfolding s_f_def leaf using ex e by (simp_all add: area [unfolded e(8)] area_saved_def)
  have lenA: "length (area_saved e L (m_xstate s) ?m1) = XSAVE_SIZE (e_cfg e)"
    using code by (simp add: area_saved_def code_ok_def)
  have far: "read64 k (m_mem s_f) = read64 k ?m0" if "L + 144 + XSAVE_SIZE (e_cfg e) \<le> k \<or> k + 8 \<le> L - 8" for k
  proof -
    have k: "L + 144 + XSAVE_SIZE (e_cfg e) \<le> k \<or> k + 16 \<le> L" using that lay(5) by linarith
    have "read64 k (m_mem s_f) = read64 k (m_mem s_e)"
      unfolding f(6) by (rule read64_write_bytes_apart) (use k lenA in linarith)
    also have "\<dots> = read64 k (clear_header L ?m1)"
      unfolding e(8) by (rule read64_write64_apart) (use k lay(5) in linarith)
    also have "\<dots> = read64 k ?m1" by (rule read64_clear_outside) (use k lay(6) in linarith)
    also have "\<dots> = read64 k ?m0" by (rule read64_frame_outside) (use k in linarith)
    finally show ?thesis .
  qed
  have rets: "read64 (R + 24) (m_mem s_f) = e_stub e + 11" "read64 (R + 16) (m_mem s_f) = addr_of e Save_ret1"
  proof -
    have adr: "addr_of e Stub_ret = e_stub e + 11" "\<And>l. addr_of e l < usize_size"
      using code by (simp_all add: addr_of_def [of e Stub_ret] code_ok_def)
    show "read64 (R + 24) (m_mem s_f) = e_stub e + 11" "read64 (R + 16) (m_mem s_f) = addr_of e Save_ret1"
      using far [of "R + 24"] far [of "R + 16"] lay(4,7)
      by (simp_all add: read64_write64_apart b(6) adr)
  qed
  have "read64 (?st + 32) (m_mem s_f) = read64 (?st + 32) ?m0" using far [of "?st + 32"] lay(4,8) by linarith
  also have "\<dots> = data" using apart ptr(1) by (auto simp: b(6) read64_write64_apart)
  finally have dat: "read64 (?st + 32) (m_mem s_f) = data" .
  define s_g where "s_g = run_block e Xsave_ret s_f"
  note ex = exec_xsave_ret [OF f(1,3) lay(2,7) rets dat]
  have g: "m_regs s_g 4 = L" "m_regs s_g 3 = L + 32" "m_regs s_g 5 = R" "m_regs s_g 7 = data" "m_regs s_g 6 = L"
      "m_rip s_g = addr_of e Save_ret1" "m_xstate s_g = m_xstate s" "m_mem s_g = m_mem s_f"
    unfolding s_g_def run_block_def using ex f by simp_all
  define s_h where "s_h = run_block e Save_ret1 s_g"
  have "L < usize_size" using \<open>L + 720 < usize_size\<close> by simp
  note ex = exec_save_ret1 [OF g(1) \<open>8 \<le> L\<close> this, of e]
  have h: "m_regs s_h 4 = L - 8" "m_regs s_h 3 = L + 32" "m_regs s_h 5 = R" "m_regs s_h 7 = data" "m_regs s_h 6 = L"
      "m_rip s_h = addr_of e Call_proc" "m_xstate s_h = m_xstate s" "m_mem s_h = hook_memory e R L s"
    unfolding s_h_def run_block_def using ex g by (simp_all add: hook_memory_def f(6) e(8) b(6) Let_def)
  have "run_machine 6 e s = s_h"
    using run_one [OF code rip] run_one [OF code a(2)] run_one [OF code b(2)] run_one [OF code e(6)] run_one [OF code f(4)]
      run_one [OF code g(6)]
    by (simp add: eval_nat_numeral blk s_a_def [symmetric] s_b_def [symmetric] s_f_def [symmetric] s_g_def [symmetric] s_h_def [symmetric])
  with h show ?thesis by simp
qed

section \<open>What the hook sees\<close>

lemma le_bytes_read64: "le_bytes 8 (int (read64 p m)) = read_bytes m p 8"
  using from_le_bounds [of "read_bytes m p 8"] by (simp add: read64_def le_bytes_from)

lemma gpr_place: "n < 16 \<Longrightarrow> reg_read (context_of cfg L) (Gpr 8 n) m = Some (le_bytes 8 (int (read64 (reg_slot L n) m)))"
  by (simp add: gpr_resolve_def gpr_read_def context_of_def reg_slot_def le_bytes_read64)

lemma write64_outside: "a < p \<or> p + 8 \<le> a \<Longrightarrow> write64 p v m a = m a"
  by (auto simp: write64_def write_bytes_outside)

lemma hook_memory_outside:
  assumes ok: "entry_ok e data nxt s"
  defines "R \<equiv> m_regs s 4 - 160" and "L \<equiv> saved_at e (m_regs s 4)"
  assumes "a < L - 8 \<or> R + 32 \<le> a"
  shows "hook_memory e R L s a = m_mem s a"
proof -
  note lay = frame_layout [OF ok, folded R_def L_def]
  let ?m0 = "write64 R (m_regs s 5) (write64 (R + 8) (m_flags s)
             (write64 (R + 16) (addr_of e Save_ret1) (write64 (R + 24) (addr_of e Stub_ret) (m_mem s))))"
  let ?m1 = "frame_mem L (m_regs s) (R + 160) (m_regs s 5) (m_flags s) ?m0"
  let ?m2 = "write64 (L - 8) (addr_of e Xsave_ret) (clear_header L ?m1)"
  let ?A = "area_saved e L (m_xstate s) ?m1"
  have len: "length ?A = XSAVE_SIZE (e_cfg e)"
    using ok by (simp add: area_saved_def entry_ok_def code_ok_def)
  have a: "a + 8 < L \<or> L + 144 + XSAVE_SIZE (e_cfg e) \<le> a \<and> L + 720 \<le> a \<and> R + 32 \<le> a"
    using assms(4) lay(4,5,6) by linarith
  have low: "a + 8 < L \<Longrightarrow> a < R" using lay(4) by linarith
  have "hook_memory e R L s a = write_bytes (L + 144) ?A ?m2 a"
    unfolding hook_memory_def Let_def by (rule write64_outside) (use a lay(5) in linarith)
  also have "\<dots> = ?m2 a" by (rule write_bytes_outside) (use a len in linarith)
  also have "\<dots> = clear_header L ?m1 a" by (rule write64_outside) (use a lay(5) in linarith)
  also have "\<dots> = ?m1 a" by (rule clear_header_outside) (use a in linarith)
  also have "\<dots> = ?m0 a" by (rule frame_mem_outside) (use a in linarith)
  also have "\<dots> = m_mem s a" using a low by (auto simp: write64_outside)
  finally show ?thesis .
qed

lemma hook_memory_slots:
  assumes ok: "entry_ok e data nxt s"
  defines "R \<equiv> m_regs s 4 - 160" and "L \<equiv> saved_at e (m_regs s 4)"
  shows "n < 16 \<Longrightarrow> read64 (reg_slot L n) (hook_memory e R L s) = m_regs s n"
    and "read64 L (hook_memory e R L s) = m_flags s"
    and "read_bytes (hook_memory e R L s) (L + 144) (XSAVE_SIZE (e_cfg e)) = area_saved e L (m_xstate s)
          (frame_mem L (m_regs s) (R + 160) (m_regs s 5) (m_flags s) (write64 R (m_regs s 5) (write64 (R + 8) (m_flags s)
             (write64 (R + 16) (addr_of e Save_ret1) (write64 (R + 24) (addr_of e Stub_ret) (m_mem s))))))"
    and "read64 (R + 24) (hook_memory e R L s) = addr_of e Stub_ret"
    and "read64 (L - 8) (hook_memory e R L s) = addr_of e Save_ret2"
proof -
  note lay = frame_layout [OF ok, folded R_def L_def]
  let ?m0 = "write64 R (m_regs s 5) (write64 (R + 8) (m_flags s)
             (write64 (R + 16) (addr_of e Save_ret1) (write64 (R + 24) (addr_of e Stub_ret) (m_mem s))))"
  let ?m1 = "frame_mem L (m_regs s) (R + 160) (m_regs s 5) (m_flags s) ?m0"
  let ?m2 = "write64 (L - 8) (addr_of e Xsave_ret) (clear_header L ?m1)"
  let ?A = "area_saved e L (m_xstate s) ?m1"
  have M: "hook_memory e R L s = write64 (L - 8) (addr_of e Save_ret2) (write_bytes (L + 144) ?A ?m2)"
    by (simp add: hook_memory_def Let_def)
  have len: "length ?A = XSAVE_SIZE (e_cfg e)" using ok by (simp add: area_saved_def entry_ok_def code_ok_def)
  have regs: "\<And>k. k < 16 \<Longrightarrow> m_regs s k < usize_size" "m_flags s < usize_size" "\<And>l. addr_of e l < usize_size"
    using ok by (simp_all add: entry_ok_def code_ok_def)
  have to1: "read64 k (hook_memory e R L s) = read64 k ?m1" if k: "L \<le> k" "k + 8 \<le> L + 144 \<or> L + 144 + XSAVE_SIZE (e_cfg e) \<le> k" for k
  proof -
    have "read64 k (hook_memory e R L s) = read64 k (write_bytes (L + 144) ?A ?m2)"
      unfolding M by (rule read64_write64_apart) (use k lay(5) in linarith)
    also have "\<dots> = read64 k ?m2" by (rule read64_write_bytes_apart) (use k len in linarith)
    also have "\<dots> = read64 k (clear_header L ?m1)" by (rule read64_write64_apart) (use k lay(5) in linarith)
    also have "\<dots> = read64 k ?m1" by (rule read64_clear_outside) (use k lay(6) in linarith)
    finally show ?thesis .
  qed
  show "read64 (reg_slot L n) (hook_memory e R L s) = m_regs s n" if n: "n < 16"
  proof -
    have "read64 (reg_slot L n) (hook_memory e R L s) = read64 (reg_slot L n) ?m1"
      by (rule to1) (use n in \<open>simp_all add: reg_slot_def\<close>)
    also have "\<dots> = m_regs s n" using frame_mem_slots [of n "m_regs s", OF n regs(1) [OF n] lay(2) regs(1) [of 5]] lay(1) by simp
    finally show ?thesis .
  qed
  show "read64 L (hook_memory e R L s) = m_flags s" using to1 [of L] frame_mem_flags regs(2) by simp
  have "read64 (R + 24) (hook_memory e R L s) = read64 (R + 24) ?m0"
    using to1 [of "R + 24"] read64_frame_outside [of "R + 24" L] lay(4) by simp
  then show "read64 (R + 24) (hook_memory e R L s) = addr_of e Stub_ret" using regs(3) by (simp add: read64_write64_apart)
  show "read64 (L - 8) (hook_memory e R L s) = addr_of e Save_ret2" unfolding M using regs(3) by simp
  have "read_bytes (hook_memory e R L s) (L + 144) (XSAVE_SIZE (e_cfg e))
      = read_bytes (write_bytes (L + 144) ?A ?m2) (L + 144) (XSAVE_SIZE (e_cfg e))"
    unfolding M write64_def by (rule read_write_apart) (use lay(5) in simp)
  also have "\<dots> = ?A" by (rule read_write_same) (rule len)
  finally show "read_bytes (hook_memory e R L s) (L + 144) (XSAVE_SIZE (e_cfg e)) = ?A" .
qed

text \<open>
  What the compiled hook owes its caller (the sysv64 convention): it returns, with the callee-saved
  registers RBX and RBP as they were, and leaves the caller's frame above the saved registers and the
  stub alone. Everything else it may change, the saved registers included.
\<close>

definition abi_return :: "'x environment \<Rightarrow> nat \<Rightarrow> 'x machine \<Rightarrow> 'x machine \<Rightarrow> bool" where
  "abi_return e R s1 s2 \<longleftrightarrow> m_rip s2 = read64 (m_regs s1 4) (m_mem s1) \<and> m_regs s2 4 = m_regs s1 4 + 8
     \<and> m_regs s2 3 = m_regs s1 3 \<and> m_regs s2 5 = m_regs s1 5
     \<and> (\<forall>a. R + 24 \<le> a \<and> a < R + 32 \<or> e_stub e \<le> a \<and> a < e_stub e + 56 \<longrightarrow> m_mem s2 a = m_mem s1 a)"

lemma run_add: "run_machine (n + k) e s = run_machine k e (run_machine n e s)"
proof (induction n arbitrary: s)
  case (Suc n)
  show ?case
  proof (cases "find (\<lambda>l. addr_of e l = m_rip s) LABELS")
    case None
    then have "run_machine k e s = s" by (cases k) simp_all
    with None show ?thesis by simp
  qed (simp add: Suc)
qed simp

lemma run_from_hook:
  assumes ok: "entry_ok e data nxt s"
  defines "R \<equiv> m_regs s 4 - 160" and "L \<equiv> saved_at e (m_regs s 4)"
  assumes s1: "m_mem s1 = hook_memory e R L s" "m_regs s1 4 = L - 8" "m_regs s1 3 = L + 32" "m_regs s1 5 = R"
    and abi: "abi_return e R s1 s2"
  shows "\<exists>s'. run_machine 3 e s2 = s' \<and> m_rip s' = nxt \<and> m_regs s' 4 = m_regs s 4
    \<and> (\<forall>n < 16. n \<noteq> 4 \<longrightarrow> m_regs s' n = read64 (reg_slot L n) (m_mem s2))
    \<and> m_flags s' = read64 L (m_mem s2)
    \<and> m_xstate s' = e_xrstor e (bv32 e) (read_bytes (m_mem s2) (L + 144) (XSAVE_SIZE (e_cfg e))) (m_xstate s2)
    \<and> (\<forall>a. a < R \<or> R + 8 \<le> a \<longrightarrow> m_mem s' a = m_mem s2 a)"
proof -
  note lay = frame_layout [OF ok, folded R_def L_def]
  note mem = hook_memory_slots [OF ok, folded R_def L_def]
  have code: "code_ok e" using ok by (simp add: entry_ok_def)
  have s2: "m_rip s2 = addr_of e Save_ret2" "m_regs s2 4 = L" "m_regs s2 3 = L + 32" "m_regs s2 5 = R"
    using abi s1 mem(5) lay(5) by (simp_all add: abi_return_def)
  have "read64 (R + 24) (m_mem s2) = read64 (R + 24) (m_mem s1)"
    by (rule read64_cong) (use abi in \<open>simp add: abi_return_def\<close>)
  then have ret: "read64 (R + 24) (m_mem s2) = addr_of e Stub_ret" using mem(4) s1(1) by simp
  have "read64 (e_stub e + 48) (m_mem s2) = read64 (e_stub e + 48) (m_mem s1)"
    by (rule read64_cong) (use abi in \<open>simp add: abi_return_def\<close>)
  also have "\<dots> = read64 (e_stub e + 48) (m_mem s)"
    unfolding s1(1)
    by (rule read64_cong, rule hook_memory_outside [OF ok, folded R_def L_def]) (use lay(8) in linarith)
  also have "\<dots> = nxt"
    using ok stub_pointers [of "m_mem s" "e_stub e" "context_save_chain nxt (context_save_new data (addr_of e Save_proc))"]
    by (simp add: entry_ok_def stub_at_def code_ok_def context_save_chain_def context_save_new_def)
  finally have next_ptr: "read64 (e_stub e + 48) (m_mem s2) = nxt" .
  define s_i where "s_i = run_block e Save_ret2 s2"
  have i: "m_rip s_i = addr_of e Xrstor" "m_regs s_i = m_regs s2" "m_mem s_i = m_mem s2" "m_xstate s_i = m_xstate s2"
    by (simp_all add: s_i_def run_block_def exec_def save_ret2_code_def)
  have "L + 720 \<le> R" using lay(4,6) by linarith
  then obtain s_j where "exec e xrstor_code s_i = s_j" and j: "m_rip s_j = addr_of e Stub_ret" "m_regs s_j 4 = R + 32"
      "\<forall>n < 16. n \<noteq> 4 \<longrightarrow> m_regs s_j n = read64 (reg_slot L n) (m_mem s2)" "m_flags s_j = read64 L (m_mem s2)"
      "m_mem s_j = write64 R (read64 (L + 48) (m_mem s2)) (m_mem s2)"
      "m_xstate s_j = e_xrstor e (bv32 e) (read_bytes (m_mem s2) (L + 144) (XSAVE_SIZE (e_cfg e))) (m_xstate s2)"
    using exec_xrstor [of s_i L R "addr_of e Stub_ret" e] i s2 ret lay(2) by auto
  then have blk: "run_block e Xrstor s_i = s_j" by (simp add: run_block_def)
  have "read64 (e_stub e + 48) (m_mem s_j) = nxt"
    unfolding j(5) next_ptr [symmetric] by (rule read64_write64_apart) (use lay(4,8) in linarith)
  note ex = exec_stub_ret [OF j(2) lay(2,7) this]
  define s_k where "s_k = run_block e Stub_ret s_j"
  have k: "m_rip s_k = nxt" "m_regs s_k 4 = R + 160" "\<And>n. n \<noteq> 4 \<Longrightarrow> m_regs s_k n = m_regs s_j n" "m_flags s_k = m_flags s_j"
      "m_xstate s_k = m_xstate s_j" "m_mem s_k = m_mem s_j"
    unfolding s_k_def run_block_def using ex by simp_all
  have "run_machine 3 e s2 = s_k"
    using run_one [OF code s2(1)] run_one [OF code i(1)] run_one [OF code j(1)]
    by (simp add: eval_nat_numeral blk s_i_def [symmetric] s_k_def [symmetric])
  moreover have "m_mem s_k a = m_mem s2 a" if "a < R \<or> R + 8 \<le> a" for a
    using write64_outside [OF that] by (simp add: k(6) j(5))
  ultimately show ?thesis using j k lay(1) by simp
qed

lemma run_hooked:
  assumes ok: "entry_ok e data nxt s" and run: "run_machine 6 e s = s1"
    and abi: "abi_return e (m_regs s 4 - 160) s1 (e_hook e s1)"
  shows "\<exists>s'. run_machine 10 e s = s' \<and> m_rip s' = nxt \<and> m_regs s' 4 = m_regs s 4
    \<and> (\<forall>n < 16. n \<noteq> 4 \<longrightarrow> m_regs s' n = read64 (reg_slot (m_regs s1 6) n) (m_mem (e_hook e s1)))
    \<and> m_flags s' = read64 (m_regs s1 6) (m_mem (e_hook e s1))
    \<and> m_xstate s' = e_xrstor e (bv32 e) (read_bytes (m_mem (e_hook e s1)) (m_regs s1 6 + 144) (XSAVE_SIZE (e_cfg e)))
        (m_xstate (e_hook e s1))
    \<and> (\<forall>a. a < m_regs s 4 - 160 \<or> m_regs s 4 - 152 \<le> a \<longrightarrow> m_mem s' a = m_mem (e_hook e s1) a)"
proof -
  let ?R = "m_regs s 4 - 160" and ?L = "saved_at e (m_regs s 4)" and ?s2 = "e_hook e s1"
  have code: "code_ok e" using ok by (simp add: entry_ok_def)
  have s1: "m_rip s1 = addr_of e Call_proc" "m_mem s1 = hook_memory e ?R ?L s" "m_regs s1 4 = ?L - 8"
      "m_regs s1 3 = ?L + 32" "m_regs s1 5 = ?R" "m_regs s1 6 = ?L"
    using run_to_hook [OF ok] run by auto
  obtain s' where s': "run_machine 3 e ?s2 = s'" "m_rip s' = nxt" "m_regs s' 4 = m_regs s 4"
      "\<forall>n < 16. n \<noteq> 4 \<longrightarrow> m_regs s' n = read64 (reg_slot ?L n) (m_mem ?s2)" "m_flags s' = read64 ?L (m_mem ?s2)"
      "m_xstate s' = e_xrstor e (bv32 e) (read_bytes (m_mem ?s2) (?L + 144) (XSAVE_SIZE (e_cfg e))) (m_xstate ?s2)"
      "\<forall>a. a < ?R \<or> ?R + 8 \<le> a \<longrightarrow> m_mem s' a = m_mem ?s2 a"
    using run_from_hook [OF ok s1(2-5) abi] by auto
  have "run_machine 10 e s = run_machine 4 e s1" using run_add [of 6 4 e s] run by simp
  also have "\<dots> = run_machine 3 e ?s2"
    using run_one [OF code s1(1), of 3] by (simp add: eval_nat_numeral run_block_def)
  finally have "run_machine 10 e s = s'" using s'(1) by simp
  moreover have "?R + 8 = m_regs s 4 - 152" using frame_layout(1) [OF ok] by simp
  ultimately show ?thesis using s' s1(6) by (intro exI [of _ s']) (simp only: simp_thms)
qed

lemma frame_aligned: "(x + 144) mod 64 = 0 \<Longrightarrow> 64 \<le> x \<Longrightarrow> (x - 8) mod 16 = (8 :: nat)"
proof -
  assume a: "(x + 144) mod 64 = 0" "64 \<le> x"
  then obtain k where k: "x + 144 = 64 * k" by (metis mod_0_imp_dvd dvdE)
  with a(2) have "x - 8 = 8 + 16 * (4 * k - 10)" by simp
  then show ?thesis by simp
qed

text \<open>
  A custom hook sees the registers of the hooked function: when the compiled hook is entered, every
  general purpose register and flag it can name reads the caller's value (the stack pointer the value
  before the stub ran), its arguments are the leaked closure and the saved registers, the extended state
  is saved at a 64-byte boundary with a cleared header, and nothing outside the red zone's far side has
  been written.
\<close>

theorem hook_sees_registers:
  assumes "entry_ok e data nxt s" "XSAVE_SIZE (e_cfg e) mod 64 = 0"
  shows "\<exists>s1 L. run_machine 6 e s = s1 \<and> m_rip s1 = addr_of e Call_proc \<and> m_regs s1 7 = data \<and> m_regs s1 6 = L
    \<and> (\<forall>n < 16. reg_read (context_of (e_cfg e) L) (Gpr 8 n) (m_mem s1) = Some (le_bytes 8 (int (m_regs s n))))
    \<and> read64 (flag_resolve (context_of (e_cfg e) L)) (m_mem s1) = m_flags s
    \<and> (L + 144) mod 64 = 0 \<and> m_regs s1 4 mod 16 = 8
    \<and> (\<forall>a. a + 8 < L \<or> m_regs s 4 \<le> a + 128 \<longrightarrow> m_mem s1 a = m_mem s a)"
proof -
  let ?R = "m_regs s 4 - 160" and ?L = "saved_at e (m_regs s 4)"
  note lay = frame_layout [OF assms(1)]
  note slots = hook_memory_slots [OF assms(1)]
  have al: "(?L + 144) mod 64 = 0"
    using mod_add_right_eq [of "?L + 144" "XSAVE_SIZE (e_cfg e)" 64] assms(2) lay(9) by simp
  have al16: "(?L - 8) mod 16 = 8"
    by (rule frame_aligned [OF al lay(5)])
  obtain s1 where s1: "run_machine 6 e s = s1" "m_rip s1 = addr_of e Call_proc" "m_mem s1 = hook_memory e ?R ?L s"
      "m_regs s1 4 = ?L - 8" "m_regs s1 7 = data" "m_regs s1 6 = ?L"
    using run_to_hook [OF assms(1)] by auto
  have regs: "reg_read (context_of (e_cfg e) ?L) (Gpr 8 n) (m_mem s1) = Some (le_bytes 8 (int (m_regs s n)))" if "n < 16" for n
    by (simp only: gpr_place [OF that] s1(3) slots(1) [OF that])
  have flags: "read64 (flag_resolve (context_of (e_cfg e) ?L)) (m_mem s1) = m_flags s"
    using slots(2) by (simp add: s1(3) flag_resolve_def context_of_def)
  have mem: "m_mem s1 a = m_mem s a" if "a + 8 < ?L \<or> m_regs s 4 \<le> a + 128" for a
    unfolding s1(3) by (rule hook_memory_outside [OF assms(1)]) (use that lay(1) in linarith)
  from s1 al al16 regs flags mem show ?thesis by (intro exI [of _ s1] exI [of _ ?L]) simp
qed

text \<open>
  What a custom hook leaves in the saved registers is what the hooked function continues with: if the
  compiled hook returns by the calling convention, the machine arrives at the original code with each
  register and the flags as the saved context then reads, the extended state restored from its area, the
  stack pointer as at entry, and no other memory changed but the slot that held RBP.
\<close>

theorem hook_writes_registers:
  assumes "entry_ok e data nxt s" "run_machine 6 e s = s1" "abi_return e (m_regs s 4 - 160) s1 (e_hook e s1)"
  shows "\<exists>s2 s' L. s2 = e_hook e s1 \<and> L = m_regs s1 6 \<and> run_machine 10 e s = s' \<and> m_rip s' = nxt \<and> m_regs s' 4 = m_regs s 4
    \<and> (\<forall>n < 16. n \<noteq> 4 \<longrightarrow> reg_read (context_of (e_cfg e) L) (Gpr 8 n) (m_mem s2) = Some (le_bytes 8 (int (m_regs s' n))))
    \<and> m_flags s' = read64 (flag_resolve (context_of (e_cfg e) L)) (m_mem s2)
    \<and> m_xstate s' = e_xrstor e (bv32 e) (read_bytes (m_mem s2) (L + 144) (XSAVE_SIZE (e_cfg e))) (m_xstate s2)
    \<and> (\<forall>a. m_regs s 4 \<le> a + 152 \<longrightarrow> m_mem s' a = m_mem s2 a)"
proof -
  let ?s2 = "e_hook e s1" and ?L = "m_regs s1 6"
  obtain s' where s': "run_machine 10 e s = s'" "m_rip s' = nxt" "m_regs s' 4 = m_regs s 4"
      "\<forall>n < 16. n \<noteq> 4 \<longrightarrow> m_regs s' n = read64 (reg_slot ?L n) (m_mem ?s2)" "m_flags s' = read64 ?L (m_mem ?s2)"
      "m_xstate s' = e_xrstor e (bv32 e) (read_bytes (m_mem ?s2) (?L + 144) (XSAVE_SIZE (e_cfg e))) (m_xstate ?s2)"
      "\<forall>a. a < m_regs s 4 - 160 \<or> m_regs s 4 - 152 \<le> a \<longrightarrow> m_mem s' a = m_mem ?s2 a"
    using run_hooked [OF assms] by blast
  have "reg_read (context_of (e_cfg e) ?L) (Gpr 8 n) (m_mem ?s2) = Some (le_bytes 8 (int (m_regs s' n)))" if "n < 16" "n \<noteq> 4" for n
    using gpr_place [OF that(1)] s'(4) that by simp
  with s' show ?thesis
    by (intro exI [of _ ?s2] exI [of _ s'] exI [of _ ?L]) (simp add: flag_resolve_def context_of_def)
qed

text \<open>
  The extended state is a map from component numbers (the bits of XCR0) to values. What the processor's
  manual promises of the two instructions with one bitmap \<open>k\<close>, where the area has room for the components of \<open>k\<close>
  and its header was cleared: XRSTOR brings each component of \<open>k\<close> that XCR0 enables back to its value when
  XSAVE or XSAVEC saved it, and touches no other. (MXCSR, which both AVX and SSE load, counts to SSE; so
  \<open>k\<close> has SSE when it has AVX, as XCR0 must.)
\<close>

definition xsave_documented :: "64 word \<Rightarrow> (nat \<Rightarrow> 'c) environment \<Rightarrow> bool" where
  "xsave_documented xcr0 e \<longleftrightarrow> (bit xcr0 2 \<longrightarrow> bit xcr0 1) \<and>
     (\<forall>k x y bs. length bs = XSAVE_SIZE (e_cfg e) \<and> take 64 (drop 512 bs) = replicate 64 0 \<and> (bit k 2 \<longrightarrow> bit k 1)
        \<and> (\<forall>i. bit k i \<and> bit xcr0 i \<longrightarrow> bit (XSTATE_BV (e_cfg e)) i) \<longrightarrow>
        (\<forall>i. e_xrstor e k (e_xsave e k x bs) y i = (if bit k i \<and> bit xcr0 i then x i else y i)))"

text \<open>The components that a hook may use: x87, SSE, AVX and the three of AVX-512, where enabled.\<close>

definition saved_components :: "64 word \<Rightarrow> nat set" where
  "saved_components xcr0 = {i \<in> {0, 1, 2, 5, 6, 7}. bit xcr0 i}"

lemma bit_small: "bit (n :: nat) i \<Longrightarrow> n < 2 ^ k \<Longrightarrow> i < k"
proof (rule ccontr)
  assume b: "bit n i" "n < 2 ^ k" "\<not> i < k"
  then have "(2 :: nat) ^ k \<le> 2 ^ i" by (intro power_increasing) simp_all
  with b(2) have "n < 2 ^ i" by linarith
  with b(1) show False by (simp add: bit_iff_odd)
qed

lemma bit_word_small: "bit (w :: 64 word) i \<Longrightarrow> unat w < 2 ^ k \<Longrightarrow> i < k"
  by (rule bit_small [of "unat w"]) (simp_all add: bit_unsigned_iff)

lemma eight_bits: "i < 8 \<Longrightarrow> i \<in> {0, 1, 2, 3, 4, 5, 6, 7 :: nat}"
  by (simp; presburger)

lemma bits_of_bitmaps:
  "bit (XSTATE_BV_X87 OR XSTATE_BV_SSE) i \<longleftrightarrow> i \<in> {0, 1}"
  "bit XSTATE_BV_AVX i \<longleftrightarrow> i = 2"
  "bit XSTATE_BV_AVX512 i \<longleftrightarrow> i \<in> {5, 6, 7}"
proof -
  have small: "i < 8" if "bit (w :: 64 word) i" "unat w < 256" for w using bit_word_small [of w i 8] that by simp
  show "bit (XSTATE_BV_X87 OR XSTATE_BV_SSE) i \<longleftrightarrow> i \<in> {0, 1}" (is "bit ?w i \<longleftrightarrow> _")
  proof (cases "i < 8")
    case True
    from eight_bits [OF this] show ?thesis by (elim insertE emptyE) (simp_all add: XSTATE_BV_X87_def XSTATE_BV_SSE_def)
  qed (use small [of ?w] in \<open>auto simp: XSTATE_BV_X87_def XSTATE_BV_SSE_def\<close>)
  show "bit XSTATE_BV_AVX i \<longleftrightarrow> i = 2"
  proof (cases "i < 8")
    case True
    from eight_bits [OF this] show ?thesis by (elim insertE emptyE) (simp_all add: XSTATE_BV_AVX_def)
  qed (use small [of XSTATE_BV_AVX] in \<open>auto simp: XSTATE_BV_AVX_def\<close>)
  show "bit XSTATE_BV_AVX512 i \<longleftrightarrow> i \<in> {5, 6, 7}"
  proof (cases "i < 8")
    case True
    from eight_bits [OF this] show ?thesis by (elim insertE emptyE) (simp_all add: XSTATE_BV_AVX512_def)
  qed (use small [of XSTATE_BV_AVX512] in \<open>auto simp: XSTATE_BV_AVX512_def\<close>)
qed

lemma from_xcr0_lacks:
  "from_xcr0 xcr0 = Sse \<Longrightarrow> bit xcr0 i \<Longrightarrow> i \<noteq> 2 \<and> i \<notin> {5, 6, 7}"
  "from_xcr0 xcr0 = Avx \<Longrightarrow> bit xcr0 i \<Longrightarrow> i \<notin> {5, 6, 7}"
proof -
  have off: "\<not> (bit xcr0 i \<and> bit w i)" if "xcr0 AND w = 0" for w
  proof -
    have "\<not> bit (xcr0 AND w) i" using that by simp
    then show ?thesis by (simp add: bit_and_iff)
  qed
  show "from_xcr0 xcr0 = Sse \<Longrightarrow> bit xcr0 i \<Longrightarrow> i \<noteq> 2 \<and> i \<notin> {5, 6, 7}"
    using off [of XSTATE_BV_AVX] off [of XSTATE_BV_AVX512] unfolding bits_of_bitmaps
    by (auto simp: from_xcr0_def split: if_splits)
  show "from_xcr0 xcr0 = Avx \<Longrightarrow> bit xcr0 i \<Longrightarrow> i \<notin> {5, 6, 7}"
    using off [of XSTATE_BV_AVX512] unfolding bits_of_bitmaps by (auto simp: from_xcr0_def split: if_splits)
qed

text \<open>The bitmap of the routines names exactly these components.\<close>

lemma config_components:
  assumes "context_save_config xcr0 xsavec cpuid = Some cfg"
  shows "bit (XSTATE_BV cfg) i \<longleftrightarrow> i \<in> saved_components xcr0"
proof -
  define bv where "bv = (case from_xcr0 xcr0 of Sse \<Rightarrow> 0 | Avx \<Rightarrow> XSTATE_BV_AVX | Avx512 \<Rightarrow> XSTATE_BV_AVX OR XSTATE_BV_AVX512)"
  have bv: "XSTATE_BV cfg = (bv OR XSTATE_BV_X87 OR XSTATE_BV_SSE) AND xcr0"
    using assms by (cases "from_xcr0 xcr0"; cases xsavec) (auto simp: context_save_config_def bv_def)
  have which: "bv = 0 \<and> from_xcr0 xcr0 = Sse \<or> bv = XSTATE_BV_AVX \<and> from_xcr0 xcr0 = Avx \<or> bv = XSTATE_BV_AVX OR XSTATE_BV_AVX512"
    by (cases "from_xcr0 xcr0") (simp_all add: bv_def)
  have "bit (XSTATE_BV cfg) i \<longleftrightarrow> (bit bv i \<or> i \<in> {0, 1}) \<and> bit xcr0 i"
    unfolding bv bits_of_bitmaps(1) [of i, symmetric] by (simp add: bit_and_iff bit_or_iff)
  moreover have "(bit bv i \<or> i \<in> {0, 1}) \<and> bit xcr0 i \<longleftrightarrow> i \<in> {0, 1, 2, 5, 6, 7} \<and> bit xcr0 i"
    using which
  proof (elim disjE conjE)
    assume "bv = 0" "from_xcr0 xcr0 = Sse"
    then show ?thesis using from_xcr0_lacks(1) [of xcr0 i] by auto
  next
    assume "bv = XSTATE_BV_AVX" "from_xcr0 xcr0 = Avx"
    then show ?thesis using from_xcr0_lacks(2) [of xcr0 i] by (auto simp: bits_of_bitmaps(2))
  qed (auto simp: bit_or_iff bits_of_bitmaps(2,3))
  ultimately show ?thesis by (simp add: saved_components_def)
qed

lemma bv32_bits:
  assumes "context_save_config xcr0 xsavec cpuid = Some (e_cfg e)"
  shows "bit (bv32 e) i \<longleftrightarrow> i \<in> saved_components xcr0"
proof -
  have "bv32 e = take_bit 32 (unat (XSTATE_BV (e_cfg e)))" by (simp add: bv32_def take_bit_eq_mod)
  then have "bit (bv32 e) i \<longleftrightarrow> i < 32 \<and> i \<in> saved_components xcr0"
    using config_components [OF assms, of i] by (simp add: bit_take_bit_iff bit_unsigned_iff)
  then show ?thesis by (auto simp: saved_components_def)
qed

lemma clear_header_zero: "read_bytes (clear_header L m) (L + 656) 64 = replicate 64 0"
proof -
  have word: "read_bytes (clear_header L m) (L + k) 8 = replicate 8 0" if "k \<in> {656, 664, 672, 680, 688, 696, 704, 712}" for k
  proof -
    have "le_bytes 8 (int 0) = replicate 8 0" by (simp add: eval_nat_numeral)
    then show ?thesis
      using that by (auto simp: clear_header_def write64_def read_write_same read_write_apart)
  qed
  have join: "read_bytes (clear_header L m) (L + k) (8 + n) = replicate 8 0 @ read_bytes (clear_header L m) (L + (k + 8)) n"
    if "k \<in> {656, 664, 672, 680, 688, 696, 704, 712}" for k n
    by (simp only: read_bytes_append word [OF that] add.assoc)
  have "read_bytes (clear_header L m) (L + 656) (8 + (8 + (8 + (8 + (8 + (8 + (8 + (8 + 0)))))))) = replicate 64 0"
    by (subst join, simp)+ (simp add: read_bytes_def flip: replicate_add)
  then show ?thesis by simp
qed

lemma xstate_restored:
  assumes ok: "entry_ok e data nxt s" and cfg: "context_save_config xcr0 xsavec cpuid = Some (e_cfg e)"
    and doc: "xsave_documented xcr0 e" and run: "run_machine 6 e s = s1"
    and same: "\<And>a. m_regs s1 6 + 144 \<le> a \<Longrightarrow> a < m_regs s1 6 + 144 + XSAVE_SIZE (e_cfg e) \<Longrightarrow> m a = m_mem s1 a"
  shows "e_xrstor e (bv32 e) (read_bytes m (m_regs s1 6 + 144) (XSAVE_SIZE (e_cfg e))) y i
    = (if i \<in> saved_components xcr0 then m_xstate s i else y i)"
proof -
  let ?R = "m_regs s 4 - 160" and ?L = "saved_at e (m_regs s 4)" and ?S = "XSAVE_SIZE (e_cfg e)"
  have s1: "m_mem s1 = hook_memory e ?R ?L s" "m_regs s1 6 = ?L" using run_to_hook [OF ok] run by auto
  have "read_bytes m (?L + 144) ?S = read_bytes (m_mem s1) (?L + 144) ?S"
    by (rule read_bytes_cong, rule same) (use s1(2) in linarith)+
  then have area: "read_bytes m (m_regs s1 6 + 144) ?S = area_saved e ?L (m_xstate s) (frame_mem ?L (m_regs s) (?R + 160)
      (m_regs s 5) (m_flags s) (write64 ?R (m_regs s 5) (write64 (?R + 8) (m_flags s)
        (write64 (?R + 16) (addr_of e Save_ret1) (write64 (?R + 24) (addr_of e Stub_ret) (m_mem s))))))"
    using hook_memory_slots(3) [OF ok] s1 by simp
  have zero: "take 64 (drop 512 (read_bytes (clear_header ?L m) (?L + 144) ?S)) = replicate 64 0" for m
    using clear_header_zero [of ?L m] frame_layout(6) [OF ok] by (simp add: read_bytes_drop read_bytes_take add.assoc)
  have "(bit (bv32 e) 2 \<longrightarrow> bit (bv32 e) 1) \<and> (\<forall>i. bit (bv32 e) i \<and> bit xcr0 i \<longrightarrow> bit (XSTATE_BV (e_cfg e)) i)"
    using doc by (auto simp: bv32_bits [OF cfg] config_components [OF cfg] xsave_documented_def saved_components_def)
  then have "e_xrstor e (bv32 e) (e_xsave e (bv32 e) x (read_bytes (clear_header ?L m') (?L + 144) ?S)) y i
      = (if bit (bv32 e) i \<and> bit xcr0 i then x i else y i)" for x m'
    using doc zero [of m'] unfolding xsave_documented_def by simp
  then show ?thesis unfolding area area_saved_def by (simp add: bv32_bits [OF cfg] saved_components_def)
qed

lemma run_transparent:
  assumes "entry_ok e data nxt s" "context_save_config xcr0 xsavec cpuid = Some (e_cfg e)" "xsave_documented xcr0 e"
    and "run_machine 6 e s = s1"
    and "abi_return e (m_regs s 4 - 160) s1 (e_hook e s1)"
    and "\<And>a. m_regs s1 6 \<le> a \<Longrightarrow> a < m_regs s1 6 + 144 + XSAVE_SIZE (e_cfg e) \<Longrightarrow> m_mem (e_hook e s1) a = m_mem s1 a"
  shows "\<exists>s'. run_machine 10 e s = s' \<and> m_rip s' = nxt \<and> (\<forall>n < 16. m_regs s' n = m_regs s n)
    \<and> m_flags s' = m_flags s
    \<and> (\<forall>i. m_xstate s' i = (if i \<in> saved_components xcr0 then m_xstate s i else m_xstate (e_hook e s1) i))
    \<and> (\<forall>a. a + 8 < m_regs s1 6 \<or> m_regs s 4 \<le> a \<longrightarrow> m_mem s1 a = m_mem s a \<and> m_mem s' a = m_mem (e_hook e s1) a)"
proof -
  let ?s2 = "e_hook e s1" and ?L = "m_regs s1 6"
  note lay = frame_layout [OF assms(1)] and slots = hook_memory_slots [OF assms(1)]
  have s1: "m_mem s1 = hook_memory e (m_regs s 4 - 160) (saved_at e (m_regs s 4)) s" "?L = saved_at e (m_regs s 4)"
    using run_to_hook [OF assms(1)] assms(4) by auto
  obtain s' where s': "run_machine 10 e s = s'" "m_rip s' = nxt" "m_regs s' 4 = m_regs s 4"
      "\<forall>n < 16. n \<noteq> 4 \<longrightarrow> m_regs s' n = read64 (reg_slot ?L n) (m_mem ?s2)" "m_flags s' = read64 ?L (m_mem ?s2)"
      "m_xstate s' = e_xrstor e (bv32 e) (read_bytes (m_mem ?s2) (?L + 144) (XSAVE_SIZE (e_cfg e))) (m_xstate ?s2)"
      "\<forall>a. a < m_regs s 4 - 160 \<or> m_regs s 4 - 152 \<le> a \<longrightarrow> m_mem s' a = m_mem ?s2 a"
    using run_hooked [OF assms(1,4,5)] by blast
  have same: "read64 b (m_mem ?s2) = read64 b (m_mem s1)" if "?L \<le> b" "b + 8 \<le> ?L + 144" for b
    by (rule read64_cong, rule assms(6)) (use that in linarith)+
  have regs: "m_regs s' n = m_regs s n" if n: "n < 16" for n
  proof (cases "n = 4")
    case False
    have "m_regs s' n = read64 (reg_slot ?L n) (m_mem s1)"
      using s'(4) n False same [of "reg_slot ?L n"] by (simp add: reg_slot_def)
    then show ?thesis using slots(1) [OF n] s1 by simp
  qed (simp add: s'(3))
  have flags: "m_flags s' = m_flags s" using same [of ?L] slots(2) s1 s'(5) by simp
  have "m_xstate s' i = (if i \<in> saved_components xcr0 then m_xstate s i else m_xstate ?s2 i)" for i
    unfolding s'(6) by (rule xstate_restored [OF assms(1-4)], rule assms(6)) linarith+
  moreover have "m_mem s1 a = m_mem s a \<and> m_mem s' a = m_mem ?s2 a" if "a + 8 < ?L \<or> m_regs s 4 \<le> a" for a
  proof
    show "m_mem s1 a = m_mem s a"
      unfolding s1(1) by (rule hook_memory_outside [OF assms(1)]) (use that s1(2) lay(1) in linarith)
    have "a < m_regs s 4 - 160 \<or> m_regs s 4 - 152 \<le> a" using that s1(2) lay(1,4) by linarith
    then show "m_mem s' a = m_mem ?s2 a" using s'(7) by blast
  qed
  ultimately show ?thesis using s' regs flags by (intro exI [of _ s']) blast
qed

text \<open>
  C28. Saving and restoring is transparent: after a hook that returns by the calling convention and
  leaves the saved registers alone, the original function starts with every general purpose register,
  the flags and every enabled component of the extended state from x87 to AVX-512 exactly as if it had not
  been hooked, whatever the hook itself did to them. Components the routines do not save are as the hook
  left them.
\<close>

theorem hook_transparent:
  assumes "entry_ok e data nxt s" "context_save_config xcr0 xsavec cpuid = Some (e_cfg e)" "xsave_documented xcr0 e"
    and "run_machine 6 e s = s1"
    and "abi_return e (m_regs s 4 - 160) s1 (e_hook e s1)"
    and "\<And>a. m_regs s1 6 \<le> a \<Longrightarrow> a < m_regs s1 6 + 144 + XSAVE_SIZE (e_cfg e) \<Longrightarrow> m_mem (e_hook e s1) a = m_mem s1 a"
  shows "\<exists>s'. run_machine 10 e s = s' \<and> m_rip s' = nxt \<and> (\<forall>n < 16. m_regs s' n = m_regs s n)
    \<and> m_flags s' = m_flags s
    \<and> (\<forall>i. m_xstate s' i = (if i \<in> {0, 1, 2, 5, 6, 7} \<and> bit xcr0 i then m_xstate s i else m_xstate (e_hook e s1) i))"
  using run_transparent [OF assms] unfolding saved_components_def mem_Collect_eq by blast

section \<open>A concrete machine\<close>

fun example_addr :: "label \<Rightarrow> nat" where
  "example_addr Save_proc = 20000" | "example_addr Save_ret1 = 20005" | "example_addr Save_ret2 = 20010"
| "example_addr Xsave = 20100" | "example_addr Xsave_ret = 20300" | "example_addr Xsave_leaf = 20400"
| "example_addr Xsavec_leaf = 20500" | "example_addr Xrstor = 20600" | "example_addr Call_proc = 20700"
| "example_addr Stub = 8192" | "example_addr Stub_ret = 8203"

text \<open>
  A hook that changes memory by \<open>f\<close> and leaves zeros in the whole extended state, on a processor with x87 and SSE
  that saves a byte of each.
\<close>

definition returning :: "(memory \<Rightarrow> memory) \<Rightarrow> (nat \<Rightarrow> byte) machine \<Rightarrow> (nat \<Rightarrow> byte) machine" where
  "returning f s = s\<lparr>m_rip := read64 (m_regs s 4) (m_mem s), m_regs := (m_regs s)(4 := m_regs s 4 + 8, 0 := 7),
     m_xstate := \<lambda>_. 0, m_mem := f (m_mem s)\<rparr>"

definition example_save :: "nat \<Rightarrow> (nat \<Rightarrow> byte) \<Rightarrow> byte list \<Rightarrow> byte list" where
  "example_save k x bs = bs[0 := if bit k 0 then x 0 else bs ! 0, 1 := if bit k 1 then x 1 else bs ! 1]"

definition example_restore :: "nat \<Rightarrow> byte list \<Rightarrow> (nat \<Rightarrow> byte) \<Rightarrow> nat \<Rightarrow> byte" where
  "example_restore k bs y i = (if i < 2 \<and> bit k i then bs ! i else y i)"

definition example_env :: "(memory \<Rightarrow> memory) \<Rightarrow> (nat \<Rightarrow> byte) environment" where
  "example_env f = \<lparr>e_stub = 8192, e_addr = example_addr,
     e_cfg = \<lparr>XSTATE_BV = 3, XSAVE_SIZE = 576, XSAVE_FLAVOR = Xsave_proc, XSAVE_AVX_OFFSET = 0, XSAVE_AVX512_OFFSET = 0\<rparr>,
     e_xsave = example_save, e_xrstor = example_restore, e_alu = \<lambda>v. v, e_hook = returning f\<rparr>"

definition example_machine :: "(nat \<Rightarrow> byte) machine" where
  "example_machine = \<lparr>m_regs = (\<lambda>_. 100)(4 := 4096), m_flags = 70, m_rip = 8192, m_xstate = (\<lambda>i. word_of_nat (17 + i)),
     m_mem = write_bytes 8192 (context_save_bytes \<lparr>cs_data = 5000, cs_proc = 20000, cs_next = 30000\<rparr>) (\<lambda>_. 0)\<rparr>"

lemma example_sel [simp]:
  "e_stub (example_env f) = 8192" "XSAVE_SIZE (e_cfg (example_env f)) = 576" "addr_of (example_env f) l = example_addr l"
  "e_hook (example_env f) = returning f" "m_regs example_machine 4 = 4096" "m_regs example_machine 0 = 100" "m_flags example_machine = 70"
  "length (e_xsave (example_env f) k x bs) = length bs"
  by (simp_all add: example_env_def example_machine_def example_save_def addr_of_def split: label.split)

lemma example_config: "context_save_config 3 False cpuid = Some (e_cfg (example_env f))"
  by (simp add: context_save_config_def from_xcr0_def XSTATE_BV_X87_def XSTATE_BV_SSE_def XSTATE_BV_AVX_def XSTATE_BV_AVX512_def
      example_env_def)

lemma bit_3: "bit (3 :: 64 word) i \<longleftrightarrow> i < 2"
  using bits_of_bitmaps(1) [of i] by (auto simp: XSTATE_BV_X87_def XSTATE_BV_SSE_def)

lemma example_documented: "xsave_documented 3 (example_env f)"
proof -
  have "example_restore k (example_save k x bs) y i = (if bit k i \<and> i < 2 then x i else y i)" if "length bs = 576" for k x bs y i
  proof -
    have "i < 2 \<Longrightarrow> i = 0 \<or> i = 1" by linarith
    with that show ?thesis by (auto simp: example_restore_def example_save_def)
  qed
  moreover have "e_xsave (example_env f) = example_save" "e_xrstor (example_env f) = example_restore"
      "XSTATE_BV (e_cfg (example_env f)) = 3" by (simp_all add: example_env_def)
  note sel = this
  ultimately show ?thesis unfolding xsave_documented_def sel bit_3 by simp
qed

lemma example_addr_bound: "example_addr l < usize_size"
  by (cases l) (simp_all add: usize_defs)

lemma example_entry: "entry_ok (example_env f) 5000 30000 example_machine"
proof -
  have "distinct (map (addr_of (example_env f)) LABELS)" by (simp add: LABELS_def)
  then have "code_ok (example_env f)" by (simp add: code_ok_def example_addr_bound) (simp add: usize_defs)
  moreover have "stub_at (example_env f) 5000 30000 (m_mem example_machine)"
    by (simp add: stub_at_def example_machine_def read_write_same context_save_chain_def context_save_new_def)
  moreover have "m_rip example_machine = 8192" "m_regs example_machine r < usize_size" for r
    by (simp_all add: example_machine_def usize_defs)
  ultimately show ?thesis by (simp add: entry_ok_def) (simp add: usize_defs)
qed

lemma example_frame: "saved_at (example_env f) 4096 = 3184"
proof -
  have "align_down 3936 (2 ^ 6) = 2 ^ 6 * (3936 div 2 ^ 6)" by (rule align_down_pow2) (simp_all add: usize_defs)
  then show ?thesis by (simp add: saved_at_def)
qed

lemma example_return:
  assumes "\<And>m a. 3960 \<le> a \<Longrightarrow> f m a = m a" "run_machine 6 (example_env f) example_machine = s1"
  shows "abi_return (example_env f) (m_regs example_machine 4 - 160) s1 (e_hook (example_env f) s1)"
proof -
  have "m_regs s1 4 = 3176"
    using run_to_hook [OF example_entry [of f]] assms(2) by (auto simp: example_frame)
  then show ?thesis using assms(1) by (simp add: abi_return_def returning_def)
qed

theorem hook_sees_registers_witness:
  "\<exists>s1 L. run_machine 6 (example_env id) example_machine = s1 \<and> m_regs s1 7 = 5000
    \<and> reg_read (context_of (e_cfg (example_env id)) L) (Gpr 8 4) (m_mem s1) = Some (le_bytes 8 4096)"
proof -
  have "XSAVE_SIZE (e_cfg (example_env id)) mod 64 = 0" by simp
  from hook_sees_registers [OF example_entry this] obtain s1 L where
    s1: "run_machine 6 (example_env id) example_machine = s1" "m_regs s1 7 = 5000"
      "\<forall>n < 16. reg_read (context_of (e_cfg (example_env id)) L) (Gpr 8 n) (m_mem s1) = Some (le_bytes 8 (int (m_regs example_machine n)))"
    by blast
  have "reg_read (context_of (e_cfg (example_env id)) L) (Gpr 8 4) (m_mem s1) = Some (le_bytes 8 (int (m_regs example_machine 4)))"
    by (rule s1(3) [rule_format]) simp
  then show ?thesis using s1(1,2) by (intro exI [of _ s1] exI [of _ L] conjI) (simp_all only: example_sel of_nat_numeral)
qed

theorem hook_writes_registers_witness:
  "\<exists>s'. run_machine 10 (example_env (write64 3192 42)) example_machine = s' \<and> m_rip s' = 30000
    \<and> m_regs s' 4 = 4096 \<and> le_bytes 8 (int (m_regs s' 0)) = le_bytes 8 42"
proof -
  let ?f = "write64 3192 42"
  obtain s1 where s1: "run_machine 6 (example_env ?f) example_machine = s1" by blast
  have L: "m_regs s1 6 = 3184" using run_to_hook [OF example_entry [of ?f]] s1 by (auto simp: example_frame)
  have "abi_return (example_env ?f) (m_regs example_machine 4 - 160) s1 (e_hook (example_env ?f) s1)"
    by (rule example_return [OF _ s1]) (simp add: write64_outside)
  from hook_writes_registers [OF example_entry s1 this] obtain s' where
    s': "run_machine 10 (example_env ?f) example_machine = s'" "m_rip s' = 30000" "m_regs s' 4 = 4096"
      "\<forall>n < 16. n \<noteq> 4 \<longrightarrow> reg_read (context_of (e_cfg (example_env ?f)) 3184) (Gpr 8 n) (m_mem (returning ?f s1))
        = Some (le_bytes 8 (int (m_regs s' n)))"
    unfolding L by (elim exE conjE) simp
  have "reg_read (context_of (e_cfg (example_env ?f)) 3184) (Gpr 8 0) (m_mem (returning ?f s1))
      = Some (le_bytes 8 (int (read64 3192 (m_mem (returning ?f s1)))))"
    using gpr_place [of 0 "e_cfg (example_env ?f)" 3184] by (simp add: reg_slot_def)
  moreover have "read64 3192 (m_mem (returning ?f s1)) = 42" by (simp add: returning_def usize_defs)
  moreover have "(0::nat) < 16 \<and> (0::nat) \<noteq> 4" by simp
  ultimately have "le_bytes 8 (int (m_regs s' 0)) = le_bytes 8 42" using s'(4) by force
  with s' show ?thesis by blast
qed

theorem hook_transparent_witness:
  "\<exists>s'. run_machine 10 (example_env id) example_machine = s' \<and> m_rip s' = 30000 \<and> m_regs s' 0 = 100 \<and> m_flags s' = 70
    \<and> m_xstate s' 0 = 17 \<and> m_xstate s' 1 = 18 \<and> m_xstate s' 9 = 0"
proof -
  obtain s1 where s1: "run_machine 6 (example_env id) example_machine = s1" by blast
  have abi: "abi_return (example_env id) (m_regs example_machine 4 - 160) s1 (e_hook (example_env id) s1)"
    by (rule example_return [OF _ s1]) simp
  have "\<exists>s'. run_machine 10 (example_env id) example_machine = s' \<and> m_rip s' = 30000
      \<and> (\<forall>n < 16. m_regs s' n = m_regs example_machine n) \<and> m_flags s' = m_flags example_machine
      \<and> (\<forall>i. m_xstate s' i = (if i \<in> {0, 1, 2, 5, 6, 7} \<and> bit (3 :: 64 word) i then m_xstate example_machine i
           else m_xstate (e_hook (example_env id) s1) i))"
    by (rule hook_transparent [OF example_entry example_config example_documented s1 abi]) (simp add: returning_def)
  then obtain s' where s': "run_machine 10 (example_env id) example_machine = s'" "m_rip s' = 30000"
      "\<forall>n < 16. m_regs s' n = m_regs example_machine n" "m_flags s' = m_flags example_machine"
      "\<And>i. m_xstate s' i = (if i \<in> {0, 1, 2, 5, 6, 7} \<and> i < 2 then m_xstate example_machine i
         else m_xstate (e_hook (example_env id) s1) i)"
    unfolding bit_3 by blast
  have "m_xstate s' 0 = 17" "m_xstate s' 1 = 18" "m_xstate s' 9 = 0"
    unfolding s'(5) by (simp_all add: example_machine_def returning_def)
  with s' show ?thesis by simp
qed

end
