(* ===== verification/Hook_Args.thy ===== *)
theory Hook_Args
  imports Place Context_Run
begin

text \<open>
  The closures of custom hooks (\<open>hook/custom/place.rs\<close>, \<open>hook/custom/x86_64.rs\<close>): what a closure can ask
  for, what it can do with it, and how the closure is called with the saved registers. On arguments
  that are accepted a closure runs as if each register were a variable of its own, and the hooked
  function goes on with these variables.
\<close>

section \<open>Arguments\<close>

text \<open>The implementations of \<open>ResolvePlace<Context>\<close>: a register, or a pointer to a part of the context.\<close>

datatype argument = Register reg | Legacy_area | Avx_area | Avx512_area

fun arg_unique :: "argument \<Rightarrow> nat option" where
  "arg_unique (Register r) = unique r"
| "arg_unique _ = None"

fun arg_defined :: "argument \<Rightarrow> bool" where
  "arg_defined (Register r) \<longleftrightarrow> reg_defined r"
| "arg_defined _ \<longleftrightarrow> True"

fun resolve_area :: "context_ptrs \<Rightarrow> argument \<Rightarrow> nat option" where
  "resolve_area c Legacy_area = Some (legacy_ptr c)"
| "resolve_area c Avx_area = Some (avx_ptr c)"
| "resolve_area c Avx512_area = Some (avx512_ptr c)"
| "resolve_area c (Register r) = None"

text \<open>The debug assertion of \<open>Kmask::resolve\<close>.\<close>

fun resolvable :: "context_ptrs \<Rightarrow> argument \<Rightarrow> bool" where
  "resolvable c (Register (Kmask n)) \<longleftrightarrow> avx512_ptr c \<noteq> 0"
| "resolvable c _ \<longleftrightarrow> True"

text \<open>The traits are implemented for up to sixteen arguments.\<close>

definition MAX_ARGS :: nat where
  "MAX_ARGS = 16"

definition accepted :: "argument list \<Rightarrow> bool" where
  "accepted args \<longleftrightarrow> length args \<le> MAX_ARGS \<and> list_all arg_defined args \<and> has_dupes (map arg_unique args) = Some False"

section \<open>Closures\<close>

text \<open>
  The body of a closure: reading an argument, writing it (\<open>Place::write\<close>), assigning through a mutable
  borrow (\<open>DerefMut\<close>), and accesses of other memory. It ends with what the closure keeps.
\<close>

datatype 'c hook_prog =
    Finish 'c
  | Read_arg nat "byte list \<Rightarrow> 'c hook_prog"
  | Write_arg nat "byte list" "'c hook_prog"
  | Assign_arg nat "byte list" "'c hook_prog"
  | Load nat nat "byte list \<Rightarrow> 'c hook_prog"
  | Store nat "byte list" "'c hook_prog"

text \<open>\<open>Ref\<close> and \<open>UnalignedRef\<close>: the register holds an address, the place is at a constant distance.\<close>

definition ref_ptr :: "int \<Rightarrow> byte list \<Rightarrow> nat" where
  "ref_ptr off v = offset_addr (nat (from_le v)) off"

definition ref_load :: "nat \<Rightarrow> int \<Rightarrow> nat \<Rightarrow> (byte list \<Rightarrow> 'c hook_prog) \<Rightarrow> 'c hook_prog" where
  "ref_load i off n k = Read_arg i (\<lambda>v. Load (ref_ptr off v) n k)"

definition ref_store :: "nat \<Rightarrow> int \<Rightarrow> byte list \<Rightarrow> 'c hook_prog \<Rightarrow> 'c hook_prog" where
  "ref_store i off v p = Read_arg i (\<lambda>base. Store (ref_ptr off base) v p)"

fun read_arg :: "context_ptrs \<Rightarrow> argument \<Rightarrow> memory \<Rightarrow> byte list option" where
  "read_arg c (Register r) m = reg_read c r m"
| "read_arg c a m = map_option (\<lambda>p. le_bytes 8 (int p)) (resolve_area c a)"

fun write_arg :: "context_ptrs \<Rightarrow> argument \<Rightarrow> byte list \<Rightarrow> memory \<Rightarrow> memory option" where
  "write_arg c (Register r) v m = (if length v = reg_len r then reg_write c r v m else None)"
| "write_arg c a v m = None"

fun assign_arg :: "context_ptrs \<Rightarrow> argument \<Rightarrow> byte list \<Rightarrow> memory \<Rightarrow> memory option" where
  "assign_arg c (Register (Gpr sz n)) v m =
     (if length v = sz then map_option (\<lambda>p. gpr_assign sz p v m) (gpr_resolve c sz n) else None)"
| "assign_arg c (Register (Xmm n)) v m = write_arg c (Register (Xmm n)) v m"
| "assign_arg c a v m = None"

primrec run_args :: "context_ptrs \<Rightarrow> argument list \<Rightarrow> 'c hook_prog \<Rightarrow> memory \<Rightarrow> ('c \<times> memory) option" where
  "run_args c args (Finish x) m = Some (x, m)"
| "run_args c args (Read_arg i k) m =
     (if i < length args then do { v \<leftarrow> read_arg c (args ! i) m; run_args c args (k v) m } else None)"
| "run_args c args (Write_arg i v p) m =
     (if i < length args then do { m' \<leftarrow> write_arg c (args ! i) v m; run_args c args p m' } else None)"
| "run_args c args (Assign_arg i v p) m =
     (if i < length args then do { m' \<leftarrow> assign_arg c (args ! i) v m; run_args c args p m' } else None)"
| "run_args c args (Load a n k) m = run_args c args (k (read_bytes m a n)) m"
| "run_args c args (Store a v p) m = run_args c args p (write_bytes a v m)"

text \<open>
  The closure as the hook owns it: bare, behind the mutex of \<open>FnMutWrapper\<close> with its state, or in
  \<open>FnOnceWrapper\<close> with its flag.
\<close>

datatype 'c wrapped =
    Fn_hook "'c hook_prog"
  | Fn_mut_hook "'c \<Rightarrow> 'c hook_prog" 'c
  | Fn_once_hook "'c hook_prog option" bool

fun run_wrapped :: "('c hook_prog \<Rightarrow> 'x \<Rightarrow> ('c \<times> 'x) option) \<Rightarrow> 'c wrapped \<Rightarrow> 'x \<Rightarrow> ('c wrapped \<times> 'x) option" where
  "run_wrapped run (Fn_hook p) x = do { (_, x') \<leftarrow> run p x; Some (Fn_hook p, x') }"
| "run_wrapped run (Fn_mut_hook f c) x = do { (c', x') \<leftarrow> run (f c) x; Some (Fn_mut_hook f c', x') }"
| "run_wrapped run (Fn_once_hook (Some p) True) x = do { (_, x') \<leftarrow> run p x; Some (Fn_once_hook None False, x') }"
| "run_wrapped run w x = Some (w, x)"

text \<open>What \<open>hook\<close>, \<open>hook_mut\<close> and \<open>hook_once\<close> of \<open>CustomInstaller\<close> give to \<open>leak_hook\<close>.\<close>

definition custom_hook :: "'c hook_prog \<Rightarrow> 'c wrapped" where
  "custom_hook p = Fn_hook p"

definition custom_hook_mut :: "('c \<Rightarrow> 'c hook_prog) \<Rightarrow> 'c \<Rightarrow> 'c wrapped" where
  "custom_hook_mut f c = Fn_mut_hook f c"

definition custom_hook_once :: "'c hook_prog \<Rightarrow> 'c wrapped" where
  "custom_hook_once p = Fn_once_hook (Some p) True"

text \<open>\<open>None\<close> is a hook that does not compile or an access through a null part of the context.\<close>

definition call_with_resolved ::
    "context_ptrs \<Rightarrow> argument list \<Rightarrow> 'c wrapped \<Rightarrow> memory \<Rightarrow> ('c wrapped \<times> memory) option" where
  "call_with_resolved c args h m =
     (if accepted args \<and> list_all (resolvable c) args then run_wrapped (run_args c args) h m else None)"

section \<open>Arguments as variables\<close>

text \<open>
  The reference: one variable per argument, which holds the whole register, and the memory the closure
  may use, given by \<open>A\<close>. A 32-bit assignment clears the upper half, as on the processor.
\<close>

fun full :: "reg \<Rightarrow> reg" where
  "full (Gpr sz n) = Gpr 8 n"
| "full r = r"

fun plain :: "reg \<Rightarrow> bool" where
  "plain (Gpr sz n) \<longleftrightarrow> True"
| "plain (Xmm n) \<longleftrightarrow> True"
| "plain (Ymm n) \<longleftrightarrow> True"
| "plain r \<longleftrightarrow> False"

fun assigned :: "reg \<Rightarrow> byte list \<Rightarrow> byte list \<Rightarrow> byte list option" where
  "assigned (Gpr sz n) v old = (if length v \<noteq> sz then None
     else Some (if sz = 4 then v @ replicate 4 0 else v @ drop sz old))"
| "assigned (Xmm n) v old = (if length v = 16 then Some v else None)"
| "assigned r v old = None"

primrec run_vars ::
    "reg list \<Rightarrow> (nat \<Rightarrow> bool) \<Rightarrow> 'c hook_prog \<Rightarrow> byte list list \<times> memory \<Rightarrow> ('c \<times> byte list list \<times> memory) option" where
  "run_vars rs A (Finish x) z = Some (x, z)"
| "run_vars rs A (Read_arg i k) z =
     (if i < length rs then run_vars rs A (k (take (reg_len (rs ! i)) (fst z ! i))) z else None)"
| "run_vars rs A (Write_arg i v p) z =
     (if i < length rs \<and> length v = reg_len (rs ! i)
      then run_vars rs A p ((fst z)[i := v @ drop (length v) (fst z ! i)], snd z) else None)"
| "run_vars rs A (Assign_arg i v p) z =
     (if i < length rs then do { v' \<leftarrow> assigned (rs ! i) v (fst z ! i); run_vars rs A p ((fst z)[i := v'], snd z) } else None)"
| "run_vars rs A (Load a n k) z =
     (if list_all A [a..<a + n] then run_vars rs A (k (read_bytes (snd z) a n)) z else None)"
| "run_vars rs A (Store a v p) z =
     (if list_all A [a..<a + length v] then run_vars rs A p (fst z, write_bytes a v (snd z)) else None)"

definition arg_bytes :: "context_ptrs \<Rightarrow> reg list \<Rightarrow> nat \<Rightarrow> bool" where
  "arg_bytes c rs a \<longleftrightarrow> (\<exists>r \<in> set rs. \<exists>k. unique r = Some k \<and> slot c k a)"

definition args_ok :: "context_ptrs \<Rightarrow> reg list \<Rightarrow> (nat \<Rightarrow> bool) \<Rightarrow> bool" where
  "args_ok c rs A \<longleftrightarrow> context_ok c \<and> (\<forall>r \<in> set rs. plain r \<and> reg_defined r) \<and> distinct (map unique rs)
     \<and> (\<forall>a. A a \<longrightarrow> \<not> arg_bytes c rs a)"

definition vars_rel ::
    "context_ptrs \<Rightarrow> reg list \<Rightarrow> (nat \<Rightarrow> bool) \<Rightarrow> memory \<Rightarrow> byte list list \<Rightarrow> memory \<Rightarrow> memory \<Rightarrow> bool" where
  "vars_rel c rs A m0 vs w m \<longleftrightarrow> length vs = length rs \<and> (\<forall>i < length rs. reg_read c (full (rs ! i)) m = Some (vs ! i))
     \<and> (\<forall>a. A a \<longrightarrow> m a = w a) \<and> (\<forall>a. \<not> A a \<longrightarrow> \<not> arg_bytes c rs a \<longrightarrow> m a = m0 a)"

section \<open>The variables are the registers\<close>

lemma read_write_prefix:
  "length v \<le> n \<Longrightarrow> read_bytes (write_bytes p v m) p n = v @ drop (length v) (read_bytes m p n)"
  by (rule nth_equalityI) (auto simp: write_bytes_def nth_append)

lemma gpr_place_of: "reg_defined (Gpr sz n) \<Longrightarrow> gpr_resolve c sz n = Some (legacy_ptr c + 8 + 8 * n)"
  by (simp add: gpr_resolve_def)

lemma full_unique [simp]: "unique (full r) = unique r"
  by (cases r) simp_all

lemma full_defined: "reg_defined r \<Longrightarrow> reg_defined (full r)"
  by (cases r) simp_all

lemma read_full:
  assumes "plain r" "reg_defined r" "reg_read c (full r) m = Some v"
  shows "reg_read c r m = Some (take (reg_len r) v)"
proof (cases r)
  case (Gpr sz n)
  with assms show ?thesis by (auto simp: gpr_place_of gpr_read_def read_bytes_take)
next
  case (Ymm n)
  with assms show ?thesis by (auto simp: ymm_read_def split: bind_splits)
qed (use assms in \<open>auto simp: xmm_resolve_def\<close>)

lemma full_after_write:
  assumes "context_ok c" "plain r" "reg_defined r" "reg_read c (full r) m = Some old" "length v = reg_len r"
  shows "\<exists>m'. reg_write c r v m = Some m' \<and> reg_read c (full r) m' = Some (v @ drop (length v) old)"
proof (cases r)
  case (Gpr sz n)
  with assms show ?thesis
    by (auto simp: gpr_place_of gpr_resolve_def gpr_read_def gpr_write_def read_write_prefix)
next
  case (Ymm n)
  with assms have avx: "ymm_area c = Some (avx_ptr c)" "legacy_ptr c + 720 \<le> avx_ptr c" "n < 16"
    and len: "length v = 16 + 16"
    by (auto simp: ymm_read_def ymm_area_def context_ok_def split: bind_splits if_splits)
  have apart: "xmm_area c + 16 * n + 16 \<le> avx_ptr c + 16 * n" using avx by (simp add: xmm_area_def)
  have "length old = 32" using assms(4) Ymm by (auto simp: ymm_read_def avx(1))
  then show ?thesis
    using len apart take_drop_append [OF len]
    by (simp add: Ymm ymm_read_def ymm_write_def avx(1) read_write_same read_write_apart)
qed (use assms in \<open>auto simp: xmm_resolve_def read_write_same\<close>)

lemma full_after_assign:
  assumes "context_ok c" "plain r" "reg_defined r" "reg_read c (full r) m = Some old" "assigned r v old = Some new"
  shows "\<exists>m'. assign_arg c (Register r) v m = Some m' \<and> reg_read c (full r) m' = Some new
    \<and> (\<forall>k a. unique r = Some k \<longrightarrow> \<not> slot c k a \<longrightarrow> m' a = m a)"
proof (cases r)
  case (Gpr sz n)
  let ?p = "legacy_ptr c + 8 + 8 * n"
  have n: "n < 16" "sz \<le> 8" "length v = sz" "old = read_bytes m ?p 8"
      "new = (if sz = 4 then v @ replicate 4 0 else v @ drop sz old)"
    using assms by (auto simp: Gpr gpr_resolve_def gpr_read_def split: if_splits)
  have "read_bytes (gpr_assign sz ?p v m) ?p 8 = new"
  proof (cases "sz = 4")
    case True
    have "read_bytes (gpr_assign sz ?p v m) ?p (4 + 4) = v @ replicate 4 0"
      unfolding read_bytes_append using n(3) True
      by (simp add: gpr_assign_def gpr_deref_mut_def gpr_write_def read_write_same read_write_apart le_bytes_4 eval_nat_numeral)
    with True n(5) show ?thesis by simp
  qed (use n in \<open>simp add: gpr_assign_def gpr_deref_mut_def gpr_write_def read_write_prefix\<close>)
  moreover have "gpr_assign sz ?p v m a = m a" if "\<not> slot c n a" for a
  proof -
    have "a < ?p \<or> ?p + 8 \<le> a" using that n(1) by (auto simp: slot_def)
    then show ?thesis using n(2,3) by (auto simp: gpr_assign_def gpr_deref_mut_def gpr_write_def write_bytes_outside)
  qed
  ultimately show ?thesis using n by (simp add: Gpr gpr_resolve_def gpr_read_def)
next
  case (Xmm n)
  with assms have len: "length v = 16" "new = v" "n < 16" by (auto split: if_splits)
  obtain m' where m': "reg_write c r v m = Some m'" using Xmm len by (simp add: xmm_resolve_def)
  have "m' a = m a" if "unique r = Some k" "\<not> slot c k a" for k a
    by (rule reg_write_in_slot [OF that(1) _ m' _ that(2)]) (simp_all add: Xmm len)
  with m' len show ?thesis by (auto simp: Xmm xmm_resolve_def read_write_same)
qed (use assms in simp_all)

lemma plain_unique: "plain r \<Longrightarrow> reg_defined r \<Longrightarrow> \<exists>k < 32. unique r = Some k"
  by (cases r) auto

lemma slots_differ:
  assumes "args_ok c rs A" "i < length rs" "j < length rs" "i \<noteq> j" "unique (rs ! i) = Some k" "unique (rs ! j) = Some l" "slot c l a"
  shows "\<not> slot c k a"
proof
  assume k: "slot c k a"
  have "rs ! i \<in> set rs" "rs ! j \<in> set rs" using assms(2,3) by simp_all
  then have "k < 32" "l < 32"
    using assms(1,5,6) plain_unique [of "rs ! i"] plain_unique [of "rs ! j"] by (auto simp: args_ok_def)
  moreover have "k \<noteq> l"
    using assms nth_eq_iff_index_eq [of "map unique rs" i j] by (auto simp: args_ok_def)
  ultimately show False using slots_apart [of c k l a] k assms(1,7) by (simp add: args_ok_def)
qed

lemma vars_put:
  assumes ok: "args_ok c rs A" and rel: "vars_rel c rs A m0 vs w m" and i: "i < length rs"
    and new: "reg_read c (full (rs ! i)) m' = Some v'"
    and frame: "\<And>k a. unique (rs ! i) = Some k \<Longrightarrow> \<not> slot c k a \<Longrightarrow> m' a = m a"
  shows "vars_rel c rs A m0 (vs[i := v']) w m'"
proof -
  have in_set: "rs ! j \<in> set rs" if "j < length rs" for j using that by simp
  obtain k where k: "unique (rs ! i) = Some k" using ok plain_unique [of "rs ! i"] in_set [OF i] by (fastforce simp: args_ok_def)
  have other: "m' a = m a" if "\<not> arg_bytes c rs a" for a
    using frame [OF k] that in_set [OF i] k by (auto simp: arg_bytes_def)
  have "reg_read c (full (rs ! j)) m' = Some (vs[i := v'] ! j)" if j: "j < length rs" for j
  proof (cases "j = i")
    case False
    have "rs ! j \<in> set rs" using j by simp
    with ok have d: "plain (rs ! j)" "reg_defined (rs ! j)" by (auto simp: args_ok_def)
    then obtain l where l: "unique (rs ! j) = Some l" using plain_unique by blast
    have "reg_read c (full (rs ! j)) m' = reg_read c (full (rs ! j)) m"
    proof (rule reg_read_in_slot)
      show "unique (full (rs ! j)) = Some l" using l by simp
      show "reg_defined (full (rs ! j))" using d(2) by (rule full_defined)
      show "m' a = m a" if "slot c l a" for a
        using frame [OF k slots_differ [OF ok i j _ k l that]] False by blast
    qed
    then show ?thesis using rel j False by (simp add: vars_rel_def)
  qed (use new rel j in \<open>simp add: vars_rel_def\<close>)
  then show ?thesis using rel ok other by (auto simp: vars_rel_def args_ok_def)
qed

lemma load_apart: "list_all A [a..<a + n] \<longleftrightarrow> (\<forall>x. a \<le> x \<and> x < a + n \<longrightarrow> A x)"
  by (auto simp: list_all_iff)

lemma vars_store:
  assumes ok: "args_ok c rs A" and rel: "vars_rel c rs A m0 vs w m" and a: "list_all A [a..<a + length v]"
  shows "vars_rel c rs A m0 vs (write_bytes a v w) (write_bytes a v m)"
proof -
  have out: "write_bytes a v m x = m x" if "\<not> A x" for x
    using a that by (intro write_bytes_outside) (auto simp: load_apart)
  have "reg_read c (full r) (write_bytes a v m) = reg_read c (full r) m" if r: "r \<in> set rs" for r
  proof -
    have d: "plain r" "reg_defined r" using ok r by (auto simp: args_ok_def)
    then obtain k where k: "unique r = Some k" using plain_unique by blast
    show ?thesis
    proof (rule reg_read_in_slot)
      show "unique (full r) = Some k" using k by simp
      show "reg_defined (full r)" using d(2) by (rule full_defined)
      show "write_bytes a v m x = m x" if "slot c k x" for x
        using that k r ok by (intro out) (auto simp: args_ok_def arg_bytes_def)
    qed
  qed
  moreover have "write_bytes a v m x = write_bytes a v w x" if "A x" for x
    using rel that by (simp add: vars_rel_def write_bytes_def)
  ultimately show ?thesis using rel out by (simp add: vars_rel_def)
qed

lemma run_args_vars:
  assumes ok: "args_ok c rs A"
  shows "vars_rel c rs A m0 (fst z) (snd z) m \<Longrightarrow> run_vars rs A p z = Some (x, z') \<Longrightarrow>
    \<exists>m'. run_args c (map Register rs) p m = Some (x, m') \<and> vars_rel c rs A m0 (fst z') (snd z') m'"
proof (induction p arbitrary: z m)
  case (Read_arg i k)
  then have i: "i < length rs" and run: "run_vars rs A (k (take (reg_len (rs ! i)) (fst z ! i))) z = Some (x, z')"
    by (auto split: if_splits)
  have "rs ! i \<in> set rs" using i by simp
  with ok have d: "plain (rs ! i)" "reg_defined (rs ! i)" by (auto simp: args_ok_def)
  have "reg_read c (rs ! i) m = Some (take (reg_len (rs ! i)) (fst z ! i))"
    using Read_arg.prems(1) i by (intro read_full [OF d]) (simp add: vars_rel_def)
  with Read_arg.IH [OF _ Read_arg.prems(1) run] i show ?case by simp
next
  case (Write_arg i v p)
  then have i: "i < length rs" "length v = reg_len (rs ! i)"
    and run: "run_vars rs A p ((fst z)[i := v @ drop (length v) (fst z ! i)], snd z) = Some (x, z')"
    by (auto split: if_splits)
  have "rs ! i \<in> set rs" using i by simp
  with ok have d: "context_ok c" "plain (rs ! i)" "reg_defined (rs ! i)" by (auto simp: args_ok_def)
  have old: "reg_read c (full (rs ! i)) m = Some (fst z ! i)" using Write_arg.prems(1) i(1) by (simp add: vars_rel_def)
  obtain m' where m': "reg_write c (rs ! i) v m = Some m'"
      "reg_read c (full (rs ! i)) m' = Some (v @ drop (length v) (fst z ! i))"
    using full_after_write [OF d old i(2)] by blast
  have "\<And>n. rs ! i \<noteq> Zmm n" using d(2) by auto
  then have "vars_rel c rs A m0 ((fst z)[i := v @ drop (length v) (fst z ! i)]) (snd z) m'"
    using reg_write_in_slot [OF _ _ m'(1) i(2)] by (intro vars_put [OF ok Write_arg.prems(1) i(1) m'(2)]) blast
  then show ?case using Write_arg.IH [OF _ run, of m'] i m'(1) by simp
next
  case (Assign_arg i v p)
  then obtain new where i: "i < length rs" and new: "assigned (rs ! i) v (fst z ! i) = Some new"
    and run: "run_vars rs A p ((fst z)[i := new], snd z) = Some (x, z')"
    by (auto split: if_splits bind_splits)
  have "rs ! i \<in> set rs" using i by simp
  with ok have d: "context_ok c" "plain (rs ! i)" "reg_defined (rs ! i)" by (auto simp: args_ok_def)
  have old: "reg_read c (full (rs ! i)) m = Some (fst z ! i)" using Assign_arg.prems(1) i(1) by (simp add: vars_rel_def)
  obtain m' where m': "assign_arg c (Register (rs ! i)) v m = Some m'" "reg_read c (full (rs ! i)) m' = Some new"
      "\<And>k a. unique (rs ! i) = Some k \<Longrightarrow> \<not> slot c k a \<Longrightarrow> m' a = m a"
    using full_after_assign [OF d old new] by blast
  have "vars_rel c rs A m0 ((fst z)[i := new]) (snd z) m'"
    by (rule vars_put [OF ok Assign_arg.prems(1) i m'(2)]) (rule m'(3))
  then show ?case using Assign_arg.IH [OF _ run, of m'] i m'(1) by simp
next
  case (Load a n k)
  then have A: "list_all A [a..<a + n]" and run: "run_vars rs A (k (read_bytes (snd z) a n)) z = Some (x, z')"
    by (auto split: if_splits)
  have "read_bytes m a n = read_bytes (snd z) a n"
    by (rule read_bytes_cong) (use A Load.prems(1) in \<open>auto simp: load_apart vars_rel_def\<close>)
  with Load.IH [OF _ Load.prems(1) run] show ?case by simp
next
  case (Store a v p)
  then have A: "list_all A [a..<a + length v]" and run: "run_vars rs A p (fst z, write_bytes a v (snd z)) = Some (x, z')"
    by (auto split: if_splits)
  have "vars_rel c rs A m0 (fst (fst z, write_bytes a v (snd z))) (snd (fst z, write_bytes a v (snd z))) (write_bytes a v m)"
    using vars_store [OF ok Store.prems(1) A] by simp
  from Store.IH [OF this run] show ?case by simp
qed auto

lemma run_wrapped_sim:
  assumes "\<And>p y z. run p x = Some (y, z) \<Longrightarrow> \<exists>z'. run' p x' = Some (y, z') \<and> R z z'" and "R x x'"
    and "run_wrapped run h x = Some (h', z)"
  shows "\<exists>z'. run_wrapped run' h x' = Some (h', z') \<and> R z z'"
proof (cases "(run, h, x)" rule: run_wrapped.cases)
  case (1 run p x)
  with assms show ?thesis by (fastforce split: bind_splits prod.splits)
next
  case (2 run f c x)
  with assms show ?thesis by (fastforce split: bind_splits prod.splits)
next
  case (3 run p x)
  with assms show ?thesis by (fastforce split: bind_splits prod.splits)
qed (use assms in auto)

section \<open>A hooked function goes on with the variables\<close>

text \<open>
  \<open>hook_runs\<close>: the compiled hook does what the closure says, on the saved registers and on the memory in
  \<open>A\<close>; its own stack frame may hold anything. \<open>call_vars\<close> is the closure on variables.
\<close>

definition hook_runs ::
    "'x environment \<Rightarrow> argument list \<Rightarrow> 'c wrapped \<Rightarrow> (nat \<Rightarrow> bool) \<Rightarrow> 'x machine \<Rightarrow> bool" where
  "hook_runs e args h A s1 \<longleftrightarrow>
     (case call_with_resolved (context_of (e_cfg e) (m_regs s1 6)) args h (m_mem s1) of
        None \<Rightarrow> True
      | Some (h', m) \<Rightarrow> \<forall>a. A a \<or> m_regs s1 6 \<le> a \<and> a < m_regs s1 6 + 144 + XSAVE_SIZE (e_cfg e) \<longrightarrow>
          m_mem (e_hook e s1) a = m a)"

definition call_vars ::
    "reg list \<Rightarrow> (nat \<Rightarrow> bool) \<Rightarrow> 'c wrapped \<Rightarrow> byte list list \<Rightarrow> memory \<Rightarrow> ('c wrapped \<times> byte list list \<times> memory) option" where
  "call_vars rs A h vs w = run_wrapped (run_vars rs A) h (vs, w)"

lemma call_vars_sim:
  assumes ok: "args_ok c rs A" and rel: "vars_rel c rs A m0 vs w m" and run: "call_vars rs A h vs w = Some (h', vs', w')"
  shows "\<exists>m'. run_wrapped (run_args c (map Register rs)) h m = Some (h', m') \<and> vars_rel c rs A m0 vs' w' m'"
proof -
  let ?R = "\<lambda>z. vars_rel c rs A m0 (fst z) (snd z)"
  have "\<exists>m'. run_wrapped (run_args c (map Register rs)) h m = Some (h', m') \<and> ?R (vs', w') m'"
  proof (rule run_wrapped_sim [where R = ?R])
    show "?R (vs, w) m" using rel by simp
    show "run_wrapped (run_vars rs A) h (vs, w) = Some (h', vs', w')" using run by (simp add: call_vars_def)
    show "\<exists>m'. run_args c (map Register rs) p m = Some (y, m') \<and> ?R z m'"
      if "run_vars rs A p (vs, w) = Some (y, z)" for p y z
      by (rule run_args_vars [OF ok _ that]) (use rel in simp)
  qed
  then show ?thesis by simp
qed

definition gprs :: "(nat \<times> nat) list \<Rightarrow> reg list" where
  "gprs gs = map (\<lambda>(sz, n). Gpr sz n) gs"

definition gpr_values :: "(nat \<times> nat) list \<Rightarrow> (nat \<Rightarrow> nat) \<Rightarrow> byte list list" where
  "gpr_values gs r = map (\<lambda>(sz, n). le_bytes 8 (int (r n))) gs"

lemma somes_map_Some: "somes (map (\<lambda>x. Some (f x)) xs) = map f xs"
  by (induction xs) simp_all

lemma accepted_gprs:
  assumes "accepted (map Register (gprs gs))"
  shows "distinct (map snd gs)" and "\<And>sz n. (sz, n) \<in> set gs \<Longrightarrow> sz \<le> 8 \<and> n < 16"
    and "list_all (resolvable c) (map Register (gprs gs))"
proof -
  have "map arg_unique (map Register (gprs gs)) = map (\<lambda>x. Some (snd x)) gs" by (simp add: gprs_def split_beta)
  then show "distinct (map snd gs)" using assms by (simp add: accepted_def has_dupes_iff somes_map_Some)
  show "\<And>sz n. (sz, n) \<in> set gs \<Longrightarrow> sz \<le> 8 \<and> n < 16"
    using assms by (force simp: accepted_def gprs_def list_all_iff)
  show "list_all (resolvable c) (map Register (gprs gs))" by (auto simp: gprs_def list_all_iff)
qed

lemma gpr_bytes: "accepted (map Register (gprs gs)) \<Longrightarrow> arg_bytes c (gprs gs) a \<longleftrightarrow>
    (\<exists>n \<in> snd ` set gs. legacy_ptr c + 8 + 8 * n \<le> a \<and> a < legacy_ptr c + 16 + 8 * n)"
proof -
  assume acc: "accepted (map Register (gprs gs))"
  have "arg_bytes c (gprs gs) a \<longleftrightarrow> (\<exists>x \<in> set gs. slot c (snd x) a)"
    by (force simp: arg_bytes_def gprs_def split_beta)
  moreover have "slot c (snd x) a \<longleftrightarrow> legacy_ptr c + 8 + 8 * snd x \<le> a \<and> a < legacy_ptr c + 16 + 8 * snd x" if "x \<in> set gs" for x
    using accepted_gprs(2) [OF acc, of "fst x" "snd x"] that by (simp add: slot_def)
  ultimately show ?thesis by auto
qed

lemma gprs_ok:
  assumes "context_ok c" "accepted (map Register (gprs gs))"
    and "\<And>a. A a \<Longrightarrow> a < legacy_ptr c \<or> legacy_ptr c + 136 \<le> a"
  shows "args_ok c (gprs gs) A"
proof -
  have u: "map unique (gprs gs) = map Some (map snd gs)" by (simp add: gprs_def split_beta)
  have "distinct (map unique (gprs gs))"
    unfolding u using accepted_gprs(1) [OF assms(2)] by (subst distinct_map) simp
  moreover have "\<not> arg_bytes c (gprs gs) a" if "A a" for a
    using assms(3) [OF that] accepted_gprs(2) [OF assms(2)] by (fastforce simp: gpr_bytes [OF assms(2)])
  ultimately show ?thesis using assms(1) accepted_gprs(2) [OF assms(2)] by (auto simp: args_ok_def gprs_def)
qed

text \<open>The closure's run from the entry of the hook, and what it leaves alone of the saved registers.\<close>

lemma closure_runs:
  assumes entry: "entry_ok e data nxt s" "run_machine 6 e s = s1"
    and ctx: "context_ok (context_of (e_cfg e) (m_regs s1 6))" "accepted (map Register (gprs gs))"
    and A: "\<And>a. A a \<Longrightarrow> a + 8 < m_regs s1 6 \<or> m_regs s 4 \<le> a + 128"
    and vars: "call_vars (gprs gs) A h (gpr_values gs (m_regs s)) (m_mem s) = Some (h', vs', w')"
  shows "\<exists>m. call_with_resolved (context_of (e_cfg e) (m_regs s1 6)) (map Register (gprs gs)) h (m_mem s1) = Some (h', m)
    \<and> vars_rel (context_of (e_cfg e) (m_regs s1 6)) (gprs gs) A (m_mem s1) vs' w' m"
proof -
  let ?L = "m_regs s1 6" and ?c = "context_of (e_cfg e) (m_regs s1 6)" and ?rs = "gprs gs"
  note lay = frame_layout [OF entry(1)] and slots = hook_memory_slots [OF entry(1)] and gs = accepted_gprs [OF ctx(2)]
  have s1: "m_mem s1 = hook_memory e (m_regs s 4 - 160) ?L s" "?L = saved_at e (m_regs s 4)"
    using run_to_hook [OF entry(1)] entry(2) by auto
  have c: "legacy_ptr ?c = ?L" by (simp add: context_of_def)
  have ok: "args_ok ?c ?rs A"
  proof (rule gprs_ok [OF ctx])
    show "a < legacy_ptr ?c \<or> legacy_ptr ?c + 136 \<le> a" if "A a" for a
      unfolding c using A [OF that] lay(1,4) s1(2) by linarith
  qed
  have "vars_rel ?c ?rs A (m_mem s1) (gpr_values gs (m_regs s)) (m_mem s) (m_mem s1)"
    unfolding vars_rel_def
  proof (intro conjI allI impI)
    fix i assume "i < length ?rs"
    then obtain sz n where i: "i < length gs" "gs ! i = (sz, n)" "n < 16"
      using gs(2) nth_mem by (metis (no_types) gprs_def length_map surj_pair)
    then show "reg_read ?c (full (?rs ! i)) (m_mem s1) = Some (gpr_values gs (m_regs s) ! i)"
      using gpr_place [OF i(3), of "e_cfg e" ?L "m_mem s1"] slots(1) [OF i(3)] s1 by (simp add: gprs_def gpr_values_def)
  next
    fix a assume "A a"
    then show "m_mem s1 a = m_mem s a"
      unfolding s1(1) s1(2) using A [of a] lay(1) s1(2) by (intro hook_memory_outside [OF entry(1)]) linarith
  qed (simp_all add: gprs_def gpr_values_def)
  from call_vars_sim [OF ok this vars] ctx(2) gs(3) show ?thesis by (auto simp: call_with_resolved_def)
qed

lemma saved_kept:
  assumes "accepted (map Register (gprs gs))" "vars_rel (context_of cfg L) (gprs gs) A m0 vs w m" "\<not> A a"
    and "\<And>n. n \<in> snd ` set gs \<Longrightarrow> a < L + 8 + 8 * n \<or> L + 16 + 8 * n \<le> a"
  shows "m a = m0 a"
proof -
  have "\<not> arg_bytes (context_of cfg L) (gprs gs) a"
    using assms(4) by (force simp: gpr_bytes [OF assms(1)] context_of_def)
  then show ?thesis using assms(2,3) by (simp add: vars_rel_def)
qed

lemma gpr_left:
  assumes "vars_rel (context_of cfg L) (gprs gs) A m0 vs w m" "i < length gs" "snd (gs ! i) < 16"
  shows "le_bytes 8 (int (read64 (reg_slot L (snd (gs ! i))) m)) = vs ! i"
proof -
  have "reg_read (context_of cfg L) (full (gprs gs ! i)) m = Some (vs ! i)" using assms(1,2) by (simp add: vars_rel_def gprs_def)
  moreover have "full (gprs gs ! i) = Gpr 8 (snd (gs ! i))" using assms(2) by (simp add: gprs_def split_beta)
  ultimately show ?thesis by (simp only: gpr_place [OF assms(3)] option.inject)
qed

lemma gpr_kept:
  assumes "n < 16" "n \<notin> snd ` set gs" and "\<And>a. L \<le> a \<Longrightarrow> a < L + 136 \<Longrightarrow>
      (\<And>k. k \<in> snd ` set gs \<Longrightarrow> a < L + 8 + 8 * k \<or> L + 16 + 8 * k \<le> a) \<Longrightarrow> m a = m0 a"
  shows "read64 (reg_slot L n) m = read64 (reg_slot L n) m0"
proof (rule read64_cong, rule assms(3))
  fix a k assume a: "reg_slot L n \<le> a" "a < reg_slot L n + 8" and k: "k \<in> snd ` set gs"
  have "k < n \<or> n < k" using assms(2) k by (metis nat_neq_iff)
  then show "a < L + 8 + 8 * k \<or> L + 16 + 8 * k \<le> a" using a by (auto simp: reg_slot_def)
qed (use assms(1) in \<open>auto simp: reg_slot_def\<close>)

text \<open>
  C29. A custom hook and the function it is on agree about registers: whatever the closure does with the
  general purpose registers it asks for (arguments of other kinds are not covered), of any width and in any
  of the three wrappers, it computes as if each were a variable that starts with the caller's register; the
  original function then starts with the registers as the closure left the variables (32-bit assignments
  clear the upper half), but for RSP, which is as at the call whatever the closure wrote to its variable;
  every other register, the flags and every enabled component of the extended state from x87 to AVX-512 are
  as at the call, and the memory is as the closure left it.
\<close>

theorem closure_updates_registers:
  assumes entry: "entry_ok e data nxt s" "context_save_config xcr0 xsavec cpuid = Some (e_cfg e)" "xsave_documented xcr0 e"
      "run_machine 6 e s = s1"
    and abi: "abi_return e (m_regs s 4 - 160) s1 (e_hook e s1)"
    and ctx: "context_ok (context_of (e_cfg e) (m_regs s1 6))" "accepted (map Register (gprs gs))"
    and A: "\<And>a. A a \<Longrightarrow> a + 8 < m_regs s1 6 \<or> m_regs s 4 \<le> a + 128"
    and hook: "hook_runs e (map Register (gprs gs)) h A s1"
    and vars: "call_vars (gprs gs) A h (gpr_values gs (m_regs s)) (m_mem s) = Some (h', vs', w')"
  shows "\<exists>s' m. call_with_resolved (context_of (e_cfg e) (m_regs s1 6)) (map Register (gprs gs)) h (m_mem s1) = Some (h', m)
    \<and> run_machine 10 e s = s' \<and> m_rip s' = nxt
    \<and> (\<forall>i < length gs. snd (gs ! i) \<noteq> 4 \<longrightarrow> le_bytes 8 (int (m_regs s' (snd (gs ! i)))) = vs' ! i)
    \<and> (\<forall>n < 16. n \<notin> snd ` set gs \<or> n = 4 \<longrightarrow> m_regs s' n = m_regs s n)
    \<and> m_flags s' = m_flags s
    \<and> (\<forall>i. m_xstate s' i = (if i \<in> {0, 1, 2, 5, 6, 7} \<and> bit xcr0 i then m_xstate s i else m_xstate (e_hook e s1) i))
    \<and> (\<forall>a. A a \<longrightarrow> m_mem s' a = w' a)"
proof -
  let ?L = "m_regs s1 6" and ?s2 = "e_hook e s1" and ?S = "XSAVE_SIZE (e_cfg e)"
  note lay = frame_layout [OF entry(1)] and slots = hook_memory_slots [OF entry(1)] and gs = accepted_gprs [OF ctx(2)]
  have s1: "m_mem s1 = hook_memory e (m_regs s 4 - 160) ?L s" "?L = saved_at e (m_regs s 4)"
    using run_to_hook [OF entry(1)] entry(4) by auto
  obtain m where call: "call_with_resolved (context_of (e_cfg e) ?L) (map Register (gprs gs)) h (m_mem s1) = Some (h', m)"
      and rel: "vars_rel (context_of (e_cfg e) ?L) (gprs gs) A (m_mem s1) vs' w' m"
    using closure_runs [OF entry(1,4) ctx A vars] by blast
  have s2: "m_mem ?s2 a = m a" if "A a \<or> ?L \<le> a \<and> a < ?L + 144 + ?S" for a
    using hook that by (auto simp: hook_runs_def call)
  have outside: "\<not> A a" if "?L \<le> a" "a < ?L + 144 + ?S" for a using A [of a] that lay(1,4) s1(2) by linarith
  note kept = saved_kept [OF ctx(2) rel outside]
  have same: "read64 p (m_mem ?s2) = read64 p m" if "?L \<le> p" "p + 8 \<le> ?L + 144" for p
    by (rule read64_cong, rule s2) (use that in linarith)
  obtain s' where s': "run_machine 10 e s = s'" "m_rip s' = nxt" "m_regs s' 4 = m_regs s 4"
      "\<forall>n < 16. n \<noteq> 4 \<longrightarrow> m_regs s' n = read64 (reg_slot ?L n) (m_mem ?s2)" "m_flags s' = read64 ?L (m_mem ?s2)"
      "m_xstate s' = e_xrstor e (bv32 e) (read_bytes (m_mem ?s2) (?L + 144) ?S) (m_xstate ?s2)"
      "\<forall>a. a < m_regs s 4 - 160 \<or> m_regs s 4 - 152 \<le> a \<longrightarrow> m_mem s' a = m_mem ?s2 a"
    using run_hooked [OF entry(1,4) abi] by blast
  have held: "m_regs s' n = read64 (reg_slot ?L n) m" if "n < 16" "n \<noteq> 4" for n
    using s'(4) that same [of "reg_slot ?L n"] by (simp add: reg_slot_def)
  have args: "le_bytes 8 (int (m_regs s' (snd (gs ! i)))) = vs' ! i" if i: "i < length gs" "snd (gs ! i) \<noteq> 4" for i
    using gs(2) [of "fst (gs ! i)" "snd (gs ! i)"] nth_mem [OF i(1)] gpr_left [OF rel i(1)] held [OF _ i(2)] by simp
  have rest: "m_regs s' n = m_regs s n" if n: "n < 16" "n \<notin> snd ` set gs \<or> n = 4" for n
  proof (cases "n = 4")
    case False
    have "read64 (reg_slot ?L n) m = read64 (reg_slot ?L n) (m_mem s1)"
      by (rule gpr_kept [of n gs]) (use n False in \<open>auto intro!: kept\<close>)
    then show ?thesis using held [OF n(1) False] slots(1) [OF n(1)] s1 by simp
  qed (simp add: s'(3))
  have "read64 ?L m = read64 ?L (m_mem s1)" by (intro read64_cong kept) auto
  then have flags: "m_flags s' = m_flags s" using same [of ?L] slots(2) s1 s'(5) by simp
  have "m_xstate s' i = (if i \<in> saved_components xcr0 then m_xstate s i else m_xstate ?s2 i)" for i
    unfolding s'(6)
  proof (rule xstate_restored [OF entry])
    fix a assume a: "?L + 144 \<le> a" "a < ?L + 144 + ?S"
    have "?L + 16 + 8 * n \<le> a" if "n \<in> snd ` set gs" for n using that gs(2) a(1) by force
    then show "m_mem ?s2 a = m_mem s1 a" using s2 [of a] kept [of a] a by simp
  qed
  moreover have "m_mem s' a = w' a" if a: "A a" for a
  proof -
    have "a < m_regs s 4 - 160 \<or> m_regs s 4 - 152 \<le> a" using A [OF a] lay(1,4) s1(2) by linarith
    then have "m_mem s' a = m_mem ?s2 a" using s'(7) by blast
    then show ?thesis using s2 [of a] rel a by (simp add: vars_rel_def)
  qed
  ultimately show ?thesis using call s'(1,2) args rest flags unfolding saved_components_def mem_Collect_eq
    by (intro exI [of _ s'] exI [of _ m]) blast
qed

section \<open>A concrete closure\<close>

text \<open>\<open>move |mut eax: Eax, arg: Stack<u32, 8>| { calls += 1; *eax = *arg; }\<close>\<close>

definition example_gprs :: "(nat \<times> nat) list" where
  "example_gprs = [(4, 0), (8, 4)]"

definition example_closure :: "nat \<Rightarrow> nat wrapped" where
  "example_closure calls = custom_hook_mut (\<lambda>calls. ref_load 1 8 4 (\<lambda>v. Assign_arg 0 v (Finish (calls + 1)))) calls"

definition example_hook :: "memory \<Rightarrow> memory" where
  "example_hook m = gpr_assign 4 3192 (read_bytes m (ref_ptr 8 (read_bytes m 3224 8)) 4) m"

definition example_stack :: "nat \<Rightarrow> bool" where
  "example_stack a \<longleftrightarrow> 4096 \<le> a \<and> a < 4200"

lemma example_accepted: "accepted (map Register (gprs example_gprs))"
  by (simp add: accepted_def MAX_ARGS_def gprs_def example_gprs_def has_dupes_iff)

lemma example_call:
  "call_with_resolved (context_of (e_cfg (example_env f)) 3184) (map Register (gprs example_gprs)) (example_closure n) m
    = Some (example_closure (n + 1), example_hook m)"
  using example_accepted
  by (simp add: call_with_resolved_def example_closure_def custom_hook_mut_def ref_load_def gprs_def example_gprs_def gpr_resolve_def
      gpr_read_def context_of_def example_hook_def)

lemma example_vars:
  "call_vars (gprs example_gprs) example_stack (example_closure 0) (gpr_values example_gprs (m_regs example_machine)) (m_mem example_machine)
    = Some (example_closure 1, [read_bytes (m_mem example_machine) 4104 4 @ replicate 4 0, le_bytes 8 4096], m_mem example_machine)"
proof -
  have p: "ref_ptr 8 (le_bytes 8 4096) = 4104" by (simp add: ref_ptr_def from_le_bytes offset_addr_pos usize_defs)
  have "list_all example_stack [4104..<4104 + 4]" by (simp add: load_apart example_stack_def)
  with p show ?thesis
    by (simp add: call_vars_def example_closure_def custom_hook_mut_def ref_load_def gprs_def example_gprs_def gpr_values_def)
qed

theorem closure_updates_registers_witness:
  "\<exists>s'. run_machine 10 (example_env example_hook) example_machine = s' \<and> m_rip s' = 30000
    \<and> le_bytes 8 (int (m_regs s' 0)) = read_bytes (m_mem example_machine) 4104 4 @ replicate 4 0
    \<and> m_regs s' 3 = 100 \<and> m_flags s' = 70 \<and> m_xstate s' 0 = 17 \<and> m_xstate s' 1 = 18"
proof -
  let ?e = "example_env example_hook" and ?s = example_machine
  obtain s1 where s1: "run_machine 6 ?e ?s = s1" by blast
  have L: "m_regs s1 6 = 3184" using run_to_hook [OF example_entry [of example_hook]] s1 by (auto simp: example_frame)
  have "example_hook m a = m a" if "3960 \<le> a" for m a
    using that by (auto simp: example_hook_def gpr_assign_def gpr_deref_mut_def gpr_write_def write_bytes_outside)
  then have abi: "abi_return ?e (m_regs ?s 4 - 160) s1 (e_hook ?e s1)" by (rule example_return [OF _ s1])
  have ctx: "context_ok (context_of (e_cfg ?e) (m_regs s1 6))" by (simp add: context_ok_def context_of_def example_env_def)
  have A: "a + 8 < m_regs s1 6 \<or> m_regs ?s 4 \<le> a + 128" if "example_stack a" for a
    using that by (simp add: example_stack_def)
  have hook: "hook_runs ?e (map Register (gprs example_gprs)) (example_closure 0) example_stack s1"
    unfolding hook_runs_def L example_call by (simp add: returning_def)
  have "\<exists>s' m. call_with_resolved (context_of (e_cfg ?e) (m_regs s1 6)) (map Register (gprs example_gprs)) (example_closure 0) (m_mem s1)
        = Some (example_closure 1, m) \<and> run_machine 10 ?e ?s = s' \<and> m_rip s' = 30000
    \<and> (\<forall>i < length example_gprs. snd (example_gprs ! i) \<noteq> 4 \<longrightarrow> le_bytes 8 (int (m_regs s' (snd (example_gprs ! i))))
        = [read_bytes (m_mem ?s) 4104 4 @ replicate 4 0, le_bytes 8 4096] ! i)
    \<and> (\<forall>n < 16. n \<notin> snd ` set example_gprs \<or> n = 4 \<longrightarrow> m_regs s' n = m_regs ?s n)
    \<and> m_flags s' = m_flags ?s
    \<and> (\<forall>i. m_xstate s' i = (if i \<in> {0, 1, 2, 5, 6, 7} \<and> bit (3 :: 64 word) i then m_xstate ?s i else m_xstate (e_hook ?e s1) i))
    \<and> (\<forall>a. example_stack a \<longrightarrow> m_mem s' a = m_mem ?s a)"
    by (rule closure_updates_registers [OF example_entry example_config example_documented s1 abi ctx example_accepted A hook
        example_vars])
  then obtain s' where s': "run_machine 10 ?e ?s = s'" "m_rip s' = 30000" "m_flags s' = m_flags ?s"
      "\<forall>i < length example_gprs. snd (example_gprs ! i) \<noteq> 4 \<longrightarrow> le_bytes 8 (int (m_regs s' (snd (example_gprs ! i))))
        = [read_bytes (m_mem ?s) 4104 4 @ replicate 4 0, le_bytes 8 4096] ! i"
      "\<forall>n < 16. n \<notin> snd ` set example_gprs \<or> n = 4 \<longrightarrow> m_regs s' n = m_regs ?s n"
      "\<And>i. m_xstate s' i = (if i \<in> {0, 1, 2, 5, 6, 7} \<and> i < 2 then m_xstate ?s i else m_xstate (e_hook ?e s1) i)"
    unfolding bit_3 by blast
  have "m_xstate s' 0 = 17" "m_xstate s' 1 = 18" unfolding s'(6) by (simp_all add: example_machine_def)
  moreover have "le_bytes 8 (int (m_regs s' 0)) = read_bytes (m_mem ?s) 4104 4 @ replicate 4 0"
    using s'(4) [rule_format, of 0] by (simp add: example_gprs_def del: replicate.simps)
  moreover have "m_regs s' 3 = 100" using s'(5) [rule_format, of 3] by (simp add: example_gprs_def example_machine_def)
  ultimately show ?thesis using s'(1-3) by (intro exI [of _ s']) simp
qed

end
