(* ===== verification/Windows_Map.thy ===== *)
theory Windows_Map
  imports Shared_Map Pod_Vec Linux_Maps "HOL-Library.Word"
begin

text \<open>
  The shared mapping and the growth of \<open>PodVec\<close> on Windows (\<open>abi/src/alloc/windows.rs\<close>,
  \<open>abi/src/alloc.rs\<close>): the name of the mapping, the protocol of \<open>MmapRaw::named\<close>, in which
  the creator keeps its handle open so that the name stays, and \<open>reserve_one_realloc\<close>.
\<close>

section \<open>The name\<close>

text \<open>\<open>u64::to_string\<close>.\<close>

fun to_string :: "nat \<Rightarrow> string" where
  "to_string n = (if n < 10 then [char_of (48 + n)] else to_string (n div 10) @ [char_of (48 + n mod 10)])"

declare to_string.simps [simp del]

text \<open>The creation time as \<open>GetProcessTimes\<close> gives it.\<close>

record filetime =
  dwLowDateTime :: "32 word"
  dwHighDateTime :: "32 word"

definition filetime_quad :: "filetime \<Rightarrow> 64 word" where
  "filetime_quad time = (ucast (dwLowDateTime time) OR push_bit 32 (ucast (dwHighDateTime time)))"

definition win_start_time :: "nat + filetime \<Rightarrow> io_error + string" where
  "win_start_time answer =
     (case answer of
        Inl err \<Rightarrow> Inl (Os err)
      | Inr time \<Rightarrow> Inr (to_string (unat (filetime_quad time))))"

text \<open>\<open>encode_wide\<close>; the names are ASCII.\<close>

definition win_mmap_name :: "string \<Rightarrow> 16 word list" where
  "win_mmap_name name = map (\<lambda>c. of_nat (of_char c)) (''Local'' @ [CHR 0x5C] @ name @ [CHR 0x00])"

definition win_builder_name :: "string \<Rightarrow> nat \<Rightarrow> nat + filetime \<Rightarrow> io_error + 16 word list" where
  "win_builder_name version pid answer =
     (case win_start_time answer of
        Inl err \<Rightarrow> Inl err
      | Inr t \<Rightarrow> Inr (win_mmap_name (''diversion-'' @ version @ ''-'' @ to_string pid @ ''-'' @ t)))"

lemma to_string_parse: "n < usize_size \<Longrightarrow> parse_digits 10 0 (to_string n) = Some n"
proof (induction n rule: to_string.induct)
  case (1 n)
  have digit: "digit_value 10 (char_of (48 + d)) = Some d" if "d < 10" for d :: nat
    using that by (simp add: digit_value_def Let_def)
  show ?case
  proof (cases "n < 10")
    case True
    then show ?thesis using 1 digit by (simp add: to_string.simps [of n])
  next
    case False
    then have "parse_digits 10 0 (to_string (n div 10)) = Some (n div 10)" using 1 by (simp add: less_mult_imp_div_less)
    then show ?thesis using False 1 digit [of "n mod 10"] by (simp add: to_string.simps [of n] parse_digits_append)
  qed
qed

lemma to_string_digit: "c \<in> set (to_string n) \<Longrightarrow> c \<noteq> CHR ''-''"
proof (induction n rule: to_string.induct)
  case (1 n)
  have "char_of (48 + d) \<noteq> CHR ''-''" if "d < 10" for d :: nat using that by (simp add: char_of_eq_iff take_bit_nat_eq_self)
  from this [of n] this [of "n mod 10"] 1 show ?case by (auto simp: to_string.simps [of n] split: if_splits)
qed

lemma to_string_inj: "m < usize_size \<Longrightarrow> n < usize_size \<Longrightarrow> to_string m = to_string n \<Longrightarrow> m = n"
  using to_string_parse by (metis option.inject)

lemma first_split: "c \<notin> set xs \<Longrightarrow> c \<notin> set ys \<Longrightarrow> xs @ c # xs' = ys @ c # ys' \<Longrightarrow> xs = ys \<and> xs' = ys'"
  by (induction xs arbitrary: ys) (auto simp: Cons_eq_append_conv)

lemma wide_inj: "map (\<lambda>c. of_nat (of_char c) :: 16 word) s = map (\<lambda>c. of_nat (of_char c)) t \<Longrightarrow> s = t"
proof (rule map_injective)
  show "inj (\<lambda>c. of_nat (of_char c) :: 16 word)"
  proof (rule injI)
    fix c d :: char assume "(of_nat (of_char c) :: 16 word) = of_nat (of_char d)"
    then have "unat (of_nat (of_char c) :: 16 word) = unat (of_nat (of_char d) :: 16 word)" by simp
    moreover have "(of_char c :: nat) < 256" "(of_char d :: nat) < 256" using nat_of_char_less_256 by blast+
    ultimately have "(of_char c :: nat) = of_char d" by (simp add: unat_of_nat take_bit_nat_eq_self)
    then show "c = d" by simp
  qed
qed

lemma filetime_quad_inj:
  assumes "filetime_quad a = filetime_quad b"
  shows "dwLowDateTime a = dwLowDateTime b \<and> dwHighDateTime a = dwHighDateTime b"
proof -
  have bits: "bit (filetime_quad t) n = (if n < 32 then bit (dwLowDateTime t) n else n < 64 \<and> bit (dwHighDateTime t) (n - 32))" for t n
    by (auto simp: filetime_quad_def bit_simps dest: bit_imp_le_length)
  have "bit (dwLowDateTime a) n = bit (dwLowDateTime b) n" if "n < 32" for n
    using bits [of a n] bits [of b n] assms that by simp
  moreover have "bit (dwHighDateTime a) n = bit (dwHighDateTime b) n" if "n < 32" for n
    using bits [of a "n + 32"] bits [of b "n + 32"] assms that by simp
  ultimately show ?thesis by (auto intro!: bit_word_eqI)
qed

section \<open>The protocol of \<open>named\<close>\<close>

text \<open>
  The name refers to an object as long as a handle to the object is open. A thread has called
  \<open>CreateFileMappingW\<close> (\<open>Mapping_View\<close>), then \<open>MapViewOfFile\<close> (\<open>Closing\<close>), and returned; \<open>is_new\<close> is
  what it was told of the object. \<open>wm_opened\<close> are the threads that hold a handle to an object.
\<close>

datatype win_pc =
    Not_started
  | Mapping_View nat bool
  | Closing nat bool bool
  | Returned "nat option"

record win_named_state =
  wm_name :: "nat option"
  wm_opened :: "nat \<Rightarrow> nat set"
  wm_next :: nat
  wm_pc :: "nat \<Rightarrow> win_pc"

definition win_goto :: "nat \<Rightarrow> win_pc \<Rightarrow> win_named_state \<Rightarrow> win_named_state" where
  "win_goto t c s = s\<lparr>wm_pc := (wm_pc s)(t := c)\<rparr>"

definition win_create :: "nat \<Rightarrow> bool \<Rightarrow> win_named_state \<Rightarrow> win_named_state" where
  "win_create t fails s =
     (if fails then win_goto t (Returned None) s
      else case wm_name s of
          Some obj \<Rightarrow> win_goto t (Mapping_View obj False) (s\<lparr>wm_opened := (wm_opened s)(obj := insert t (wm_opened s obj))\<rparr>)
        | None \<Rightarrow> win_goto t (Mapping_View (wm_next s) True)
            (s\<lparr>wm_name := Some (wm_next s), wm_opened := (wm_opened s)(wm_next s := {t}), wm_next := wm_next s + 1\<rparr>))"

definition win_map_view :: "nat \<Rightarrow> nat \<Rightarrow> bool \<Rightarrow> bool \<Rightarrow> win_named_state \<Rightarrow> win_named_state" where
  "win_map_view t obj is_new fails s = win_goto t (Closing obj is_new (\<not> fails)) s"

definition close_handle :: "nat \<Rightarrow> nat \<Rightarrow> win_named_state \<Rightarrow> win_named_state" where
  "close_handle t obj s =
     s\<lparr>wm_opened := (wm_opened s)(obj := wm_opened s obj - {t}),
       wm_name := if wm_name s = Some obj \<and> wm_opened s obj - {t} = {} then None else wm_name s\<rparr>"

definition win_finish :: "nat \<Rightarrow> nat \<Rightarrow> bool \<Rightarrow> bool \<Rightarrow> win_named_state \<Rightarrow> win_named_state" where
  "win_finish t obj is_new viewed s =
     win_goto t (Returned (if viewed then Some obj else None)) (if \<not> is_new then close_handle t obj s else s)"

inductive win_named_step :: "win_named_state \<Rightarrow> win_named_state \<Rightarrow> bool" where
  w_create: "wm_pc s t = Not_started \<Longrightarrow> win_named_step s (win_create t fails s)"
| w_map: "wm_pc s t = Mapping_View obj is_new \<Longrightarrow> win_named_step s (win_map_view t obj is_new fails s)"
| w_finish: "wm_pc s t = Closing obj is_new viewed \<Longrightarrow> win_named_step s (win_finish t obj is_new viewed s)"

definition win_named_init :: win_named_state where
  "win_named_init = \<lparr>wm_name = None, wm_opened = (\<lambda>_. {}), wm_next = 0, wm_pc = (\<lambda>_. Not_started)\<rparr>"

text \<open>The thread will close its handle.\<close>

fun will_close :: "win_pc \<Rightarrow> bool" where
  "will_close (Mapping_View obj is_new) \<longleftrightarrow> \<not> is_new"
| "will_close (Closing obj is_new viewed) \<longleftrightarrow> \<not> is_new"
| "will_close _ \<longleftrightarrow> False"

text \<open>The object a thread is at or has viewed.\<close>

fun at_object :: "win_pc \<Rightarrow> nat option" where
  "at_object (Mapping_View obj is_new) = Some obj"
| "at_object (Closing obj is_new viewed) = Some obj"
| "at_object (Returned res) = res"
| "at_object Not_started = None"

definition win_named_inv :: "win_named_state \<Rightarrow> bool" where
  "win_named_inv s \<longleftrightarrow> (\<forall>t obj. at_object (wm_pc s t) = Some obj \<longrightarrow> wm_name s = Some obj)
     \<and> (\<forall>t obj. t \<in> wm_opened s obj \<longrightarrow> wm_name s = Some obj \<and> wm_pc s t \<noteq> Not_started)
     \<and> (\<forall>obj. wm_name s = Some obj \<longrightarrow> (\<exists>t \<in> wm_opened s obj. \<not> will_close (wm_pc s t)))"

lemmas win_named_defs = win_goto_def win_create_def win_map_view_def close_handle_def win_finish_def

lemma win_named_invD:
  assumes "win_named_inv s"
  shows "at_object (wm_pc s t) = Some obj \<Longrightarrow> wm_name s = Some obj"
    and "t \<in> wm_opened s obj \<Longrightarrow> wm_name s = Some obj \<and> wm_pc s t \<noteq> Not_started"
    and "wm_name s = Some obj \<Longrightarrow> \<exists>t \<in> wm_opened s obj. \<not> will_close (wm_pc s t)"
  using assms unfolding win_named_inv_def by blast+

lemma win_named_invI:
  assumes "\<And>t obj. at_object (wm_pc s t) = Some obj \<Longrightarrow> wm_name s = Some obj"
    and "\<And>t obj. t \<in> wm_opened s obj \<Longrightarrow> wm_name s = Some obj \<and> wm_pc s t \<noteq> Not_started"
    and "\<And>obj. wm_name s = Some obj \<Longrightarrow> \<exists>t \<in> wm_opened s obj. \<not> will_close (wm_pc s t)"
  shows "win_named_inv s"
  using assms unfolding win_named_inv_def by blast

lemma win_goto_inv:
  assumes inv: "win_named_inv s" and c: "c \<noteq> Not_started" "\<And>obj. at_object c = Some obj \<Longrightarrow> wm_name s = Some obj"
    and u: "\<And>obj. t \<in> wm_opened s obj \<Longrightarrow> will_close c \<Longrightarrow> will_close (wm_pc s t)"
  shows "win_named_inv (win_goto t c s)"
proof (rule win_named_invI)
  fix obj assume "wm_name (win_goto t c s) = Some obj"
  then obtain u where "u \<in> wm_opened s obj" "\<not> will_close (wm_pc s u)" using win_named_invD(3) [OF inv] by (auto simp: win_goto_def)
  then show "\<exists>u \<in> wm_opened (win_goto t c s) obj. \<not> will_close (wm_pc (win_goto t c s) u)"
    using u by (intro bexI [of _ u]) (auto simp: win_goto_def)
qed (use win_named_invD(1,2) [OF inv] c in \<open>auto simp: win_goto_def split: if_splits\<close>)

lemma win_open_inv:
  assumes inv: "win_named_inv s" and o: "wm_name s = Some obj" and t: "wm_pc s t \<noteq> Not_started"
  shows "win_named_inv (s\<lparr>wm_opened := (wm_opened s)(obj := insert t (wm_opened s obj))\<rparr>)"
proof (rule win_named_invI)
  fix obj' assume "wm_name (s\<lparr>wm_opened := (wm_opened s)(obj := insert t (wm_opened s obj))\<rparr>) = Some obj'"
  then show "\<exists>u \<in> wm_opened (s\<lparr>wm_opened := (wm_opened s)(obj := insert t (wm_opened s obj))\<rparr>) obj'.
      \<not> will_close (wm_pc (s\<lparr>wm_opened := (wm_opened s)(obj := insert t (wm_opened s obj))\<rparr>) u)"
    using win_named_invD(3) [OF inv o] o by auto
qed (use win_named_invD(1,2) [OF inv] o t in \<open>auto split: if_splits\<close>)

lemma win_new_inv:
  assumes inv: "win_named_inv s" and none: "wm_name s = None"
  shows "win_named_inv (win_goto t (Mapping_View n True) (s\<lparr>wm_name := Some n, wm_opened := (wm_opened s)(n := {t}), wm_next := n'\<rparr>))"
proof (rule win_named_invI)
  have "wm_opened s obj = {}" "at_object (wm_pc s u) = None" for obj u
    using win_named_invD(1,2) [OF inv] none by (auto, cases "at_object (wm_pc s u)") auto
  then show "at_object (wm_pc (win_goto t (Mapping_View n True) (s\<lparr>wm_name := Some n, wm_opened := (wm_opened s)(n := {t}), wm_next := n'\<rparr>)) u) = Some obj
      \<Longrightarrow> wm_name (win_goto t (Mapping_View n True) (s\<lparr>wm_name := Some n, wm_opened := (wm_opened s)(n := {t}), wm_next := n'\<rparr>)) = Some obj"
    and "u \<in> wm_opened (win_goto t (Mapping_View n True) (s\<lparr>wm_name := Some n, wm_opened := (wm_opened s)(n := {t}), wm_next := n'\<rparr>)) obj
      \<Longrightarrow> wm_name (win_goto t (Mapping_View n True) (s\<lparr>wm_name := Some n, wm_opened := (wm_opened s)(n := {t}), wm_next := n'\<rparr>)) = Some obj
        \<and> wm_pc (win_goto t (Mapping_View n True) (s\<lparr>wm_name := Some n, wm_opened := (wm_opened s)(n := {t}), wm_next := n'\<rparr>)) u \<noteq> Not_started"
    for u obj by (auto simp: win_goto_def split: if_splits)
qed (auto simp: win_goto_def)

lemma win_close_inv:
  assumes inv: "win_named_inv s" and u: "u \<in> wm_opened s obj" "\<not> will_close (wm_pc s u)" "u \<noteq> t"
  shows "win_named_inv (close_handle t obj s)"
proof -
  have sel: "wm_name (close_handle t obj s) = wm_name s" "wm_pc (close_handle t obj s) = wm_pc s"
    using u by (auto simp: close_handle_def)
  have sub: "v \<in> wm_opened (close_handle t obj s) obj' \<Longrightarrow> v \<in> wm_opened s obj'" for v obj'
    by (simp add: close_handle_def split: if_splits)
  have keep: "v \<in> wm_opened s obj' \<Longrightarrow> v \<noteq> t \<Longrightarrow> v \<in> wm_opened (close_handle t obj s) obj'" for v obj'
    by (auto simp: close_handle_def)
  have name: "wm_name s = Some obj" using win_named_invD(2) [OF inv u(1)] by simp
  show ?thesis
  proof (rule win_named_invI; unfold sel)
    fix obj' assume "wm_name s = Some obj'"
    with name show "\<exists>u \<in> wm_opened (close_handle t obj s) obj'. \<not> will_close (wm_pc s u)" using keep [OF u(1,3)] u(2) by auto
  qed (use win_named_invD(1,2) [OF inv] sub in blast)+
qed

lemma win_named_step_inv: "win_named_step s s' \<Longrightarrow> win_named_inv s \<Longrightarrow> win_named_inv s'"
proof (induction rule: win_named_step.induct)
  case (w_create s t fails)
  note new = win_named_invD(2) [OF w_create.prems, of t] and inv = w_create.prems
  have open_goto: "win_goto t c (s\<lparr>wm_opened := x\<rparr>) = (win_goto t c s)\<lparr>wm_opened := x\<rparr>" for c x by (simp add: win_goto_def)
  show ?case
  proof (cases "fails")
    case True
    then show ?thesis using inv by (auto simp: win_create_def intro: win_goto_inv)
  next
    case False
    show ?thesis
    proof (cases "wm_name s")
      case None
      then show ?thesis using False win_new_inv [OF inv] by (simp add: win_create_def)
    next
      case (Some obj)
      have "win_named_inv (win_goto t (Mapping_View obj False) s)"
        by (rule win_goto_inv [OF inv]) (use Some new w_create.hyps in auto)
      from win_open_inv [OF this, of obj t] show ?thesis
        using False Some by (simp add: win_create_def open_goto) (simp add: win_goto_def)
    qed
  qed
next
  case (w_map s t obj is_new fails)
  then have "wm_name s = Some obj" using win_named_invD(1) [OF w_map.prems, of t obj] by simp
  then show ?case unfolding win_map_view_def by (intro win_goto_inv) (use w_map in auto)
next
  case (w_finish s t obj is_new viewed)
  then have name: "wm_name s = Some obj" using win_named_invD(1) [OF w_finish.prems, of t obj] by simp
  have inv: "win_named_inv (win_goto t (Returned (if viewed then Some obj else None)) s)"
    by (rule win_goto_inv [OF w_finish.prems]) (use name in \<open>auto split: if_splits\<close>)
  obtain u where u: "u \<in> wm_opened s obj" "\<not> will_close (wm_pc s u)" using win_named_invD(3) [OF w_finish.prems name] by blast
  show ?case
  proof (cases is_new)
    case True
    with inv show ?thesis by (simp add: win_finish_def)
  next
    case False
    then have ne: "u \<noteq> t" using u w_finish.hyps by auto
    have "win_named_inv (close_handle t obj (win_goto t (Returned (if viewed then Some obj else None)) s))"
      by (rule win_close_inv [OF inv, of u]) (use u ne in \<open>simp_all add: win_goto_def\<close>)
    moreover have "close_handle t obj (win_goto t c s) = win_goto t c (close_handle t obj s)" for c
      by (simp add: close_handle_def win_goto_def)
    ultimately show ?thesis using False by (simp add: win_finish_def)
  qed
qed

lemma win_named_reach: "win_named_step\<^sup>*\<^sup>* win_named_init s \<Longrightarrow> win_named_inv s"
proof (induction rule: rtranclp_induct)
  case base
  show ?case by (simp add: win_named_inv_def win_named_init_def)
qed (auto intro: win_named_step_inv)

section \<open>Growing a vector\<close>

text \<open>
  \<open>VirtualFree\<close> with \<open>MEM_RELEASE\<close> frees the whole allocation that starts at the address.
  \<open>va\<close> is the answer of \<open>VirtualAlloc\<close> (\<open>None\<close>: null, on which the code panics).
\<close>

definition virtual_free :: "nat \<Rightarrow> 'a mem \<Rightarrow> 'a mem" where
  "virtual_free p m = (case List.find (\<lambda>r. fst r = p) (mapped m) of Some (_, n) \<Rightarrow> munmap p n m | None \<Rightarrow> m)"

definition win_reserve_one_realloc ::
    "((nat \<times> nat) list \<Rightarrow> nat \<Rightarrow> nat option) \<Rightarrow> nat \<Rightarrow> layout \<Rightarrow> 'a mem \<Rightarrow> pod_vec
      \<Rightarrow> ('a mem \<times> pod_vec) option" where
  "win_reserve_one_realloc va granularity ty m v = do {
     raw_len \<leftarrow> raw_len_for_grow ty v granularity;
     raw_ptr \<leftarrow> va (mapped m) raw_len;
     let m0 = m\<lparr>mapped := (raw_ptr, raw_len) # mapped m\<rparr>;
     (case raw_ptr_assign ty m0 v raw_ptr raw_len of
        (m', v', (old_ptr, _)) \<Rightarrow> Some (if old_ptr = 0 then (m', v') else (virtual_free old_ptr m', v')))
   }"

lemma find_apart:
  assumes "sorted_wrt ranges_apart ms" and "(p, n) \<in> set ms" and "0 < n" and "\<forall>r \<in> set ms. fst r = p \<longrightarrow> 0 < snd r"
  shows "List.find (\<lambda>r. fst r = p) ms = Some (p, n)"
  using assms
proof (induction ms)
  case (Cons r ms)
  show ?case
  proof (cases "fst r = p")
    case True
    have "r = (p, n)"
    proof (rule ccontr)
      assume "r \<noteq> (p, n)"
      with Cons.prems(1,2) have "ranges_apart r (p, n)" by auto
      with True Cons.prems(3,4) show False by (auto simp: ranges_apart_def)
    qed
    with True show ?thesis by simp
  next
    case False
    with Cons show ?thesis by auto
  qed
qed simp

text \<open>The mappings have a length.\<close>

lemma realloc_as_linux:
  assumes mm: "mmap_ok va granularity" and ty: "type_ok ty granularity" and inv: "pod_vec_inv ty m v"
    and sized: "\<forall>r \<in> set (mapped m). 0 < snd r"
  shows "win_reserve_one_realloc va granularity ty m v = reserve_one_realloc va granularity ty m v"
proof (cases "raw_len_for_grow ty v granularity")
  case None
  then show ?thesis by (simp add: win_reserve_one_realloc_def reserve_one_realloc_def)
next
  case (Some n)
  show ?thesis
  proof (cases "va (mapped m) n")
    case None
    with Some show ?thesis by (simp add: win_reserve_one_realloc_def reserve_one_realloc_def)
  next
    case p: (Some p)
    let ?m = "m\<lparr>mapped := (p, n) # mapped m\<rparr>"
    obtain m' v' where ra: "raw_ptr_assign ty ?m v p n = (m', v', (pv_raw_ptr v, pv_raw_len v))" "mapped m' = (p, n) # mapped m"
      by (auto simp: raw_ptr_assign_def Let_def)
    have apart: "0 < p" "\<forall>r \<in> set (mapped m). ranges_apart (p, n) r" using mm p by (auto simp: mmap_ok_def)
    have "0 < layout_size ty" using ty by (simp add: type_ok_def)
    then have n: "0 < n" using raw_len_for_grow_room(1) [OF Some] by (simp add: add_mult_distrib)
    have "virtual_free (pv_raw_ptr v) m' = munmap (pv_raw_ptr v) (pv_raw_len v) m'" if "pv_raw_ptr v \<noteq> 0"
    proof -
      have old: "(pv_raw_ptr v, pv_raw_len v) \<in> set (mapped m)" using inv that by (auto simp: pod_vec_inv_def split: if_splits)
      have "sorted_wrt ranges_apart (mapped m)" using inv by (simp add: pod_vec_inv_def)
      then have "List.find (\<lambda>r. fst r = pv_raw_ptr v) (mapped m') = Some (pv_raw_ptr v, pv_raw_len v)"
        unfolding ra(2) using old sized n apart(2) by (intro find_apart) auto
      then show ?thesis by (simp add: virtual_free_def)
    qed
    then show ?thesis using Some p ra(1) by (simp add: win_reserve_one_realloc_def reserve_one_realloc_def Let_def)
  qed
qed

section \<open>Properties\<close>

text \<open>
  The name of the shared mapping tells processes apart on Windows: two processes, or two processes
  that had the same process id at different times, never use the same name.
\<close>

theorem win_name_identifies_process:
  assumes "win_builder_name version pid (Inr time) = win_builder_name version pid' (Inr time')"
    and "pid < 2 ^ 32" and "pid' < 2 ^ 32"
  shows "pid = pid' \<and> dwLowDateTime time = dwLowDateTime time' \<and> dwHighDateTime time = dwHighDateTime time'"
proof -
  let ?t = "to_string (unat (filetime_quad time))" and ?t' = "to_string (unat (filetime_quad time'))"
  have "win_mmap_name (''diversion-'' @ version @ ''-'' @ to_string pid @ ''-'' @ ?t)
      = win_mmap_name (''diversion-'' @ version @ ''-'' @ to_string pid' @ ''-'' @ ?t')"
    using assms(1) by (simp add: win_builder_name_def win_start_time_def)
  from wide_inj [OF this [unfolded win_mmap_name_def]]
  have "to_string pid @ CHR ''-'' # (?t @ [CHR 0x00]) = to_string pid' @ CHR ''-'' # (?t' @ [CHR 0x00])" by simp
  then have eq: "to_string pid = to_string pid'" "?t = ?t'"
    using first_split [of "CHR ''-''" "to_string pid" "to_string pid'"] to_string_digit by blast+
  have "unat w < usize_size" for w :: "64 word" using unsigned_less [of w] by (simp add: usize_defs)
  then have "filetime_quad time = filetime_quad time'" using to_string_inj eq(2) by (metis word_unat_eq_iff)
  moreover have "pid = pid'" by (rule to_string_inj [OF _ _ eq(1)]) (use assms(2,3) in \<open>simp_all add: usize_defs\<close>)
  ultimately show ?thesis using filetime_quad_inj [of time time'] by simp
qed

theorem win_name_identifies_process_witness:
  "win_builder_name ''1'' 7 (Inr \<lparr>dwLowDateTime = 0, dwHighDateTime = 1\<rparr>)
     \<noteq> win_builder_name ''1'' 7 (Inr \<lparr>dwLowDateTime = 1, dwHighDateTime = 0\<rparr>)"
  using win_name_identifies_process [of "''1''" 7 "\<lparr>dwLowDateTime = 0, dwHighDateTime = 1\<rparr>" 7 "\<lparr>dwLowDateTime = 1, dwHighDateTime = 0\<rparr>"]
  by auto

text \<open>
  C39. On Windows too all mappings that \<open>named\<close> returns are of one object, in every interleaving and
  whichever calls fail: the handle its creator keeps open holds the name, so no thread creates a second
  object.
\<close>

theorem win_named_one_object:
  assumes "win_named_step\<^sup>*\<^sup>* win_named_init s" and "wm_pc s t = Returned (Some obj)" and "wm_pc s u = Returned (Some obj')"
  shows "obj = obj' \<and> wm_name s = Some obj \<and> wm_opened s obj \<noteq> {}"
proof -
  have inv: "win_named_inv s" by (rule win_named_reach [OF assms(1)])
  have "wm_name s = Some obj" "wm_name s = Some obj'"
    using win_named_invD(1) [OF inv, of t obj] win_named_invD(1) [OF inv, of u obj'] assms(2,3) by simp_all
  then show ?thesis using win_named_invD(3) [OF inv, of obj] by auto
qed

text \<open>Thread 0 creates the object, thread 1 opens it in between.\<close>

definition example_two_named :: win_named_state where
  "example_two_named =
     (let s = win_map_view 0 0 True False (win_create 1 False (win_create 0 False win_named_init))
      in win_finish 0 0 True True (win_finish 1 0 False True (win_map_view 1 0 False False s)))"

lemma example_two_named_reachable: "win_named_step\<^sup>*\<^sup>* win_named_init example_two_named"
proof -
  define a where "a = win_create 0 False win_named_init"
  define b where "b = win_create 1 False a"
  define c where "c = win_map_view 0 0 True False b"
  define d where "d = win_map_view 1 0 False False c"
  define e where "e = win_finish 1 0 False True d"
  note defs = a_def b_def c_def d_def e_def win_named_init_def win_named_defs
  have "win_named_step win_named_init a" unfolding a_def by (rule w_create) (simp add: defs)
  moreover have "win_named_step a b" unfolding b_def by (rule w_create) (simp add: defs)
  moreover have "win_named_step b c" unfolding c_def by (rule w_map) (simp add: defs)
  moreover have "win_named_step c d" unfolding d_def by (rule w_map) (simp add: defs)
  moreover have "win_named_step d e" unfolding e_def by (rule w_finish) (simp add: defs)
  moreover have "win_named_step e (win_finish 0 0 True True e)" by (rule w_finish) (simp add: defs)
  moreover have "win_finish 0 0 True True e = example_two_named"
    by (simp add: example_two_named_def Let_def a_def b_def c_def d_def e_def)
  ultimately show ?thesis by (metis rtranclp.rtrancl_into_rtrancl rtranclp.rtrancl_refl)
qed

theorem win_named_one_object_witness: "wm_name example_two_named = Some 0 \<and> wm_opened example_two_named 0 = {0}"
proof -
  have "wm_pc example_two_named 0 = Returned (Some 0)" "wm_pc example_two_named 1 = Returned (Some 0)"
      and o: "wm_opened example_two_named 0 = {0}"
    by (auto simp: example_two_named_def Let_def win_named_init_def win_named_defs)
  from win_named_one_object [OF example_two_named_reachable this(1,2)] o show ?thesis by simp
qed

end
