(* ===== verification/Anon_Map.thy ===== *)
theory Anon_Map
  imports Windows_Map Bytes
begin

text \<open>
  Anonymous mappings (\<open>MmapRaw::anon\<close> and its \<open>Drop\<close> in \<open>abi/src/alloc/linux.rs\<close> and \<open>alloc/windows.rs\<close>) and
  the memory for compiled closures (\<open>FlexSource\<close> there, \<open>abi/src/alloc/jit.rs\<close>). As for \<open>PodVec\<close>, the
  memory is its cells and the list of live mappings, and the system's choice of an address is a
  parameter; the allocator of the crate \<open>rlsf\<close> is one as well.
\<close>

section \<open>Anonymous mappings\<close>

definition mmap_anon ::
    "((nat \<times> nat) list \<Rightarrow> nat \<Rightarrow> nat option) \<Rightarrow> nat \<Rightarrow> nat \<Rightarrow> 'a mem \<Rightarrow> (io_error + nat \<times> nat) \<times> 'a mem" where
  "mmap_anon mm err sz m =
     (let sz = max sz 1
      in case mm (mapped m) sz of
           None \<Rightarrow> (Inl (Os err), m)
         | Some p \<Rightarrow> (Inr (p, sz), m\<lparr>mapped := (p, sz) # mapped m\<rparr>))"

definition mmap_drop :: "nat \<times> nat \<Rightarrow> 'a mem \<Rightarrow> 'a mem" where
  "mmap_drop raw m = munmap (fst raw) (snd raw) m"

text \<open>
  On Windows a mapping object is made first (\<open>made\<close> is the error, if that fails); its handle is closed
  whether or not a view could be mapped, and only the address is kept.
\<close>

definition win_mmap_anon ::
    "nat option \<Rightarrow> ((nat \<times> nat) list \<Rightarrow> nat \<Rightarrow> nat option) \<Rightarrow> nat \<Rightarrow> nat \<Rightarrow> 'a mem \<Rightarrow> (io_error + nat) \<times> 'a mem" where
  "win_mmap_anon made view err sz m =
     (case made of
        Some e \<Rightarrow> (Inl (Os e), m)
      | None \<Rightarrow>
          (let sz = max sz 1
           in case view (mapped m) sz of
                None \<Rightarrow> (Inl (Os err), m)
              | Some p \<Rightarrow> (Inr p, m\<lparr>mapped := (p, sz) # mapped m\<rparr>)))"

text \<open>\<open>UnmapViewOfFile\<close> removes the view that starts at the address.\<close>

definition win_mmap_drop :: "nat \<Rightarrow> 'a mem \<Rightarrow> 'a mem" where
  "win_mmap_drop p m = virtual_free p m"

text \<open>
  A mapping is at least as long as asked for, not empty, apart from all others, and dropping it
  restores the list of mappings and keeps what is stored elsewhere.
\<close>

theorem anon_mapping_round_trip:
  assumes "mmap_ok mm page" "mmap_anon mm err sz m = (Inr (p, n), m')"
  shows "sz \<le> n \<and> 0 < n \<and> 0 < p \<and> p mod page = 0 \<and> (\<forall>r \<in> set (mapped m). ranges_apart (p, n) r)
    \<and> mapped (mmap_drop (p, n) m') = mapped m
    \<and> (\<forall>a. a < p \<or> p + n \<le> a \<longrightarrow> cells (mmap_drop (p, n) m') a = cells m a)"
  using assms by (fastforce simp: mmap_anon_def mmap_drop_def munmap_def mmap_ok_def Let_def split: option.splits)

theorem win_anon_mapping_round_trip:
  assumes "mmap_ok view granularity" "win_mmap_anon made view err sz m = (Inr p, m')"
  shows "made = None \<and> 0 < p \<and> p mod granularity = 0 \<and> mapped (win_mmap_drop p m') = mapped m
    \<and> (\<forall>r \<in> set (mapped m). ranges_apart (p, max sz 1) r)
    \<and> (\<forall>a. a < p \<or> p + max sz 1 \<le> a \<longrightarrow> cells (win_mmap_drop p m') a = cells m a)"
  using assms
  by (fastforce simp: win_mmap_anon_def win_mmap_drop_def virtual_free_def munmap_def mmap_ok_def Let_def split: option.splits)

section \<open>Memory for closures\<close>

text \<open>
  \<open>FlexSource::alloc\<close>: whole pages (Windows: whole allocation granules), readable, writable and
  executable. The outer \<open>None\<close> is the overflow of the rounding, the inner one no memory.
\<close>

definition flex_alloc ::
    "((nat \<times> nat) list \<Rightarrow> nat \<Rightarrow> nat option) \<Rightarrow> nat \<Rightarrow> nat \<Rightarrow> 'a mem \<Rightarrow> ((nat \<times> nat) option \<times> 'a mem) option" where
  "flex_alloc mm page min_size m = do {
     sz \<leftarrow> next_multiple_of min_size page;
     Some (case mm (mapped m) sz of
         None \<Rightarrow> (None, m)
       | Some p \<Rightarrow> (Some (p, sz), m\<lparr>mapped := (p, sz) # mapped m\<rparr>))
   }"

definition win_flex_alloc ::
    "((nat \<times> nat) list \<Rightarrow> nat \<Rightarrow> nat option) \<Rightarrow> nat \<Rightarrow> nat \<Rightarrow> 'a mem \<Rightarrow> ((nat \<times> nat) option \<times> 'a mem) option" where
  "win_flex_alloc va granularity min_size m = do {
     sz \<leftarrow> next_multiple_of min_size granularity;
     Some (case va (mapped m) sz of
         None \<Rightarrow> (None, m)
       | Some p \<Rightarrow> (Some (p, sz), m\<lparr>mapped := (p, sz) # mapped m\<rparr>))
   }"

text \<open>
  \<open>Alloc\<close>: the operations of \<open>FlexTlsf\<close> are \<open>al\<close> and \<open>de\<close>. A fresh block is filled with breakpoints, and
  \<open>None\<close> is the panic on a size no \<open>Layout\<close> allows.
\<close>

definition jit_alloc ::
    "('t \<Rightarrow> nat \<Rightarrow> nat option \<times> 't) \<Rightarrow> nat \<Rightarrow> 't \<times> memory \<Rightarrow> (nat option \<times> 't \<times> memory) option" where
  "jit_alloc al sz z =
     (if isize_max < int sz then None
      else Some (case al (fst z) sz of
          (None, t) \<Rightarrow> (None, t, snd z)
        | (Some p, t) \<Rightarrow> (Some p, t, write_bytes p (replicate sz 0xcc) (snd z))))"

definition jit_release :: "('t \<Rightarrow> nat \<Rightarrow> nat \<Rightarrow> 't) \<Rightarrow> nat \<Rightarrow> 't \<Rightarrow> 't" where
  "jit_release de p t = (if p \<noteq> 0 then de t p 1 else t)"

theorem flex_alloc_serves:
  assumes "mmap_ok mm page" "flex_alloc mm page min_size m = Some (Some (p, n), m')"
  shows "min_size \<le> n \<and> n < min_size + page \<and> n mod page = 0 \<and> 0 < p \<and> p mod page = 0
    \<and> (\<forall>r \<in> set (mapped m). ranges_apart (p, n) r) \<and> cells m' = cells m \<and> mapped m' = (p, n) # mapped m"
proof -
  from assms(2) have n: "next_multiple_of min_size page = Some n" "mm (mapped m) n = Some p"
      "m' = m\<lparr>mapped := (p, n) # mapped m\<rparr>"
    by (auto simp: flex_alloc_def split: bind_splits option.splits)
  from next_multiple_of_Some [OF n(1)] n assms(1) show ?thesis by (auto simp: mmap_ok_def)
qed

theorem jit_block_is_breakpoints:
  assumes "jit_alloc al sz z = Some (Some p, t, m)"
  shows "int sz \<le> isize_max \<and> read_bytes m p sz = replicate sz 0xcc
    \<and> (\<forall>a. a < p \<or> p + sz \<le> a \<longrightarrow> m a = snd z a)"
  using assms
  by (auto simp: jit_alloc_def read_write_same write_bytes_outside split: if_splits prod.splits option.splits)

end
