(* ===== verification/Os_Memory.thy ===== *)
theory Os_Memory
  imports Linux_Maps Range_Alloc
begin

text \<open>
  Memory from the operating system (\<open>installer/arch/os/memory.rs\<close> and the Linux part of it): a
  mapping near an address, found by scanning the regions of the address space, and changes of
  protection. What \<open>memory.rs\<close> takes from the module of the platform is a record, \<open>platform\<close>; \<open>linux\<close> is
  the one of \<open>os/linux.rs\<close>, over a record of the system calls and a state of the kernel of any type.
  The outer \<open>None\<close> of a result is a panic, or a search that never ends.
\<close>

section \<open>The kernel\<close>

record 'k kernel =
  k_page_size :: nat
  k_min_file :: "'k \<Rightarrow> string option"
  k_rlimit :: "'k \<Rightarrow> nat option"
  k_maps :: "'k \<Rightarrow> io_error + string"
  k_mmap :: "'k \<Rightarrow> nat \<Rightarrow> nat \<Rightarrow> prot \<Rightarrow> (nat + nat) \<times> 'k"
  k_mprotect :: "'k \<Rightarrow> nat \<Rightarrow> nat \<Rightarrow> prot \<Rightarrow> nat option \<times> 'k"

definition ENOMEM :: nat where "ENOMEM = 12"
definition EEXIST :: nat where "EEXIST = 17"

definition sys_info_now :: "'k kernel \<Rightarrow> 'k \<Rightarrow> sys_info option" where
  "sys_info_now K k = sys_info_get (k_page_size K) (k_min_file K k) (k_rlimit K k)"

text \<open>\<open>Region::iter\<close> with its two calls of the system.\<close>

definition region_iter_now :: "'k kernel \<Rightarrow> 'k \<Rightarrow> nat \<Rightarrow> (io_error + region list) option" where
  "region_iter_now K k start = do {
     info \<leftarrow> sys_info_now K k;
     Some (case k_maps K k of Inl e \<Rightarrow> Inl e | Inr maps \<Rightarrow> region_iter info maps start)
   }"

section \<open>A mapping at an address\<close>

text \<open>The kernel's answer is an error number or an address; the address is fixed unless it is null.\<close>

definition alloc_at :: "'k kernel \<Rightarrow> 'k \<Rightarrow> nat \<Rightarrow> nat \<Rightarrow> prot \<Rightarrow> ((io_error + region option) \<times> 'k) option" where
  "alloc_at K k ptr sz p =
     (if ptr AND (k_page_size K - 1) \<noteq> 0 then Some (Inl InvalidInput, k)
      else do {
        len \<leftarrow> next_multiple_of sz (k_page_size K);
        Some (case k_mmap K k ptr len p of
            (Inl err, k') \<Rightarrow> (if err = ENOMEM \<or> err = EEXIST then Inr None else Inl (Os err), k')
          | (Inr a, k') \<Rightarrow> (Inr (Some \<lparr>rg_ptr = a, rg_len = len, rg_prot = Some p\<rparr>), k'))
      })"

section \<open>Protection\<close>

text \<open>The address is rounded down to a page and the length grows by as much.\<close>

definition protect :: "'k kernel \<Rightarrow> prot \<Rightarrow> nat \<Rightarrow> nat \<Rightarrow> 'k \<Rightarrow> (io_error + unit) \<times> 'k" where
  "protect K p ptr len k =
     (let rem = ptr AND (k_page_size K - 1)
      in case k_mprotect K k (ptr - rem) (len + rem) p of
           (None, k') \<Rightarrow> (Inr (), k') | (Some err, k') \<Rightarrow> (Inl (Os err), k'))"

definition protection_now :: "'k kernel \<Rightarrow> 'k \<Rightarrow> nat \<Rightarrow> io_error + prot" where
  "protection_now K k addr = (case k_maps K k of Inl e \<Rightarrow> Inl e | Inr maps \<Rightarrow> protection_of maps addr)"

text \<open>\<open>ProtectionGuard\<close>: the bytes and the protection they had.\<close>

definition make_rwx :: "'k kernel \<Rightarrow> nat \<Rightarrow> nat \<Rightarrow> 'k \<Rightarrow> (io_error + region) \<times> 'k" where
  "make_rwx K ptr len k =
     (case protection_now K k ptr of
        Inl e \<Rightarrow> (Inl e, k)
      | Inr old \<Rightarrow> (case try_into_rwx_from_rx old of
            None \<Rightarrow> (Inl InvalidInput, k)
          | Some rwx \<Rightarrow> (case protect K rwx ptr len k of
              (Inl e, k') \<Rightarrow> (Inl e, k')
            | (Inr _, k') \<Rightarrow> (Inr \<lparr>rg_ptr = ptr, rg_len = len, rg_prot = Some old\<rparr>, k'))))"

section \<open>The platform\<close>

record 'k platform =
  pf_info :: "'k \<Rightarrow> sys_info option"
  pf_iter :: "'k \<Rightarrow> nat \<Rightarrow> (io_error + region list) option"
  pf_alloc_at :: "'k \<Rightarrow> nat \<Rightarrow> nat \<Rightarrow> prot \<Rightarrow> ((io_error + region option) \<times> 'k) option"
  pf_rwx :: prot
  pf_make_rwx :: "nat \<Rightarrow> nat \<Rightarrow> 'k \<Rightarrow> (io_error + region) \<times> 'k"
  pf_protect :: "prot \<Rightarrow> nat \<Rightarrow> nat \<Rightarrow> 'k \<Rightarrow> (io_error + unit) \<times> 'k"

definition linux :: "'k kernel \<Rightarrow> 'k platform" where
  "linux K = \<lparr>pf_info = sys_info_now K, pf_iter = region_iter_now K, pf_alloc_at = alloc_at K, pf_rwx = RWX,
     pf_make_rwx = make_rwx K, pf_protect = protect K\<rparr>"

lemma linux_sel [simp]:
  "pf_info (linux K) = sys_info_now K" "pf_iter (linux K) = region_iter_now K" "pf_alloc_at (linux K) = alloc_at K"
  "pf_rwx (linux K) = RWX" "pf_make_rwx (linux K) = make_rwx K" "pf_protect (linux K) = protect K"
  by (simp_all add: linux_def)

definition guard_restore :: "'k platform \<Rightarrow> region \<Rightarrow> 'k \<Rightarrow> (io_error + unit) \<times> 'k" where
  "guard_restore P guard k =
     (case rg_prot guard of Some p \<Rightarrow> pf_protect P p (rg_ptr guard) (rg_len guard) k | None \<Rightarrow> (Inr (), k))"

section \<open>Scanning for a place\<close>

text \<open>
  One pass over the regions: \<open>Scan_try\<close> is a free place (its start and end, and the current address),
  \<open>Scan_end\<close> that there is none.
\<close>

datatype scan = Scan_end | Scan_try nat nat nat

definition candidate :: "nat \<Rightarrow> nat \<Rightarrow> nat \<Rightarrow> nat \<Rightarrow> nat \<Rightarrow> region \<Rightarrow> (nat \<times> nat) option option" where
  "candidate g min_alloc lo hi sz r =
     (if rg_prot r \<noteq> None then Some None
      else do {
        up \<leftarrow> next_multiple_of (rg_ptr r) g;
        let mn = max up min_alloc;
        (if mn \<le> hi then do {
           mx \<leftarrow> next_multiple_of (max mn lo + sz) g;
           Some (if mx \<le> rg_ptr r + rg_len r then Some (mn, mx) else None)
         } else Some None)
      })"

fun scan_regions :: "nat \<Rightarrow> nat \<Rightarrow> nat \<Rightarrow> nat \<Rightarrow> nat \<Rightarrow> nat \<Rightarrow> region list \<Rightarrow> nat \<Rightarrow> scan option" where
  "scan_regions g min_alloc max_alloc lo hi sz [] cur = Some Scan_end"
| "scan_regions g min_alloc max_alloc lo hi sz (r # rs) cur = do {
     c \<leftarrow> candidate g min_alloc lo hi sz r;
     (case c of
        Some (mn, mx) \<Rightarrow> Some (Scan_try mn mx cur)
      | None \<Rightarrow> do {
          cur \<leftarrow> next_multiple_of (rg_ptr r + rg_len r) g;
          (if cur \<ge> max_alloc then Some Scan_end
           else scan_regions g min_alloc max_alloc lo hi sz rs cur)
        })
   }"

partial_function (option) alloc_loop :: "'k platform \<Rightarrow> nat \<Rightarrow> nat \<Rightarrow> nat \<Rightarrow> nat \<Rightarrow> nat \<Rightarrow> nat \<Rightarrow> prot \<Rightarrow> nat \<Rightarrow> 'k
    \<Rightarrow> ((io_error + region option) \<times> 'k) option" where
  "alloc_loop plat g min_alloc max_alloc lo hi sz p cur k =
     Option.bind (pf_iter plat k cur) (\<lambda>it. (case it of
       Inl e \<Rightarrow> Some (Inl e, k)
     | Inr rs \<Rightarrow>
         Option.bind (scan_regions g min_alloc max_alloc lo hi sz rs cur) (\<lambda>sc. (case sc of
           Scan_end \<Rightarrow> Some (Inr None, k)
         | Scan_try mn mx cur \<Rightarrow>
             Option.bind (pf_alloc_at plat k mn (mx - mn) p) (\<lambda>(res, k'). (case res of
               Inr None \<Rightarrow> Option.bind (checked_add cur g) (\<lambda>cur.
                 alloc_loop plat g min_alloc max_alloc lo hi sz p cur k')
             | res \<Rightarrow> Some (res, k')))))))"

definition alloc_between :: "'k platform \<Rightarrow> sys_info \<Rightarrow> nat \<Rightarrow> nat \<Rightarrow> nat \<Rightarrow> prot \<Rightarrow> 'k
    \<Rightarrow> ((io_error + region option) \<times> 'k) option" where
  "alloc_between P info lo hi sz p k =
     (if lo > hi then Some (Inr None, k)
      else do {
        let g = alloc_granularity info;
        let min_alloc = align_down lo g;
        max_alloc \<leftarrow> next_multiple_of (hi + sz) g;
        alloc_loop P g min_alloc max_alloc lo hi sz p min_alloc k
      })"

text \<open>\<open>Region::alloc_near\<close> and \<open>Region::alloc_inside_bounds\<close>.\<close>

definition region_alloc_near :: "'k platform \<Rightarrow> nat \<Rightarrow> bound \<Rightarrow> bound \<Rightarrow> nat \<Rightarrow> prot \<Rightarrow> 'k
    \<Rightarrow> ((io_error + region option) \<times> 'k) option" where
  "region_alloc_near P addr start end sz p k =
     (case (start_offset start, end_offset end) of
        (Some mn, Some mx) \<Rightarrow> do {
          info \<leftarrow> pf_info P k;
          (if mn > mx then Some (Inl InvalidInput, k)
           else let lo = max (saturating_add_signed addr mn) (min_address info);
                    hi = min (saturating_add_signed addr mx) (saturating_sub (max_address info) sz)
                in alloc_between P info lo hi sz p k)
        }
      | _ \<Rightarrow> Some (Inl InvalidInput, k))"

section \<open>What a search finds\<close>

text \<open>
  The place of an allocation: it starts on the page the search chose and reaches far enough
  for \<open>sz\<close> bytes at an address within the bounds.
\<close>

definition place_serves :: "nat \<Rightarrow> nat \<Rightarrow> nat \<Rightarrow> nat \<Rightarrow> nat \<Rightarrow> bool" where
  "place_serves lo hi sz mn len \<longleftrightarrow> 0 < mn \<and> (\<exists>q. lo \<le> q \<and> q \<le> hi \<and> mn \<le> q \<and> q + sz \<le> mn + len)"

lemma candidate_sound:
  assumes "candidate g min_alloc lo hi sz r = Some (Some (mn, mx))" "lo \<le> hi"
  shows "rg_prot r = None \<and> rg_ptr r \<le> mn \<and> min_alloc \<le> mn \<and> mx \<le> rg_ptr r + rg_len r \<and> mx mod g = 0
    \<and> max mn lo \<le> hi \<and> max mn lo + sz \<le> mx
    \<and> (mn = min_alloc \<or> mn mod g = 0)"
proof -
  obtain up where r: "rg_prot r = None" "next_multiple_of (rg_ptr r) g = Some up" "max up min_alloc \<le> hi"
      "next_multiple_of (max (max up min_alloc) lo + sz) g = Some mx"
      "mx \<le> rg_ptr r + rg_len r" "mn = max up min_alloc"
    using assms(1) by (auto simp: candidate_def Let_def bind_eq_Some_conv split: if_splits)
  note up = next_multiple_of_Some [OF r(2)] and mx = next_multiple_of_Some [OF r(4)]
  from r up mx assms(2) show ?thesis by (auto simp: max_def)
qed

lemma scan_sound:
  "scan_regions g min_alloc max_alloc lo hi sz rs cur = Some (Scan_try mn mx cur') \<Longrightarrow>
    \<exists>r \<in> set rs. candidate g min_alloc lo hi sz r = Some (Some (mn, mx))"
proof (induction rs arbitrary: cur)
  case (Cons r rs)
  then show ?case by (fastforce simp: bind_eq_Some_conv split: option.splits if_splits prod.splits)
qed simp

text \<open>
  What the search relies on: the limits of the address space make sense, and memory is mapped, when
  it is, exactly where it was asked for.
\<close>

definition info_ok :: "sys_info \<Rightarrow> bool" where
  "info_ok info \<longleftrightarrow> (\<exists>b < 64. alloc_granularity info = 2 ^ b \<and> min_address info mod 2 ^ b = 0) \<and> 0 < min_address info
     \<and> min_address info < max_address info \<and> max_address info < usize_max"

definition maps_fixed :: "'k platform \<Rightarrow> bool" where
  "maps_fixed P \<longleftrightarrow> (\<forall>k info. pf_info P k = Some info \<longrightarrow> info_ok info)
     \<and> (\<forall>k mn len p r k'. pf_alloc_at P k mn len p = Some (Inr (Some r), k') \<longrightarrow> 0 < mn \<longrightarrow>
          rg_ptr r = mn \<and> len \<le> rg_len r \<and> rg_prot r = Some p)"

lemma scan_place:
  assumes "lo \<le> hi" "0 < min_alloc" and "min_alloc \<le> lo"
    and "scan_regions g min_alloc max_alloc lo hi sz rs cur = Some (Scan_try mn mx cur')"
  shows "place_serves lo hi sz mn (mx - mn)"
proof -
  obtain q where q: "candidate g min_alloc lo hi sz q = Some (Some (mn, mx))"
    using scan_sound [OF assms(4)] by blast
  from candidate_sound [OF q assms(1)] assms(2,3) show ?thesis
    unfolding place_serves_def by (intro conjI exI [of _ "max mn lo"]) auto
qed

text \<open>
  What the search does to the kernel: some attempts that fail, then the attempt whose answer it
  gives. \<open>I\<close> is any property of the kernel's state that failed attempts keep.
\<close>

definition refusal_keeps :: "'k platform \<Rightarrow> prot \<Rightarrow> ('k \<Rightarrow> bool) \<Rightarrow> bool" where
  "refusal_keeps P p I \<longleftrightarrow> (\<forall>k mn len k'. I k \<longrightarrow> pf_alloc_at P k mn len p = Some (Inr None, k') \<longrightarrow> I k')"

definition search_ends :: "'k platform \<Rightarrow> nat \<Rightarrow> nat \<Rightarrow> nat \<Rightarrow> prot \<Rightarrow> ('k \<Rightarrow> bool)
    \<Rightarrow> (io_error + region option) \<times> 'k \<Rightarrow> bool" where
  "search_ends P lo hi sz p I y \<longleftrightarrow> (\<exists>k1. I k1 \<and>
     (snd y = k1 \<and> (\<forall>r. fst y \<noteq> Inr (Some r))
      \<or> (\<exists>mn len. place_serves lo hi sz mn len \<and> pf_alloc_at P k1 mn len p = Some y)))"

definition loop_sound :: "'k platform \<Rightarrow> nat \<Rightarrow> nat \<Rightarrow> nat \<Rightarrow> nat \<Rightarrow> prot \<Rightarrow> 'k
    \<Rightarrow> (io_error + region option) \<times> 'k \<Rightarrow> bool" where
  "loop_sound P min_alloc lo hi sz p k y \<longleftrightarrow> (\<forall>I. refusal_keeps P p I \<longrightarrow> I k \<longrightarrow> lo \<le> hi \<longrightarrow>
     0 < min_alloc \<longrightarrow> min_alloc \<le> lo \<longrightarrow> search_ends P lo hi sz p I y)"

lemma loop_body_sound:
  fixes P :: "'k platform"
  assumes IH: "\<And>cur k y. loop cur k = Some y \<Longrightarrow> loop_sound P min_alloc lo hi sz p k y"
    and body: "Option.bind (pf_iter P k cur) (\<lambda>it. (case it of
       Inl e \<Rightarrow> Some (Inl e, k)
     | Inr rs \<Rightarrow>
         Option.bind (scan_regions g min_alloc max_alloc lo hi sz rs cur) (\<lambda>sc. (case sc of
           Scan_end \<Rightarrow> Some (Inr None, k)
         | Scan_try mn mx cur \<Rightarrow>
             Option.bind (pf_alloc_at P k mn (mx - mn) p) (\<lambda>(res, k'). (case res of
               Inr None \<Rightarrow> Option.bind (checked_add cur g) (\<lambda>cur. loop cur k')
             | res \<Rightarrow> Some (res, k'))))))) = Some y"
  shows "loop_sound P min_alloc lo hi sz p k y"
proof -
  obtain it where it: "pf_iter P k cur = Some it" using body by (auto simp: bind_eq_Some_conv)
  show ?thesis
  proof (cases it)
    case (Inl e)
    with body it show ?thesis by (auto simp: loop_sound_def search_ends_def)
  next
    case (Inr rs)
    obtain sc where sc: "scan_regions g min_alloc max_alloc lo hi sz rs cur = Some sc"
      using body it Inr by (auto simp: bind_eq_Some_conv)
    show ?thesis
    proof (cases sc)
      case Scan_end
      with body it Inr sc show ?thesis by (auto simp: loop_sound_def search_ends_def)
    next
      case (Scan_try mn mx cur')
      obtain res k' where at: "pf_alloc_at P k mn (mx - mn) p = Some (res, k')"
        using body it Inr sc Scan_try by (auto simp: bind_eq_Some_conv)
      show ?thesis
      proof (cases "res = Inr None")
        case True
        with body it \<open>it = Inr rs\<close> sc Scan_try at obtain cur'' where "loop cur'' k' = Some y"
          by (auto simp: bind_eq_Some_conv)
        from IH [OF this] at True show ?thesis unfolding loop_sound_def refusal_keeps_def by blast
      next
        case False
        with body it \<open>it = Inr rs\<close> sc Scan_try at have "y = (res, k')"
          by (auto split: sum.splits option.splits)
        with at scan_place [OF _ _ _ sc [unfolded Scan_try]] show ?thesis
          unfolding loop_sound_def search_ends_def by blast
      qed
    qed
  qed
qed

lemma alloc_loop_sound:
  assumes "alloc_loop P g min_alloc max_alloc lo hi sz p cur k = Some y"
  shows "loop_sound P min_alloc lo hi sz p k y"
  by (rule alloc_loop.raw_induct [where P = "\<lambda>P g min_alloc max_alloc lo hi sz p cur k y. loop_sound P min_alloc lo hi sz p k y", OF _ assms])
    (rule loop_body_sound, assumption+)

text \<open>Where the search of \<open>alloc_near\<close> looks, and that it ends as described.\<close>

definition near_place :: "sys_info \<Rightarrow> nat \<Rightarrow> bound \<Rightarrow> bound \<Rightarrow> nat \<Rightarrow> nat \<Rightarrow> nat \<Rightarrow> bool" where
  "near_place info addr start end sz mn len \<longleftrightarrow> 0 < mn \<and> (\<exists>q. mn \<le> q \<and> q + sz \<le> mn + len
     \<and> min_address info \<le> q \<and> q + sz \<le> max_address info \<and> offset_ok start end addr q)"

lemma region_alloc_near_ends:
  assumes run: "region_alloc_near P addr start end sz p k = Some y"
    and info: "pf_info P k = Some info" "info_ok info"
    and I: "refusal_keeps P p I" "I k"
  shows "\<exists>k1. I k1 \<and> (snd y = k1 \<and> (\<forall>r. fst y \<noteq> Inr (Some r))
    \<or> (\<exists>mn len. near_place info addr start end sz mn len \<and> pf_alloc_at P k1 mn len p = Some y))"
proof -
  obtain b where lim: "alloc_granularity info = 2 ^ b" "min_address info mod 2 ^ b = 0" "0 < min_address info"
      and page: "b < 64" and top: "max_address info < usize_max"
    using info(2) by (auto simp: info_ok_def)
  show ?thesis
  proof (cases "start_offset start = None \<or> end_offset end = None")
    case True
    with run I show ?thesis by (auto simp: region_alloc_near_def split: option.splits)
  next
    case False
    then obtain mn mx where b: "start_offset start = Some mn" "end_offset end = Some mx" by auto
    define lo hi where "lo = max (saturating_add_signed addr mn) (min_address info)"
      and "hi = min (saturating_add_signed addr mx) (max_address info - sz)"
    show ?thesis
    proof (cases "mn > mx \<or> lo > hi")
      case True
      then have "y = (Inl InvalidInput, k) \<or> y = (Inr None, k)"
        using run info b by (simp add: region_alloc_near_def Let_def lo_def hi_def alloc_between_def split: if_splits)
      with I show ?thesis by auto
    next
      case False
      then have le: "lo \<le> hi" "mn \<le> mx" by auto
      then obtain max_alloc where loop: "alloc_loop P (2 ^ b) (align_down lo (2 ^ b)) max_alloc lo hi sz p (align_down lo (2 ^ b)) k
          = Some y"
        using run info b lim(1)
        by (auto simp: region_alloc_near_def alloc_between_def Let_def bind_eq_Some_conv simp flip: lo_def hi_def)
      have "lo \<le> max_address info" using le unfolding hi_def by linarith
      then have "lo < usize_size" using top by (simp add: usize_defs)
      then have al: "align_down lo (2 ^ b) \<le> lo" "min_address info \<le> align_down lo (2 ^ b)"
        using align_down_pow2_le align_down_pow2_greatest page lim(2) by (auto simp: lo_def)
      with lim(3) have "0 < align_down lo (2 ^ b)" by linarith
      with alloc_loop_sound [OF loop] I le al(1) have ends: "search_ends P lo hi sz p I y" by (simp add: loop_sound_def)
      moreover have "near_place info addr start end sz m len" if "place_serves lo hi sz m len" for m len
      proof -
        from that obtain q where m: "0 < m" and q: "lo \<le> q" "q \<le> hi" "m \<le> q" "q + sz \<le> m + len"
          by (auto simp: place_serves_def)
        have "q < usize_max" using q(2) top unfolding hi_def by linarith
        then have "above_start start (int q - int addr)"
          by (intro start_offset_above [OF b(1)]) (use q in \<open>simp_all add: lo_def\<close>)
        moreover have "below_end end (int q - int addr)"
          by (rule end_offset_below [OF b(2)]) (use q lim(3) in \<open>simp_all add: lo_def hi_def\<close>)
        moreover have "sz \<le> max_address info" using q le lim(3) by (auto simp: lo_def hi_def)
        ultimately show ?thesis
          using m q unfolding near_place_def offset_ok_def
          by (intro conjI exI [of _ q]) (simp_all add: lo_def hi_def le_diff_conv2)
      qed
      ultimately show ?thesis unfolding search_ends_def by blast
    qed
  qed
qed

text \<open>
  C17. Memory mapped near an address is near it: when \<open>Region::alloc_near\<close> returns a region, it holds
  the requested number of bytes at an address whose distance satisfies both bounds, inside the limits
  of the address space, with the requested protection, provided the platform maps where it is told.
\<close>

theorem region_alloc_near_sound:
  assumes "maps_fixed P" "region_alloc_near P addr start end sz p k = Some (Inr (Some r), k')" "pf_info P k = Some info"
  shows "\<exists>q. rg_ptr r \<le> q \<and> q + sz \<le> rg_ptr r + rg_len r \<and> min_address info \<le> q \<and> q + sz \<le> max_address info
    \<and> above_start start (int q - int addr) \<and> below_end end (int q - int addr) \<and> rg_prot r = Some p"
proof -
  have "info_ok info" using assms(1,3) unfolding maps_fixed_def by blast
  from region_alloc_near_ends [OF assms(2,3) this, of "\<lambda>_. True"] obtain k1 mn len where
      place: "near_place info addr start end sz mn len" "pf_alloc_at P k1 mn len p = Some (Inr (Some r), k')"
    by (auto simp: refusal_keeps_def)
  then obtain q where q: "0 < mn" "mn \<le> q" "q + sz \<le> mn + len" "min_address info \<le> q" "q + sz \<le> max_address info"
      "offset_ok start end addr q"
    by (auto simp: near_place_def)
  have at: "rg_ptr r = mn" "len \<le> rg_len r" "rg_prot r = Some p"
    using assms(1) place(2) q(1) unfolding maps_fixed_def by blast+
  then have "q + sz \<le> rg_ptr r + rg_len r" using q(3) by linarith
  with q at show ?thesis by (intro exI [of _ q]) (simp add: offset_ok_def)
qed

section \<open>Linux\<close>

text \<open>A kernel that maps, when it succeeds, exactly where it was told (\<open>MAP_FIXED_NOREPLACE\<close>).\<close>

definition mmap_fixed :: "'k kernel \<Rightarrow> bool" where
  "mmap_fixed K \<longleftrightarrow> (\<forall>k a len p b k'. k_mmap K k a len p = (Inr b, k') \<longrightarrow> a \<noteq> 0 \<longrightarrow> b = a)"

lemma alloc_at_sound:
  assumes "mmap_fixed K" "alloc_at K k mn len p = Some (Inr (Some r), k')" "0 < mn"
  shows "rg_ptr r = mn \<and> len \<le> rg_len r \<and> rg_prot r = Some p"
proof -
  obtain n where n: "next_multiple_of len (k_page_size K) = Some n"
    using assms(2) by (auto simp: alloc_at_def bind_eq_Some_conv split: if_splits)
  obtain ans k2 where m: "k_mmap K k mn n p = (ans, k2)" by force
  from assms(2) n m obtain b where b: "ans = Inr b" "r = \<lparr>rg_ptr = b, rg_len = n, rg_prot = Some p\<rparr>"
    by (cases ans) (auto simp: alloc_at_def split: if_splits)
  with assms(1,3) m have "b = mn" unfolding mmap_fixed_def by blast
  with b next_multiple_of_Some(1) [OF n] show ?thesis by simp
qed

lemma sys_info_limits:
  assumes "sys_info_get (2 ^ b) file rl = Some info" "b < 64"
  shows "alloc_granularity info = 2 ^ b \<and> min_address info mod 2 ^ b = 0 \<and> 0 < min_address info
    \<and> min_address info < max_address info \<and> max_address info \<le> VA_MAX - 2 ^ b + 1"
proof -
  obtain mn where mn: "mmap_min_addr (2 ^ b) file = Some mn"
    using assms(1) by (auto simp: sys_info_get_def bind_eq_Some_conv)
  let ?top = "VA_MAX - 2 ^ b + 1"
  let ?mx = "case rl of None \<Rightarrow> ?top | Some l \<Rightarrow> min (align_down l (2 ^ b)) ?top"
  have mx: "?mx \<le> ?top" "sys_info_new (2 ^ b) (2 ^ b) mn ?mx = Some info"
    using assms(1) mn by (cases rl; simp add: sys_info_get_def Let_def)+
  obtain m where "next_multiple_of (max m (2 ^ b)) (2 ^ b) = Some mn" using mn by (auto simp: mmap_min_addr_def Let_def)
  from next_multiple_of_Some(1) [OF this] have "2 ^ b \<le> mn" by simp
  then have "0 < mn" by (metis less_le_trans zero_less_numeral zero_less_power)
  with mx show ?thesis by (auto simp: sys_info_new_def is_multiple_of_def split: if_splits)
qed

lemma linux_info_ok:
  assumes "sys_info_now K k = Some info" "k_page_size K = 2 ^ b" "b < 64"
  shows "info_ok info"
proof -
  have lim: "alloc_granularity info = 2 ^ b" "min_address info mod 2 ^ b = 0" "0 < min_address info"
      "min_address info < max_address info" "max_address info \<le> VA_MAX - 2 ^ b + 1"
    using sys_info_limits [OF _ assms(3), of "k_min_file K k" "k_rlimit K k" info] assms(1,2) by (auto simp: sys_info_now_def)
  have "(1::nat) \<le> 2 ^ b" "1 \<le> VA_MAX" by (simp_all add: VA_MAX_def)
  then have "max_address info \<le> VA_MAX" using lim(5) by linarith
  then have "max_address info < usize_max" by (simp add: VA_MAX_def usize_defs)
  with lim assms(3) show ?thesis by (auto simp: info_ok_def)
qed

lemma linux_maps_fixed: "mmap_fixed K \<Longrightarrow> k_page_size K = 2 ^ b \<Longrightarrow> b < 64 \<Longrightarrow> maps_fixed (linux K)"
  unfolding maps_fixed_def linux_sel by (intro conjI allI impI alloc_at_sound) (auto intro: linux_info_ok)

definition example_kernel :: "unit kernel" where
  "example_kernel = \<lparr>k_page_size = 4096, k_min_file = \<lambda>_. None, k_rlimit = \<lambda>_. None, k_maps = \<lambda>_. Inr [],
     k_mmap = \<lambda>k a len p. (Inr a, k), k_mprotect = \<lambda>k a len p. (None, k)\<rparr>"

definition example_info :: sys_info where
  "example_info = \<lparr>alloc_granularity = 4096, min_address = 65536, max_address = 9223372036854771712\<rparr>"

lemma example_info_now: "sys_info_now example_kernel () = Some example_info"
  by (simp add: sys_info_now_def example_kernel_def sys_info_get_def mmap_min_addr_def next_multiple_of_def VA_MAX_def
      sys_info_new_def is_power_of_two_def is_multiple_of_def example_info_def)

lemma example_iter: "region_iter_now example_kernel () 1048576 = Some (Inr [region_of 65536 9223372036854771712 None])"
proof -
  have "region_iter example_info [] 1048576 = Inr (tiles (max_address example_info) 65536 [])"
    using region_iter_eq [of "[]" "[]" example_info 1048576]
    by (simp add: proc_pid_maps.simps maps_sorted_def prev_end_def) (simp add: example_info_def)
  then show ?thesis
    by (simp add: region_iter_now_def example_info_now) (simp add: example_kernel_def example_info_def)
qed

theorem region_alloc_near_sound_witness:
  "\<exists>q. 1048576 \<le> q \<and> q + 16 \<le> 1052672 \<and> below_end (Included 1000000) (int q - 1048576)"
proof -
  have al: "align_down 1048576 4096 = 1048576"
    using align_down_pow2 [of 12 1048576] by (simp add: usize_defs)
  have at: "alloc_at example_kernel () 1048576 4096 7 = Some (Inr (Some \<lparr>rg_ptr = 1048576, rg_len = 4096, rg_prot = Some 7\<rparr>), ())"
    by (simp add: alloc_at_def example_kernel_def next_multiple_of_def)
  have loop: "alloc_loop (linux example_kernel) 4096 1048576 2052096 1048576 2048576 16 7 1048576 ()
      = Some (Inr (Some \<lparr>rg_ptr = 1048576, rg_len = 4096, rg_prot = Some 7\<rparr>), ())"
    by (subst alloc_loop.simps)
      (simp add: example_iter candidate_def region_of_def next_multiple_of_def checked_add_def usize_defs at)
  have run: "region_alloc_near (linux example_kernel) 1048576 (Included 0) (Included 1000000) 16 7 ()
      = Some (Inr (Some \<lparr>rg_ptr = 1048576, rg_len = 4096, rg_prot = Some 7\<rparr>), ())"
    by (simp add: region_alloc_near_def example_info_now)
      (simp add: example_info_def saturating_add_signed_def usize_defs alloc_between_def al next_multiple_of_def checked_add_def loop [unfolded usize_defs])
  have "maps_fixed (linux example_kernel)"
    by (rule linux_maps_fixed [of _ 12]) (simp_all add: mmap_fixed_def example_kernel_def)
  from region_alloc_near_sound [OF this run, of example_info] show ?thesis by (auto simp: example_info_now)
qed

end
