(* ===== verification/Os_Alloc.thy ===== *)
theory Os_Alloc
  imports Os_Memory Bytes
begin

text \<open>
  Allocation near an address with memory from the operating system
  (\<open>BoundedRangeAllocatorExt\<close> in \<open>installer/arch.rs\<close>), and the errors of the crate (\<open>error.rs\<close>).
  The locale \<open>near_allocator\<close> is what the installer relies on: a place in memory comes with the
  promise that it meets no other place in use. It is interpreted on the code's allocator over a
  platform whose mappings are fresh.
\<close>

section \<open>The code\<close>

datatype error =
    E_ProcessContext io_error
  | E_Protection nat io_error
  | E_Disassembly nat "byte list"
  | E_TooShort nat "byte list"
  | E_Alloc nat io_error
  | E_Encode nat string
  | E_EncodeSize nat nat
  | E_Suspend io_error

definition oom :: "nat \<Rightarrow> error" where
  "oom addr = E_Alloc addr OutOfMemory"

definition os_alloc_near :: "'k platform \<Rightarrow> layout \<Rightarrow> nat \<Rightarrow> bound \<Rightarrow> bound \<Rightarrow> range_alloc \<times> 'k
    \<Rightarrow> ((error + nat option) \<times> range_alloc \<times> 'k) option" where
  "os_alloc_near P l ptr start end = (\<lambda>(self, k). do {
     (value, self) \<leftarrow> alloc_near self l ptr start end;
     (case value of
        Some p \<Rightarrow> Some (Inr (Some p), self, k)
      | None \<Rightarrow> do {
          (res, k) \<leftarrow> region_alloc_near P ptr start end (layout_size l) (pf_rwx P) k;
          (case res of
             Inl err \<Rightarrow> Some (Inl (E_Alloc ptr err), self, k)
           | Inr None \<Rightarrow> Some (Inr None, self, k)
           | Inr (Some r) \<Rightarrow> do {
               self \<leftarrow> adopt_range self (rg_ptr r) (rg_ptr r + rg_len r);
               (value, self) \<leftarrow> alloc_near self l ptr start end;
               Some (Inr value, self, k)
             })
        })
   })"

definition os_reclaim :: "nat \<Rightarrow> nat \<Rightarrow> range_alloc \<times> 'k \<Rightarrow> (range_alloc \<times> 'k) option" where
  "os_reclaim p len = (\<lambda>(self, k). map_option (\<lambda>self. (self, k)) (reclaim self p len))"

section \<open>The interface\<close>

text \<open>
  \<open>owned s live\<close>: the blocks of \<open>live\<close> are the caller's. \<open>alloc_as\<close> gives a block for a layout near
  an address; \<open>free_as\<close> takes back a block that the caller has.
\<close>

locale near_allocator =
  fixes owned :: "'s \<Rightarrow> (nat \<times> nat) list \<Rightarrow> bool"
    and alloc_as :: "layout \<Rightarrow> nat \<Rightarrow> bound \<Rightarrow> bound \<Rightarrow> 's \<Rightarrow> ((error + nat option) \<times> 's) option"
    and free_as :: "nat \<Rightarrow> nat \<Rightarrow> 's \<Rightarrow> 's option"
  assumes alloc_some: "owned s live \<Longrightarrow> layout_ok l \<Longrightarrow> 0 < layout_size l \<Longrightarrow>
      alloc_as l ptr start end s = Some (Inr (Some p), s') \<Longrightarrow>
      owned s' ((p, p + layout_size l) # live) \<and> offset_ok start end ptr p \<and> p mod layout_align l = 0"
    and alloc_other: "owned s live \<Longrightarrow> layout_ok l \<Longrightarrow> 0 < layout_size l \<Longrightarrow>
      alloc_as l ptr start end s = Some (res, s') \<Longrightarrow> (\<forall>p. res \<noteq> Inr (Some p)) \<Longrightarrow> owned s' live"
    and free_live: "owned s (pre @ (p, p + len) # post) \<Longrightarrow> free_as p len s = Some s' \<Longrightarrow> owned s' (pre @ post)"
    and free_empty: "free_as p 0 s = Some s"
    and owned_apart: "owned s live \<Longrightarrow> sorted_wrt apart live"
    and owned_room: "owned s live \<Longrightarrow> b \<in> set live \<Longrightarrow> 0 < fst b \<and> fst b < snd b \<and> snd b \<le> va_max"
    and owned_split: "owned s (pre @ (p, e) # post) \<Longrightarrow> p < m \<Longrightarrow> m < e \<Longrightarrow> owned s (pre @ (p, m) # (m, e) # post)"
begin

text \<open>The tail of a block can be given back on its own, and the rest stays the caller's.\<close>

lemma free_tail:
  assumes own: "owned s (pre @ (p, p + n) # post)" and k: "k \<le> n"
    and free: "free_as (p + k) (n - k) s = Some s'"
  shows "owned s' (pre @ (if k = 0 then [] else [(p, p + k)]) @ post)"
proof -
  consider "k = 0" | "k = n" "0 < k" | "0 < k" "k < n" using k by linarith
  then show ?thesis
  proof cases
    case 1
    with free_live [OF own] free show ?thesis by simp
  next
    case 2
    with own free free_empty show ?thesis by simp
  next
    case 3
    have e: "p + k + (n - k) = p + n" using k by simp
    have "owned s ((pre @ [(p, p + k)]) @ (p + k, p + k + (n - k)) # post)"
      using owned_split [OF own, of "p + k"] 3 by (simp add: e)
    from free_live [OF this free] 3 show ?thesis by simp
  qed
qed

text \<open>Two blocks allocated one after the other do not meet, nor any block already in use.\<close>

lemma two_blocks:
  assumes own: "owned s live" and l: "layout_ok l" "0 < layout_size l" "layout_ok l'" "0 < layout_size l'"
    and first: "alloc_as l ptr start end s = Some (Inr (Some p), s')"
    and second: "alloc_as l' ptr' start' end' s' = Some (Inr (Some p'), s'')"
  shows "apart (p, p + layout_size l) (p', p' + layout_size l')"
    and "b \<in> set live \<Longrightarrow> apart b (p, p + layout_size l) \<and> apart b (p', p' + layout_size l')"
proof -
  from alloc_some [OF own l(1,2) first] have own1: "owned s' ((p, p + layout_size l) # live)" by simp
  from alloc_some [OF own1 l(3,4) second] have own2:
    "owned s'' ((p', p' + layout_size l') # (p, p + layout_size l) # live)" by simp
  from owned_apart [OF own2] show "apart (p, p + layout_size l) (p', p' + layout_size l')"
    by (simp add: apart_def, linarith)
  assume "b \<in> set live"
  with owned_apart [OF own2] show "apart b (p, p + layout_size l) \<and> apart b (p', p' + layout_size l')"
    by (auto simp: apart_def)
qed

end

text \<open>
  The same with every byte accounted for: \<open>avail\<close> are the bytes that can be allocated, and \<open>lost\<close> those
  that can neither be allocated nor are the caller's. An allocation loses at most some padding in front
  of the block, and giving a block back loses nothing, unless the block is short and detached.
\<close>

locale exact_allocator = near_allocator owned alloc_as free_as
  for owned :: "'s \<Rightarrow> (nat \<times> nat) list \<Rightarrow> bool"
    and alloc_as :: "layout \<Rightarrow> nat \<Rightarrow> bound \<Rightarrow> bound \<Rightarrow> 's \<Rightarrow> ((error + nat option) \<times> 's) option"
    and free_as :: "nat \<Rightarrow> nat \<Rightarrow> 's \<Rightarrow> 's option" +
  fixes avail :: "'s \<Rightarrow> nat set" and lost :: "'s \<Rightarrow> (nat \<times> nat) list \<Rightarrow> nat set"
  assumes alloc_exact: "owned s live \<Longrightarrow> layout_ok l \<Longrightarrow> MIN_RANGE_LEN \<le> layout_size l \<Longrightarrow>
      alloc_as l ptr start end s = Some (Inr (Some p), s') \<Longrightarrow>
      \<exists>q. p < q + MIN_RANGE_LEN \<and> lost s' ((p, p + layout_size l) # live) \<subseteq> lost s live \<union> {q..<p}"
    and other_exact: "owned s live \<Longrightarrow> layout_ok l \<Longrightarrow> MIN_RANGE_LEN \<le> layout_size l \<Longrightarrow>
      alloc_as l ptr start end s = Some (res, s') \<Longrightarrow> (\<forall>p. res \<noteq> Inr (Some p)) \<Longrightarrow> lost s' live \<subseteq> lost s live"
    and free_exact: "owned s (pre @ (p, p + len) # post) \<Longrightarrow> free_as p len s = Some s' \<Longrightarrow>
      avail s' = avail s \<union> {p..<p + len} \<and> lost s' (pre @ post) \<subseteq> lost s (pre @ (p, p + len) # post)
      \<or> len < MIN_RANGE_LEN \<and> p + len \<notin> avail s \<and> avail s' = avail s
        \<and> lost s' (pre @ post) \<subseteq> lost s (pre @ (p, p + len) # post) \<union> {p..<p + len}"
    and lost_cong: "(\<Union>b \<in> set live. {fst b..<snd b}) = (\<Union>b \<in> set live'. {fst b..<snd b}) \<Longrightarrow> lost s live = lost s live'"
begin

text \<open>Giving back the tail of a block: the tail can be allocated again, or it was too short.\<close>

lemma tail_exact:
  assumes own: "owned s (pre @ (p, p + n) # post)" and k: "k \<le> n"
    and free: "free_as (p + k) (n - k) s = Some s'"
  shows "{p + k..<p + n} \<subseteq> avail s' \<and> lost s' (pre @ (if k = 0 then [] else [(p, p + k)]) @ post) \<subseteq> lost s (pre @ (p, p + n) # post)
    \<or> n < k + MIN_RANGE_LEN \<and> lost s' (pre @ (if k = 0 then [] else [(p, p + k)]) @ post)
        \<subseteq> lost s (pre @ (p, p + n) # post) \<union> {p + k..<p + n}"
proof -
  have e: "p + k + (n - k) = p + n" using k by simp
  consider "k = 0" | "k = n" "0 < k" | "0 < k" "k < n" using k by linarith
  then show ?thesis
  proof cases
    case 1
    with free_exact [OF own] free show ?thesis by auto
  next
    case 2
    with free free_empty show ?thesis by simp
  next
    case 3
    have c: "lost s (pre @ (p, p + k) # (p + k, p + n) # post) = lost s (pre @ (p, p + n) # post)"
      by (rule lost_cong) (use 3 in auto)
    have "owned s ((pre @ [(p, p + k)]) @ (p + k, p + k + (n - k)) # post)"
      using owned_split [OF own, of "p + k"] 3 by (simp add: e)
    from free_exact [OF this free] 3 c e show ?thesis by auto
  qed
qed

end

section \<open>A platform whose mappings are fresh\<close>

text \<open>\<open>mapped\<close> is the memory in use in a state of the kernel.\<close>

definition maps_fresh :: "'k platform \<Rightarrow> ('k \<Rightarrow> nat set) \<Rightarrow> bool" where
  "maps_fresh P mapped \<longleftrightarrow> (\<forall>k info. pf_info P k = Some info \<longrightarrow> info_ok info)
     \<and> (\<forall>k mn len p res k'. pf_alloc_at P k mn len p = Some (res, k') \<longrightarrow>
          (case res of
             Inr (Some r) \<Rightarrow> 0 < rg_ptr r \<and> len \<le> rg_len r \<and> rg_ptr r + rg_len r \<le> va_max
               \<and> {rg_ptr r..<rg_ptr r + rg_len r} \<inter> mapped k = {} \<and> mapped k' = mapped k \<union> {rg_ptr r..<rg_ptr r + rg_len r}
           | _ \<Rightarrow> mapped k' = mapped k))"

text \<open>A range, perhaps empty, that lies in the memory in use or ends it.\<close>

definition backed :: "nat set \<Rightarrow> nat \<times> nat \<Rightarrow> bool" where
  "backed M r \<longleftrightarrow> {fst r..<snd r} \<subseteq> M \<and> (fst r \<in> M \<or> fst r - 1 \<in> M)"

definition os_owned :: "'k platform \<Rightarrow> ('k \<Rightarrow> nat set) \<Rightarrow> range_alloc \<times> 'k \<Rightarrow> (nat \<times> nat) list \<Rightarrow> bool" where
  "os_owned P mapped s live \<longleftrightarrow> maps_fresh P mapped
     \<and> owners_ok (fst s, live) \<and> (\<forall>r \<in> set (ranges (fst s)) \<union> set live. backed (mapped (snd s)) r)"

lemma backed_apart:
  assumes "backed M r" "fst r \<le> snd r" "s < e" "{s..<e} \<inter> M = {}"
  shows "apart r (s, e)"
proof (rule ccontr)
  assume "\<not> apart r (s, e)"
  then have lt: "s < snd r" "fst r < e" by (auto simp: apart_def)
  show False
  proof (cases "fst r < snd r")
    case True
    then have "max s (fst r) \<in> {s..<e} \<inter> {fst r..<snd r}" using lt assms(3) by auto
    with assms(1,4) show False unfolding backed_def by blast
  next
    case False
    with lt assms(2) have "fst r \<in> {s..<e}" "fst r - 1 \<in> {s..<e}" by auto
    with assms(1,4) show False unfolding backed_def by blast
  qed
qed

lemma backed_mono: "backed M r \<Longrightarrow> M \<subseteq> M' \<Longrightarrow> backed M' r"
  unfolding backed_def by blast

lemma adopted_backed:
  assumes ad: "adopted a s e a'" and old: "\<forall>r \<in> set (ranges a). backed M r" and new: "{s..<e} \<subseteq> M" "s < e"
  shows "\<forall>r \<in> set (ranges a'). backed M r"
proof (cases "a' = note_bounds a s e")
  case True
  with old show ?thesis by simp
next
  case False
  with ad obtain pre old_rs post s' e' where
    rs: "ranges a = pre @ old_rs @ post" "a' = (note_bounds a s e)\<lparr>ranges := pre @ (s', e') # post\<rparr>"
    and shape: "old_rs = [(e, e')] \<and> s' = s \<or> old_rs = [(s', s)] \<and> e' = e \<or> old_rs = [] \<and> s' = s \<and> e' = e"
    unfolding adopted_def by blast
  have new': "backed M (s, e)" using new by (auto simp: backed_def)
  have "{s'..<e'} \<subseteq> M" if "old_rs = [(e, e')]" "s' = s"
  proof
    fix x assume "x \<in> {s'..<e'}"
    then show "x \<in> M" using that rs(1) old new by (cases "x < e") (auto simp: backed_def)
  qed
  moreover have "{s'..<e'} \<subseteq> M" if "old_rs = [(s', s)]" "e' = e"
  proof
    fix x assume "x \<in> {s'..<e'}"
    then show "x \<in> M" using that rs(1) old new by (cases "x < s") (auto simp: backed_def)
  qed
  ultimately have "backed M (s', e')" using shape old rs(1) new' new by (auto simp: backed_def)
  with old rs show ?thesis by auto
qed

lemma served_backed:
  assumes sv: "served a p sz a'" and old: "\<forall>r \<in> set (ranges a). backed M r" and sz: "0 < sz"
  shows "\<forall>r \<in> set (ranges a'). backed M r" and "backed M (p, p + sz)"
proof -
  obtain pre s e post mid where rs: "ranges a = pre @ (s, e) # post" "a' = a\<lparr>ranges := pre @ mid @ post\<rparr>"
    and p: "s \<le> p" "p + sz \<le> e"
    and shape: "mid = [(p + sz, e)] \<and> p - s < MIN_RANGE_LEN \<or> mid = [(s, p)] \<and> p + sz = e \<or> mid = [(s, p), (p + sz, e)]"
    using sv unfolding served_def by blast
  from shape have mid: "set mid \<subseteq> {(p + sz, e), (s, p)}" by auto
  have M: "{s..<e} \<subseteq> M" using old rs(1) by (auto simp: backed_def)
  have "s \<in> {s..<e}" "p \<in> {s..<e}" "p + sz - 1 \<in> {s..<e}" using p sz by auto
  with M have "s \<in> M" "p \<in> M" "p + sz - 1 \<in> M" by blast+
  with M p sz have "backed M (p + sz, e)" "backed M (s, p)" and "backed M (p, p + sz)" by (auto simp: backed_def)
  with old rs mid show "\<forall>r \<in> set (ranges a'). backed M r" "backed M (p, p + sz)" by auto
qed

lemma region_alloc_near_fresh:
  assumes fresh: "maps_fresh P mapped" and sz: "0 < sz"
    and run: "region_alloc_near P addr start end sz p k = Some (res, k')"
  shows "case res of
      Inr (Some r) \<Rightarrow> 0 < rg_ptr r \<and> sz \<le> rg_len r \<and> rg_ptr r + rg_len r \<le> va_max
        \<and> {rg_ptr r..<rg_ptr r + rg_len r} \<inter> mapped k = {} \<and> mapped k' = mapped k \<union> {rg_ptr r..<rg_ptr r + rg_len r}
    | _ \<Rightarrow> mapped k' = mapped k"
proof (cases "pf_info P k")
  case None
  with run show ?thesis by (auto simp: region_alloc_near_def split: option.splits)
next
  case (Some info)
  have ok: "info_ok info" using fresh Some unfolding maps_fresh_def by blast
  have at: "case res of
      Inr (Some r) \<Rightarrow> 0 < rg_ptr r \<and> len \<le> rg_len r \<and> rg_ptr r + rg_len r \<le> va_max
        \<and> {rg_ptr r..<rg_ptr r + rg_len r} \<inter> mapped k = {} \<and> mapped k' = mapped k \<union> {rg_ptr r..<rg_ptr r + rg_len r}
    | _ \<Rightarrow> mapped k' = mapped k" if "pf_alloc_at P k mn len p = Some (res, k')" for k mn len p res k'
    using fresh that unfolding maps_fresh_def by blast
  have "refusal_keeps P p (\<lambda>x. mapped x = mapped k)"
    using at unfolding refusal_keeps_def by fastforce
  from region_alloc_near_ends [OF run Some ok this] obtain k1 where k1: "mapped k1 = mapped k"
    and alt: "k' = k1 \<and> (\<forall>r. res \<noteq> Inr (Some r))
      \<or> (\<exists>mn len. near_place info addr start end sz mn len \<and> pf_alloc_at P k1 mn len p = Some (res, k'))" by auto
  from alt show ?thesis
  proof (elim disjE exE conjE)
    assume "k' = k1" "\<forall>r. res \<noteq> Inr (Some r)"
    with k1 show ?thesis by (auto split: sum.splits option.splits)
  next
    fix mn len assume place: "near_place info addr start end sz mn len" and alloc: "pf_alloc_at P k1 mn len p = Some (res, k')"
    have "sz \<le> len" using place by (auto simp: near_place_def)
    with at [OF alloc] k1 show ?thesis by (auto split: sum.splits option.splits)
  qed
qed

lemma os_ownedD:
  assumes "os_owned P mapped (a, k) live"
  shows "maps_fresh P mapped" "owners_ok (a, live)" "alloc_inv a" "\<forall>r \<in> set (ranges a) \<union> set live. backed (mapped k) r"
  using assms by (auto simp: os_owned_def owners_ok_def)

lemma os_owned_same: "os_owned P mapped (a, k) live \<Longrightarrow> mapped k' = mapped k \<Longrightarrow> os_owned P mapped (a, k') live"
  by (simp add: os_owned_def)

lemma alloc_near_owned:
  assumes own: "os_owned P mapped (a, k) live" and l: "layout_ok l" "0 < layout_size l"
    and run: "alloc_near a l ptr start end = Some (v, a')"
  shows "case v of None \<Rightarrow> a' = a
    | Some p \<Rightarrow> os_owned P mapped (a', k) ((p, p + layout_size l) # live) \<and> offset_ok start end ptr p \<and> p mod layout_align l = 0"
proof (cases v)
  case None
  with alloc_near_none [OF os_ownedD(3) [OF own] l(1)] run show ?thesis by simp
next
  case (Some p)
  note s = alloc_near_served [OF os_ownedD(3) [OF own] l(1) run [unfolded Some]]
  have "\<forall>r \<in> set (ranges a). backed (mapped k) r" using os_ownedD(4) [OF own] by simp
  from served_backed [OF s(1) this l(2)] alloc_keeps_owners [OF os_ownedD(2) [OF own] l run [unfolded Some]] s own Some
  show ?thesis by (auto simp: os_owned_def)
qed

text \<open>Fresh memory can be adopted.\<close>

lemma adopt_owned:
  assumes own: "os_owned P mapped (a, k) live" and se: "0 < s" "s < e" "e \<le> va_max"
    and fresh: "{s..<e} \<inter> mapped k = {}" "mapped k' = mapped k \<union> {s..<e}" and ad: "adopt_range a s e = Some a'"
  shows "os_owned P mapped (a', k') live"
proof -
  note d = os_ownedD [OF own]
  have ap: "apart r (s, e)" if "r \<in> set (ranges a) \<union> set live" for r
  proof -
    have "fst r \<le> snd r" using that d(2,3) alloc_inv_range [of a r] by (fastforce simp: owners_ok_def)
    with d(4) that show ?thesis by (intro backed_apart [OF _ _ se(2) fresh(1)]) auto
  qed
  then have clear: "clear_of a (s, e)" by (auto simp: clear_of_def intro: apart_sym)
  have "\<forall>r \<in> set (ranges a) \<union> set live. backed (mapped k') r"
    using d(4) fresh(2) backed_mono by blast
  moreover have "\<forall>r \<in> set (ranges a'). backed (mapped k') r"
    by (rule adopted_backed [OF adopt_range_adopted [OF d(3) se(1,2) clear ad]])
      (use calculation fresh(2) se in auto)
  moreover have "owners_ok (a', live)"
    by (rule adopt_keeps_owners [OF d(2) se clear _ ad]) (use ap in auto)
  ultimately show ?thesis using own by (auto simp: os_owned_def)
qed

lemma os_alloc_near_owned:
  assumes own: "os_owned P mapped s live" and l: "layout_ok l" "0 < layout_size l"
    and run: "os_alloc_near P l ptr start end s = Some (res, s')"
  shows "case res of
      Inr (Some p) \<Rightarrow> os_owned P mapped s' ((p, p + layout_size l) # live) \<and> offset_ok start end ptr p \<and> p mod layout_align l = 0
    | _ \<Rightarrow> os_owned P mapped s' live"
proof -
  obtain a k where s: "s = (a, k)" by force
  note own = own [unfolded s]
  obtain v a1 where first: "alloc_near a l ptr start end = Some (v, a1)"
    using run s by (auto simp: os_alloc_near_def bind_eq_Some_conv)
  note f = alloc_near_owned [OF own l first]
  show ?thesis
  proof (cases v)
    case (Some p)
    with run s first f show ?thesis by (auto simp: os_alloc_near_def)
  next
    case None
    then have a1: "a1 = a" using f by simp
    obtain ans k1 where map: "region_alloc_near P ptr start end (layout_size l) (pf_rwx P) k = Some (ans, k1)"
      using run s first None a1 by (auto simp: os_alloc_near_def bind_eq_Some_conv)
    note fr = region_alloc_near_fresh [OF os_ownedD(1) [OF own] l(2) map]
    show ?thesis
    proof (cases "\<exists>r. ans = Inr (Some r)")
      case False
      then have "mapped k1 = mapped k" "s' = (a, k1)" "\<forall>p. res \<noteq> Inr (Some p)"
        using fr run s first \<open>v = None\<close> a1 map by (auto simp: os_alloc_near_def split: sum.splits option.splits)
      with os_owned_same [OF own] show ?thesis by (auto split: sum.splits option.splits)
    next
      case True
      then obtain r where r: "ans = Inr (Some r)" by blast
      obtain a2 w a3 where ad: "adopt_range a (rg_ptr r) (rg_ptr r + rg_len r) = Some a2"
        and second: "alloc_near a2 l ptr start end = Some (w, a3)" and res: "res = Inr w" "s' = (a3, k1)"
        using run s first \<open>v = None\<close> a1 map r by (auto simp: os_alloc_near_def bind_eq_Some_conv)
      from fr r l(2) have own2: "os_owned P mapped (a2, k1) live" by (intro adopt_owned [OF own _ _ _ _ _ ad]) auto
      from alloc_near_owned [OF own2 l second] res own2 show ?thesis by (auto split: option.splits)
    qed
  qed
qed

lemma os_reclaim_owned:
  assumes own: "os_owned P mapped s (pre @ (p, p + len) # post)" and run: "os_reclaim p len s = Some s'"
  shows "os_owned P mapped s' (pre @ post)"
proof -
  obtain a k where s: "s = (a, k)" by force
  obtain a' where a': "reclaim a p len = Some a'" "s' = (a', k)" using run s by (auto simp: os_reclaim_def)
  note d = os_ownedD [OF own [unfolded s]]
  have "owners_ok (a', pre @ post)"
    by (rule alloc_step_owners [OF step_reclaim [OF a'(1)] d(2)])
  moreover have "\<forall>r \<in> set (ranges a'). backed (mapped k) r"
  proof (rule adopted_backed)
    show "adopted a p (p + len) a'"
      by (rule adopt_range_adopted [OF d(3)]) (use d(2) a'(1) in \<open>auto simp: owners_ok_def reclaim_def\<close>)
    show "{p..<p + len} \<subseteq> mapped k" "p < p + len" using d(2,4) by (auto simp: backed_def owners_ok_def)
  qed (use d(4) in simp)
  ultimately show ?thesis using own s a' by (auto simp: os_owned_def)
qed

lemma os_owned_split:
  assumes own: "os_owned P mapped s (pre @ (p, e) # post)" and m: "p < m" "m < e"
  shows "os_owned P mapped s (pre @ (p, m) # (m, e) # post)"
proof -
  have ok: "owners_ok (fst s, pre @ (p, e) # post)" and bk: "backed (mapped (snd s)) (p, e)"
    using own by (auto simp: os_owned_def)
  from ok have cl: "clear_of (fst s) (p, e)" by (auto simp: owners_ok_def)
  then have "clear_of (fst s) (p, m)" "clear_of (fst s) (m, e)" using m by (auto simp: clear_of_def apart_def)
  moreover have "sorted_wrt apart (pre @ (p, m) # (m, e) # post)"
    using ok m by (auto simp: owners_ok_def sorted_wrt_append apart_def)
  ultimately have "owners_ok (fst s, pre @ (p, m) # (m, e) # post)"
    using ok m by (auto simp: owners_ok_def)
  moreover have "backed (mapped (snd s)) (p, m)" "backed (mapped (snd s)) (m, e)"
    using bk m by (auto simp: backed_def)
  ultimately show ?thesis using own by (auto simp: os_owned_def)
qed

lemma os_alloc_some:
  "os_owned P mapped s live \<Longrightarrow> layout_ok l \<Longrightarrow> 0 < layout_size l \<Longrightarrow>
    os_alloc_near P l ptr start end s = Some (Inr (Some p), s') \<Longrightarrow>
    os_owned P mapped s' ((p, p + layout_size l) # live) \<and> offset_ok start end ptr p \<and> p mod layout_align l = 0"
  by (drule (3) os_alloc_near_owned) simp

lemma os_alloc_other:
  "os_owned P mapped s live \<Longrightarrow> layout_ok l \<Longrightarrow> 0 < layout_size l \<Longrightarrow>
    os_alloc_near P l ptr start end s = Some (res, s') \<Longrightarrow> (\<forall>p. res \<noteq> Inr (Some p)) \<Longrightarrow> os_owned P mapped s' live"
  by (drule (3) os_alloc_near_owned) (auto split: sum.splits option.splits)

lemma os_owned_apart: "os_owned P mapped s live \<Longrightarrow> sorted_wrt apart live"
  and os_owned_room: "os_owned P mapped s live \<Longrightarrow> b \<in> set live \<Longrightarrow> 0 < fst b \<and> fst b < snd b \<and> snd b \<le> va_max"
  by (auto simp: os_owned_def owners_ok_def)

lemma os_reclaim_empty: "os_reclaim p 0 s = Some s"
  by (simp add: os_reclaim_def reclaim_def adopt_range_def split: prod.split)

interpretation os: near_allocator "os_owned P mapped" "os_alloc_near P" os_reclaim for P mapped
  by unfold_locales
    ((rule os_reclaim_empty
      | (rule os_alloc_some os_alloc_other os_reclaim_owned os_owned_apart os_owned_room os_owned_split; assumption))+)

definition os_avail :: "range_alloc \<times> 'k \<Rightarrow> nat set" where
  "os_avail s = free_bytes (fst s)"

text \<open>
  The bytes that the system gave and that are neither free nor in \<open>live\<close>. \<open>scraps n F W\<close>: the bytes \<open>W\<close> are
  not more than \<open>n\<close> ranges too short to be kept have, and each is within such a range's reach of \<open>F\<close>.
\<close>

definition lost_bytes :: "('k \<Rightarrow> nat set) \<Rightarrow> range_alloc \<times> 'k \<Rightarrow> (nat \<times> nat) list \<Rightarrow> nat set" where
  "lost_bytes mapped s live = mapped (snd s) - free_bytes (fst s) - (\<Union>b \<in> set live. {fst b..<snd b})"

definition scraps :: "nat \<Rightarrow> nat set \<Rightarrow> nat set \<Rightarrow> bool" where
  "scraps n F W \<longleftrightarrow> finite W \<and> card W \<le> n * (MIN_RANGE_LEN - 1)
     \<and> (\<forall>x \<in> W. \<exists>y \<in> F. x < y + MIN_RANGE_LEN \<and> y < x + MIN_RANGE_LEN)"

lemma scraps_empty [simp]: "scraps n F {}"
  by (simp add: scraps_def)

lemma scraps_mono:
  assumes "scraps n F W" "W' \<subseteq> W" "F \<subseteq> F'" "n \<le> n'"
  shows "scraps n' F' W'"
proof -
  have "card W' \<le> card W" using assms(1,2) by (simp add: scraps_def card_mono)
  also have "\<dots> \<le> n * (MIN_RANGE_LEN - 1)" using assms(1) by (simp add: scraps_def)
  also have "\<dots> \<le> n' * (MIN_RANGE_LEN - 1)" using assms(4) by simp
  finally have "card W' \<le> n' * (MIN_RANGE_LEN - 1)" .
  moreover have "finite W'" using assms(1,2) finite_subset by (auto simp: scraps_def)
  ultimately show ?thesis using assms(1-3) unfolding scraps_def by blast
qed

lemma scraps_Un:
  assumes "scraps n F W" "scraps n' F W'"
  shows "scraps (n + n') F (W \<union> W')"
proof -
  have "card (W \<union> W') \<le> card W + card W'" by (rule card_Un_le)
  with assms show ?thesis unfolding scraps_def by (auto simp: add_mult_distrib)
qed

lemma scraps_range:
  assumes "p < q + MIN_RANGE_LEN" "q < p \<Longrightarrow> q - 1 \<in> F \<or> p \<in> F"
  shows "scraps 1 F {q..<p}"
  unfolding scraps_def
proof (intro conjI ballI)
  fix x assume x: "x \<in> {q..<p}"
  with assms(2) have "q - 1 \<in> F \<or> p \<in> F" by simp
  then show "\<exists>y \<in> F. x < y + MIN_RANGE_LEN \<and> y < x + MIN_RANGE_LEN"
  proof
    assume "q - 1 \<in> F"
    with x assms(1) show ?thesis by (intro bexI [of _ "q - 1"]) auto
  next
    assume "p \<in> F"
    with x assms(1) show ?thesis by (intro bexI [of _ p]) auto
  qed
qed (use assms(1) in auto)

text \<open>From one state and its blocks to another only scraps are lost.\<close>

definition spends :: "('k \<Rightarrow> nat set) \<Rightarrow> nat \<Rightarrow> nat set \<Rightarrow> range_alloc \<times> 'k \<Rightarrow> (nat \<times> nat) list \<Rightarrow> range_alloc \<times> 'k
    \<Rightarrow> (nat \<times> nat) list \<Rightarrow> bool" where
  "spends mapped n F s live s' live' \<longleftrightarrow> scraps n F (lost_bytes mapped s' live' - lost_bytes mapped s live)"

lemma spends_keeps: "lost_bytes mapped s' live' \<subseteq> lost_bytes mapped s live \<Longrightarrow> spends mapped n F s live s' live'"
  unfolding spends_def by (rule scraps_mono [OF scraps_empty [of n F]]) auto

lemma spends_mono: "spends mapped n F s live s' live' \<Longrightarrow> F \<subseteq> F' \<Longrightarrow> n \<le> n' \<Longrightarrow> spends mapped n' F' s live s' live'"
  unfolding spends_def by (rule scraps_mono) auto

lemma spends_trans:
  assumes "spends mapped n F s live s' live'" "spends mapped n' F s' live' s'' live''"
  shows "spends mapped (n + n') F s live s'' live''"
  unfolding spends_def by (rule scraps_mono [OF scraps_Un [OF assms [unfolded spends_def]]]) auto

lemma spends_lost:
  assumes "lost_bytes mapped s' live' \<subseteq> lost_bytes mapped s live \<union> W" "scraps n F W"
  shows "spends mapped n F s live s' live'"
  unfolding spends_def by (rule scraps_mono [OF assms(2)]) (use assms(1) in auto)

lemma lost_bytes_same: "mapped k' = mapped k \<Longrightarrow> lost_bytes mapped (a, k') live = lost_bytes mapped (a, k) live"
  by (simp add: lost_bytes_def)

lemma spends_same:
  "mapped k' = mapped k \<Longrightarrow> spends mapped n F s live (a, k') live' = spends mapped n F s live (a, k) live'"
  "mapped k' = mapped k \<Longrightarrow> spends mapped n F (a, k') live s live' = spends mapped n F (a, k) live s live'"
  by (simp_all add: spends_def lost_bytes_same [of mapped k' k])

lemma lost_bytes_cong: "(\<Union>b \<in> set live. {fst b..<snd b}) = (\<Union>b \<in> set live'. {fst b..<snd b}) \<Longrightarrow>
    lost_bytes mapped s live = lost_bytes mapped s live'"
  by (simp add: lost_bytes_def)

lemma served_lost:
  assumes "served a p sz a'"
  obtains q where "p < q + MIN_RANGE_LEN" "free_bytes a \<subseteq> free_bytes a' \<union> {p..<p + sz} \<union> {q..<p}"
proof -
  obtain pre s e post mid where rs: "ranges a = pre @ (s, e) # post" "a' = a\<lparr>ranges := pre @ mid @ post\<rparr>"
    and mid: "mid = [(p + sz, e)] \<and> p - s < MIN_RANGE_LEN \<or> mid = [(s, p)] \<and> p + sz = e \<or> mid = [(s, p), (p + sz, e)]"
    using assms unfolding served_def by blast
  let ?bytes = "\<lambda>rs. \<Union>r \<in> set rs. {fst r..<snd r}"
  have b: "free_bytes a = ?bytes pre \<union> {s..<e} \<union> ?bytes post" "free_bytes a' = ?bytes pre \<union> ?bytes mid \<union> ?bytes post"
    by (auto simp: free_bytes_def rs)
  show thesis
  proof (cases "mid = [(p + sz, e)] \<and> p - s < MIN_RANGE_LEN")
    case True
    then have "{s..<e} \<subseteq> ?bytes mid \<union> {p..<p + sz} \<union> {s..<p}" by auto
    then have "free_bytes a \<subseteq> free_bytes a' \<union> {p..<p + sz} \<union> {s..<p}" unfolding b by blast
    moreover have "p < s + MIN_RANGE_LEN" using True by (auto simp: MIN_RANGE_LEN_def)
    ultimately show thesis by (intro that)
  next
    case False
    with mid have "{s..<e} \<subseteq> ?bytes mid \<union> {p..<p + sz}" by auto
    then have "free_bytes a \<subseteq> free_bytes a' \<union> {p..<p + sz} \<union> {p..<p}" unfolding b by blast
    then show thesis by (rule that [rotated]) (simp add: MIN_RANGE_LEN_def)
  qed
qed

lemma alloc_near_lost:
  assumes own: "os_owned P mapped (a, k) live" and l: "layout_ok l"
    and run: "alloc_near a l ptr start end = Some (Some p, a')"
  shows "\<exists>q. p < q + MIN_RANGE_LEN
    \<and> lost_bytes mapped (a', k) ((p, p + layout_size l) # live) \<subseteq> lost_bytes mapped (a, k) live \<union> {q..<p}"
proof -
  obtain q where "p < q + MIN_RANGE_LEN" "free_bytes a \<subseteq> free_bytes a' \<union> {p..<p + layout_size l} \<union> {q..<p}"
    by (rule served_lost [OF alloc_near_served(1) [OF os_ownedD(3) [OF own] l run]])
  then show ?thesis by (intro exI [of _ q]) (auto simp: lost_bytes_def)
qed

lemma adopt_lost:
  assumes own: "os_owned P mapped (a, k) live" and se: "0 < s" "s + MIN_RANGE_LEN \<le> e" "e \<le> va_max"
    and fresh: "{s..<e} \<inter> mapped k = {}" "mapped k' = mapped k \<union> {s..<e}" and ad: "adopt_range a s e = Some a'"
  shows "lost_bytes mapped (a', k') live \<subseteq> lost_bytes mapped (a, k) live"
proof -
  note d = os_ownedD [OF own]
  have lt: "s < e" using se(2) by (simp add: MIN_RANGE_LEN_def)
  have "apart (s, e) r" if "r \<in> set (ranges a)" for r
    using that d(3,4) alloc_inv_range [of a r] by (intro apart_sym [OF backed_apart [OF _ _ lt fresh(1)]]) auto
  then have "clear_of a (s, e)" by (simp add: clear_of_def)
  from adopted_correct(2) [OF d(3) se(1) lt se(3) adopt_range_adopted [OF d(3) se(1) lt this ad]]
  have "free_bytes a' = free_bytes a \<union> {s..<e}"
  proof
    assume "e - s < MIN_RANGE_LEN \<and> detached a (s, e) \<and> free_bytes a' = free_bytes a"
    with se(2) show ?thesis by linarith
  qed
  with fresh(2) show ?thesis unfolding lost_bytes_def snd_conv fst_conv by blast
qed

lemma os_alloc_near_lost:
  assumes own: "os_owned P mapped s live" and l: "layout_ok l" "MIN_RANGE_LEN \<le> layout_size l"
    and run: "os_alloc_near P l ptr start end s = Some (res, s')"
  shows "case res of
      Inr (Some p) \<Rightarrow> \<exists>q. p < q + MIN_RANGE_LEN
        \<and> lost_bytes mapped s' ((p, p + layout_size l) # live) \<subseteq> lost_bytes mapped s live \<union> {q..<p}
    | _ \<Rightarrow> lost_bytes mapped s' live \<subseteq> lost_bytes mapped s live"
proof -
  obtain a k where s: "s = (a, k)" by force
  note own = own [unfolded s]
  have sz: "0 < layout_size l" using l(2) by (simp add: MIN_RANGE_LEN_def)
  obtain v a1 where first: "alloc_near a l ptr start end = Some (v, a1)"
    using run s by (auto simp: os_alloc_near_def bind_eq_Some_conv)
  show ?thesis
  proof (cases v)
    case (Some p)
    with run s first alloc_near_lost [OF own l(1) first [unfolded Some]] show ?thesis by (auto simp: os_alloc_near_def)
  next
    case None
    have a1: "a1 = a" using alloc_near_owned [OF own l(1) sz first] None by simp
    obtain ans k1 where map: "region_alloc_near P ptr start end (layout_size l) (pf_rwx P) k = Some (ans, k1)"
      using run s first None a1 by (auto simp: os_alloc_near_def bind_eq_Some_conv)
    note fr = region_alloc_near_fresh [OF os_ownedD(1) [OF own] sz map]
    show ?thesis
    proof (cases "\<exists>r. ans = Inr (Some r)")
      case False
      then have "mapped k1 = mapped k" "s' = (a, k1)" "\<forall>p. res \<noteq> Inr (Some p)"
        using fr run s first \<open>v = None\<close> a1 map by (auto simp: os_alloc_near_def split: sum.splits option.splits)
      with lost_bytes_same [of mapped k1 k a live] show ?thesis by (simp add: s split: sum.split option.split)
    next
      case True
      then obtain r where r: "ans = Inr (Some r)" by blast
      obtain a2 w a3 where ad: "adopt_range a (rg_ptr r) (rg_ptr r + rg_len r) = Some a2"
        and second: "alloc_near a2 l ptr start end = Some (w, a3)" and res: "res = Inr w" "s' = (a3, k1)"
        using run s first \<open>v = None\<close> a1 map r by (auto simp: os_alloc_near_def bind_eq_Some_conv)
      from fr r sz have own2: "os_owned P mapped (a2, k1) live" by (intro adopt_owned [OF own _ _ _ _ _ ad]) auto
      have less: "lost_bytes mapped (a2, k1) live \<subseteq> lost_bytes mapped (a, k) live"
        by (rule adopt_lost [OF own _ _ _ _ _ ad]) (use fr r l(2) in auto)
      show ?thesis
      proof (cases w)
        case None
        with alloc_near_owned [OF own2 l(1) sz second] res less show ?thesis by (simp add: s)
      next
        case (Some p)
        from alloc_near_lost [OF own2 l(1) second [unfolded Some]] less res Some show ?thesis by (auto simp: s)
      qed
    qed
  qed
qed

lemma os_alloc_exact:
  "os_owned P mapped s live \<Longrightarrow> layout_ok l \<Longrightarrow> MIN_RANGE_LEN \<le> layout_size l \<Longrightarrow>
    os_alloc_near P l ptr start end s = Some (Inr (Some p), s') \<Longrightarrow>
    \<exists>q. p < q + MIN_RANGE_LEN
      \<and> lost_bytes mapped s' ((p, p + layout_size l) # live) \<subseteq> lost_bytes mapped s live \<union> {q..<p}"
  by (drule (3) os_alloc_near_lost) simp

lemma os_other_exact:
  "os_owned P mapped s live \<Longrightarrow> layout_ok l \<Longrightarrow> MIN_RANGE_LEN \<le> layout_size l \<Longrightarrow>
    os_alloc_near P l ptr start end s = Some (res, s') \<Longrightarrow> (\<forall>p. res \<noteq> Inr (Some p)) \<Longrightarrow>
    lost_bytes mapped s' live \<subseteq> lost_bytes mapped s live"
  by (drule (3) os_alloc_near_lost) (auto split: sum.splits option.splits)

lemma os_free_exact:
  assumes own: "os_owned P mapped s (pre @ (p, p + len) # post)" and run: "os_reclaim p len s = Some s'"
  shows "os_avail s' = os_avail s \<union> {p..<p + len}
      \<and> lost_bytes mapped s' (pre @ post) \<subseteq> lost_bytes mapped s (pre @ (p, p + len) # post)
    \<or> len < MIN_RANGE_LEN \<and> p + len \<notin> os_avail s \<and> os_avail s' = os_avail s
      \<and> lost_bytes mapped s' (pre @ post) \<subseteq> lost_bytes mapped s (pre @ (p, p + len) # post) \<union> {p..<p + len}"
proof -
  obtain a k where s: "s = (a, k)" by force
  obtain a' where a': "adopt_range a p (p + len) = Some a'" "s' = (a', k)"
    using run s by (auto simp: os_reclaim_def reclaim_def)
  note d = os_ownedD [OF own [unfolded s]]
  have b: "0 < p" "p < p + len" "p + len \<le> va_max" and cl: "clear_of a (p, p + len)"
    using d(2) by (auto simp: owners_ok_def)
  have "p + len \<notin> free_bytes a" if "detached a (p, p + len)"
    using that cl b(2) by (fastforce simp: free_bytes_def detached_def clear_of_def apart_def)
  with adopted_correct(2) [OF d(3) b adopt_range_adopted [OF d(3) b(1,2) cl a'(1)]]
  have alt: "free_bytes a' = free_bytes a \<union> {p..<p + len}
      \<or> len < MIN_RANGE_LEN \<and> p + len \<notin> free_bytes a \<and> free_bytes a' = free_bytes a" by auto
  then show ?thesis by (auto simp: s a'(2) lost_bytes_def os_avail_def)
qed

interpretation ex: exact_allocator "os_owned P mapped" "os_alloc_near P" os_reclaim os_avail "lost_bytes mapped" for P mapped
  by unfold_locales
    ((rule lost_bytes_cong os_alloc_exact os_other_exact os_free_exact; assumption)+)

section \<open>Linux\<close>

definition mmap_fresh :: "'k kernel \<Rightarrow> ('k \<Rightarrow> nat set) \<Rightarrow> bool" where
  "mmap_fresh K mapped \<longleftrightarrow> (\<forall>k a len p res k'. k_mmap K k a len p = (res, k') \<longrightarrow>
     (case res of Inl _ \<Rightarrow> mapped k' = mapped k
      | Inr b \<Rightarrow> 0 < b \<and> b + len \<le> va_max \<and> {b..<b + len} \<inter> mapped k = {} \<and> mapped k' = mapped k \<union> {b..<b + len}))"

lemma alloc_at_fresh:
  assumes "mmap_fresh K mapped" "alloc_at K k mn len p = Some (res, k')"
  shows "case res of
      Inr (Some r) \<Rightarrow> 0 < rg_ptr r \<and> len \<le> rg_len r \<and> rg_ptr r + rg_len r \<le> va_max
        \<and> {rg_ptr r..<rg_ptr r + rg_len r} \<inter> mapped k = {} \<and> mapped k' = mapped k \<union> {rg_ptr r..<rg_ptr r + rg_len r}
    | _ \<Rightarrow> mapped k' = mapped k"
proof (cases "mn AND (k_page_size K - 1) = 0")
  case False
  with assms(2) have "res = Inl InvalidInput" "k' = k" by (simp_all add: alloc_at_def)
  then show ?thesis by simp
next
  case True
  then obtain n where n: "next_multiple_of len (k_page_size K) = Some n"
    using assms(2) by (auto simp: alloc_at_def bind_eq_Some_conv)
  obtain ans k2 where m: "k_mmap K k mn n p = (ans, k2)" by force
  have "case ans of Inl _ \<Rightarrow> mapped k2 = mapped k
      | Inr b \<Rightarrow> 0 < b \<and> b + n \<le> va_max \<and> {b..<b + n} \<inter> mapped k = {} \<and> mapped k2 = mapped k \<union> {b..<b + n}"
    using assms(1) m unfolding mmap_fresh_def by blast
  with True assms(2) n m next_multiple_of_Some(1) [OF n] show ?thesis
    by (cases ans) (auto simp: alloc_at_def split: if_splits)
qed

lemma linux_maps_fresh:
  assumes "mmap_fresh K mapped" and "k_page_size K = 2 ^ b" and "b < 64"
  shows "maps_fresh (linux K) mapped"
  unfolding maps_fresh_def linux_sel using alloc_at_fresh [OF assms(1)] linux_info_ok [OF _ assms(2,3)] by blast

end
