(* ===== verification/Hook_Site.thy ===== *)
theory Hook_Site
  imports Os_Alloc Jmp_Encoding
begin

text \<open>
  The code at a hooked function (\<open>installer/arch/x86_64/hook_site.rs\<close>): decoding it and finding how
  many instructions the jump replaces. The disassembler and the encoder are the \<open>iced-x86\<close>
  library: parameters, with their documented behaviour as a predicate.
\<close>

section \<open>The disassembler\<close>

text \<open>The codes the source names; every other is \<open>Other_code\<close>.\<close>

datatype code = INVALID | Int1 | Int3 | Ud2 | Jmp_rel32_64 | Other_code nat

datatype flow_control = Next | UnconditionalBranch | IndirectBranch | ConditionalBranch | Return
  | Call | IndirectCall | Interrupt | XbeginXabortXend | Exception

record insn =
  in_ip :: nat
  in_len :: nat
  in_code :: code
  in_flow :: flow_control
  in_rel :: "nat option"

definition next_ip :: "insn \<Rightarrow> nat" where
  "next_ip i = (in_ip i + in_len i) mod usize_size"

record encoded =
  enc_rip :: nat
  enc_code :: "byte list"
  enc_offsets :: "nat list"

record 'd iced =
  dec_with_ip :: "byte list \<Rightarrow> nat \<Rightarrow> 'd"
  dec_new :: "byte list \<Rightarrow> 'd"
  can_decode :: "'d \<Rightarrow> bool"
  decode_out :: "'d \<Rightarrow> insn \<times> 'd"
  set_position :: "'d \<Rightarrow> nat \<Rightarrow> 'd option"
  with_branch :: "code \<Rightarrow> nat \<Rightarrow> insn option"
  block_encode :: "insn list \<Rightarrow> nat \<Rightarrow> string + encoded"

text \<open>
  The documented behaviour of the decoder, \<open>view\<close> being its instruction pointer, its position and its
  data: \<open>new\<close> starts at instruction pointer 0, and \<open>set_position\<close> moves the position only.
\<close>

definition decoder_ok :: "'d iced \<Rightarrow> ('d \<Rightarrow> nat \<times> nat \<times> byte list) \<Rightarrow> bool" where
  "decoder_ok C view \<longleftrightarrow>
     (\<forall>bs ip. view (dec_with_ip C bs ip) = (ip, 0, bs)) \<and> (\<forall>bs. view (dec_new C bs) = (0, 0, bs))
     \<and> (\<forall>d ip pos bs. view d = (ip, pos, bs) \<longrightarrow>
          (can_decode C d \<longleftrightarrow> pos < length bs)
          \<and> (\<forall>n \<le> length bs. \<exists>d'. set_position C d n = Some d' \<and> view d' = (ip, n, bs))
          \<and> (\<forall>i d'. pos < length bs \<longrightarrow> decode_out C d = (i, d') \<longrightarrow>
               in_ip i = ip \<and> 0 < in_len i \<and> in_len i \<le> MAX_INSN_LEN \<and> pos + in_len i \<le> length bs
               \<and> view d' = ((ip + in_len i) mod usize_size, pos + in_len i, bs)))"

section \<open>Decoding\<close>

definition is_invalid :: "insn \<Rightarrow> bool" where
  "is_invalid i \<longleftrightarrow> in_code i = INVALID"

definition is_unconditional_branch :: "insn \<Rightarrow> bool" where
  "is_unconditional_branch i \<longleftrightarrow>
     (case in_flow i of UnconditionalBranch \<Rightarrow> True | IndirectBranch \<Rightarrow> True | Return \<Rightarrow> True | Interrupt \<Rightarrow> True | _ \<Rightarrow> False)"

partial_function (option) decode_loop :: "'d iced \<Rightarrow> 'd \<Rightarrow> insn list \<Rightarrow> insn list option" where
  "decode_loop C decoder instructions =
     (if can_decode C decoder
      then decode_loop C (snd (decode_out C decoder)) (instructions @ [fst (decode_out C decoder)])
      else Some instructions)"

definition decode_instructions :: "'d iced \<Rightarrow> nat \<Rightarrow> byte list \<Rightarrow> (error + insn list) option" where
  "decode_instructions C addr bytes = do {
     instructions \<leftarrow> decode_loop C (dec_with_ip C bytes addr) [];
     Some (case instructions of
         first # _ \<Rightarrow> if \<not> is_invalid first then Inr instructions else Inl (E_Disassembly addr (take 16 bytes))
       | [] \<Rightarrow> Inl (E_Disassembly addr (take 16 bytes)))
   }"

section \<open>Analysis\<close>

record hook_site =
  hs_bytes :: "byte list"
  hs_insns :: "insn list"
  min_rel_addr :: nat
  max_rel_addr :: nat
  target_addr :: nat
  trampoline_target_addr :: nat
  will_branch :: bool

text \<open>The loop over the decoded instructions: the site, \<open>min_len\<close> and \<open>min_count\<close>.\<close>

definition note_rel :: "nat \<Rightarrow> hook_site \<Rightarrow> hook_site" where
  "note_rel rel_addr site = site\<lparr>min_rel_addr := min (min_rel_addr site) rel_addr,
     max_rel_addr := max (max_rel_addr site) rel_addr\<rparr>"

definition include_insn :: "insn \<Rightarrow> hook_site \<Rightarrow> hook_site" where
  "include_insn i site =
     (let site = site\<lparr>will_branch := is_unconditional_branch i\<rparr>
      in case in_rel i of Some rel_addr \<Rightarrow> note_rel rel_addr site | None \<Rightarrow> site)"

fun analyze_loop :: "insn list \<Rightarrow> hook_site \<Rightarrow> nat \<Rightarrow> nat \<Rightarrow> hook_site \<times> nat \<times> nat" where
  "analyze_loop [] site min_len min_count = (site, min_len, min_count)"
| "analyze_loop (i # is) site min_len min_count =
     (if min_len \<ge> JMP_REL_LEN then (site, min_len, min_count)
      else
        let min_len = min_len + in_len i
        in if will_branch site
           then (case in_code i of
               Int1 \<Rightarrow> analyze_loop is site min_len min_count
             | Int3 \<Rightarrow> analyze_loop is site min_len min_count
             | Ud2 \<Rightarrow> analyze_loop is site min_len min_count
             | _ \<Rightarrow> (site, min_len, min_count))
           else analyze_loop is (include_insn i site) min_len (min_count + 1))"

definition analyze :: "'d iced \<Rightarrow> nat \<Rightarrow> byte list \<Rightarrow> (error + hook_site) option" where
  "analyze C addr bytes = do {
     decoded \<leftarrow> decode_instructions C addr bytes;
     (case decoded of
        Inl e \<Rightarrow> Some (Inl e)
      | Inr insns \<Rightarrow>
          let (site, min_len, min_count) = analyze_loop (takeWhile (\<lambda>i. \<not> is_invalid i) insns)
                \<lparr>hs_bytes = bytes, hs_insns = insns, min_rel_addr = usize_max, max_rel_addr = 0,
                 target_addr = addr, trampoline_target_addr = addr, will_branch = False\<rparr> 0 0
          in if min_len < JMP_REL_LEN then Some (Inl (E_TooShort (target_addr site) (take 16 bytes)))
             else
               let site = site\<lparr>hs_insns := take min_count (hs_insns site)\<rparr>
               in if hs_insns site = [] then None
                  else if will_branch site then Some (Inr site)
                  else
                    let trampoline_target = next_ip (last (hs_insns site));
                        site = note_rel trampoline_target (site\<lparr>trampoline_target_addr := trampoline_target\<rparr>)
                    in do {
                      jmp_back \<leftarrow> with_branch C Jmp_rel32_64 trampoline_target;
                      Some (Inr (site\<lparr>hs_insns := hs_insns site @ [jmp_back]\<rparr>))
                    })
   }"

section \<open>What decoding gives\<close>

text \<open>Instructions that follow each other from an address.\<close>

fun runs_from :: "nat \<Rightarrow> insn list \<Rightarrow> bool" where
  "runs_from a [] \<longleftrightarrow> True"
| "runs_from a (i # is) \<longleftrightarrow> in_ip i = a \<and> 0 < in_len i \<and> in_len i \<le> MAX_INSN_LEN \<and> runs_from (a + in_len i) is"

definition total_len :: "insn list \<Rightarrow> nat" where
  "total_len is = sum_list (map in_len is)"

lemma total_len_simps [simp]:
  "total_len [] = 0" "total_len (i # is) = in_len i + total_len is"
  "total_len (is @ js) = total_len is + total_len js"
  by (simp_all add: total_len_def)

lemma runs_from_append: "runs_from a (is @ js) \<longleftrightarrow> runs_from a is \<and> runs_from (a + total_len is) js"
  by (induction "is" arbitrary: a) (auto simp: add.assoc)

lemma decode_step:
  assumes "decoder_ok C view" and "view d = (ip, pos, bs)" and "pos < length bs"
  shows "can_decode C d" and "in_ip (fst (decode_out C d)) = ip" and "0 < in_len (fst (decode_out C d))"
    and "in_len (fst (decode_out C d)) \<le> MAX_INSN_LEN" and "pos + in_len (fst (decode_out C d)) \<le> length bs"
    and "view (snd (decode_out C d)) = ((ip + in_len (fst (decode_out C d))) mod usize_size,
      pos + in_len (fst (decode_out C d)), bs)"
  using assms unfolding decoder_ok_def by (metis prod.collapse)+

lemma decode_end: "decoder_ok C view \<Longrightarrow> view d = (ip, pos, bs) \<Longrightarrow> pos = length bs \<Longrightarrow> \<not> can_decode C d"
  unfolding decoder_ok_def by blast

lemma decode_loop_total:
  assumes ok: "decoder_ok C view"
  shows "view d = (ip, pos, bs) \<Longrightarrow> pos \<le> length bs \<Longrightarrow> ip + (length bs - pos) < usize_size \<Longrightarrow>
    \<exists>is. decode_loop C d acc = Some (acc @ is) \<and> runs_from ip is \<and> total_len is = length bs - pos"
proof (induction "length bs - pos" arbitrary: d ip pos acc rule: less_induct)
  case less
  show ?case
  proof (cases "pos = length bs")
    case True
    with decode_end [OF ok less.prems(1)] show ?thesis by (subst decode_loop.simps) simp
  next
    case False
    then have lt: "pos < length bs" using less.prems(2) by simp
    let ?i = "fst (decode_out C d)" and ?d = "snd (decode_out C d)"
    note st = decode_step [OF ok less.prems(1) lt]
    have "(ip + in_len ?i) mod usize_size = ip + in_len ?i" using st(3,5) less.prems(3) lt by simp
    with st(6) have v: "view ?d = (ip + in_len ?i, pos + in_len ?i, bs)" by simp
    have "length bs - (pos + in_len ?i) < length bs - pos" using st(3) lt by linarith
    from less.hyps [OF this v st(5), of "acc @ [?i]"] less.prems(3) st(3,5) obtain "is" where
      "decode_loop C ?d (acc @ [?i]) = Some ((acc @ [?i]) @ is)" "runs_from (ip + in_len ?i) is"
      "total_len is = length bs - (pos + in_len ?i)" by fastforce
    moreover from this(1) have "decode_loop C d acc = Some (acc @ (?i # is))"
      using st(1) by (subst decode_loop.simps) simp
    ultimately show ?thesis using st(2-5) by (intro exI [of _ "?i # is"]) simp
  qed
qed

lemma decode_instructions_cases:
  assumes "decoder_ok C view" and "bytes \<noteq> []" and "addr + length bytes < usize_size"
  obtains "is" where "runs_from addr is" "total_len is = length bytes" "is \<noteq> []"
    "decode_instructions C addr bytes = Some (if is_invalid (hd is) then Inl (E_Disassembly addr (take 16 bytes)) else Inr is)"
proof -
  have v: "view (dec_with_ip C bytes addr) = (addr, 0, bytes)" using assms(1) by (simp add: decoder_ok_def)
  from decode_loop_total [OF assms(1) v, of "[]"] assms(3) obtain "is" where
    "is": "decode_loop C (dec_with_ip C bytes addr) [] = Some is" "runs_from addr is" "total_len is = length bytes" by auto
  then have ne: "is \<noteq> []" using assms(2) by auto
  show thesis
    by (rule that [OF "is"(2,3) ne]) (use "is"(1) ne in \<open>auto simp: decode_instructions_def neq_Nil_conv\<close>)
qed

section \<open>What the analysis gives\<close>

definition is_padding :: "insn \<Rightarrow> bool" where
  "is_padding i \<longleftrightarrow> in_code i \<in> {Int1, Int3, Ud2}"

definition rel_within :: "hook_site \<Rightarrow> insn \<Rightarrow> bool" where
  "rel_within site i \<longleftrightarrow> (case in_rel i of Some a \<Rightarrow> min_rel_addr site \<le> a \<and> a \<le> max_rel_addr site | None \<Rightarrow> True)"

text \<open>The parts of the site the loop leaves alone, and the range of relative addresses, which only grows.\<close>

definition site_grows :: "hook_site \<Rightarrow> hook_site \<Rightarrow> bool" where
  "site_grows site site' \<longleftrightarrow> hs_bytes site' = hs_bytes site \<and> hs_insns site' = hs_insns site
     \<and> target_addr site' = target_addr site \<and> trampoline_target_addr site' = trampoline_target_addr site
     \<and> min_rel_addr site' \<le> min_rel_addr site \<and> max_rel_addr site \<le> max_rel_addr site'"

lemma site_grows_refl [simp]: "site_grows site site"
  by (simp add: site_grows_def)

lemma site_grows_trans: "site_grows a b \<Longrightarrow> site_grows b c \<Longrightarrow> site_grows a c"
  by (simp add: site_grows_def)

lemma rel_within_insns [simp]: "rel_within (site\<lparr>hs_insns := is\<rparr>) i = rel_within site i"
  by (cases "in_rel i") (simp_all add: rel_within_def)

lemma rel_within_grows: "rel_within site i \<Longrightarrow> site_grows site site' \<Longrightarrow> rel_within site' i"
  by (auto simp: rel_within_def site_grows_def split: option.splits)

lemma include_insn_props:
  "site_grows site (include_insn i site)" "rel_within (include_insn i site) i"
  "will_branch (include_insn i site) = is_unconditional_branch i"
  by (auto simp: include_insn_def note_rel_def site_grows_def rel_within_def Let_def split: option.splits)

lemma analyze_padding:
  assumes "analyze_loop is site n c = (site', n', c')" "will_branch site"
  shows "site' = site \<and> c' = c \<and> (\<exists>pad extra tl. is = pad @ extra @ tl \<and> n' = n + total_len (pad @ extra)
    \<and> (\<forall>i \<in> set pad. is_padding i) \<and> length extra \<le> 1)"
  using assms
proof (induction "is" arbitrary: n)
  case Nil
  then show ?case by simp
next
  case (Cons i "is")
  show ?case
  proof (cases "n \<ge> JMP_REL_LEN \<or> \<not> is_padding i")
    case True
    with Cons.prems consider "site' = site" "c' = c" "n' = n" | "site' = site" "c' = c" "n' = n + in_len i"
      by (cases "n \<ge> JMP_REL_LEN") (auto simp: is_padding_def Let_def split: code.splits)
    then show ?thesis
    proof cases
      case 1
      then show ?thesis by (intro conjI exI [of _ "[]"] exI [of _ "i # is"]) simp_all
    next
      case 2
      then show ?thesis by (intro conjI exI [of _ "[]"] exI [of _ "[i]"] exI [of _ "is"]) simp_all
    qed
  next
    case False
    then have run: "analyze_loop is site (n + in_len i) c = (site', n', c')" and pad: "is_padding i"
      using Cons.prems by (auto simp: is_padding_def split: code.splits)
    from Cons.IH [OF run Cons.prems(2)] obtain pad extra tl where "site' = site" "c' = c" "is = pad @ extra @ tl"
      "n' = n + in_len i + total_len (pad @ extra)" "\<forall>i \<in> set pad. is_padding i" "length extra \<le> 1" by blast
    with pad show ?thesis by (intro conjI exI [of _ "i # pad"] exI [of _ extra] exI [of _ tl]) auto
  qed
qed

text \<open>
  What an analysis leaves: the instructions to move, of which only the last may be an unconditional
  branch, and after such a branch some padding and at most one instruction more.
\<close>

definition analyzed :: "insn list \<Rightarrow> nat \<Rightarrow> insn list \<Rightarrow> hook_site \<Rightarrow> nat \<Rightarrow> bool" where
  "analyzed is n orig site' n' \<longleftrightarrow> (\<exists>pad extra tl. is = orig @ pad @ extra @ tl
     \<and> n' = n + total_len (orig @ pad @ extra) \<and> (\<forall>i \<in> set pad. is_padding i) \<and> length extra \<le> 1
     \<and> (will_branch site' \<longleftrightarrow> orig \<noteq> [] \<and> is_unconditional_branch (last orig))
     \<and> (\<forall>i \<in> set (butlast orig). \<not> is_unconditional_branch i) \<and> (\<forall>i \<in> set orig. rel_within site' i)
     \<and> (orig \<noteq> [] \<longrightarrow> n + total_len (butlast orig) < JMP_REL_LEN)
     \<and> (\<not> will_branch site' \<longrightarrow> pad = [] \<and> extra = []))"

lemma analyze_loop_spec:
  assumes "analyze_loop is site n c = (site', n', c')" "\<not> will_branch site"
  shows "site_grows site site' \<and> (\<exists>orig. c' = c + length orig \<and> analyzed is n orig site' n')"
  using assms
proof (induction "is" arbitrary: site n c)
  case Nil
  then show ?case by (auto simp: analyzed_def intro!: exI [of _ "[]"])
next
  case (Cons i "is")
  show ?case
  proof (cases "n \<ge> JMP_REL_LEN")
    case True
    with Cons.prems show ?thesis by (auto simp: analyzed_def intro!: exI [of _ "[]"])
  next
    case False
    let ?s = "include_insn i site"
    have run: "analyze_loop is ?s (n + in_len i) (c + 1) = (site', n', c')" using Cons.prems False by simp
    show ?thesis
    proof (cases "is_unconditional_branch i")
      case True
      then have wb: "will_branch ?s" by (simp add: include_insn_props)
      from analyze_padding [OF run wb] obtain pad extra tl where s: "site' = ?s" "c' = c + 1"
        and p: "is = pad @ extra @ tl" "n' = n + in_len i + total_len (pad @ extra)"
          "\<forall>i \<in> set pad. is_padding i" "length extra \<le> 1" by blast
      have "analyzed (i # is) n [i] site' n'"
        unfolding analyzed_def
        by (intro exI [of _ pad] exI [of _ extra] exI [of _ tl]) (use s p True False in \<open>simp add: include_insn_props\<close>)
      with s show ?thesis by (auto simp: include_insn_props intro!: exI [of _ "[i]"])
    next
      case nb: False
      then have "\<not> will_branch ?s" by (simp add: include_insn_props)
      from Cons.IH [OF run this] obtain orig where g: "site_grows ?s site'" and c: "c' = c + 1 + length orig"
        and a: "analyzed is (n + in_len i) orig site' n'" by blast
      from a obtain pad extra tl where p: "is = orig @ pad @ extra @ tl" "n' = n + in_len i + total_len (orig @ pad @ extra)"
          "\<forall>i \<in> set pad. is_padding i" "length extra \<le> 1"
        and w: "will_branch site' \<longleftrightarrow> orig \<noteq> [] \<and> is_unconditional_branch (last orig)"
          "\<forall>i \<in> set (butlast orig). \<not> is_unconditional_branch i" "\<forall>i \<in> set orig. rel_within site' i"
          "orig \<noteq> [] \<longrightarrow> n + in_len i + total_len (butlast orig) < JMP_REL_LEN"
          "\<not> will_branch site' \<longrightarrow> pad = [] \<and> extra = []" unfolding analyzed_def by blast
      have "analyzed (i # is) n (i # orig) site' n'"
        unfolding analyzed_def
        by (intro exI [of _ pad] exI [of _ extra] exI [of _ tl])
          (use p w nb False rel_within_grows [OF include_insn_props(2) g] in \<open>auto simp: add.assoc\<close>)
      moreover have "site_grows site site'" using site_grows_trans [OF include_insn_props(1) g] .
      ultimately show ?thesis using c by (auto intro!: exI [of _ "i # orig"])
    qed
  qed
qed

lemma takeWhile_split: "takeWhile P xs = as \<Longrightarrow> \<exists>rest. xs = as @ rest \<and> (\<forall>x \<in> set as. P x)"
  by (metis set_takeWhileD takeWhile_dropWhile_id)

text \<open>The site before the jump back is appended.\<close>

definition orig_site :: "nat \<Rightarrow> byte list \<Rightarrow> insn list \<Rightarrow> insn list \<Rightarrow> hook_site \<Rightarrow> bool" where
  "orig_site addr bytes is orig site \<longleftrightarrow> hs_bytes site = bytes \<and> target_addr site = addr
     \<and> trampoline_target_addr site = addr \<and> hs_insns site = orig \<and> orig \<noteq> []
     \<and> (\<exists>n \<ge> JMP_REL_LEN. \<exists>rest. analyzed is 0 orig site n \<and> runs_from addr (is @ rest)
          \<and> total_len (is @ rest) = length bytes \<and> (\<forall>i \<in> set is. \<not> is_invalid i))"

text \<open>The site with the jump back.\<close>

definition with_jmp_back :: "hook_site \<Rightarrow> nat \<Rightarrow> insn \<Rightarrow> hook_site" where
  "with_jmp_back site t jmp_back =
     (let site = note_rel t (site\<lparr>trampoline_target_addr := t\<rparr>) in site\<lparr>hs_insns := hs_insns site @ [jmp_back]\<rparr>)"

lemma analyze_cases:
  assumes ok: "decoder_ok C view" and len: "length bytes = DISASM_LEN" and room: "addr + DISASM_LEN < usize_size"
  obtains (Error) e where "analyze C addr bytes = Some (Inl e)"
  | (Branch) "is" orig site where "orig_site addr bytes is orig site" "will_branch site" "analyze C addr bytes = Some (Inr site)"
  | (Falls) "is" orig site where "orig_site addr bytes is orig site" "\<not> will_branch site"
      "analyze C addr bytes = map_option (\<lambda>j. Inr (with_jmp_back site (addr + total_len orig) j))
        (with_branch C Jmp_rel32_64 (addr + total_len orig))"
proof -
  have "bytes \<noteq> []" using len by (auto simp: DISASM_LEN_def JMP_REL_LEN_def MAX_INSN_LEN_def)
  from decode_instructions_cases [OF ok this, of addr] len room obtain all where
    all: "runs_from addr all" "total_len all = length bytes" "all \<noteq> []"
    and dec: "decode_instructions C addr bytes
      = Some (if is_invalid (hd all) then Inl (E_Disassembly addr (take 16 bytes)) else Inr all)" by auto
  show thesis
  proof (cases "is_invalid (hd all)")
    case True
    with dec Error show thesis by (simp add: analyze_def)
  next
    case False
    let ?init = "\<lparr>hs_bytes = bytes, hs_insns = all, min_rel_addr = usize_max, max_rel_addr = 0,
      target_addr = addr, trampoline_target_addr = addr, will_branch = False\<rparr>"
    obtain is0 rest where is0: "takeWhile (\<lambda>i. \<not> is_invalid i) all = is0"
      and rest: "all = is0 @ rest" "\<forall>i \<in> set is0. \<not> is_invalid i" using takeWhile_split by metis
    obtain site n c where loop: "analyze_loop is0 ?init 0 0 = (site, n, c)" by (metis prod_cases3)
    from analyze_loop_spec [OF loop] obtain orig where g: "site_grows ?init site" "c = length orig"
      and a: "analyzed is0 0 orig site n" by auto
    show thesis
    proof (cases "n < JMP_REL_LEN")
      case True
      with dec False loop is0 Error show thesis by (simp add: analyze_def)
    next
      case long: False
      obtain pad extra tl where p: "is0 = orig @ pad @ extra @ tl" "n = total_len (orig @ pad @ extra)"
          "will_branch site \<longleftrightarrow> orig \<noteq> [] \<and> is_unconditional_branch (last orig)"
          "\<not> will_branch site \<longrightarrow> pad = [] \<and> extra = []"
        using a unfolding analyzed_def by auto
      then have ne: "orig \<noteq> []" using long by (auto simp: JMP_REL_LEN_def)
      have all_eq: "all = orig @ pad @ extra @ tl @ rest" using rest(1) p(1) by simp
      then have take: "take c all = orig" using g(2) by simp
      define s2 where "s2 = site\<lparr>hs_insns := orig\<rparr>"
      have "analyzed is0 0 orig s2 n" using a by (simp add: analyzed_def s2_def)
      then have os: "orig_site addr bytes is0 orig s2"
        unfolding orig_site_def using g(1) ne long rest(2) all(1,2) rest(1)
        by (intro conjI exI [of _ n] exI [of _ rest]) (simp_all add: s2_def site_grows_def)
      have run: "analyze C addr bytes = (if will_branch s2 then Some (Inr s2) else
          map_option (\<lambda>j. Inr (with_jmp_back s2 (next_ip (last orig)) j)) (with_branch C Jmp_rel32_64 (next_ip (last orig))))"
        using dec False loop is0 long ne take g all(3)
        by (simp add: comp_def analyze_def s2_def Let_def with_jmp_back_def note_rel_def site_grows_def map_conv_bind_option)
      show thesis
      proof (cases "will_branch s2")
        case True
        with run os Branch show thesis by simp
      next
        case nb: False
        have "runs_from addr (butlast orig @ [last orig])" using all(1) all_eq ne by (simp add: runs_from_append)
        then have ip: "in_ip (last orig) = addr + total_len (butlast orig)" by (simp add: runs_from_append)
        have "total_len orig = total_len (butlast orig @ [last orig])" using ne by simp
        then have tot: "total_len orig = total_len (butlast orig) + in_len (last orig)" by (simp only: total_len_simps)
        have "total_len orig \<le> length bytes" using all(2) all_eq by simp
        then have "next_ip (last orig) = addr + total_len orig"
          using ip tot room len by (simp add: next_ip_def add.assoc)
        with run os nb Falls show thesis by simp
      qed
    qed
  qed
qed

section \<open>Properties\<close>

text \<open>
  C24. Analysis is total: the decoding loop ends, and no branch of the analysis panics, as long as
  the library can make the jump back; the answer is an error or a site.
\<close>

theorem analyze_total:
  assumes "decoder_ok C view" "length bytes = DISASM_LEN" "addr + DISASM_LEN < usize_size"
    and "\<And>t. with_branch C Jmp_rel32_64 t \<noteq> None"
  shows "\<exists>r. analyze C addr bytes = Some r"
proof (cases rule: analyze_cases [OF assms(1-3), case_names Error Branch Falls])
  case (Falls "is" orig site)
  with assms(4) [of "addr + total_len orig"] show ?thesis by auto
qed simp_all

text \<open>
  C10. The instructions a site keeps are the ones the function starts with: they follow each other from
  the target without a gap, are valid, and only the last may be an unconditional branch. All of them
  start inside the five bytes the jump replaces, every address they refer to lies in the recorded range,
  and without a final branch they cover the five bytes and end with a jump to the instruction after them.
\<close>

theorem analyze_sound:
  assumes "decoder_ok C view" "length bytes = DISASM_LEN" "addr + DISASM_LEN < usize_size"
    and "analyze C addr bytes = Some (Inr site)"
  shows "\<exists>orig back. hs_insns site = orig @ back \<and> orig \<noteq> [] \<and> runs_from addr orig \<and> hs_bytes site = bytes
    \<and> target_addr site = addr \<and> (\<forall>i \<in> set orig. \<not> is_invalid i \<and> rel_within site i)
    \<and> (\<forall>i \<in> set (butlast orig). \<not> is_unconditional_branch i) \<and> total_len (butlast orig) < JMP_REL_LEN
    \<and> (if will_branch site then back = [] \<and> is_unconditional_branch (last orig)
       else JMP_REL_LEN \<le> total_len orig \<and> trampoline_target_addr site = addr + total_len orig
         \<and> min_rel_addr site \<le> addr + total_len orig \<and> addr + total_len orig \<le> max_rel_addr site
         \<and> (\<exists>j. with_branch C Jmp_rel32_64 (addr + total_len orig) = Some j \<and> back = [j]))"
proof (cases rule: analyze_cases [OF assms(1-3), case_names Error Branch Falls])
  case (Error e)
  with assms(4) show ?thesis by simp
next
  case (Branch "is" orig site')
  then show ?thesis using assms(4)
    by (intro exI [of _ orig] exI [of _ "[]"]) (auto simp: orig_site_def analyzed_def runs_from_append)
next
  case (Falls "is" orig site')
  then obtain j where j: "with_branch C Jmp_rel32_64 (addr + total_len orig) = Some j"
    "site = with_jmp_back site' (addr + total_len orig) j" using assms(4) by (auto simp: map_option_case split: option.splits)
  have "rel_within site i" if "rel_within site' i" for i
    using that j(2) by (auto simp: rel_within_def with_jmp_back_def note_rel_def Let_def split: option.splits)
  with Falls(1,2) j show ?thesis
    by (intro exI [of _ orig] exI [of _ "[j]"])
      (auto simp: orig_site_def analyzed_def runs_from_append with_jmp_back_def note_rel_def Let_def)
qed

text \<open>
  A defect: an instruction after the end of a function counts towards the five bytes before it is
  seen to be no padding. A function that is a one-byte return, followed without padding by another
  function that starts with an instruction of four bytes or more, is accepted, although the jump
  overwrites the start of the other function.
\<close>

theorem analyze_overruns:
  assumes "decode_instructions C addr bytes = Some (Inr (ret # other # rest))"
    and "in_len ret = 1" "is_unconditional_branch ret" "\<not> is_invalid ret"
    and "JMP_REL_LEN \<le> 1 + in_len other" "\<not> is_invalid other" "\<not> is_padding other"
  shows "\<exists>site. analyze C addr bytes = Some (Inr site) \<and> hs_insns site = [ret] \<and> will_branch site"
proof -
  let ?init = "\<lparr>hs_bytes = bytes, hs_insns = ret # other # rest, min_rel_addr = usize_max, max_rel_addr = 0,
      target_addr = addr, trampoline_target_addr = addr, will_branch = False\<rparr>"
  let ?s = "include_insn ret ?init"
  have wb: "will_branch ?s" using assms(3) by (simp add: include_insn_props)
  have "analyze_loop (ret # other # is) ?init 0 0 = (?s, 1 + in_len other, 1)" for "is"
    using assms(2,7) wb by (auto simp: is_padding_def JMP_REL_LEN_def Let_def split: code.splits)
  moreover have "hs_insns ?s = ret # other # rest" using include_insn_props(1) [of ?init ret] by (simp add: site_grows_def)
  ultimately show ?thesis using assms wb by (simp add: analyze_def)
qed

section \<open>A small disassembler\<close>

text \<open>
  An instance of the library for a handful of encodings, for the examples: \<open>ret\<close>, \<open>int3\<close>, a
  four-byte instruction with a \<open>REX.W\<close> prefix, a seven-byte \<open>rip\<close>-relative one, \<open>call rel32\<close>, and
  one byte for anything else.
\<close>

definition example_insn :: "nat \<Rightarrow> byte list \<Rightarrow> insn" where
  "example_insn ip bs =
     (let b = hd bs;
          make = (\<lambda>len code flow rel. if len \<le> length bs
            then \<lparr>in_ip = ip, in_len = len, in_code = code, in_flow = flow, in_rel = rel\<rparr>
            else \<lparr>in_ip = ip, in_len = length bs, in_code = INVALID, in_flow = Exception, in_rel = None\<rparr>)
      in if b = 0xc3 then make 1 (Other_code 0) Return None
      else if b = 0xcc then make 1 Int3 Interrupt None
      else if b = 0x48 then make 4 (Other_code 1) Next None
      else if b = 0x4c then make 7 (Other_code 2) Next (Some (ip + 7 + nat (from_le (take 4 (drop 3 bs)))))
      else if b = 0xe8 then make 5 (Other_code 3) Call None
      else make 1 (Other_code 4) Next None)"

definition example_iced :: "(nat \<times> nat \<times> byte list) iced" where
  "example_iced = \<lparr>
     dec_with_ip = \<lambda>bs ip. (ip, 0, bs),
     dec_new = \<lambda>bs. (0, 0, bs),
     can_decode = \<lambda>(ip, pos, bs). pos < length bs,
     decode_out = \<lambda>(ip, pos, bs). (let i = example_insn ip (drop pos bs)
       in (i, (ip + in_len i) mod usize_size, pos + in_len i, bs)),
     set_position = \<lambda>(ip, pos, bs) n. if n \<le> length bs then Some (ip, n, bs) else None,
     with_branch = \<lambda>c t. Some \<lparr>in_ip = 0, in_len = 0, in_code = c, in_flow = UnconditionalBranch, in_rel = None\<rparr>,
     block_encode = \<lambda>is ip. Inr \<lparr>enc_rip = ip, enc_code = replicate (5 * length is) 0x90,
       enc_offsets = map (\<lambda>i. if in_flow (is ! i) = Call then 4294967295 else 5 * i) [0..<length is]\<rparr>\<rparr>"

lemma example_insn_props:
  assumes "bs \<noteq> []"
  shows "in_ip (example_insn ip bs) = ip \<and> 0 < in_len (example_insn ip bs)
    \<and> in_len (example_insn ip bs) \<le> MAX_INSN_LEN \<and> in_len (example_insn ip bs) \<le> length bs"
proof -
  have "Suc 0 \<le> length bs" using assms by (cases bs) simp_all
  with assms show ?thesis by (auto simp: example_insn_def Let_def MAX_INSN_LEN_def)
qed

lemma example_iced_ok: "decoder_ok example_iced id"
proof -
  have "in_ip (example_insn ip (drop pos bs)) = ip \<and> 0 < in_len (example_insn ip (drop pos bs))
      \<and> in_len (example_insn ip (drop pos bs)) \<le> MAX_INSN_LEN \<and> pos + in_len (example_insn ip (drop pos bs)) \<le> length bs"
    if "pos < length bs" for ip pos and bs :: "byte list"
    using example_insn_props [of "drop pos bs" ip] that by auto
  then show ?thesis by (auto simp: decoder_ok_def example_iced_def Let_def)
qed

lemma example_decode_loop:
  "decode_loop example_iced (ip, pos, bs) acc =
     (if pos < length bs
      then let i = example_insn ip (drop pos bs)
           in decode_loop example_iced ((ip + in_len i) mod usize_size, pos + in_len i, bs) (acc @ [i])
      else Some acc)"
  by (subst decode_loop.simps) (simp add: example_iced_def Let_def)

lemma example_iced_sel [simp]:
  "dec_with_ip example_iced bs ip = (ip, 0, bs)" "dec_new example_iced bs = (0, 0, bs)"
  "with_branch example_iced c t
    = Some \<lparr>in_ip = 0, in_len = 0, in_code = c, in_flow = UnconditionalBranch, in_rel = None\<rparr>"
  by (simp_all add: example_iced_def)

text \<open>A push and a \<open>rip\<close>-relative access; and a return followed by another function.\<close>

definition example_function :: "byte list" where
  "example_function = [0x55, 0x4c, 0x8b, 0x05, 0, 1, 0, 0, 0xc3, 0xcc, 0xcc, 0xcc, 0xcc, 0xcc, 0xcc, 0xcc, 0xcc, 0xcc, 0xcc]"

definition example_short :: "byte list" where
  "example_short = [0xc3, 0x48, 0x83, 0xec, 0x28, 0xc3, 0xcc, 0xcc, 0xcc, 0xcc, 0xcc, 0xcc, 0xcc, 0xcc, 0xcc, 0xcc, 0xcc, 0xcc, 0xcc]"

definition push_insn :: insn where
  "push_insn = \<lparr>in_ip = 4096, in_len = 1, in_code = Other_code 4, in_flow = Next, in_rel = None\<rparr>"
definition rel_insn :: insn where
  "rel_insn = \<lparr>in_ip = 4097, in_len = 7, in_code = Other_code 2, in_flow = Next, in_rel = Some 4360\<rparr>"
definition ret_insn :: insn where
  "ret_insn = \<lparr>in_ip = 4096, in_len = 1, in_code = Other_code 0, in_flow = Return, in_rel = None\<rparr>"
definition sub_insn :: insn where
  "sub_insn = \<lparr>in_ip = 4097, in_len = 4, in_code = Other_code 1, in_flow = Next, in_rel = None\<rparr>"
definition back_insn :: insn where
  "back_insn = \<lparr>in_ip = 0, in_len = 0, in_code = Jmp_rel32_64, in_flow = UnconditionalBranch, in_rel = None\<rparr>"

lemmas example_insns = push_insn_def rel_insn_def ret_insn_def sub_insn_def back_insn_def

lemma example_function_decoded:
  "\<exists>rest. decode_instructions example_iced 4096 example_function = Some (Inr (push_insn # rel_insn # rest))"
  by (simp add: decode_instructions_def example_function_def example_decode_loop example_insn_def usize_size_def
      is_invalid_def example_insns)

lemma example_short_decoded:
  "\<exists>rest. decode_instructions example_iced 4096 example_short = Some (Inr (ret_insn # sub_insn # rest))"
  by (simp add: decode_instructions_def example_short_def example_decode_loop example_insn_def usize_size_def
      is_invalid_def example_insns)

definition example_site :: hook_site where
  "example_site = \<lparr>hs_bytes = example_function, hs_insns = [push_insn, rel_insn, back_insn], min_rel_addr = 4104,
     max_rel_addr = 4360, target_addr = 4096, trampoline_target_addr = 4104, will_branch = False\<rparr>"

lemma example_analyze: "analyze example_iced 4096 example_function = Some (Inr example_site)"
proof -
  obtain rest where rest: "decode_instructions example_iced 4096 example_function = Some (Inr (push_insn # rel_insn # rest))"
    using example_function_decoded by blast
  have stop: "analyze_loop is s 8 c = (s, 8, c)" for "is" s c by (cases "is") (simp_all add: JMP_REL_LEN_def)
  show ?thesis
    by (simp add: analyze_def rest stop is_invalid_def example_insns JMP_REL_LEN_def include_insn_def note_rel_def
        is_unconditional_branch_def next_ip_def usize_defs example_site_def Let_def)
qed

lemma example_lengths: "length example_function = DISASM_LEN" "length example_short = DISASM_LEN" "4096 + DISASM_LEN < usize_size"
  by (simp_all add: example_function_def example_short_def DISASM_LEN_def JMP_REL_LEN_def MAX_INSN_LEN_def usize_defs)

theorem analyze_total_witness: "\<exists>r. analyze example_iced 4096 example_short = Some r"
  by (rule analyze_total [OF example_iced_ok example_lengths(2,3)]) simp

theorem analyze_sound_witness: "\<exists>orig. orig \<noteq> [] \<and> runs_from 4096 orig \<and> total_len (butlast orig) < JMP_REL_LEN"
  using analyze_sound [OF example_iced_ok example_lengths(1,3) example_analyze] by blast

theorem analyze_overruns_witness:
  "\<exists>site. analyze example_iced 4096 example_short = Some (Inr site) \<and> hs_insns site = [ret_insn]"
proof -
  obtain rest where rest: "decode_instructions example_iced 4096 example_short = Some (Inr (ret_insn # sub_insn # rest))"
    using example_short_decoded by blast
  have "in_len ret_insn = 1" "is_unconditional_branch ret_insn" "\<not> is_invalid ret_insn"
    "JMP_REL_LEN \<le> 1 + in_len sub_insn" "\<not> is_invalid sub_insn" "\<not> is_padding sub_insn"
    by (simp_all add: example_insns is_unconditional_branch_def is_invalid_def is_padding_def JMP_REL_LEN_def)
  from analyze_overruns [OF rest this] show ?thesis by blast
qed

end
