(* ===== verification/Trampoline.thy ===== *)
theory Trampoline
  imports Hook_Site
begin

text \<open>
  The trampoline (\<open>HookSite::relocate\<close> and \<open>HookSite::encode_at\<close> in
  \<open>installer/arch/x86_64/hook_site.rs\<close>): the instructions of a hook site, encoded anew in a block
  near the addresses they refer to, and the map of instruction pointers from the old to the new place.
\<close>

section \<open>The trampoline\<close>

record ip_reloc =
  rl_from :: nat
  rl_to :: nat

record trampoline =
  tr_ptr :: nat
  tr_len :: nat
  tr_relocs :: "ip_reloc list"

definition RELOC_BUF_LEN :: nat where "RELOC_BUF_LEN = 1024"
definition RELOC_BUF :: layout where "RELOC_BUF = \<lparr>layout_size = RELOC_BUF_LEN, layout_align = 1\<rparr>"
definition U32_MAX :: nat where "U32_MAX = 4294967295"

text \<open>The relocation of every instruction after the first; \<open>i\<close> counts the instructions.\<close>

fun reloc_loop :: "'d iced \<Rightarrow> encoded \<Rightarrow> insn list \<Rightarrow> nat list \<Rightarrow> nat list \<Rightarrow> 'd \<Rightarrow> nat \<Rightarrow> ip_reloc list
    \<Rightarrow> ip_reloc list option" where
  "reloc_loop C enc insns offsets [] decoder last_ip relocs = Some relocs"
| "reloc_loop C enc insns offsets (i # is) decoder last_ip relocs =
     (let offset = offsets ! (i - 1)
      in if offset = U32_MAX
         then
           let prev_offset = (if i = 1 then 0 else offsets ! (i - 2))
           in if prev_offset \<noteq> U32_MAX
              then do {
                decoder \<leftarrow> set_position C decoder prev_offset;
                let (instruction, decoder) = decode_out C decoder;
                let last_ip = next_ip instruction;
                reloc_loop C enc insns offsets is decoder last_ip
                  (relocs @ [\<lparr>rl_from = in_ip (insns ! i), rl_to = last_ip\<rparr>])
              }
              else reloc_loop C enc insns offsets is decoder last_ip
                     (relocs @ [\<lparr>rl_from = in_ip (insns ! i), rl_to = last_ip\<rparr>])
         else reloc_loop C enc insns offsets is decoder last_ip
                (relocs @ [\<lparr>rl_from = in_ip (insns ! i), rl_to = enc_rip enc + offset\<rparr>]))"

text \<open>A slice of a vector: a panic if it does not reach so far.\<close>

definition slice_range :: "'a list \<Rightarrow> nat \<Rightarrow> nat \<Rightarrow> 'a list option" where
  "slice_range xs from to = (if from \<le> to \<and> to \<le> length xs then Some (drop from (take to xs)) else None)"

definition encode_at :: "'d iced \<Rightarrow> hook_site \<Rightarrow> nat \<Rightarrow> (error + byte list \<times> ip_reloc list) option" where
  "encode_at C site ip =
     (case block_encode C (hs_insns site) ip of
        Inl err \<Rightarrow> Some (Inl (E_Encode (target_addr site) err))
      | Inr enc \<Rightarrow> do {
          insns \<leftarrow> (if will_branch site then Some (hs_insns site)
                   else if hs_insns site = [] then None else Some (butlast (hs_insns site)));
          offsets \<leftarrow> slice_range (enc_offsets enc) 1 (max (length insns) 1);
          relocs \<leftarrow> reloc_loop C enc insns offsets [1..<min (length insns) (length offsets + 1)]
            (dec_new C (enc_code enc)) (enc_rip enc) [];
          Some (Inr (enc_code enc, relocs))
        })"

definition isize_checked :: "int \<Rightarrow> int option" where
  "isize_checked x = (if isize_min \<le> x \<and> x \<le> isize_max then Some x else None)"

text \<open>The address and the bounds to allocate near.\<close>

definition reloc_place :: "hook_site \<Rightarrow> (nat \<times> bound \<times> bound) option" where
  "reloc_place site =
     (if min_rel_addr site \<le> max_rel_addr site then do {
        let delta = max_rel_addr site - min_rel_addr site;
        let mid = midpoint (min_rel_addr site) (max_rel_addr site);
        let max_offset = as_isize (div_ceil delta 2 + RELOC_BUF_LEN);
        mn \<leftarrow> isize_checked (i32_min + max_offset);
        mx \<leftarrow> isize_checked (i32_max - max_offset);
        Some (mid, Excluded mn, Excluded mx)
      } else Some (target_addr site, Unbounded, Unbounded))"

definition relocate :: "'d iced \<Rightarrow> 'k platform \<Rightarrow> hook_site \<Rightarrow> (range_alloc \<times> 'k) \<times> memory
    \<Rightarrow> ((error + trampoline) \<times> (range_alloc \<times> 'k) \<times> memory) option" where
  "relocate C P site = (\<lambda>(al, m). do {
     (mid, mn, mx) \<leftarrow> reloc_place site;
     (buf, al) \<leftarrow> os_alloc_near P RELOC_BUF mid mn mx al;
     (case buf of
        Inl e \<Rightarrow> Some (Inl e, al, m)
      | Inr None \<Rightarrow> Some (Inl (oom (target_addr site)), al, m)
      | Inr (Some reloc_buf) \<Rightarrow> do {
          encoded \<leftarrow> encode_at C site reloc_buf;
          (case encoded of
             Inl e \<Rightarrow> do { al \<leftarrow> os_reclaim reloc_buf RELOC_BUF_LEN al; Some (Inl e, al, m) }
           | Inr (bytes, relocs) \<Rightarrow>
               if length bytes > RELOC_BUF_LEN then do {
                 al \<leftarrow> os_reclaim reloc_buf RELOC_BUF_LEN al;
                 Some (Inl (E_EncodeSize (target_addr site) (length bytes)), al, m)
               } else do {
                 al \<leftarrow> os_reclaim (reloc_buf + length bytes) (RELOC_BUF_LEN - length bytes) al;
                 Some (Inr \<lparr>tr_ptr = reloc_buf, tr_len = length bytes, tr_relocs = relocs\<rparr>, al,
                   write_bytes reloc_buf bytes m)
               })
        })
   })"

section \<open>The place of the trampoline\<close>

lemma RELOC_BUF_ok [simp]: "layout_ok RELOC_BUF" "0 < RELOC_BUF_LEN" "layout_size RELOC_BUF = RELOC_BUF_LEN"
  by (auto simp: layout_ok_def RELOC_BUF_def RELOC_BUF_LEN_def intro: exI [of _ 0])

text \<open>Every address of the range is half the width of the range from its midpoint, rounded up.\<close>

lemma midpoint_near:
  assumes "lo \<le> a" "a \<le> hi"
  shows "\<bar>int a - int (midpoint lo hi)\<bar> \<le> int (div_ceil (hi - lo) 2)"
  using assms by (auto simp: midpoint_def div_ceil_def abs_le_iff)

lemma reloc_place_reaches:
  assumes place: "reloc_place site = Some (mid, mn, mx)" and top: "max_rel_addr site \<le> va_max"
    and a: "min_rel_addr site \<le> a" "a \<le> max_rel_addr site"
    and p: "offset_ok mn mx mid p" and q: "p \<le> q" "q \<le> p + RELOC_BUF_LEN"
  shows "i32_min \<le> int a - int q \<and> int a - int q \<le> i32_max"
proof -
  let ?half = "div_ceil (max_rel_addr site - min_rel_addr site) 2"
  have le: "min_rel_addr site \<le> max_rel_addr site" using a by simp
  have "?half \<le> 4611686018427387904"
    using top by (auto simp: div_ceil_def va_max_def)
  then have signed: "as_isize (?half + RELOC_BUF_LEN) = int (?half + RELOC_BUF_LEN)"
    by (simp add: as_isize_def RELOC_BUF_LEN_def usize_defs)
  from place le have bounds: "mid = midpoint (min_rel_addr site) (max_rel_addr site)"
      "mn = Excluded (i32_min + int (?half + RELOC_BUF_LEN))" "mx = Excluded (i32_max - int (?half + RELOC_BUF_LEN))"
    by (auto simp: reloc_place_def signed isize_checked_def bind_eq_Some_conv Let_def split: if_splits)
  have "\<bar>int a - int mid\<bar> \<le> int ?half" unfolding bounds(1) by (rule midpoint_near [OF a])
  then show ?thesis
    using p q by (simp add: bounds(2,3) offset_ok_def usize_defs abs_le_iff)
qed

text \<open>What relocating leaves: the block of the trampoline, or everything as it was.\<close>

definition block_of :: "nat \<Rightarrow> byte list \<Rightarrow> (nat \<times> nat) list" where
  "block_of p bytes = (if bytes = [] then [] else [(p, p + length bytes)])"

text \<open>What becomes of the bytes of the buffer.\<close>

lemma buffer_back:
  assumes own: "os_owned P M al live" and alloc: "os_alloc_near P RELOC_BUF mid mn mx al = Some (Inr (Some p), al1)"
    and rec: "os_reclaim p RELOC_BUF_LEN al1 = Some al2"
  shows "os_owned P M al2 live \<and> spends M 1 (os_avail al2) al live al2 live"
proof -
  have own1: "os_owned P M al1 ([] @ (p, p + RELOC_BUF_LEN) # live)" using os.alloc_some [OF own _ _ alloc] by simp
  have big: "\<not> RELOC_BUF_LEN < MIN_RANGE_LEN" by (simp add: RELOC_BUF_LEN_def MIN_RANGE_LEN_def)
  obtain q where q: "p < q + MIN_RANGE_LEN" "lost_bytes M al1 ((p, p + RELOC_BUF_LEN) # live) \<subseteq> lost_bytes M al live \<union> {q..<p}"
    using ex.alloc_exact [OF own _ _ alloc] big by auto
  from ex.free_exact [OF own1 rec] big have f: "p \<in> os_avail al2"
      "lost_bytes M al2 live \<subseteq> lost_bytes M al1 ((p, p + RELOC_BUF_LEN) # live)" by auto
  have "spends M 1 (os_avail al2) al live al2 live"
    by (rule spends_lost [OF _ scraps_range [OF q(1)]]) (use q(2) f in auto)
  with os.free_live [OF own1 rec] show ?thesis by simp
qed

lemma buffer_tail:
  assumes own: "os_owned P M al live" and alloc: "os_alloc_near P RELOC_BUF mid mn mx al = Some (Inr (Some p), al1)"
    and len: "n \<le> RELOC_BUF_LEN" and rec: "os_reclaim (p + n) (RELOC_BUF_LEN - n) al1 = Some al2"
  shows "spends M 2 (os_avail al2 \<union> {p..<p + n}) al live al2 ((if n = 0 then [] else [(p, p + n)]) @ live)
    \<and> (n < MIN_RANGE_LEN \<longrightarrow> p + n \<in> os_avail al2)"
proof -
  let ?new = "(if n = 0 then [] else [(p, p + n)]) @ live"
  have own1: "os_owned P M al1 ([] @ (p, p + RELOC_BUF_LEN) # live)" using os.alloc_some [OF own _ _ alloc] by simp
  have big: "2 * MIN_RANGE_LEN \<le> RELOC_BUF_LEN" "MIN_RANGE_LEN \<le> RELOC_BUF_LEN" "0 < MIN_RANGE_LEN"
    by (simp_all add: RELOC_BUF_LEN_def MIN_RANGE_LEN_def)
  obtain q where q: "p < q + MIN_RANGE_LEN" "lost_bytes M al1 ((p, p + RELOC_BUF_LEN) # live) \<subseteq> lost_bytes M al live \<union> {q..<p}"
    using ex.alloc_exact [OF own _ _ alloc] big(2) by auto
  from ex.tail_exact [OF own1 len rec, simplified append_Nil] show ?thesis
  proof (elim disjE conjE)
    assume tail: "{p + n..<p + RELOC_BUF_LEN} \<subseteq> os_avail al2"
      and lost: "lost_bytes M al2 ?new \<subseteq> lost_bytes M al1 ((p, p + RELOC_BUF_LEN) # live)"
    have "p \<in> os_avail al2 \<union> {p..<p + n}" using tail big(2,3) by (cases "n = 0") auto
    then have "scraps 1 (os_avail al2 \<union> {p..<p + n}) {q..<p}" by (intro scraps_range [OF q(1)]) simp
    then have "spends M 1 (os_avail al2 \<union> {p..<p + n}) al live al2 ?new" by (rule spends_lost [rotated]) (use lost q(2) in auto)
    moreover have "p + n \<in> os_avail al2" if "n < MIN_RANGE_LEN" using tail big(2) that by auto
    ultimately show ?thesis using spends_mono [of M 1 _ al live al2 ?new _ 2] by auto
  next
    assume short: "RELOC_BUF_LEN < n + MIN_RANGE_LEN"
      and lost: "lost_bytes M al2 ?new \<subseteq> lost_bytes M al1 ((p, p + RELOC_BUF_LEN) # live) \<union> {p + n..<p + RELOC_BUF_LEN}"
    have n: "MIN_RANGE_LEN \<le> n" using short big(1) by linarith
    then have ends: "p \<in> {p..<p + n}" "p + n - 1 \<in> {p..<p + n}" using big(3) by auto
    have "scraps 1 (os_avail al2 \<union> {p..<p + n}) {q..<p}"
      and "scraps 1 (os_avail al2 \<union> {p..<p + n}) {p + n..<p + RELOC_BUF_LEN}"
      by (rule scraps_range; use q(1) short ends in simp)+
    from scraps_Un [OF this] have "scraps 2 (os_avail al2 \<union> {p..<p + n}) ({q..<p} \<union> {p + n..<p + RELOC_BUF_LEN})"
      by (simp add: numeral_2_eq_2)
    then have "spends M 2 (os_avail al2 \<union> {p..<p + n}) al live al2 ?new"
      by (rule spends_lost [rotated]) (use lost q(2) in auto)
    with n show ?thesis by simp
  qed
qed

lemma relocate_cases:
  assumes own: "os_owned P M al live" and "relocate C P site (al, m) = Some (res, al', m')"
  obtains (Fails) e where "res = Inl e" "os_owned P M al' live" "m' = m" "spends M 1 (os_avail al') al live al' live"
  | (Moves) t bytes mid mn mx where "res = Inr t" "encode_at C site (tr_ptr t) = Some (Inr (bytes, tr_relocs t))"
      "tr_len t = length bytes" "length bytes \<le> RELOC_BUF_LEN" "m' = write_bytes (tr_ptr t) bytes m"
      "os_owned P M al' (block_of (tr_ptr t) bytes @ live)" "0 < tr_ptr t" "tr_ptr t + RELOC_BUF_LEN \<le> va_max"
      "reloc_place site = Some (mid, mn, mx)" "offset_ok mn mx mid (tr_ptr t)"
      "\<And>b. b \<in> set live \<Longrightarrow> apart b (tr_ptr t, tr_ptr t + length bytes)"
      "spends M 2 (os_avail al' \<union> {tr_ptr t..<tr_ptr t + tr_len t}) al live al' (block_of (tr_ptr t) bytes @ live)"
      "length bytes < MIN_RANGE_LEN \<Longrightarrow> tr_ptr t + length bytes \<in> os_avail al'"
proof -
  obtain mid mn mx where place: "reloc_place site = Some (mid, mn, mx)"
    using assms(2) by (auto simp: relocate_def bind_eq_Some_conv)
  obtain buf al1 where alloc: "os_alloc_near P RELOC_BUF mid mn mx al = Some (buf, al1)"
    using assms(2) place by (auto simp: relocate_def bind_eq_Some_conv)
  note run = assms(2) [unfolded relocate_def, simplified, unfolded place, simplified, unfolded alloc, simplified]
  show thesis
  proof (cases "\<exists>p. buf = Inr (Some p)")
    case False
    then have own1: "os_owned P M al1 live" by (intro os.alloc_other [OF own _ _ alloc]) auto
    have "lost_bytes M al1 live \<subseteq> lost_bytes M al live"
      by (rule ex.other_exact [OF own _ _ alloc]) (use False in \<open>auto simp: RELOC_BUF_LEN_def MIN_RANGE_LEN_def\<close>)
    from spends_keeps [OF this] have "spends M 1 F al live al1 live" for F .
    with run False own1 that(1) show thesis by (auto split: sum.splits option.splits)
  next
    case True
    then obtain p where p: "buf = Inr (Some p)" by blast
    from os.alloc_some [OF own _ _ alloc [unfolded p]]
    have own1: "os_owned P M al1 ([] @ (p, p + RELOC_BUF_LEN) # live)" and off: "offset_ok mn mx mid p" by simp_all
    obtain enc where enc: "encode_at C site p = Some enc" using run p by (auto simp: bind_eq_Some_conv)
    consider e where "enc = Inl e" | bytes relocs where "enc = Inr (bytes, relocs)" "length bytes > RELOC_BUF_LEN"
      | bytes relocs where "enc = Inr (bytes, relocs)" "length bytes \<le> RELOC_BUF_LEN"
      by (metis linorder_not_le sum.exhaust surj_pair)
    then show thesis
    proof cases
      case (1 e)
      with run p enc obtain al2 where "os_reclaim p RELOC_BUF_LEN al1 = Some al2" "res = Inl e" "al' = al2" "m' = m"
        by (auto simp: bind_eq_Some_conv)
      with buffer_back [OF own alloc [unfolded p]] that(1) show thesis by simp
    next
      case (2 bytes relocs)
      with run p enc obtain al2 where "os_reclaim p RELOC_BUF_LEN al1 = Some al2"
        "res = Inl (E_EncodeSize (target_addr site) (length bytes))" "al' = al2" "m' = m"
        by (auto simp: bind_eq_Some_conv)
      with buffer_back [OF own alloc [unfolded p]] that(1) show thesis by simp
    next
      case (3 bytes relocs)
      with run p enc have rec: "os_reclaim (p + length bytes) (RELOC_BUF_LEN - length bytes) al1 = Some al'"
        and res: "res = Inr \<lparr>tr_ptr = p, tr_len = length bytes, tr_relocs = relocs\<rparr>" "m' = write_bytes p bytes m"
        by (auto simp: bind_eq_Some_conv)
      have "spends M 2 (os_avail al' \<union> {p..<p + length bytes}) al live al' (block_of p bytes @ live)"
        and "length bytes < MIN_RANGE_LEN \<longrightarrow> p + length bytes \<in> os_avail al'"
        using buffer_tail [OF own alloc [unfolded p] 3(2) rec] by (simp_all add: block_of_def)
      moreover have "os_owned P M al' (block_of p bytes @ live)"
        using os.free_tail [OF own1 3(2) rec] by (cases "bytes = []") (simp_all add: block_of_def)
      moreover have "0 < p" "p + RELOC_BUF_LEN \<le> va_max"
        using os.owned_room [OF own1, of "(p, p + RELOC_BUF_LEN)"] by simp_all
      moreover have "apart b (p, p + length bytes)" if "b \<in> set live" for b
        using os.owned_apart [OF own1] that 3(2) by (auto simp: apart_def)
      ultimately show thesis by (intro that(2) [of _ bytes mid mn mx, OF res(1)]) (simp_all add: res(2) 3 enc place off)
    qed
  qed
qed

text \<open>
  C11. A trampoline keeps what it refers to in reach and leaks nothing: every recorded address is within a
  32-bit displacement of every byte of the buffer it was encoded for; the trampoline holds the encoded
  bytes, which are all the caller keeps of the buffer; the rest of the buffer can be allocated again; and
  on an error the memory is as before, no block is kept, and the buffer can be allocated again. Every byte
  is accounted for: what is neither free nor in use afterwards, and was before, are the padding in front
  of the buffer and, on success, a tail too short to be recorded, both shorter than \<open>MIN_RANGE_LEN\<close>.
\<close>

theorem relocate_sound:
  assumes "os_owned P M al live" "max_rel_addr site \<le> va_max"
    and "relocate C P site (al, m) = Some (res, al', m')"
  shows "case res of
      Inl e \<Rightarrow> os_owned P M al' live \<and> m' = m
        \<and> scraps 1 (free_bytes (fst al')) (lost_bytes M al' live - lost_bytes M al live)
    | Inr t \<Rightarrow> (\<exists>bytes. encode_at C site (tr_ptr t) = Some (Inr (bytes, tr_relocs t)) \<and> tr_len t = length bytes
          \<and> length bytes \<le> RELOC_BUF_LEN \<and> m' = write_bytes (tr_ptr t) bytes m
          \<and> os_owned P M al' (block_of (tr_ptr t) bytes @ live)
          \<and> scraps 2 (free_bytes (fst al') \<union> {tr_ptr t..<tr_ptr t + tr_len t})
              (lost_bytes M al' (block_of (tr_ptr t) bytes @ live) - lost_bytes M al live))
        \<and> (\<forall>a q. min_rel_addr site \<le> a \<and> a \<le> max_rel_addr site \<and> tr_ptr t \<le> q \<and> q \<le> tr_ptr t + RELOC_BUF_LEN
            \<longrightarrow> i32_min \<le> int a - int q \<and> int a - int q \<le> i32_max)"
proof (cases rule: relocate_cases [OF assms(1,3), case_names Fails Moves])
  case (Moves t bytes mid mn mx)
  with reloc_place_reaches [OF Moves(9) assms(2) _ _ Moves(10)] show ?thesis by (simp add: spends_def os_avail_def)
qed (simp add: spends_def os_avail_def)

section \<open>Relocations\<close>

text \<open>
  Where every instruction was encoded without a fixup, each instruction after the first, the
  appended jump apart, is mapped from its address to the address of its copy.
\<close>

theorem encode_at_relocs:
  assumes "block_encode C (hs_insns site) ip = Inr enc" "length (enc_offsets enc) = length (hs_insns site)"
    and "U32_MAX \<notin> set (enc_offsets enc)" "hs_insns site \<noteq> []"
  shows "encode_at C site ip = Some (Inr (enc_code enc,
    map (\<lambda>i. \<lparr>rl_from = in_ip (hs_insns site ! i), rl_to = enc_rip enc + enc_offsets enc ! i\<rparr>)
      [1..<if will_branch site then length (hs_insns site) else length (hs_insns site) - 1]))"
proof -
  define insns where "insns = (if will_branch site then hs_insns site else butlast (hs_insns site))"
  define offsets where "offsets = drop 1 (take (max (length insns) 1) (enc_offsets enc))"
  let ?r = "\<lambda>i. \<lparr>rl_from = in_ip (insns ! i), rl_to = enc_rip enc + offsets ! (i - 1)\<rparr>"
  have len: "length insns \<le> length (enc_offsets enc)" "1 \<le> length (enc_offsets enc)"
    using assms(2,4) by (auto simp: insns_def Suc_leI)
  then have lo: "length offsets = max (length insns) 1 - 1" by (simp add: offsets_def)
  have nth: "offsets ! (i - 1) = enc_offsets enc ! i" "offsets ! (i - 1) \<noteq> U32_MAX" if "1 \<le> i" "i < length insns" for i
  proof -
    show eq: "offsets ! (i - 1) = enc_offsets enc ! i" using that len by (simp add: offsets_def)
    have "enc_offsets enc ! i \<in> set (enc_offsets enc)" using that len by simp
    with assms(3) eq show "offsets ! (i - 1) \<noteq> U32_MAX" by metis
  qed
  have loop: "reloc_loop C enc insns offsets is d l acc = Some (acc @ map ?r is)"
    if "\<forall>i \<in> set is. 1 \<le> i \<and> i < length insns" for "is" d l acc
    using that
  proof (induction "is" arbitrary: acc)
    case (Cons i "is")
    then have "offsets ! (i - 1) \<noteq> U32_MAX" by (intro nth) auto
    with Cons show ?case by (simp del: One_nat_def)
  qed simp
  have count: "min (length insns) (length offsets + 1) = length insns" using lo by (cases insns) auto
  have "slice_range (enc_offsets enc) 1 (max (length insns) 1) = Some offsets"
    using len by (simp add: slice_range_def offsets_def)
  then have "encode_at C site ip = Some (Inr (enc_code enc, map ?r [1..<length insns]))"
    using loop [of "[1..<length insns]"] assms(1,4) count
    by (cases "will_branch site") (simp_all add: encode_at_def insns_def)
  moreover have "map ?r [1..<length insns] = map (\<lambda>i. \<lparr>rl_from = in_ip (hs_insns site ! i),
      rl_to = enc_rip enc + enc_offsets enc ! i\<rparr>) [1..<length insns]"
    using nth(1) by (auto simp: insns_def nth_butlast)
  moreover have "length insns = (if will_branch site then length (hs_insns site) else length (hs_insns site) - 1)"
    by (simp add: insns_def)
  ultimately show ?thesis by (simp only:)
qed

text \<open>
  A defect: the second decoder starts at instruction pointer 0 and \<open>set_position\<close> does not change
  that, so the relocated address of an instruction that needed a fixup lacks the address of the
  trampoline. If the second instruction is such, a thread stopped at it is sent to an address
  below 16.
\<close>

theorem fixed_up_reloc_is_no_address:
  assumes "decoder_ok C view" "block_encode C (hs_insns site) ip = Inr enc" "enc_code enc \<noteq> []"
    and "length (enc_offsets enc) = length (hs_insns site)" "enc_offsets enc ! 1 = U32_MAX"
    and "hs_insns site = first # second # others" "will_branch site \<or> others \<noteq> []"
    and "encode_at C site ip = Some (Inr (code, relocs))"
  shows "\<exists>r rest. relocs = r # rest \<and> rl_from r = in_ip second \<and> rl_to r \<le> MAX_INSN_LEN"
proof -
  define insns where "insns = (if will_branch site then hs_insns site else butlast (hs_insns site))"
  have insns: "\<exists>rest. insns = first # second # rest" using assms(6,7) by (auto simp: insns_def)
  define offsets where "offsets = drop 1 (take (length insns) (enc_offsets enc))"
  have len: "length insns \<le> length (enc_offsets enc)" "2 \<le> length insns"
  proof -
    show "length insns \<le> length (enc_offsets enc)" using assms(4) by (simp add: insns_def)
    show "2 \<le> length insns" using insns by auto
  qed
  have o0: "offsets ! 0 = U32_MAX" using len assms(5) by (simp add: offsets_def)
  have count: "min (length insns) (length offsets + 1) = length insns" using len by (simp add: offsets_def)
  have "max (length insns) 1 = length insns" using len by simp
  then have "slice_range (enc_offsets enc) 1 (max (length insns) 1) = Some offsets"
    using len by (simp add: slice_range_def offsets_def)
  then have run: "reloc_loop C enc insns offsets [1..<length insns] (dec_new C (enc_code enc)) (enc_rip enc) [] = Some relocs"
    using assms(2,6,8) count
    by (cases "will_branch site") (auto simp: encode_at_def insns_def bind_eq_Some_conv simp del: reloc_loop.simps upt_Suc)
  have v: "view (dec_new C (enc_code enc)) = (0, 0, enc_code enc)" using assms(1) by (simp add: decoder_ok_def)
  then obtain d where d: "set_position C (dec_new C (enc_code enc)) 0 = Some d" "view d = (0, 0, enc_code enc)"
    using assms(1) unfolding decoder_ok_def by blast
  note st = decode_step [OF assms(1) d(2)]
  let ?i = "fst (decode_out C d)"
  have small: "next_ip ?i \<le> MAX_INSN_LEN"
    using st(2,4) assms(3) by (simp add: next_ip_def MAX_INSN_LEN_def usize_defs)
  have mono: "reloc_loop C enc insns offsets is d l acc = Some y \<Longrightarrow> \<exists>rest. y = acc @ rest" for "is" d l acc y
  proof (induction "is" arbitrary: d l acc)
    case (Cons i "is")
    then show ?case by (fastforce simp: Let_def bind_eq_Some_conv split: if_splits prod.splits)
  qed simp
  have upt: "[1..<length insns] = 1 # [2..<length insns]" using len(2) upt_conv_Cons [of 1 "length insns"] by (simp add: numeral_2_eq_2)
  have "(0::nat) \<noteq> U32_MAX" by (simp add: U32_MAX_def)
  with run upt o0 d obtain d' where
    "reloc_loop C enc insns offsets [2..<length insns] d' (next_ip ?i) [\<lparr>rl_from = in_ip (insns ! 1), rl_to = next_ip ?i\<rparr>]
      = Some relocs"
    by (auto simp: Let_def split: prod.splits)
  from mono [OF this] insns small show ?thesis by auto
qed

section \<open>Examples\<close>

text \<open>
  The example kernel of the memory theory always maps what it is asked for; one that keeps a record of
  what it has mapped and refuses the rest is fresh.
\<close>

definition tracking_kernel :: "nat set kernel" where
  "tracking_kernel = \<lparr>k_page_size = 2 ^ 12, k_min_file = \<lambda>_. None, k_rlimit = \<lambda>_. None, k_maps = \<lambda>_. Inr [],
     k_mmap = \<lambda>k a len p. if 0 < a \<and> a + len \<le> va_max \<and> {a..<a + len} \<inter> k = {} then (Inr a, k \<union> {a..<a + len}) else (Inl EEXIST, k),
     k_mprotect = \<lambda>k a len p. (None, k)\<rparr>"

lemma tracking_kernel_fresh: "mmap_fresh tracking_kernel id"
  by (simp add: mmap_fresh_def tracking_kernel_def)

lemma tracking_maps_fresh: "maps_fresh (linux tracking_kernel) id"
  by (rule linux_maps_fresh [OF tracking_kernel_fresh, of 12]) (simp_all add: tracking_kernel_def)

definition example_allocator :: range_alloc where
  "example_allocator = \<lparr>ranges = [(65536, 73728)], min_addr = 65537, max_addr = 73728\<rparr>"

lemma example_owned: "os_owned (linux tracking_kernel) id (example_allocator, {65536..<73728}) []"
  by (simp add: os_owned_def tracking_maps_fresh owners_ok_def alloc_inv_def range_ok_def backed_def
      example_allocator_def va_max_def usize_defs)

lemma align_down_1: "x < usize_size \<Longrightarrow> align_down x (Suc 0) = x"
  using align_down_pow2 [of 0 x] by simp

lemma example_reloc_place: "reloc_place example_site = Some (4232, Excluded (- 2147482496), Excluded 2147482495)"
  by (simp add: reloc_place_def example_site_def midpoint_def div_ceil_def RELOC_BUF_LEN_def as_isize_def
      isize_checked_def usize_defs)

lemma example_encode_at: "encode_at example_iced example_site 65536 =
    Some (Inr (replicate 15 0x90, [\<lparr>rl_from = 4097, rl_to = 65541\<rparr>]))"
  by (simp add: encode_at_def example_iced_def example_site_def example_insns slice_range_def U32_MAX_def)

lemma example_relocate:
  "\<exists>al. relocate example_iced (linux tracking_kernel) example_site ((example_allocator, {65536..<73728}), m)
    = Some (Inr \<lparr>tr_ptr = 65536, tr_len = 15, tr_relocs = [\<lparr>rl_from = 4097, rl_to = 65541\<rparr>]\<rparr>, al,
        write_bytes 65536 (replicate 15 0x90) m)"
proof -
  have "alloc_near example_allocator RELOC_BUF 4232 (Excluded (- 2147482496)) (Excluded 2147482495)
      = Some (Some 65536, example_allocator\<lparr>ranges := [(66560, 73728)]\<rparr>)"
    by (simp add: alloc_eval align_down_1 example_allocator_def RELOC_BUF_def RELOC_BUF_LEN_def)
  then have "os_alloc_near (linux tracking_kernel) RELOC_BUF 4232 (Excluded (- 2147482496)) (Excluded 2147482495)
      (example_allocator, {65536..<73728}) = Some (Inr (Some 65536), example_allocator\<lparr>ranges := [(66560, 73728)]\<rparr>, {65536..<73728})"
    by (simp add: os_alloc_near_def)
  moreover have "\<exists>al. os_reclaim 65551 1009 (example_allocator\<lparr>ranges := [(66560, 73728)]\<rparr>, {65536..<73728 :: nat}) = Some al"
    by (simp add: os_reclaim_def reclaim_def adopt_range_def adopt_after_def note_bounds_def alloc_eval slice_get_def
        example_allocator_def)
  ultimately show ?thesis
    by (auto simp: relocate_def example_reloc_place example_encode_at RELOC_BUF_LEN_def)
qed

theorem relocate_sound_witness:
  "i32_min \<le> 4104 - 65551 \<and> 4104 - 65551 \<le> i32_max \<and> (\<exists>al. os_owned (linux tracking_kernel) id al [(65536, 65551)])"
proof -
  obtain al where run: "relocate example_iced (linux tracking_kernel) example_site ((example_allocator, {65536..<73728}), \<lambda>_. 0)
    = Some (Inr \<lparr>tr_ptr = 65536, tr_len = 15, tr_relocs = [\<lparr>rl_from = 4097, rl_to = 65541\<rparr>]\<rparr>, al,
        write_bytes 65536 (replicate 15 0x90) (\<lambda>_. 0))" using example_relocate by blast
  have "max_rel_addr example_site \<le> va_max" by (simp add: example_site_def va_max_def)
  from relocate_sound [OF example_owned this run] have
    "os_owned (linux tracking_kernel) id al [(65536, 65551)]"
    "\<forall>a q. min_rel_addr example_site \<le> a \<and> a \<le> max_rel_addr example_site \<and> 65536 \<le> q \<and> q \<le> 65536 + RELOC_BUF_LEN
      \<longrightarrow> i32_min \<le> int a - int q \<and> int a - int q \<le> i32_max"
    by (auto simp: example_encode_at block_of_def)
  moreover from this(2) [rule_format, of 4104 65551] have "i32_min \<le> 4104 - 65551 \<and> (4104 :: int) - 65551 \<le> i32_max"
    by (simp add: example_site_def RELOC_BUF_LEN_def)
  ultimately show ?thesis by blast
qed

theorem encode_at_relocs_witness:
  "encode_at example_iced example_site 65536 = Some (Inr (replicate 15 0x90, [\<lparr>rl_from = 4097, rl_to = 65541\<rparr>]))"
proof -
  let ?enc = "\<lparr>enc_rip = 65536, enc_code = replicate 15 0x90, enc_offsets = [0, 5, 10]\<rparr> :: encoded"
  have "block_encode example_iced (hs_insns example_site) 65536 = Inr ?enc"
    "length (enc_offsets ?enc) = length (hs_insns example_site)" "U32_MAX \<notin> set (enc_offsets ?enc)"
    "hs_insns example_site \<noteq> []"
    by (simp_all add: example_iced_def example_site_def example_insns U32_MAX_def)
  from encode_at_relocs [OF this] show ?thesis by (simp add: example_site_def example_insns)
qed

text \<open>A function that adjusts the stack and calls another: the call needs a fixup.\<close>

definition caller_site :: hook_site where
  "caller_site = example_site\<lparr>hs_insns := [sub_insn\<lparr>in_ip := 4096\<rparr>,
     \<lparr>in_ip = 4100, in_len = 5, in_code = Other_code 3, in_flow = Call, in_rel = None\<rparr>, back_insn]\<rparr>"

theorem fixed_up_reloc_is_no_address_witness:
  "\<exists>code r. encode_at example_iced caller_site 65536 = Some (Inr (code, [r])) \<and> rl_from r = 4100 \<and> rl_to r < 65536"
proof -
  let ?enc = "\<lparr>enc_rip = 65536, enc_code = replicate 15 0x90, enc_offsets = [0, U32_MAX, 10]\<rparr> :: encoded"
  have b: "block_encode example_iced (hs_insns caller_site) 65536 = Inr ?enc"
    by (simp add: example_iced_def caller_site_def example_site_def example_insns U32_MAX_def)
  have run: "encode_at example_iced caller_site 65536 = Some (Inr (replicate 15 0x90, [\<lparr>rl_from = 4100, rl_to = 1\<rparr>]))"
    by (simp add: encode_at_def b) (simp add: caller_site_def example_site_def slice_range_def U32_MAX_def
        example_iced_def example_insn_def next_ip_def usize_defs)
  have e: "enc_code ?enc \<noteq> []" "length (enc_offsets ?enc) = length (hs_insns caller_site)" "enc_offsets ?enc ! 1 = U32_MAX"
    "will_branch caller_site \<or> [back_insn] \<noteq> []"
    by (simp_all add: caller_site_def example_site_def)
  have i: "hs_insns caller_site = sub_insn\<lparr>in_ip := 4096\<rparr>
      # \<lparr>in_ip = 4100, in_len = 5, in_code = Other_code 3, in_flow = Call, in_rel = None\<rparr> # [back_insn]"
    by (simp add: caller_site_def)
  note fixed_up_reloc_is_no_address [OF example_iced_ok b e(1-3) i e(4) run]
  with run show ?thesis by (auto simp: MAX_INSN_LEN_def)
qed

end
