(* ===== verification/Custom_Hook.thy ===== *)
theory Custom_Hook
  imports Context_Run Trampoline
begin

text \<open>
  Custom hooks on a function (\<open>hook/custom.rs\<close>): a stub is allocated from the shared allocator, filled
  with the closure and the save routine, and put in front of the function's thunk with the function
  the thunk had as what it goes on to. The machine of \<open>Context_Save\<close> runs such a chain of stubs.
\<close>

section \<open>Making a hook\<close>

text \<open>\<open>CustomInstaller\<close>: the hooked function, and the stub until it is used (\<open>DropContextSave\<close>).\<close>

record custom_installer =
  ci_target :: nat
  ci_save :: "nat option"

text \<open>
  The state: the allocator and the kernel, the memory of the stubs, the function pointers in the
  thunks, and the installers not used yet.
\<close>

record 'k custom_world =
  cw_alloc :: "range_alloc \<times> 'k"
  cw_mem :: memory
  cw_thunk :: "nat \<Rightarrow> nat"
  cw_held :: "custom_installer list"

definition CONTEXT_SAVE_LAYOUT :: layout where
  "CONTEXT_SAVE_LAYOUT = \<lparr>layout_size = size_of ContextSave, layout_align = align_of ContextSave\<rparr>"

definition os_alloc :: "'k platform \<Rightarrow> layout \<Rightarrow> range_alloc \<times> 'k \<Rightarrow> ((error + nat option) \<times> range_alloc \<times> 'k) option" where
  "os_alloc P l = os_alloc_near P l 0xdeadbeef Unbounded Unbounded"

text \<open>\<open>acquired\<close> is the answer of \<open>ProcessContext::acquire\<close>.\<close>

definition custom :: "'k platform \<Rightarrow> io_error option \<Rightarrow> nat \<Rightarrow> 'k custom_world
    \<Rightarrow> ((error + custom_installer) \<times> 'k custom_world) option" where
  "custom P acquired t w =
     (case acquired of
        Some err \<Rightarrow> Some (Inl (E_ProcessContext err), w)
      | None \<Rightarrow> do {
          (res, al) \<leftarrow> os_alloc P CONTEXT_SAVE_LAYOUT (cw_alloc w);
          Some (case res of
                  Inl err \<Rightarrow> Inl err
                | Inr None \<Rightarrow> Inl (oom 0xdeadbeef)
                | Inr (Some p) \<Rightarrow> Inr \<lparr>ci_target = t, ci_save = Some p\<rparr>,
                w\<lparr>cw_alloc := al\<rparr>)
        })"

text \<open>
  \<open>leak_hook\<close>: \<open>data\<close> is the leaked closure, \<open>proc\<close> the save routine for its type. The closure given to
  \<open>update_thunk\<close> writes what comes next into the stub. \<open>None\<close> is the panic of \<open>unwrap\<close>.
\<close>

definition leak_hook :: "nat \<Rightarrow> nat \<Rightarrow> custom_installer \<Rightarrow> 'k custom_world \<Rightarrow> 'k custom_world option" where
  "leak_hook data proc ci w =
     (case ci_save ci of
        None \<Rightarrow> None
      | Some p \<Rightarrow>
          (let m = write_bytes p (context_save_bytes (context_save_new data proc)) (cw_mem w);
               prev = cw_thunk w (ci_target ci)
           in Some (w\<lparr>cw_mem := write64 (p + offset_of ContextSave ''next'') prev m,
                cw_thunk := (cw_thunk w)(ci_target ci := p)\<rparr>)))"

text \<open>\<open>DropContextSave::drop\<close>, also when \<open>source\<close> panics before the stub is taken.\<close>

definition drop_context_save :: "io_error option \<Rightarrow> custom_installer \<Rightarrow> 'k custom_world \<Rightarrow> 'k custom_world option" where
  "drop_context_save acquired ci w =
     (case ci_save ci of
        None \<Rightarrow> Some w
      | Some p \<Rightarrow>
          (case acquired of
             Some _ \<Rightarrow> Some w
           | None \<Rightarrow> map_option (\<lambda>al. w\<lparr>cw_alloc := al\<rparr>) (os_reclaim p (size_of ContextSave) (cw_alloc w))))"

section \<open>Histories\<close>

text \<open>
  What a program does with custom hooks: it makes an installer for a function, hooks with the \<open>i\<close>-th
  installer it holds, or drops that; and between, the library allocates memory for other things.
\<close>

datatype custom_event =
    Make_custom "io_error option" nat
  | Hook_custom nat nat nat
  | Drop_custom "io_error option" nat
  | Alloc_elsewhere layout nat bound bound

definition without :: "nat \<Rightarrow> 'a list \<Rightarrow> 'a list" where
  "without i xs = take i xs @ drop (Suc i) xs"

fun do_custom :: "'k platform \<Rightarrow> custom_event \<Rightarrow> 'k custom_world \<Rightarrow> 'k custom_world option" where
  "do_custom P (Make_custom acquired t) w = do {
     (res, w) \<leftarrow> custom P acquired t w;
     Some (case res of Inl _ \<Rightarrow> w | Inr ci \<Rightarrow> w\<lparr>cw_held := cw_held w @ [ci]\<rparr>)
   }"
| "do_custom P (Hook_custom i data proc) w =
     (if i < length (cw_held w)
      then leak_hook data proc (cw_held w ! i) (w\<lparr>cw_held := without i (cw_held w)\<rparr>) else Some w)"
| "do_custom P (Drop_custom acquired i) w =
     (if i < length (cw_held w)
      then drop_context_save acquired (cw_held w ! i) (w\<lparr>cw_held := without i (cw_held w)\<rparr>) else Some w)"
| "do_custom P (Alloc_elsewhere l ptr start end) w =
     map_option (\<lambda>(_, al). w\<lparr>cw_alloc := al\<rparr>) (os_alloc_near P l ptr start end (cw_alloc w))"

fun do_customs :: "'k platform \<Rightarrow> custom_event list \<Rightarrow> 'k custom_world \<Rightarrow> 'k custom_world option" where
  "do_customs P [] w = Some w"
| "do_customs P (ev # es) w = Option.bind (do_custom P ev w) (do_customs P es)"

text \<open>The hooks a history makes on a function, the newest first: their closures and save routines.\<close>

fun made_by :: "custom_event \<Rightarrow> 'k custom_world \<Rightarrow> nat \<Rightarrow> (nat \<times> nat) list" where
  "made_by (Hook_custom i data proc) w t =
     (if i < length (cw_held w) \<and> ci_target (cw_held w ! i) = t then [(data, proc)] else [])"
| "made_by ev w t = []"

fun custom_hooks :: "'k platform \<Rightarrow> custom_event list \<Rightarrow> 'k custom_world \<Rightarrow> nat \<Rightarrow> (nat \<times> nat) list" where
  "custom_hooks P [] w t = []"
| "custom_hooks P (ev # es) w t =
     (case do_custom P ev w of None \<Rightarrow> [] | Some w' \<Rightarrow> custom_hooks P es w' t) @ made_by ev w t"

text \<open>The stubs it fills.\<close>

fun stubs_by :: "custom_event \<Rightarrow> 'k custom_world \<Rightarrow> nat set" where
  "stubs_by (Hook_custom i data proc) w =
     (if i < length (cw_held w) then set_option (ci_save (cw_held w ! i)) else {})"
| "stubs_by ev w = {}"

fun custom_stubs :: "'k platform \<Rightarrow> custom_event list \<Rightarrow> 'k custom_world \<Rightarrow> nat set" where
  "custom_stubs P [] w = {}"
| "custom_stubs P (ev # es) w =
     (case do_custom P ev w of None \<Rightarrow> {} | Some w' \<Rightarrow> custom_stubs P es w') \<union> stubs_by ev w"

section \<open>The stubs in memory\<close>

definition stub_holds :: "memory \<Rightarrow> nat \<Rightarrow> nat \<Rightarrow> nat \<Rightarrow> nat \<Rightarrow> bool" where
  "stub_holds m q data proc nxt \<longleftrightarrow>
     read_bytes m q 56 = context_save_bytes (context_save_chain nxt (context_save_new data proc))"

text \<open>A chain of stubs, each with its closure and save routine, that starts at \<open>p\<close> and ends at \<open>original\<close>.\<close>

fun chained :: "memory \<Rightarrow> nat \<Rightarrow> (nat \<times> nat \<times> nat) list \<Rightarrow> nat \<Rightarrow> bool" where
  "chained m p [] original \<longleftrightarrow> p = original"
| "chained m p ((q, data, proc) # hs) original \<longleftrightarrow>
     p = q \<and> (\<exists>nxt. stub_holds m q data proc nxt \<and> chained m nxt hs original)"

lemma chained_frame:
  assumes "chained m p hs original" and "\<And>q a. q \<in> fst ` set hs \<Longrightarrow> q \<le> a \<Longrightarrow> a < q + 56 \<Longrightarrow> m' a = m a"
  shows "chained m' p hs original"
  using assms
proof (induction hs arbitrary: p)
  case (Cons h hs)
  obtain q data "proc" where h: "h = (q, data, proc)" by (cases h)
  have "read_bytes m' q 56 = read_bytes m q 56" by (rule read_bytes_cong) (use Cons.prems(2) h in auto)
  then have "stub_holds m' q data proc nxt = stub_holds m q data proc nxt" for nxt by (simp add: stub_holds_def)
  moreover have "chained m nxt hs original \<Longrightarrow> chained m' nxt hs original" for nxt
    by (rule Cons.IH) (use Cons.prems(2) in auto)
  ultimately show ?case using Cons.prems(1) h by auto
qed simp

lemma stub_written:
  "stub_holds (write64 (p + offset_of ContextSave ''next'') nxt
     (write_bytes p (context_save_bytes (context_save_new data proc)) m)) p data proc nxt"
proof -
  let ?cs = "context_save_bytes (context_save_new data proc)" and ?m = "write_bytes p (context_save_bytes (context_save_new data proc)) m"
  have "read_bytes (write64 (p + 48) nxt ?m) p (48 + 8) = read_bytes ?m p 48 @ le_bytes 8 (int nxt)"
    unfolding read_bytes_append by (simp add: write64_def read_write_same read_write_apart)
  also have "read_bytes ?m p 48 = take 48 ?cs"
    using read_bytes_take [of 48 56 ?m p] by (simp add: read_write_same)
  finally show ?thesis
    by (simp add: stub_holds_def context_save_bytes_def context_save_chain_def context_save_new_def
        lea_rsp_m_disp8_def lea_rsp_m_disp32_def call_abs_def save_jmp_abs_def)
qed

lemma contextsave_size [simp]: "size_of ContextSave = 56" "align_of ContextSave = 8"
  by (simp_all add: size_of_def align_of_def ContextSave_def align_up_def)

lemma CONTEXT_SAVE_LAYOUT_ok [simp]: "layout_ok CONTEXT_SAVE_LAYOUT" "layout_size CONTEXT_SAVE_LAYOUT = 56"
  by (auto simp: layout_ok_def CONTEXT_SAVE_LAYOUT_def intro: exI [of _ 3])

section \<open>Ownership of the stubs\<close>

lemma owned_pair: "os_owned P mapped s live \<Longrightarrow> b \<in> set live \<Longrightarrow> b' \<in> set live \<Longrightarrow> b = b' \<or> apart b b'"
  using os.owned_apart [of P mapped s live] by (induction live) (auto simp: os_owned_def owners_ok_def intro: apart_sym)

lemma owned_new: "os_owned P mapped s (b # live) \<Longrightarrow> b \<notin> set live"
proof
  assume own: "os_owned P mapped s (b # live)" and "b \<in> set live"
  then have "apart b b" using os.owned_apart [OF own] by simp
  moreover have "fst b < snd b" using os.owned_room [OF own] by simp
  ultimately show False by (simp add: apart_def)
qed

lemma owned_split: "os_owned P mapped s live \<Longrightarrow> b \<in> set live \<Longrightarrow>
    \<exists>pre post. live = pre @ b # post \<and> set (pre @ post) = set live - {b}"
proof -
  assume own: "os_owned P mapped s live" and b: "b \<in> set live"
  then obtain pre post where l: "live = pre @ b # post" by (auto dest: split_list)
  have "b \<notin> set pre \<union> set post"
    using os.owned_apart [OF own] os.owned_room [OF own b] by (auto simp: l sorted_wrt_append apart_def)
  with l show ?thesis by (intro exI [of _ pre] exI [of _ post]) auto
qed

definition stubs_of :: "('a \<Rightarrow> (nat \<times> nat \<times> nat) list) \<Rightarrow> nat set" where
  "stubs_of hs = (\<Union>t. fst ` set (hs t))"

lemma stubs_of_iff: "q \<in> stubs_of hs \<longleftrightarrow> (\<exists>t d r. (q, d, r) \<in> set (hs t))"
  by (force simp: stubs_of_def)

lemma stubs_of_cons: "stubs_of (hs(t := (p, d, r) # hs t)) = insert p (stubs_of hs)"
proof (intro set_eqI iffI)
  fix q assume "q \<in> stubs_of (hs(t := (p, d, r) # hs t))"
  then obtain t' d' r' where "(q, d', r') \<in> set ((hs(t := (p, d, r) # hs t)) t')" unfolding stubs_of_iff by blast
  then show "q \<in> insert p (stubs_of hs)" by (cases "t' = t") (auto simp: stubs_of_iff)
next
  fix q assume "q \<in> insert p (stubs_of hs)"
  moreover have "(p, d, r) \<in> set ((hs(t := (p, d, r) # hs t)) t)" by simp
  moreover have "(q, d', r') \<in> set (hs t') \<Longrightarrow> (q, d', r') \<in> set ((hs(t := (p, d, r) # hs t)) t')" for t' d' r'
    by (cases "t' = t") simp_all
  ultimately show "q \<in> stubs_of (hs(t := (p, d, r) # hs t))" unfolding insert_iff stubs_of_iff by blast
qed

lemma stubs_of_at: "q \<in> fst ` set (hs t) \<Longrightarrow> q \<in> stubs_of hs"
  by (auto simp: stubs_of_def)

definition held_stubs :: "custom_installer list \<Rightarrow> nat set" where
  "held_stubs cis = {p. Some p \<in> ci_save ` set cis}"

text \<open>
  \<open>hs\<close> are the hooks on each function, \<open>live0\<close> the blocks that were in use before, \<open>original\<close> what the
  thunks pointed to.
\<close>

definition chains_ok :: "(nat \<Rightarrow> nat) \<Rightarrow> (nat \<Rightarrow> (nat \<times> nat \<times> nat) list) \<Rightarrow> 'k custom_world \<Rightarrow> bool" where
  "chains_ok original hs w \<longleftrightarrow> (\<forall>t. chained (cw_mem w) (cw_thunk w t) (hs t) (original t))"

definition custom_inv :: "'k platform \<Rightarrow> ('k \<Rightarrow> nat set) \<Rightarrow> (nat \<times> nat) list \<Rightarrow> (nat \<Rightarrow> nat)
    \<Rightarrow> (nat \<Rightarrow> (nat \<times> nat \<times> nat) list) \<Rightarrow> 'k custom_world \<Rightarrow> bool" where
  "custom_inv P mapped live0 original hs w \<longleftrightarrow> (\<exists>live. os_owned P mapped (cw_alloc w) live \<and> set live0 \<subseteq> set live
       \<and> (\<forall>p \<in> stubs_of hs \<union> held_stubs (cw_held w). (p, p + 56) \<in> set live - set live0))
     \<and> (\<forall>ci \<in> set (cw_held w). ci_save ci \<noteq> None) \<and> distinct (map ci_save (cw_held w))
     \<and> stubs_of hs \<inter> held_stubs (cw_held w) = {}
     \<and> chains_ok original hs w"

lemma set_without: "set (without i xs) \<subseteq> set xs"
  using set_take_subset [of i xs] set_drop_subset [of "Suc i" xs] by (auto simp: without_def)

lemma distinct_without: "distinct (map f xs) \<Longrightarrow> i < length xs \<Longrightarrow>
    distinct (map f (without i xs)) \<and> f (xs ! i) \<notin> f ` set (without i xs)"
proof -
  assume d: "distinct (map f xs)" and i: "i < length xs"
  then have "xs = take i xs @ xs ! i # drop (Suc i) xs" by (simp add: id_take_nth_drop)
  then have "map f xs = map f (take i xs) @ f (xs ! i) # map f (drop (Suc i) xs)" by (metis map_append list.map(2))
  with d show ?thesis by (auto simp: without_def)
qed

lemma held_without:
  assumes "distinct (map ci_save cis)" and "i < length cis" and "ci_save (cis ! i) = Some p"
  shows "held_stubs (without i cis) \<subseteq> held_stubs cis - {p}" and "p \<in> held_stubs cis"
proof -
  show "p \<in> held_stubs cis" using nth_mem [OF assms(2)] assms(3) by (auto simp: held_stubs_def intro!: rev_image_eqI)
  show "held_stubs (without i cis) \<subseteq> held_stubs cis - {p}"
    using distinct_without [OF assms(1,2)] set_without [of i cis] assms(3) by (auto simp: held_stubs_def)
qed

lemma custom_invE:
  assumes "custom_inv P mapped live0 original hs w"
  obtains live where "os_owned P mapped (cw_alloc w) live" "set live0 \<subseteq> set live"
    "\<And>p. p \<in> stubs_of hs \<union> held_stubs (cw_held w) \<Longrightarrow> (p, p + 56) \<in> set live - set live0"
  using assms unfolding custom_inv_def by blast

lemma custom_invD:
  assumes "custom_inv P mapped live0 original hs w"
  shows "ci \<in> set (cw_held w) \<Longrightarrow> ci_save ci \<noteq> None" "distinct (map ci_save (cw_held w))"
    "stubs_of hs \<inter> held_stubs (cw_held w) = {}" "chains_ok original hs w"
  using assms unfolding custom_inv_def by blast+

text \<open>An installer that is kept.\<close>

lemma make_inv:
  assumes inv: "custom_inv P mapped live0 original hs w" and run: "do_custom P (Make_custom acquired t) w = Some w'"
  shows "custom_inv P mapped live0 original hs w'"
proof (cases acquired)
  case (Some err)
  with run inv show ?thesis by (simp add: custom_def)
next
  case None
  obtain live where live: "os_owned P mapped (cw_alloc w) live" "set live0 \<subseteq> set live"
      "\<And>p. p \<in> stubs_of hs \<union> held_stubs (cw_held w) \<Longrightarrow> (p, p + 56) \<in> set live - set live0"
    using custom_invE [OF inv] by metis
  obtain res al where al: "os_alloc_near P CONTEXT_SAVE_LAYOUT 0xdeadbeef Unbounded Unbounded (cw_alloc w) = Some (res, al)"
    using run None by (auto simp: custom_def os_alloc_def bind_eq_Some_conv)
  show ?thesis
  proof (cases "\<exists>p. res = Inr (Some p)")
    case False
    then have "w' = w\<lparr>cw_alloc := al\<rparr>"
      using run None al by (auto simp: custom_def os_alloc_def split: sum.splits option.splits)
    moreover have "os_owned P mapped al live" by (rule os.alloc_other [OF live(1) _ _ al]) (use False in simp_all)
    ultimately show ?thesis using live(2,3) custom_invD [OF inv] by (auto simp: custom_inv_def chains_ok_def)
  next
    case True
    then obtain p where p: "res = Inr (Some p)" by blast
    then have w': "w' = w\<lparr>cw_alloc := al, cw_held := cw_held w @ [\<lparr>ci_target = t, ci_save = Some p\<rparr>]\<rparr>"
      using run None al by (auto simp: custom_def os_alloc_def)
    have own: "os_owned P mapped al ((p, p + 56) # live)"
      using os.alloc_some [OF live(1) _ _ al [unfolded p]] by simp
    have new: "(p, p + 56) \<notin> set live" by (rule owned_new [OF own])
    have held: "held_stubs (cw_held w') = insert p (held_stubs (cw_held w))" by (auto simp: w' held_stubs_def)
    have apart: "p \<notin> stubs_of hs \<union> held_stubs (cw_held w)" using live(3) [of p] new by blast
    then have "Some p \<notin> ci_save ` set (cw_held w)" by (simp add: held_stubs_def)
    then have "distinct (map ci_save (cw_held w'))" using custom_invD(2) [OF inv] by (simp add: w')
    moreover have "(q, q + 56) \<in> set ((p, p + 56) # live) - set live0" if "q \<in> stubs_of hs \<union> held_stubs (cw_held w')" for q
      using that live(2,3) new unfolding held by auto
    ultimately show ?thesis
      using own live(2) custom_invD [OF inv] apart unfolding custom_inv_def
      by (intro conjI exI [of _ "(p, p + 56) # live"]) (auto simp: held, auto simp: w' chains_ok_def)
  qed
qed

lemma alloc_inv:
  assumes inv: "custom_inv P mapped live0 original hs w" and l: "layout_ok l" "0 < layout_size l"
    and run: "do_custom P (Alloc_elsewhere l ptr start end) w = Some w'"
  shows "custom_inv P mapped live0 original hs w'"
proof -
  obtain live where live: "os_owned P mapped (cw_alloc w) live" "set live0 \<subseteq> set live"
      "\<And>p. p \<in> stubs_of hs \<union> held_stubs (cw_held w) \<Longrightarrow> (p, p + 56) \<in> set live - set live0"
    using custom_invE [OF inv] by metis
  obtain res al where al: "os_alloc_near P l ptr start end (cw_alloc w) = Some (res, al)" and w': "w' = w\<lparr>cw_alloc := al\<rparr>"
    using run by auto
  have "\<exists>live'. os_owned P mapped al live' \<and> set live \<subseteq> set live'"
    using os.alloc_some [OF live(1) l, of ptr start "end" _ al] os.alloc_other [OF live(1) l al] al
    by (cases res; cases "projr res") (auto intro: exI [of _ live] exI [of _ "(_, _) # live"])
  then obtain live' where "os_owned P mapped al live'" "set live \<subseteq> set live'" by blast
  then show ?thesis
    using live(2,3) custom_invD [OF inv] unfolding custom_inv_def w' chains_ok_def by simp blast
qed

lemma drop_inv:
  assumes inv: "custom_inv P mapped live0 original hs w" and run: "do_custom P (Drop_custom acquired i) w = Some w'"
  shows "custom_inv P mapped live0 original hs w'"
proof (cases "i < length (cw_held w)")
  case False
  with run inv show ?thesis by simp
next
  case True
  obtain live where live: "os_owned P mapped (cw_alloc w) live" "set live0 \<subseteq> set live"
      "\<And>p. p \<in> stubs_of hs \<union> held_stubs (cw_held w) \<Longrightarrow> (p, p + 56) \<in> set live - set live0"
    using custom_invE [OF inv] by metis
  obtain p where p: "ci_save (cw_held w ! i) = Some p" using custom_invD(1) [OF inv nth_mem [OF True]] by blast
  note held = held_without [OF custom_invD(2) [OF inv] True p]
  have "\<exists>al live'. w' = w\<lparr>cw_held := without i (cw_held w), cw_alloc := al\<rparr> \<and> os_owned P mapped al live'
      \<and> set live - {(p, p + 56)} \<subseteq> set live'"
  proof (cases acquired)
    case (Some err)
    with run True p live(1) show ?thesis
      by (intro exI [of _ "cw_alloc w"] exI [of _ live]) (auto simp: drop_context_save_def)
  next
    case None
    obtain al where al: "os_reclaim p 56 (cw_alloc w) = Some al" "w' = w\<lparr>cw_held := without i (cw_held w), cw_alloc := al\<rparr>"
      using run True p None by (auto simp: drop_context_save_def)
    obtain pre post where live': "live = pre @ (p, p + 56) # post" "set (pre @ post) = set live - {(p, p + 56)}"
      using owned_split [OF live(1), of "(p, p + 56)"] live(3) [of p] held(2) by auto
    have "os_owned P mapped al (pre @ post)" by (rule os.free_live [OF live(1) [unfolded live'(1)] al(1)])
    then show ?thesis
      using al(2) live'(2) by (intro exI [of _ al] exI [of _ "pre @ post"]) simp
  qed
  then obtain al live' where w': "w' = w\<lparr>cw_held := without i (cw_held w), cw_alloc := al\<rparr>"
      and own: "os_owned P mapped al live'" "set live - {(p, p + 56)} \<subseteq> set live'" by blast
  have "set live0 \<subseteq> set live'" using own(2) live(2) live(3) [of p] held(2) by blast
  moreover have "(q, q + 56) \<in> set live' - set live0" if "q \<in> stubs_of hs \<union> held_stubs (without i (cw_held w))" for q
    using that own(2) live(3) [of q] held custom_invD(3) [OF inv] by blast
  ultimately show ?thesis
    using own(1) custom_invD [OF inv] held(1) distinct_without [OF custom_invD(2) [OF inv] True] set_without [of i "cw_held w"]
    unfolding custom_inv_def w' by (auto simp: chains_ok_def)
qed

text \<open>A hook that is made: its stub comes first in the chain of its function.\<close>

lemma hook_inv:
  assumes inv: "custom_inv P mapped live0 original hs w" and i: "i < length (cw_held w)"
    and run: "do_custom P (Hook_custom i data proc) w = Some w'"
  shows "\<exists>p. ci_save (cw_held w ! i) = Some p \<and> custom_inv P mapped live0 original
    (hs(ci_target (cw_held w ! i) := (p, data, proc) # hs (ci_target (cw_held w ! i)))) w'"
proof -
  let ?t = "ci_target (cw_held w ! i)"
  obtain live where live: "os_owned P mapped (cw_alloc w) live" "set live0 \<subseteq> set live"
      "\<And>p. p \<in> stubs_of hs \<union> held_stubs (cw_held w) \<Longrightarrow> (p, p + 56) \<in> set live - set live0"
    using custom_invE [OF inv] by metis
  obtain p where p: "ci_save (cw_held w ! i) = Some p" using custom_invD(1) [OF inv nth_mem [OF i]] by blast
  note held = held_without [OF custom_invD(2) [OF inv] i p]
  let ?hs = "hs(?t := (p, data, proc) # hs ?t)"
  let ?m = "write64 (p + offset_of ContextSave ''next'') (cw_thunk w ?t)
    (write_bytes p (context_save_bytes (context_save_new data proc)) (cw_mem w))"
  have w': "w' = w\<lparr>cw_held := without i (cw_held w), cw_mem := ?m, cw_thunk := (cw_thunk w)(?t := p)\<rparr>"
    using run i p by (simp add: leak_hook_def Let_def)
  have stubs: "stubs_of ?hs = insert p (stubs_of hs)" by (simp add: stubs_of_cons)
  have apart: "p \<notin> stubs_of hs" using held(2) custom_invD(3) [OF inv] by blast
  have keep: "?m a = cw_mem w a" if q: "q \<in> stubs_of hs" "q \<le> a" "a < q + 56" for q a
  proof -
    have "(q, q + 56) = (p, p + 56) \<or> apart (q, q + 56) (p, p + 56)"
      by (rule owned_pair [OF live(1)]) (use live(3) [of q] live(3) [of p] held(2) q(1) in auto)
    then have "a < p \<or> p + 56 \<le> a" using q apart by (auto simp: apart_def)
    then show ?thesis by (auto simp: write64_outside write_bytes_outside)
  qed
  have "chained ?m (cw_thunk w t) (hs t) (original t)" for t
    by (rule chained_frame [where m = "cw_mem w"])
      (use custom_invD(4) [OF inv] in \<open>simp add: chains_ok_def\<close>, rule keep [OF stubs_of_at])
  with stub_written [of p "cw_thunk w ?t"] have "chained ?m (if t = ?t then p else cw_thunk w t) (?hs t) (original t)" for t
    by (cases "t = ?t") (simp, blast, simp)
  then have "chains_ok original ?hs w'" by (simp add: chains_ok_def w')
  moreover have "(q, q + 56) \<in> set live - set live0" if "q \<in> stubs_of ?hs \<union> held_stubs (without i (cw_held w))" for q
    using that live(3) held unfolding stubs by blast
  ultimately have "custom_inv P mapped live0 original ?hs w'"
    using live(1,2) custom_invD(1,2,3) [OF inv] held(1) distinct_without [OF custom_invD(2) [OF inv] i]
      set_without [of i "cw_held w"] apart unfolding custom_inv_def stubs by (auto simp: w')
  with p show ?thesis by blast
qed

text \<open>What the program asks for is an address and a layout that Rust admits.\<close>

fun custom_event_ok :: "custom_event \<Rightarrow> bool" where
  "custom_event_ok (Hook_custom i data proc) \<longleftrightarrow> data < usize_size \<and> proc < usize_size"
| "custom_event_ok (Alloc_elsewhere l ptr start end) \<longleftrightarrow> layout_ok l \<and> 0 < layout_size l"
| "custom_event_ok _ \<longleftrightarrow> True"

lemma do_custom_inv:
  assumes "custom_inv P mapped live0 original hs w" and "custom_event_ok ev" and "do_custom P ev w = Some w'"
  shows "\<exists>hs'. custom_inv P mapped live0 original hs' w' \<and> stubs_of hs' = stubs_by ev w \<union> stubs_of hs
    \<and> (\<forall>t. map snd (hs' t) = made_by ev w t @ map snd (hs t))"
proof (cases ev)
  case (Make_custom acquired t)
  with make_inv [OF assms(1)] assms(3) show ?thesis by (intro exI [of _ hs]) simp
next
  case (Hook_custom i data "proc")
  show ?thesis
  proof (cases "i < length (cw_held w)")
    case True
    from hook_inv [OF assms(1) this assms(3) [unfolded Hook_custom]] obtain p where
      "ci_save (cw_held w ! i) = Some p"
      "custom_inv P mapped live0 original (hs(ci_target (cw_held w ! i) := (p, data, proc) # hs (ci_target (cw_held w ! i)))) w'"
      by blast
    with True show ?thesis unfolding Hook_custom by (intro exI conjI) (auto simp: stubs_of_cons)
  qed (use assms Hook_custom in \<open>intro exI [of _ hs], simp\<close>)
next
  case (Drop_custom acquired i)
  with drop_inv [OF assms(1)] assms(3) show ?thesis by (intro exI [of _ hs]) (simp del: do_custom.simps)
next
  case (Alloc_elsewhere l ptr start "end")
  have "custom_inv P mapped live0 original hs w'"
    by (rule alloc_inv [OF assms(1) _ _ assms(3) [unfolded Alloc_elsewhere]]) (use assms(2) Alloc_elsewhere in simp_all)
  with Alloc_elsewhere show ?thesis by (intro exI [of _ hs]) simp
qed

lemma do_customs_inv:
  assumes "custom_inv P mapped live0 original hs w" and "\<forall>ev \<in> set es. custom_event_ok ev" and "do_customs P es w = Some w'"
  shows "\<exists>hs'. custom_inv P mapped live0 original hs' w' \<and> stubs_of hs' = custom_stubs P es w \<union> stubs_of hs
    \<and> (\<forall>t. map snd (hs' t) = custom_hooks P es w t @ map snd (hs t))"
  using assms
proof (induction es arbitrary: hs w)
  case (Cons ev es)
  then obtain w1 where w1: "do_custom P ev w = Some w1" "do_customs P es w1 = Some w'"
    by (auto simp: bind_eq_Some_conv simp del: do_custom.simps)
  obtain hs1 where
    hs1: "custom_inv P mapped live0 original hs1 w1" "stubs_of hs1 = stubs_by ev w \<union> stubs_of hs"
      "\<forall>t. map snd (hs1 t) = made_by ev w t @ map snd (hs t)"
    using do_custom_inv [OF Cons.prems(1) _ w1(1)] Cons.prems(2) by auto
  obtain hs2 where "custom_inv P mapped live0 original hs2 w'" "stubs_of hs2 = custom_stubs P es w1 \<union> stubs_of hs1"
      "\<forall>t. map snd (hs2 t) = custom_hooks P es w1 t @ map snd (hs1 t)"
    using Cons.IH [OF hs1(1) _ w1(2)] Cons.prems(2) by auto
  then show ?case using hs1(2,3) w1(1) by (intro exI [of _ hs2]) (auto simp del: do_custom.simps)
qed auto

lemma custom_hooks_bounds:
  "\<forall>ev \<in> set es. custom_event_ok ev \<Longrightarrow> (data, proc) \<in> set (custom_hooks P es w t) \<Longrightarrow> data < usize_size \<and> proc < usize_size"
proof (induction es arbitrary: w)
  case (Cons ev es)
  then show ?case by (cases ev) (auto simp del: do_custom.simps split: option.splits if_splits)
qed simp

lemma custom_start:
  assumes "os_owned P mapped (cw_alloc w) live" and "cw_held w = []"
  shows "custom_inv P mapped live (cw_thunk w) (\<lambda>_. []) w"
  using assms by (auto simp: custom_inv_def stubs_of_def held_stubs_def chains_ok_def)

section \<open>A call\<close>

text \<open>
  A stub runs with the save routine and the compiled hook its \<open>proc\<close> stands for; \<open>E\<close> gives the
  environment of each. The machine runs stub after stub as long as it arrives at one of \<open>Q\<close>; the
  closures the compiled hooks are given are noted.
\<close>

definition stub_env :: "(nat \<Rightarrow> 'x environment) \<Rightarrow> memory \<Rightarrow> nat \<Rightarrow> 'x environment" where
  "stub_env E m q = (E (read64 (q + offset_of ContextSave ''proc'') m))\<lparr>e_stub := q\<rparr>"

fun run_stubs :: "nat \<Rightarrow> (nat \<Rightarrow> 'x environment) \<Rightarrow> nat set \<Rightarrow> 'x machine \<Rightarrow> nat list \<times> 'x machine" where
  "run_stubs 0 E Q s = ([], s)"
| "run_stubs (Suc n) E Q s =
     (if m_rip s \<in> Q
      then (let e = stub_env E (m_mem s) (m_rip s);
                (ds, s') = run_stubs n E Q (run_machine 10 e s)
            in (m_regs (run_machine 6 e s) 7 # ds, s'))
      else ([], s))"

text \<open>
  A compiled hook that returns by the convention and leaves all stubs alone, and one that leaves the saved
  registers alone too.
\<close>

definition orderly_hook :: "'x environment \<Rightarrow> nat set \<Rightarrow> bool" where
  "orderly_hook e Q \<longleftrightarrow> (\<forall>s. m_rip s = addr_of e Call_proc \<longrightarrow> abi_return e (m_regs s 5) s (e_hook e s)
     \<and> (\<forall>a. (\<exists>q \<in> Q. q \<le> a \<and> a < q + 56) \<longrightarrow> m_mem (e_hook e s) a = m_mem s a))"

definition quiet_hook :: "'x environment \<Rightarrow> bool" where
  "quiet_hook e \<longleftrightarrow> (\<forall>s. m_rip s = addr_of e Call_proc \<longrightarrow>
     (\<forall>a. m_regs s 6 \<le> a \<and> a < m_regs s 6 + 144 + XSAVE_SIZE (e_cfg e) \<longrightarrow> m_mem (e_hook e s) a = m_mem s a))"

text \<open>
  The save routine \<open>proc\<close> in front of the stack, for a stub in \<open>Q\<close>, on a processor with the given XCR0.
\<close>

definition routine_ok :: "64 word \<Rightarrow> (nat \<Rightarrow> (nat \<Rightarrow> 'c) environment) \<Rightarrow> nat set \<Rightarrow> nat \<Rightarrow> nat \<Rightarrow> nat \<Rightarrow> bool" where
  "routine_ok xcr0 E Q sp q proc \<longleftrightarrow> (let e = (E proc)\<lparr>e_stub := q\<rparr>; S = XSAVE_SIZE (e_cfg e)
     in code_ok e \<and> addr_of e Save_proc = proc \<and> (\<exists>xsavec cpuid. context_save_config xcr0 xsavec cpuid = Some (e_cfg e))
        \<and> xsave_documented xcr0 e \<and> orderly_hook e Q
        \<and> S + 512 \<le> sp \<and> (\<forall>q' \<in> Q. sp \<le> q' \<or> q' + S + 512 \<le> sp))"

text \<open>The same registers, flags and components of the extended state from x87 to AVX-512 that are enabled.\<close>

definition same_registers :: "64 word \<Rightarrow> (nat \<Rightarrow> 'c) machine \<Rightarrow> (nat \<Rightarrow> 'c) machine \<Rightarrow> bool" where
  "same_registers xcr0 s s' \<longleftrightarrow> (\<forall>n < 16. m_regs s' n = m_regs s n) \<and> m_flags s' = m_flags s
     \<and> (\<forall>i \<in> {0, 1, 2, 5, 6, 7}. bit xcr0 i \<longrightarrow> m_xstate s' i = m_xstate s i)"

lemma same_registers_trans: "same_registers xcr0 s s' \<Longrightarrow> same_registers xcr0 s' s'' \<Longrightarrow> same_registers xcr0 s s''"
  by (simp add: same_registers_def)

lemma stub_holds_read:
  assumes "stub_holds m q data proc nxt" "data < usize_size" "proc < usize_size" "nxt < usize_size"
  shows "read64 (q + 40) m = proc"
  using stub_pointers [of m q "context_save_chain nxt (context_save_new data proc)"] assms
  by (simp add: stub_holds_def context_save_chain_def context_save_new_def)

lemma run_one_stub:
  assumes rip: "m_rip s = q" and q: "q \<in> Q" and holds: "stub_holds (m_mem s) q data proc nxt"
    and b: "data < usize_size" "proc < usize_size" "nxt < usize_size"
    and regs: "\<forall>r < 16. m_regs s r < usize_size" "m_flags s < usize_size"
    and ok: "routine_ok xcr0 E Q (m_regs s 4) q proc"
  shows "m_regs (run_machine 6 (stub_env E (m_mem s) q) s) 7 = data
    \<and> (\<exists>s'. run_machine 10 (stub_env E (m_mem s) q) s = s' \<and> m_rip s' = nxt \<and> m_regs s' 4 = m_regs s 4
        \<and> (\<forall>r < 16. m_regs s' r < usize_size) \<and> m_flags s' < usize_size
        \<and> (quiet_hook ((E proc)\<lparr>e_stub := q\<rparr>) \<longrightarrow> same_registers xcr0 s s')
        \<and> (\<forall>q' \<in> Q. \<forall>a. q' \<le> a \<and> a < q' + 56 \<longrightarrow> m_mem s' a = m_mem s a))"
proof -
  define e where "e = (E proc)\<lparr>e_stub := q\<rparr>"
  let ?S = "XSAVE_SIZE (e_cfg e)"
  have env: "stub_env E (m_mem s) q = e" using stub_holds_read [OF holds b] by (simp add: stub_env_def e_def)
  obtain xsavec cpuid where cfg: "context_save_config xcr0 xsavec cpuid = Some (e_cfg e)"
    using ok unfolding routine_ok_def Let_def e_def [symmetric] by blast
  have e: "code_ok e" "addr_of e Save_proc = proc" "xsave_documented xcr0 e" "orderly_hook e Q" "?S + 512 \<le> m_regs s 4"
      "\<And>q'. q' \<in> Q \<Longrightarrow> m_regs s 4 \<le> q' \<or> q' + ?S + 512 \<le> m_regs s 4" and st: "e_stub e = q"
    using ok unfolding routine_ok_def Let_def e_def [symmetric] by (simp_all add: e_def)
  have entry: "entry_ok e data nxt s"
    using rip holds b regs e(1,2,5) e(6) [OF q] st by (simp add: entry_ok_def stub_at_def stub_holds_def)
  note lay = frame_layout [OF entry]
  obtain s1 where s1: "run_machine 6 e s = s1" "m_rip s1 = addr_of e Call_proc" "m_regs s1 5 = m_regs s 4 - 160"
      "m_regs s1 7 = data" "m_regs s1 6 = saved_at e (m_regs s 4)" "m_mem s1 = hook_memory e (m_regs s 4 - 160) (saved_at e (m_regs s 4)) s"
    using run_to_hook [OF entry] by auto
  have abi: "abi_return e (m_regs s 4 - 160) s1 (e_hook e s1)"
    using e(4) s1(2,3) unfolding orderly_hook_def by metis
  have stubs: "m_mem (e_hook e s1) a = m_mem s1 a" if "q' \<in> Q" "q' \<le> a" "a < q' + 56" for q' a
    using e(4) s1(2) that unfolding orderly_hook_def by blast
  obtain s' where s': "run_machine 10 e s = s'" "m_rip s' = nxt" "m_regs s' 4 = m_regs s 4"
      "\<forall>n < 16. n \<noteq> 4 \<longrightarrow> m_regs s' n = read64 (reg_slot (m_regs s1 6) n) (m_mem (e_hook e s1))"
      "m_flags s' = read64 (m_regs s1 6) (m_mem (e_hook e s1))"
      "\<forall>a. a < m_regs s 4 - 160 \<or> m_regs s 4 - 152 \<le> a \<longrightarrow> m_mem s' a = m_mem (e_hook e s1) a"
    using run_hooked [OF entry s1(1) abi] by blast
  have "m_regs s' r < usize_size" if "r < 16" for r
    using s'(3,4) that regs(1) by (cases "r = 4") simp_all
  moreover have "m_flags s' < usize_size" by (simp add: s'(5))
  moreover have "same_registers xcr0 s s'" if quiet: "quiet_hook e"
  proof -
    have area: "m_mem (e_hook e s1) a = m_mem s1 a" if "m_regs s1 6 \<le> a" "a < m_regs s1 6 + 144 + ?S" for a
      using quiet s1(2) that unfolding quiet_hook_def by blast
    from run_transparent [OF entry cfg e(3) s1(1) abi area] s'(1) show ?thesis
      by (auto simp: same_registers_def saved_components_def)
  qed
  moreover have "m_mem s' a = m_mem s a" if "q' \<in> Q" "q' \<le> a" "a < q' + 56" for q' a
  proof -
    have out: "a + 8 < m_regs s1 6 \<or> m_regs s 4 \<le> a"
      using e(6) [OF that(1)] that(2,3) lay(1,3,4,10) s1(5) by linarith
    then have "a < m_regs s 4 - 160 \<or> m_regs s 4 - 152 \<le> a" using s1(5) lay(1,4) by linarith
    then have "m_mem s' a = m_mem (e_hook e s1) a" using s'(6) by blast
    also have "\<dots> = m_mem s1 a" by (rule stubs [OF that])
    also have "\<dots> = m_mem s a"
      unfolding s1(6) by (rule hook_memory_outside [OF entry]) (use out s1(5) lay(1) in linarith)
    finally show ?thesis .
  qed
  ultimately show ?thesis using env s1(1,4) s'(1-3) unfolding e_def [symmetric] by auto
qed

text \<open>A whole chain.\<close>

lemma run_chain:
  assumes "chained (m_mem s) (m_rip s) hs original" and "fst ` set hs \<subseteq> Q" and "original \<notin> Q"
    and "original < usize_size" and "\<forall>(q, data, proc) \<in> set hs. q < usize_size \<and> data < usize_size \<and> proc < usize_size"
    and "\<forall>r < 16. m_regs s r < usize_size" "m_flags s < usize_size"
    and "\<forall>(q, data, proc) \<in> set hs. routine_ok xcr0 E Q (m_regs s 4) q proc" and "length hs \<le> n"
  shows "\<exists>s'. run_stubs n E Q s = (map (fst \<circ> snd) hs, s') \<and> m_rip s' = original
    \<and> ((\<forall>(q, data, proc) \<in> set hs. quiet_hook ((E proc)\<lparr>e_stub := q\<rparr>)) \<longrightarrow> same_registers xcr0 s s')"
  using assms
proof (induction hs arbitrary: s n)
  case Nil
  then show ?case by (cases n) (auto simp: same_registers_def)
next
  case (Cons h hs)
  obtain q data "proc" where h: "h = (q, data, proc)" by (cases h)
  from Cons.prems(1) obtain nxt where nxt: "m_rip s = q" "stub_holds (m_mem s) q data proc nxt" "chained (m_mem s) nxt hs original"
    by (auto simp: h)
  have "nxt < usize_size" using nxt(3) Cons.prems(4,5) by (cases hs) auto
  then obtain s' where s': "m_regs (run_machine 6 (stub_env E (m_mem s) q) s) 7 = data"
      "run_machine 10 (stub_env E (m_mem s) q) s = s'" "m_rip s' = nxt" "m_regs s' 4 = m_regs s 4"
      "\<forall>r < 16. m_regs s' r < usize_size" "m_flags s' < usize_size"
      "quiet_hook ((E proc)\<lparr>e_stub := q\<rparr>) \<longrightarrow> same_registers xcr0 s s'"
      "\<forall>q' \<in> Q. \<forall>a. q' \<le> a \<and> a < q' + 56 \<longrightarrow> m_mem s' a = m_mem s a"
    using run_one_stub [OF nxt(1) _ nxt(2), of Q xcr0 E] Cons.prems(2,5-8) by (auto simp: h)
  obtain k where n: "n = Suc k" "length hs \<le> k" using Cons.prems(9) by (cases n) auto
  have "chained (m_mem s') (m_rip s') hs original"
    unfolding s'(3) by (rule chained_frame [OF nxt(3)]) (use s'(8) Cons.prems(2) in auto)
  from Cons.IH [OF this _ Cons.prems(3,4) _ s'(5,6) _ n(2)] Cons.prems s'(4) have "\<exists>s''.
    run_stubs k E Q s' = (map (fst \<circ> snd) hs, s'') \<and> m_rip s'' = original
    \<and> ((\<forall>(q, data, proc) \<in> set hs. quiet_hook ((E proc)\<lparr>e_stub := q\<rparr>)) \<longrightarrow> same_registers xcr0 s' s'')"
    by (simp add: comp_def)
  then obtain s'' where s'': "run_stubs k E Q s' = (map (fst \<circ> snd) hs, s'')" "m_rip s'' = original"
    "(\<forall>(q, data, proc) \<in> set hs. quiet_hook ((E proc)\<lparr>e_stub := q\<rparr>)) \<longrightarrow> same_registers xcr0 s' s''" by blast
  have "same_registers xcr0 s s''" if "\<forall>(q, data, proc) \<in> set (h # hs). quiet_hook ((E proc)\<lparr>e_stub := q\<rparr>)"
    using that s'(7) s''(3) same_registers_trans [of xcr0 s s' s''] by (simp add: h)
  moreover have "run_stubs n E Q s = (map (fst \<circ> snd) (h # hs), s'')"
    using nxt(1) s'(1,2) s''(1) Cons.prems(2) by (simp add: n(1) h)
  ultimately show ?case using s''(2) by blast
qed

section \<open>Property\<close>

text \<open>
  C16. Custom hooks run in order. After any history of custom hooks made, dropped unused and memory allocated
  elsewhere, a call of a function runs each custom hook made on it, the newest first, each with its own
  closure, and no other, and arrives at what the function's thunk pointed to before. The compiled hooks may
  do anything but break the calling convention and write to stubs; the saved registers they may change. When
  all of them leave the saved registers alone, the call arrives with every register, the flags and every enabled
  component of the extended state from x87 to AVX-512 as at the call.
\<close>

theorem custom_hooks_in_order:
  assumes "os_owned P mapped (cw_alloc w) live" and "cw_held w = []"
    and "b \<in> set live" and "fst b \<le> cw_thunk w t" and "cw_thunk w t < snd b"
    and "\<forall>ev \<in> set es. custom_event_ok ev" and "do_customs P es w = Some w'"
    and "m_mem s = cw_mem w'" and "m_rip s = cw_thunk w' t" and "\<forall>r < 16. m_regs s r < usize_size" and "m_flags s < usize_size"
    and "Q = custom_stubs P es w"
    and "\<forall>(data, proc) \<in> set (custom_hooks P es w t). \<forall>q \<in> Q. routine_ok xcr0 E Q (m_regs s 4) q proc"
    and "length (custom_hooks P es w t) \<le> n"
  shows "\<exists>s'. run_stubs n E Q s = (map fst (custom_hooks P es w t), s') \<and> m_rip s' = cw_thunk w t
    \<and> ((\<forall>(data, proc) \<in> set (custom_hooks P es w t). \<forall>q \<in> Q. quiet_hook ((E proc)\<lparr>e_stub := q\<rparr>)) \<longrightarrow> same_registers xcr0 s s')"
proof -
  obtain hs where inv: "custom_inv P mapped live (cw_thunk w) hs w'" and Q: "stubs_of hs = Q"
      and hs: "map snd (hs t) = custom_hooks P es w t"
    using do_customs_inv [OF custom_start [OF assms(1,2)] assms(6,7)] assms(12) by (auto simp: stubs_of_def)
  obtain live' where own: "os_owned P mapped (cw_alloc w') live'" "set live \<subseteq> set live'"
      "\<And>p. p \<in> Q \<Longrightarrow> (p, p + 56) \<in> set live' - set live"
    using custom_invE [OF inv] Q by (metis UnI1)
  have stubs: "fst ` set (hs t) \<subseteq> Q" using Q by (auto simp: stubs_of_def)
  have "cw_thunk w t \<notin> Q"
  proof
    assume q: "cw_thunk w t \<in> Q"
    have "b = (cw_thunk w t, cw_thunk w t + 56) \<or> apart b (cw_thunk w t, cw_thunk w t + 56)"
      by (rule owned_pair [OF own(1)]) (use own(2,3) q assms(3) in blast)+
    then show False using own(3) [OF q] assms(3-5) by (auto simp: apart_def)
  qed
  moreover have "cw_thunk w t < usize_size"
    using os.owned_room [OF assms(1,3)] assms(5) by (simp add: va_max_def usize_defs)
  moreover have bound: "q < usize_size \<and> data < usize_size \<and> proc < usize_size" if "(q, data, proc) \<in> set (hs t)" for q data "proc"
  proof -
    have "q \<in> Q" using stubs that by force
    then have "q + 56 \<le> va_max" using os.owned_room [OF own(1), of "(q, q + 56)"] own(3) by auto
    moreover have h: "(data, proc) \<in> set (custom_hooks P es w t)" unfolding hs [symmetric] using that by force
    ultimately show ?thesis using custom_hooks_bounds [OF assms(6) h] by (simp add: va_max_def usize_defs)
  qed
  moreover have mine: "(data, proc) \<in> set (custom_hooks P es w t) \<and> q \<in> Q" if "(q, data, proc) \<in> set (hs t)" for q data "proc"
    using stubs that unfolding hs [symmetric] by force
  then have "routine_ok xcr0 E Q (m_regs s 4) q proc" if "(q, data, proc) \<in> set (hs t)" for q data "proc"
    using that assms(13) by blast
  moreover have "chained (m_mem s) (m_rip s) (hs t) (cw_thunk w t)"
    using custom_invD(4) [OF inv] by (simp add: chains_ok_def assms(8,9))
  moreover have "length (hs t) \<le> n" using assms(14) by (simp flip: hs)
  ultimately obtain s' where s': "run_stubs n E Q s = (map (fst \<circ> snd) (hs t), s')" "m_rip s' = cw_thunk w t"
      "(\<forall>(q, data, proc) \<in> set (hs t). quiet_hook ((E proc)\<lparr>e_stub := q\<rparr>)) \<longrightarrow> same_registers xcr0 s s'"
    using run_chain [OF _ stubs, of s "cw_thunk w t" xcr0 E n] assms(10,11) by blast
  have "same_registers xcr0 s s'" if "\<forall>(data, proc) \<in> set (custom_hooks P es w t). \<forall>q \<in> Q. quiet_hook ((E proc)\<lparr>e_stub := q\<rparr>)"
    using s'(3) that mine by blast
  with s'(1,2) show ?thesis by (simp flip: hs)
qed

text \<open>Two custom hooks on one function, whose thunk points to a block in use.\<close>

definition custom_memory :: "nat set" where
  "custom_memory = {30000..<30100} \<union> {65536..<73728}"

definition example_custom :: "nat set custom_world" where
  "example_custom = \<lparr>cw_alloc = (example_allocator, custom_memory), cw_mem = (\<lambda>_. 0), cw_thunk = (\<lambda>_. 30000), cw_held = []\<rparr>"

definition example_customs :: "custom_event list" where
  "example_customs = [Make_custom None 7, Make_custom None 7, Hook_custom 0 5000 20000, Hook_custom 0 6000 20000]"

lemma custom_owned: "os_owned (linux tracking_kernel) id (example_allocator, custom_memory) [(30000, 30100)]"
  by (simp add: os_owned_def tracking_maps_fresh owners_ok_def alloc_inv_def range_ok_def backed_def
      example_allocator_def va_max_def usize_defs custom_memory_def clear_of_def apart_def)

lemma custom_allocs:
  "alloc_near example_allocator CONTEXT_SAVE_LAYOUT 0xdeadbeef Unbounded Unbounded
    = Some (Some 73672, example_allocator\<lparr>ranges := [(65536, 73672)]\<rparr>)"
  "alloc_near (example_allocator\<lparr>ranges := [(65536, 73672)]\<rparr>) CONTEXT_SAVE_LAYOUT 0xdeadbeef Unbounded Unbounded
    = Some (Some 73616, example_allocator\<lparr>ranges := [(65536, 73616)]\<rparr>)"
  by (simp_all add: alloc_eval example_allocator_def CONTEXT_SAVE_LAYOUT_def)

lemma example_makes:
  "do_custom (linux tracking_kernel) (Make_custom None 7) example_custom
    = Some (example_custom\<lparr>cw_alloc := (example_allocator\<lparr>ranges := [(65536, 73672)]\<rparr>, custom_memory),
        cw_held := [\<lparr>ci_target = 7, ci_save = Some 73672\<rparr>]\<rparr>)" (is "_ = Some ?w1")
  "do_custom (linux tracking_kernel) (Make_custom None 7) (example_custom\<lparr>cw_alloc := (example_allocator\<lparr>ranges := [(65536, 73672)]\<rparr>, custom_memory),
        cw_held := [\<lparr>ci_target = 7, ci_save = Some 73672\<rparr>]\<rparr>)
    = Some (example_custom\<lparr>cw_alloc := (example_allocator\<lparr>ranges := [(65536, 73616)]\<rparr>, custom_memory),
        cw_held := [\<lparr>ci_target = 7, ci_save = Some 73672\<rparr>, \<lparr>ci_target = 7, ci_save = Some 73616\<rparr>]\<rparr>)"
  using custom_allocs by (simp_all add: custom_def os_alloc_def os_alloc_near_def example_custom_def)

lemma example_customs_run:
  "\<exists>w'. do_customs (linux tracking_kernel) example_customs example_custom = Some w' \<and> cw_thunk w' 7 = 73616"
  "custom_hooks (linux tracking_kernel) example_customs example_custom 7 = [(6000, 20000), (5000, 20000)]"
  "custom_stubs (linux tracking_kernel) example_customs example_custom = {73616, 73672}"
  unfolding example_customs_def do_customs.simps custom_hooks.simps custom_stubs.simps Option.bind.simps option.case example_makes
  by (simp_all add: leak_hook_def Let_def without_def insert_commute)

lemma example_routine: "q \<in> {73616, 73672} \<Longrightarrow> routine_ok 3 (\<lambda>_. example_env id) {73616, 73672} 4096 q 20000"
proof -
  assume q: "q \<in> {73616, 73672 :: nat}"
  let ?e = "example_env id\<lparr>e_stub := q\<rparr>"
  have sel: "e_cfg ?e = e_cfg (example_env id)" "e_xsave ?e = e_xsave (example_env id)" "e_hook ?e = returning id"
      "addr_of ?e l = (if l = Stub then q else if l = Stub_ret then q + 11 else example_addr l)" for l
    by (simp_all add: addr_of_def example_env_def split: label.split)
  have "distinct (map (addr_of ?e) LABELS)" using q by (auto simp: LABELS_def sel)
  moreover have "addr_of ?e l < usize_size" for l using q example_addr_bound by (auto simp: sel usize_defs)
  ultimately have "code_ok ?e" using q by (auto simp: code_ok_def sel usize_defs)
  moreover have "orderly_hook ?e {73616, 73672}" by (simp add: orderly_hook_def sel abi_return_def returning_def)
  moreover have "xsave_documented 3 ?e" using example_documented [of id] unfolding xsave_documented_def by simp
  ultimately show ?thesis using q example_config by (auto simp: routine_ok_def sel Let_def)
qed

lemma example_quiet: "quiet_hook ((example_env id)\<lparr>e_stub := q\<rparr>)"
proof -
  have "e_hook ((example_env id)\<lparr>e_stub := q\<rparr>) = returning id" by (simp add: example_env_def)
  then show ?thesis by (simp add: quiet_hook_def returning_def)
qed

theorem custom_hooks_in_order_witness:
  "\<exists>w'. do_customs (linux tracking_kernel) example_customs example_custom = Some w'
    \<and> (let s = example_machine\<lparr>m_rip := cw_thunk w' 7, m_mem := cw_mem w'\<rparr>;
           (called, s') = run_stubs 2 (\<lambda>_. example_env id) {73616, 73672} s
       in called = [6000, 5000] \<and> m_rip s' = 30000 \<and> m_regs s' 0 = 100 \<and> m_xstate s' 1 = 18)"
proof -
  obtain w' where w': "do_customs (linux tracking_kernel) example_customs example_custom = Some w'" "cw_thunk w' 7 = 73616"
    using example_customs_run(1) by blast
  let ?s = "example_machine\<lparr>m_rip := cw_thunk w' 7, m_mem := cw_mem w'\<rparr>"
  have "\<exists>s'. run_stubs 2 (\<lambda>_. example_env id) {73616, 73672} ?s = (map fst (custom_hooks (linux tracking_kernel) example_customs example_custom 7), s')
      \<and> m_rip s' = cw_thunk example_custom 7
      \<and> ((\<forall>(data, proc) \<in> set (custom_hooks (linux tracking_kernel) example_customs example_custom 7). \<forall>q \<in> {73616, 73672}.
            quiet_hook ((example_env id)\<lparr>e_stub := q\<rparr>)) \<longrightarrow> same_registers 3 ?s s')"
  proof (rule custom_hooks_in_order [where P = "linux tracking_kernel" and w = example_custom and w' = w'])
    show "os_owned (linux tracking_kernel) id (cw_alloc example_custom) [(30000, 30100)]" "cw_held example_custom = []"
      using custom_owned by (simp_all add: example_custom_def)
    show "(30000, 30100) \<in> set [(30000 :: nat, 30100 :: nat)]" by simp
    show "\<forall>ev \<in> set example_customs. custom_event_ok ev" by (simp add: example_customs_def usize_defs)
    show "\<forall>r < 16. m_regs ?s r < usize_size" "m_flags ?s < usize_size" by (simp_all add: example_machine_def usize_defs)
    show "{73616, 73672} = custom_stubs (linux tracking_kernel) example_customs example_custom" by (simp add: example_customs_run(3))
    show "\<forall>(data, proc) \<in> set (custom_hooks (linux tracking_kernel) example_customs example_custom 7). \<forall>q \<in> {73616, 73672}.
        routine_ok 3 (\<lambda>_. example_env id) {73616, 73672} (m_regs ?s 4) q proc"
      using example_routine by (simp add: example_customs_run(2))
    show "length (custom_hooks (linux tracking_kernel) example_customs example_custom 7) \<le> 2" by (simp add: example_customs_run(2))
  qed (use w'(1) in \<open>simp_all add: example_custom_def\<close>)
  then obtain s' where s': "run_stubs 2 (\<lambda>_. example_env id) {73616, 73672} ?s = ([6000, 5000], s')" "m_rip s' = 30000"
      "same_registers 3 ?s s'"
    by (simp add: example_customs_run(2) example_quiet) (auto simp: example_custom_def)
  from s'(3) have "m_regs s' 0 = m_regs ?s 0" "m_xstate s' 1 = m_xstate ?s 1"
    unfolding same_registers_def bit_3 by simp_all
  with s' w'(1) show ?thesis by (simp add: Let_def example_machine_def)
qed

end
