(* ===== verification/Windows_Memory.thy ===== *)
theory Windows_Memory
  imports Os_Alloc
begin

text \<open>
  The memory functions of Windows (\<open>installer/arch/os/windows.rs\<close>, the constants of \<open>windows/ffi.rs\<close>):
  what \<open>memory.rs\<close> needs of a platform. The Windows API is a record of its functions over a state of any
  type; a call that fails gives its error number.
\<close>

section \<open>The Windows API\<close>

definition PAGE_EXECUTE :: prot where "PAGE_EXECUTE = 0x10"
definition PAGE_EXECUTE_READ :: prot where "PAGE_EXECUTE_READ = 0x20"
definition PAGE_EXECUTE_READWRITE :: prot where "PAGE_EXECUTE_READWRITE = 0x40"
definition PAGE_EXECUTE_WRITECOPY :: prot where "PAGE_EXECUTE_WRITECOPY = 0x80"
definition PAGE_GUARD :: prot where "PAGE_GUARD = 0x100"
definition PAGE_NOCACHE :: prot where "PAGE_NOCACHE = 0x200"
definition PAGE_WRITECOMBINE :: prot where "PAGE_WRITECOMBINE = 0x400"

definition MEM_COMMIT :: "32 word" where "MEM_COMMIT = 0x1000"
definition MEM_RESERVE :: "32 word" where "MEM_RESERVE = 0x2000"
definition MEM_FREE :: "32 word" where "MEM_FREE = 0x10000"

definition ERROR_NOT_ENOUGH_MEMORY :: nat where "ERROR_NOT_ENOUGH_MEMORY = 8"
definition ERROR_INVALID_ADDRESS :: nat where "ERROR_INVALID_ADDRESS = 487"
definition ERROR_COMMITMENT_LIMIT :: nat where "ERROR_COMMITMENT_LIMIT = 1455"

lemmas page_defs = PAGE_EXECUTE_def PAGE_EXECUTE_READ_def PAGE_EXECUTE_READWRITE_def PAGE_EXECUTE_WRITECOPY_def
  PAGE_GUARD_def PAGE_NOCACHE_def PAGE_WRITECOMBINE_def

text \<open>\<open>MEMORY_BASIC_INFORMATION\<close> and \<open>SYSTEM_INFO\<close>, as far as they are used.\<close>

record memory_info =
  mi_base :: nat
  mi_size :: nat
  mi_state :: "32 word"
  mi_protect :: prot

record 'k winapi =
  wa_page :: nat
  wa_granularity :: nat
  wa_min :: nat
  wa_max :: nat
  wa_query :: "'k \<Rightarrow> nat \<Rightarrow> nat + memory_info"
  wa_alloc :: "'k \<Rightarrow> nat \<Rightarrow> nat \<Rightarrow> 32 word \<Rightarrow> prot \<Rightarrow> (nat + nat) \<times> 'k"
  wa_protect :: "'k \<Rightarrow> nat \<Rightarrow> nat \<Rightarrow> prot \<Rightarrow> nat option \<times> 'k"

section \<open>The code\<close>

definition win_sys_info :: "'k winapi \<Rightarrow> sys_info option" where
  "win_sys_info W = do {
     mx \<leftarrow> checked_add (wa_max W) 1;
     sys_info_new (wa_page W) (wa_granularity W) (wa_min W) mx
   }"

definition virtual_query :: "'k winapi \<Rightarrow> 'k \<Rightarrow> nat \<Rightarrow> io_error + memory_info" where
  "virtual_query W k p = (case wa_query W k p of Inl err \<Rightarrow> Inl (Os err) | Inr info \<Rightarrow> Inr info)"

definition win_protection_of :: "'k winapi \<Rightarrow> 'k \<Rightarrow> nat \<Rightarrow> io_error + prot" where
  "win_protection_of W k p =
     (case virtual_query W k p of
        Inl e \<Rightarrow> Inl e
      | Inr info \<Rightarrow> if mi_state info = MEM_COMMIT then Inr (mi_protect info) else Inl InvalidInput)"

definition win_protect :: "'k winapi \<Rightarrow> prot \<Rightarrow> nat \<Rightarrow> nat \<Rightarrow> 'k \<Rightarrow> (io_error + unit) \<times> 'k" where
  "win_protect W p ptr len k =
     (case wa_protect W k ptr len p of (None, k') \<Rightarrow> (Inr (), k') | (Some err, k') \<Rightarrow> (Inl (Os err), k'))"

definition win_try_into_rwx :: "prot \<Rightarrow> prot option" where
  "win_try_into_rwx p =
     (let p = p AND NOT (PAGE_GUARD OR PAGE_NOCACHE OR PAGE_WRITECOMBINE)
      in if p = PAGE_EXECUTE \<or> p = PAGE_EXECUTE_READ \<or> p = PAGE_EXECUTE_READWRITE then Some PAGE_EXECUTE_READWRITE
         else if p = PAGE_EXECUTE_WRITECOPY then Some p
         else None)"

definition win_make_rwx :: "'k winapi \<Rightarrow> nat \<Rightarrow> nat \<Rightarrow> 'k \<Rightarrow> (io_error + region) \<times> 'k" where
  "win_make_rwx W ptr len k =
     (case win_protection_of W k ptr of
        Inl e \<Rightarrow> (Inl e, k)
      | Inr old \<Rightarrow> (case win_try_into_rwx old of
            None \<Rightarrow> (Inl InvalidInput, k)
          | Some rwx \<Rightarrow> (case win_protect W rwx ptr len k of
              (Inl e, k') \<Rightarrow> (Inl e, k')
            | (Inr _, k') \<Rightarrow> (Inr \<lparr>rg_ptr = ptr, rg_len = len, rg_prot = Some old\<rparr>, k'))))"

definition last_os_error_or_alloc_fail :: "nat \<Rightarrow> io_error + region option" where
  "last_os_error_or_alloc_fail err =
     (if err = ERROR_NOT_ENOUGH_MEMORY \<or> err = ERROR_INVALID_ADDRESS \<or> err = ERROR_COMMITMENT_LIMIT
      then Inr None else Inl (Os err))"

text \<open>Reserving and committing are two calls.\<close>

definition win_alloc_at :: "'k winapi \<Rightarrow> 'k \<Rightarrow> nat \<Rightarrow> nat \<Rightarrow> prot \<Rightarrow> ((io_error + region option) \<times> 'k) option" where
  "win_alloc_at W k ptr sz p = do {
     info \<leftarrow> win_sys_info W;
     let g = alloc_granularity info;
     (if ptr AND (g - 1) \<noteq> 0 then Some (Inl InvalidInput, k)
      else do {
        len \<leftarrow> next_multiple_of sz g;
        Some (case wa_alloc W k ptr len MEM_RESERVE p of
            (Inl err, k') \<Rightarrow> (last_os_error_or_alloc_fail err, k')
          | (Inr a, k') \<Rightarrow> (case wa_alloc W k' a len MEM_COMMIT p of
                (Inl err, k'') \<Rightarrow> (last_os_error_or_alloc_fail err, k'')
              | (Inr _, k'') \<Rightarrow> (Inr (Some \<lparr>rg_ptr = a, rg_len = len, rg_prot = Some p\<rparr>), k'')))
      })
   }"

definition region_from :: "memory_info \<Rightarrow> region" where
  "region_from info = \<lparr>rg_ptr = mi_base info, rg_len = mi_size info,
     rg_prot = if mi_state info \<noteq> MEM_FREE then Some (mi_protect info) else None\<rparr>"

text \<open>\<open>Region::iter\<close>: the regions from \<open>next\<close> on, until the query fails; \<open>None\<close> if that never happens.\<close>

partial_function (option) win_regions :: "'k winapi \<Rightarrow> 'k \<Rightarrow> nat \<Rightarrow> region list option" where
  "win_regions W k next =
     (case virtual_query W k next of
        Inl _ \<Rightarrow> Some []
      | Inr info \<Rightarrow> do {
          rs \<leftarrow> win_regions W k ((mi_base info + mi_size info) mod usize_size);
          Some (region_from info # rs)
        })"

definition win_region_iter :: "'k winapi \<Rightarrow> 'k \<Rightarrow> nat \<Rightarrow> (io_error + region list) option" where
  "win_region_iter W k start =
     (case virtual_query W k start of
        Inl e \<Rightarrow> Some (Inl e)
      | Inr info \<Rightarrow> do {
          rs \<leftarrow> win_regions W k ((mi_base info + mi_size info) mod usize_size);
          Some (Inr (region_from info # rs))
        })"

definition windows :: "'k winapi \<Rightarrow> 'k platform" where
  "windows W = \<lparr>pf_info = (\<lambda>_. win_sys_info W), pf_iter = win_region_iter W, pf_alloc_at = win_alloc_at W,
     pf_rwx = PAGE_EXECUTE_READWRITE, pf_make_rwx = win_make_rwx W, pf_protect = win_protect W\<rparr>"

lemma windows_sel [simp]:
  "pf_info (windows W) k = win_sys_info W" "pf_iter (windows W) = win_region_iter W" "pf_alloc_at (windows W) = win_alloc_at W"
  "pf_rwx (windows W) = PAGE_EXECUTE_READWRITE" "pf_make_rwx (windows W) = win_make_rwx W" "pf_protect (windows W) = win_protect W"
  by (simp_all add: windows_def)

section \<open>What Windows promises\<close>

text \<open>
  \<open>VirtualQuery\<close> describes the pages from the one that holds the address on, as far as they have the
  same state, up to the highest address of the process, and fails beyond it.
\<close>

definition limits_ok :: "'k winapi \<Rightarrow> bool" where
  "limits_ok W \<longleftrightarrow> (\<exists>b < 64. wa_granularity W = 2 ^ b) \<and> 0 < wa_page W \<and> 0 < wa_min W \<and> wa_max W + 1 < usize_max
     \<and> (wa_max W + 1) mod wa_page W = 0"

definition query_ok :: "'k winapi \<Rightarrow> 'k \<Rightarrow> bool" where
  "query_ok W k \<longleftrightarrow> (\<forall>p. case wa_query W k p of
       Inl _ \<Rightarrow> wa_max W < p
     | Inr info \<Rightarrow> p \<le> wa_max W \<and> mi_base info = p - p mod wa_page W
         \<and> p < mi_base info + mi_size info \<and> mi_base info + mi_size info \<le> wa_max W + 1 \<and> mi_size info mod wa_page W = 0
         \<and> (\<forall>q. mi_base info \<le> q \<and> q < mi_base info + mi_size info \<longrightarrow>
              (\<exists>info'. wa_query W k q = Inr info' \<and> mi_state info' = mi_state info \<and> mi_protect info' = mi_protect info)))"

text \<open>
  \<open>VirtualAlloc\<close> reserves memory that is not reserved, at the address when one is given, and commits
  reserved memory; a call that fails changes nothing.
\<close>

definition valloc_ok :: "'k winapi \<Rightarrow> ('k \<Rightarrow> nat set) \<Rightarrow> ('k \<Rightarrow> nat set) \<Rightarrow> bool" where
  "valloc_ok W reserved committed \<longleftrightarrow> (\<forall>k. committed k \<subseteq> reserved k)
     \<and> (\<forall>k a len p res k'. wa_alloc W k a len MEM_RESERVE p = (res, k') \<longrightarrow> committed k' = committed k
          \<and> (case res of
               Inl _ \<Rightarrow> reserved k' = reserved k
             | Inr b \<Rightarrow> 0 < b \<and> (a = 0 \<or> b = a) \<and> b + len \<le> va_max \<and> {b..<b + len} \<inter> reserved k = {}
                 \<and> reserved k' = reserved k \<union> {b..<b + len}))
     \<and> (\<forall>k a len p res k'. {a..<a + len} \<subseteq> reserved k \<longrightarrow> wa_alloc W k a len MEM_COMMIT p = (res, k') \<longrightarrow>
          reserved k' = reserved k
          \<and> (case res of Inl _ \<Rightarrow> committed k' = committed k
             | Inr b \<Rightarrow> b = a \<and> committed k' = committed k \<union> {a..<a + len}))"

lemma win_info_ok:
  assumes "limits_ok W" and "win_sys_info W = Some info"
  shows "info_ok info" and "alloc_granularity info = wa_granularity W" and "max_address info = wa_max W + 1"
    and "min_address info = wa_min W"
  using assms by (auto simp: limits_ok_def win_sys_info_def checked_add_def sys_info_new_def info_ok_def is_multiple_of_def
      split: if_splits)

text \<open>How an allocation at an address ends.\<close>

lemma win_alloc_at_cases:
  assumes ok: "valloc_ok W reserved committed" and run: "win_alloc_at W k mn sz p = Some (res, k')"
  obtains (Fails) "\<forall>r. res \<noteq> Inr (Some r)" "committed k' = committed k"
  | (Maps) a len where "res = Inr (Some \<lparr>rg_ptr = a, rg_len = len, rg_prot = Some p\<rparr>)" "sz \<le> len" "0 < a" "mn = 0 \<or> a = mn"
      "a + len \<le> va_max" "{a..<a + len} \<inter> committed k = {}" "committed k' = committed k \<union> {a..<a + len}"
proof -
  obtain info where info: "win_sys_info W = Some info" using run by (auto simp: win_alloc_at_def bind_eq_Some_conv)
  show thesis
  proof (cases "mn AND (alloc_granularity info - 1) = 0")
    case False
    then have "res = Inl InvalidInput" "k' = k" using run info by (simp_all add: win_alloc_at_def Let_def)
    then show thesis using Fails by simp
  next
    case True
    then obtain len where len: "next_multiple_of sz (alloc_granularity info) = Some len"
      using run info by (auto simp: win_alloc_at_def Let_def bind_eq_Some_conv)
    obtain ans k1 where first: "wa_alloc W k mn len MEM_RESERVE p = (ans, k1)" by force
    note f = ok [unfolded valloc_ok_def, THEN conjunct2, THEN conjunct1, rule_format, OF first]
    have fails: "\<forall>r. last_os_error_or_alloc_fail err \<noteq> Inr (Some r)" for err
      by (simp add: last_os_error_or_alloc_fail_def)
    show thesis
    proof (cases ans)
      case (Inl err)
      then have "res = last_os_error_or_alloc_fail err" "k' = k1"
        using run info True len first by (simp_all add: win_alloc_at_def Let_def)
      then show thesis using f fails by (intro Fails) simp_all
    next
      case (Inr a)
      obtain ans2 k2 where second: "wa_alloc W k1 a len MEM_COMMIT p = (ans2, k2)" by force
      have sub: "{a..<a + len} \<subseteq> reserved k1" using f Inr by simp
      note g = ok [unfolded valloc_ok_def, THEN conjunct2, THEN conjunct2, rule_format, OF sub second]
      show thesis
      proof (cases ans2)
        case (Inl err)
        then have "res = last_os_error_or_alloc_fail err" "k' = k2"
          using run info True len first second \<open>ans = Inr a\<close> by (simp_all add: win_alloc_at_def Let_def)
        then show thesis using f g Inl fails by (intro Fails) simp_all
      next
        case (Inr b)
        have "committed k \<subseteq> reserved k" using ok unfolding valloc_ok_def by blast
        then show thesis
          using run info True len first second Inr f g \<open>ans = Inr a\<close> next_multiple_of_Some(1) [OF len]
          by (intro Maps [of a len]) (auto simp: win_alloc_at_def Let_def)
      qed
    qed
  qed
qed

lemma windows_maps_fresh:
  assumes "limits_ok W" and "valloc_ok W reserved committed"
  shows "maps_fresh (windows W) committed"
  unfolding maps_fresh_def windows_sel
proof (intro conjI allI impI)
  fix k mn len p res k'
  assume "win_alloc_at W k mn len p = Some (res, k')"
  with assms(2) show "case res of
      Inr (Some r) \<Rightarrow> 0 < rg_ptr r \<and> len \<le> rg_len r \<and> rg_ptr r + rg_len r \<le> va_max
        \<and> {rg_ptr r..<rg_ptr r + rg_len r} \<inter> committed k = {} \<and> committed k' = committed k \<union> {rg_ptr r..<rg_ptr r + rg_len r}
    | _ \<Rightarrow> committed k' = committed k"
    by (cases rule: win_alloc_at_cases) (auto split: sum.splits option.splits)
qed (use win_info_ok(1) [OF assms(1)] in blast)

lemma windows_maps_fixed:
  assumes "limits_ok W" and "valloc_ok W reserved committed"
  shows "maps_fixed (windows W)"
  unfolding maps_fixed_def windows_sel
proof (intro conjI allI impI)
  fix k mn len p r k'
  assume "win_alloc_at W k mn len p = Some (Inr (Some r), k')" and mn: "0 < mn"
  with assms(2) have "rg_ptr r = mn \<and> len \<le> rg_len r \<and> rg_prot r = Some p"
    by (cases rule: win_alloc_at_cases) auto
  then show "rg_ptr r = mn" "len \<le> rg_len r" "rg_prot r = Some p" by simp_all
qed (use win_info_ok(1) [OF assms(1)] in blast)

section \<open>The regions\<close>

text \<open>Regions without gaps from one address to another.\<close>

fun contiguous :: "nat \<Rightarrow> region list \<Rightarrow> nat \<Rightarrow> bool" where
  "contiguous a [] e \<longleftrightarrow> a = e"
| "contiguous a (r # rs) e \<longleftrightarrow> rg_ptr r = a \<and> 0 < rg_len r \<and> contiguous (a + rg_len r) rs e"

definition described :: "'k winapi \<Rightarrow> 'k \<Rightarrow> region \<Rightarrow> bool" where
  "described W k r \<longleftrightarrow> (\<forall>a. rg_ptr r \<le> a \<and> a < rg_ptr r + rg_len r \<longrightarrow>
     (\<exists>info. wa_query W k a = Inr info \<and> rg_prot r = (if mi_state info = MEM_FREE then None else Some (mi_protect info))))"

lemma query_region:
  assumes "query_ok W k" and "wa_query W k p = Inr info"
  shows "rg_ptr (region_from info) = p - p mod wa_page W" and "p < rg_ptr (region_from info) + rg_len (region_from info)"
    and "rg_ptr (region_from info) + rg_len (region_from info) \<le> wa_max W + 1" and "rg_len (region_from info) mod wa_page W = 0"
    and "described W k (region_from info)" and "p \<le> wa_max W"
proof -
  have q: "p \<le> wa_max W \<and> mi_base info = p - p mod wa_page W
      \<and> p < mi_base info + mi_size info \<and> mi_base info + mi_size info \<le> wa_max W + 1 \<and> mi_size info mod wa_page W = 0
      \<and> (\<forall>q. mi_base info \<le> q \<and> q < mi_base info + mi_size info \<longrightarrow>
           (\<exists>info'. wa_query W k q = Inr info' \<and> mi_state info' = mi_state info \<and> mi_protect info' = mi_protect info))"
    using assms(1) [unfolded query_ok_def, rule_format, of p] unfolding assms(2) sum.case .
  then show "rg_ptr (region_from info) = p - p mod wa_page W" and "p < rg_ptr (region_from info) + rg_len (region_from info)"
    and "rg_ptr (region_from info) + rg_len (region_from info) \<le> wa_max W + 1" and "rg_len (region_from info) mod wa_page W = 0"
    and "p \<le> wa_max W"
    unfolding region_from_def region.select_convs by blast+
  show "described W k (region_from info)"
    unfolding described_def region_from_def region.select_convs
  proof (intro allI impI)
    fix a assume "mi_base info \<le> a \<and> a < mi_base info + mi_size info"
    with q obtain info' where "wa_query W k a = Inr info'" "mi_state info' = mi_state info" "mi_protect info' = mi_protect info"
      by blast
    then show "\<exists>i. wa_query W k a = Inr i
        \<and> (if mi_state info \<noteq> MEM_FREE then Some (mi_protect info) else None) = (if mi_state i = MEM_FREE then None else Some (mi_protect i))"
      by (intro exI [of _ info']) simp
  qed
qed

lemma win_regions_tile:
  assumes "limits_ok W" and "query_ok W k" and "next \<le> wa_max W + 1" and "next mod wa_page W = 0"
  shows "\<exists>rs. win_regions W k next = Some rs \<and> contiguous next rs (wa_max W + 1) \<and> (\<forall>r \<in> set rs. described W k r)"
  using assms(3,4)
proof (induction "wa_max W + 1 - next" arbitrary: "next" rule: less_induct)
  case less
  show ?case
  proof (cases "wa_query W k next")
    case (Inl err)
    then have "next = wa_max W + 1"
      using assms(2) [unfolded query_ok_def, rule_format, of "next"] less.prems(1) by simp
    then show ?thesis using Inl by (subst win_regions.simps) (simp add: virtual_query_def)
  next
    case (Inr info)
    note q = query_region [OF assms(2) Inr]
    let ?r = "region_from info" and ?n = "mi_base info + mi_size info"
    have n: "?n = rg_ptr ?r + rg_len ?r" by (simp add: region_from_def)
    have base: "rg_ptr ?r = next" using q(1) less.prems(2) by simp
    have small: "?n mod usize_size = ?n" using q(3) assms(1) n by (simp add: limits_ok_def usize_defs)
    have "(next + rg_len ?r) mod wa_page W = 0" using less.prems(2) q(4) mod_add_eq [of "next" "wa_page W" "rg_len ?r"] by simp
    then have "\<exists>rs. win_regions W k ?n = Some rs \<and> contiguous ?n rs (wa_max W + 1) \<and> (\<forall>r \<in> set rs. described W k r)"
      using q(2,3) base n by (intro less.hyps) (simp_all add: less.prems(1))
    then obtain rs where rs: "win_regions W k ?n = Some rs" "contiguous ?n rs (wa_max W + 1)" "\<forall>r \<in> set rs. described W k r"
      by blast
    have "0 < rg_len ?r" using q(2) base by simp
    then show ?thesis
      using Inr rs base n q(5) small by (subst win_regions.simps) (simp add: virtual_query_def)
  qed
qed

section \<open>Properties\<close>

text \<open>
  C27. On Windows the region iterator ends, and tiles the address space: from the page of the start
  address to the highest address of the process without gaps, each region with the protection Windows
  reports at each of its addresses, or none where nothing is reserved.
\<close>

theorem win_region_iter_tiles:
  assumes "limits_ok W" and "query_ok W k" and "start \<le> wa_max W"
  shows "\<exists>ts. win_region_iter W k start = Some (Inr ts) \<and> contiguous (start - start mod wa_page W) ts (wa_max W + 1)
    \<and> (\<forall>t \<in> set ts. described W k t)"
proof -
  obtain info where info: "wa_query W k start = Inr info"
    using assms(2) [unfolded query_ok_def, rule_format, of start] assms(3) by (auto split: sum.splits)
  note q = query_region [OF assms(2) info]
  let ?r = "region_from info" and ?n = "mi_base info + mi_size info"
  have n: "?n = rg_ptr ?r + rg_len ?r" by (simp add: region_from_def)
  have small: "?n mod usize_size = ?n" using q(3) assms(1) n by (simp add: limits_ok_def usize_defs)
  have "(start - start mod wa_page W) mod wa_page W = 0" by simp
  then have "?n mod wa_page W = 0"
    using q(1,4) n mod_add_eq [of "rg_ptr ?r" "wa_page W" "rg_len ?r"] by simp
  then obtain rs where rs: "win_regions W k ?n = Some rs" "contiguous ?n rs (wa_max W + 1)" "\<forall>r \<in> set rs. described W k r"
    using win_regions_tile [OF assms(1,2), of ?n] q(3) n by auto
  have "0 < rg_len ?r" using q(1,2) by linarith
  then show ?thesis
    using info rs n q(1,5) small by (simp add: win_region_iter_def virtual_query_def)
qed

text \<open>An address space of sixteen pages, of which pages 8 to 11 are committed and 12 to 15 reserved.\<close>

definition example_query :: "nat \<Rightarrow> nat + memory_info" where
  "example_query p =
     (let b = p - p mod 4096 in
      if p < 32768 then Inr \<lparr>mi_base = b, mi_size = 32768 - b, mi_state = MEM_FREE, mi_protect = 0\<rparr>
      else if p < 49152 then Inr \<lparr>mi_base = b, mi_size = 49152 - b, mi_state = MEM_COMMIT, mi_protect = PAGE_EXECUTE_READ\<rparr>
      else if p < 65536 then Inr \<lparr>mi_base = b, mi_size = 65536 - b, mi_state = MEM_RESERVE, mi_protect = 0\<rparr>
      else Inl ERROR_INVALID_ADDRESS)"

definition example_windows :: "unit winapi" where
  "example_windows = \<lparr>wa_page = 4096, wa_granularity = 4096, wa_min = 4096, wa_max = 65535,
     wa_query = (\<lambda>k. example_query), wa_alloc = (\<lambda>k a len f p. (Inl ERROR_INVALID_ADDRESS, k)), wa_protect = (\<lambda>k a n p. (None, k))\<rparr>"

lemma example_limits: "limits_ok example_windows"
  by (auto simp: limits_ok_def example_windows_def usize_defs intro: exI [of _ 12])

lemma example_query_ok: "query_ok example_windows ()"
  unfolding query_ok_def
proof
  fix p :: nat
  have base: "p - p mod 4096 = 4096 * (p div 4096)" by (simp add: minus_mod_eq_mult_div)
  moreover have "(4096 * k - 4096 * (p div 4096)) mod 4096 = 0" for k by (simp flip: diff_mult_distrib2)
  from this [of 8] this [of 12] this [of 16]
  have "(32768 - 4096 * (p div 4096)) mod 4096 = 0" "(49152 - 4096 * (p div 4096)) mod 4096 = 0"
      "(65536 - 4096 * (p div 4096)) mod 4096 = 0" by simp_all
  moreover have "4096 * (p div 4096) \<le> p" by simp
  moreover have "\<not> p < 4096 * k \<Longrightarrow> 4096 * k \<le> 4096 * (p div 4096)" for k by (simp add: less_eq_div_iff_mult_less_eq)
  from this [of 8] this [of 12] have "\<not> p < 32768 \<Longrightarrow> 32768 \<le> 4096 * (p div 4096)"
      "\<not> p < 49152 \<Longrightarrow> 49152 \<le> 4096 * (p div 4096)" by simp_all
  ultimately show "case wa_query example_windows () p of
       Inl _ \<Rightarrow> wa_max example_windows < p
     | Inr info \<Rightarrow> p \<le> wa_max example_windows \<and> mi_base info = p - p mod wa_page example_windows
         \<and> p < mi_base info + mi_size info \<and> mi_base info + mi_size info \<le> wa_max example_windows + 1
         \<and> mi_size info mod wa_page example_windows = 0
         \<and> (\<forall>q. mi_base info \<le> q \<and> q < mi_base info + mi_size info \<longrightarrow>
              (\<exists>info'. wa_query example_windows () q = Inr info' \<and> mi_state info' = mi_state info \<and> mi_protect info' = mi_protect info))"
    by (simp add: example_windows_def example_query_def Let_def base del: minus_mod_eq_mult_div) (auto simp: example_query_def Let_def)
qed

theorem win_region_iter_tiles_witness:
  "\<exists>ts. win_region_iter example_windows () 33000 = Some (Inr ts) \<and> contiguous 32768 ts 65536"
  using win_region_iter_tiles [OF example_limits example_query_ok, of 33000] by (auto simp: example_windows_def)

end
