(* ===== verification/Linux_Threads.thy ===== *)
theory Linux_Threads
  imports Trampoline
begin

text \<open>
  Suspending the other threads while a function is patched (\<open>installer/arch/os/linux.rs\<close> and
  \<open>os/thread.rs\<close>): a signal makes each thread count itself, hand over its instruction pointer, and
  wait; the installer moves the instruction pointers that are inside the replaced code, and lets the
  threads go on. The model is a step relation of the installing thread and the handlers of the
  others, interleaved at will; threads may exit until their handler starts.
\<close>

section \<open>Moving an instruction pointer\<close>

text \<open>The range of the relocations' origins; \<open>None\<close> if there is no relocation.\<close>

definition minmax_ip :: "ip_reloc list \<Rightarrow> (nat \<times> nat) option" where
  "minmax_ip relocs = (case map (\<lambda>r. (rl_from r, rl_from r)) relocs of
     [] \<Rightarrow> None
   | x # xs \<Rightarrow> Some (foldl (\<lambda>a b. (min (fst a) (fst b), max (snd a) (snd b))) x xs))"

definition reloc_ip :: "ip_reloc list \<Rightarrow> nat \<Rightarrow> nat option" where
  "reloc_ip relocs ip = do {
     (min_ip, max_ip) \<leftarrow> minmax_ip relocs;
     (if ip \<ge> min_ip \<and> ip \<le> max_ip then map_option rl_to (List.find (\<lambda>r. ip = rl_from r) relocs) else None)
   }"

definition undo_ip :: "ip_reloc list \<Rightarrow> nat \<Rightarrow> nat option" where
  "undo_ip relocs ip = map_option rl_from (List.find (\<lambda>r. ip = rl_to r) relocs)"

definition moved :: "(nat \<Rightarrow> nat option) \<Rightarrow> nat \<Rightarrow> nat" where
  "moved f ip = (case f ip of Some new_ip \<Rightarrow> new_ip | None \<Rightarrow> ip)"

section \<open>The state\<close>

text \<open>
  Where a thread is: \<open>Running\<close> its own code, \<open>Signalled\<close> with the signal pending, in the handler
  (\<open>Entered\<close> with the flag seen, \<open>Upgraded\<close> with the counter in hand, \<open>Counted\<close>, \<open>Stored\<close> its
  instruction pointer, \<open>Waiting\<close>), \<open>Resumed\<close>, or \<open>Dead\<close>. \<open>Panicked\<close> is an \<open>unwrap\<close> of a dropped
  \<open>Weak\<close>, \<open>Foreign\<close> a signal that reaches the handler the program had before.
\<close>

datatype hand = Running | Signalled | Entered | Upgraded | Counted | Stored | Waiting | Resumed | Dead
  | Panicked | Foreign

text \<open>
  \<open>t_ip\<close> is the instruction pointer at which the thread goes on, which the kernel saves for the handler.
  \<open>t_stop\<close> is for the statements only: the instruction pointer at which the signal stopped the thread.
\<close>

record tcb =
  t_id :: int
  t_payload :: bool
  t_send :: bool
  t_recv :: bool
  t_value :: nat
  t_hand :: hand
  t_ip :: nat
  t_stop :: nat

text \<open>Where the installing thread is.\<close>

datatype main_pc = Send nat | Check | Poll nat | Reloc nat | Held | Undo nat | Resume nat | Finished

record suspension =
  s_threads :: "tcb list"
  s_count :: nat
  s_suspending :: bool
  s_shared :: bool
  s_main :: main_pc
  s_undone :: bool

definition thread_new :: "int \<Rightarrow> nat \<Rightarrow> tcb" where
  "thread_new tid ip = \<lparr>t_id = tid, t_payload = True, t_send = False, t_recv = False, t_value = 1,
     t_hand = Running, t_ip = ip, t_stop = ip\<rparr>"

text \<open>The names in \<open>/proc/self/task\<close> as \<open>to_str\<close> gives them.\<close>

definition parse_i32 :: "string \<Rightarrow> int option" where
  "parse_i32 s =
     (let (neg, ds) = (case s of c # t \<Rightarrow> if c = CHR ''-'' then (True, t) else if c = CHR ''+'' then (False, t) else (False, s)
                       | [] \<Rightarrow> (False, s))
      in if ds = [] then None
         else case parse_digits 10 0 ds of
             None \<Rightarrow> None
           | Some n \<Rightarrow> let v = (if neg then - int n else int n) in if i32_min \<le> v \<and> v \<le> i32_max then Some v else None)"

fun others_iter :: "int \<Rightarrow> string option list \<Rightarrow> int list" where
  "others_iter my_id [] = []"
| "others_iter my_id (name # names) =
     (case parse_i32 (case name of Some s \<Rightarrow> s | None \<Rightarrow> '''') of
        None \<Rightarrow> others_iter my_id names
      | Some tid \<Rightarrow> if tid < 0 \<or> tid = my_id then others_iter my_id names else tid # others_iter my_id names)"

text \<open>The state before the first signal. Without relocations no thread is touched.\<close>

definition suspend_start :: "ip_reloc list \<Rightarrow> (int \<times> nat) list \<Rightarrow> suspension" where
  "suspend_start relocs others =
     (if minmax_ip relocs = None
      then \<lparr>s_threads = [], s_count = 0, s_suspending = False, s_shared = False, s_main = Held, s_undone = False\<rparr>
      else if others = []
      then \<lparr>s_threads = [], s_count = 0, s_suspending = False, s_shared = False, s_main = Reloc 0, s_undone = False\<rparr>
      else \<lparr>s_threads = map (\<lambda>(tid, ip). thread_new tid ip) others, s_count = length others,
        s_suspending = True, s_shared = True, s_main = Send 0, s_undone = False\<rparr>)"

section \<open>Steps of the installing thread\<close>

definition upd :: "nat \<Rightarrow> tcb \<Rightarrow> suspension \<Rightarrow> suspension" where
  "upd i t s = s\<lparr>s_threads := (s_threads s)[i := t]\<rparr>"

definition send_signal :: "nat \<Rightarrow> suspension \<Rightarrow> suspension" where
  "send_signal i s = (upd i ((s_threads s ! i)\<lparr>t_payload := False, t_hand := Signalled\<rparr>) s)\<lparr>s_main := Send (i + 1)\<rparr>"

definition send_failed :: "nat \<Rightarrow> suspension \<Rightarrow> suspension" where
  "send_failed i s = (upd i ((s_threads s ! i)\<lparr>t_payload := True, t_id := -1\<rparr>) s)
     \<lparr>s_count := wrapping_sub (s_count s) 1, s_main := Send (i + 1)\<rparr>"

definition check_count :: "suspension \<Rightarrow> suspension" where
  "check_count s = (if s_count s \<noteq> 0 then s\<lparr>s_main := Poll 0\<rparr>
     else s\<lparr>s_suspending := False, s_shared := False, s_main := Reloc 0\<rparr>)"

definition poll_thread :: "nat \<Rightarrow> suspension \<Rightarrow> suspension" where
  "poll_thread i s =
     (let t = s_threads s ! i
      in if t_id t \<ge> 0 \<and> t_hand t = Dead
         then (upd i (t\<lparr>t_id := -1\<rparr>) s)\<lparr>s_count := wrapping_sub (s_count s) 1, s_main := Poll (i + 1)\<rparr>
         else s\<lparr>s_main := Poll (i + 1)\<rparr>)"

text \<open>\<open>None\<close> while \<open>wait_send\<close> blocks.\<close>

definition set_ip_if :: "(nat \<Rightarrow> nat option) \<Rightarrow> tcb \<Rightarrow> tcb option" where
  "set_ip_if f t =
     (if t_id t < 0 then Some t
      else if \<not> t_send t then None
      else case f (t_value t) of Some new_ip \<Rightarrow> Some (t\<lparr>t_value := new_ip\<rparr>) | None \<Rightarrow> Some t)"

definition resume :: "tcb \<Rightarrow> tcb option" where
  "resume t = (if t_id t \<ge> 0 then (if t_send t then Some (t\<lparr>t_recv := True\<rparr>) else None) else Some t)"

section \<open>Steps of a handler\<close>

definition sa_deliver :: "suspension \<Rightarrow> tcb \<Rightarrow> tcb" where
  "sa_deliver s t = t\<lparr>t_hand := if s_suspending s then Entered else Foreign, t_stop := t_ip t\<rparr>"

definition sa_upgrade :: "suspension \<Rightarrow> tcb \<Rightarrow> tcb" where
  "sa_upgrade s t = t\<lparr>t_hand := if s_shared s then Upgraded else Panicked\<rparr>"

definition sa_count :: "nat \<Rightarrow> suspension \<Rightarrow> suspension" where
  "sa_count i s = (upd i ((s_threads s ! i)\<lparr>t_hand := Counted\<rparr>) s)\<lparr>s_count := wrapping_sub (s_count s) 1\<rparr>"

text \<open>The channel is dropped with the guard.\<close>

definition sa_store :: "suspension \<Rightarrow> tcb \<Rightarrow> tcb" where
  "sa_store s t = (if s_main s = Finished then t\<lparr>t_hand := Panicked\<rparr> else t\<lparr>t_value := t_ip t, t_hand := Stored\<rparr>)"

definition sa_notify :: "tcb \<Rightarrow> tcb" where
  "sa_notify t = t\<lparr>t_send := True, t_hand := Waiting\<rparr>"

definition sa_return :: "tcb \<Rightarrow> tcb" where
  "sa_return t = t\<lparr>t_ip := t_value t, t_hand := Resumed\<rparr>"

section \<open>All interleavings\<close>

inductive suspend_step :: "ip_reloc list \<Rightarrow> suspension \<Rightarrow> suspension \<Rightarrow> bool" for relocs where
  run: "i < length (s_threads s) \<Longrightarrow> t_hand (s_threads s ! i) \<in> {Running, Signalled} \<Longrightarrow>
    suspend_step relocs s (upd i ((s_threads s ! i)\<lparr>t_ip := ip\<rparr>) s)"
| exit: "i < length (s_threads s) \<Longrightarrow> t_hand (s_threads s ! i) \<in> {Running, Signalled} \<Longrightarrow>
    suspend_step relocs s (upd i ((s_threads s ! i)\<lparr>t_hand := Dead\<rparr>) s)"
| deliver: "i < length (s_threads s) \<Longrightarrow> t_hand (s_threads s ! i) = Signalled \<Longrightarrow>
    suspend_step relocs s (upd i (sa_deliver s (s_threads s ! i)) s)"
| upgrade: "i < length (s_threads s) \<Longrightarrow> t_hand (s_threads s ! i) = Entered \<Longrightarrow>
    suspend_step relocs s (upd i (sa_upgrade s (s_threads s ! i)) s)"
| count: "i < length (s_threads s) \<Longrightarrow> t_hand (s_threads s ! i) = Upgraded \<Longrightarrow>
    suspend_step relocs s (sa_count i s)"
| store: "i < length (s_threads s) \<Longrightarrow> t_hand (s_threads s ! i) = Counted \<Longrightarrow>
    suspend_step relocs s (upd i (sa_store s (s_threads s ! i)) s)"
| notify: "i < length (s_threads s) \<Longrightarrow> t_hand (s_threads s ! i) = Stored \<Longrightarrow>
    suspend_step relocs s (upd i (sa_notify (s_threads s ! i)) s)"
| go_on: "i < length (s_threads s) \<Longrightarrow> t_hand (s_threads s ! i) = Waiting \<Longrightarrow> t_recv (s_threads s ! i) \<Longrightarrow>
    suspend_step relocs s (upd i (sa_return (s_threads s ! i)) s)"
| send: "s_main s = Send i \<Longrightarrow> i < length (s_threads s) \<Longrightarrow> t_hand (s_threads s ! i) = Running \<Longrightarrow>
    suspend_step relocs s (send_signal i s)"
| refused: "s_main s = Send i \<Longrightarrow> i < length (s_threads s) \<Longrightarrow> suspend_step relocs s (send_failed i s)"
| sent_all: "s_main s = Send i \<Longrightarrow> i = length (s_threads s) \<Longrightarrow> suspend_step relocs s (s\<lparr>s_main := Check\<rparr>)"
| check: "s_main s = Check \<Longrightarrow> suspend_step relocs s (check_count s)"
| poll: "s_main s = Poll i \<Longrightarrow> i < length (s_threads s) \<Longrightarrow> suspend_step relocs s (poll_thread i s)"
| polled: "s_main s = Poll i \<Longrightarrow> i = length (s_threads s) \<Longrightarrow> suspend_step relocs s (s\<lparr>s_main := Check\<rparr>)"
| reloc: "s_main s = Reloc i \<Longrightarrow> i < length (s_threads s) \<Longrightarrow> set_ip_if (reloc_ip relocs) (s_threads s ! i) = Some t \<Longrightarrow>
    suspend_step relocs s ((upd i t s)\<lparr>s_main := Reloc (i + 1)\<rparr>)"
| relocated: "s_main s = Reloc i \<Longrightarrow> i = length (s_threads s) \<Longrightarrow> suspend_step relocs s (s\<lparr>s_main := Held\<rparr>)"
| patched: "s_main s = Held \<Longrightarrow> suspend_step relocs s (s\<lparr>s_main := Resume 0\<rparr>)"
| give_up: "s_main s = Held \<Longrightarrow> suspend_step relocs s (s\<lparr>s_main := Undo 0, s_undone := True\<rparr>)"
| undo: "s_main s = Undo i \<Longrightarrow> i < length (s_threads s) \<Longrightarrow> set_ip_if (undo_ip relocs) (s_threads s ! i) = Some t \<Longrightarrow>
    suspend_step relocs s ((upd i t s)\<lparr>s_main := Undo (i + 1)\<rparr>)"
| undone: "s_main s = Undo i \<Longrightarrow> i = length (s_threads s) \<Longrightarrow> suspend_step relocs s (s\<lparr>s_main := Resume 0\<rparr>)"
| resume_one: "s_main s = Resume i \<Longrightarrow> i < length (s_threads s) \<Longrightarrow> resume (s_threads s ! i) = Some t \<Longrightarrow>
    suspend_step relocs s ((upd i t s)\<lparr>s_main := Resume (i + 1)\<rparr>)"
| resumed: "s_main s = Resume i \<Longrightarrow> i = length (s_threads s) \<Longrightarrow> suspend_step relocs s (s\<lparr>s_main := Finished\<rparr>)"

inductive suspend_reachable :: "ip_reloc list \<Rightarrow> (int \<times> nat) list \<Rightarrow> suspension \<Rightarrow> bool" for relocs others where
  start: "suspend_reachable relocs others (suspend_start relocs others)"
| step: "suspend_reachable relocs others s \<Longrightarrow> suspend_step relocs s s' \<Longrightarrow> suspend_reachable relocs others s'"

section \<open>The invariant\<close>

fun early :: "main_pc \<Rightarrow> bool" where
  "early (Send _) = True" | "early Check = True" | "early (Poll _) = True" | "early _ = False"

fun sent :: "main_pc \<Rightarrow> nat \<Rightarrow> bool" where
  "sent (Send k) i \<longleftrightarrow> i < k" | "sent _ i \<longleftrightarrow> True"

text \<open>The installing thread has heard from thread \<open>i\<close>, and has let it go.\<close>

fun heard :: "main_pc \<Rightarrow> nat \<Rightarrow> bool" where
  "heard (Reloc k) i \<longleftrightarrow> i < k" | "heard m i \<longleftrightarrow> \<not> early m"

fun released :: "main_pc \<Rightarrow> nat \<Rightarrow> bool" where
  "released (Resume k) i \<longleftrightarrow> i < k" | "released Finished i \<longleftrightarrow> True" | "released _ i \<longleftrightarrow> False"

text \<open>Whether the instruction pointer of thread \<open>i\<close> has been moved, and moved back.\<close>

fun moved_back :: "main_pc \<Rightarrow> bool \<Rightarrow> nat \<Rightarrow> bool" where
  "moved_back (Undo k) u i \<longleftrightarrow> i < k" | "moved_back (Resume _) u i \<longleftrightarrow> u" | "moved_back Finished u i \<longleftrightarrow> u"
| "moved_back _ u i \<longleftrightarrow> False"

definition expected :: "ip_reloc list \<Rightarrow> main_pc \<Rightarrow> bool \<Rightarrow> nat \<Rightarrow> nat \<Rightarrow> nat" where
  "expected relocs m u i ip =
     (let ip = (if heard m i then moved (reloc_ip relocs) ip else ip)
      in if moved_back m u i then moved (undo_ip relocs) ip else ip)"

definition outstanding :: "tcb \<Rightarrow> bool" where
  "outstanding t \<longleftrightarrow> 0 \<le> t_id t \<and> t_hand t \<in> {Running, Signalled, Entered, Upgraded, Dead}"

definition tcb_ok :: "ip_reloc list \<Rightarrow> main_pc \<Rightarrow> bool \<Rightarrow> nat \<Rightarrow> tcb \<Rightarrow> bool" where
  "tcb_ok relocs m u i t \<longleftrightarrow> (t_send t \<longleftrightarrow> t_hand t \<in> {Waiting, Resumed}) \<and>
     (t_recv t \<longleftrightarrow> 0 \<le> t_id t \<and> released m i) \<and> (outstanding t \<longrightarrow> early m) \<and>
     (case t_hand t of
        Running \<Rightarrow> \<not> sent m i \<longrightarrow> 0 \<le> t_id t
      | Dead \<Rightarrow> \<not> sent m i \<longrightarrow> 0 \<le> t_id t
      | Signalled \<Rightarrow> 0 \<le> t_id t \<and> sent m i
      | Entered \<Rightarrow> 0 \<le> t_id t \<and> sent m i \<and> t_ip t = t_stop t
      | Upgraded \<Rightarrow> 0 \<le> t_id t \<and> sent m i \<and> t_ip t = t_stop t
      | Counted \<Rightarrow> 0 \<le> t_id t \<and> sent m i \<and> \<not> heard m i \<and> t_ip t = t_stop t
      | Stored \<Rightarrow> 0 \<le> t_id t \<and> sent m i \<and> \<not> heard m i \<and> t_ip t = t_stop t \<and> t_value t = t_ip t
      | Waiting \<Rightarrow> 0 \<le> t_id t \<and> sent m i \<and> t_ip t = t_stop t \<and> t_value t = expected relocs m u i (t_stop t)
      | Resumed \<Rightarrow> 0 \<le> t_id t \<and> released m i \<and> t_ip t = expected relocs m u i (t_stop t)
      | _ \<Rightarrow> False)"

definition suspend_inv :: "ip_reloc list \<Rightarrow> suspension \<Rightarrow> bool" where
  "suspend_inv relocs s \<longleftrightarrow> s_count s = length (filter outstanding (s_threads s)) \<and> s_count s < usize_size
     \<and> (s_suspending s \<longleftrightarrow> early (s_main s)) \<and> (s_shared s \<longleftrightarrow> early (s_main s))
     \<and> (s_undone s \<longrightarrow> \<not> early (s_main s) \<and> s_main s \<noteq> Held \<and> (\<forall>k. s_main s \<noteq> Reloc k))
     \<and> (\<forall>k. s_main s = Undo k \<longrightarrow> s_undone s)
     \<and> (\<forall>i < length (s_threads s). tcb_ok relocs (s_main s) (s_undone s) i (s_threads s ! i))"

lemma length_filter_update:
  "i < length xs \<Longrightarrow> length (filter P (xs[i := y])) + (if P (xs ! i) then 1 else 0)
    = length (filter P xs) + (if P y then 1 else 0)"
proof (induction xs arbitrary: i)
  case (Cons x xs)
  then show ?case by (cases i) auto
qed simp

text \<open>A step of one thread that the installing thread does not see.\<close>

lemma inv_upd:
  assumes inv: "suspend_inv relocs s" and i: "i < length (s_threads s)" and out: "outstanding t = outstanding (s_threads s ! i)"
    and ok: "tcb_ok relocs (s_main s) (s_undone s) i t"
  shows "suspend_inv relocs (upd i t s)"
proof -
  have "length (filter outstanding ((s_threads s)[i := t])) = length (filter outstanding (s_threads s))"
    using length_filter_update [OF i, of outstanding t] out by simp
  moreover have "tcb_ok relocs (s_main s) (s_undone s) j ((s_threads s)[i := t] ! j)" if "j < length (s_threads s)" for j
    using that inv ok by (cases "j = i") (simp_all add: suspend_inv_def)
  ultimately show ?thesis using inv by (simp add: suspend_inv_def upd_def)
qed

text \<open>A step that takes a thread off the counter.\<close>

lemma inv_count:
  assumes inv: "suspend_inv relocs s" and i: "i < length (s_threads s)"
    and out: "outstanding (s_threads s ! i)" "\<not> outstanding t" and m: "early m"
    and ok: "tcb_ok relocs m (s_undone s) i t"
    and others: "\<And>j. j < length (s_threads s) \<Longrightarrow> j \<noteq> i \<Longrightarrow> tcb_ok relocs m (s_undone s) j (s_threads s ! j)"
  shows "suspend_inv relocs ((upd i t s)\<lparr>s_count := wrapping_sub (s_count s) 1, s_main := m\<rparr>)"
proof -
  let ?n = "length (filter outstanding ((s_threads s)[i := t]))"
  have n: "s_count s = Suc ?n" "s_count s < usize_size"
    using length_filter_update [OF i, of outstanding t] out inv by (simp_all add: suspend_inv_def)
  then have "wrapping_sub (s_count s) 1 = ?n" by (subst wrapping_sub_le) auto
  moreover have "tcb_ok relocs m (s_undone s) j ((s_threads s)[i := t] ! j)" if "j < length (s_threads s)" for j
    using that others ok by (cases "j = i") simp_all
  moreover have "early (s_main s)" using inv i out(1) by (auto simp: suspend_inv_def tcb_ok_def)
  ultimately show ?thesis using inv n m by (auto simp: suspend_inv_def upd_def)
qed

text \<open>A step of the installing thread that may change one thread, which stays on or off the counter.\<close>

lemma inv_main:
  assumes inv: "suspend_inv relocs s" and i: "i < length (s_threads s)"
    and out: "outstanding t = outstanding (s_threads s ! i)"
    and m: "early m = early (s_main s)" "s_undone s \<longrightarrow> m \<noteq> Held \<and> (\<forall>k. m \<noteq> Reloc k)" "\<forall>k. m = Undo k \<longrightarrow> s_undone s"
    and ok: "tcb_ok relocs m (s_undone s) i t"
    and others: "\<And>j. j < length (s_threads s) \<Longrightarrow> j \<noteq> i \<Longrightarrow> tcb_ok relocs m (s_undone s) j (s_threads s ! j)"
  shows "suspend_inv relocs ((upd i t s)\<lparr>s_main := m\<rparr>)"
proof -
  have "length (filter outstanding ((s_threads s)[i := t])) = length (filter outstanding (s_threads s))"
    using length_filter_update [OF i, of outstanding t] out by simp
  moreover have "tcb_ok relocs m (s_undone s) j ((s_threads s)[i := t] ! j)" if "j < length (s_threads s)" for j
    using that others ok by (cases "j = i") simp_all
  ultimately show ?thesis using inv m by (auto simp: suspend_inv_def upd_def)
qed

lemma tcb_ok_cong:
  "early m = early m' \<Longrightarrow> sent m j = sent m' j \<Longrightarrow> heard m j = heard m' j \<Longrightarrow> released m j = released m' j \<Longrightarrow>
    moved_back m u j = moved_back m' u' j \<Longrightarrow> tcb_ok relocs m u j t = tcb_ok relocs m' u' j t"
  by (cases "t_hand t") (simp_all add: tcb_ok_def expected_def)

lemma inv_tcb: "suspend_inv relocs s \<Longrightarrow> i < length (s_threads s) \<Longrightarrow> tcb_ok relocs (s_main s) (s_undone s) i (s_threads s ! i)"
  by (simp add: suspend_inv_def)

lemma inv_early: "suspend_inv relocs s \<Longrightarrow> early (s_main s) = s_suspending s \<and> s_shared s = s_suspending s"
  by (simp add: suspend_inv_def)

text \<open>A step that moves only the installing thread.\<close>

lemma inv_goto:
  assumes inv: "suspend_inv relocs s"
    and m: "early m = early (s_main s)" "s_undone s \<longrightarrow> m \<noteq> Held \<and> (\<forall>k. m \<noteq> Reloc k)" "\<forall>k. m = Undo k \<longrightarrow> s_undone s"
    and same: "\<And>j. j < length (s_threads s) \<Longrightarrow> sent m j = sent (s_main s) j \<and> heard m j = heard (s_main s) j
      \<and> released m j = released (s_main s) j \<and> moved_back m (s_undone s) j = moved_back (s_main s) (s_undone s) j"
  shows "suspend_inv relocs (s\<lparr>s_main := m\<rparr>)"
proof -
  have "tcb_ok relocs m (s_undone s) j (s_threads s ! j)" if "j < length (s_threads s)" for j
    using inv_tcb [OF inv that] same [OF that] m(1) tcb_ok_cong [of m "s_main s" j "s_undone s" "s_undone s"] by simp
  with inv m show ?thesis by (simp add: suspend_inv_def)
qed

lemma step_handler_inv:
  assumes inv: "suspend_inv relocs s" and i: "i < length (s_threads s)"
  shows "t_hand (s_threads s ! i) \<in> {Running, Signalled} \<Longrightarrow> suspend_inv relocs (upd i ((s_threads s ! i)\<lparr>t_ip := ip\<rparr>) s)"
    and "t_hand (s_threads s ! i) \<in> {Running, Signalled} \<Longrightarrow> suspend_inv relocs (upd i ((s_threads s ! i)\<lparr>t_hand := Dead\<rparr>) s)"
    and "t_hand (s_threads s ! i) = Signalled \<Longrightarrow> suspend_inv relocs (upd i (sa_deliver s (s_threads s ! i)) s)"
    and "t_hand (s_threads s ! i) = Entered \<Longrightarrow> suspend_inv relocs (upd i (sa_upgrade s (s_threads s ! i)) s)"
    and "t_hand (s_threads s ! i) = Upgraded \<Longrightarrow> suspend_inv relocs (sa_count i s)"
    and "t_hand (s_threads s ! i) = Counted \<Longrightarrow> suspend_inv relocs (upd i (sa_store s (s_threads s ! i)) s)"
    and "t_hand (s_threads s ! i) = Stored \<Longrightarrow> suspend_inv relocs (upd i (sa_notify (s_threads s ! i)) s)"
    and "t_hand (s_threads s ! i) = Waiting \<Longrightarrow> t_recv (s_threads s ! i) \<Longrightarrow> suspend_inv relocs (upd i (sa_return (s_threads s ! i)) s)"
proof -
  let ?t = "s_threads s ! i"
  note ok = inv_tcb [OF inv i] and e = inv_early [OF inv]
  show "suspend_inv relocs (upd i (?t\<lparr>t_ip := ip\<rparr>) s)" if "t_hand ?t \<in> {Running, Signalled}"
    by (rule inv_upd [OF inv i]) (use that ok in \<open>auto simp: outstanding_def tcb_ok_def\<close>)
  show "suspend_inv relocs (upd i (?t\<lparr>t_hand := Dead\<rparr>) s)" if "t_hand ?t \<in> {Running, Signalled}"
    by (rule inv_upd [OF inv i]) (use that ok in \<open>auto simp: outstanding_def tcb_ok_def\<close>)
  show "suspend_inv relocs (upd i (sa_deliver s ?t) s)" if "t_hand ?t = Signalled"
    by (rule inv_upd [OF inv i]) (use that ok e in \<open>auto simp: outstanding_def tcb_ok_def sa_deliver_def\<close>)
  show "suspend_inv relocs (upd i (sa_upgrade s ?t) s)" if "t_hand ?t = Entered"
    by (rule inv_upd [OF inv i]) (use that ok e in \<open>auto simp: outstanding_def tcb_ok_def sa_upgrade_def\<close>)
  show "suspend_inv relocs (upd i (sa_store s ?t) s)" if "t_hand ?t = Counted"
    by (rule inv_upd [OF inv i]) (use that ok in \<open>auto simp: outstanding_def tcb_ok_def sa_store_def\<close>)
  show "suspend_inv relocs (upd i (sa_return ?t) s)" if "t_hand ?t = Waiting" "t_recv ?t"
    by (rule inv_upd [OF inv i]) (use that ok in \<open>auto simp: outstanding_def tcb_ok_def sa_return_def\<close>)
  show "suspend_inv relocs (upd i (sa_notify ?t) s)" if "t_hand ?t = Stored"
  proof (rule inv_upd [OF inv i])
    have "\<not> heard (s_main s) i" using that ok by (simp add: tcb_ok_def)
    then have "\<not> moved_back (s_main s) (s_undone s) i" by (cases "s_main s") simp_all
    with \<open>\<not> heard (s_main s) i\<close> that ok show "tcb_ok relocs (s_main s) (s_undone s) i (sa_notify ?t)"
      by (simp add: tcb_ok_def expected_def sa_notify_def outstanding_def)
  qed (use that in \<open>simp add: outstanding_def sa_notify_def\<close>)
  show "suspend_inv relocs (sa_count i s)" if "t_hand ?t = Upgraded"
  proof -
    have out: "outstanding ?t" using that ok by (simp add: tcb_ok_def outstanding_def)
    then have m: "early (s_main s)" using ok by (simp add: tcb_ok_def)
    then have h: "\<not> heard (s_main s) i" by (cases "s_main s") simp_all
    have "suspend_inv relocs ((upd i (?t\<lparr>t_hand := Counted\<rparr>) s)\<lparr>s_count := wrapping_sub (s_count s) 1, s_main := s_main s\<rparr>)"
      by (rule inv_count [OF inv i out _ m])
        (use that ok h inv_tcb [OF inv] in \<open>auto simp: outstanding_def tcb_ok_def\<close>)
    then show ?thesis by (simp add: sa_count_def upd_def)
  qed
qed

lemma step_main_inv:
  assumes inv: "suspend_inv relocs s"
  shows "s_main s = Send i \<Longrightarrow> i < length (s_threads s) \<Longrightarrow> t_hand (s_threads s ! i) = Running \<Longrightarrow> suspend_inv relocs (send_signal i s)"
    and "s_main s = Send i \<Longrightarrow> i < length (s_threads s) \<Longrightarrow> suspend_inv relocs (send_failed i s)"
    and "s_main s = Check \<Longrightarrow> suspend_inv relocs (check_count s)"
    and "s_main s = Poll i \<Longrightarrow> i < length (s_threads s) \<Longrightarrow> suspend_inv relocs (poll_thread i s)"
proof -
  let ?t = "s_threads s ! i"
  have others: "tcb_ok relocs (Send (i + 1)) (s_undone s) j (s_threads s ! j)"
    if "s_main s = Send i" "j < length (s_threads s)" "j \<noteq> i" for j
    using inv_tcb [OF inv that(2)] that tcb_ok_cong [of "Send (i + 1)" "Send i" j "s_undone s" "s_undone s"] by (simp add: less_Suc_eq)
  show "suspend_inv relocs (send_signal i s)" if m: "s_main s = Send i" "i < length (s_threads s)" "t_hand ?t = Running"
    unfolding send_signal_def
  proof (rule inv_main [OF inv m(2)])
    note ok = inv_tcb [OF inv m(2), unfolded m(1)]
    show "tcb_ok relocs (Send (i + 1)) (s_undone s) i (?t\<lparr>t_payload := False, t_hand := Signalled\<rparr>)"
      using ok m(3) by (simp add: tcb_ok_def outstanding_def)
    show "tcb_ok relocs (Send (i + 1)) (s_undone s) j (s_threads s ! j)" if "j < length (s_threads s)" "j \<noteq> i" for j
      using m(1) that by (rule others)
  qed (use m inv in \<open>auto simp: outstanding_def suspend_inv_def\<close>)
  show "suspend_inv relocs (send_failed i s)" if m: "s_main s = Send i" "i < length (s_threads s)"
    unfolding send_failed_def
  proof (rule inv_count [OF inv m(2)])
    note ok = inv_tcb [OF inv m(2), unfolded m(1)]
    show "outstanding ?t" using ok by (cases "t_hand ?t") (simp_all add: tcb_ok_def outstanding_def)
    show "tcb_ok relocs (Send (i + 1)) (s_undone s) i (?t\<lparr>t_payload := True, t_id := -1\<rparr>)"
      using ok by (cases "t_hand ?t") (simp_all add: tcb_ok_def outstanding_def)
    show "tcb_ok relocs (Send (i + 1)) (s_undone s) j (s_threads s ! j)" if "j < length (s_threads s)" "j \<noteq> i" for j
      using m(1) that by (rule others)
  qed (simp_all add: outstanding_def)
  show "suspend_inv relocs (check_count s)" if m: "s_main s = Check"
  proof (cases "s_count s = 0")
    case False
    have "suspend_inv relocs (s\<lparr>s_main := Poll 0\<rparr>)" by (rule inv_goto [OF inv]) (use m inv in \<open>auto simp: suspend_inv_def\<close>)
    with False show ?thesis by (simp add: check_count_def)
  next
    case True
    have "tcb_ok relocs (Reloc 0) (s_undone s) j (s_threads s ! j)" if "j < length (s_threads s)" for j
    proof -
      have "\<not> outstanding (s_threads s ! j)" using True inv that by (auto simp: suspend_inv_def filter_empty_conv)
      with inv_tcb [OF inv that] m show ?thesis
        by (simp add: tcb_ok_def expected_def split: hand.splits)
    qed
    with True inv m show ?thesis by (auto simp: suspend_inv_def check_count_def)
  qed
  show "suspend_inv relocs (poll_thread i s)" if m: "s_main s = Poll i" "i < length (s_threads s)"
  proof (cases "t_id ?t \<ge> 0 \<and> t_hand ?t = Dead")
    case True
    have "tcb_ok relocs (Poll (i + 1)) (s_undone s) j (s_threads s ! j)" if "j < length (s_threads s)" for j
      using inv_tcb [OF inv that] m tcb_ok_cong [of "Poll (i + 1)" "Poll i" j "s_undone s" "s_undone s"] by (simp add: less_Suc_eq)
    note others = this
    have "suspend_inv relocs ((upd i (?t\<lparr>t_id := -1\<rparr>) s)\<lparr>s_count := wrapping_sub (s_count s) 1, s_main := Poll (i + 1)\<rparr>)"
    proof (rule inv_count [OF inv m(2)])
      show "tcb_ok relocs (Poll (i + 1)) (s_undone s) i (?t\<lparr>t_id := -1\<rparr>)"
        using True inv_tcb [OF inv m(2)] m(1) by (simp add: tcb_ok_def outstanding_def)
    qed (use True others in \<open>simp_all add: outstanding_def\<close>)
    with True show ?thesis by (simp only: poll_thread_def Let_def if_True simp_thms)
  next
    case False
    have "suspend_inv relocs (s\<lparr>s_main := Poll (i + 1)\<rparr>)"
      by (rule inv_goto [OF inv]) (use m inv in \<open>auto simp: suspend_inv_def\<close>)
    with False show ?thesis by (simp only: poll_thread_def Let_def if_False)
  qed
qed

text \<open>The walks over the stopped threads.\<close>

lemma set_ip_if_cases:
  assumes "set_ip_if f t = Some t'"
  shows "t_id t < 0 \<and> t' = t \<or> 0 \<le> t_id t \<and> t_send t \<and> t' = t\<lparr>t_value := moved f (t_value t)\<rparr>"
  using assms by (auto simp: set_ip_if_def moved_def split: if_splits option.splits)

lemma step_walk_inv:
  assumes inv: "suspend_inv relocs s" and i: "i < length (s_threads s)"
  shows "s_main s = Reloc i \<Longrightarrow> set_ip_if (reloc_ip relocs) (s_threads s ! i) = Some t \<Longrightarrow>
      suspend_inv relocs ((upd i t s)\<lparr>s_main := Reloc (i + 1)\<rparr>)"
    and "s_main s = Undo i \<Longrightarrow> set_ip_if (undo_ip relocs) (s_threads s ! i) = Some t \<Longrightarrow>
      suspend_inv relocs ((upd i t s)\<lparr>s_main := Undo (i + 1)\<rparr>)"
    and "s_main s = Resume i \<Longrightarrow> resume (s_threads s ! i) = Some t \<Longrightarrow>
      suspend_inv relocs ((upd i t s)\<lparr>s_main := Resume (i + 1)\<rparr>)"
proof -
  let ?t = "s_threads s ! i"
  note ok = inv_tcb [OF inv i]
  show "suspend_inv relocs ((upd i t s)\<lparr>s_main := Reloc (i + 1)\<rparr>)"
    if m: "s_main s = Reloc i" and t: "set_ip_if (reloc_ip relocs) ?t = Some t"
  proof (rule inv_main [OF inv i])
    show "outstanding t = outstanding ?t" using set_ip_if_cases [OF t] by (auto simp: outstanding_def)
    show "tcb_ok relocs (Reloc (i + 1)) (s_undone s) i t"
      using set_ip_if_cases [OF t] ok m by (auto simp: tcb_ok_def expected_def outstanding_def split: hand.splits)
    show "tcb_ok relocs (Reloc (i + 1)) (s_undone s) j (s_threads s ! j)" if "j < length (s_threads s)" "j \<noteq> i" for j
      using inv_tcb [OF inv that(1)] that m tcb_ok_cong [of "Reloc (i + 1)" "Reloc i" j "s_undone s" "s_undone s"] by (simp add: less_Suc_eq)
  qed (use inv m in \<open>auto simp: suspend_inv_def\<close>)
  show "suspend_inv relocs ((upd i t s)\<lparr>s_main := Undo (i + 1)\<rparr>)"
    if m: "s_main s = Undo i" and t: "set_ip_if (undo_ip relocs) ?t = Some t"
  proof (rule inv_main [OF inv i])
    show "outstanding t = outstanding ?t" using set_ip_if_cases [OF t] by (auto simp: outstanding_def)
    show "tcb_ok relocs (Undo (i + 1)) (s_undone s) i t"
      using set_ip_if_cases [OF t] ok m by (auto simp: tcb_ok_def expected_def outstanding_def split: hand.splits)
    show "tcb_ok relocs (Undo (i + 1)) (s_undone s) j (s_threads s ! j)" if "j < length (s_threads s)" "j \<noteq> i" for j
      using inv_tcb [OF inv that(1)] that m tcb_ok_cong [of "Undo (i + 1)" "Undo i" j "s_undone s" "s_undone s"] by (simp add: less_Suc_eq)
  qed (use inv m in \<open>auto simp: suspend_inv_def\<close>)
  show "suspend_inv relocs ((upd i t s)\<lparr>s_main := Resume (i + 1)\<rparr>)"
    if m: "s_main s = Resume i" and t: "resume ?t = Some t"
  proof (rule inv_main [OF inv i])
    have t': "t_id ?t < 0 \<and> t = ?t \<or> 0 \<le> t_id ?t \<and> t_send ?t \<and> t = ?t\<lparr>t_recv := True\<rparr>"
      using t by (auto simp: resume_def split: if_splits)
    show "outstanding t = outstanding ?t" using t' by (auto simp: outstanding_def)
    show "tcb_ok relocs (Resume (i + 1)) (s_undone s) i t"
      using t' ok m by (auto simp: tcb_ok_def expected_def outstanding_def split: hand.splits)
    show "tcb_ok relocs (Resume (i + 1)) (s_undone s) j (s_threads s ! j)" if "j < length (s_threads s)" "j \<noteq> i" for j
      using inv_tcb [OF inv that(1)] that m tcb_ok_cong [of "Resume (i + 1)" "Resume i" j "s_undone s" "s_undone s"] by (simp add: less_Suc_eq)
  qed (use inv m in \<open>auto simp: suspend_inv_def\<close>)
qed

lemma suspend_step_inv: "suspend_step relocs s s' \<Longrightarrow> suspend_inv relocs s \<Longrightarrow> suspend_inv relocs s'"
proof (induction rule: suspend_step.induct)
  case (relocated s i)
  then show ?case by (intro inv_goto) (auto simp: suspend_inv_def)
next
  case (give_up s)
  have "tcb_ok relocs (Undo 0) True j (s_threads s ! j)" if "j < length (s_threads s)" for j
    using inv_tcb [OF give_up(2) that] give_up(1) tcb_ok_cong [of "Undo 0" Held j True "s_undone s"] by simp
  with give_up show ?case by (auto simp: suspend_inv_def)
next
  case (undone s i)
  then show ?case by (intro inv_goto) (auto simp: suspend_inv_def)
next
  case (patched s)
  then show ?case by (intro inv_goto) (auto simp: suspend_inv_def)
next
  case (resumed s i)
  then show ?case by (intro inv_goto) (auto simp: suspend_inv_def)
next
  case (sent_all s i)
  then show ?case by (intro inv_goto) (auto simp: suspend_inv_def)
next
  case (polled s i)
  then show ?case by (intro inv_goto) (auto simp: suspend_inv_def)
qed (blast intro: step_handler_inv step_main_inv step_walk_inv)+

lemma suspend_start_inv:
  assumes "\<forall>(tid, ip) \<in> set others. 0 \<le> tid" "length others < usize_size"
  shows "suspend_inv relocs (suspend_start relocs others)"
proof -
  let ?ts = "map (\<lambda>(tid, ip). thread_new tid ip) others"
  have "filter outstanding ?ts = ?ts"
    using assms(1) by (intro filter_True) (auto simp: outstanding_def thread_new_def)
  moreover have "tcb_ok relocs (Send 0) False i (?ts ! i)" if "i < length others" for i
  proof -
    have "0 \<le> fst (others ! i)" using assms(1) nth_mem [OF that] by (auto simp: case_prod_beta)
    with that show ?thesis by (simp add: tcb_ok_def thread_new_def outstanding_def case_prod_beta)
  qed
  ultimately show ?thesis using assms(2) by (auto simp: suspend_start_def suspend_inv_def usize_defs)
qed

lemma suspend_reachable_inv:
  "suspend_reachable relocs others s \<Longrightarrow> \<forall>(tid, ip) \<in> set others. 0 \<le> tid \<Longrightarrow> length others < usize_size \<Longrightarrow> suspend_inv relocs s"
proof (induction rule: suspend_reachable.induct)
  case start
  then show ?case by (rule suspend_start_inv)
next
  case (step s s')
  then show ?case by (blast intro: suspend_step_inv)
qed

section \<open>What the relocations do\<close>

lemma minmax_fold:
  "foldl (\<lambda>a b. (min (fst a) (fst b), max (snd a) (snd b))) (l, h) (map (\<lambda>r. (rl_from r, rl_from r)) rs) = (l', h') \<Longrightarrow>
    l' \<le> l \<and> h \<le> h' \<and> (\<forall>r \<in> set rs. l' \<le> rl_from r \<and> rl_from r \<le> h')"
proof (induction rs arbitrary: l h)
  case (Cons r rs)
  from Cons.IH [of "min l (rl_from r)" "max h (rl_from r)"] Cons.prems show ?case by auto
qed simp

text \<open>The range of origins is a shortcut only.\<close>

lemma reloc_ip_find: "reloc_ip relocs ip = map_option rl_to (List.find (\<lambda>r. ip = rl_from r) relocs)"
proof (cases relocs)
  case Nil
  then show ?thesis by (simp add: reloc_ip_def minmax_ip_def)
next
  case (Cons r rs)
  obtain mn mx where m: "minmax_ip relocs = Some (mn, mx)"
    using Cons by (cases "minmax_ip relocs") (auto simp: minmax_ip_def)
  have "\<forall>r \<in> set relocs. mn \<le> rl_from r \<and> rl_from r \<le> mx"
    using m minmax_fold [of "rl_from r" "rl_from r" rs mn mx] Cons by (auto simp: minmax_ip_def)
  then have "List.find (\<lambda>r. ip = rl_from r) relocs = None" if "ip < mn \<or> mx < ip"
    using that by (auto simp: find_None_iff not_le)
  then show ?thesis by (auto simp: reloc_ip_def m not_le)
qed

lemma undo_moved:
  assumes "distinct (map rl_to relocs)" "ip \<notin> rl_to ` set relocs"
  shows "moved (undo_ip relocs) (moved (reloc_ip relocs) ip) = ip"
proof (cases "List.find (\<lambda>r. ip = rl_from r) relocs")
  case None
  have "List.find (\<lambda>r. ip = rl_to r) relocs = None" using assms(2) by (auto simp: find_None_iff)
  with None show ?thesis by (simp add: moved_def reloc_ip_find undo_ip_def)
next
  case (Some r)
  then have r: "r \<in> set relocs" "ip = rl_from r" by (auto simp: find_Some_iff)
  obtain q where q: "List.find (\<lambda>x. rl_to r = rl_to x) relocs = Some q"
    using r(1) by (cases "List.find (\<lambda>x. rl_to r = rl_to x) relocs") (auto simp: find_None_iff)
  then have "q \<in> set relocs" "rl_to r = rl_to q" by (auto simp: find_Some_iff)
  with assms(1) r(1) have "q = r" by (auto simp: distinct_map inj_on_def)
  with Some q r(2) show ?thesis by (simp add: moved_def reloc_ip_find undo_ip_def)
qed

section \<open>Properties\<close>

text \<open>
  C15. In no interleaving does a handler find the counter or its channel dropped, nor does a signal reach
  the handler the program had before: the installing thread leaves the counting loop only when every
  thread it signalled has counted itself or is gone, and drops the channels only after all have
  answered.
\<close>

theorem suspend_never_panics:
  assumes "suspend_reachable relocs others s" "\<forall>(tid, ip) \<in> set others. 0 \<le> tid" "length others < usize_size"
    and "t \<in> set (s_threads s)"
  shows "t_hand t \<notin> {Panicked, Foreign}"
proof -
  obtain i where "i < length (s_threads s)" "t = s_threads s ! i" using assms(4) by (auto simp: in_set_conv_nth)
  with inv_tcb [OF suspend_reachable_inv [OF assms(1-3)]] show ?thesis by (force simp: tcb_ok_def)
qed

text \<open>
  C12. While the function is patched every suspended thread is stopped in its handler, where the signal
  found it, and has not been let go; when the installing thread is through, each has been let go; and a
  thread that has left its handler goes on where it should: at the relocation of the instruction pointer
  at which it was stopped if that is inside the replaced code, where it was stopped if it is not, and where
  it was stopped in any case if the patch was given up. That undoing brings it back rests on the
  relocations leading to different addresses, at none of which the thread was stopped.
\<close>

theorem threads_resume_relocated:
  assumes "suspend_reachable relocs others s" "\<forall>(tid, ip) \<in> set others. 0 \<le> tid" "length others < usize_size"
    and "t \<in> set (s_threads s)" "0 \<le> t_id t"
    and "s_undone s \<Longrightarrow> distinct (map rl_to relocs) \<and> t_stop t \<notin> rl_to ` set relocs"
  shows "(s_main s = Held \<longrightarrow> t_hand t = Waiting \<and> t_ip t = t_stop t \<and> \<not> t_recv t)
    \<and> (s_main s = Finished \<longrightarrow> t_hand t \<in> {Waiting, Resumed} \<and> t_recv t)
    \<and> (t_hand t = Resumed \<longrightarrow> t_ip t =
      (if s_undone s then t_stop t
       else case List.find (\<lambda>r. t_stop t = rl_from r) relocs of Some r \<Rightarrow> rl_to r | None \<Rightarrow> t_stop t))"
proof -
  obtain i where i: "i < length (s_threads s)" "t = s_threads s ! i" using assms(4) by (auto simp: in_set_conv_nth)
  note inv = suspend_reachable_inv [OF assms(1-3)]
  note ok = inv_tcb [OF inv i(1), folded i(2)]
  have held: "t_hand t = Waiting \<and> t_ip t = t_stop t \<and> \<not> t_recv t" if "s_main s = Held"
    using ok assms(5) that by (simp add: tcb_ok_def outstanding_def split: hand.splits)
  have finished: "t_hand t \<in> {Waiting, Resumed} \<and> t_recv t" if "s_main s = Finished"
    using ok assms(5) that by (simp add: tcb_ok_def outstanding_def split: hand.splits)
  have "t_ip t = (if s_undone s then moved (undo_ip relocs) (moved (reloc_ip relocs) (t_stop t))
      else moved (reloc_ip relocs) (t_stop t))" if "t_hand t = Resumed"
    using ok that by (cases "s_main s") (auto simp: tcb_ok_def expected_def)
  with undo_moved [of relocs "t_stop t"] assms(6) held finished show ?thesis
    by (auto simp: moved_def reloc_ip_find split: option.splits)
qed

text \<open>A thread at the second instruction of the example function, through its suspension.\<close>

definition example_relocs :: "ip_reloc list" where
  "example_relocs = [\<lparr>rl_from = 4097, rl_to = 65541\<rparr>]"

definition stage :: "hand \<Rightarrow> bool \<Rightarrow> bool \<Rightarrow> nat \<Rightarrow> nat \<Rightarrow> bool \<Rightarrow> main_pc \<Rightarrow> suspension" where
  "stage h sd rcv v n b m = \<lparr>s_threads = [\<lparr>t_id = 7, t_payload = False, t_send = sd, t_recv = rcv, t_value = v, t_hand = h, t_ip = 4097, t_stop = 4097\<rparr>],
     s_count = n, s_suspending = b, s_shared = b, s_main = m, s_undone = False\<rparr>"

lemma example_start: "suspend_start example_relocs [(7, 4097)] = \<lparr>s_threads = [thread_new 7 4097],
    s_count = 1, s_suspending = True, s_shared = True, s_main = Send 0, s_undone = False\<rparr>"
  by (simp add: suspend_start_def minmax_ip_def example_relocs_def)

lemma example_counted: "suspend_reachable example_relocs [(7, 4097)] (stage Counted False False 1 0 True Check)"
proof -
  let ?R = "suspend_reachable example_relocs [(7, 4097)]"
  have "?R (send_signal 0 (suspend_start example_relocs [(7, 4097)]))"
    by (rule step [OF start send]) (simp_all add: example_start thread_new_def)
  then have "?R (stage Signalled False False 1 1 True (Send 1))"
    by (simp add: example_start send_signal_def upd_def thread_new_def stage_def)
  from step [OF this deliver [of 0]] have "?R (stage Entered False False 1 1 True (Send 1))"
    by (simp add: stage_def upd_def sa_deliver_def)
  from step [OF this upgrade [of 0]] have "?R (stage Upgraded False False 1 1 True (Send 1))"
    by (simp add: stage_def upd_def sa_upgrade_def)
  from step [OF this count [of 0]] have "?R (stage Counted False False 1 0 True (Send 1))"
    by (simp add: stage_def upd_def sa_count_def wrapping_sub_def usize_defs)
  from step [OF this sent_all [of _ 1]] show ?thesis by (simp add: stage_def)
qed

lemma example_released: "suspend_reachable example_relocs [(7, 4097)] (stage Waiting True True 65541 0 False (Resume 1))"
proof -
  let ?R = "suspend_reachable example_relocs [(7, 4097)]"
  from step [OF example_counted check] have "?R (stage Counted False False 1 0 False (Reloc 0))"
    by (simp add: stage_def check_count_def)
  from step [OF this store [of 0]] have "?R (stage Stored False False 4097 0 False (Reloc 0))"
    by (simp add: stage_def upd_def sa_store_def)
  from step [OF this notify [of 0]] have "?R (stage Waiting True False 4097 0 False (Reloc 0))"
    by (simp add: stage_def upd_def sa_notify_def)
  from step [OF this reloc [of _ 0 _ "s_threads (stage Waiting True False 65541 0 False Check) ! 0"]]
  have "?R (stage Waiting True False 65541 0 False (Reloc 1))"
    by (simp add: stage_def upd_def set_ip_if_def reloc_ip_find example_relocs_def)
  from step [OF this relocated [of _ 1]] have "?R (stage Waiting True False 65541 0 False Held)" by (simp add: stage_def)
  from step [OF this patched] have "?R (stage Waiting True False 65541 0 False (Resume 0))" by (simp add: stage_def)
  from step [OF this resume_one [of _ 0 "s_threads (stage Waiting True True 65541 0 False Check) ! 0"]] show ?thesis
    by (simp add: stage_def upd_def resume_def)
qed

theorem suspend_never_panics_witness: "t_hand (s_threads (stage Counted False False 1 0 True Check) ! 0) \<notin> {Panicked, Foreign}"
  by (rule suspend_never_panics [OF example_counted]) (simp_all add: usize_defs stage_def)

lemma example_resumed: "suspend_reachable example_relocs [(7, 4097)]
    (upd 0 (sa_return (s_threads (stage Waiting True True 65541 0 False (Resume 1)) ! 0)) (stage Waiting True True 65541 0 False (Resume 1)))"
  by (rule step [OF example_released go_on]) (simp_all add: stage_def)

theorem threads_resume_relocated_witness:
  "t_ip (sa_return (s_threads (stage Waiting True True 65541 0 False (Resume 1)) ! 0)) = 65541"
  using threads_resume_relocated [OF example_resumed, of "sa_return (s_threads (stage Waiting True True 65541 0 False (Resume 1)) ! 0)"]
  by (simp add: usize_defs stage_def example_relocs_def upd_def sa_return_def)

end
