(* ===== verification/Windows_Threads.thy ===== *)
theory Windows_Threads
  imports Windows_Memory Linux_Threads Xsave_Layout "HOL-Library.Multiset"
begin

text \<open>
  Suspending the other threads on Windows while a function is patched (\<open>installer/arch/os/windows.rs\<close>,
  \<open>os/thread.rs\<close>, and the structures of \<open>windows/ffi.rs\<close>). The thread functions of Windows are a record
  of functions over a state of any type; each of them may also let the other threads run.
\<close>

section \<open>The thread context\<close>

text \<open>\<open>align(16)\<close> of a structure is given with its first field.\<close>

definition M128A :: struct where
  "M128A = [(''low'', 8, 16), (''high'', 8, 8)]"

definition XSAVE_FORMAT :: struct where
  "XSAVE_FORMAT = [(''ControlWord'', 2, 16), (''StatusWord'', 2, 2), (''TagWord'', 1, 1), (''Reserved1'', 1, 1),
     (''ErrorOpcode'', 2, 2), (''ErrorOffset'', 4, 4), (''ErrorSelector'', 2, 2), (''Reserved2'', 2, 2),
     (''DataOffset'', 4, 4), (''DataSelector'', 2, 2), (''Reserved3'', 2, 2), (''MxCsr'', 4, 4), (''MxCsr_Mask'', 4, 4),
     (''FloatRegisters'', 8 * size_of M128A, align_of M128A), (''XmmRegisters'', 16 * size_of M128A, align_of M128A),
     (''Reserved4'', 96, 1)]"

definition CONTEXT :: struct where
  "CONTEXT = [(''P1Home'', 8, 16), (''P2Home'', 8, 8), (''P3Home'', 8, 8), (''P4Home'', 8, 8), (''P5Home'', 8, 8), (''P6Home'', 8, 8),
     (''ContextFlags'', 4, 4), (''MxCsr'', 4, 4), (''SegCs'', 2, 2), (''SegDs'', 2, 2), (''SegEs'', 2, 2), (''SegFs'', 2, 2),
     (''SegGs'', 2, 2), (''SegSs'', 2, 2), (''EFlags'', 4, 4), (''Dr0'', 8, 8), (''Dr1'', 8, 8), (''Dr2'', 8, 8), (''Dr3'', 8, 8),
     (''Dr6'', 8, 8), (''Dr7'', 8, 8), (''Rax'', 8, 8), (''Rcx'', 8, 8), (''Rdx'', 8, 8), (''Rbx'', 8, 8), (''Rsp'', 8, 8),
     (''Rbp'', 8, 8), (''Rsi'', 8, 8), (''Rdi'', 8, 8), (''R8'', 8, 8), (''R9'', 8, 8), (''R10'', 8, 8), (''R11'', 8, 8),
     (''R12'', 8, 8), (''R13'', 8, 8), (''R14'', 8, 8), (''R15'', 8, 8), (''RIP'', 8, 8),
     (''FltSave'', size_of XSAVE_FORMAT, align_of XSAVE_FORMAT), (''VectorRegister'', 26 * size_of M128A, align_of M128A),
     (''VectorControl'', 8, 8), (''DebugControl'', 8, 8), (''LastBranchToRip'', 8, 8), (''LastBranchFromRip'', 8, 8),
     (''LastExceptionToRip'', 8, 8), (''LastExceptionFromRip'', 8, 8)]"

definition CONTEXT_BASE :: nat where "CONTEXT_BASE = 0x100000"
definition CONTEXT_CONTROL :: nat where "CONTEXT_CONTROL = CONTEXT_BASE + 1"

definition THREAD_SUSPEND_RESUME :: "32 word" where "THREAD_SUSPEND_RESUME = 0x2"
definition THREAD_GET_CONTEXT :: "32 word" where "THREAD_GET_CONTEXT = 0x8"
definition THREAD_SET_CONTEXT :: "32 word" where "THREAD_SET_CONTEXT = 0x10"
definition THREAD_QUERY_INFORMATION :: "32 word" where "THREAD_QUERY_INFORMATION = 0x40"

definition DWORD_MAX :: nat where "DWORD_MAX = 0xFFFFFFFF"

lemma m128a_size [simp]: "size_of M128A = 16" "align_of M128A = 16"
  by (simp_all add: size_of_def align_of_def M128A_def align_up_def)

lemma xsave_format_size [simp]: "size_of XSAVE_FORMAT = 512" "align_of XSAVE_FORMAT = 16"
  unfolding size_of_def [of XSAVE_FORMAT] align_of_def [of XSAVE_FORMAT] unfolding XSAVE_FORMAT_def by (simp_all add: align_up_def)

lemma context_size [simp]: "size_of CONTEXT = 1232" "align_of CONTEXT = 16"
  unfolding size_of_def [of CONTEXT] align_of_def [of CONTEXT] unfolding CONTEXT_def by (simp_all add: align_up_def)

lemma context_offsets [simp]: "offset_of CONTEXT ''ContextFlags'' = 0x30" "offset_of CONTEXT ''RIP'' = 0xF8"
  unfolding CONTEXT_def by (simp_all add: offset_of_def align_up_def)

section \<open>The code\<close>

record 'k threadapi =
  ta_my_id :: nat
  ta_next :: "'k \<Rightarrow> nat \<Rightarrow> 32 word \<Rightarrow> nat option \<times> 'k"
  ta_thread_id :: "'k \<Rightarrow> nat \<Rightarrow> nat"
  ta_suspend :: "'k \<Rightarrow> nat \<Rightarrow> nat \<times> 'k"
  ta_resume :: "'k \<Rightarrow> nat \<Rightarrow> nat \<times> 'k"
  ta_get_context :: "'k \<Rightarrow> nat \<Rightarrow> byte list \<Rightarrow> byte list option \<times> 'k"
  ta_set_context :: "'k \<Rightarrow> nat \<Rightarrow> byte list \<Rightarrow> bool \<times> 'k"
  ta_close :: "'k \<Rightarrow> nat \<Rightarrow> bool \<times> 'k"

text \<open>\<open>Thread\<close>.\<close>

record win_thread =
  wt_handle :: nat
  wt_suspended :: bool

definition THREAD_ACCESS :: "32 word" where
  "THREAD_ACCESS = THREAD_QUERY_INFORMATION OR THREAD_SUSPEND_RESUME OR THREAD_GET_CONTEXT OR THREAD_SET_CONTEXT"

text \<open>
  \<open>suspend_others_iter\<close> collected by \<open>alloc_down_with\<close> (of the crate \<open>bump_into\<close>) while there is room for
  another \<open>Thread\<close>; \<open>handle\<close> is the last thread's, or null.
\<close>

fun suspend_others_iter :: "'k threadapi \<Rightarrow> nat \<Rightarrow> nat \<Rightarrow> 'k \<Rightarrow> win_thread list \<times> 'k" where
  "suspend_others_iter T 0 handle k = ([], k)"
| "suspend_others_iter T (Suc room) handle k =
     (case ta_next T k handle THREAD_ACCESS of
        (None, k) \<Rightarrow> ([], k)
      | (Some handle, k) \<Rightarrow>
          (let (is_suspended, k) =
                 (if ta_thread_id T k handle \<noteq> ta_my_id T
                  then (case ta_suspend T k handle of (n, k) \<Rightarrow> (n \<noteq> DWORD_MAX, k)) else (False, k));
               (threads, k) = suspend_others_iter T room handle k
           in (\<lparr>wt_handle = handle, wt_suspended = is_suspended\<rparr> # threads, k)))"

definition win_set_ip_if :: "'k threadapi \<Rightarrow> (nat \<Rightarrow> nat option) \<Rightarrow> win_thread \<Rightarrow> 'k \<Rightarrow> nat option \<times> 'k" where
  "win_set_ip_if T f t k =
     (case ta_get_context T k (wt_handle t)
             (put_at (offset_of CONTEXT ''ContextFlags'') (le_bytes 4 (int CONTEXT_CONTROL)) (replicate (size_of CONTEXT) 0)) of
        (None, k) \<Rightarrow> (None, k)
      | (Some context, k) \<Rightarrow>
          (let ip = get_at (offset_of CONTEXT ''RIP'') 8 context
           in case f ip of
                None \<Rightarrow> (Some ip, k)
              | Some new_ip \<Rightarrow>
                  (Some new_ip, snd (ta_set_context T k (wt_handle t)
                     (put_at (offset_of CONTEXT ''RIP'') (le_bytes 8 (int new_ip)) context)))))"

definition win_resume :: "'k threadapi \<Rightarrow> win_thread \<Rightarrow> 'k \<Rightarrow> 'k" where
  "win_resume T t k =
     (let k = (if wt_suspended t then snd (ta_resume T k (wt_handle t)) else k)
      in snd (ta_close T k (wt_handle t)))"

text \<open>The loops over the threads, of \<open>suspend_and_reloc_other_threads\<close>, \<open>undo_relocs\<close> and \<open>ThreadSuspendGuard::drop\<close>.\<close>

fun set_ips :: "'k threadapi \<Rightarrow> (nat \<Rightarrow> nat option) \<Rightarrow> win_thread list \<Rightarrow> 'k \<Rightarrow> 'k" where
  "set_ips T f [] k = k"
| "set_ips T f (t # ts) k = set_ips T f ts (if \<not> wt_suspended t then k else snd (win_set_ip_if T f t k))"

fun resume_all :: "'k threadapi \<Rightarrow> win_thread list \<Rightarrow> 'k \<Rightarrow> 'k" where
  "resume_all T [] k = k"
| "resume_all T (t # ts) k = resume_all T ts (win_resume T t k)"

text \<open>\<open>order\<close> is how \<open>alloc_down_with\<close> lays the threads out in memory.\<close>

definition win_suspend_and_reloc :: "'k threadapi \<Rightarrow> nat \<Rightarrow> (win_thread list \<Rightarrow> win_thread list) \<Rightarrow> ip_reloc list \<Rightarrow> 'k
    \<Rightarrow> win_thread list \<times> 'k" where
  "win_suspend_and_reloc T room order relocs k =
     (case minmax_ip relocs of
        None \<Rightarrow> ([], k)
      | Some _ \<Rightarrow>
          (let (thread_iter, k) = suspend_others_iter T room 0 k;
               threads = order thread_iter
           in (threads, set_ips T (reloc_ip relocs) threads k)))"

definition win_undo_relocs :: "'k threadapi \<Rightarrow> ip_reloc list \<Rightarrow> win_thread list \<Rightarrow> 'k \<Rightarrow> 'k" where
  "win_undo_relocs T relocs threads k = set_ips T (undo_ip relocs) threads k"

section \<open>What Windows promises\<close>

text \<open>The control registers of a thread, and where a context holds them.\<close>

record control =
  c_cs :: nat
  c_ss :: nat
  c_eflags :: nat
  c_rsp :: nat
  c_rip :: nat

definition control_of :: "byte list \<Rightarrow> control" where
  "control_of bs = \<lparr>c_cs = get_at 0x38 2 bs, c_ss = get_at 0x42 2 bs, c_eflags = get_at 0x44 4 bs,
     c_rsp = get_at 0x98 8 bs, c_rip = get_at 0xF8 8 bs\<rparr>"

definition is_control_context :: "byte list \<Rightarrow> bool" where
  "is_control_context bs \<longleftrightarrow> length bs = 1232 \<and> get_at 0x30 4 bs = 0x100001"

text \<open>
  What is observed of the system: \<open>wo_handles\<close> the thread handles the calling thread has open, with their
  thread and access, \<open>wo_stops\<close> how often it has suspended each thread and not resumed it yet, \<open>wo_control\<close>
  the control registers. \<open>wo_age\<close> is the order in which threads are listed.
\<close>

record 'k observed =
  wo_handles :: "'k \<Rightarrow> nat \<rightharpoonup> (nat \<times> 32 word)"
  wo_stops :: "'k \<Rightarrow> nat \<Rightarrow> nat"
  wo_control :: "'k \<Rightarrow> nat \<Rightarrow> control"
  wo_age :: "nat \<Rightarrow> nat"

text \<open>Threads that stay suspended do not run.\<close>

definition kept_stopped :: "'k observed \<Rightarrow> 'k \<Rightarrow> 'k \<Rightarrow> bool" where
  "kept_stopped ob k k' \<longleftrightarrow> (\<forall>u. 0 < wo_stops ob k u \<and> 0 < wo_stops ob k' u \<longrightarrow> wo_control ob k' u = wo_control ob k u)"

definition others_ran :: "'k observed \<Rightarrow> 'k \<Rightarrow> 'k \<Rightarrow> bool" where
  "others_ran ob k k' \<longleftrightarrow> wo_handles ob k' = wo_handles ob k \<and> wo_stops ob k' = wo_stops ob k \<and> kept_stopped ob k k'"

text \<open>A call with a handle to thread \<open>t\<close> that has the access the call needs.\<close>

definition allows :: "'k observed \<Rightarrow> 'k \<Rightarrow> nat \<Rightarrow> 32 word \<Rightarrow> nat \<Rightarrow> bool" where
  "allows ob k h a t \<longleftrightarrow> (\<exists>acc. wo_handles ob k h = Some (t, acc) \<and> acc AND a \<noteq> 0)"

definition next_ok :: "'k observed \<Rightarrow> 'k threadapi \<Rightarrow> bool" where
  "next_ok ob T \<longleftrightarrow> (\<forall>k h a r k'. ta_next T k h a = (r, k') \<longrightarrow>
     wo_stops ob k' = wo_stops ob k \<and> kept_stopped ob k k'
     \<and> (case r of
          None \<Rightarrow> wo_handles ob k' = wo_handles ob k
        | Some h' \<Rightarrow> h' \<noteq> 0 \<and> wo_handles ob k h' = None \<and>
            (\<exists>t. wo_handles ob k' = (wo_handles ob k)(h' \<mapsto> (t, a))
               \<and> (\<forall>u acc. h \<noteq> 0 \<and> wo_handles ob k h = Some (u, acc) \<longrightarrow> wo_age ob u < wo_age ob t))))"

definition suspend_ok :: "'k observed \<Rightarrow> 'k threadapi \<Rightarrow> bool" where
  "suspend_ok ob T \<longleftrightarrow> (\<forall>k h t n k'. allows ob k h THREAD_SUSPEND_RESUME t \<and> ta_suspend T k h = (n, k') \<longrightarrow>
     wo_handles ob k' = wo_handles ob k \<and> kept_stopped ob k k'
     \<and> wo_stops ob k' = (if n = DWORD_MAX then wo_stops ob k else (wo_stops ob k)(t := wo_stops ob k t + 1)))"

definition resume_ok :: "'k observed \<Rightarrow> 'k threadapi \<Rightarrow> bool" where
  "resume_ok ob T \<longleftrightarrow> (\<forall>k h t. allows ob k h THREAD_SUSPEND_RESUME t \<and> 0 < wo_stops ob k t \<longrightarrow>
     wo_handles ob (snd (ta_resume T k h)) = wo_handles ob k \<and> kept_stopped ob k (snd (ta_resume T k h))
     \<and> wo_stops ob (snd (ta_resume T k h)) = (wo_stops ob k)(t := wo_stops ob k t - 1))"

definition close_ok :: "'k observed \<Rightarrow> 'k threadapi \<Rightarrow> bool" where
  "close_ok ob T \<longleftrightarrow> (\<forall>k h. h \<in> dom (wo_handles ob k) \<longrightarrow>
     wo_handles ob (snd (ta_close T k h)) = (wo_handles ob k)(h := None)
     \<and> wo_stops ob (snd (ta_close T k h)) = wo_stops ob k \<and> kept_stopped ob k (snd (ta_close T k h)))"

text \<open>\<open>GetThreadContext\<close> and \<open>SetThreadContext\<close> with \<open>CONTEXT_CONTROL\<close>, of a stopped thread.\<close>

definition context_ok_api :: "'k observed \<Rightarrow> 'k threadapi \<Rightarrow> bool" where
  "context_ok_api ob T \<longleftrightarrow>
     (\<forall>k h t bs r k'. allows ob k h THREAD_GET_CONTEXT t \<and> is_control_context bs \<and> ta_get_context T k h bs = (r, k') \<longrightarrow>
        others_ran ob k k' \<and> (\<forall>bs'. r = Some bs' \<and> 0 < wo_stops ob k t \<longrightarrow>
          is_control_context bs' \<and> control_of bs' = wo_control ob k t))
     \<and> (\<forall>k h t bs ok k'. allows ob k h THREAD_SET_CONTEXT t \<and> is_control_context bs \<and> 0 < wo_stops ob k t
          \<and> ta_set_context T k h bs = (ok, k') \<longrightarrow>
        wo_handles ob k' = wo_handles ob k \<and> wo_stops ob k' = wo_stops ob k
        \<and> (\<forall>u. u \<noteq> t \<and> 0 < wo_stops ob k u \<longrightarrow> wo_control ob k' u = wo_control ob k u)
        \<and> wo_control ob k' t = (if ok then control_of bs else wo_control ob k t))"

definition threadapi_ok :: "'k observed \<Rightarrow> 'k threadapi \<Rightarrow> bool" where
  "threadapi_ok ob T \<longleftrightarrow> next_ok ob T \<and> suspend_ok ob T \<and> resume_ok ob T \<and> close_ok ob T \<and> context_ok_api ob T
     \<and> (\<forall>k h t. allows ob k h THREAD_QUERY_INFORMATION t \<longrightarrow> ta_thread_id T k h = t)"

section \<open>What the guard holds\<close>

definition empty_context :: "byte list" where
  "empty_context = put_at (offset_of CONTEXT ''ContextFlags'') (le_bytes 4 (int CONTEXT_CONTROL)) (replicate (size_of CONTEXT) 0)"

lemma is_control_empty: "is_control_context empty_context"
  by (simp add: is_control_context_def empty_context_def get_put_same from_le_bytes CONTEXT_CONTROL_def CONTEXT_BASE_def)

lemma put_rip:
  assumes "is_control_context bs" and "new < usize_size"
  shows "is_control_context (put_at (offset_of CONTEXT ''RIP'') (le_bytes 8 (int new)) bs)"
    and "control_of (put_at (offset_of CONTEXT ''RIP'') (le_bytes 8 (int new)) bs) = (control_of bs)\<lparr>c_rip := new\<rparr>"
  using assms by (simp_all add: is_control_context_def control_of_def get_put_other get_put_same from_le_bytes usize_defs)

definition thread_of :: "'k observed \<Rightarrow> 'k \<Rightarrow> win_thread \<Rightarrow> nat" where
  "thread_of ob k t = (case wo_handles ob k (wt_handle t) of Some (u, _) \<Rightarrow> u | None \<Rightarrow> 0)"

definition held_times :: "'k observed \<Rightarrow> 'k \<Rightarrow> win_thread list \<Rightarrow> nat \<Rightarrow> nat" where
  "held_times ob k ts u = length (filter (\<lambda>t. wt_suspended t \<and> thread_of ob k t = u) ts)"

text \<open>Since \<open>k0\<close> the handles of \<open>ts\<close> were opened, and the suspended threads of \<open>ts\<close> suspended.\<close>

definition guarded :: "'k observed \<Rightarrow> nat \<Rightarrow> 'k \<Rightarrow> win_thread list \<Rightarrow> 'k \<Rightarrow> bool" where
  "guarded ob me k0 ts k \<longleftrightarrow> distinct (map wt_handle ts)
     \<and> (\<forall>t \<in> set ts. wo_handles ob k0 (wt_handle t) = None \<and> wo_handles ob k (wt_handle t) = Some (thread_of ob k t, THREAD_ACCESS)
          \<and> (wt_suspended t \<longrightarrow> thread_of ob k t \<noteq> me))
     \<and> (\<forall>h. h \<notin> wt_handle ` set ts \<longrightarrow> wo_handles ob k h = wo_handles ob k0 h)
     \<and> (\<forall>u. wo_stops ob k u = wo_stops ob k0 u + held_times ob k ts u)"

lemma guardedD:
  assumes "guarded ob me k0 ts k" and "t \<in> set ts"
  shows "wo_handles ob k (wt_handle t) = Some (thread_of ob k t, THREAD_ACCESS)" and "wt_suspended t \<Longrightarrow> thread_of ob k t \<noteq> me"
    and "wt_suspended t \<Longrightarrow> 0 < wo_stops ob k (thread_of ob k t)"
proof -
  show "wo_handles ob k (wt_handle t) = Some (thread_of ob k t, THREAD_ACCESS)" and "wt_suspended t \<Longrightarrow> thread_of ob k t \<noteq> me"
    using assms by (auto simp: guarded_def)
  assume "wt_suspended t"
  with assms(2) have "filter (\<lambda>t'. wt_suspended t' \<and> thread_of ob k t' = thread_of ob k t) ts \<noteq> []"
    by (auto simp: filter_empty_conv)
  then show "0 < wo_stops ob k (thread_of ob k t)" using assms(1) by (simp add: guarded_def held_times_def)
qed

lemma allows_access:
  assumes "guarded ob me k0 ts k" and "t \<in> set ts"
  shows "allows ob k (wt_handle t) THREAD_SUSPEND_RESUME (thread_of ob k t)"
    and "allows ob k (wt_handle t) THREAD_GET_CONTEXT (thread_of ob k t)"
    and "allows ob k (wt_handle t) THREAD_SET_CONTEXT (thread_of ob k t)"
  using guardedD(1) [OF assms]
  by (simp_all add: allows_def THREAD_ACCESS_def THREAD_SUSPEND_RESUME_def THREAD_GET_CONTEXT_def THREAD_SET_CONTEXT_def
      THREAD_QUERY_INFORMATION_def)

lemma held_times_cong: "(\<And>t. t \<in> set ts \<Longrightarrow> thread_of ob k t = thread_of ob' k' t) \<Longrightarrow> held_times ob k ts u = held_times ob' k' ts u"
  unfolding held_times_def by (intro arg_cong [of _ _ length] filter_cong) auto

text \<open>What keeps the handles and the counts keeps what the guard holds.\<close>

lemma guarded_cong:
  assumes "wo_handles ob k' = wo_handles ob k" and "wo_stops ob k' = wo_stops ob k"
  shows "guarded ob me k0 ts k' = guarded ob me k0 ts k" and "thread_of ob k' t = thread_of ob k t"
proof -
  show th: "thread_of ob k' t = thread_of ob k t" for t using assms(1) by (simp add: thread_of_def)
  show "guarded ob me k0 ts k' = guarded ob me k0 ts k"
    using assms held_times_cong [of ts ob k' ob k] th by (simp add: guarded_def)
qed

lemma guarded_perm: "mset ts' = mset ts \<Longrightarrow> guarded ob me k0 ts k \<Longrightarrow> guarded ob me k0 ts' k"
proof -
  assume p: "mset ts' = mset ts" and g: "guarded ob me k0 ts k"
  have "mset (filter P ts') = mset (filter P ts)" for P using p by simp
  then have "held_times ob k ts' u = held_times ob k ts u" for u unfolding held_times_def by (metis size_mset)
  moreover have "distinct (map wt_handle ts') = distinct (map wt_handle ts)"
    using p by (metis mset_map mset_eq_imp_distinct_iff)
  moreover have "set ts' = set ts" using p by (metis set_mset_mset)
  ultimately show ?thesis using g by (simp add: guarded_def)
qed

lemma guarded_snoc:
  assumes g: "guarded ob me k0 us k" and new: "wo_handles ob k h = None" and s: "s \<longrightarrow> t \<noteq> me"
    and h: "wo_handles ob k' = (wo_handles ob k)(h \<mapsto> (t, THREAD_ACCESS))"
    and n: "wo_stops ob k' = (if s then (wo_stops ob k)(t := wo_stops ob k t + 1) else wo_stops ob k)"
  shows "guarded ob me k0 (us @ [\<lparr>wt_handle = h, wt_suspended = s\<rparr>]) k'"
    and "u \<in> set us \<Longrightarrow> thread_of ob k' u = thread_of ob k u"
    and "thread_of ob k' \<lparr>wt_handle = h, wt_suspended = s\<rparr> = t"
proof -
  have apart: "wt_handle u \<noteq> h" if "u \<in> set us" for u using guardedD(1) [OF g that] new by auto
  then show old: "u \<in> set us \<Longrightarrow> thread_of ob k' u = thread_of ob k u" for u using h by (simp add: thread_of_def)
  show th: "thread_of ob k' \<lparr>wt_handle = h, wt_suspended = s\<rparr> = t" using h by (simp add: thread_of_def)
  have "h \<notin> wt_handle ` set us" using apart by auto
  moreover from this have "wo_handles ob k0 h = None" using g new by (simp add: guarded_def)
  moreover have "held_times ob k' us u = held_times ob k us u" for u by (rule held_times_cong) (rule old)
  then have "wo_stops ob k' u = wo_stops ob k0 u + held_times ob k' (us @ [\<lparr>wt_handle = h, wt_suspended = s\<rparr>]) u" for u
    using g n th by (simp add: guarded_def held_times_def)
  ultimately show "guarded ob me k0 (us @ [\<lparr>wt_handle = h, wt_suspended = s\<rparr>]) k'"
    using g s h th old apart unfolding guarded_def by auto
qed

lemma iter_guarded:
  assumes ok: "threadapi_ok ob T"
  shows "suspend_others_iter T room h k = (ts, k') \<Longrightarrow> guarded ob (ta_my_id T) k0 us k \<Longrightarrow>
    h = (if us = [] then 0 else wt_handle (last us)) \<Longrightarrow> us \<noteq> [] \<longrightarrow> h \<noteq> 0 \<Longrightarrow>
    sorted_wrt (<) (map (\<lambda>t. wo_age ob (thread_of ob k t)) us) \<Longrightarrow>
    guarded ob (ta_my_id T) k0 (us @ ts) k' \<and> sorted_wrt (<) (map (\<lambda>t. wo_age ob (thread_of ob k' t)) (us @ ts))"
proof (induction room arbitrary: h k us ts k')
  case (Suc room)
  obtain r k1 where nx: "ta_next T k h THREAD_ACCESS = (r, k1)" by force
  note law = ok [unfolded threadapi_ok_def next_ok_def, THEN conjunct1, rule_format, OF nx]
  show ?case
  proof (cases r)
    case None
    then have "ts = []" "k' = k1" using Suc.prems(1) nx by simp_all
    moreover have "guarded ob (ta_my_id T) k0 us k1 = guarded ob (ta_my_id T) k0 us k" "\<And>t. thread_of ob k1 t = thread_of ob k t"
      using guarded_cong [of ob k1 k] law None by simp_all
    ultimately show ?thesis using Suc.prems(2,5) by simp
  next
    case (Some h1)
    obtain t where t: "wo_handles ob k1 = (wo_handles ob k)(h1 \<mapsto> (t, THREAD_ACCESS))" "wo_handles ob k h1 = None" "h1 \<noteq> 0"
        "wo_stops ob k1 = wo_stops ob k" "\<And>u acc. h \<noteq> 0 \<Longrightarrow> wo_handles ob k h = Some (u, acc) \<Longrightarrow> wo_age ob u < wo_age ob t"
      using law Some by auto
    have al: "allows ob k1 h1 THREAD_QUERY_INFORMATION t" "allows ob k1 h1 THREAD_SUSPEND_RESUME t"
      using t(1) by (simp_all add: allows_def THREAD_ACCESS_def THREAD_SUSPEND_RESUME_def THREAD_GET_CONTEXT_def THREAD_SET_CONTEXT_def
          THREAD_QUERY_INFORMATION_def)
    have id: "ta_thread_id T k1 h1 = t" using ok al(1) by (simp add: threadapi_ok_def)
    obtain s k2 where sk: "(s, k2) = (if t \<noteq> ta_my_id T then (case ta_suspend T k1 h1 of (n, k) \<Rightarrow> (n \<noteq> DWORD_MAX, k)) else (False, k1))"
      by (metis surj_pair)
    obtain rest where rest: "suspend_others_iter T room h1 k2 = (rest, k')" "ts = \<lparr>wt_handle = h1, wt_suspended = s\<rparr> # rest"
      using Suc.prems(1) nx Some id sk by (auto simp: Let_def split: prod.splits)
    obtain n k3 where su: "ta_suspend T k1 h1 = (n, k3)" by force
    note slaw = ok [unfolded threadapi_ok_def suspend_ok_def, THEN conjunct2, THEN conjunct1, rule_format, OF conjI, OF al(2) su]
    have k2: "wo_handles ob k2 = wo_handles ob k1" "s \<longrightarrow> t \<noteq> ta_my_id T"
        "wo_stops ob k2 = (if s then (wo_stops ob k1)(t := wo_stops ob k1 t + 1) else wo_stops ob k1)"
      using sk su slaw by (auto split: if_splits)
    note g = guarded_snoc [OF Suc.prems(2) t(2) k2(2), of k2]
    have g': "guarded ob (ta_my_id T) k0 (us @ [\<lparr>wt_handle = h1, wt_suspended = s\<rparr>]) k2"
        "\<And>u. u \<in> set us \<Longrightarrow> thread_of ob k2 u = thread_of ob k u" "thread_of ob k2 \<lparr>wt_handle = h1, wt_suspended = s\<rparr> = t"
      using g k2(1,3) t(1,4) by simp_all
    have older: "wo_age ob (thread_of ob k u) < wo_age ob t" if "u \<in> set us" for u
    proof -
      have "us \<noteq> []" using that by auto
      then have l: "last us \<in> set us" "us \<noteq> []" by simp_all
      then have "wo_age ob (thread_of ob k (last us)) < wo_age ob t"
        using t(5) [of "thread_of ob k (last us)"] guardedD(1) [OF Suc.prems(2) l(1)] Suc.prems(3,4) by auto
      moreover have "u = last us \<or> wo_age ob (thread_of ob k u) < wo_age ob (thread_of ob k (last us))"
        using Suc.prems(5) that l(2) by (cases us rule: rev_cases) (auto simp: sorted_wrt_append)
      ultimately show ?thesis by auto
    qed
    have "map (\<lambda>t. wo_age ob (thread_of ob k2 t)) (us @ [\<lparr>wt_handle = h1, wt_suspended = s\<rparr>])
        = map (\<lambda>t. wo_age ob (thread_of ob k t)) us @ [wo_age ob t]" using g'(2,3) by simp
    then have "sorted_wrt (<) (map (\<lambda>t. wo_age ob (thread_of ob k2 t)) (us @ [\<lparr>wt_handle = h1, wt_suspended = s\<rparr>]))"
      using Suc.prems(5) older by (simp only: sorted_wrt_append) auto
    then show ?thesis
      using Suc.IH [OF rest(1) g'(1)] rest(2) t(3) by simp
  qed
qed simp

text \<open>
  Moving the instruction pointer of one thread, and of several. The code ignores an error of
  \<open>GetThreadContext\<close> and \<open>SetThreadContext\<close>; \<open>answered\<close> says that neither call failed.
\<close>

definition with_ip :: "(nat \<Rightarrow> nat option) \<Rightarrow> control \<Rightarrow> control" where
  "with_ip f c = c\<lparr>c_rip := moved f (c_rip c)\<rparr>"

definition answered :: "'k threadapi \<Rightarrow> (nat \<Rightarrow> nat option) \<Rightarrow> win_thread \<Rightarrow> 'k \<Rightarrow> bool" where
  "answered T f t k \<longleftrightarrow> (case ta_get_context T k (wt_handle t) empty_context of
     (None, k) \<Rightarrow> False
   | (Some context, k) \<Rightarrow>
       (case f (get_at 0xF8 8 context) of
          None \<Rightarrow> True
        | Some new_ip \<Rightarrow> fst (ta_set_context T k (wt_handle t) (put_at 0xF8 (le_bytes 8 (int new_ip)) context))))"

definition ip_after :: "'k threadapi \<Rightarrow> (nat \<Rightarrow> nat option) \<Rightarrow> win_thread \<Rightarrow> 'k \<Rightarrow> control \<Rightarrow> control" where
  "ip_after T f t k c = (if answered T f t k then with_ip f c else c)"

lemma win_set_ip_if_empty: "win_set_ip_if T f t k =
     (case ta_get_context T k (wt_handle t) empty_context of
        (None, k) \<Rightarrow> (None, k)
      | (Some context, k) \<Rightarrow>
          (let ip = get_at (offset_of CONTEXT ''RIP'') 8 context
           in case f ip of
                None \<Rightarrow> (Some ip, k)
              | Some new_ip \<Rightarrow>
                  (Some new_ip, snd (ta_set_context T k (wt_handle t)
                     (put_at (offset_of CONTEXT ''RIP'') (le_bytes 8 (int new_ip)) context)))))"
  unfolding win_set_ip_if_def empty_context_def ..

lemma set_ip_step:
  assumes ok: "threadapi_ok ob T" and g: "guarded ob me k0 ts k" and t: "t \<in> set ts" "wt_suspended t"
    and f: "\<forall>ip new_ip. f ip = Some new_ip \<longrightarrow> new_ip < usize_size"
  shows "wo_handles ob (snd (win_set_ip_if T f t k)) = wo_handles ob k" (is ?A)
    and "wo_stops ob (snd (win_set_ip_if T f t k)) = wo_stops ob k" (is ?B)
    and "u \<noteq> thread_of ob k t \<Longrightarrow> 0 < wo_stops ob k u \<Longrightarrow> wo_control ob (snd (win_set_ip_if T f t k)) u = wo_control ob k u"
    and "wo_control ob (snd (win_set_ip_if T f t k)) (thread_of ob k t) = ip_after T f t k (wo_control ob k (thread_of ob k t))" (is ?D)
proof -
  let ?t = "thread_of ob k t" and ?h = "wt_handle t"
  note pos = guardedD(3) [OF g t]
  obtain r k1 where get: "ta_get_context T k ?h empty_context = (r, k1)" by force
  note law = ok [unfolded threadapi_ok_def context_ok_api_def]
  have "others_ran ob k k1" using law allows_access(2) [OF g t(1)] is_control_empty get by blast
  then have k1: "wo_handles ob k1 = wo_handles ob k" "wo_stops ob k1 = wo_stops ob k"
      "\<And>u. 0 < wo_stops ob k u \<Longrightarrow> wo_control ob k1 u = wo_control ob k u"
    by (simp_all add: others_ran_def kept_stopped_def)
  have all: "?A \<and> ?B \<and> (\<forall>u. u \<noteq> ?t \<and> 0 < wo_stops ob k u \<longrightarrow> wo_control ob (snd (win_set_ip_if T f t k)) u = wo_control ob k u) \<and> ?D"
  proof (cases r)
    case None
    then have "win_set_ip_if T f t k = (None, k1)" "\<not> answered T f t k"
      using get by (simp_all add: win_set_ip_if_empty answered_def)
    then show ?thesis using k1 pos by (simp add: ip_after_def)
  next
    case (Some bs)
    have bs: "is_control_context bs" "control_of bs = wo_control ob k ?t"
      using law allows_access(2) [OF g t(1)] is_control_empty get [unfolded Some] pos by blast+
    have ip: "get_at (offset_of CONTEXT ''RIP'') 8 bs = c_rip (wo_control ob k ?t)" using bs(2) by (simp add: control_of_def flip: bs(2))
    show ?thesis
    proof (cases "f (c_rip (wo_control ob k ?t))")
      case None
      then have "win_set_ip_if T f t k = (Some (c_rip (wo_control ob k ?t)), k1)"
        using get Some ip by (simp add: win_set_ip_if_empty Let_def)
      then show ?thesis using k1 pos None by (simp add: ip_after_def with_ip_def moved_def)
    next
      case (Some new_ip)
      let ?bs = "put_at (offset_of CONTEXT ''RIP'') (le_bytes 8 (int new_ip)) bs"
      note new = put_rip [OF bs(1) f [rule_format, OF Some]]
      have pos1: "0 < wo_stops ob k1 ?t" using k1 pos by simp
      obtain taken k2 where set: "ta_set_context T k1 ?h ?bs = (taken, k2)" by force
      have "guarded ob me k0 ts k1" "thread_of ob k1 t = ?t" using guarded_cong [OF k1(1,2)] g by simp_all
      then have "allows ob k1 ?h THREAD_SET_CONTEXT ?t" using allows_access(3) [of ob me k0 ts k1 t] t(1) by simp
      then have "wo_handles ob k2 = wo_handles ob k1" "wo_stops ob k2 = wo_stops ob k1"
          "\<And>u. u \<noteq> ?t \<Longrightarrow> 0 < wo_stops ob k1 u \<Longrightarrow> wo_control ob k2 u = wo_control ob k1 u"
          "wo_control ob k2 ?t = (if taken then control_of ?bs else wo_control ob k1 ?t)"
        using law new(1) pos1 set by (metis (lifting))+
      moreover have "win_set_ip_if T f t k = (Some new_ip, k2)" "answered T f t k = taken"
        using get \<open>r = Some bs\<close> ip Some set by (simp_all add: win_set_ip_if_empty answered_def Let_def)
      ultimately show ?thesis using k1 pos Some new(2) bs(2) by (simp add: ip_after_def with_ip_def moved_def)
    qed
  qed
  from all show ?A ?B ?D by blast+
  show "wo_control ob (snd (win_set_ip_if T f t k)) u = wo_control ob k u" if "u \<noteq> ?t" "0 < wo_stops ob k u"
    using all that by blast
qed

lemma set_ips_moves:
  assumes ok: "threadapi_ok ob T" and f: "\<forall>ip new_ip. f ip = Some new_ip \<longrightarrow> new_ip < usize_size"
  shows "guarded ob me k0 ts k \<Longrightarrow> set us \<subseteq> set ts \<Longrightarrow> distinct (map (thread_of ob k) us) \<Longrightarrow>
    wo_handles ob (set_ips T f us k) = wo_handles ob k \<and> wo_stops ob (set_ips T f us k) = wo_stops ob k
    \<and> (\<forall>u. 0 < wo_stops ob k u \<and> (\<forall>t \<in> set us. wt_suspended t \<longrightarrow> thread_of ob k t \<noteq> u) \<longrightarrow>
         wo_control ob (set_ips T f us k) u = wo_control ob k u)
    \<and> (\<forall>i < length us. wt_suspended (us ! i) \<longrightarrow>
         wo_control ob (set_ips T f us k) (thread_of ob k (us ! i))
           = ip_after T f (us ! i) (set_ips T f (take i us) k) (wo_control ob k (thread_of ob k (us ! i))))"
proof (induction us arbitrary: k)
  case (Cons t us)
  show ?case
  proof (cases "wt_suspended t")
    case False
    with Cons.IH [of k] Cons.prems show ?thesis by (auto simp: nth_Cons take_Cons less_Suc_eq_0_disj)
  next
    case True
    let ?k = "snd (win_set_ip_if T f t k)"
    have t: "t \<in> set ts" using Cons.prems(2) by simp
    note s = set_ip_step [OF ok Cons.prems(1) t True f]
    note c = guarded_cong [OF s(1,2)]
    note pos = guardedD(3) [OF Cons.prems(1)]
    have d: "thread_of ob k t \<noteq> thread_of ob k t'" if "t' \<in> set us" for t' using Cons.prems(3) that by auto
    have IH: "wo_handles ob (set_ips T f us ?k) = wo_handles ob ?k" "wo_stops ob (set_ips T f us ?k) = wo_stops ob ?k"
      and rest: "\<And>u. 0 < wo_stops ob ?k u \<Longrightarrow> \<forall>t \<in> set us. wt_suspended t \<longrightarrow> thread_of ob ?k t \<noteq> u \<Longrightarrow>
         wo_control ob (set_ips T f us ?k) u = wo_control ob ?k u"
      and each: "\<And>i. i < length us \<Longrightarrow> wt_suspended (us ! i) \<Longrightarrow>
         wo_control ob (set_ips T f us ?k) (thread_of ob ?k (us ! i))
           = ip_after T f (us ! i) (set_ips T f (take i us) ?k) (wo_control ob ?k (thread_of ob ?k (us ! i)))"
      using Cons.IH [of ?k] Cons.prems c by simp_all
    have "wo_control ob (set_ips T f us ?k) u = wo_control ob k u"
      if "0 < wo_stops ob k u" "\<forall>t' \<in> set (t # us). wt_suspended t' \<longrightarrow> thread_of ob k t' \<noteq> u" for u
      using rest [of u] that s(2) s(3) [of u] c(2) True by auto
    moreover have "wo_control ob (set_ips T f us ?k) (thread_of ob k t) = ip_after T f t k (wo_control ob k (thread_of ob k t))"
      using rest [of "thread_of ob k t"] pos [OF t True] s(2,4) c(2) d by metis
    moreover have "wo_control ob (set_ips T f us ?k) (thread_of ob k (us ! i))
        = ip_after T f (us ! i) (set_ips T f (take i us) ?k) (wo_control ob k (thread_of ob k (us ! i)))"
      if i: "i < length us" "wt_suspended (us ! i)" for i
    proof -
      have "us ! i \<in> set ts" using Cons.prems(2) i(1) by auto
      then have "wo_control ob ?k (thread_of ob k (us ! i)) = wo_control ob k (thread_of ob k (us ! i))"
        using s(3) pos i d [of "us ! i"] by (metis nth_mem)
      with each [OF i] c(2) show ?thesis by simp
    qed
    ultimately show ?thesis using True s(1,2) IH by (auto simp: nth_Cons take_Cons less_Suc_eq_0_disj)
  qed
qed simp

text \<open>Letting a thread go.\<close>

lemma resume_step:
  assumes ok: "threadapi_ok ob T" and g: "guarded ob me k0 (t # ts) k"
  shows "guarded ob me k0 ts (win_resume T t k)"
    and "t' \<in> set ts \<Longrightarrow> thread_of ob (win_resume T t k) t' = thread_of ob k t'"
    and "t' \<in> set ts \<Longrightarrow> wt_suspended t' \<Longrightarrow>
      wo_control ob (win_resume T t k) (thread_of ob k t') = wo_control ob k (thread_of ob k t')"
proof -
  let ?h = "wt_handle t" and ?u = "thread_of ob k t"
  define k1 where "k1 = (if wt_suspended t then snd (ta_resume T k ?h) else k)"
  have al: "allows ob k ?h THREAD_SUSPEND_RESUME ?u" by (rule allows_access(1) [OF g]) simp
  have k1: "wo_handles ob k1 = wo_handles ob k" "kept_stopped ob k k1"
      "wo_stops ob k1 = (if wt_suspended t then (wo_stops ob k)(?u := wo_stops ob k ?u - 1) else wo_stops ob k)"
    using ok al guardedD(3) [OF g, of t] by (auto simp: k1_def threadapi_ok_def resume_ok_def kept_stopped_def)
  have "?h \<in> dom (wo_handles ob k1)" using guardedD(1) [OF g, of t] k1(1) by auto
  then have k2: "wo_handles ob (win_resume T t k) = (wo_handles ob k)(?h := None)"
      "wo_stops ob (win_resume T t k) = wo_stops ob k1" "kept_stopped ob k1 (win_resume T t k)"
    using ok k1(1) unfolding threadapi_ok_def close_ok_def win_resume_def Let_def k1_def by simp_all
  have apart: "wt_handle t' \<noteq> ?h" if "t' \<in> set ts" for t' using g that unfolding guarded_def by (metis distinct.simps(2) image_eqI list.set_map list.simps(9))
  show th: "t' \<in> set ts \<Longrightarrow> thread_of ob (win_resume T t k) t' = thread_of ob k t'" for t'
    using apart k2(1) by (simp add: thread_of_def)
  have held: "held_times ob (win_resume T t k) ts u = held_times ob k ts u" for u by (rule held_times_cong) (rule th)
  have "wo_handles ob k0 ?h = None" using g by (simp add: guarded_def)
  moreover have "wo_stops ob (win_resume T t k) u = wo_stops ob k0 u + held_times ob (win_resume T t k) ts u" for u
    using g k1(3) k2(2) held unfolding guarded_def by (auto simp: held_times_def)
  ultimately show g': "guarded ob me k0 ts (win_resume T t k)"
    using g k2(1) th apart unfolding guarded_def by auto
  show "wo_control ob (win_resume T t k) (thread_of ob k t') = wo_control ob k (thread_of ob k t')" if "t' \<in> set ts" "wt_suspended t'"
  proof -
    have "0 < wo_stops ob (win_resume T t k) (thread_of ob k t')" using guardedD(3) [OF g' that] th [OF that(1)] by simp
    moreover have "0 < wo_stops ob k (thread_of ob k t')" using guardedD(3) [OF g, of t'] that by simp
    ultimately show ?thesis using k1(2) k2(2,3) unfolding kept_stopped_def by metis
  qed
qed

lemma resume_prefix:
  assumes ok: "threadapi_ok ob T"
  shows "guarded ob me k0 (us @ ts) k \<Longrightarrow> guarded ob me k0 ts (resume_all T us k)
    \<and> (\<forall>t \<in> set ts. thread_of ob (resume_all T us k) t = thread_of ob k t
        \<and> (wt_suspended t \<longrightarrow> wo_control ob (resume_all T us k) (thread_of ob k t) = wo_control ob k (thread_of ob k t)))"
proof (induction us arbitrary: k)
  case (Cons u us)
  note s = resume_step [OF ok Cons.prems [unfolded append_Cons]]
  show ?case using Cons.IH [OF s(1)] s(2,3) by simp
qed simp

lemma guarded_start: "guarded ob me k0 [] k0"
  by (simp add: guarded_def held_times_def)

lemma guarded_end: "guarded ob me k0 [] k \<Longrightarrow> wo_handles ob k = wo_handles ob k0 \<and> wo_stops ob k = wo_stops ob k0"
  by (auto simp: guarded_def held_times_def)

lemma relocs_fit:
  assumes "\<forall>r \<in> set relocs. rl_from r < usize_size \<and> rl_to r < usize_size"
  shows "\<forall>ip n. reloc_ip relocs ip = Some n \<longrightarrow> n < usize_size" and "\<forall>ip n. undo_ip relocs ip = Some n \<longrightarrow> n < usize_size"
  using assms by (auto simp: reloc_ip_def undo_ip_def bind_eq_Some_conv find_Some_iff split: if_splits)

section \<open>Properties\<close>

text \<open>
  C14. Threads resume relocated on Windows. Between the return of \<open>suspend_and_reloc_other_threads\<close> and its
  resumption every suspended thread is stopped with its instruction pointer relocated, or moved back if
  the patch is given up, and its other control registers as they were; it is never the calling thread.
  A thread whose context the system does not give or does not take keeps its instruction pointer: the code
  ignores those errors. When the guard is dropped every handle is closed and every suspension undone.
\<close>

theorem win_threads_resume_relocated:
  assumes "threadapi_ok ob T" and "\<forall>ts. mset (order ts) = mset ts"
    and "relocs \<noteq> []" and "\<forall>r \<in> set relocs. rl_from r < usize_size \<and> rl_to r < usize_size"
    and iter: "suspend_others_iter T room 0 k0 = (others, ks)"
    and run: "win_suspend_and_reloc T room order relocs k0 = (ts, k1)"
    and ran: "others_ran ob k1 k2"
    and undo: "k3 = (if undone then win_undo_relocs T relocs ts k2 else k2)"
  shows "(\<forall>i < length ts. wt_suspended (ts ! i) \<longrightarrow>
       (let t = thread_of ob ks (ts ! i);
            moved_ip = (\<lambda>f k c. if answered T f (ts ! i) (set_ips T f (take i ts) k) then with_ip f c else c);
            held = moved_ip (reloc_ip relocs) ks (wo_control ob ks t) in
          t \<noteq> ta_my_id T \<and> 0 < wo_stops ob k1 t \<and> wo_control ob k2 t = held
          \<and> wo_control ob (resume_all T (take i ts) k3) t = (if undone then moved_ip (undo_ip relocs) k2 held else held)))
     \<and> mset ts = mset others
     \<and> wo_handles ob (resume_all T ts k3) = wo_handles ob k0 \<and> wo_stops ob (resume_all T ts k3) = wo_stops ob k0"
proof -
  obtain mm where "minmax_ip relocs = Some mm" using assms(3) by (cases relocs) (simp_all add: minmax_ip_def)
  then have ts: "ts = order others" "k1 = set_ips T (reloc_ip relocs) ts ks"
    using run iter by (auto simp: win_suspend_and_reloc_def Let_def)
  have perm: "mset ts = mset others" using assms(2) ts(1) by simp
  have it: "guarded ob (ta_my_id T) k0 others ks" "sorted_wrt (<) (map (\<lambda>t. wo_age ob (thread_of ob ks t)) others)"
    using iter_guarded [OF assms(1) iter guarded_start] by simp_all
  have "distinct (map (wo_age ob) (map (thread_of ob ks) others))"
    using it(2) by (simp add: strict_sorted_iff comp_def)
  then have "distinct (map (thread_of ob ks) others)" by (metis distinct_map)
  then have d: "distinct (map (thread_of ob ks) ts)" using perm by (metis mset_map mset_eq_imp_distinct_iff)
  have g: "guarded ob (ta_my_id T) k0 ts ks" by (rule guarded_perm [OF perm it(1)])
  note fit = relocs_fit [OF assms(4)]
  note one = set_ips_moves [OF assms(1) fit(1) g subset_refl d, folded ts(2)]
  have k2: "wo_handles ob k2 = wo_handles ob ks" "wo_stops ob k2 = wo_stops ob ks"
      "\<And>u. 0 < wo_stops ob ks u \<Longrightarrow> wo_control ob k2 u = wo_control ob k1 u"
    using one ran by (simp_all add: others_ran_def kept_stopped_def)
  note c2 = guarded_cong [OF k2(1,2)]
  have "thread_of ob k2 = thread_of ob ks" using c2(2) by blast
  then have g2: "guarded ob (ta_my_id T) k0 ts k2" "distinct (map (thread_of ob k2) ts)" using g d c2(1) by simp_all
  note two = set_ips_moves [OF assms(1) fit(2) g2(1) subset_refl g2(2)]
  have k3: "wo_handles ob k3 = wo_handles ob k2" "wo_stops ob k3 = wo_stops ob k2"
    using two undo by (simp_all add: win_undo_relocs_def)
  note c3 = guarded_cong [OF k3]
  have g3: "guarded ob (ta_my_id T) k0 ts k3" using g2(1) c3 by simp
  have last: "wo_handles ob (resume_all T ts k3) = wo_handles ob k0 \<and> wo_stops ob (resume_all T ts k3) = wo_stops ob k0"
    using resume_prefix [OF assms(1), of "ta_my_id T" k0 ts "[]" k3] g3 guarded_end by fastforce
  have "thread_of ob ks t \<noteq> ta_my_id T \<and> 0 < wo_stops ob k1 (thread_of ob ks t)
      \<and> wo_control ob k2 (thread_of ob ks t) = ip_after T (reloc_ip relocs) t (set_ips T (reloc_ip relocs) (take i ts) ks) (wo_control ob ks (thread_of ob ks t))
      \<and> wo_control ob (resume_all T (take i ts) k3) (thread_of ob ks t)
        = (if undone then ip_after T (undo_ip relocs) t (set_ips T (undo_ip relocs) (take i ts) k2) (wo_control ob k2 (thread_of ob ks t))
           else wo_control ob k2 (thread_of ob ks t))"
    if i: "i < length ts" "wt_suspended t" "t = ts ! i" for i t
  proof -
    have t: "t \<in> set ts" using i by simp
    note gs = guardedD [OF g t]
    have held: "wo_control ob k2 (thread_of ob ks t)
        = ip_after T (reloc_ip relocs) t (set_ips T (reloc_ip relocs) (take i ts) ks) (wo_control ob ks (thread_of ob ks t))"
      using one k2(3) gs(3) [OF i(2)] i by simp
    have "t \<in> set (drop i ts)" using i by (metis Cons_nth_drop_Suc list.set_intros(1))
    then have "wo_control ob (resume_all T (take i ts) k3) (thread_of ob k3 t) = wo_control ob k3 (thread_of ob k3 t)"
      using resume_prefix [OF assms(1), of "ta_my_id T" k0 "take i ts" "drop i ts" k3] g3 i(2) by simp
    moreover have "wo_control ob k3 (thread_of ob ks t) = (if undone
        then ip_after T (undo_ip relocs) t (set_ips T (undo_ip relocs) (take i ts) k2) (wo_control ob k2 (thread_of ob ks t))
        else wo_control ob k2 (thread_of ob ks t))"
      using two undo i c2(2) by (simp add: win_undo_relocs_def)
    ultimately show ?thesis using gs(2,3) [OF i(2)] one held c2(2) c3(2) by simp
  qed
  then show ?thesis using perm last by (simp add: Let_def ip_after_def)
qed

text \<open>A process of two threads, 1 and 2, of which the first patches a function the second is at.\<close>

record two_threads =
  ty_handles :: "(nat \<times> nat \<times> 32 word) list"
  ty_stops :: "nat \<Rightarrow> nat"
  ty_context :: "nat \<Rightarrow> byte list"

definition whole :: "byte list \<Rightarrow> byte list" where
  "whole bs = take 1232 (bs @ replicate 1232 0)"

definition two_observed :: "two_threads observed" where
  "two_observed = \<lparr>wo_handles = (\<lambda>k. map_of (ty_handles k)), wo_stops = ty_stops,
     wo_control = (\<lambda>k u. control_of (whole (ty_context k u))), wo_age = (\<lambda>u. u)\<rparr>"

definition two_of :: "two_threads \<Rightarrow> nat \<Rightarrow> nat" where
  "two_of k h = (case map_of (ty_handles k) h of Some (u, _) \<Rightarrow> u | None \<Rightarrow> 0)"

definition two_next :: "two_threads \<Rightarrow> nat \<Rightarrow> 32 word \<Rightarrow> nat option \<times> two_threads" where
  "two_next k h a =
     (if two_of k h < 2
      then (let n = Suc (sum_list (map fst (ty_handles k))) in (Some n, k\<lparr>ty_handles := (n, two_of k h + 1, a) # ty_handles k\<rparr>))
      else (None, k))"

definition two_suspend :: "two_threads \<Rightarrow> nat \<Rightarrow> nat \<times> two_threads" where
  "two_suspend k h = (if ty_stops k (two_of k h) < 127
     then (ty_stops k (two_of k h), k\<lparr>ty_stops := (ty_stops k)(two_of k h := ty_stops k (two_of k h) + 1)\<rparr>) else (DWORD_MAX, k))"

definition two_get :: "two_threads \<Rightarrow> nat \<Rightarrow> byte list \<Rightarrow> byte list option \<times> two_threads" where
  "two_get k h bs = (Some (put_at 0x30 (take 4 (drop 0x30 bs)) (whole (ty_context k (two_of k h)))), k)"

definition two_api :: "two_threads threadapi" where
  "two_api = \<lparr>ta_my_id = 1, ta_next = two_next, ta_thread_id = two_of, ta_suspend = two_suspend,
     ta_resume = (\<lambda>k h. (0, k\<lparr>ty_stops := (ty_stops k)(two_of k h := ty_stops k (two_of k h) - 1)\<rparr>)),
     ta_get_context = two_get, ta_set_context = (\<lambda>k h bs. (True, k\<lparr>ty_context := (ty_context k)(two_of k h := bs)\<rparr>)),
     ta_close = (\<lambda>k h. (True, k\<lparr>ty_handles := filter (\<lambda>e. fst e \<noteq> h) (ty_handles k)\<rparr>))\<rparr>"

lemma whole_length [simp]: "length (whole bs) = 1232" "length bs = 1232 \<Longrightarrow> whole bs = bs"
  by (simp_all add: whole_def)

lemma two_fresh: "map_of (hs :: (nat \<times> nat \<times> 32 word) list) (Suc (sum_list (map fst hs))) = None"
proof -
  have "h \<le> sum_list (map fst hs)" if "h \<in> fst ` set hs" for h using that member_le_sum_list [of h "map fst hs"] by simp
  then have "Suc (sum_list (map fst hs)) \<notin> fst ` set hs" by fastforce
  then show ?thesis by (simp add: map_of_eq_None_iff)
qed

lemma two_allows: "allows two_observed k h a t \<Longrightarrow> two_of k h = t"
  by (auto simp: allows_def two_observed_def two_of_def)

lemma map_of_without: "map_of (filter (\<lambda>e. fst e \<noteq> h) hs) = (map_of hs)(h := None)"
  by (induction hs) auto

lemma two_put: "is_control_context bs \<Longrightarrow> length cs = 1232 \<Longrightarrow>
    is_control_context (put_at 0x30 (take 4 (drop 0x30 bs)) cs) \<and> control_of (put_at 0x30 (take 4 (drop 0x30 bs)) cs) = control_of cs"
  by (simp add: is_control_context_def control_of_def get_put_other get_put_same) (simp add: get_at_def)

lemma two_ok: "threadapi_ok two_observed two_api"
proof -
  have "next_ok two_observed two_api"
    by (auto simp: next_ok_def two_api_def two_next_def two_observed_def kept_stopped_def two_fresh two_of_def Let_def split: if_splits)
  moreover have "suspend_ok two_observed two_api"
    unfolding suspend_ok_def
  proof (intro allI impI, elim conjE)
    fix k h t n k' assume "allows two_observed k h THREAD_SUSPEND_RESUME t" and run: "ta_suspend two_api k h = (n, k')"
    then have "two_of k h = t" by (simp add: two_allows)
    with run show "wo_handles two_observed k' = wo_handles two_observed k \<and> kept_stopped two_observed k k'
       \<and> wo_stops two_observed k' = (if n = DWORD_MAX then wo_stops two_observed k
          else (wo_stops two_observed k)(t := wo_stops two_observed k t + 1))"
      by (auto simp: two_api_def two_suspend_def two_observed_def kept_stopped_def DWORD_MAX_def split: if_splits)
  qed
  moreover have "resume_ok two_observed two_api"
    using two_allows by (fastforce simp: resume_ok_def two_api_def two_observed_def kept_stopped_def)
  moreover have "close_ok two_observed two_api"
    by (auto simp: close_ok_def two_api_def two_observed_def kept_stopped_def map_of_without)
  moreover have "context_ok_api two_observed two_api"
    unfolding context_ok_api_def
  proof (intro conjI allI impI; elim conjE)
    fix k h t bs r k' assume al: "allows two_observed k h THREAD_GET_CONTEXT t" and bs: "is_control_context bs"
      and run: "ta_get_context two_api k h bs = (r, k')"
    then have r: "r = Some (put_at 0x30 (take 4 (drop 0x30 bs)) (whole (ty_context k t)))" "k' = k"
      using two_allows [OF al] by (auto simp: two_api_def two_get_def)
    then show "others_ran two_observed k k'" by (simp add: others_ran_def kept_stopped_def)
    fix bs' assume "r = Some bs'"
    then show "is_control_context bs'" "control_of bs' = wo_control two_observed k t"
      using r two_put [OF bs] by (auto simp: two_observed_def)
  next
    fix k h t bs ok k' assume al: "allows two_observed k h THREAD_SET_CONTEXT t" and bs: "is_control_context bs"
      and run: "ta_set_context two_api k h bs = (ok, k')"
    then have "ok" "k' = k\<lparr>ty_context := (ty_context k)(t := bs)\<rparr>" using two_allows [OF al] by (simp_all add: two_api_def)
    then show "wo_handles two_observed k' = wo_handles two_observed k" "wo_stops two_observed k' = wo_stops two_observed k"
      "wo_control two_observed k' t = (if ok then control_of bs else wo_control two_observed k t)"
      "\<And>u. u \<noteq> t \<Longrightarrow> wo_control two_observed k' u = wo_control two_observed k u"
      using bs by (simp_all add: two_observed_def is_control_context_def)
  qed
  moreover have "\<forall>k h t. allows two_observed k h THREAD_QUERY_INFORMATION t \<longrightarrow> ta_thread_id two_api k h = t"
    using two_allows by (simp add: two_api_def)
  ultimately show ?thesis by (simp add: threadapi_ok_def)
qed

lemma two_answered: "answered two_api f t k"
  by (simp add: answered_def two_api_def two_get_def split: option.split)

definition two_start :: two_threads where
  "two_start = \<lparr>ty_handles = [], ty_stops = (\<lambda>u. 0), ty_context = (\<lambda>u. put_at 0xF8 (le_bytes 8 100) (replicate 1232 0))\<rparr>"

lemma two_start_sel: "ty_handles two_start = []" "ty_stops two_start = (\<lambda>u. 0)"
  by (simp_all add: two_start_def)

lemma two_iter: "suspend_others_iter two_api 3 0 two_start =
  ([\<lparr>wt_handle = 1, wt_suspended = False\<rparr>, \<lparr>wt_handle = 2, wt_suspended = True\<rparr>],
   two_start\<lparr>ty_handles := [(2, 2, THREAD_ACCESS), (1, 1, THREAD_ACCESS)], ty_stops := (\<lambda>u. 0)(2 := 1)\<rparr>)"
  unfolding numeral_3_eq_3
  by (simp add: two_api_def two_next_def two_of_def two_suspend_def two_start_sel DWORD_MAX_def) (simp flip: numeral_2_eq_2)

theorem win_threads_resume_relocated_witness:
  "(let relocs = [\<lparr>rl_from = 100, rl_to = 200\<rparr>]; (ts, k) = win_suspend_and_reloc two_api 3 rev relocs two_start
    in wo_control two_observed k 2 = with_ip (reloc_ip relocs) (wo_control two_observed two_start 2)
       \<and> c_rip (wo_control two_observed k 2) = 200
       \<and> wo_stops two_observed (resume_all two_api ts k) = (\<lambda>u. 0))"
proof -
  let ?relocs = "[\<lparr>rl_from = 100, rl_to = 200\<rparr>]"
  obtain ts k where run: "win_suspend_and_reloc two_api 3 rev ?relocs two_start = (ts, k)" by force
  then have ts: "ts = [\<lparr>wt_handle = 2, wt_suspended = True\<rparr>, \<lparr>wt_handle = 1, wt_suspended = False\<rparr>]"
    by (simp add: win_suspend_and_reloc_def minmax_ip_def two_iter)
  have "others_ran two_observed k k" by (simp add: others_ran_def kept_stopped_def)
  note t = win_threads_resume_relocated [OF two_ok _ _ _ two_iter run this, of k False]
  have c: "c_rip (wo_control two_observed two_start 2) = 100"
    by (simp add: two_observed_def two_start_def control_of_def get_put_same from_le_bytes)
  have "wo_control two_observed k 2 = with_ip (reloc_ip ?relocs) (wo_control two_observed two_start 2)"
    using conjunct1 [OF t, rule_format, of 0] by (simp add: ts two_answered usize_defs Let_def thread_of_def two_observed_def two_start_def)
  moreover have "wo_stops two_observed (resume_all two_api ts k) = (\<lambda>u. 0)"
    using t by (auto simp: usize_defs two_observed_def two_start_def)
  ultimately show ?thesis
    using run c by (simp add: with_ip_def moved_def reloc_ip_def minmax_ip_def)
qed

end
