(* ===== verification/Signal_Handler.thy ===== *)
theory Signal_Handler
  imports Xsave_Layout "HOL-Library.Signed_Division"
begin

text \<open>
  The signal that stops threads on Linux (\<open>installer/arch/os/linux.rs\<close>, \<open>linux/ffi.rs\<close>): which signal it
  is, the \<open>siginfo_t\<close> that carries a pointer to the stopped thread, the one-time installation of the
  handler by each copy of the library in the process, and the forwarding of signals that are not
  the library's. What the handler does while threads are suspended is in \<open>Linux_Threads\<close>.
\<close>

unbundle bit_operations_syntax

section \<open>The signal and its payload\<close>

text \<open>\<open>i32::midpoint\<close> rounds towards zero. \<open>SIG\<close> is the memoised number, or \<open>-1\<close>.\<close>

definition midpoint :: "int \<Rightarrow> int \<Rightarrow> int" where
  "midpoint a b = (a + b) sdiv 2"

definition my_signal :: "int \<Rightarrow> int \<Rightarrow> int \<Rightarrow> int \<times> int" where
  "my_signal rtmin rtmax SIG =
     (if SIG < 0 then (let sig = ((\<lambda>sig. midpoint sig rtmax) ^^ 3) rtmin in (sig, sig)) else (SIG, SIG))"

text \<open>A union has the size and alignment of its largest members, all at offset \<open>0\<close>.\<close>

definition union_size :: "struct \<Rightarrow> nat" where
  "union_size u = align_up (fold (\<lambda>(f, s, a). max s) u 0) (align_of u)"

definition SI_MAX_SIZE :: nat where "SI_MAX_SIZE = 128"
definition SI_PAD_SIZE :: nat where "SI_PAD_SIZE = SI_MAX_SIZE div 4 - 4"

definition si_fields_kill :: struct where
  "si_fields_kill = [(''si_pid'', 4, 4), (''si_uid'', 4, 4)]"
definition si_fields_timer :: struct where
  "si_fields_timer = [(''si_tid'', 4, 4), (''si_overrun'', 4, 4), (''si_sigval'', 8, 8)]"
definition si_fields_rt :: struct where
  "si_fields_rt = [(''si_pid'', 4, 4), (''si_uid'', 4, 4), (''si_sigval'', 8, 8)]"
definition si_fields_sigchld :: struct where
  "si_fields_sigchld = [(''si_pid'', 4, 4), (''si_uid'', 4, 4), (''si_status'', 4, 4), (''si_utime'', 8, 8), (''si_stime'', 8, 8)]"
definition si_addr_bnd :: struct where
  "si_addr_bnd = [(''_lower'', 8, 8), (''_upper'', 8, 8)]"
definition si_sigfault_bounds :: struct where
  "si_sigfault_bounds = [(''_addr_bnd'', size_of si_addr_bnd, align_of si_addr_bnd), (''_pkey'', 4, 4)]"
definition si_fields_sigfault :: struct where
  "si_fields_sigfault = [(''si_addr'', 8, 8), (''si_addr_lsb'', 2, 2),
     (''_bounds'', union_size si_sigfault_bounds, align_of si_sigfault_bounds)]"
definition si_fields_sigpoll :: struct where
  "si_fields_sigpoll = [(''si_band'', 8, 8), (''si_fd'', 4, 4)]"
definition si_fields_sigsys :: struct where
  "si_fields_sigsys = [(''_call_addr'', 8, 8), (''_syscall'', 4, 4), (''_arch'', 4, 4)]"

definition si_fields :: struct where
  "si_fields = [(''_pad'', SI_PAD_SIZE * 4, 4), (''_kill'', size_of si_fields_kill, align_of si_fields_kill),
     (''_timer'', size_of si_fields_timer, align_of si_fields_timer), (''_rt'', size_of si_fields_rt, align_of si_fields_rt),
     (''_sigchld'', size_of si_fields_sigchld, align_of si_fields_sigchld), (''_sigfault'', size_of si_fields_sigfault, align_of si_fields_sigfault),
     (''_sigpoll'', size_of si_fields_sigpoll, align_of si_fields_sigpoll), (''_sigsys'', size_of si_fields_sigsys, align_of si_fields_sigsys)]"

definition siginfo_t :: struct where
  "siginfo_t = [(''si_signo'', 4, 4), (''si_errno'', 4, 4), (''si_code'', 4, 4), (''__pad0'', 4, 4),
     (''_sifields'', union_size si_fields, align_of si_fields)]"

text \<open>\<open>SI_QUEUE\<close> of \<open>libc\<close>.\<close>

definition SI_QUEUE :: int where "SI_QUEUE = -1"

text \<open>The bytes \<open>rt_tgsigqueueinfo\<close> hands to the kernel, and what the handler reads from those it is given.\<close>

definition rt_siginfo :: "int \<Rightarrow> int \<Rightarrow> int \<Rightarrow> nat \<Rightarrow> byte list" where
  "rt_siginfo sig pid uid sival_ptr =
     (let rt = offset_of siginfo_t ''_sifields'';
          siginfo = replicate (size_of siginfo_t) 0;
          siginfo = put_at (offset_of siginfo_t ''si_signo'') (le_bytes 4 sig) siginfo;
          siginfo = put_at (offset_of siginfo_t ''si_code'') (le_bytes 4 SI_QUEUE) siginfo;
          siginfo = put_at (rt + offset_of si_fields_rt ''si_pid'') (le_bytes 4 pid) siginfo;
          siginfo = put_at (rt + offset_of si_fields_rt ''si_uid'') (le_bytes 4 uid) siginfo
      in put_at (rt + offset_of si_fields_rt ''si_sigval'') (le_bytes 8 (int sival_ptr)) siginfo)"

definition payload_ptr :: "byte list \<Rightarrow> nat" where
  "payload_ptr info = get_at (offset_of siginfo_t ''_sifields'' + offset_of si_fields_rt ''si_sigval'') 8 info"

lemma si_fields_size [simp]: "union_size si_fields = 112" "align_of si_fields = 8"
  by (simp_all add: union_size_def size_of_def align_of_def align_up_def SI_PAD_SIZE_def SI_MAX_SIZE_def si_fields_def si_fields_kill_def
      si_fields_timer_def si_fields_rt_def si_fields_sigchld_def si_addr_bnd_def si_sigfault_bounds_def si_fields_sigfault_def
      si_fields_sigpoll_def si_fields_sigsys_def)

lemma siginfo_size [simp]: "size_of siginfo_t = 128" "align_of siginfo_t = 8"
  unfolding size_of_def [of siginfo_t] align_of_def [of siginfo_t] unfolding siginfo_t_def by (simp_all add: align_up_def)

lemma siginfo_offsets [simp]:
  "offset_of siginfo_t ''si_signo'' = 0" "offset_of siginfo_t ''si_code'' = 8" "offset_of siginfo_t ''_sifields'' = 16"
  "offset_of si_fields_rt ''si_pid'' = 0" "offset_of si_fields_rt ''si_uid'' = 4" "offset_of si_fields_rt ''si_sigval'' = 8"
  unfolding siginfo_t_def si_fields_rt_def by (simp_all add: offset_of_def align_up_def)

text \<open>The signal is a real-time signal, and the same whenever it is asked for.\<close>

lemma midpoint_between: "0 \<le> a \<Longrightarrow> a \<le> b \<Longrightarrow> a \<le> midpoint a b \<and> midpoint a b \<le> b"
  by (auto simp: midpoint_def signed_divide_int_def sgn_if)

lemma my_signal_range:
  assumes "0 \<le> rtmin" and "rtmin \<le> rtmax" and "my_signal rtmin rtmax (-1) = (sig, SIG)"
  shows "rtmin \<le> sig \<and> sig \<le> rtmax \<and> my_signal rtmin rtmax SIG = (sig, SIG)"
proof -
  let ?m = "\<lambda>sig. midpoint sig rtmax"
  have 1: "rtmin \<le> ?m rtmin" "?m rtmin \<le> rtmax" using midpoint_between assms(1,2) by blast+
  have 2: "?m rtmin \<le> ?m (?m rtmin)" "?m (?m rtmin) \<le> rtmax" using midpoint_between [of "?m rtmin" rtmax] assms(1) 1 by linarith+
  have 3: "?m (?m rtmin) \<le> ?m (?m (?m rtmin))" "?m (?m (?m rtmin)) \<le> rtmax"
    using midpoint_between [of "?m (?m rtmin)" rtmax] assms(1) 1 2 by linarith+
  have "sig = ?m (?m (?m rtmin))" "SIG = sig" using assms(3) by (auto simp: my_signal_def numeral_3_eq_3 Let_def)
  then show ?thesis using assms(1) 1 2 3 by (simp add: my_signal_def)
qed

lemma my_signal_linux: "my_signal 34 64 (-1) = (60, 60)"
  by (simp add: my_signal_def midpoint_def numeral_3_eq_3)

section \<open>The handler\<close>

text \<open>
  A value of \<open>sa_sigaction\<close>: the two constants, the handler of a copy of the library, or another
  function of the process.
\<close>

datatype fn_addr = SIG_DFL | SIG_IGN | Copy nat | Function nat

record sigaction =
  sa_sigaction :: fn_addr
  sa_flags :: "32 word"

definition SA_SIGINFO :: "32 word" where "SA_SIGINFO = 4"
definition SA_RESTART :: "32 word" where "SA_RESTART = 0x10000000"

definition our_action :: "nat \<Rightarrow> sigaction" where
  "our_action c = \<lparr>sa_sigaction = Copy c, sa_flags = SA_SIGINFO OR SA_RESTART\<rparr>"

text \<open>
  What a thread does with the signal: it runs a function, with the three arguments of
  \<open>sa_sigaction\<close> or only the number; it is in \<open>suspend_sigaction\<close> of a copy, the first argument telling
  whether it was given the \<open>siginfo_t\<close>; it is done; or the process ends.
\<close>

datatype frame = Called bool fn_addr | Suspended bool nat | Ignored | Aborted

text \<open>The choice by the old disposition, as \<open>sa_sigaction\<close> makes it, and the kernel for the current one.\<close>

definition dispatch :: "sigaction \<Rightarrow> frame" where
  "dispatch old =
     (case sa_sigaction old of
        SIG_DFL \<Rightarrow> Aborted
      | SIG_IGN \<Rightarrow> Ignored
      | fn \<Rightarrow> Called (sa_flags old AND SA_SIGINFO \<noteq> 0) fn)"

section \<open>Threads and signals\<close>

text \<open>
  \<open>HANDLER_RES\<close> of a copy. A thread is outside \<open>my_sigaction\<close>, waits in \<open>get_or_init\<close>, or is in its
  closure: before the system call, before \<open>OLD.get_or_init\<close> with \<open>old\<close>, and after it.
\<close>

datatype once = Uninit | Init_by nat | Init "nat option"
datatype sig_pc = Outside | Asking nat | Initing nat | Replaced nat sigaction | Recorded nat

record sig_state =
  k_action :: sigaction
  c_res :: "nat \<Rightarrow> once"
  c_old :: "nat \<Rightarrow> sigaction option"
  c_suspending :: "nat \<Rightarrow> bool"
  t_pc :: "nat \<Rightarrow> sig_pc"
  t_frame :: "nat \<Rightarrow> frame option"

definition sig_goto :: "nat \<Rightarrow> sig_pc \<Rightarrow> sig_state \<Rightarrow> sig_state" where
  "sig_goto t pc s = s\<lparr>t_pc := (t_pc s)(t := pc)\<rparr>"

definition set_frame :: "nat \<Rightarrow> frame option \<Rightarrow> sig_state \<Rightarrow> sig_state" where
  "set_frame t f s = s\<lparr>t_frame := (t_frame s)(t := f)\<rparr>"

text \<open>\<open>HANDLER_RES.get_or_init\<close>: the first thread runs the closure, the others wait for its result.\<close>

definition handler_ask :: "nat \<Rightarrow> nat \<Rightarrow> sig_state \<Rightarrow> sig_state option" where
  "handler_ask t c s =
     (case c_res s c of
        Uninit \<Rightarrow> Some (sig_goto t (Initing c) (s\<lparr>c_res := (c_res s)(c := Init_by t)\<rparr>))
      | Init_by _ \<Rightarrow> None
      | Init _ \<Rightarrow> Some (sig_goto t Outside s))"

text \<open>The system call, with its error.\<close>

definition handler_replace :: "nat \<Rightarrow> nat \<Rightarrow> nat option \<Rightarrow> sig_state \<Rightarrow> sig_state" where
  "handler_replace t c errno s =
     (case errno of
        Some e \<Rightarrow> sig_goto t Outside (s\<lparr>c_res := (c_res s)(c := Init (Some e))\<rparr>)
      | None \<Rightarrow> sig_goto t (Replaced c (k_action s)) (s\<lparr>k_action := our_action c\<rparr>))"

definition handler_record :: "nat \<Rightarrow> nat \<Rightarrow> sigaction \<Rightarrow> sig_state \<Rightarrow> sig_state" where
  "handler_record t c old s = sig_goto t (Recorded c) (s\<lparr>c_old := (c_old s)(c := Some (case c_old s c of Some a \<Rightarrow> a | None \<Rightarrow> old))\<rparr>)"

definition handler_finish :: "nat \<Rightarrow> nat \<Rightarrow> sig_state \<Rightarrow> sig_state" where
  "handler_finish t c s = sig_goto t Outside (s\<lparr>c_res := (c_res s)(c := Init None)\<rparr>)"

text \<open>\<open>sa_sigaction\<close> of copy \<open>c\<close>; \<open>None\<close> while it waits for \<open>OLD\<close>.\<close>

definition sa_run :: "sig_state \<Rightarrow> bool \<Rightarrow> nat \<Rightarrow> frame option" where
  "sa_run s info c =
     (if c_suspending s c then Some (Suspended info c)
      else case c_old s c of None \<Rightarrow> None | Some old \<Rightarrow> Some (dispatch old))"

text \<open>
  The signal is blocked in a thread that handles it, and a thread that handles it does nothing
  else. Only the thread that holds the process context suspends threads, so one copy at a time.
\<close>

inductive sig_step :: "sig_state \<Rightarrow> sig_state \<Rightarrow> bool" where
  begin_install: "t_frame s t = None \<Longrightarrow> t_pc s t = Outside \<Longrightarrow> sig_step s (sig_goto t (Asking c) s)"
| ask: "t_frame s t = None \<Longrightarrow> t_pc s t = Asking c \<Longrightarrow> handler_ask t c s = Some s' \<Longrightarrow> sig_step s s'"
| replace_action: "t_frame s t = None \<Longrightarrow> t_pc s t = Initing c \<Longrightarrow> sig_step s (handler_replace t c errno s)"
| record_old: "t_frame s t = None \<Longrightarrow> t_pc s t = Replaced c old \<Longrightarrow> sig_step s (handler_record t c old s)"
| finish_install: "t_frame s t = None \<Longrightarrow> t_pc s t = Recorded c \<Longrightarrow> sig_step s (handler_finish t c s)"
| begin_suspend: "c_res s c = Init None \<Longrightarrow> \<forall>d. \<not> c_suspending s d \<Longrightarrow> sig_step s (s\<lparr>c_suspending := (c_suspending s)(c := True)\<rparr>)"
| end_suspend: "c_suspending s c \<Longrightarrow> sig_step s (s\<lparr>c_suspending := (c_suspending s)(c := False)\<rparr>)"
| deliver: "t_frame s t = None \<Longrightarrow> sig_step s (set_frame t (Some (dispatch (k_action s))) s)"
| run: "t_frame s t = Some (Called info (Copy c)) \<Longrightarrow> sa_run s info c = Some f \<Longrightarrow> sig_step s (set_frame t (Some f) s)"
| return_fn: "t_frame s t = Some (Called info (Function f)) \<Longrightarrow> sig_step s (set_frame t None s)"
| return_suspended: "t_frame s t = Some (Suspended info c) \<Longrightarrow> sig_step s (set_frame t None s)"
| return_ignored: "t_frame s t = Some Ignored \<Longrightarrow> sig_step s (set_frame t None s)"

definition sig_start :: "sigaction \<Rightarrow> sig_state" where
  "sig_start own = \<lparr>k_action = own, c_res = (\<lambda>_. Uninit), c_old = (\<lambda>_. None), c_suspending = (\<lambda>_. False),
     t_pc = (\<lambda>_. Outside), t_frame = (\<lambda>_. None)\<rparr>"

text \<open>What a signal that arrives now comes to, when nothing else happens; \<open>n\<close> bounds the handlers it runs.\<close>

fun sig_outcome :: "nat \<Rightarrow> sig_state \<Rightarrow> frame \<Rightarrow> frame option" where
  "sig_outcome n s (Called info (Copy c)) =
     (case n of 0 \<Rightarrow> None | Suc n \<Rightarrow> (case sa_run s info c of None \<Rightarrow> None | Some f \<Rightarrow> sig_outcome n s f))"
| "sig_outcome n s f = Some f"

section \<open>The invariant\<close>

text \<open>The thread that runs the closure of a copy, and the disposition the copy replaced.\<close>

fun initing :: "sig_pc \<Rightarrow> nat option" where
  "initing (Initing c) = Some c"
| "initing (Replaced c old) = Some c"
| "initing (Recorded c) = Some c"
| "initing _ = None"

definition replaced :: "sig_state \<Rightarrow> nat \<Rightarrow> sigaction \<Rightarrow> bool" where
  "replaced s c old \<longleftrightarrow> c_old s c = Some old \<or> (c_old s c = None \<and> (\<exists>t. t_pc s t = Replaced c old))"

text \<open>The copies whose handlers a signal runs through, the last installed first.\<close>

fun handlers :: "sig_state \<Rightarrow> sigaction \<Rightarrow> sigaction \<Rightarrow> nat list \<Rightarrow> bool" where
  "handlers s own a [] \<longleftrightarrow> a = own"
| "handlers s own a (c # cs) \<longleftrightarrow> a = our_action c \<and> (\<exists>old. replaced s c old \<and> handlers s own old cs)"

definition installed :: "sig_state \<Rightarrow> nat \<Rightarrow> bool" where
  "installed s c \<longleftrightarrow> (case c_res s c of Uninit \<Rightarrow> False | Init_by t \<Rightarrow> t_pc s t \<noteq> Initing c | Init r \<Rightarrow> r = None)"

text \<open>The functions a thread with the signal may be in, when \<open>own\<close> is the disposition of the process itself.\<close>

definition frame_ok :: "sigaction \<Rightarrow> sig_state \<Rightarrow> frame \<Rightarrow> bool" where
  "frame_ok own s f \<longleftrightarrow> f = dispatch own \<or> (\<exists>c. installed s c \<and> (f = Called True (Copy c) \<or> f = Suspended True c))"

definition old_known :: "sig_state \<Rightarrow> nat \<Rightarrow> bool" where
  "old_known s c \<longleftrightarrow> c_res s c = Init None \<or> (\<exists>t. t_pc s t = Recorded c)"

definition sig_inv :: "sigaction \<Rightarrow> sig_state \<Rightarrow> bool" where
  "sig_inv own s \<longleftrightarrow> (\<exists>cs. distinct cs \<and> set cs = {c. installed s c} \<and> handlers s own (k_action s) cs)
     \<and> (\<forall>t c. initing (t_pc s t) = Some c \<longleftrightarrow> c_res s c = Init_by t)
     \<and> (\<forall>c. c_old s c \<noteq> None \<longleftrightarrow> old_known s c)
     \<and> (\<forall>c. c_suspending s c \<longrightarrow> c_res s c = Init None)
     \<and> (\<forall>c d. c_suspending s c \<and> c_suspending s d \<longrightarrow> c = d)
     \<and> (\<forall>t f. t_frame s t = Some f \<longrightarrow> frame_ok own s f)"

lemma handlers_cong:
  assumes "handlers s own a cs" and "\<And>c old. c \<in> set cs \<Longrightarrow> replaced s c old \<Longrightarrow> replaced s' c old"
  shows "handlers s' own a cs"
  using assms
proof (induction cs arbitrary: a)
  case (Cons c cs)
  then obtain old where "a = our_action c" "replaced s c old" "handlers s own old cs" by auto
  with Cons show ?case by auto
qed simp

text \<open>A step that changes neither the disposition nor who has what from it.\<close>

lemma chain_kept:
  assumes "\<exists>cs. distinct cs \<and> set cs = {c. installed s c} \<and> handlers s own (k_action s) cs"
    and "k_action s' = k_action s" and "\<And>c. installed s' c \<longleftrightarrow> installed s c"
    and "\<And>c old. replaced s c old \<Longrightarrow> replaced s' c old"
  shows "\<exists>cs. distinct cs \<and> set cs = {c. installed s' c} \<and> handlers s' own (k_action s') cs"
proof -
  obtain cs where cs: "distinct cs" "set cs = {c. installed s c}" "handlers s own (k_action s) cs" using assms(1) by blast
  then have "handlers s' own (k_action s') cs" using handlers_cong [OF cs(3), of s'] assms(2,4) by simp
  with cs assms(3) show ?thesis by auto
qed

lemma dispatch_ours [simp]: "dispatch (our_action c) = Called True (Copy c)"
  by (simp add: dispatch_def our_action_def SA_SIGINFO_def SA_RESTART_def)

lemma dispatch_handlers: "handlers s own a cs \<Longrightarrow> set cs \<subseteq> {c. installed s c} \<Longrightarrow> frame_ok own s (dispatch a)"
  by (cases cs) (auto simp: frame_ok_def)

lemma handlers_replaced: "handlers s own a cs \<Longrightarrow> c \<in> set cs
    \<Longrightarrow> \<exists>old cs'. replaced s c old \<and> handlers s own old cs' \<and> set cs' \<subseteq> set cs"
proof (induction cs arbitrary: a)
  case (Cons d cs)
  then obtain old where old: "replaced s d old" "handlers s own old cs" by auto
  show ?case
  proof (cases "d = c")
    case False
    then obtain old' cs' where "replaced s c old'" "handlers s own old' cs'" "set cs' \<subseteq> set cs" using Cons.IH [OF old(2)] Cons.prems(2) by auto
    then show ?thesis by auto
  qed (use old in auto)
qed simp

lemma sig_start_inv: "sig_inv own (sig_start own)"
  by (auto simp: sig_inv_def sig_start_def installed_def old_known_def intro!: exI [of _ "[]"])

lemma sig_invD:
  assumes "sig_inv own s"
  shows chain: "\<exists>cs. distinct cs \<and> set cs = {c. installed s c} \<and> handlers s own (k_action s) cs"
    and initing_iff: "initing (t_pc s t) = Some c \<longleftrightarrow> c_res s c = Init_by t"
    and known_iff: "c_old s c \<noteq> None \<longleftrightarrow> old_known s c"
    and suspending_init: "c_suspending s c \<Longrightarrow> c_res s c = Init None"
    and suspending_one: "c_suspending s c \<Longrightarrow> c_suspending s d \<Longrightarrow> c = d"
    and frames_ok: "t_frame s t = Some f \<Longrightarrow> frame_ok own s f"
  using assms unfolding sig_inv_def by blast+

text \<open>For steps that neither suspend threads nor deliver or handle a signal.\<close>

lemma sig_inv_other:
  assumes "sig_inv own s"
    and "\<exists>cs. distinct cs \<and> set cs = {c. installed s' c} \<and> handlers s' own (k_action s') cs"
    and "\<And>t c. initing (t_pc s' t) = Some c \<longleftrightarrow> c_res s' c = Init_by t"
    and "\<And>c. c_old s' c \<noteq> None \<longleftrightarrow> old_known s' c"
    and "c_suspending s' = c_suspending s" and "t_frame s' = t_frame s"
    and "\<And>c. c_res s c = Init None \<Longrightarrow> c_res s' c = Init None" and "\<And>c. installed s c \<Longrightarrow> installed s' c"
  shows "sig_inv own s'"
  unfolding sig_inv_def
proof (intro conjI allI impI)
  show "initing (t_pc s' t) = Some c \<longleftrightarrow> c_res s' c = Init_by t" for t c by (rule assms(3))
  show "c_old s' c \<noteq> None \<longleftrightarrow> old_known s' c" for c by (rule assms(4))
  show "c_suspending s' c \<Longrightarrow> c_res s' c = Init None" for c
    using suspending_init [OF assms(1), of c] assms(5,7) by simp
  show "c_suspending s' c \<and> c_suspending s' d \<Longrightarrow> c = d" for c d
    using suspending_one [OF assms(1), of c d] assms(5) by simp
  show "t_frame s' t = Some f \<Longrightarrow> frame_ok own s' f" for t f
    using frames_ok [OF assms(1), of t f] assms(6,8) by (auto simp: frame_ok_def)
qed (rule assms(2))

lemma recorded_res: "sig_inv own s \<Longrightarrow> t_pc s t = Recorded c \<Longrightarrow> c_res s c = Init_by t"
  using initing_iff [of own s t c] by simp

lemma replaced_res:
  assumes "sig_inv own s" and "t_pc s t = Replaced c old"
  shows "c_res s c = Init_by t \<and> c_old s c = None"
proof -
  have r: "c_res s c = Init_by t" using initing_iff [OF assms(1), of t c] assms(2) by simp
  have "\<not> old_known s c" using r recorded_res [OF assms(1)] assms(2) by (force simp: old_known_def)
  with r known_iff [OF assms(1), of c] show ?thesis by blast
qed

lemma old_handlers:
  assumes "sig_inv own s" and "c_old s c = Some old"
  shows "\<exists>cs. handlers s own old cs \<and> set cs \<subseteq> {c. installed s c}"
proof -
  have "old_known s c" using known_iff [OF assms(1), of c] assms(2) by simp
  then have "installed s c" using recorded_res [OF assms(1)] by (force simp: installed_def old_known_def)
  moreover obtain cs where "set cs = {c. installed s c}" "handlers s own (k_action s) cs" using chain [OF assms(1)] by blast
  ultimately obtain old' cs' where "replaced s c old'" "handlers s own old' cs'" "set cs' \<subseteq> {c. installed s c}"
    using handlers_replaced by (metis mem_Collect_eq)
  then show ?thesis using assms(2) by (auto simp: replaced_def)
qed

lemma installed_replaced: "sig_inv own s \<Longrightarrow> installed s c \<Longrightarrow> c_old s c \<noteq> None \<or> (\<exists>u old. t_pc s u = Replaced c old)"
proof -
  assume "sig_inv own s" and c: "installed s c"
  then obtain cs where "set cs = {c. installed s c}" "handlers s own (k_action s) cs" using chain by blast
  with c obtain old where "replaced s c old" using handlers_replaced by (metis mem_Collect_eq)
  then show ?thesis by (auto simp: replaced_def)
qed

lemmas sig_defs = sig_goto_def set_frame_def installed_def old_known_def replaced_def

lemma recorded_goto:
  assumes "t_pc s t \<noteq> Recorded d" and "pc \<noteq> Recorded d" and "t_pc s' = (t_pc s)(t := pc)"
  shows "(\<exists>u. t_pc s' u = Recorded d) \<longleftrightarrow> (\<exists>u. t_pc s u = Recorded d)"
  using assms by (metis fun_upd_other fun_upd_same)

lemma replaced_goto:
  assumes "replaced s d old" and "t_pc s t \<noteq> Replaced d old" and "c_old s' d = c_old s d" and "t_pc s' = (t_pc s)(t := pc)"
  shows "replaced s' d old"
  using assms unfolding replaced_def by (metis fun_upd_other)

text \<open>The process' own disposition is not a copy's.\<close>

definition foreign :: "sigaction \<Rightarrow> bool" where
  "foreign own \<longleftrightarrow> (\<forall>c. sa_sigaction own \<noteq> Copy c)"

lemma dispatch_foreign: "foreign own \<Longrightarrow> dispatch own \<noteq> Called info (Copy c)"
  by (auto simp: foreign_def dispatch_def split: fn_addr.split)

text \<open>Moves of a thread that change neither \<open>HANDLER_RES\<close>, \<open>OLD\<close> nor the disposition.\<close>

lemma goto_copy_inv:
  assumes "sig_inv own s" and "initing (t_pc s t) = None" and "initing pc = None"
  shows "sig_inv own (sig_goto t pc s)"
proof -
  note inv = assms(1)
  have init: "c_res s c \<noteq> Init_by t" for c using initing_iff [OF inv, of t c] assms(2) by auto
  have pc: "t_pc (sig_goto t pc s) u = (if u = t then pc else t_pc s u)" for u by (simp add: sig_goto_def)
  have rec: "(\<exists>u. t_pc (sig_goto t pc s) u = Recorded c) \<longleftrightarrow> (\<exists>u. t_pc s u = Recorded c)" for c
    using assms(2,3) by (metis pc initing.simps(3) option.distinct(1))
  have rep: "replaced s c old \<Longrightarrow> replaced (sig_goto t pc s) c old" for c old
    using assms(2) by (auto simp: sig_defs) (metis initing.simps(2) option.distinct(1))
  have I: "installed (sig_goto t pc s) c \<longleftrightarrow> installed s c" for c
    using init by (auto simp: sig_defs split: once.split)
  from chain_kept [OF chain [OF inv] _ I rep]
 have A: "\<exists>cs. distinct cs \<and> set cs = {c. installed (sig_goto t pc s) c} \<and> handlers (sig_goto t pc s) own (k_action (sig_goto t pc s)) cs"
    by (simp add: sig_goto_def)
  moreover have B: "initing (t_pc (sig_goto t pc s) u) = Some c \<longleftrightarrow> c_res (sig_goto t pc s) c = Init_by u" for u c
    using init initing_iff [OF inv, of u c] assms(3) by (auto simp: sig_goto_def)
  moreover have C: "c_old (sig_goto t pc s) c \<noteq> None \<longleftrightarrow> old_known (sig_goto t pc s) c" for c
    using known_iff [OF inv, of c] rec [of c] by (simp add: old_known_def sig_goto_def)
  show ?thesis by (rule sig_inv_other [OF inv A B C _ _ _ iffD2 [OF I]]) (use init in \<open>auto simp: sig_goto_def\<close>)
qed

lemma frame_inv:
  assumes "sig_inv own s" and "\<And>g. f = Some g \<Longrightarrow> frame_ok own s g"
  shows "sig_inv own (set_frame t f s)"
proof -
  have "handlers (set_frame t f s) own a cs = handlers s own a cs" for a cs
    by (induction cs arbitrary: a) (simp_all add: replaced_def set_frame_def)
  moreover have "installed (set_frame t f s) = installed s" "old_known (set_frame t f s) = old_known s"
    by (auto simp: fun_eq_iff installed_def old_known_def set_frame_def split: once.splits)
  moreover from this have "frame_ok own (set_frame t f s) = frame_ok own s" by (simp add: fun_eq_iff frame_ok_def)
  ultimately show ?thesis
    using assms unfolding sig_inv_def by (simp add: set_frame_def)
qed

lemma ask_inv:
  assumes "sig_inv own s" and "t_pc s t = Asking c" and "handler_ask t c s = Some s'"
  shows "sig_inv own s'"
proof (cases "c_res s c")
  case Uninit
  note inv = assms(1)
  let ?s = "sig_goto t (Initing c) (s\<lparr>c_res := (c_res s)(c := Init_by t)\<rparr>)"
  have s': "s' = ?s" using assms(3) Uninit by (simp add: handler_ask_def)
  have none: "c_res s d \<noteq> Init_by t" for d using initing_iff [OF inv, of t d] assms(2) by auto
  have fresh: "initing (t_pc s u) \<noteq> Some c" for u using initing_iff [OF inv, of u c] Uninit by auto
  have rec: "(\<exists>u. t_pc ?s u = Recorded d) \<longleftrightarrow> (\<exists>u. t_pc s u = Recorded d)" for d
    by (rule recorded_goto [of _ t]) (simp_all add: sig_goto_def assms(2))
  have "replaced s d old \<Longrightarrow> replaced ?s d old" for d old
    by (rule replaced_goto [of _ _ _ t]) (simp_all add: sig_goto_def assms(2))
  moreover have I: "installed ?s d \<longleftrightarrow> installed s d" for d
    using none Uninit by (auto simp: installed_def sig_goto_def split: once.split)
  ultimately have A: "\<exists>cs. distinct cs \<and> set cs = {d. installed ?s d} \<and> handlers ?s own (k_action ?s) cs"
    using chain_kept [OF chain [OF inv], of ?s] by (simp add: sig_goto_def)
  moreover have B: "initing (t_pc ?s u) = Some d \<longleftrightarrow> c_res ?s d = Init_by u" for u d
    using none fresh [of u] initing_iff [OF inv, of u d] assms(2) by (auto simp: sig_goto_def)
  moreover have C: "c_old ?s d \<noteq> None \<longleftrightarrow> old_known ?s d" for d
    using known_iff [OF inv, of d] rec [of d] Uninit by (auto simp: old_known_def sig_goto_def)
  show ?thesis unfolding s' by (rule sig_inv_other [OF inv A B C _ _ _ iffD2 [OF I]]) (use Uninit in \<open>auto simp: sig_goto_def\<close>)
next
  case (Init r)
  then show ?thesis using assms goto_copy_inv [OF assms(1), of t Outside] by (simp add: handler_ask_def)
qed (use assms(3) in \<open>simp add: handler_ask_def\<close>)

lemma fail_inv:
  assumes "sig_inv own s" and "t_pc s t = Initing c"
  shows "sig_inv own (sig_goto t Outside (s\<lparr>c_res := (c_res s)(c := Init (Some e))\<rparr>))" (is "sig_inv own ?s")
proof -
  note inv = assms(1)
  have res: "c_res s d = Init_by t \<longleftrightarrow> d = c" for d using initing_iff [OF inv, of t d] assms(2) by auto
  have rec: "(\<exists>u. t_pc ?s u = Recorded d) \<longleftrightarrow> (\<exists>u. t_pc s u = Recorded d)" for d
    by (rule recorded_goto [of _ t]) (simp_all add: sig_goto_def assms(2))
  have "replaced s d old \<Longrightarrow> replaced ?s d old" for d old
    by (rule replaced_goto [of _ _ _ t]) (simp_all add: sig_goto_def assms(2))
  moreover have I: "installed ?s d \<longleftrightarrow> installed s d" for d
    using res [of c] res [of d] assms(2) by (cases "d = c") (auto simp: installed_def sig_goto_def split: once.split)
  ultimately have A: "\<exists>cs. distinct cs \<and> set cs = {d. installed ?s d} \<and> handlers ?s own (k_action ?s) cs"
    using chain_kept [OF chain [OF inv], of ?s] by (simp add: sig_goto_def)
  moreover have B: "initing (t_pc ?s u) = Some d \<longleftrightarrow> c_res ?s d = Init_by u" for u d
    using res [of c] res [of d] initing_iff [OF inv, of u d] assms(2) by (auto simp: sig_goto_def)
  moreover have C: "c_old ?s d \<noteq> None \<longleftrightarrow> old_known ?s d" for d
    using known_iff [OF inv, of d] rec [of d] res [of d] by (auto simp: old_known_def sig_goto_def)
  show ?thesis by (rule sig_inv_other [OF inv A B C _ _ _ iffD2 [OF I]]) (use res [of c] in \<open>auto simp: sig_goto_def\<close>)
qed

lemma replace_inv:
  assumes "sig_inv own s" and "t_pc s t = Initing c"
  shows "sig_inv own (sig_goto t (Replaced c (k_action s)) (s\<lparr>k_action := our_action c\<rparr>))" (is "sig_inv own ?s")
proof -
  note inv = assms(1)
  have res: "c_res s d = Init_by t \<longleftrightarrow> d = c" for d using initing_iff [OF inv, of t d] assms(2) by auto
  then have "c_old s c = None" using known_iff [OF inv, of c] recorded_res [OF inv] assms(2) by (force simp: old_known_def)
  then have "replaced ?s c (k_action s)" by (auto simp: replaced_def sig_goto_def)
  moreover have rep: "replaced s d old \<Longrightarrow> replaced ?s d old" for d old
    by (rule replaced_goto [of _ _ _ t]) (simp_all add: sig_goto_def assms(2))
  moreover have I: "installed ?s d \<longleftrightarrow> d = c \<or> installed s d" for d
    using res [of c] res [of d] assms(2) by (cases "d = c") (auto simp: installed_def sig_goto_def split: once.split)
  moreover have "\<not> installed s c" using res [of c] assms(2) by (auto simp: installed_def split: once.split)
  moreover obtain cs where cs: "distinct cs" "set cs = {d. installed s d}" "handlers s own (k_action s) cs" using chain [OF inv] by blast
  moreover have "handlers ?s own (k_action s) cs" using handlers_cong [OF cs(3), of ?s] rep by blast
  ultimately have "distinct (c # cs) \<and> set (c # cs) = {d. installed ?s d} \<and> handlers ?s own (our_action c) (c # cs)"
    by auto
  moreover have k: "k_action ?s = our_action c" by (simp add: sig_goto_def)
  ultimately have A: "\<exists>cs. distinct cs \<and> set cs = {d. installed ?s d} \<and> handlers ?s own (k_action ?s) cs"
    unfolding k by (intro exI)
  moreover have B: "initing (t_pc ?s u) = Some d \<longleftrightarrow> c_res ?s d = Init_by u" for u d
    using res [of c] res [of d] initing_iff [OF inv, of u d] assms(2) by (auto simp: sig_goto_def)
  moreover have "(\<exists>u. t_pc ?s u = Recorded d) \<longleftrightarrow> (\<exists>u. t_pc s u = Recorded d)" for d
    by (rule recorded_goto [of _ t]) (simp_all add: sig_goto_def assms(2))
  then have C: "c_old ?s d \<noteq> None \<longleftrightarrow> old_known ?s d" for d
    using known_iff [OF inv, of d] by (auto simp: old_known_def sig_goto_def)
  show ?thesis by (rule sig_inv_other [OF inv A B C _ _ _ iffD2 [OF I disjI2]]) (use res [of c] in \<open>auto simp: sig_goto_def\<close>)
qed

lemma record_inv:
  assumes "sig_inv own s" and "t_pc s t = Replaced c old"
  shows "sig_inv own (handler_record t c old s)" (is "sig_inv own ?s")
proof -
  note inv = assms(1)
  have res: "c_res s d = Init_by t \<longleftrightarrow> d = c" for d using initing_iff [OF inv, of t d] assms(2) by auto
  have old: "c_old s c = None" using replaced_res [OF inv assms(2)] by simp
  have s: "c_old ?s = (c_old s)(c \<mapsto> old)" "k_action ?s = k_action s" "c_res ?s = c_res s" "t_pc ?s = (t_pc s)(t := Recorded c)"
    "c_suspending ?s = c_suspending s" "t_frame ?s = t_frame s"
    using old by (simp_all add: handler_record_def sig_goto_def)
  have same: "old' = old" if "t_pc s u = Replaced c old'" for u old'
    using replaced_res [OF inv that] res [of c] that assms(2) by simp
  have "replaced ?s d old'" if d: "replaced s d old'" for d old'
  proof (cases "d = c")
    case True
    with d old obtain u where "t_pc s u = Replaced c old'" by (auto simp: replaced_def)
    then have "Some old' = Some old" by (intro arg_cong [of _ _ Some]) (rule same)
    also have "\<dots> = c_old ?s d" unfolding s(1) True by simp
    finally show ?thesis unfolding replaced_def by simp
  next
    case False
    then show ?thesis by (intro replaced_goto [OF d, of t _ "Recorded c"]) (simp_all add: s assms(2))
  qed
  moreover have I: "installed ?s d \<longleftrightarrow> installed s d" for d
    using res [of c] res [of d] assms(2) by (cases "d = c") (auto simp: installed_def s split: once.split)
  ultimately have A: "\<exists>cs. distinct cs \<and> set cs = {d. installed ?s d} \<and> handlers ?s own (k_action ?s) cs"
    using chain_kept [OF chain [OF inv], of ?s] by (simp add: s)
  moreover have B: "initing (t_pc ?s u) = Some d \<longleftrightarrow> c_res ?s d = Init_by u" for u d
    using res [of c] res [of d] initing_iff [OF inv, of u d] assms(2) by (auto simp: s)
  moreover have C: "c_old ?s d \<noteq> None \<longleftrightarrow> old_known ?s d" for d
  proof (cases "d = c")
    case True
    then show ?thesis by (auto simp: old_known_def s)
  next
    case False
    then have "(\<exists>u. t_pc ?s u = Recorded d) \<longleftrightarrow> (\<exists>u. t_pc s u = Recorded d)"
      by (intro recorded_goto [of _ t]) (simp_all add: s assms(2))
    with False show ?thesis using known_iff [OF inv, of d] by (simp add: old_known_def) (simp add: s)
  qed
  show ?thesis by (rule sig_inv_other [OF inv A B C _ _ _ iffD2 [OF I]]) (use res [of c] in \<open>auto simp: s\<close>)
qed

lemma finish_handler_inv:
  assumes "sig_inv own s" and "t_pc s t = Recorded c"
  shows "sig_inv own (handler_finish t c s)" (is "sig_inv own ?s")
proof -
  note inv = assms(1)
  have res: "c_res s d = Init_by t \<longleftrightarrow> d = c" for d using initing_iff [OF inv, of t d] assms(2) by auto
  have s: "c_old ?s = c_old s" "k_action ?s = k_action s" "c_res ?s = (c_res s)(c := Init None)" "t_pc ?s = (t_pc s)(t := Outside)"
    "c_suspending ?s = c_suspending s" "t_frame ?s = t_frame s"
    by (simp_all add: handler_finish_def sig_goto_def)
  have "replaced s d old \<Longrightarrow> replaced ?s d old" for d old
    by (rule replaced_goto [of _ _ _ t]) (simp_all add: s assms(2))
  moreover have I: "installed ?s d \<longleftrightarrow> installed s d" for d
    using res [of c] res [of d] assms(2) by (cases "d = c") (auto simp: installed_def s split: once.split)
  ultimately have A: "\<exists>cs. distinct cs \<and> set cs = {d. installed ?s d} \<and> handlers ?s own (k_action ?s) cs"
    using chain_kept [OF chain [OF inv], of ?s] by (simp add: s)
  moreover have B: "initing (t_pc ?s u) = Some d \<longleftrightarrow> c_res ?s d = Init_by u" for u d
    using res [of c] res [of d] initing_iff [OF inv, of u d] assms(2) by (auto simp: s)
  moreover have C: "c_old ?s d \<noteq> None \<longleftrightarrow> old_known ?s d" for d
  proof (cases "d = c")
    case True
    then show ?thesis using known_iff [OF inv, of c] assms(2) by (auto simp: old_known_def s)
  next
    case False
    then have "(\<exists>u. t_pc ?s u = Recorded d) \<longleftrightarrow> (\<exists>u. t_pc s u = Recorded d)"
      by (intro recorded_goto [of _ t]) (simp_all add: s assms(2))
    with False show ?thesis using known_iff [OF inv, of d] by (simp add: old_known_def) (simp add: s)
  qed
  show ?thesis by (rule sig_inv_other [OF inv A B C _ _ _ iffD2 [OF I]]) (use res [of c] in \<open>auto simp: s\<close>)
qed

lemma suspending_inv:
  assumes "sig_inv own s" and "\<And>c. f c \<Longrightarrow> c_res s c = Init None" and "\<And>c d. f c \<Longrightarrow> f d \<Longrightarrow> c = d"
  shows "sig_inv own (s\<lparr>c_suspending := f\<rparr>)" (is "sig_inv own ?s")
proof -
  have "replaced s d old \<Longrightarrow> replaced ?s d old" for d old by (simp add: replaced_def)
  moreover have "installed ?s = installed s" "old_known ?s = old_known s"
    by (auto simp: fun_eq_iff installed_def old_known_def split: once.splits)
  ultimately have "\<exists>cs. distinct cs \<and> set cs = {d. installed ?s d} \<and> handlers ?s own (k_action ?s) cs"
    using chain_kept [OF chain [OF assms(1)], of ?s] by simp
  moreover have "frame_ok own ?s = frame_ok own s" using \<open>installed ?s = installed s\<close> by (simp add: fun_eq_iff frame_ok_def)
  ultimately show ?thesis using \<open>old_known ?s = old_known s\<close> assms unfolding sig_inv_def by simp
qed

lemma sig_step_inv: "sig_step s s' \<Longrightarrow> foreign own \<Longrightarrow> sig_inv own s \<Longrightarrow> sig_inv own s'"
proof (induction rule: sig_step.induct)
  case (begin_install s t c)
  then show ?case by (simp add: goto_copy_inv)
next
  case (ask s t c s')
  then show ?case using ask_inv by blast
next
  case (replace_action s t c errno)
  then show ?case by (simp add: handler_replace_def replace_inv fail_inv split: option.split)
next
  case (begin_suspend s c)
  then show ?case by (intro suspending_inv) (auto split: if_splits dest: suspending_init)
next
  case (end_suspend s c)
  then show ?case by (intro suspending_inv) (auto split: if_splits dest: suspending_init suspending_one)
next
  case (deliver s t)
  then show ?case using chain [of own s] dispatch_handlers [of s own "k_action s"] by (intro frame_inv) auto
next
  case (run s t info c f)
  note inv = run.prems(2)
  have called: "info \<and> installed s c"
    using frames_ok [OF inv run.hyps(1)] dispatch_foreign [OF run.prems(1), of info c] by (auto simp: frame_ok_def)
  then have "info" by simp
  have "frame_ok own s f"
  proof (cases "c_suspending s c")
    case False
    then obtain old where "c_old s c = Some old" "f = dispatch old" using run.hyps by (auto simp: sa_run_def split: option.splits)
    then show ?thesis using old_handlers [OF inv] dispatch_handlers by blast
  next
    case True
    then show ?thesis using run.hyps \<open>info\<close> called by (auto simp: sa_run_def frame_ok_def)
  qed
  then show ?case by (intro frame_inv [OF inv]) simp
qed (auto intro: record_inv finish_handler_inv frame_inv)

lemma sig_reach_inv:
  assumes "foreign own" and "sig_step\<^sup>*\<^sup>* (sig_start own) s"
  shows "sig_inv own s"
  using assms(2)
proof (induction rule: rtranclp_induct)
  case base
  then show ?case by (rule sig_start_inv)
next
  case (step s s')
  then show ?case using sig_step_inv assms(1) by blast
qed

section \<open>What becomes of a signal\<close>

lemma outcome_end: "\<forall>info c. f \<noteq> Called info (Copy c) \<Longrightarrow> sig_outcome n s f = Some f"
  by (induction n s f rule: sig_outcome.induct) auto

lemma outcome_copy: "sa_run s True c = Some f \<Longrightarrow> sig_outcome (Suc n) s (Called True (Copy c)) = sig_outcome n s f"
  by simp

text \<open>When nobody is between replacing the disposition and recording it, every handler knows the old one.\<close>

lemma replaced_known: "replaced s c old \<Longrightarrow> \<forall>t old. t_pc s t \<noteq> Replaced c old \<Longrightarrow> c_old s c = Some old"
  by (auto simp: replaced_def)

lemma outcome_foreign:
  assumes "foreign own" and "\<forall>t c old. t_pc s t \<noteq> Replaced c old" and "\<forall>c. \<not> c_suspending s c"
    and "handlers s own a cs" and "length cs \<le> n"
  shows "sig_outcome n s (dispatch a) = Some (dispatch own)"
  using assms(4,5)
proof (induction cs arbitrary: a n)
  case Nil
  then show ?case using dispatch_foreign [OF assms(1)] by (simp add: outcome_end)
next
  case (Cons c cs)
  then obtain old n' where "a = our_action c" "replaced s c old" "handlers s own old cs" "n = Suc n'" "length cs \<le> n'"
    by (cases n) auto
  moreover from this have "sa_run s True c = Some (dispatch old)"
    using replaced_known [of s c old] assms(2,3) by (simp add: sa_run_def)
  ultimately show ?case using Cons.IH by (simp add: outcome_copy)
qed

lemma outcome_suspend:
  assumes "sig_inv own s" and "\<forall>t c old. t_pc s t \<noteq> Replaced c old" and "c_suspending s c"
    and "handlers s own a cs" and "c \<in> set cs" and "length cs \<le> n"
  shows "sig_outcome n s (dispatch a) = Some (Suspended True c)"
  using assms(4-)
proof (induction cs arbitrary: a n)
  case (Cons d cs)
  then obtain old n' where a: "a = our_action d" "replaced s d old" "handlers s own old cs" "n = Suc n'" "length cs \<le> n'"
    by (cases n) auto
  show ?case
  proof (cases "d = c")
    case True
    with a assms(3) show ?thesis by (simp add: sa_run_def outcome_end)
  next
    case False
    then have "sa_run s True d = Some (dispatch old)"
      using suspending_one [OF assms(1), of c d] replaced_known [of s d old] a(2) assms(2,3) by (auto simp: sa_run_def)
    with a False Cons show ?thesis by (simp add: outcome_copy)
  qed
qed simp

text \<open>A thread in the handler of a copy that it waits for and that waits for it.\<close>

definition stuck :: "sigaction \<Rightarrow> nat \<Rightarrow> nat \<Rightarrow> sigaction \<Rightarrow> sig_state \<Rightarrow> bool" where
  "stuck own t c old s \<longleftrightarrow> sig_inv own s \<and> t_pc s t = Replaced c old \<and> t_frame s t = Some (Called True (Copy c))"

lemma stuck_waits: "stuck own t c old s \<Longrightarrow> sa_run s True c = None"
  using replaced_res suspending_init by (fastforce simp: stuck_def sa_run_def)

lemma stuck_step:
  assumes "sig_step s s'" and "foreign own" and "stuck own t c old s"
  shows "stuck own t c old s'"
proof -
  note wait = stuck_waits [OF assms(3)]
  from assms(1,3) wait have "t_pc s' t = Replaced c old \<and> t_frame s' t = Some (Called True (Copy c))"
    by (cases rule: sig_step.cases)
      (auto simp: stuck_def sig_goto_def set_frame_def handler_ask_def handler_replace_def handler_record_def handler_finish_def
        split: once.splits option.splits)
  then show ?thesis using sig_step_inv [OF assms(1,2)] assms(3) by (simp add: stuck_def)
qed

text \<open>What a process has chosen to do with the signal, and a step of a thread in a handler.\<close>

definition answers :: "sigaction \<Rightarrow> frame \<Rightarrow> bool" where
  "answers a f \<longleftrightarrow> (case f of
       Aborted \<Rightarrow> sa_sigaction a = SIG_DFL
     | Ignored \<Rightarrow> sa_sigaction a = SIG_IGN
     | Called info fn \<Rightarrow> fn = sa_sigaction a \<and> fn \<noteq> SIG_DFL \<and> fn \<noteq> SIG_IGN \<and> (info \<longleftrightarrow> sa_flags a AND 4 \<noteq> 0)
     | Suspended _ _ \<Rightarrow> False)"

lemma answers_dispatch: "answers a f \<longleftrightarrow> f = dispatch a"
  by (cases f; cases "sa_sigaction a") (auto simp: answers_def dispatch_def SA_SIGINFO_def)

lemma handler_goes_on:
  assumes "sig_step s s'" "t_frame s t = Some (Called True (Copy c))" "t_frame s' t \<noteq> t_frame s t"
  shows "if c_suspending s c then t_frame s' t = Some (Suspended True c)
    else \<exists>old f. c_old s c = Some old \<and> answers old f \<and> t_frame s' t = Some f"
  using assms
  by (cases rule: sig_step.cases)
    (auto simp: set_frame_def sig_goto_def handler_ask_def handler_replace_def handler_record_def handler_finish_def
      sa_run_def answers_dispatch split: once.splits option.splits if_splits)

section \<open>Examples\<close>

text \<open>
  Two copies install their handlers in a process that ignores the signal, copy \<open>0\<close> first; then copy \<open>0\<close>
  suspends threads.
\<close>

definition ignores :: sigaction where "ignores = \<lparr>sa_sigaction = SIG_IGN, sa_flags = 0\<rparr>"

definition install_steps :: "nat \<Rightarrow> nat \<Rightarrow> sig_state \<Rightarrow> sig_state" where
  "install_steps t c s =
     (let s = the (handler_ask t c (sig_goto t (Asking c) s)); old = k_action s;
          s = handler_replace t c None s
      in handler_finish t c (handler_record t c old s))"

lemma install_steps_reach:
  assumes "t_frame s t = None" and "t_pc s t = Outside" and "c_res s c = Uninit"
  shows "sig_step\<^sup>*\<^sup>* s (install_steps t c s)"
proof -
  let ?a = "sig_goto t (Asking c) s" let ?b = "the (handler_ask t c ?a)"
  let ?c = "handler_replace t c None ?b" let ?d = "handler_record t c (k_action ?b) ?c"
  have b: "handler_ask t c ?a = Some ?b" using assms(3) by (simp add: handler_ask_def sig_goto_def)
  have pc: "t_pc ?b t = Initing c" "t_frame ?b t = None" "t_pc ?c t = Replaced c (k_action ?b)" "t_frame ?c t = None"
      "t_pc ?d t = Recorded c" "t_frame ?d t = None"
    using assms by (simp_all add: handler_ask_def handler_replace_def handler_record_def sig_goto_def)
  have 1: "sig_step s ?a" using begin_install [OF assms(1,2)] .
  have 2: "sig_step ?a ?b" by (rule ask [OF _ _ b]) (simp_all add: sig_goto_def assms(1))
  have 3: "sig_step ?b ?c" using replace_action [OF pc(2,1)] .
  have 4: "sig_step ?c ?d" using record_old [OF pc(4,3)] .
  have 5: "sig_step ?d (handler_finish t c ?d)" using finish_install [OF pc(6,5)] .
  have "install_steps t c s = handler_finish t c ?d" by (simp only: install_steps_def Let_def)
  moreover have "sig_step\<^sup>*\<^sup>* s (handler_finish t c ?d)"
    by (rule converse_rtranclp_into_rtranclp, rule 1, rule converse_rtranclp_into_rtranclp, rule 2, rule converse_rtranclp_into_rtranclp,
        rule 3, rule converse_rtranclp_into_rtranclp, rule 4, rule r_into_rtranclp, rule 5)
  ultimately show ?thesis by (simp only:)
qed

definition two_copies :: sig_state where
  "two_copies = install_steps 8 1 (install_steps 7 0 (sig_start ignores))"

definition copy_suspends :: sig_state where
  "copy_suspends = two_copies\<lparr>c_suspending := (c_suspending two_copies)(0 := True)\<rparr>"

lemmas sig_run = two_copies_def copy_suspends_def install_steps_def sig_start_def handler_ask_def handler_replace_def handler_record_def
  handler_finish_def sig_goto_def set_frame_def Let_def

lemma copy_suspends_reach: "sig_step\<^sup>*\<^sup>* (sig_start ignores) copy_suspends"
proof -
  have "sig_step\<^sup>*\<^sup>* (sig_start ignores) (install_steps 7 0 (sig_start ignores))"
    by (rule install_steps_reach) (simp_all add: sig_start_def)
  also have "sig_step\<^sup>*\<^sup>* (install_steps 7 0 (sig_start ignores)) two_copies"
    unfolding two_copies_def by (rule install_steps_reach) (simp_all add: sig_run)
  also have "sig_step\<^sup>*\<^sup>* two_copies copy_suspends"
    unfolding copy_suspends_def by (intro r_into_rtranclp begin_suspend) (simp_all add: sig_run)
  finally show ?thesis .
qed

lemma foreign_ignores: "foreign ignores"
  by (simp add: foreign_def ignores_def)

text \<open>
  A thread that has just replaced the disposition is interrupted by the signal.
\<close>

definition interrupted :: sig_state where
  "interrupted =
     (let s = handler_replace 7 0 None (the (handler_ask 7 0 (sig_goto 7 (Asking 0) (sig_start ignores))))
      in set_frame 7 (Some (dispatch (k_action s))) s)"

lemma interrupted_reach: "sig_step\<^sup>*\<^sup>* (sig_start ignores) interrupted"
proof -
  let ?a = "sig_goto 7 (Asking 0) (sig_start ignores)" let ?b = "the (handler_ask 7 0 ?a)" let ?c = "handler_replace 7 0 None ?b"
  have "sig_step\<^sup>*\<^sup>* (sig_start ignores) ?a" by (intro r_into_rtranclp begin_install) (simp_all add: sig_start_def)
  also have "sig_step\<^sup>*\<^sup>* ?a ?b" by (intro r_into_rtranclp ask [of _ 7 0]) (simp_all add: sig_run)
  also have "sig_step\<^sup>*\<^sup>* ?b ?c" by (intro r_into_rtranclp replace_action) (simp_all add: sig_run)
  also have "sig_step\<^sup>*\<^sup>* ?c interrupted"
    unfolding interrupted_def Let_def by (intro r_into_rtranclp deliver) (simp_all add: sig_run)
  finally show ?thesis .
qed

section \<open>The properties\<close>

text \<open>
  The \<open>siginfo_t\<close> of \<open>rt_tgsigqueueinfo\<close> has the kernel's size, and the handler finds in it the
  pointer that was sent, whatever the kernel does to the bytes after the first 48.
\<close>

theorem payload_arrives:
  assumes "sival_ptr < usize_size" and "length info = 128" and "take 48 info = take 48 (rt_siginfo sig pid uid sival_ptr)"
  shows "length (rt_siginfo sig pid uid sival_ptr) = 128 \<and> payload_ptr info = sival_ptr"
proof -
  have len: "length (rt_siginfo sig pid uid sival_ptr) = 128" by (simp add: rt_siginfo_def)
  have "get_at 24 8 bs = get_at 24 8 (take 48 bs)" for bs by (simp add: get_at_def drop_take)
  then have "payload_ptr info = payload_ptr (rt_siginfo sig pid uid sival_ptr)"
    unfolding payload_ptr_def using assms(3) by (simp add: numeral_eq_Suc) (metis)
  also have "\<dots> = sival_ptr"
    using assms(1) by (simp add: payload_ptr_def rt_siginfo_def get_put_same from_le_bytes usize_defs)
  finally show ?thesis using len by simp
qed

theorem payload_arrives_witness:
  "payload_ptr (take 48 (rt_siginfo 60 1234 1000 0x7F0012345678) @ replicate 80 1) = 0x7F0012345678"
proof -
  have bs: "length bs = 128 \<Longrightarrow> length (take 48 bs @ replicate 80 1) = 128 \<and> take 48 (take 48 bs @ replicate 80 1) = take 48 bs" for bs :: "byte list"
    by simp
  have len: "length (rt_siginfo 60 1234 1000 0x7F0012345678) = 128" by (simp add: rt_siginfo_def del: le_bytes.simps)
  have "(0x7F0012345678 :: nat) < usize_size" by (simp add: usize_defs)
  from payload_arrives [OF this conjunct1 [OF bs [OF len]] conjunct2 [OF bs [OF len]]] show ?thesis by (rule conjunct2)
qed

text \<open>
  Whatever copies of the library have installed their handlers, in whatever order: while one of
  them suspends threads, the signal reaches that copy's \<open>suspend_sigaction\<close>, with the \<open>siginfo_t\<close>; at
  other times it does what the process had chosen before the first copy came. No thread may be
  between the system call and recording what it replaced.
\<close>

theorem signal_outcomes:
  assumes "foreign own" and "sig_step\<^sup>*\<^sup>* (sig_start own) s" and "\<forall>t c old. t_pc s t \<noteq> Replaced c old"
  shows "\<exists>m. \<forall>n. (\<forall>c. c_suspending s c \<longrightarrow> sig_outcome (m + n) s (dispatch (k_action s)) = Some (Suspended True c))
    \<and> ((\<forall>c. \<not> c_suspending s c) \<longrightarrow> sig_outcome (m + n) s (dispatch (k_action s)) = Some (dispatch own))"
proof -
  have inv: "sig_inv own s" using sig_reach_inv assms(1,2) by blast
  then obtain cs where cs: "set cs = {c. installed s c}" "handlers s own (k_action s) cs" using chain by blast
  have "c_suspending s c \<Longrightarrow> c \<in> set cs" for c using suspending_init [OF inv, of c] cs(1) by (simp add: installed_def)
  then show ?thesis
    using outcome_suspend [OF inv assms(3) _ cs(2)] outcome_foreign [OF assms(1,3) _ cs(2)] by (intro exI [of _ "length cs"]) simp
qed

theorem signal_outcomes_witness:
  "\<exists>m. \<forall>n. sig_outcome (m + n) copy_suspends (dispatch (k_action copy_suspends)) = Some (Suspended True 0)"
proof -
  have "\<forall>t c old. t_pc copy_suspends t \<noteq> Replaced c old" by (simp add: sig_run)
  moreover have "c_suspending copy_suspends 0" by (simp add: sig_run)
  ultimately show ?thesis using signal_outcomes [OF foreign_ignores copy_suspends_reach] by blast
qed

text \<open>
  C13. In every interleaving of threads that install handlers, suspend threads and get the signal: a
  handler that is run is given the \<open>siginfo_t\<close>, what is run in the end is a \<open>suspend_sigaction\<close> or what the
  process had chosen itself (the default action ends it, an ignored signal is dropped, a function is called,
  with the \<open>siginfo_t\<close> if it asked for it), and a handler waits only for a thread that has replaced the
  disposition and not recorded it yet. A handler of the copy that is suspending threads goes to
  \<open>suspend_sigaction\<close>, every other to the disposition it replaced. So where no thread is between replacing and
  recording, a signal that arrives while a copy suspends threads ends in that copy's \<open>suspend_sigaction\<close>,
  through whatever other copies' handlers, and at other times in what the process had chosen.
\<close>

theorem signals_forwarded:
  assumes "foreign own" and "sig_step\<^sup>*\<^sup>* (sig_start own) s"
  shows "(\<forall>t f. t_frame s t = Some f \<longrightarrow> answers own f \<or> (\<exists>c. f = Suspended True c)
        \<or> (\<exists>c. f = Called True (Copy c) \<and> (sa_run s True c \<noteq> None \<or> (\<exists>u old. t_pc s u = Replaced c old))))
    \<and> (\<forall>s' t c. sig_step s s' \<and> t_frame s t = Some (Called True (Copy c)) \<and> t_frame s' t \<noteq> t_frame s t \<longrightarrow>
        (if c_suspending s c then t_frame s' t = Some (Suspended True c)
         else \<exists>old f. c_old s c = Some old \<and> answers old f \<and> t_frame s' t = Some f))
    \<and> ((\<forall>t c old. t_pc s t \<noteq> Replaced c old) \<longrightarrow>
        (\<exists>m. \<forall>n. (\<forall>c. c_suspending s c \<longrightarrow> sig_outcome (m + n) s (dispatch (k_action s)) = Some (Suspended True c))
          \<and> ((\<forall>c. \<not> c_suspending s c) \<longrightarrow>
              (\<exists>f. answers own f \<and> sig_outcome (m + n) s (dispatch (k_action s)) = Some f))))"
proof (intro conjI allI impI)
  have inv: "sig_inv own s" using sig_reach_inv assms(1,2) by blast
  fix t f assume fr: "t_frame s t = Some f"
  have "sa_run s True c \<noteq> None \<or> (\<exists>u old. t_pc s u = Replaced c old)" if f: "f = Called True (Copy c)" for c
  proof -
    have "installed s c" using frames_ok [OF inv fr] f dispatch_foreign [OF assms(1), of True c] by (auto simp: frame_ok_def)
    then have "c_old s c \<noteq> None \<or> (\<exists>u old. t_pc s u = Replaced c old)" by (rule installed_replaced [OF inv])
    then show ?thesis by (auto simp: sa_run_def)
  qed
  then show "answers own f \<or> (\<exists>c. f = Suspended True c)
      \<or> (\<exists>c. f = Called True (Copy c) \<and> (sa_run s True c \<noteq> None \<or> (\<exists>u old. t_pc s u = Replaced c old)))"
    using frames_ok [OF inv fr] by (auto simp: frame_ok_def answers_dispatch)
next
  fix s' t c assume "sig_step s s' \<and> t_frame s t = Some (Called True (Copy c)) \<and> t_frame s' t \<noteq> t_frame s t"
  then show "if c_suspending s c then t_frame s' t = Some (Suspended True c)
      else \<exists>old f. c_old s c = Some old \<and> answers old f \<and> t_frame s' t = Some f"
    using handler_goes_on by blast
next
  assume "\<forall>t c old. t_pc s t \<noteq> Replaced c old"
  from signal_outcomes [OF assms this]
  show "\<exists>m. \<forall>n. (\<forall>c. c_suspending s c \<longrightarrow> sig_outcome (m + n) s (dispatch (k_action s)) = Some (Suspended True c))
      \<and> ((\<forall>c. \<not> c_suspending s c) \<longrightarrow>
          (\<exists>f. answers own f \<and> sig_outcome (m + n) s (dispatch (k_action s)) = Some f))"
    by (simp add: answers_dispatch)
qed

theorem signals_forwarded_witness:
  "\<exists>s m. sig_step\<^sup>*\<^sup>* (sig_start ignores) s \<and> t_frame s 9 = Some (Called True (Copy 1)) \<and> sa_run s True 1 = Some (Called True (Copy 0))
    \<and> sig_outcome m s (dispatch (k_action s)) = Some (Suspended True 0)"
proof -
  let ?s = "set_frame 9 (Some (dispatch (k_action copy_suspends))) copy_suspends"
  have "sig_step copy_suspends ?s" by (rule deliver) (simp add: sig_run)
  with copy_suspends_reach have reach: "sig_step\<^sup>*\<^sup>* (sig_start ignores) ?s" by (rule rtranclp.rtrancl_into_rtrancl)
  note fwd = signals_forwarded [OF foreign_ignores reach]
  have frame: "t_frame ?s 9 = Some (Called True (Copy 1))" by (simp add: sig_run)
  have none: "\<forall>u c old. t_pc ?s u \<noteq> Replaced c old" by (simp add: sig_run)
  have "\<not> answers ignores (Called True (Copy 1))" by (simp add: answers_def ignores_def)
  then obtain f where f: "sa_run ?s True 1 = Some f" using conjunct1 [OF fwd] frame none by blast
  have "c_old ?s 1 = Some (our_action 0)" "\<not> c_suspending ?s 1" by (simp_all add: sig_run)
  then have "sa_run ?s True 1 = Some (Called True (Copy 0))" by (simp add: sa_run_def)
  moreover have "c_suspending ?s 0" by (simp add: sig_run)
  then have "\<exists>m. sig_outcome m ?s (dispatch (k_action ?s)) = Some (Suspended True 0)"
    using conjunct2 [OF conjunct2 [OF fwd]] none by blast
  ultimately show ?thesis using reach frame by blast
qed

text \<open>
  If the signal arrives on the very thread that has replaced the disposition and not recorded it,
  the thread never leaves the handler: it waits for \<open>OLD\<close>, which only it would set.
\<close>

theorem signal_during_install_hangs:
  assumes "foreign own" and "sig_step\<^sup>*\<^sup>* (sig_start own) s"
    and "t_pc s t = Replaced c old" and "t_frame s t = Some (Called True (Copy c))" and "sig_step\<^sup>*\<^sup>* s s'"
  shows "t_frame s' t = Some (Called True (Copy c)) \<and> sa_run s' True c = None"
proof -
  have "stuck own t c old s" using assms sig_reach_inv by (simp add: stuck_def)
  with assms(5) have "stuck own t c old s'"
    by (induction rule: rtranclp_induct) (use stuck_step assms(1) in blast)+
  then show ?thesis using stuck_waits by (auto simp: stuck_def)
qed

theorem signal_during_install_hangs_witness:
  "\<exists>s. sig_step\<^sup>*\<^sup>* (sig_start ignores) s \<and> t_frame s 7 = Some (Called True (Copy 0)) \<and> sa_run s True 0 = None"
proof -
  have "t_pc interrupted 7 = Replaced 0 ignores" "t_frame interrupted 7 = Some (Called True (Copy 0))"
    by (simp_all add: interrupted_def sig_run)
  then show ?thesis using signal_during_install_hangs [OF foreign_ignores interrupted_reach _ _ rtranclp.rtrancl_refl] interrupted_reach by blast
qed

end
