(* ===== verification/Install.thy ===== *)
theory Install
  imports Linux_Threads Process_Context
begin

text \<open>
  Installing a hook (\<open>install\<close> and what it calls in \<open>installer/arch/x86_64.rs\<close>): the chain of jumps
  from the function through a thunk to a trampoline, placed with a short jump over the first
  instruction if there is memory for it, and otherwise with a full jump while the other threads are
  stopped; a failed attempt is undone and tried again. The state is the process context, the memory
  of the code, and the system; what other threads do to the code in between is a parameter.
\<close>

section \<open>The code\<close>

text \<open>
  The system: \<open>h_other\<close> is what other threads do to the memory before the exchange, \<open>h_suspend\<close> the
  answer of \<open>suspend_and_reloc_other_threads\<close>, and \<open>h_vec_mmap\<close>, \<open>h_page\<close> the memory of the table of
  thunks.
\<close>

record ('d, 'k) host =
  h_iced :: "'d iced"
  h_platform :: "'k platform"
  h_other :: "'k \<Rightarrow> memory \<Rightarrow> memory \<times> 'k"
  h_suspend :: "'k \<Rightarrow> ip_reloc list \<Rightarrow> (io_error + unit) \<times> 'k"
  h_vec_mmap :: "(nat \<times> nat) list \<Rightarrow> nat \<Rightarrow> nat option"
  h_page :: nat

type_synonym 'k place = "(range_alloc \<times> 'k) \<times> memory"

record jmp_chain =
  jc_thunk :: nat
  jc_jmp_rel :: jmp_rel
  jc_trampoline :: nat
  jc_trampoline_len :: nat
  jc_relocs :: "ip_reloc list"

datatype install_error = Error error | TryAgain

text \<open>The target and the address of the thunk's pointer.\<close>

record installer =
  i_target :: nat
  i_thunk :: nat

definition chain_build :: "('d, 'k) host \<Rightarrow> nat \<Rightarrow> hook_site \<Rightarrow> int \<times> int \<Rightarrow> 'k place
    \<Rightarrow> ((error + jmp_chain option) \<times> 'k place) option" where
  "chain_build H target site rng = (\<lambda>(al, m). do {
     (thunk, al) \<leftarrow> os_alloc_near (h_platform H) THUNK_LAYOUT target (Included (fst rng)) (Included (snd rng)) al;
     (case thunk of
        Inl e \<Rightarrow> Some (Inl e, al, m)
      | Inr None \<Rightarrow> Some (Inr None, al, m)
      | Inr (Some thunk) \<Rightarrow> do {
          (relocated, al, m) \<leftarrow> relocate (h_iced H) (h_platform H) site (al, m);
          (case relocated of
             Inl e \<Rightarrow> do { al \<leftarrow> os_reclaim thunk (layout_size THUNK_LAYOUT) al; Some (Inl e, al, m) }
           | Inr t \<Rightarrow> do {
               let m = write_bytes thunk (thunk_bytes (thunk_new (tr_ptr t))) m;
               jmp_rel \<leftarrow> jmp_rel_encode target thunk;
               Some (Inr (Some \<lparr>jc_thunk = thunk, jc_jmp_rel = jmp_rel, jc_trampoline = tr_ptr t,
                 jc_trampoline_len = tr_len t, jc_relocs = tr_relocs t\<rparr>), al, m)
             })
        })
   })"

definition chain_reclaim :: "jmp_chain \<Rightarrow> range_alloc \<times> 'k \<Rightarrow> (range_alloc \<times> 'k) option" where
  "chain_reclaim jc al = do {
     al \<leftarrow> os_reclaim (jc_trampoline jc) (jc_trampoline_len jc) al;
     os_reclaim (jc_thunk jc) (layout_size THUNK_LAYOUT) al
   }"

definition erased_installer :: "nat \<Rightarrow> jmp_chain \<Rightarrow> installer" where
  "erased_installer target jc = \<lparr>i_target = target, i_thunk = jc_thunk jc + THUNK_PTR\<rparr>"

text \<open>The exchange, after what the other threads may have done.\<close>

definition try_detour :: "('d, 'k) host \<Rightarrow> nat \<Rightarrow> hook_site \<Rightarrow> jmp_chain \<Rightarrow> 'k place \<Rightarrow> bool \<times> 'k place" where
  "try_detour H target site jc = (\<lambda>((a, k), m).
     let (m, k) = h_other H k m;
         (done, m) = detour (hs_bytes site) target (jc_jmp_rel jc) m
     in (done, (a, k), m))"

definition suspend_and_detour :: "('d, 'k) host \<Rightarrow> nat \<Rightarrow> hook_site \<Rightarrow> jmp_chain \<Rightarrow> 'k place
    \<Rightarrow> (install_error + unit) \<times> 'k place" where
  "suspend_and_detour H target site jc = (\<lambda>((a, k), m).
     case h_suspend H k (jc_relocs jc) of
       (Inl e, k) \<Rightarrow> (Inl (Error (E_Suspend e)), (a, k), m)
     | (Inr _, k) \<Rightarrow>
         (case try_detour H target site jc ((a, k), m) of
            (True, pl) \<Rightarrow> (Inr (), pl)
          | (False, pl) \<Rightarrow> (Inl TryAgain, pl)))"

definition install_fast :: "('d, 'k) host \<Rightarrow> nat \<Rightarrow> hook_site \<Rightarrow> 'k place
    \<Rightarrow> ((install_error + installer option) \<times> 'k place) option" where
  "install_fast H target site pl = do {
     first \<leftarrow> slice_get (hs_insns site) 0;
     let first_len = in_len first;
     rng \<leftarrow> short_encoding_range (hs_bytes site) first_len;
     (chain, pl) \<leftarrow> chain_build H target site rng pl;
     (case chain of
        Inl e \<Rightarrow> Some (Inl (Error e), pl)
      | Inr None \<Rightarrow> Some (if first_len < JMP_REL_LEN then Inr None else Inl (Error (oom target)), pl)
      | Inr (Some jc) \<Rightarrow>
          (case try_detour H target site jc pl of
             (True, pl) \<Rightarrow> Some (Inr (Some (erased_installer target jc)), pl)
           | (False, al, m) \<Rightarrow> do { al \<leftarrow> chain_reclaim jc al; Some (Inl TryAgain, al, m) }))
   }"

definition install_slow :: "('d, 'k) host \<Rightarrow> nat \<Rightarrow> hook_site \<Rightarrow> 'k place
    \<Rightarrow> ((install_error + installer) \<times> 'k place) option" where
  "install_slow H target site pl = do {
     (chain, pl) \<leftarrow> chain_build H target site JMP_REL_RANGE pl;
     (case chain of
        Inl e \<Rightarrow> Some (Inl (Error e), pl)
      | Inr None \<Rightarrow> Some (Inl (Error (oom target)), pl)
      | Inr (Some jc) \<Rightarrow>
          (case suspend_and_detour H target site jc pl of
             (Inr _, pl) \<Rightarrow> Some (Inr (erased_installer target jc), pl)
           | (Inl e, al, m) \<Rightarrow> do { al \<leftarrow> chain_reclaim jc al; Some (Inl e, al, m) }))
   }"

text \<open>One turn of the loop. The guard gives the protection back on every way out.\<close>

definition restored :: "('d, 'k) host \<Rightarrow> region \<Rightarrow> 'k place \<Rightarrow> 'k place" where
  "restored H guard = (\<lambda>((a, k), m). ((a, snd (guard_restore (h_platform H) guard k)), m))"

definition install_turn :: "('d, 'k) host \<Rightarrow> nat \<Rightarrow> 'k place \<Rightarrow> ((install_error + installer) \<times> 'k place) option" where
  "install_turn H target = (\<lambda>((a, k), m).
     case pf_make_rwx (h_platform H) target DISASM_LEN k of
       (Inl err, k) \<Rightarrow> Some (Inl (Error (E_Protection target err)), (a, k), m)
     | (Inr guard, k) \<Rightarrow> do {
         site \<leftarrow> analyze (h_iced H) target (read_bytes m target DISASM_LEN);
         (case site of
            Inl e \<Rightarrow> Some (Inl (Error e), restored H guard ((a, k), m))
          | Inr site \<Rightarrow> do {
              (fast, pl) \<leftarrow> install_fast H target site ((a, k), m);
              (case fast of
                 Inl e \<Rightarrow> Some (Inl e, restored H guard pl)
               | Inr (Some i) \<Rightarrow> Some (Inr i, restored H guard pl)
               | Inr None \<Rightarrow> do {
                   (slow, pl) \<leftarrow> install_slow H target site pl;
                   Some (slow, restored H guard pl)
                 })
            })
       })"

partial_function (option) install_loop :: "('d, 'k) host \<Rightarrow> nat \<Rightarrow> 'k place \<Rightarrow> ((error + installer) \<times> 'k place) option" where
  "install_loop H target pl =
     Option.bind (install_turn H target pl) (\<lambda>(res, pl). (case res of
       Inr i \<Rightarrow> Some (Inr i, pl)
     | Inl (Error e) \<Rightarrow> Some (Inl e, pl)
     | Inl TryAgain \<Rightarrow> install_loop H target pl))"

definition install :: "('d, 'k) host \<Rightarrow> io_error + process_context \<Rightarrow> nat \<Rightarrow> 'k \<times> memory
    \<Rightarrow> ((error + installer) \<times> process_context option \<times> 'k \<times> memory) option" where
  "install H acquired target = (\<lambda>(k, m).
     case acquired of
       Inl e \<Rightarrow> Some (Inl (E_ProcessContext e), None, k, m)
     | Inr context \<Rightarrow> do {
         found \<leftarrow> get_thunk context target;
         (case found of
            Inr thunk \<Rightarrow> Some (Inr \<lparr>i_target = target, i_thunk = thunk\<rparr>, Some context, k, m)
          | Inl slot \<Rightarrow> do {
              (res, (a, k), m) \<leftarrow> install_loop H target ((pc_alloc context, k), m);
              let context = context\<lparr>pc_alloc := a\<rparr>;
              (case res of
                 Inl e \<Rightarrow> Some (Inl e, Some context, k, m)
               | Inr i \<Rightarrow> do {
                   context \<leftarrow> insert_thunk (h_vec_mmap H) (h_page H) context slot (i_thunk i);
                   Some (Inr i, Some context, k, m)
                 })
            })
       })"

section \<open>What an attempt leaves\<close>

text \<open>
  The system's contract: \<open>M\<close> is the memory the allocator has from the system; other threads change none
  of it but the code at the target, and suspending threads or changing protections maps nothing.
\<close>

definition host_ok :: "('d, 'k) host \<Rightarrow> ('k \<Rightarrow> nat set) \<Rightarrow> nat \<Rightarrow> bool" where
  "host_ok H M target \<longleftrightarrow>
     (\<forall>k m m' k'. h_other H k m = (m', k') \<longrightarrow> M k' = M k
        \<and> (\<forall>x \<in> M k. x < target \<or> target + DISASM_LEN \<le> x \<longrightarrow> m' x = m x))
     \<and> (\<forall>k relocs res k'. h_suspend H k relocs = (res, k') \<longrightarrow> M k' = M k)
     \<and> (\<forall>a n k res k'. pf_make_rwx (h_platform H) a n k = (res, k') \<longrightarrow> M k' = M k)
     \<and> (\<forall>p a n k res k'. pf_protect (h_platform H) p a n k = (res, k') \<longrightarrow> M k' = M k)"

text \<open>The blocks in use before: the code at the target and the blocks of other hooks.\<close>

definition held :: "nat \<Rightarrow> (nat \<times> nat) list \<Rightarrow> (nat \<times> nat) list" where
  "held target live = (target, target + DISASM_LEN) # live"

text \<open>The memory of the blocks in \<open>live\<close> is as it was.\<close>

definition keeps :: "(nat \<times> nat) list \<Rightarrow> memory \<Rightarrow> memory \<Rightarrow> bool" where
  "keeps live m m' \<longleftrightarrow> (\<forall>b \<in> set live. \<forall>x. fst b \<le> x \<and> x < snd b \<longrightarrow> m' x = m x)"

lemma keeps_refl [simp]: "keeps live m m"
  by (simp add: keeps_def)

lemma keeps_trans: "keeps live m m' \<Longrightarrow> keeps live m' m'' \<Longrightarrow> keeps live m m''"
  by (simp add: keeps_def)

lemma keeps_sub: "keeps live m m' \<Longrightarrow> set live' \<subseteq> set live \<Longrightarrow> keeps live' m m'"
  by (auto simp: keeps_def)

lemma keeps_write:
  assumes "\<And>b. b \<in> set live \<Longrightarrow> apart b (p, p + length bs)"
  shows "keeps live m (write_bytes p bs m)"
  unfolding keeps_def
proof (intro ballI allI impI)
  fix b x assume b: "b \<in> set live" "fst b \<le> x \<and> x < snd b"
  with assms [OF b(1)] show "write_bytes p bs m x = m x" by (intro write_bytes_outside) (auto simp: apart_def)
qed

lemma keeps_read: "keeps live m m' \<Longrightarrow> (p, p + n) \<in> set live \<Longrightarrow> read_bytes m' p n = read_bytes m p n"
  by (rule read_bytes_cong) (auto simp: keeps_def)

definition chain_ok :: "('d, 'k) host \<Rightarrow> ('k \<Rightarrow> nat set) \<Rightarrow> nat \<Rightarrow> (nat \<times> nat) list \<Rightarrow> hook_site \<Rightarrow> jmp_chain
    \<Rightarrow> byte list \<Rightarrow> 'k place \<Rightarrow> bool" where
  "chain_ok H M target live site jc code = (\<lambda>(al, m).
     encode_at (h_iced H) site (jc_trampoline jc) = Some (Inr (code, jc_relocs jc))
     \<and> jc_trampoline_len jc = length code \<and> read_bytes m (jc_trampoline jc) (length code) = code
     \<and> read_bytes m (jc_thunk jc) 16 = thunk_bytes (thunk_new (jc_trampoline jc)) \<and> jc_trampoline jc \<le> va_max
     \<and> jmp_rel_encode target (jc_thunk jc) = Some (jc_jmp_rel jc)
     \<and> (length code < MIN_RANGE_LEN \<longrightarrow> jc_trampoline jc + length code \<in> os_avail al)
     \<and> os_owned (h_platform H) M al
         (block_of (jc_trampoline jc) code @ (jc_thunk jc, jc_thunk jc + 16) # held target live))"

lemma THUNK_LAYOUT_ok [simp]: "layout_ok THUNK_LAYOUT" "layout_size THUNK_LAYOUT = 16"
  by (auto simp: layout_ok_def THUNK_LAYOUT_def intro: exI [of _ 3])

text \<open>The bytes of the blocks of a hook.\<close>

definition hook_bytes :: "nat \<Rightarrow> nat \<Rightarrow> byte list \<Rightarrow> nat set" where
  "hook_bytes thunk tramp code = {thunk..<thunk + 16} \<union> {tramp..<tramp + length code}"

text \<open>The thunk allocated, and given back.\<close>

lemma thunk_taken:
  assumes "os_owned P M al live" "os_alloc_near P THUNK_LAYOUT ptr start end al = Some (Inr (Some p), al1)"
  shows "spends M 1 {p..<p + 16} al live al1 ((p, p + 16) # live)"
proof -
  obtain q where q: "p < q + MIN_RANGE_LEN" "lost_bytes M al1 ((p, p + 16) # live) \<subseteq> lost_bytes M al live \<union> {q..<p}"
    using ex.alloc_exact [OF assms(1) _ _ assms(2)] by (auto simp: MIN_RANGE_LEN_def)
  show ?thesis by (rule spends_lost [OF q(2) scraps_range [OF q(1)]]) simp
qed

lemma thunk_back:
  assumes "os_owned P M al ((p, p + 16) # live)" "os_reclaim p 16 al = Some al'"
  shows "os_avail al' = os_avail al \<union> {p..<p + 16}" "lost_bytes M al' live \<subseteq> lost_bytes M al ((p, p + 16) # live)"
  using ex.free_exact [of P M al "[]" p 16 live al'] assms by (auto simp: MIN_RANGE_LEN_def)

lemma chain_build_cases:
  assumes own: "os_owned (h_platform H) M al (held target live)"
    and run: "chain_build H target site rng (al, m) = Some (res, pl)"
  obtains (Fails) "\<forall>jc. res \<noteq> Inr (Some jc)" "os_owned (h_platform H) M (fst pl) (held target live)" "snd pl = m"
      "spends M 2 (os_avail (fst pl)) al (held target live) (fst pl) (held target live)"
  | (Built) jc code where "res = Inr (Some jc)" "chain_ok H M target live site jc code pl" "keeps (held target live) m (snd pl)"
      "spends M 3 (os_avail (fst pl) \<union> hook_bytes (jc_thunk jc) (jc_trampoline jc) code) al (held target live) (fst pl)
        (block_of (jc_trampoline jc) code @ (jc_thunk jc, jc_thunk jc + 16) # held target live)"
proof -
  obtain th al1 where alloc: "os_alloc_near (h_platform H) THUNK_LAYOUT target (Included (fst rng)) (Included (snd rng)) al
      = Some (th, al1)"
    using run by (auto simp: chain_build_def bind_eq_Some_conv)
  note run = run [unfolded chain_build_def, simplified, unfolded alloc, simplified]
  show thesis
  proof (cases "\<exists>p. th = Inr (Some p)")
    case False
    then have own1: "os_owned (h_platform H) M al1 (held target live)" by (intro os.alloc_other [OF own _ _ alloc]) auto
    have "lost_bytes M al1 (held target live) \<subseteq> lost_bytes M al (held target live)"
      by (rule ex.other_exact [OF own _ _ alloc]) (use False in \<open>auto simp: MIN_RANGE_LEN_def\<close>)
    note spends_keeps [OF this, of 2]
    with run False own1 that(1) show thesis by (auto split: sum.splits option.splits)
  next
    case True
    then obtain p where p: "th = Inr (Some p)" by blast
    from os.alloc_some [OF own _ _ alloc [unfolded p]]
    have own1: "os_owned (h_platform H) M al1 ((p, p + 16) # held target live)" by simp
    note taken = thunk_taken [OF own alloc [unfolded p]]
    obtain rel al2 m2 where rel: "relocate (h_iced H) (h_platform H) site (al1, m) = Some (rel, al2, m2)"
      using run p by (auto simp: bind_eq_Some_conv)
    show thesis
    proof (cases rule: relocate_cases [OF own1 rel, case_names Moves_not Moves])
      case (Moves_not e)
      with run p rel obtain al3 where r: "os_reclaim p 16 al2 = Some al3" "res = Inl e" "pl = (al3, m)"
        by (auto simp: bind_eq_Some_conv)
      note b = thunk_back [OF Moves_not(2) r(1)]
      have "spends M 1 (os_avail al3) al1 ((p, p + 16) # held target live) al3 (held target live)"
        using spends_trans [OF spends_mono [OF Moves_not(4), of "os_avail al3" 1] spends_keeps [OF b(2), of 0]] b(1) by simp
      from spends_trans [OF spends_mono [OF taken, of "os_avail al3" 1] this] b(1)
      have "spends M 2 (os_avail al3) al (held target live) al3 (held target live)" by (simp add: numeral_2_eq_2)
      with r os.free_live [of "h_platform H" M al2 "[]" p 16] Moves_not(2) that(1) show thesis by simp
    next
      case (Moves t code mid mn mx)
      let ?m = "write_bytes p (thunk_bytes (thunk_new (tr_ptr t))) m2"
      obtain j where j: "jmp_rel_encode target p = Some j" "pl = (al2, ?m)"
          "res = Inr (Some \<lparr>jc_thunk = p, jc_jmp_rel = j, jc_trampoline = tr_ptr t, jc_trampoline_len = tr_len t,
            jc_relocs = tr_relocs t\<rparr>)"
        using run p rel Moves(1) by (auto simp: bind_eq_Some_conv)
      have th: "read_bytes ?m p 16 = thunk_bytes (thunk_new (tr_ptr t))" by (rule read_write_same) simp
      have "apart (p, p + 16) (tr_ptr t, tr_ptr t + length code)" by (rule Moves(11)) simp
      then have "read_bytes ?m (tr_ptr t) (length code) = read_bytes m2 (tr_ptr t) (length code)"
        by (intro read_write_apart) (auto simp: apart_def)
      also have "\<dots> = code" unfolding Moves(5) by (rule read_write_same) simp
      finally have code: "read_bytes ?m (tr_ptr t) (length code) = code" .
      have "keeps (held target live) m m2"
        unfolding Moves(5) by (rule keeps_write) (use Moves(11) in simp)
      moreover have "keeps (held target live) m2 ?m"
        by (rule keeps_write) (use os.owned_apart [OF own1] in \<open>auto intro: apart_sym\<close>)
      ultimately have "keeps (held target live) m ?m" by (rule keeps_trans)
      moreover have "tr_ptr t \<le> va_max" using Moves(8) by linarith
      moreover have "spends M 3 (os_avail al2 \<union> hook_bytes p (tr_ptr t) code) al (held target live) al2
          (block_of (tr_ptr t) code @ (p, p + 16) # held target live)"
        using spends_trans [OF spends_mono [OF taken] spends_mono [OF Moves(12)], of "os_avail al2 \<union> hook_bytes p (tr_ptr t) code" 1 2]
        by (auto simp: hook_bytes_def Moves(3) eval_nat_numeral)
      ultimately show thesis
        using that(2) [OF j(3), of code] th code Moves(2,3,6,13) j(1,2) by (simp add: chain_ok_def)
    qed
  qed
qed

text \<open>Where no thunk was allocated nothing was spent.\<close>

lemma chain_build_none:
  assumes own: "os_owned (h_platform H) M al (held target live)"
    and run: "chain_build H target site rng (al, m) = Some (Inr None, pl)"
  shows "spends M 0 {} al (held target live) (fst pl) (held target live)"
proof -
  obtain th al1 where th: "os_alloc_near (h_platform H) THUNK_LAYOUT target (Included (fst rng)) (Included (snd rng)) al
      = Some (th, al1)"
    using run by (auto simp: chain_build_def bind_eq_Some_conv)
  have "th = Inr None \<and> pl = (al1, m)"
  proof (cases "\<exists>p. th = Inr (Some p)")
    case True
    then obtain p rel al2 m2 where "th = Inr (Some p)" "relocate (h_iced H) (h_platform H) site (al1, m) = Some (rel, al2, m2)"
      using run th by (auto simp: chain_build_def bind_eq_Some_conv)
    with run th show ?thesis by (cases rel) (auto simp: chain_build_def bind_eq_Some_conv Let_def)
  next
    case False
    with run th show ?thesis by (auto simp: chain_build_def split: sum.splits option.splits)
  qed
  with th have alloc: "os_alloc_near (h_platform H) THUNK_LAYOUT target (Included (fst rng)) (Included (snd rng)) al
      = Some (Inr None, al1)" and pl: "pl = (al1, m)" by simp_all
  show ?thesis unfolding pl fst_conv
    by (rule spends_keeps [OF ex.other_exact [OF own _ _ alloc]]) (simp_all add: MIN_RANGE_LEN_def)
qed

lemma chain_reclaim_owned:
  assumes "chain_ok H M target live site jc code (al, m)" "chain_reclaim jc al = Some al'"
  shows "os_owned (h_platform H) M al' (held target live)"
    and "os_avail al' = os_avail al \<union> hook_bytes (jc_thunk jc) (jc_trampoline jc) code"
    and "lost_bytes M al' (held target live)
      \<subseteq> lost_bytes M al (block_of (jc_trampoline jc) code @ (jc_thunk jc, jc_thunk jc + 16) # held target live)"
proof -
  obtain al1 where r: "os_reclaim (jc_trampoline jc) (length code) al = Some al1" "os_reclaim (jc_thunk jc) 16 al1 = Some al'"
    using assms by (auto simp: chain_reclaim_def chain_ok_def bind_eq_Some_conv)
  let ?rest = "(jc_thunk jc, jc_thunk jc + 16) # held target live"
  have own: "os_owned (h_platform H) M al (block_of (jc_trampoline jc) code @ ?rest)"
    using assms(1) by (simp add: chain_ok_def)
  have first: "os_owned (h_platform H) M al1 ?rest
    \<and> os_avail al1 = os_avail al \<union> {jc_trampoline jc..<jc_trampoline jc + length code}
    \<and> lost_bytes M al1 ?rest \<subseteq> lost_bytes M al (block_of (jc_trampoline jc) code @ ?rest)"
  proof (cases "code = []")
    case True
    with own r(1) os.free_empty show ?thesis by (simp add: block_of_def os_reclaim_empty)
  next
    case False
    then have own: "os_owned (h_platform H) M al ([] @ (jc_trampoline jc, jc_trampoline jc + length code) # ?rest)"
      and "length code < MIN_RANGE_LEN \<longrightarrow> jc_trampoline jc + length code \<in> os_avail al"
      using own assms(1) by (simp_all add: block_of_def chain_ok_def)
    with ex.free_exact [OF own r(1)] os.free_live [OF own r(1)] False show ?thesis by (auto simp: block_of_def)
  qed
  note bk = thunk_back [OF _ r(2), of "h_platform H" M "held target live"]
  show "os_owned (h_platform H) M al' (held target live)"
    using os.free_live [of "h_platform H" M al1 "[]" "jc_thunk jc" 16 "held target live" al'] first r(2) by simp
  show "os_avail al' = os_avail al \<union> hook_bytes (jc_thunk jc) (jc_trampoline jc) code"
    using bk(1) first by (auto simp: hook_bytes_def)
  show "lost_bytes M al' (held target live) \<subseteq> lost_bytes M al (block_of (jc_trampoline jc) code @ ?rest)"
    using bk(2) first by blast
qed

lemma chain_undone:
  assumes "chain_ok H M target live site jc code (al, m)" "chain_reclaim jc al = Some al'"
    and "spends M 3 (os_avail al \<union> hook_bytes (jc_thunk jc) (jc_trampoline jc) code) al0 (held target live) al
      (block_of (jc_trampoline jc) code @ (jc_thunk jc, jc_thunk jc + 16) # held target live)"
  shows "spends M 3 (os_avail al') al0 (held target live) al' (held target live)"
  using spends_trans [OF assms(3) spends_keeps [OF chain_reclaim_owned(3) [OF assms(1,2)], of 0]]
  unfolding chain_reclaim_owned(2) [OF assms(1,2)] by simp

text \<open>What is not the target and in the blocks in use is not changed by other threads.\<close>

lemma other_keeps:
  assumes "host_ok H M target" "os_owned K M (a, k) live" "h_other H k m = (m', k')"
    and "\<And>b. b \<in> set live' \<Longrightarrow> b \<in> set live \<and> apart b (target, target + DISASM_LEN)"
  shows "keeps live' m m' \<and> M k' = M k"
proof -
  have "m' x = m x" if "b \<in> set live'" "fst b \<le> x" "x < snd b" for b x
  proof -
    have "backed (M k) b" using assms(2,4) that(1) by (auto simp: os_owned_def)
    then have "x \<in> M k" using that by (auto simp: backed_def)
    moreover have "x < target \<or> target + DISASM_LEN \<le> x" using assms(4) [OF that(1)] that by (auto simp: apart_def)
    ultimately show ?thesis using assms(1,3) by (auto simp: host_ok_def)
  qed
  with assms(1,3) show ?thesis by (auto simp: keeps_def host_ok_def)
qed

text \<open>A hook in place: the jumps lead to the trampoline, which holds the copy of the instructions.\<close>

definition in_place :: "('d, 'k) host \<Rightarrow> nat \<Rightarrow> hook_site \<Rightarrow> nat \<Rightarrow> nat \<Rightarrow> byte list \<Rightarrow> memory \<Rightarrow> bool" where
  "in_place H target site thunk tramp code m \<longleftrightarrow> m target = 0xe9 \<and> jump_target m target = Some thunk
     \<and> read_bytes m thunk 16 = thunk_bytes (thunk_new tramp) \<and> jump_target m thunk = Some tramp \<and> tramp \<le> va_max
     \<and> (\<exists>relocs. encode_at (h_iced H) site tramp = Some (Inr (code, relocs)))
     \<and> read_bytes m tramp (length code) = code \<and> read_bytes m (target + 5) 3 = take 3 (drop 5 (hs_bytes site))"

lemma try_detour_cases:
  assumes host: "host_ok H M target" and chain: "chain_ok H M target live site jc code pl"
    and len: "length (hs_bytes site) = DISASM_LEN" and run: "try_detour H target site jc pl = (ok, al', m')"
  shows "keeps live (snd pl) m'" and "chain_ok H M target live site jc code (al', m')"
    and "fst al' = fst (fst pl) \<and> M (snd al') = M (snd (fst pl))"
    and "ok \<Longrightarrow> in_place H target site (jc_thunk jc) (jc_trampoline jc) code m'"
proof -
  obtain a k m where pl: "pl = ((a, k), m)" by (metis surj_pair)
  note c = chain [unfolded pl chain_ok_def prod.case]
  obtain m1 k1 where other: "h_other H k m = (m1, k1)" by force
  have det: "detour (hs_bytes site) target (jc_jmp_rel jc) m1 = (ok, m')" and al': "al' = (a, k1)"
    using run pl other by (auto simp: try_detour_def Let_def split: prod.splits)
  let ?all = "block_of (jc_trampoline jc) code @ (jc_thunk jc, jc_thunk jc + 16) # held target live"
  let ?B = "block_of (jc_trampoline jc) code @ (jc_thunk jc, jc_thunk jc + 16) # live"
  have own: "os_owned (h_platform H) M (a, k) ?all" using c by simp
  have sep: "b \<in> set ?all \<and> apart b (target, target + DISASM_LEN)" if "b \<in> set ?B" for b
    using os.owned_apart [OF own] that by (auto simp: held_def sorted_wrt_append intro: apart_sym)
  have "keeps ?B m m1 \<and> M k1 = M k" by (rule other_keeps [OF host own other sep])
  then have k1: "keeps ?B m m1" "M k1 = M k" by simp_all
  have five: "5 \<le> DISASM_LEN" "8 \<le> DISASM_LEN" by (simp_all add: DISASM_LEN_def JMP_REL_LEN_def MAX_INSN_LEN_def)
  have k2: "keeps ?B m1 m'"
  proof (cases ok)
    case True
    with det have "m' = write_bytes target (jmp_rel_bytes (jc_jmp_rel jc)) m1" using detour_writes(2) [OF len] by simp
    moreover have "apart b (target, target + length (jmp_rel_bytes (jc_jmp_rel jc)))" if "b \<in> set ?B" for b
      using sep [OF that] five(1) by (auto simp: apart_def)
    ultimately show ?thesis using keeps_write [of ?B target "jmp_rel_bytes (jc_jmp_rel jc)" m1] by blast
  next
    case False
    with detour_cases [of "hs_bytes site" target "jc_jmp_rel jc" m1] det len five(2) have "m' = m1" by (auto split: if_splits)
    then show ?thesis by simp
  qed
  with k1(1) have kB: "keeps ?B m m'" by (rule keeps_trans)
  then show "keeps live (snd pl) m'" using keeps_sub [OF kB, of live] pl by auto
  have th: "read_bytes m' (jc_thunk jc) 16 = thunk_bytes (thunk_new (jc_trampoline jc))"
    using keeps_read [OF kB, of "jc_thunk jc" 16] c by simp
  have tr: "read_bytes m' (jc_trampoline jc) (length code) = code"
  proof (cases "code = []")
    case False
    then show ?thesis using keeps_read [OF kB, of "jc_trampoline jc" "length code"] c by (simp add: block_of_def)
  qed (simp add: read_bytes_def)
  show "chain_ok H M target live site jc code (al', m')"
    using c th tr al' own k1(2) os_owned_same [of "h_platform H" M a k ?all k1] by (simp add: chain_ok_def os_avail_def)
  show "fst al' = fst (fst pl) \<and> M (snd al') = M (snd (fst pl))" by (simp add: pl al' k1(2))
  assume ok
  with det have det: "detour (hs_bytes site) target (jc_jmp_rel jc) m1 = (True, m')" by simp
  note w = detour_writes [OF len det]
  have room: "target + DISASM_LEN \<le> va_max" "jc_thunk jc + 16 \<le> va_max"
    using os.owned_room [OF own, of "(target, target + DISASM_LEN)"] os.owned_room [OF own, of "(jc_thunk jc, jc_thunk jc + 16)"]
    by (simp_all add: held_def)
  then have "int target + 5 \<le> isize_max" "int (jc_thunk jc) \<le> isize_max" "jc_trampoline jc < usize_size"
    using five(1) c by (simp_all add: va_max_def usize_defs)
  note e = jmp_rel_encode_Some [of target "jc_thunk jc" "jc_jmp_rel jc", OF _ this(1,2)]
  have j: "jmp_rel_encode target (jc_thunk jc) = Some (jc_jmp_rel jc)" using c by simp
  have "read_bytes m' target 5 = jmp_rel_bytes (jmp_rel_new (int (jc_thunk jc) - (int target + 5)))"
    unfolding w(2) e(1) [OF j] by (rule read_write_same) simp
  note jmp = this
  from jmp_rel_lands [OF jmp e(2,3) [OF j]] have "jump_target m' target = Some (jc_thunk jc)" by simp
  moreover have "m' target = 0xe9"
    using arg_cong [OF jmp, of hd] by (simp add: read_bytes_def jmp_rel_bytes_def jmp_rel_new_def hd_map)
  moreover have "jump_target m' (jc_thunk jc) = Some (jc_trampoline jc)"
    by (rule thunk_lands [OF th]) fact
  moreover have "read_bytes m' (target + 5) 3 = take 3 (drop 5 (hs_bytes site))"
  proof -
    have "read_bytes m' (target + 5) 3 = read_bytes m1 (target + 5) 3"
      unfolding w(2) by (rule read_write_apart) simp
    also have "\<dots> = drop 5 (read_bytes m1 target 8)" by (simp add: read_bytes_drop)
    also have "\<dots> = take 3 (drop 5 (hs_bytes site))" unfolding w(1) by (simp add: drop_take)
    finally show ?thesis .
  qed
  ultimately show "in_place H target site (jc_thunk jc) (jc_trampoline jc) code m'"
    using c tr th by (auto simp: in_place_def)
qed

text \<open>
  What an attempt that starts at \<open>start\<close> leaves, as the result says. Nothing of the memory of the allocator
  is lost but scraps: the padding in front of the thunk and of the buffer, and the end of the buffer when it
  is too short to be recorded.
\<close>

definition left_by :: "('d, 'k) host \<Rightarrow> ('k \<Rightarrow> nat set) \<Rightarrow> nat \<Rightarrow> (nat \<times> nat) list \<Rightarrow> hook_site \<Rightarrow> installer option
    \<Rightarrow> 'k place \<Rightarrow> 'k place \<Rightarrow> bool" where
  "left_by H M target live site res start pl \<longleftrightarrow> keeps live (snd start) (snd pl) \<and>
     (case res of
        None \<Rightarrow> os_owned (h_platform H) M (fst pl) (held target live)
          \<and> spends M 3 (os_avail (fst pl)) (fst start) (held target live) (fst pl) (held target live)
      | Some i \<Rightarrow> (\<exists>thunk tramp code. i = \<lparr>i_target = target, i_thunk = thunk + THUNK_PTR\<rparr>
          \<and> in_place H target site thunk tramp code (snd pl)
          \<and> os_owned (h_platform H) M (fst pl) (block_of tramp code @ (thunk, thunk + 16) # held target live)
          \<and> spends M 3 (os_avail (fst pl) \<union> hook_bytes thunk tramp code) (fst start) (held target live)
              (fst pl) (block_of tramp code @ (thunk, thunk + 16) # held target live)))"

lemma left_by_none:
  "left_by H M target live site None start pl \<longleftrightarrow> keeps live (snd start) (snd pl)
     \<and> os_owned (h_platform H) M (fst pl) (held target live)
     \<and> spends M 3 (os_avail (fst pl)) (fst start) (held target live) (fst pl) (held target live)"
  by (simp add: left_by_def)

lemma left_by_chain:
  assumes "chain_ok H M target live site jc code pl" "in_place H target site (jc_thunk jc) (jc_trampoline jc) code (snd pl)"
    and "keeps live (snd start) (snd pl)"
    and "spends M 3 (os_avail (fst pl) \<union> hook_bytes (jc_thunk jc) (jc_trampoline jc) code) (fst start) (held target live) (fst pl)
      (block_of (jc_trampoline jc) code @ (jc_thunk jc, jc_thunk jc + 16) # held target live)"
  shows "left_by H M target live site (Some (erased_installer target jc)) start pl"
proof -
  obtain al m' where pl: "pl = (al, m')" by (metis surj_pair)
  with assms show ?thesis by (auto simp: left_by_def erased_installer_def chain_ok_def)
qed

lemma left_by_undone:
  assumes "chain_ok H M target live site jc code (al, m)" "chain_reclaim jc al = Some al'" "keeps live (snd start) m"
    and "spends M 3 (os_avail al \<union> hook_bytes (jc_thunk jc) (jc_trampoline jc) code) (fst start) (held target live) al
      (block_of (jc_trampoline jc) code @ (jc_thunk jc, jc_thunk jc + 16) # held target live)"
  shows "left_by H M target live site None start (al', m)"
  using chain_reclaim_owned(1) [OF assms(1,2)] chain_undone [OF assms(1,2,4)] assms(3) by (simp add: left_by_none)

lemma left_by_after:
  assumes "left_by H M target live site res (al1, m1) pl" "keeps live m m1"
    and "spends M 0 {} al (held target live) al1 (held target live)"
  shows "left_by H M target live site res (al, m) pl"
proof -
  have "spends M 3 F al (held target live) s new" if "spends M 3 F al1 (held target live) s new" for F s new
    using spends_trans [OF spends_mono [OF assms(3), of F 0] that] by simp
  moreover obtain a2 k2 m2 where "pl = ((a2, k2), m2)" by (metis surj_pair)
  ultimately show ?thesis using assms(1) keeps_trans [OF assms(2)]
    by (cases res) (simp_all add: left_by_def, metis)
qed

text \<open>Nothing is lost while only other parts of the system move.\<close>

lemma spends_moved:
  assumes "fst al' = fst al" "M (snd al') = M (snd al)" "spends M n (os_avail al \<union> B) start live al new"
  shows "spends M n (os_avail al' \<union> B) start live al' new"
  using assms spends_same(1) [of M "snd al'" "snd al" n "os_avail al \<union> B" start live "fst al" new]
  by (cases al; cases al') (simp add: os_avail_def)

lemma keeps_held: "keeps (held target live) m m' \<Longrightarrow> keeps live m m'"
  by (auto simp: keeps_def held_def)

lemma install_fast_left:
  assumes host: "host_ok H M target" and own: "os_owned (h_platform H) M al (held target live)"
    and len: "length (hs_bytes site) = DISASM_LEN" and run: "install_fast H target site (al, m) = Some (res, pl)"
  shows "left_by H M target live site (case res of Inr i \<Rightarrow> i | Inl _ \<Rightarrow> None) (al, m) pl"
    and "res = Inr None \<Longrightarrow> spends M 0 {} al (held target live) (fst pl) (held target live)"
proof -
  obtain first rng where pre: "slice_get (hs_insns site) 0 = Some first" "short_encoding_range (hs_bytes site) (in_len first) = Some rng"
    using run by (auto simp: install_fast_def bind_eq_Some_conv Let_def)
  obtain ch pl1 where ch: "chain_build H target site rng (al, m) = Some (ch, pl1)"
    using run pre by (cases "chain_build H target site rng (al, m)") (auto simp: install_fast_def Let_def)
  have "left_by H M target live site (case res of Inr i \<Rightarrow> i | Inl _ \<Rightarrow> None) (al, m) pl
    \<and> (res = Inr None \<longrightarrow> ch = Inr None \<and> pl = pl1)"
  proof (cases rule: chain_build_cases [OF own ch, case_names Fails Built])
    case Fails
    then have "pl = pl1 \<and> (\<forall>i. res \<noteq> Inr (Some i)) \<and> (res = Inr None \<longrightarrow> ch = Inr None)"
      using run ch pre by (auto simp: install_fast_def bind_eq_Some_conv Let_def split: sum.splits option.splits if_splits)
    with Fails spends_mono [OF Fails(4), of _ 3] show ?thesis
      by (auto simp: left_by_def split: sum.splits option.splits)
  next
    case (Built jc code)
    obtain ok al2 m2 where det: "try_detour H target site jc pl1 = (ok, al2, m2)" by (metis surj_pair)
    note d = try_detour_cases [OF host Built(2) len det]
    have k: "keeps live m m2" using keeps_trans [OF keeps_held [OF Built(3)] d(1)] .
    note sp = spends_moved [OF conjunct1 [OF d(3)] conjunct2 [OF d(3)] Built(4)]
    show ?thesis
    proof (cases ok)
      case True
      then have "res = Inr (Some (erased_installer target jc))" "pl = (al2, m2)"
        using run ch pre Built(1) det by (auto simp: install_fast_def bind_eq_Some_conv Let_def)
      with left_by_chain [OF d(2), of "(al, m)"] d(4) True k sp show ?thesis by simp
    next
      case False
      then obtain al3 where r: "chain_reclaim jc al2 = Some al3" "res = Inl TryAgain" "pl = (al3, m2)"
        using run ch pre Built(1) det by (auto simp: install_fast_def bind_eq_Some_conv Let_def)
      with left_by_undone [OF d(2) r(1), of "(al, m)"] k sp show ?thesis by simp
    qed
  qed
  then show "left_by H M target live site (case res of Inr i \<Rightarrow> i | Inl _ \<Rightarrow> None) (al, m) pl"
    and "res = Inr None \<Longrightarrow> spends M 0 {} al (held target live) (fst pl) (held target live)"
    using chain_build_none [OF own] ch by auto
qed

lemma install_slow_left:
  assumes host: "host_ok H M target" and own: "os_owned (h_platform H) M al (held target live)"
    and len: "length (hs_bytes site) = DISASM_LEN" and run: "install_slow H target site (al, m) = Some (res, pl)"
  shows "left_by H M target live site (case res of Inr i \<Rightarrow> Some i | Inl _ \<Rightarrow> None) (al, m) pl"
proof -
  obtain ch pl1 where ch: "chain_build H target site JMP_REL_RANGE (al, m) = Some (ch, pl1)"
    using run by (auto simp: install_slow_def bind_eq_Some_conv)
  show ?thesis
  proof (cases rule: chain_build_cases [OF own ch, case_names Fails Built])
    case Fails
    then have "pl = pl1 \<and> (\<forall>i. res \<noteq> Inr i)"
      using run ch by (auto simp: install_slow_def bind_eq_Some_conv split: sum.splits option.splits)
    with Fails spends_mono [OF Fails(4), of _ 3] show ?thesis by (auto simp: left_by_def split: sum.splits)
  next
    case (Built jc code)
    obtain a k m1 where pl1: "pl1 = ((a, k), m1)" by (metis surj_pair)
    obtain sus k2 where sus: "h_suspend H k (jc_relocs jc) = (sus, k2)" by force
    have Mk: "M k2 = M k" using host sus unfolding host_ok_def by blast
    with Built(2) os_owned_same [of "h_platform H" M a k _ k2]
    have chain: "chain_ok H M target live site jc code ((a, k2), m1)" by (simp add: pl1 chain_ok_def os_avail_def)
    have k1: "keeps live m m1" using keeps_held [OF Built(3)] by (simp add: pl1)
    have sp1: "spends M 3 (os_avail (a, k2) \<union> hook_bytes (jc_thunk jc) (jc_trampoline jc) code) al (held target live) (a, k2)
        (block_of (jc_trampoline jc) code @ (jc_thunk jc, jc_thunk jc + 16) # held target live)"
      by (rule spends_moved [OF _ _ Built(4)]) (simp_all add: pl1 Mk)
    show ?thesis
    proof (cases sus)
      case (Inl e)
      then obtain al3 where r: "chain_reclaim jc (a, k2) = Some al3" "res = Inl (Error (E_Suspend e))" "pl = (al3, m1)"
        using run ch Built(1) sus pl1 by (auto simp: install_slow_def suspend_and_detour_def bind_eq_Some_conv)
      with left_by_undone [OF chain r(1), of "(al, m)"] k1 sp1 show ?thesis by simp
    next
      case (Inr u)
      obtain ok al2 m2 where det: "try_detour H target site jc ((a, k2), m1) = (ok, al2, m2)" by (metis surj_pair)
      note d = try_detour_cases [OF host chain len det]
      have k: "keeps live m m2" using keeps_trans [OF k1] d(1) by simp
      have sp: "spends M 3 (os_avail al2 \<union> hook_bytes (jc_thunk jc) (jc_trampoline jc) code) al (held target live) al2
          (block_of (jc_trampoline jc) code @ (jc_thunk jc, jc_thunk jc + 16) # held target live)"
        by (rule spends_moved [OF _ _ sp1]) (use d(3) in simp_all)
      show ?thesis
      proof (cases ok)
        case True
        then have "res = Inr (erased_installer target jc)" "pl = (al2, m2)"
          using run ch Built(1) sus Inr pl1 det by (auto simp: install_slow_def suspend_and_detour_def bind_eq_Some_conv)
        with left_by_chain [OF d(2), of "(al, m)"] d(4) True k sp show ?thesis by simp
      next
        case False
        then obtain al3 where r: "chain_reclaim jc al2 = Some al3" "res = Inl TryAgain" "pl = (al3, m2)"
          using run ch Built(1) sus Inr pl1 det by (auto simp: install_slow_def suspend_and_detour_def bind_eq_Some_conv)
        with left_by_undone [OF d(2) r(1), of "(al, m)"] k sp show ?thesis by simp
      qed
    qed
  qed
qed

lemma left_by_moved:
  assumes "left_by H M target live site res ((a, k), m) ((a', k'), m')" "M k1 = M k" "M k2 = M k'"
  shows "left_by H M target live site res ((a, k1), m) ((a', k2), m')"
  using assms(1) os_owned_same [of "h_platform H" M a' k' _ k2] assms(3)
  by (cases res) (auto simp: left_by_def os_avail_def spends_same(1) [of M k2 k', OF assms(3)] spends_same(2) [of M k1 k, OF assms(2)])

lemma left_by_restored:
  assumes "host_ok H M target" "left_by H M target live site res start pl"
  shows "left_by H M target live site res start (restored H guard pl)"
proof -
  obtain a k m a' k' m' where pl: "start = ((a, k), m)" "pl = ((a', k'), m')" by (metis surj_pair)
  have "M (snd (pf_protect (h_platform H) p x n k)) = M k" for p x n k
    using assms(1) unfolding host_ok_def by (metis prod.collapse)
  then have "M (snd (guard_restore (h_platform H) guard k')) = M k'"
    by (simp add: guard_restore_def split: option.split)
  with left_by_moved [OF assms(2) [unfolded pl], of k] show ?thesis by (simp add: pl restored_def)
qed

lemma make_rwx_maps_nothing: "host_ok H M target \<Longrightarrow> pf_make_rwx (h_platform H) p n k = (res, k') \<Longrightarrow> M k' = M k"
  by (auto simp: host_ok_def)

lemma analyze_bytes:
  assumes "analyze C addr bytes = Some (Inr site)"
  shows "hs_bytes site = bytes"
proof -
  obtain dec where dec: "decode_instructions C addr bytes = Some dec"
    using assms by (auto simp: analyze_def bind_eq_Some_conv)
  with assms obtain insns where d: "decode_instructions C addr bytes = Some (Inr insns)"
    by (cases dec) (simp_all add: analyze_def)
  obtain s0 n c where loop: "analyze_loop (takeWhile (\<lambda>i. \<not> is_invalid i) insns)
      \<lparr>hs_bytes = bytes, hs_insns = insns, min_rel_addr = usize_max, max_rel_addr = 0,
       target_addr = addr, trampoline_target_addr = addr, will_branch = False\<rparr> 0 0 = (s0, n, c)" by (metis prod_cases3)
  from analyze_loop_spec [OF loop] have "hs_bytes s0 = bytes" by (simp add: site_grows_def)
  with assms d loop show ?thesis
    by (auto simp: analyze_def bind_eq_Some_conv Let_def note_rel_def split: if_splits)
qed

text \<open>The result of an attempt: some site was analyzed and its hook is in place, or nothing is left.\<close>

definition installs :: "('d, 'k) host \<Rightarrow> ('k \<Rightarrow> nat set) \<Rightarrow> nat \<Rightarrow> (nat \<times> nat) list \<Rightarrow> installer option \<Rightarrow> 'k place
    \<Rightarrow> 'k place \<Rightarrow> bool" where
  "installs H M target live res start pl \<longleftrightarrow> (\<exists>site. left_by H M target live site res start pl
     \<and> (res \<noteq> None \<longrightarrow> analyze (h_iced H) target (hs_bytes site) = Some (Inr site)))"

lemma installs_none:
  "installs H M target live None start pl \<longleftrightarrow> keeps live (snd start) (snd pl)
     \<and> os_owned (h_platform H) M (fst pl) (held target live)
     \<and> spends M 3 (os_avail (fst pl)) (fst start) (held target live) (fst pl) (held target live)"
  by (simp add: installs_def left_by_none)

lemma install_turn_installs:
  assumes host: "host_ok H M target" and own: "os_owned (h_platform H) M (fst start) (held target live)"
    and run: "install_turn H target start = Some (res, pl)"
  shows "installs H M target live (case res of Inr i \<Rightarrow> Some i | Inl _ \<Rightarrow> None) start pl"
proof -
  obtain a k m where start: "start = ((a, k), m)" by (metis surj_pair)
  note own = own [unfolded start fst_conv] and run = run [unfolded start]
  obtain rwx k1 where rwx: "pf_make_rwx (h_platform H) target DISASM_LEN k = (rwx, k1)" by force
  have same: "M k1 = M k" by (rule make_rwx_maps_nothing [OF host rwx])
  have own1: "os_owned (h_platform H) M (a, k1) (held target live)" by (rule os_owned_same [OF own same])
  have from_start: "left_by H M target live site r start pl'" if "left_by H M target live site r ((a, k1), m) pl'" for site r pl'
  proof -
    obtain a' k' m' where pl': "pl' = ((a', k'), m')" by (metis surj_pair)
    from left_by_moved [OF that [unfolded pl'] same [symmetric] refl] show ?thesis by (simp add: start pl')
  qed
  have none: "left_by H M target live undefined None ((a, k1), m) ((a, k1), m)"
    using own1 by (simp add: left_by_none spends_keeps)
  have fails: "installs H M target live None start (restored H guard ((a, k1), m))" for guard
    using left_by_restored [OF host from_start [OF none]] unfolding installs_def by blast
  show ?thesis
  proof (cases rwx)
    case (Inl e)
    with run rwx from_start [OF none] show ?thesis by (auto simp: install_turn_def installs_def)
  next
    case (Inr guard)
    let ?bytes = "read_bytes m target DISASM_LEN"
    obtain an where an: "analyze (h_iced H) target ?bytes = Some an"
      using run rwx Inr by (auto simp: install_turn_def bind_eq_Some_conv)
    show ?thesis
    proof (cases an)
      case (Inl e)
      with run rwx \<open>rwx = Inr guard\<close> an fails show ?thesis by (auto simp: install_turn_def)
    next
      case (Inr site)
      have site: "hs_bytes site = ?bytes" using analyze_bytes an Inr by blast
      have len: "length (hs_bytes site) = DISASM_LEN" by (simp add: site)
      have fin: "installs H M target live r start (restored H guard pl')"
        if "left_by H M target live site r ((a, k1), m) pl'" for r pl'
        using left_by_restored [OF host from_start [OF that]] an Inr site unfolding installs_def
        by (intro exI [of _ site]) simp
      obtain fast pl1 where fast: "install_fast H target site ((a, k1), m) = Some (fast, pl1)"
        using run rwx \<open>rwx = Inr guard\<close> an Inr by (auto simp: install_turn_def bind_eq_Some_conv)
      note f = install_fast_left [OF host own1 len fast]
      show ?thesis
      proof (cases "fast = Inr None")
        case False
        with run rwx \<open>rwx = Inr guard\<close> an Inr fast fin [OF f(1)] show ?thesis
          by (auto simp: install_turn_def split: sum.splits option.splits)
      next
        case True
        obtain al m1 where pl1: "pl1 = (al, m1)" by (metis surj_pair)
        obtain slow pl2 where slow: "install_slow H target site pl1 = Some (slow, pl2)"
          using run rwx \<open>rwx = Inr guard\<close> an Inr fast True by (auto simp: install_turn_def bind_eq_Some_conv)
        have own2: "os_owned (h_platform H) M al (held target live)" and k: "keeps live m m1"
          using f(1) True by (simp_all add: left_by_none pl1)
        from left_by_after [OF install_slow_left [OF host own2 len slow [unfolded pl1]] k] f(2) [OF True]
        have "left_by H M target live site (case slow of Inr i \<Rightarrow> Some i | Inl _ \<Rightarrow> None) ((a, k1), m) pl2"
          by (simp add: pl1)
        from fin [OF this] run rwx \<open>rwx = Inr guard\<close> an Inr fast True slow show ?thesis
          by (auto simp: install_turn_def)
      qed
    qed
  qed
qed

text \<open>
  An attempt that is to be repeated keeps no block, and what it allocated can be allocated again, but for
  scraps. The loop is a number of these, and one that succeeds or fails for good.
\<close>

definition again :: "('d, 'k) host \<Rightarrow> ('k \<Rightarrow> nat set) \<Rightarrow> nat \<Rightarrow> (nat \<times> nat) list \<Rightarrow> 'k place \<Rightarrow> 'k place \<Rightarrow> bool" where
  "again H M target live pl pl' \<longleftrightarrow> install_turn H target pl = Some (Inl TryAgain, pl')
     \<and> os_owned (h_platform H) M (fst pl') (held target live)
     \<and> scraps 3 (free_bytes (fst (fst pl'))) (lost_bytes M (fst pl') (held target live) - lost_bytes M (fst pl) (held target live))"

definition loop_installs :: "('d, 'k) host \<Rightarrow> nat \<Rightarrow> 'k place \<Rightarrow> (error + installer) \<times> 'k place \<Rightarrow> bool" where
  "loop_installs H target start y \<longleftrightarrow> (\<forall>M live. host_ok H M target \<longrightarrow>
     os_owned (h_platform H) M (fst start) (held target live) \<longrightarrow>
     (\<exists>pl. (again H M target live)\<^sup>*\<^sup>* start pl \<and> keeps live (snd start) (snd pl)
        \<and> install_turn H target pl = Some (case fst y of Inl e \<Rightarrow> Inl (Error e) | Inr i \<Rightarrow> Inr i, snd y)
        \<and> installs H M target live (case fst y of Inr i \<Rightarrow> Some i | Inl _ \<Rightarrow> None) pl (snd y)))"

lemma loop_installsD:
  assumes "loop_installs H target start y" "host_ok H M target" "os_owned (h_platform H) M (fst start) (held target live)"
  obtains pl where "(again H M target live)\<^sup>*\<^sup>* start pl" "keeps live (snd start) (snd pl)"
    "install_turn H target pl = Some (case fst y of Inl e \<Rightarrow> Inl (Error e) | Inr i \<Rightarrow> Inr i, snd y)"
    "installs H M target live (case fst y of Inr i \<Rightarrow> Some i | Inl _ \<Rightarrow> None) pl (snd y)"
  using assms unfolding loop_installs_def by blast

lemma install_body_installs:
  fixes H :: "('d, 'k) host"
  assumes IH: "\<And>pl y. loop pl = Some y \<Longrightarrow> loop_installs H target pl y"
    and body: "Option.bind (install_turn H target start) (\<lambda>(res, pl). (case res of
       Inr i \<Rightarrow> Some (Inr i, pl)
     | Inl (Error e) \<Rightarrow> Some (Inl e, pl)
     | Inl TryAgain \<Rightarrow> loop pl)) = Some y"
  shows "loop_installs H target start y"
  unfolding loop_installs_def
proof (intro allI impI)
  fix M :: "'k \<Rightarrow> nat set" and live
  assume host: "host_ok H M target" and own: "os_owned (h_platform H) M (fst start) (held target live)"
  obtain res pl1 where turn: "install_turn H target start = Some (res, pl1)" using body by (auto simp: bind_eq_Some_conv)
  note t = install_turn_installs [OF host own turn]
  show "\<exists>pl. (again H M target live)\<^sup>*\<^sup>* start pl \<and> keeps live (snd start) (snd pl)
        \<and> install_turn H target pl = Some (case fst y of Inl e \<Rightarrow> Inl (Error e) | Inr i \<Rightarrow> Inr i, snd y)
        \<and> installs H M target live (case fst y of Inr i \<Rightarrow> Some i | Inl _ \<Rightarrow> None) pl (snd y)"
  proof (cases "res = Inl TryAgain")
    case True
    with body turn have "loop pl1 = Some y" by simp
    have one: "again H M target live start pl1" "keeps live (snd start) (snd pl1)"
      using t turn True by (simp_all add: again_def installs_none spends_def os_avail_def)
    then have "os_owned (h_platform H) M (fst pl1) (held target live)" by (simp add: again_def)
    from loop_installsD [OF IH [OF \<open>loop pl1 = Some y\<close>] host this] obtain pl where "(again H M target live)\<^sup>*\<^sup>* pl1 pl" "keeps live (snd pl1) (snd pl)"
        "install_turn H target pl = Some (case fst y of Inl e \<Rightarrow> Inl (Error e) | Inr i \<Rightarrow> Inr i, snd y)"
        "installs H M target live (case fst y of Inr i \<Rightarrow> Some i | Inl _ \<Rightarrow> None) pl (snd y)" .
    with one keeps_trans [OF one(2)] show ?thesis by (meson converse_rtranclp_into_rtranclp)
  next
    case False
    with body turn have "(\<exists>i. res = Inr i \<and> y = (Inr i, pl1)) \<or> (\<exists>e. res = Inl (Error e) \<and> y = (Inl e, pl1))"
      by (auto split: sum.splits install_error.splits)
    with t turn show ?thesis by (intro exI [of _ start]) auto
  qed
qed

lemma install_loop_installs:
  assumes "install_loop H target pl = Some y"
  shows "loop_installs H target pl y"
  by (rule install_loop.raw_induct [where P = "\<lambda>H target pl y. loop_installs H target pl y", OF _ assms])
    (rule install_body_installs, assumption+)

section \<open>Properties\<close>

lemma thunks_other_alloc [simp]:
  "thunks_inv mm page (c\<lparr>pc_alloc := a\<rparr>) = thunks_inv mm page c" "thunk_map (c\<lparr>pc_alloc := a\<rparr>) = thunk_map c"
  "get_thunk (c\<lparr>pc_alloc := a\<rparr>) target = get_thunk c target"
  by (simp_all add: thunks_inv_def thunk_map_def get_thunk_def)

text \<open>
  \<open>tried\<close>: after any number of attempts that keep nothing, the last one ends with \<open>res\<close> and the new blocks
  \<open>new\<close>, and every byte of the allocator's memory that is then neither free nor in use, and was before the
  attempt, is a scrap.
\<close>

definition tried :: "('d, 'k) host \<Rightarrow> ('k \<Rightarrow> nat set) \<Rightarrow> nat \<Rightarrow> (nat \<times> nat) list \<Rightarrow> 'k place
    \<Rightarrow> install_error + installer \<Rightarrow> (nat \<times> nat) list \<Rightarrow> 'k place \<Rightarrow> bool" where
  "tried H M target live start res new end \<longleftrightarrow> (\<exists>pl. (again H M target live)\<^sup>*\<^sup>* start pl
     \<and> install_turn H target pl = Some (res, end)
     \<and> scraps 3 (free_bytes (fst (fst end)) \<union> (\<Union>b \<in> set new. {fst b..<snd b}))
         (lost_bytes M (fst end) (new @ held target live) - lost_bytes M (fst pl) (held target live)))"

lemma hook_bytes_blocks:
  "hook_bytes thunk tramp code = (\<Union>b \<in> set (block_of tramp code @ [(thunk, thunk + 16)]). {fst b..<snd b})"
  by (auto simp: hook_bytes_def block_of_def)

lemma install_exact:
  assumes "host_ok H M target" "thunks_inv (h_vec_mmap H) (h_page H) c"
    and "os_owned (h_platform H) M (pc_alloc c, k) (held target live)"
    and "install H (Inr c) target (k, m) = Some (res, Some c', k', m')"
  shows "thunks_inv (h_vec_mmap H) (h_page H) c' \<and> keeps live m m' \<and>
    (\<exists>f. thunk_map c = Some f \<and>
      (case res of
         Inl e \<Rightarrow> thunk_map c' = Some f \<and> os_owned (h_platform H) M (pc_alloc c', k') (held target live)
           \<and> tried H M target live ((pc_alloc c, k), m) (Inl (Error e)) [] ((pc_alloc c', k'), m')
       | Inr i \<Rightarrow> i_target i = target \<and>
           (case f target of
              Some thunk \<Rightarrow> i_thunk i = thunk \<and> c' = c \<and> k' = k \<and> m' = m
            | None \<Rightarrow> thunk_map c' = Some (f(target \<mapsto> i_thunk i)) \<and>
                (\<exists>site thunk tramp code. i_thunk i = thunk + THUNK_PTR
                  \<and> analyze (h_iced H) target (hs_bytes site) = Some (Inr site)
                  \<and> in_place H target site thunk tramp code m'
                  \<and> os_owned (h_platform H) M (pc_alloc c', k')
                      (block_of tramp code @ (thunk, thunk + 16) # held target live)
                  \<and> tried H M target live ((pc_alloc c, k), m) (Inr i) (block_of tramp code @ [(thunk, thunk + 16)])
                      ((pc_alloc c', k'), m')))))"
proof (cases rule: get_thunk_correct [OF assms(2), of target, case_names Hooked Slot])
  case (Hooked thunk f)
  with assms(2,4) show ?thesis by (auto simp: install_def)
next
  case (Slot slot ts)
  obtain r a k1 m1 where loop: "install_loop H target ((pc_alloc c, k), m) = Some (r, (a, k1), m1)"
    using assms(4) Slot(1) by (auto simp: install_def bind_eq_Some_conv)
  let ?r = "case r of Inl e \<Rightarrow> Inl (Error e) | Inr i \<Rightarrow> Inr i"
  have "os_owned (h_platform H) M (fst ((pc_alloc c, k), m)) (held target live)" using assms(3) by simp
  from loop_installsD [OF install_loop_installs [OF loop] assms(1) this] obtain pl where
    tries: "(again H M target live)\<^sup>*\<^sup>* ((pc_alloc c, k), m) pl" "install_turn H target pl = Some (?r, (a, k1), m1)"
    and k: "keeps live m (snd pl)"
    and i: "installs H M target live (case r of Inr i \<Rightarrow> Some i | Inl _ \<Rightarrow> None) pl ((a, k1), m1)"
    unfolding fst_conv snd_conv .
  obtain f where f: "thunk_map c = Some f" "f target = None"
    using Slot(3,6) by (auto simp: thunk_map_def map_of_eq_None_iff image_image)
  show ?thesis
  proof (cases r)
    case (Inl e)
    with assms(4) Slot(1) loop have res: "res = Inl e" "c' = c\<lparr>pc_alloc := a\<rparr>" "k' = k1" "m' = m1"
      by (auto simp: install_def)
    from i Inl have n: "keeps live (snd pl) m1" "os_owned (h_platform H) M (a, k1) (held target live)"
        "spends M 3 (os_avail (a, k1)) (fst pl) (held target live) (a, k1) (held target live)"
      by (simp_all add: installs_none)
    then have "tried H M target live ((pc_alloc c, k), m) (Inl (Error e)) [] ((a, k1), m1)"
      using tries Inl unfolding tried_def by (intro exI [of _ pl]) (simp add: spends_def os_avail_def)
    with n res f assms(2) keeps_trans [OF k n(1)] show ?thesis by simp
  next
    case (Inr inst)
    with assms(4) Slot(1) loop have res: "res = Inr inst" "k' = k1" "m' = m1"
      and ins: "insert_thunk (h_vec_mmap H) (h_page H) (c\<lparr>pc_alloc := a\<rparr>) slot (i_thunk inst) = Some c'"
      by (auto simp: install_def bind_eq_Some_conv)
    have "get_thunk (c\<lparr>pc_alloc := a\<rparr>) target = Some (Inl slot)" using Slot(1) by simp
    from insert_thunk_correct [OF _ this ins] assms(2) f
    have c': "thunks_inv (h_vec_mmap H) (h_page H) c'" "thunk_map c' = Some (f(target \<mapsto> i_thunk inst))" "pc_alloc c' = a"
      by force+
    from i Inr obtain site thunk tramp code where
      hook: "analyze (h_iced H) target (hs_bytes site) = Some (Inr site)" "keeps live (snd pl) m1"
        "inst = \<lparr>i_target = target, i_thunk = thunk + THUNK_PTR\<rparr>" "in_place H target site thunk tramp code m1"
        "os_owned (h_platform H) M (a, k1) (block_of tramp code @ (thunk, thunk + 16) # held target live)"
      and sp: "spends M 3 (os_avail (a, k1) \<union> hook_bytes thunk tramp code) (fst pl) (held target live) (a, k1)
        (block_of tramp code @ (thunk, thunk + 16) # held target live)"
      by (auto simp: installs_def left_by_def)
    have "tried H M target live ((pc_alloc c, k), m) (Inr inst) (block_of tramp code @ [(thunk, thunk + 16)]) ((a, k1), m1)"
      using tries Inr sp unfolding tried_def hook_bytes_blocks [symmetric]
      by (intro exI [of _ pl]) (simp add: spends_def os_avail_def)
    moreover have "i_target inst = target" "i_thunk inst = thunk + THUNK_PTR" using hook(3) by simp_all
    ultimately show ?thesis using c' hook res f keeps_trans [OF k hook(2)] by (simp add: exI [of _ site]) blast
  qed
qed

lemma install_result:
  assumes "host_ok H M target" "thunks_inv (h_vec_mmap H) (h_page H) c"
    and "os_owned (h_platform H) M (pc_alloc c, k) (held target live)"
    and "install H (Inr c) target (k, m) = Some (res, Some c', k', m')"
  shows "thunks_inv (h_vec_mmap H) (h_page H) c' \<and> keeps live m m' \<and>
    (\<exists>f. thunk_map c = Some f \<and>
      (case res of
         Inl e \<Rightarrow> thunk_map c' = Some f \<and> os_owned (h_platform H) M (pc_alloc c', k') (held target live)
       | Inr i \<Rightarrow> i_target i = target \<and>
           (case f target of
              Some thunk \<Rightarrow> i_thunk i = thunk \<and> c' = c \<and> k' = k \<and> m' = m
            | None \<Rightarrow> thunk_map c' = Some (f(target \<mapsto> i_thunk i)) \<and>
                (\<exists>site thunk tramp code. i_thunk i = thunk + THUNK_PTR
                  \<and> analyze (h_iced H) target (hs_bytes site) = Some (Inr site)
                  \<and> in_place H target site thunk tramp code m'
                  \<and> os_owned (h_platform H) M (pc_alloc c', k')
                      (block_of tramp code @ (thunk, thunk + 16) # held target live)))))"
  using install_exact [OF assms] by (fastforce split: sum.splits option.splits)

text \<open>
  C3. Installing a hook. On success the function jumps to a thunk and the thunk to a trampoline, which
  holds the copy of the instructions that analysis found at the function; the bytes after the jump are
  the ones analyzed; the table maps the function to the pointer of the thunk, or did before; the new
  blocks are disjoint from all others. On an error no block and no entry is left, however often the
  patch was tried: every attempt that failed gave back what it had allocated, so that it can be allocated
  again. Every byte of the allocator's memory is accounted for: an attempt, failed or not, makes at most
  three scraps, each shorter than \<open>MIN_RANGE_LEN\<close>, beside bytes that are free (or, on success, beside the
  blocks of the hook). The memory of other hooks is never touched.
\<close>

theorem install_sound:
  assumes "host_ok H M target" "thunks_inv (h_vec_mmap H) (h_page H) c"
    and "os_owned (h_platform H) M (pc_alloc c, k) (held target live)"
    and "install H (Inr c) target (k, m) = Some (res, Some c', k', m')"
  shows "thunks_inv (h_vec_mmap H) (h_page H) c' \<and> keeps live m m' \<and>
    (\<exists>f. thunk_map c = Some f \<and>
      (case res of
         Inl e \<Rightarrow> thunk_map c' = Some f \<and> os_owned (h_platform H) M (pc_alloc c', k') (held target live)
           \<and> tried H M target live ((pc_alloc c, k), m) (Inl (Error e)) [] ((pc_alloc c', k'), m')
       | Inr i \<Rightarrow> i_target i = target \<and>
           (case f target of
              Some thunk \<Rightarrow> i_thunk i = thunk \<and> c' = c \<and> k' = k \<and> m' = m
            | None \<Rightarrow> thunk_map c' = Some (f(target \<mapsto> i_thunk i)) \<and>
                (\<exists>site thunk tramp code. i_thunk i = thunk + THUNK_PTR
                  \<and> analyze (h_iced H) target (hs_bytes site) = Some (Inr site)
                  \<and> in_place H target site thunk tramp code m'
                  \<and> os_owned (h_platform H) M (pc_alloc c', k')
                      (block_of tramp code @ (thunk, thunk + 16) # held target live)
                  \<and> tried H M target live ((pc_alloc c, k), m) (Inr i) (block_of tramp code @ [(thunk, thunk + 16)])
                      ((pc_alloc c', k'), m')))))"
  by (rule install_exact [OF assms])

text \<open>A function that starts with a \<open>rip\<close>-relative instruction, hooked with memory at hand.\<close>

definition hooked_bytes :: "byte list" where
  "hooked_bytes = [0x4c, 0x8b, 0x05, 0, 1, 0, 0, 0xc3, 0xcc, 0xcc, 0xcc, 0xcc, 0xcc, 0xcc, 0xcc, 0xcc, 0xcc, 0xcc, 0xcc]"

definition hooked_site :: hook_site where
  "hooked_site = \<lparr>hs_bytes = hooked_bytes, hs_insns = [rel_insn\<lparr>in_ip := 4096, in_rel := Some 4359\<rparr>, back_insn],
     min_rel_addr = 4103, max_rel_addr = 4359, target_addr = 4096, trampoline_target_addr = 4103, will_branch = False\<rparr>"

definition hooked_kernel :: "nat set kernel" where
  "hooked_kernel = tracking_kernel\<lparr>k_maps := \<lambda>_. Inr ''1000-2000 r-xp ''\<rparr>"

lemma hooked_protect: "protect hooked_kernel p a n k = (Inr (), k)"
  by (simp add: protect_def hooked_kernel_def tracking_kernel_def Let_def)

definition example_host :: "(nat \<times> nat \<times> byte list, nat set) host" where
  "example_host = \<lparr>h_iced = example_iced, h_platform = linux hooked_kernel,
     h_other = \<lambda>k m. (m, k), h_suspend = \<lambda>k relocs. (Inr (), k), h_vec_mmap = bump_mmap, h_page = 16\<rparr>"

lemma example_host_ok: "host_ok example_host id 4096"
  by (auto simp: host_ok_def example_host_def make_rwx_def hooked_protect split: sum.splits option.splits)

lemma hooked_analyze: "analyze example_iced 4096 hooked_bytes = Some (Inr hooked_site)"
proof -
  let ?i = "rel_insn\<lparr>in_ip := 4096, in_rel := Some 4359\<rparr>"
  obtain rest where rest: "decode_instructions example_iced 4096 hooked_bytes = Some (Inr (?i # rest))"
    by (simp add: decode_instructions_def hooked_bytes_def example_decode_loop example_insn_def usize_size_def
      is_invalid_def example_insns)
  have stop: "analyze_loop is s 7 c = (s, 7, c)" for "is" s c by (cases "is") (simp_all add: JMP_REL_LEN_def)
  show ?thesis
    by (simp add: analyze_def rest stop is_invalid_def example_insns JMP_REL_LEN_def include_insn_def note_rel_def
        is_unconditional_branch_def next_ip_def usize_defs hooked_site_def Let_def)
qed

lemma hooked_encode_at: "encode_at example_iced hooked_site 65536 = Some (Inr (replicate 10 0x90, []))"
  by (simp add: encode_at_def example_iced_def hooked_site_def example_insns slice_range_def)

lemma hooked_reloc_place: "reloc_place hooked_site = Some (4231, Excluded (- 2147482496), Excluded 2147482495)"
  by (simp add: reloc_place_def hooked_site_def midpoint_def div_ceil_def RELOC_BUF_LEN_def as_isize_def
      isize_checked_def usize_defs)

lemma hooked_allocs:
  "alloc_near example_allocator THUNK_LAYOUT 4096 (Included (- 2147483643)) (Included 2147483652)
     = Some (Some 73712, example_allocator\<lparr>ranges := [(65536, 73712)]\<rparr>)"
  "alloc_near (example_allocator\<lparr>ranges := [(65536, 73712)]\<rparr>) RELOC_BUF 4231 (Excluded (- 2147482496)) (Excluded 2147482495)
     = Some (Some 65536, example_allocator\<lparr>ranges := [(66560, 73712)]\<rparr>)"
  by (simp_all add: alloc_eval align_down_1 example_allocator_def RELOC_BUF_def RELOC_BUF_LEN_def THUNK_LAYOUT_def)


definition hooked_start :: "nat set" where
  "hooked_start = {4096..<4115} \<union> {65536..<73728}"

definition hooked_memory :: memory where
  "hooked_memory = write_bytes 4096 hooked_bytes (\<lambda>_. 0)"

lemma hooked_owned: "os_owned (h_platform example_host) id (example_allocator, hooked_start) (held 4096 [])"
proof -
  have "mmap_fresh hooked_kernel id" using tracking_kernel_fresh by (simp add: mmap_fresh_def hooked_kernel_def)
  then have "maps_fresh (h_platform example_host) id"
    using linux_maps_fresh [of hooked_kernel id 12] by (simp add: example_host_def hooked_kernel_def tracking_kernel_def)
  then show ?thesis
    by (simp add: os_owned_def owners_ok_def alloc_inv_def range_ok_def backed_def held_def hooked_start_def
        DISASM_LEN_def JMP_REL_LEN_def MAX_INSN_LEN_def clear_of_def apart_def example_allocator_def va_max_def usize_defs)
qed

lemma hooked_rwx: "pf_make_rwx (h_platform example_host) 4096 DISASM_LEN k = (Inr \<lparr>rg_ptr = 4096, rg_len = DISASM_LEN, rg_prot = Some 5\<rparr>, k)"
proof -
  have "k_maps hooked_kernel k = Inr ''1000-2000 r-xp ''" by (simp add: hooked_kernel_def)
  then show ?thesis
    by (simp add: make_rwx_def protection_now_def example_host_def hooked_protect protection_of_def parse_eval
        usize_defs try_into_rwx_from_rx_def)
qed

lemma hooked_restore: "snd (guard_restore (h_platform example_host) g k) = k"
  by (simp add: guard_restore_def example_host_def hooked_protect split: option.split)

lemma hooked_chain:
  "\<exists>a. chain_build example_host 4096 hooked_site (- 2147483643, 2147483652) ((example_allocator, k), m)
     = Some (Inr (Some \<lparr>jc_thunk = 73712, jc_jmp_rel = jmp_rel_new 69611, jc_trampoline = 65536, jc_trampoline_len = 10,
         jc_relocs = []\<rparr>), (a, k), write_bytes 73712 (thunk_bytes (thunk_new 65536)) (write_bytes 65536 (replicate 10 0x90) m))"
proof -
  have enc: "jmp_rel_encode 4096 73712 = Some (jmp_rel_new 69611)"
    by (simp add: jmp_rel_encode_def checked_add_def JMP_REL_LEN_def disp32_between_def as_isize_def usize_defs)
  have "\<exists>a. os_reclaim 65546 1014 (example_allocator\<lparr>ranges := [(66560, 73712)]\<rparr>, k) = Some (a, k)"
    by (simp add: os_reclaim_def reclaim_def adopt_range_def adopt_after_def note_bounds_def alloc_eval slice_get_def
        example_allocator_def)
  then have "\<exists>a. relocate example_iced (h_platform example_host) hooked_site ((example_allocator\<lparr>ranges := [(65536, 73712)]\<rparr>, k), m)
    = Some (Inr \<lparr>tr_ptr = 65536, tr_len = 10, tr_relocs = []\<rparr>, (a, k), write_bytes 65536 (replicate 10 0x90) m)"
    using hooked_allocs(2)
    by (auto simp: relocate_def hooked_reloc_place hooked_encode_at RELOC_BUF_LEN_def os_alloc_near_def)
  moreover have "h_iced example_host = example_iced" by (simp add: example_host_def)
  ultimately show ?thesis using hooked_allocs(1) enc
    by (auto simp: chain_build_def os_alloc_near_def Let_def)
qed


definition hooking_context :: process_context where
  "hooking_context = example_context\<lparr>pc_alloc := example_allocator\<rparr>"

lemma hooking_get: "get_thunk (hooking_context\<lparr>pc_alloc := a\<rparr>) 4096 = Some (Inl \<lparr>slot_index = 0, slot_target = 4096\<rparr>)"
  by (simp add: get_thunk_def hooking_context_def example_context_def vec_contents_def pod_vec_new_empty
      binary_search_by_key_def binary_search_by_def)

lemma hooking_insert:
  "\<exists>c. insert_thunk bump_mmap 16 (hooking_context\<lparr>pc_alloc := a\<rparr>) \<lparr>slot_index = 0, slot_target = 4096\<rparr> 73720 = Some c"
  by (simp add: insert_thunk_def hooking_context_def example_context_def vec_insert_op_def pod_vec_insert_def reserve_one_def
      reserve_one_realloc_def raw_len_for_grow_def pod_vec_new_def THUNK_FN_def checked_add_def checked_mul_def
      next_multiple_of_def usize_defs bump_mmap_def raw_ptr_assign_def align_offset_def Let_def)

lemma hooked_code: "read_bytes hooked_memory 4096 DISASM_LEN = hooked_bytes"
  unfolding hooked_memory_def by (rule read_write_same) (simp add: hooked_bytes_def DISASM_LEN_def JMP_REL_LEN_def MAX_INSN_LEN_def)

lemma hooked_turn:
  "\<exists>a m'. install_turn example_host 4096 ((example_allocator, hooked_start), hooked_memory)
     = Some (Inr \<lparr>i_target = 4096, i_thunk = 73720\<rparr>, (a, hooked_start), m')"
proof -
  let ?m = "write_bytes 73712 (thunk_bytes (thunk_new 65536)) (write_bytes 65536 (replicate 10 0x90) hooked_memory)"
  have r: "short_encoding_range hooked_bytes 7 = Some (- 2147483643, 2147483652)"
    using short_encoding_long [of 7 hooked_bytes] by (simp add: JMP_REL_RANGE_def disp32_range_def JMP_REL_LEN_def usize_defs)
  obtain a where chain: "chain_build example_host 4096 hooked_site (- 2147483643, 2147483652)
      ((example_allocator, hooked_start), hooked_memory) = Some (Inr (Some \<lparr>jc_thunk = 73712, jc_jmp_rel = jmp_rel_new 69611,
        jc_trampoline = 65536, jc_trampoline_len = 10, jc_relocs = []\<rparr>), (a, hooked_start), ?m)"
    using hooked_chain [of hooked_start hooked_memory] by blast
  have "read_bytes ?m 4096 8 = read_bytes hooked_memory 4096 8"
    by (simp add: read_write_apart)
  also have "\<dots> = take 8 hooked_bytes"
    using read_bytes_take [of 8 DISASM_LEN hooked_memory 4096] hooked_code
    by (simp add: DISASM_LEN_def JMP_REL_LEN_def MAX_INSN_LEN_def)
  finally have det: "detour hooked_bytes 4096 (jmp_rel_new 69611) ?m = (True, write_bytes 4096 (jmp_rel_bytes (jmp_rel_new 69611)) ?m)"
    using detour_cases [of hooked_bytes 4096 "jmp_rel_new 69611" ?m] by (simp add: hooked_bytes_def)
  have hs: "h_iced example_host = example_iced" "h_other example_host k m = (m, k)" "hs_bytes hooked_site = hooked_bytes"
    "slice_get (hs_insns hooked_site) 0 = Some (rel_insn\<lparr>in_ip := 4096, in_rel := Some 4359\<rparr>)" "in_len rel_insn = 7" for k m
    by (simp_all add: example_host_def hooked_site_def slice_get_def rel_insn_def)
  show ?thesis
    by (simp add: hs det r chain hooked_analyze install_turn_def hooked_rwx hooked_code install_fast_def try_detour_def erased_installer_def THUNK_PTR_def
      restored_def hooked_restore Let_def)
qed


lemma hooked_install:
  "\<exists>c m'. install example_host (Inr hooking_context) 4096 (hooked_start, hooked_memory)
     = Some (Inr \<lparr>i_target = 4096, i_thunk = 73720\<rparr>, Some c, hooked_start, m')"
proof -
  obtain a m' where turn: "install_turn example_host 4096 ((example_allocator, hooked_start), hooked_memory)
     = Some (Inr \<lparr>i_target = 4096, i_thunk = 73720\<rparr>, (a, hooked_start), m')" using hooked_turn by blast
  obtain c where c: "insert_thunk bump_mmap 16 (hooking_context\<lparr>pc_alloc := a\<rparr>) \<lparr>slot_index = 0, slot_target = 4096\<rparr> 73720 = Some c"
    using hooking_insert by blast
  have h: "h_vec_mmap example_host = bump_mmap" "h_page example_host = 16" "pc_alloc hooking_context = example_allocator"
    by (simp_all add: example_host_def hooking_context_def)
  have "install_loop example_host 4096 ((example_allocator, hooked_start), hooked_memory)
      = Some (Inr \<lparr>i_target = 4096, i_thunk = 73720\<rparr>, (a, hooked_start), m')"
    by (subst install_loop.simps) (simp add: turn)
  moreover have "get_thunk hooking_context 4096 = Some (Inl \<lparr>slot_index = 0, slot_target = 4096\<rparr>)"
    using hooking_get [of undefined] by simp
  ultimately show ?thesis using c by (simp add: install_def h)
qed

theorem install_sound_witness:
  "\<exists>c m' tramp code. install example_host (Inr hooking_context) 4096 (hooked_start, hooked_memory)
     = Some (Inr \<lparr>i_target = 4096, i_thunk = 73720\<rparr>, Some c, hooked_start, m')
     \<and> jump_target m' 4096 = Some 73712 \<and> jump_target m' 73712 = Some tramp \<and> read_bytes m' tramp (length code) = code"
proof -
  obtain c m' where run: "install example_host (Inr hooking_context) 4096 (hooked_start, hooked_memory)
     = Some (Inr \<lparr>i_target = 4096, i_thunk = 73720\<rparr>, Some c, hooked_start, m')" using hooked_install by blast
  have inv: "thunks_inv (h_vec_mmap example_host) (h_page example_host) hooking_context"
    using example_context_inv by (simp add: example_host_def hooking_context_def)
  have own: "os_owned (h_platform example_host) id (pc_alloc hooking_context, hooked_start) (held 4096 [])"
    using hooked_owned by (simp add: hooking_context_def)
  obtain f where f: "thunk_map hooking_context = Some f" "f 4096 = None"
    by (auto simp: thunk_map_def hooking_context_def example_context_def vec_contents_def pod_vec_new_empty)
  from install_sound [OF example_host_ok inv own run] f obtain site thunk tramp code where
    "73720 = thunk + THUNK_PTR" "in_place example_host 4096 site thunk tramp code m'" by auto
  then have "jump_target m' 4096 = Some 73712 \<and> jump_target m' 73712 = Some tramp \<and> read_bytes m' tramp (length code) = code"
    by (simp add: in_place_def THUNK_PTR_def)
  with run show ?thesis by blast
qed

end
