(* ===== verification/Hook_Chain.thy ===== *)
theory Hook_Chain
  imports Linked_Slab
begin

text \<open>
  Hooks on a function (\<open>hook/temp.rs\<close>, \<open>hook/leak.rs\<close>, \<open>abi/src/context/library.rs\<close>): temporary hooks,
  kept in a list behind one dispatcher per function and type and removed when their handle is
  dropped, and static hooks, which replace the thunk's function for good. The state is the function
  pointers in the thunks, the code at each address, the library context, and the live handles. What
  a hook's closure does is a value of type \<open>prog\<close>: it returns, or calls the original function and goes
  on with its result.
\<close>

section \<open>Closures\<close>

datatype ('a, 'b, 'r) prog = Return 'b | Call_original 'a "'r \<Rightarrow> ('a, 'b, 'r) prog"

text \<open>
  The closures the three kinds of hooks are called through: \<open>hook\<close> and \<open>hook_with_thunk\<close> as they are,
  \<open>hook_mut\<close> behind a mutex, \<open>hook_once\<close> behind a mutex that is emptied and a flag.
\<close>

datatype ('a, 'r, 'c) closure =
    Shared "'a \<Rightarrow> ('a, 'r, 'r) prog"
  | Locked "'c \<Rightarrow> 'a \<Rightarrow> ('a, 'r \<times> 'c, 'r) prog" 'c
  | Once "('a \<Rightarrow> ('a, 'r, 'r) prog) option" bool

definition hook_fn :: "('a \<Rightarrow> ('a, 'r, 'r) prog) \<Rightarrow> ('a, 'r, 'c) closure" where
  "hook_fn f = Shared f"

definition hook_mut :: "('c \<Rightarrow> 'a \<Rightarrow> ('a, 'r \<times> 'c, 'r) prog) \<Rightarrow> 'c \<Rightarrow> ('a, 'r, 'c) closure" where
  "hook_mut f c = Locked f c"

definition hook_once :: "('a \<Rightarrow> ('a, 'r, 'r) prog) \<Rightarrow> ('a, 'r, 'c) closure" where
  "hook_once f = Once (Some f) True"

section \<open>State\<close>

text \<open>The key of the library context's map: the address of the function and its type.\<close>

type_synonym list_key = "nat \<times> nat"

record 's closure_list =
  cl_closures :: "'s linked_slab"
  cl_extra :: int
  cl_original :: "nat option"

record temp_hook =
  th_list :: list_key
  th_original :: nat
  th_key :: nat

text \<open>
  What is at the address of a function: the original function (or a trampoline to it), the
  dispatcher of a list with the value of \<open>original_ptr\<close>, the closure of a temporary hook (with the
  \<open>Weak\<close> handle it was given), or that of a static hook with the original it was given.
\<close>

datatype ('a, 'r, 'c) callee =
    Function "'a \<Rightarrow> 'r"
  | Dispatcher list_key nat
  | Temp_closure nat "('a, 'r, 'c) closure"
  | Static_closure nat "('a, 'r, 'c) closure"

record ('s, 'a, 'r, 'c) world =
  w_thunk :: "nat \<Rightarrow> nat"
  w_code :: "nat \<Rightarrow> ('a, 'r, 'c) callee option"
  w_lists :: "list_key \<Rightarrow> 's closure_list option"
  w_hooks :: "nat \<Rightarrow> temp_hook option"

section \<open>Hooking\<close>

definition update_thunk :: "nat \<Rightarrow> (nat \<Rightarrow> nat) \<Rightarrow> ('s, 'a, 'r, 'c) world \<Rightarrow> nat \<times> ('s, 'a, 'r, 'c) world" where
  "update_thunk t f w = (w_thunk w t, w\<lparr>w_thunk := (w_thunk w)(t := f (w_thunk w t))\<rparr>)"

definition closure_list_default :: "('s, nat node) slab_ops \<Rightarrow> 's closure_list" where
  "closure_list_default sl = \<lparr>cl_closures = ls_new sl, cl_extra = -1, cl_original = None\<rparr>"

definition lib_closures ::
    "('s, nat node) slab_ops \<Rightarrow> list_key \<Rightarrow> ('s, 'a, 'r, 'c) world \<Rightarrow> 's closure_list \<times> ('s, 'a, 'r, 'c) world" where
  "lib_closures sl lk w =
     (case w_lists w lk of
        Some l \<Rightarrow> (l, w)
      | None \<Rightarrow> (let l = closure_list_default sl in (l, w\<lparr>w_lists := (w_lists w)(lk \<mapsto> l)\<rparr>)))"

text \<open>\<open>p\<close> is where the dispatcher's thunk is allocated, should the list need one.\<close>

definition into_unowned_handle ::
    "('s, nat node) slab_ops \<Rightarrow> nat \<Rightarrow> list_key \<Rightarrow> ('s, 'a, 'r, 'c) world \<Rightarrow> temp_hook \<times> ('s, 'a, 'r, 'c) world" where
  "into_unowned_handle sl p lk w =
     (let (l, w1) = lib_closures sl lk w;
          (original, w2) =
            (case cl_original l of
               Some original \<Rightarrow> (original, w1)
             | None \<Rightarrow>
                 (let (original, w') = update_thunk (fst lk) (\<lambda>_. p) w1
                  in (original, w'\<lparr>w_code := (w_code w')(p \<mapsto> Dispatcher lk original),
                      w_lists := (w_lists w')(lk \<mapsto> l\<lparr>cl_original := Some original\<rparr>)\<rparr>)))
      in (\<lparr>th_list = lk, th_original = original, th_key = usize_max\<rparr>, w2))"

text \<open>
  \<open>h\<close> is the new handle, \<open>c\<close> the closure \<open>source\<close> makes, and \<open>q\<close> where it is allocated.
\<close>

definition hook_unchecked_lt ::
    "('s, nat node) slab_ops \<Rightarrow> nat \<Rightarrow> nat \<Rightarrow> nat \<Rightarrow> ('a, 'r, 'c) closure \<Rightarrow> list_key
      \<Rightarrow> ('s, 'a, 'r, 'c) world \<Rightarrow> ('s, 'a, 'r, 'c) world" where
  "hook_unchecked_lt sl p q h c lk w =
     (let (hook, w1) = into_unowned_handle sl p lk w
      in case w_lists w1 lk of
           None \<Rightarrow> w1
         | Some l \<Rightarrow>
             (let (key, closures) = ls_push_front sl (cl_closures l) q
              in w1\<lparr>w_code := (w_code w1)(q \<mapsto> Temp_closure h c),
                    w_lists := (w_lists w1)(lk \<mapsto> l\<lparr>cl_closures := closures, cl_extra := cl_extra l + 1\<rparr>),
                    w_hooks := (w_hooks w1)(h \<mapsto> hook\<lparr>th_key := key\<rparr>)\<rparr>))"

text \<open>\<open>Hook::drop\<close>; the removed closure's code is released with it.\<close>

definition hook_drop ::
    "('s, nat node) slab_ops \<Rightarrow> temp_hook \<Rightarrow> ('s, 'a, 'r, 'c) world \<Rightarrow> ('s, 'a, 'r, 'c) world" where
  "hook_drop sl hook w =
     (case w_lists w (th_list hook) of
        None \<Rightarrow> w
      | Some l \<Rightarrow>
          (let (removed, closures) = ls_remove sl (cl_closures l) (th_key hook)
           in w\<lparr>w_lists := (w_lists w)(th_list hook \<mapsto> l\<lparr>cl_closures := closures, cl_extra := cl_extra l - 1\<rparr>),
                w_code := (case removed of None \<Rightarrow> w_code w | Some q \<Rightarrow> (w_code w)(q := None))\<rparr>))"

definition drop_handle ::
    "('s, nat node) slab_ops \<Rightarrow> nat \<Rightarrow> ('s, 'a, 'r, 'c) world \<Rightarrow> ('s, 'a, 'r, 'c) world" where
  "drop_handle sl h w =
     (case w_hooks w h of
        None \<Rightarrow> w
      | Some hook \<Rightarrow> hook_drop sl hook (w\<lparr>w_hooks := (w_hooks w)(h := None)\<rparr>))"

text \<open>\<open>hook_unchecked_lt\<close> when \<open>source\<close> panics: unwinding drops the hook, which has no key yet.\<close>

definition hook_source_panics ::
    "('s, nat node) slab_ops \<Rightarrow> nat \<Rightarrow> list_key \<Rightarrow> ('s, 'a, 'r, 'c) world \<Rightarrow> ('s, 'a, 'r, 'c) world" where
  "hook_source_panics sl p lk w =
     (let (hook, w1) = into_unowned_handle sl p lk w in hook_drop sl hook w1)"

definition static_hook ::
    "nat \<Rightarrow> ('a, 'r, 'c) closure \<Rightarrow> nat \<Rightarrow> ('s, 'a, 'r, 'c) world \<Rightarrow> ('s, 'a, 'r, 'c) world" where
  "static_hook p c t w =
     (let (original, w') = update_thunk t (\<lambda>_. p) w
      in w'\<lparr>w_code := (w_code w')(p \<mapsto> Static_closure original c)\<rparr>)"

text \<open>\<open>static_hook\<close>, \<open>static_hook_mut\<close> and \<open>static_hook_once\<close> of \<open>StaticHook\<close>: the closures they leak.\<close>

definition static_hook_fn ::
    "nat \<Rightarrow> ('a \<Rightarrow> ('a, 'r, 'r) prog) \<Rightarrow> nat \<Rightarrow> ('s, 'a, 'r, 'c) world \<Rightarrow> ('s, 'a, 'r, 'c) world" where
  "static_hook_fn p f t w = static_hook p (Shared f) t w"

definition static_hook_mut ::
    "nat \<Rightarrow> ('c \<Rightarrow> 'a \<Rightarrow> ('a, 'r \<times> 'c, 'r) prog) \<Rightarrow> 'c \<Rightarrow> nat \<Rightarrow> ('s, 'a, 'r, 'c) world \<Rightarrow> ('s, 'a, 'r, 'c) world" where
  "static_hook_mut p f c t w = static_hook p (Locked f c) t w"

definition static_hook_once ::
    "nat \<Rightarrow> ('a \<Rightarrow> ('a, 'r, 'r) prog) \<Rightarrow> nat \<Rightarrow> ('s, 'a, 'r, 'c) world \<Rightarrow> ('s, 'a, 'r, 'c) world" where
  "static_hook_once p f t w = static_hook p (Once (Some f) True) t w"

section \<open>Calling\<close>

text \<open>A closure's body, given what \<open>call_original\<close> does.\<close>

primrec run_prog ::
    "('w \<Rightarrow> 'a \<Rightarrow> ('r \<times> 'w) option) \<Rightarrow> ('a, 'b, 'r) prog \<Rightarrow> 'w \<Rightarrow> ('b \<times> 'w) option" where
  "run_prog orig (Return x) w = Some (x, w)"
| "run_prog orig (Call_original a k) w = do { (r, w') \<leftarrow> orig w a; run_prog orig (k r) w' }"

fun with_closure :: "('a, 'r, 'c) closure \<Rightarrow> ('a, 'r, 'c) callee \<Rightarrow> ('a, 'r, 'c) callee" where
  "with_closure c (Temp_closure h _) = Temp_closure h c"
| "with_closure c (Static_closure p _) = Static_closure p c"
| "with_closure c x = x"

definition put_closure :: "nat \<Rightarrow> ('a, 'r, 'c) closure \<Rightarrow> ('s, 'a, 'r, 'c) world \<Rightarrow> ('s, 'a, 'r, 'c) world" where
  "put_closure q c w = w\<lparr>w_code := (w_code w)(q := map_option (with_closure c) (w_code w q))\<rparr>"

text \<open>\<open>put\<close> stores what the closure keeps behind its mutex.\<close>

fun run_closure ::
    "('w \<Rightarrow> 'a \<Rightarrow> ('r \<times> 'w) option) \<Rightarrow> (('a, 'r, 'c) closure \<Rightarrow> 'w \<Rightarrow> 'w) \<Rightarrow> ('a, 'r, 'c) closure \<Rightarrow> 'w \<Rightarrow> 'a
      \<Rightarrow> ('r \<times> 'w) option" where
  "run_closure orig put (Shared f) w a = run_prog orig (f a) w"
| "run_closure orig put (Locked f c) w a = do { ((r, c'), w') \<leftarrow> run_prog orig (f c a) w; Some (r, put (Locked f c') w') }"
| "run_closure orig put (Once (Some f) True) w a = run_prog orig (f a) (put (Once None False) w)"
| "run_closure orig put (Once _ _) w a = orig w a"

text \<open>\<open>Hook::call_original\<close> with the slow path.\<close>

definition next_closure :: "('s, nat node) slab_ops \<Rightarrow> 's closure_list \<Rightarrow> temp_hook \<Rightarrow> nat" where
  "next_closure sl l hook =
     (if 0 < cl_extra l
      then (case ls_get_next sl (cl_closures l) (th_key hook) of Some q \<Rightarrow> q | None \<Rightarrow> th_original hook)
      else th_original hook)"

text \<open>A call of the function at an address; \<open>None\<close> is a panic, a jump to released code, or no return.\<close>

lemma run_prog_mono [partial_function_mono]:
  assumes "\<And>w a. mono_option (\<lambda>call. orig call w a)"
  shows "mono_option (\<lambda>call. run_prog (orig call) p w)"
proof (induction p arbitrary: w)
  case (Return x)
  show ?case by (simp add: monotone_def option.leq_refl)
next
  case (Call_original a k)
  show ?case
    unfolding run_prog.simps by (intro partial_function_mono assms) (auto simp: split_beta intro: Call_original)
qed

lemma run_closure_mono [partial_function_mono]:
  assumes "\<And>w a. mono_option (\<lambda>call. orig call w a)"
  shows "mono_option (\<lambda>call. run_closure (orig call) put c w a)"
proof -
  note run = run_prog_mono [where orig = orig, OF assms]
  show ?thesis
  proof (cases c)
    case (Shared f)
    then show ?thesis using run by simp
  next
    case (Locked f s)
    then show ?thesis
      unfolding run_closure.simps by simp (intro partial_function_mono run assms)
  next
    case (Once f b)
    then show ?thesis using run assms by (cases f; cases b) simp_all
  qed
qed

partial_function (option) call_at ::
    "('s, nat node) slab_ops \<Rightarrow> ('s, 'a, 'r, 'c) world \<Rightarrow> nat \<Rightarrow> 'a \<Rightarrow> ('r \<times> ('s, 'a, 'r, 'c) world) option" where
  "call_at sl w p a =
     (case w_code w p of
        None \<Rightarrow> None
      | Some (Function f) \<Rightarrow> Some (f a, w)
      | Some (Dispatcher lk original) \<Rightarrow>
          (case w_lists w lk of
             None \<Rightarrow> None
           | Some l \<Rightarrow>
               (case ls_first sl (cl_closures l) of
                  Some q \<Rightarrow> call_at sl w q a
                | None \<Rightarrow> call_at sl w original a))
      | Some (Temp_closure h c) \<Rightarrow>
          run_closure
            (\<lambda>w a. case w_hooks w h of
               None \<Rightarrow> None
             | Some hook \<Rightarrow>
                 (case w_lists w (th_list hook) of
                    None \<Rightarrow> None
                  | Some l \<Rightarrow> call_at sl w (next_closure sl l hook) a))
            (put_closure p) c w a
      | Some (Static_closure original c) \<Rightarrow>
          run_closure (\<lambda>w a. call_at sl w original a) (put_closure p) c w a)"

definition call_target ::
    "('s, nat node) slab_ops \<Rightarrow> ('s, 'a, 'r, 'c) world \<Rightarrow> nat \<Rightarrow> 'a \<Rightarrow> ('r \<times> ('s, 'a, 'r, 'c) world) option" where
  "call_target sl w t a = call_at sl w (w_thunk w t) a"

section \<open>What a call does\<close>

text \<open>
  The reference: the hooks as a list of closures, each called with the rest of the list as its
  original. The result has the closures as the call leaves them.
\<close>

primrec spec_prog :: "('s \<Rightarrow> 'a \<Rightarrow> 'r \<times> 's) \<Rightarrow> ('a, 'b, 'r) prog \<Rightarrow> 's \<Rightarrow> 'b \<times> 's" where
  "spec_prog orig (Return x) s = (x, s)"
| "spec_prog orig (Call_original a k) s = (let (r, s') = orig s a in spec_prog orig (k r) s')"

fun spec_closure ::
    "('s \<Rightarrow> 'a \<Rightarrow> 'r \<times> 's) \<Rightarrow> ('a, 'r, 'c) closure \<Rightarrow> 's \<Rightarrow> 'a \<Rightarrow> 'r \<times> ('a, 'r, 'c) closure \<times> 's" where
  "spec_closure orig (Shared f) s a = (let (r, s') = spec_prog orig (f a) s in (r, Shared f, s'))"
| "spec_closure orig (Locked f c) s a = (let ((r, c'), s') = spec_prog orig (f c a) s in (r, Locked f c', s'))"
| "spec_closure orig (Once (Some f) True) s a = (let (r, s') = spec_prog orig (f a) s in (r, Once None False, s'))"
| "spec_closure orig (Once f b) s a = (let (r, s') = orig s a in (r, Once f b, s'))"

fun spec_layers ::
    "('a \<Rightarrow> 'r) \<Rightarrow> nat \<Rightarrow> ('a, 'r, 'c) closure list \<Rightarrow> 'a \<Rightarrow> 'r \<times> ('a, 'r, 'c) closure list" where
  "spec_layers f (Suc n) (c # cs) a = (let (r, c', cs') = spec_closure (spec_layers f n) c cs a in (r, c' # cs'))"
| "spec_layers f n cs a = (f a, cs)"

definition spec_call :: "('a \<Rightarrow> 'r) \<Rightarrow> ('a, 'r, 'c) closure list \<Rightarrow> 'a \<Rightarrow> 'r \<times> ('a, 'r, 'c) closure list" where
  "spec_call f cs = spec_layers f (length cs) cs"

lemma spec_prog_keeps:
  assumes "\<And>s a. P s \<Longrightarrow> P (snd (orig s a))" and "P s"
  shows "P (snd (spec_prog orig p s))"
  using assms(2) by (induction p arbitrary: s) (auto simp: split_beta assms(1))

lemma spec_closure_keeps:
  assumes "\<And>s a. P s \<Longrightarrow> P (snd (orig s a))" and "P s"
  shows "P (snd (snd (spec_closure orig c s a)))"
  using assms(2) by (cases "(orig, c, s, a)" rule: spec_closure.cases)
    (simp_all add: split_beta assms(1) spec_prog_keeps [where P = P, OF assms(1)])

lemma spec_layers_length: "length cs = n \<Longrightarrow> length (snd (spec_layers f n cs a)) = n"
proof (induction n arbitrary: cs a)
  case (Suc n)
  then obtain c cs' where "cs = c # cs'" "length cs' = n" by (cases cs) auto
  with spec_closure_keeps [where P = "\<lambda>cs. length cs = n" and orig = "spec_layers f n", OF Suc.IH]
  show ?case by (simp add: split_beta)
qed simp

section \<open>Closures in place\<close>

definition closure_at :: "('s, 'a, 'r, 'c) world \<Rightarrow> nat \<Rightarrow> ('a, 'r, 'c) closure option" where
  "closure_at w q =
     (case w_code w q of
        Some (Temp_closure h c) \<Rightarrow> Some c
      | Some (Static_closure p c) \<Rightarrow> Some c
      | _ \<Rightarrow> None)"

fun fill :: "nat list \<Rightarrow> ('a, 'r, 'c) closure list \<Rightarrow> ('s, 'a, 'r, 'c) world \<Rightarrow> ('s, 'a, 'r, 'c) world" where
  "fill (q # qs) (c # cs) w = fill qs cs (put_closure q c w)"
| "fill qs cs w = w"

definition contents :: "('s, 'a, 'r, 'c) world \<Rightarrow> nat list \<Rightarrow> ('a, 'r, 'c) closure list" where
  "contents w qs = map (\<lambda>q. the (closure_at w q)) qs"

text \<open>Worlds that differ in the contents of closures only.\<close>

definition frame :: "('s, 'a, 'r, 'c) world \<Rightarrow> ('s, 'a, 'r, 'c) world \<Rightarrow> bool" where
  "frame w w' \<longleftrightarrow> w_thunk w' = w_thunk w \<and> w_lists w' = w_lists w \<and> w_hooks w' = w_hooks w
     \<and> (\<forall>x c. map_option (with_closure c) (w_code w' x) = map_option (with_closure c) (w_code w x))"

lemma with_closure_twice [simp]: "with_closure c (with_closure d x) = with_closure c x"
  by (cases x) auto

lemma put_closure_sel [simp]:
  "w_thunk (put_closure q c w) = w_thunk w" "w_lists (put_closure q c w) = w_lists w"
  "w_hooks (put_closure q c w) = w_hooks w"
  "w_code (put_closure q c w) = (w_code w)(q := map_option (with_closure c) (w_code w q))"
  by (simp_all add: put_closure_def)

lemma put_closure_twice [simp]: "put_closure q c (put_closure q d w) = put_closure q c w"
  by (simp add: put_closure_def option.map_comp comp_def)

lemma put_closure_comm: "q \<noteq> r \<Longrightarrow> put_closure q c (put_closure r d w) = put_closure r d (put_closure q c w)"
  by (simp add: put_closure_def fun_upd_twist)

lemma put_closure_same: "closure_at w q = Some c \<Longrightarrow> put_closure q c w = w"
  by (auto simp: put_closure_def closure_at_def fun_upd_idem split: option.splits callee.splits)

lemma closure_at_put:
  "closure_at (put_closure q c w) r = (if r = q \<and> closure_at w q \<noteq> None then Some c else closure_at w r)"
  by (auto simp: closure_at_def split: option.splits callee.splits)

lemma fill_put_comm: "q \<notin> set qs \<Longrightarrow> fill qs cs (put_closure q c w) = put_closure q c (fill qs cs w)"
  by (induction qs cs w rule: fill.induct) (auto simp: put_closure_comm)

lemma closure_at_fill_other: "q \<notin> set qs \<Longrightarrow> closure_at (fill qs cs w) q = closure_at w q"
  by (induction qs cs w rule: fill.induct) (auto simp: closure_at_put)

lemma contents_fill:
  assumes "length cs = length qs" and "distinct qs" and "\<And>q. q \<in> set qs \<Longrightarrow> closure_at w q \<noteq> None"
  shows "contents (fill qs cs w) qs = cs"
  using assms
proof (induction qs cs w rule: fill.induct)
  case (1 q qs c cs w)
  then have "contents (fill qs cs (put_closure q c w)) qs = cs" by (simp add: closure_at_put)
  moreover have "closure_at (fill qs cs (put_closure q c w)) q = Some c"
    using 1 by (simp add: closure_at_fill_other closure_at_put)
  ultimately show ?case by (simp add: contents_def)
qed (auto simp: contents_def)

lemma fill_fill:
  assumes "length cs = length qs" and "length ds = length qs" and "distinct qs"
  shows "fill qs ds (fill qs cs w) = fill qs ds w"
  using assms
proof (induction qs arbitrary: cs ds w)
  case (Cons q qs)
  then obtain c cs' d ds' where "cs = c # cs'" "ds = d # ds'" by (metis length_Suc_conv)
  with Cons show ?case by (simp add: fill_put_comm)
qed simp

lemma frame_refl [simp]: "frame w w"
  by (simp add: frame_def)

lemma frame_put [intro]: "frame w w' \<Longrightarrow> frame w (put_closure q c w')"
  by (simp add: frame_def option.map_comp comp_def)

lemma frame_fill [intro]: "frame w w' \<Longrightarrow> frame w (fill qs cs w')"
  by (induction qs cs w' rule: fill.induct) auto

section \<open>The closures on the way\<close>

text \<open>\<open>path sl w f p qs\<close>: from the address \<open>p\<close> control reaches \<open>f\<close> through the closures at \<open>qs\<close>.\<close>

inductive path ::
    "('s, nat node) slab_ops \<Rightarrow> ('s, 'a, 'r, 'c) world \<Rightarrow> ('a \<Rightarrow> 'r) \<Rightarrow> nat \<Rightarrow> nat list \<Rightarrow> bool"
  for sl w f where
  path_function: "w_code w p = Some (Function f) \<Longrightarrow> path sl w f p []"
| path_static: "w_code w p = Some (Static_closure original c) \<Longrightarrow> path sl w f original qs \<Longrightarrow> path sl w f p (p # qs)"
| path_dispatcher: "w_code w p = Some (Dispatcher lk original) \<Longrightarrow> w_lists w lk = Some l
    \<Longrightarrow> path sl w f (case ls_first sl (cl_closures l) of Some q \<Rightarrow> q | None \<Rightarrow> original) qs \<Longrightarrow> path sl w f p qs"
| path_temp: "w_code w p = Some (Temp_closure h c) \<Longrightarrow> w_hooks w h = Some hook
    \<Longrightarrow> w_lists w (th_list hook) = Some l \<Longrightarrow> path sl w f (next_closure sl l hook) qs \<Longrightarrow> path sl w f p (p # qs)"

lemma with_closure_eq_iff [simp]:
  "with_closure c x = Function f \<longleftrightarrow> x = Function f"
  "with_closure c x = Dispatcher lk p \<longleftrightarrow> x = Dispatcher lk p"
  "with_closure c x = Temp_closure h d \<longleftrightarrow> d = c \<and> (\<exists>e. x = Temp_closure h e)"
  "with_closure c x = Static_closure p d \<longleftrightarrow> d = c \<and> (\<exists>e. x = Static_closure p e)"
  by (cases x; auto)+

lemma frame_code:
  assumes "frame w w'"
  shows "w_code w p = Some (Function f) \<Longrightarrow> w_code w' p = Some (Function f)"
    and "w_code w p = Some (Dispatcher lk q) \<Longrightarrow> w_code w' p = Some (Dispatcher lk q)"
    and "w_code w p = Some (Temp_closure h c) \<Longrightarrow> \<exists>d. w_code w' p = Some (Temp_closure h d)"
    and "w_code w p = Some (Static_closure q c) \<Longrightarrow> \<exists>d. w_code w' p = Some (Static_closure q d)"
proof -
  have f: "map_option (with_closure c) (w_code w' p) = map_option (with_closure c) (w_code w p)" for c
    using assms by (simp add: frame_def)
  show "w_code w p = Some (Function f) \<Longrightarrow> w_code w' p = Some (Function f)"
    and "w_code w p = Some (Dispatcher lk q) \<Longrightarrow> w_code w' p = Some (Dispatcher lk q)"
    and "w_code w p = Some (Temp_closure h c) \<Longrightarrow> \<exists>d. w_code w' p = Some (Temp_closure h d)"
    and "w_code w p = Some (Static_closure q c) \<Longrightarrow> \<exists>d. w_code w' p = Some (Static_closure q d)"
    using f [of undefined] by auto
qed

lemma frame_sel: "frame w w' \<Longrightarrow> w_thunk w' = w_thunk w \<and> w_lists w' = w_lists w \<and> w_hooks w' = w_hooks w"
  by (simp add: frame_def)

lemma path_closures: "path sl w f p qs \<Longrightarrow> q \<in> set qs \<Longrightarrow> frame w w' \<Longrightarrow> closure_at w' q \<noteq> None"
  by (induction rule: path.induct) (auto simp: closure_at_def dest: frame_code(3,4))

section \<open>A call runs the closures in order\<close>

text \<open>\<open>simulates orig W spec P\<close>: on the worlds \<open>W cs\<close>, the original does what \<open>spec\<close> says.\<close>

definition simulates ::
    "('w \<Rightarrow> 'a \<Rightarrow> ('r \<times> 'w) option) \<Rightarrow> ('s \<Rightarrow> 'w) \<Rightarrow> ('s \<Rightarrow> 'a \<Rightarrow> 'r \<times> 's) \<Rightarrow> ('s \<Rightarrow> bool) \<Rightarrow> bool" where
  "simulates orig W spec P \<longleftrightarrow>
     (\<forall>s a. P s \<longrightarrow> orig (W s) a = Some (fst (spec s a), W (snd (spec s a))) \<and> P (snd (spec s a)))"

lemma run_prog_simulates:
  assumes "simulates orig W spec P" and "P s"
  shows "run_prog orig p (W s) = Some (fst (spec_prog spec p s), W (snd (spec_prog spec p s)))
    \<and> P (snd (spec_prog spec p s))"
  using assms(2)
proof (induction p arbitrary: s)
  case (Call_original a k)
  with assms(1) show ?case by (auto simp: simulates_def split_beta)
qed simp

lemma run_closure_simulates:
  fixes c :: "('a, 'r, 'c) closure"
  assumes orig: "\<And>w. R w \<Longrightarrow> simulates orig (\<lambda>cs. fill qs cs w) spec (\<lambda>cs. length cs = length qs)"
    and w: "R w" "R (put_closure q (Once None False) w)" and c: "closure_at w q = Some c"
    and q: "q \<notin> set qs" and qs: "distinct qs" and cs: "fill qs cs w = w" "fill qs cs (put_closure q (Once None False) w) = put_closure q (Once None False) w" "length cs = length qs"
  shows "run_closure orig (put_closure q) c w a =
    (let (r, c', cs') = spec_closure spec c cs a in Some (r, fill (q # qs) (c' # cs') w))"
proof (cases c)
  case (Shared f)
  then show ?thesis
    using run_prog_simulates [OF orig [OF w(1)], of cs "f a"] c
    by (simp add: cs split_beta put_closure_same)
next
  case (Locked f s)
  then show ?thesis
    using run_prog_simulates [OF orig [OF w(1)], of cs "f s a"]
    by (simp add: cs split_beta fill_put_comm [OF q])
next
  case (Once f b)
  have "run_closure orig (put_closure q) (Once f' b') w a =
      (let (r, c', cs') = spec_closure spec (Once f' b') cs a in Some (r, fill (q # qs) (c' # cs') w))"
    if "c = Once f' b'" "f' = None \<or> \<not> b'" for f' b'
  proof -
    have "run_closure orig (put_closure q) (Once f' b') w a = orig w a"
      using that(2) by (cases f'; cases b') simp_all
    moreover have "spec_closure spec (Once f' b' :: ('a, 'r, 'c) closure) cs a = (fst (spec cs a), Once f' b', snd (spec cs a))"
      using that(2) by (cases f'; cases b') (simp_all add: split_beta)
    moreover have "orig w a = Some (fst (spec cs a), fill qs (snd (spec cs a)) w)"
      using orig [OF w(1)] cs(1,3) by (auto simp: simulates_def)
    ultimately show ?thesis using c that(1) by (simp add: put_closure_same)
  qed
  moreover have ?thesis if "c = Once (Some g) True" for g
    using run_prog_simulates [OF orig [OF w(2)], of cs "g a"] that
    by (simp add: cs split_beta)
  ultimately show ?thesis using Once by (cases f; cases b) auto
qed

lemma fill_contents:
  assumes "\<And>q. q \<in> set qs \<Longrightarrow> closure_at w q \<noteq> None" and "distinct qs"
  shows "fill qs (contents w qs) w = w"
  using assms
proof (induction qs)
  case (Cons q qs)
  then obtain c where "closure_at w q = Some c" by force
  with Cons show ?case by (simp add: contents_def put_closure_same)
qed simp

lemma run_closure_path:
  fixes w w' :: "('s, 'a, 'r, 'c) world"
  assumes call: "\<And>w' a. frame w w' \<Longrightarrow>
      orig w' a = (let (r, cs) = spec_call f (contents w' qs) a in Some (r, fill qs cs w'))"
    and path: "path sl w f p qs" and dist: "distinct (q # qs)" and w': "frame w w'"
    and c: "closure_at w' q = Some c"
  shows "run_closure orig (put_closure q) c w' a =
    (let (r, cs) = spec_call f (contents w' (q # qs)) a in Some (r, fill (q # qs) cs w'))"
proof -
  note closures = path_closures [OF path]
  have contents: "length (contents v qs) = length qs" for v :: "('s, 'a, 'r, 'c) world"
    by (simp add: contents_def)
  have sim: "simulates orig (\<lambda>cs. fill qs cs v) (spec_layers f (length qs)) (\<lambda>cs. length cs = length qs)"
    if "frame w v" for v
    unfolding simulates_def
  proof (intro allI impI conjI)
    fix cs :: "('a, 'r, 'c) closure list" and a assume "length cs = length qs"
    moreover from this have "contents (fill qs cs v) qs = cs"
      using dist closures that by (simp add: contents_fill)
    ultimately show "orig (fill qs cs v) a
        = Some (fst (spec_layers f (length qs) cs a), fill qs (snd (spec_layers f (length qs) cs a)) v)"
      and "length (snd (spec_layers f (length qs) cs a)) = length qs"
      using call [OF frame_fill [OF that]] dist
      by (simp_all add: spec_call_def split_beta fill_fill spec_layers_length)
  qed
  have put: "frame w (put_closure q (Once None False) w')" using w' by blast
  have "contents (put_closure q (Once None False) w') qs = contents w' qs"
    using dist by (auto simp: contents_def closure_at_put)
  then have fill: "fill qs (contents w' qs) w' = w'"
      "fill qs (contents w' qs) (put_closure q (Once None False) w') = put_closure q (Once None False) w'"
    using fill_contents [where qs = qs, OF closures [OF _ w']] fill_contents [where qs = qs, OF closures [OF _ put]] dist by auto
  show ?thesis
    using run_closure_simulates [where R = "frame w", OF sim w' put c _ _ fill contents] dist c
    by (simp add: spec_call_def contents_def split_beta)
qed

lemma call_path:
  assumes "path sl w f p qs" and "distinct qs" and "frame w w'"
  shows "call_at sl w' p a =
    (let (r, cs) = spec_call f (contents w' qs) a in Some (r, fill qs cs w'))"
  using assms
proof (induction arbitrary: w' a rule: path.induct)
  case (path_function p)
  then show ?case
    using frame_code(1) [OF path_function(3,1)]
    by (simp add: call_at.simps [of sl w' p] spec_call_def contents_def)
next
  case (path_dispatcher p lk original l qs)
  show ?case
    using frame_code(2) [OF path_dispatcher.prems(2) path_dispatcher.hyps(1)] frame_sel [OF path_dispatcher.prems(2)]
      path_dispatcher by (auto simp: call_at.simps [of sl w' p] split: option.splits)
next
  case (path_static p original c qs)
  obtain d where d: "w_code w' p = Some (Static_closure original d)"
    using frame_code(4) [OF path_static.prems(2) path_static.hyps(1)] by blast
  have "run_closure (\<lambda>w a. call_at sl w original a) (put_closure p) d w' a =
      (let (r, cs) = spec_call f (contents w' (p # qs)) a in Some (r, fill (p # qs) cs w'))"
    using path_static d by (intro run_closure_path) (auto simp: closure_at_def)
  then show ?case using d by (simp add: call_at.simps [of sl w' p])
next
  case (path_temp p h c hook l qs)
  obtain d where d: "w_code w' p = Some (Temp_closure h d)"
    using frame_code(3) [OF path_temp.prems(2) path_temp.hyps(1)] by blast
  let ?orig = "\<lambda>w a. case w_hooks w h of None \<Rightarrow> None
    | Some hook \<Rightarrow> (case w_lists w (th_list hook) of None \<Rightarrow> None
        | Some l \<Rightarrow> call_at sl w (next_closure sl l hook) a)"
  have "?orig v b = (let (r, cs) = spec_call f (contents v qs) b in Some (r, fill qs cs v))" if "frame w v" for v b
    using path_temp.IH [OF _ that, of b] path_temp.hyps path_temp.prems(1) frame_sel [OF that] by simp
  then have "run_closure ?orig (put_closure p) d w' a =
      (let (r, cs) = spec_call f (contents w' (p # qs)) a in Some (r, fill (p # qs) cs w'))"
    using path_temp.hyps path_temp.prems d by (intro run_closure_path) (auto simp: closure_at_def)
  then show ?case using d by (simp add: call_at.simps [of sl w' p])
qed

end
