(* ===== verification/Hook_History.thy ===== *)
theory Hook_History
  imports Hook_Chain
begin

text \<open>
  Hooks over time: any sequence of temporary hooks, static hooks, dropped handles and calls keeps the
  hooks of each function in levels, one per static hook and one per list of temporary hooks, and a
  call runs them from the top level down and from the newest temporary hook of a list to the oldest,
  then the original function.
\<close>

section \<open>Levels\<close>

text \<open>A static hook's closure, or a function type with its temporary hooks: handles and closures.\<close>

datatype level = Fixed nat | Listed nat "(nat \<times> nat) list"

fun level_types :: "level list \<Rightarrow> nat list" where
  "level_types [] = []"
| "level_types (Fixed q # ls) = level_types ls"
| "level_types (Listed ty es # ls) = ty # level_types ls"

fun flat :: "level list \<Rightarrow> nat list" where
  "flat [] = []"
| "flat (Fixed q # ls) = q # flat ls"
| "flat (Listed ty es # ls) = map snd es @ flat ls"

fun change_level :: "nat \<Rightarrow> ((nat \<times> nat) list \<Rightarrow> (nat \<times> nat) list) \<Rightarrow> level list \<Rightarrow> level list" where
  "change_level ty g [] = []"
| "change_level ty g (Fixed q # ls) = Fixed q # change_level ty g ls"
| "change_level ty g (Listed ty' es # ls) = Listed ty' (if ty' = ty then g es else es) # change_level ty g ls"

definition hook_key :: "('s, 'a, 'r, 'c) world \<Rightarrow> nat \<Rightarrow> nat" where
  "hook_key w h = (case w_hooks w h of Some hook \<Rightarrow> th_key hook | None \<Rightarrow> usize_max)"

definition keyed :: "('s, 'a, 'r, 'c) world \<Rightarrow> (nat \<times> nat) list \<Rightarrow> (nat \<times> nat) list" where
  "keyed w es = map (\<lambda>e. (hook_key w (fst e), snd e)) es"

lemma keyed_simps [simp]:
  "keyed w [] = []" "keyed w ((h, q) # es) = (hook_key w h, q) # keyed w es"
  "keyed w (us @ vs) = keyed w us @ keyed w vs" "keyed w es = [] \<longleftrightarrow> es = []"
  "snd (hd (keyed w (e # es))) = snd e"
  by (simp_all add: keyed_def)

lemma keyed_hd: "es \<noteq> [] \<Longrightarrow> snd (hd (keyed w es)) = snd (hd es)"
  by (simp add: keyed_def hd_map)

text \<open>The list \<open>lk\<close> holds the hooks \<open>es\<close>, the newest first, above the function at \<open>original\<close>.\<close>

definition list_ok ::
    "('s, nat node) slab_ops \<Rightarrow> ('s \<Rightarrow> bool) \<Rightarrow> ('s, 'a, 'r, 'c) world \<Rightarrow> list_key \<Rightarrow> nat \<Rightarrow> (nat \<times> nat) list \<Rightarrow> bool" where
  "list_ok sl valid w lk original es \<longleftrightarrow>
     (\<exists>l. w_lists w lk = Some l \<and> cl_original l = Some original \<and> cl_extra l = int (length es) - 1
       \<and> ls_holds sl valid (cl_closures l) (keyed w es))
     \<and> (\<forall>(h, q) \<in> set es. (\<exists>hook. w_hooks w h = Some hook \<and> th_list hook = lk \<and> th_original hook = original)
       \<and> (\<exists>c. w_code w q = Some (Temp_closure h c)))"

fun layered ::
    "('s, nat node) slab_ops \<Rightarrow> ('s \<Rightarrow> bool) \<Rightarrow> ('s, 'a, 'r, 'c) world \<Rightarrow> nat \<Rightarrow> ('a \<Rightarrow> 'r) \<Rightarrow> nat \<Rightarrow> level list \<Rightarrow> bool" where
  "layered sl valid w t f p [] \<longleftrightarrow> w_code w p = Some (Function f)"
| "layered sl valid w t f p (Fixed q # ls) \<longleftrightarrow> q = p
     \<and> (\<exists>original c. w_code w p = Some (Static_closure original c) \<and> layered sl valid w t f original ls)"
| "layered sl valid w t f p (Listed ty es # ls) \<longleftrightarrow>
     (\<exists>original. w_code w p = Some (Dispatcher (t, ty) original) \<and> list_ok sl valid w (t, ty) original es
       \<and> layered sl valid w t f original ls)"

definition hooks_ok ::
    "('s, nat node) slab_ops \<Rightarrow> ('s \<Rightarrow> bool) \<Rightarrow> (nat \<Rightarrow> 'a \<Rightarrow> 'r) \<Rightarrow> ('s, 'a, 'r, 'c) world \<Rightarrow> (nat \<Rightarrow> level list) \<Rightarrow> bool" where
  "hooks_ok sl valid f w lv \<longleftrightarrow> slab_laws sl valid
     \<and> (\<forall>t. layered sl valid w t (f t) (w_thunk w t) (lv t)
          \<and> distinct (level_types (lv t)) \<and> distinct (flat (lv t)))
     \<and> (\<forall>t ty. w_lists w (t, ty) \<noteq> None \<longrightarrow> ty \<in> set (level_types (lv t)))
     \<and> (\<forall>h hook. w_hooks w h = Some hook \<longrightarrow>
          (\<exists>es q. Listed (snd (th_list hook)) es \<in> set (lv (fst (th_list hook))) \<and> (h, q) \<in> set es))"

lemma level_typesI: "Listed ty es \<in> set ls \<Longrightarrow> ty \<in> set (level_types ls)"
  by (induction ls rule: level_types.induct) auto

lemma level_types_change [simp]: "level_types (change_level ty g ls) = level_types ls"
  by (induction ls rule: level_types.induct) auto

lemma change_level_missing: "ty \<notin> set (level_types ls) \<Longrightarrow> change_level ty g ls = ls"
  by (induction ls rule: level_types.induct) auto

section \<open>A call through the levels\<close>

lemma next_closure_listed:
  assumes es: "list_ok sl valid w lk original (us @ (h, q) # vs)"
    and hook: "w_hooks w h = Some hook" and l: "w_lists w lk = Some l"
  shows "next_closure sl l hook = (if vs = [] then original else snd (hd vs))"
proof -
  have h: "ls_holds sl valid (cl_closures l) (keyed w us @ (th_key hook, q) # keyed w vs)"
    and extra: "cl_extra l = int (length us + length vs)" and o: "th_original hook = original"
    using es hook l by (auto simp: list_ok_def hook_key_def)
  have "th_key hook \<notin> fst ` set (keyed w us)" by (rule keyed_before [OF ls.keys_distinct [OF h]])
  then have "ls_get_next sl (cl_closures l) (th_key hook) = (if vs = [] then None else Some (snd (hd vs)))"
    using ls.get_next_holds [OF h, of "th_key hook"] by (simp add: next_of_split keyed_hd)
  moreover have "vs = []" if "\<not> 0 < cl_extra l" using extra that by (cases vs) simp_all
  ultimately show ?thesis using o by (auto simp: next_closure_def)
qed

lemma listed_path:
  assumes "list_ok sl valid w lk original (us @ vs)" and "path sl w f original qs"
  shows "path sl w f (if vs = [] then original else snd (hd vs)) (map snd vs @ qs)"
  using assms(1)
proof (induction vs arbitrary: us)
  case Nil
  then show ?case using assms(2) by simp
next
  case (Cons e vs)
  obtain h q where e: "e = (h, q)" by (cases e)
  have "\<exists>hook c l. w_hooks w h = Some hook \<and> th_list hook = lk \<and> w_code w q = Some (Temp_closure h c)
      \<and> w_lists w lk = Some l"
    using Cons.prems by (auto simp: list_ok_def e)
  then obtain hook c l where h: "w_hooks w h = Some hook" "th_list hook = lk"
      "w_code w q = Some (Temp_closure h c)" "w_lists w lk = Some l" by blast
  have "path sl w f (next_closure sl l hook) (map snd vs @ qs)"
    using Cons.IH [of "us @ [e]"] Cons.prems next_closure_listed [OF _ h(1,4)] by (simp add: e)
  then show ?case using path_temp [OF h(3,1)] h(2,4) by (simp add: e)
qed

lemma layered_path: "layered sl valid w t f p ls \<Longrightarrow> path sl w f p (flat ls)"
proof (induction ls arbitrary: p rule: flat.induct)
  case (2 q ls)
  then show ?case by (auto intro: path_static)
next
  case (3 ty es ls)
  then obtain original where o: "w_code w p = Some (Dispatcher (t, ty) original)"
      "list_ok sl valid w (t, ty) original es" "path sl w f original (flat ls)" by auto
  then obtain l where l: "w_lists w (t, ty) = Some l"
      "ls_holds sl valid (cl_closures l) (keyed w es)"
    by (auto simp: list_ok_def)
  have "(case ls_first sl (cl_closures l) of Some q \<Rightarrow> q | None \<Rightarrow> original)
      = (if es = [] then original else snd (hd es))"
    using ls.front_holds [OF l(2)] by (simp add: keyed_hd)
  then show ?case
    using listed_path [of sl valid w "(t, ty)" original "[]" es f "flat ls"] o l(1) path_dispatcher [OF o(1) l(1)] by simp
qed (auto intro: path_function)

section \<open>Changing the hooks\<close>

lemma list_ok_frame:
  assumes "list_ok sl valid w lk original es" and "w_lists w' lk = w_lists w lk"
    and "\<And>h q. (h, q) \<in> set es \<Longrightarrow> w_hooks w' h = w_hooks w h \<and> w_code w' q = w_code w q"
  shows "list_ok sl valid w' lk original es"
proof -
  have "keyed w' es = keyed w es"
    using assms(3) by (auto simp: keyed_def hook_key_def)
  moreover have "(\<exists>hook. w_hooks w' h = Some hook \<and> th_list hook = lk \<and> th_original hook = original)
      \<and> (\<exists>c. w_code w' q = Some (Temp_closure h c))" if "(h, q) \<in> set es" for h q
    using assms(1) that assms(3) [OF that] by (auto simp: list_ok_def)
  ultimately show ?thesis using assms(1,2) by (auto simp: list_ok_def)
qed

lemma list_ok_entry:
  "list_ok sl valid w lk original es \<Longrightarrow> (h, q) \<in> set es \<Longrightarrow>
    (\<exists>hook. w_hooks w h = Some hook \<and> th_list hook = lk) \<and> (\<exists>c. w_code w q = Some (Temp_closure h c))"
  by (auto simp: list_ok_def)

lemma layered_change:
  assumes "layered sl valid w t f p ls"
    and "\<And>x c. w_code w x = Some c \<Longrightarrow> (\<And>h d. c \<noteq> Temp_closure h d) \<Longrightarrow> w_code w' x = Some c"
    and "\<And>ty' es original. Listed ty' es \<in> set ls \<Longrightarrow> ty' \<noteq> ty \<Longrightarrow> list_ok sl valid w (t, ty') original es
      \<Longrightarrow> list_ok sl valid w' (t, ty') original es"
    and "\<And>es original. Listed ty es \<in> set ls \<Longrightarrow> list_ok sl valid w (t, ty) original es
      \<Longrightarrow> list_ok sl valid w' (t, ty) original (g es)"
  shows "layered sl valid w' t f p (change_level ty g ls)"
  using assms(1,3,4)
proof (induction ls arbitrary: p rule: flat.induct)
  case (2 q ls)
  from 2(2) obtain original c where "w_code w p = Some (Static_closure original c)" "layered sl valid w t f original ls"
    by auto
  with 2 assms(2) [of p "Static_closure original c"] show ?case by auto
next
  case (3 ty' es ls)
  from 3(2) obtain original where o: "w_code w p = Some (Dispatcher (t, ty') original)"
      "list_ok sl valid w (t, ty') original es" "layered sl valid w t f original ls" by auto
  have "layered sl valid w' t f original (change_level ty g ls)" using 3 o(3) by simp
  moreover have "list_ok sl valid w' (t, ty') original (if ty' = ty then g es else es)"
    using 3(3,4) o(2) by auto
  ultimately show ?case using o(1) assms(2) [of p "Dispatcher (t, ty') original"] by auto
qed (use assms(2) in auto)

lemma layered_frame:
  assumes "layered sl valid w t f p ls"
    and "\<And>x c. w_code w x = Some c \<Longrightarrow> (\<And>h d. c \<noteq> Temp_closure h d) \<Longrightarrow> w_code w' x = Some c"
    and "\<And>ty es original. Listed ty es \<in> set ls \<Longrightarrow> list_ok sl valid w (t, ty) original es
      \<Longrightarrow> list_ok sl valid w' (t, ty) original es"
  shows "layered sl valid w' t f p ls"
proof -
  have "change_level ty (\<lambda>es. es) ls = ls" for ty :: nat
    by (induction ls rule: flat.induct) auto
  with layered_change [where g = "\<lambda>es. es", OF assms(1,2)] assms(3) show ?thesis by metis
qed

text \<open>Closures in use are where the code has a temporary or a static closure.\<close>

lemma listed_entry:
  assumes "layered sl valid w t f p ls" and "Listed ty es \<in> set ls"
  shows "\<exists>original. list_ok sl valid w (t, ty) original es"
  using assms by (induction ls arbitrary: p rule: flat.induct) auto

lemma flat_code:
  assumes "layered sl valid w t f p ls" and "q \<in> set (flat ls)"
  shows "w_code w q \<noteq> None"
  using assms by (induction ls arbitrary: p rule: flat.induct) (auto simp: list_ok_def)

lemma hooks_okD:
  assumes "hooks_ok sl valid f w lv"
  shows "slab_laws sl valid" and "layered sl valid w t (f t) (w_thunk w t) (lv t)"
    and "distinct (level_types (lv t))" and "distinct (flat (lv t))"
    and "w_lists w (t, ty) = Some l \<Longrightarrow> ty \<in> set (level_types (lv t))"
    and "w_hooks w h = Some hook \<Longrightarrow>
      \<exists>es q. Listed (snd (th_list hook)) es \<in> set (lv (fst (th_list hook))) \<and> (h, q) \<in> set es"
  using assms unfolding hooks_ok_def by blast+

definition ensure_level :: "nat \<Rightarrow> level list \<Rightarrow> level list" where
  "ensure_level ty ls = (if ty \<in> set (level_types ls) then ls else Listed ty [] # ls)"

lemma level_types_Listed: "ty \<in> set (level_types ls) \<longleftrightarrow> (\<exists>es. Listed ty es \<in> set ls)"
  by (induction ls rule: level_types.induct) auto

lemma into_unowned_same:
  assumes ok: "hooks_ok sl valid f w lv" and ty: "ty \<in> set (level_types (lv t))"
  shows "\<exists>l original. w_lists w (t, ty) = Some l \<and> cl_original l = Some original
    \<and> into_unowned_handle sl p (t, ty) w = (\<lparr>th_list = (t, ty), th_original = original, th_key = usize_max\<rparr>, w)"
proof -
  obtain es where "Listed ty es \<in> set (lv t)" using ty by (auto simp: level_types_Listed)
  then obtain original where "list_ok sl valid w (t, ty) original es"
    using listed_entry [OF hooks_okD(2) [OF ok]] by blast
  then obtain l where "w_lists w (t, ty) = Some l" "cl_original l = Some original"
    by (auto simp: list_ok_def)
  then show ?thesis by (simp add: into_unowned_handle_def lib_closures_def)
qed

definition with_dispatcher ::
    "('s, nat node) slab_ops \<Rightarrow> nat \<Rightarrow> nat \<Rightarrow> nat \<Rightarrow> ('s, 'a, 'r, 'c) world \<Rightarrow> ('s, 'a, 'r, 'c) world" where
  "with_dispatcher sl p t ty w =
     w\<lparr>w_thunk := (w_thunk w)(t := p), w_code := (w_code w)(p \<mapsto> Dispatcher (t, ty) (w_thunk w t)),
       w_lists := (w_lists w)((t, ty) \<mapsto> (closure_list_default sl)\<lparr>cl_original := Some (w_thunk w t)\<rparr>)\<rparr>"

lemma with_dispatcher_sel [simp]:
  "w_thunk (with_dispatcher sl p t ty w) = (w_thunk w)(t := p)"
  "w_code (with_dispatcher sl p t ty w) = (w_code w)(p \<mapsto> Dispatcher (t, ty) (w_thunk w t))"
  "w_lists (with_dispatcher sl p t ty w) =
     (w_lists w)((t, ty) \<mapsto> (closure_list_default sl)\<lparr>cl_original := Some (w_thunk w t)\<rparr>)"
  "w_hooks (with_dispatcher sl p t ty w) = w_hooks w"
  by (simp_all add: with_dispatcher_def)

lemma into_unowned_new:
  assumes ok: "hooks_ok sl valid f w lv" and p: "w_code w p = None" and ty: "ty \<notin> set (level_types (lv t))"
  shows "into_unowned_handle sl p (t, ty) w =
    (\<lparr>th_list = (t, ty), th_original = w_thunk w t, th_key = usize_max\<rparr>,
     with_dispatcher sl p t ty w)"
    and "hooks_ok sl valid f (with_dispatcher sl p t ty w) (lv(t := Listed ty [] # lv t))"
proof -
  let ?w = "with_dispatcher sl p t ty w"
  have none: "w_lists w (t, ty) = None" using hooks_okD(5) [OF ok] ty by (metis not_None_eq)
  then show "into_unowned_handle sl p (t, ty) w =
      (\<lparr>th_list = (t, ty), th_original = w_thunk w t, th_key = usize_max\<rparr>, ?w)"
    by (simp add: into_unowned_handle_def lib_closures_def closure_list_default_def update_thunk_def with_dispatcher_def Let_def)
  have frame: "layered sl valid ?w t' (f t') (w_thunk w t') (lv t')" for t'
  proof (rule layered_frame [OF hooks_okD(2) [OF ok]])
    fix ty' es original
    assume e: "Listed ty' es \<in> set (lv t')" and l: "list_ok sl valid w (t', ty') original es"
    have "(t', ty') \<noteq> (t, ty)" using level_typesI [OF e] ty by auto
    moreover have "q \<noteq> p" if "(h, q) \<in> set es" for h q using l that p by (auto simp: list_ok_def)
    ultimately show "list_ok sl valid ?w (t', ty') original es" by (intro list_ok_frame [OF l]) auto
  qed (use p in auto)
  have "list_ok sl valid ?w (t, ty) (w_thunk w t) []"
    using ls_new_holds [OF hooks_okD(1) [OF ok]] by (simp add: list_ok_def closure_list_default_def)
  with frame [of t] have "layered sl valid ?w t (f t) p (Listed ty [] # lv t)" by simp
  moreover have "ty' \<in> set (level_types ((lv(t := Listed ty [] # lv t)) t'))" if "w_lists ?w (t', ty') \<noteq> None" for t' ty'
    using that hooks_okD(5) [OF ok] by (auto split: if_splits)
  moreover have "\<exists>es q. Listed (snd (th_list hook)) es \<in> set ((lv(t := Listed ty [] # lv t)) (fst (th_list hook))) \<and> (h, q) \<in> set es"
    if "w_hooks ?w h = Some hook" for h hook
    using that hooks_okD(6) [OF ok, of h hook] by auto
  ultimately show "hooks_ok sl valid f ?w (lv(t := Listed ty [] # lv t))"
    using frame hooks_okD(1,3,4) [OF ok] ty unfolding hooks_ok_def by simp
qed

lemma into_unowned_ok:
  assumes "hooks_ok sl valid f w lv" and "w_code w p = None"
    and "into_unowned_handle sl p (t, ty) w = (hook, w')"
  shows "hooks_ok sl valid f w' (lv(t := ensure_level ty (lv t)))"
    and "th_list hook = (t, ty)" and "th_key hook = usize_max" and "w_hooks w' = w_hooks w"
    and "\<exists>l. w_lists w' (t, ty) = Some l \<and> cl_original l = Some (th_original hook)"
    and "x \<noteq> p \<Longrightarrow> w_code w' x = w_code w x"
    and "closure_at w' = closure_at w"
proof -
  have "hooks_ok sl valid f w' (lv(t := ensure_level ty (lv t))) \<and> th_list hook = (t, ty)
      \<and> th_key hook = usize_max \<and> w_hooks w' = w_hooks w
      \<and> (\<exists>l. w_lists w' (t, ty) = Some l \<and> cl_original l = Some (th_original hook))
      \<and> (\<forall>x. x \<noteq> p \<longrightarrow> w_code w' x = w_code w x) \<and> closure_at w' = closure_at w"
  proof (cases "ty \<in> set (level_types (lv t))")
    case True
    with into_unowned_same [OF assms(1) True, of p] assms(1,3) show ?thesis by (auto simp: ensure_level_def)
  next
    case False
    have "closure_at w' = closure_at w"
      using into_unowned_new(1) [OF assms(1,2) False] assms(2,3) by (auto simp: closure_at_def fun_eq_iff)
    with into_unowned_new [OF assms(1,2) False] assms(3) False show ?thesis by (auto simp: ensure_level_def)
  qed
  then show "hooks_ok sl valid f w' (lv(t := ensure_level ty (lv t)))"
    and "th_list hook = (t, ty)" and "th_key hook = usize_max" and "w_hooks w' = w_hooks w"
    and "\<exists>l. w_lists w' (t, ty) = Some l \<and> cl_original l = Some (th_original hook)"
    and "x \<noteq> p \<Longrightarrow> w_code w' x = w_code w x" and "closure_at w' = closure_at w" by blast+
qed

lemma flat_cons: "set (flat (change_level ty (Cons (h, q)) ls)) \<subseteq> insert q (set (flat ls))"
  by (induction ls rule: flat.induct) auto

lemma distinct_flat_cons:
  "distinct (flat ls) \<Longrightarrow> q \<notin> set (flat ls) \<Longrightarrow> distinct (level_types ls)
    \<Longrightarrow> distinct (flat (change_level ty (Cons (h, q)) ls))"
proof (induction ls rule: flat.induct)
  case (2 r ls)
  then show ?case using flat_cons [of ty h q ls] by auto
next
  case (3 ty' es ls)
  then have "ty' = ty \<Longrightarrow> change_level ty (Cons (h, q)) ls = ls" by (simp add: change_level_missing)
  with 3 show ?case using flat_cons [of ty h q ls] by auto
qed simp

lemma flat_filter: "set (flat (change_level ty (filter P) ls)) \<subseteq> set (flat ls)"
  by (induction ls rule: flat.induct) auto

lemma distinct_flat_filter: "distinct (flat ls) \<Longrightarrow> distinct (flat (change_level ty (filter P) ls))"
proof (induction ls rule: flat.induct)
  case (2 q ls)
  then show ?case using flat_filter [of ty P ls] by auto
next
  case (3 ty' es ls)
  then show ?case using flat_filter [of ty P ls] by (auto simp: distinct_map_filter)
qed simp

lemma Listed_change:
  "Listed ty es \<in> set ls \<Longrightarrow> Listed ty (if ty = ty' then g es else es) \<in> set (change_level ty' g ls)"
  by (induction ls rule: flat.induct) auto

lemma Listed_unique:
  "distinct (level_types ls) \<Longrightarrow> Listed ty es \<in> set ls \<Longrightarrow> Listed ty es' \<in> set ls \<Longrightarrow> es = es'"
  by (induction ls rule: flat.induct) (auto dest: level_typesI)

text \<open>
  Hooks on one list change: the state \<open>w'\<close> agrees with \<open>w\<close> but for the list \<open>(t, ty)\<close>, its handles, and
  the code of its closures.
\<close>

lemma hooks_ok_change:
  assumes ok: "hooks_ok sl valid f w lv" and thunk: "w_thunk w' = w_thunk w"
    and code: "\<And>x c. w_code w x = Some c \<Longrightarrow> (\<And>h d. c \<noteq> Temp_closure h d) \<Longrightarrow> w_code w' x = Some c"
    and other: "\<And>t' ty' es original. (t', ty') \<noteq> (t, ty) \<Longrightarrow> list_ok sl valid w (t', ty') original es
      \<Longrightarrow> list_ok sl valid w' (t', ty') original es"
    and changed: "\<And>es original. Listed ty es \<in> set (lv t) \<Longrightarrow> list_ok sl valid w (t, ty) original es \<Longrightarrow> list_ok sl valid w' (t, ty) original (g es)"
    and flat: "distinct (flat (change_level ty g (lv t)))"
    and lists: "\<And>lk. w_lists w' lk = None \<longleftrightarrow> w_lists w lk = None"
    and hooks: "\<And>h hook es. w_hooks w' h = Some hook \<Longrightarrow>
      (\<exists>es q. Listed (snd (th_list hook)) es \<in> set (change_level ty g (lv t)) \<and> (h, q) \<in> set es \<and> fst (th_list hook) = t)
        \<or> (w_hooks w h = Some hook \<and> th_list hook \<noteq> (t, ty))"
  shows "hooks_ok sl valid f w' (lv(t := change_level ty g (lv t)))"
proof -
  let ?lv = "lv(t := change_level ty g (lv t))"
  have "layered sl valid w' t' (f t') (w_thunk w' t') (?lv t')" for t'
    using layered_change [OF hooks_okD(2) [OF ok, of t] code other changed]
      layered_frame [OF hooks_okD(2) [OF ok, of t'] code other] thunk by simp
  moreover have "ty' \<in> set (level_types (?lv t'))" if "w_lists w' (t', ty') \<noteq> None" for t' ty'
    using that lists [of "(t', ty')"] hooks_okD(5) [OF ok, of t' ty'] by auto
  moreover have "\<exists>es q. Listed (snd (th_list hook)) es \<in> set (?lv (fst (th_list hook))) \<and> (h, q) \<in> set es"
    if "w_hooks w' h = Some hook" for h hook
    using hooks [OF that]
  proof
    assume h: "w_hooks w h = Some hook \<and> th_list hook \<noteq> (t, ty)"
    then obtain es q where e: "Listed (snd (th_list hook)) es \<in> set (lv (fst (th_list hook)))" "(h, q) \<in> set es"
      using hooks_okD(6) [OF ok] by blast
    show ?thesis
    proof (cases "fst (th_list hook) = t")
      case True
      then have "snd (th_list hook) \<noteq> ty" using h by (metis prod.collapse)
      then show ?thesis using e True Listed_change [OF e(1), of ty g] by auto
    next
      case False
      then show ?thesis using e by auto
    qed
  qed auto
  ultimately show ?thesis
    using hooks_okD(1,3,4) [OF ok] flat unfolding hooks_ok_def by simp
qed

lemma hook_ok:
  assumes ok: "hooks_ok sl valid f w lv" and fresh: "w_code w p = None" "w_code w q = None" "p \<noteq> q" "w_hooks w h = None"
  shows "hooks_ok sl valid f (hook_unchecked_lt sl p q h c (t, ty) w)
      (lv(t := change_level ty (Cons (h, q)) (ensure_level ty (lv t))))"
    and "closure_at (hook_unchecked_lt sl p q h c (t, ty) w) = (closure_at w)(q \<mapsto> c)"
proof -
  obtain hook w1 where i: "into_unowned_handle sl p (t, ty) w = (hook, w1)" by (cases "into_unowned_handle sl p (t, ty) w")
  note i' = into_unowned_ok [OF ok fresh(1) i]
  obtain l where l: "w_lists w1 (t, ty) = Some l" "cl_original l = Some (th_original hook)" using i'(5) by blast
  define key where "key = fst (ls_push_front sl (cl_closures l) q)"
  define closures where "closures = snd (ls_push_front sl (cl_closures l) q)"
  let ?w = "hook_unchecked_lt sl p q h c (t, ty) w"
  let ?lv = "lv(t := ensure_level ty (lv t))"
  have w: "?w = w1\<lparr>w_code := (w_code w1)(q \<mapsto> Temp_closure h c),
      w_lists := (w_lists w1)((t, ty) \<mapsto> l\<lparr>cl_closures := closures, cl_extra := cl_extra l + 1\<rparr>),
      w_hooks := (w_hooks w1)(h \<mapsto> hook\<lparr>th_key := key\<rparr>)\<rparr>"
    by (simp add: hook_unchecked_lt_def i l key_def closures_def split_beta)
  have q: "w_code w1 q = None" and h: "w_hooks w1 h = None" using i'(4,6) fresh by simp_all
  have in_use: "r \<noteq> q" "h' \<noteq> h" if "list_ok sl valid w1 lk original es" "(h', r) \<in> set es" for lk original es h' r
    using that q h by (auto simp: list_ok_def)
  have "hooks_ok sl valid f ?w (?lv(t := change_level ty (Cons (h, q)) (?lv t)))"
  proof (rule hooks_ok_change [OF i'(1)])
    fix es original assume e: "list_ok sl valid w1 (t, ty) original es"
    then have holds: "ls_holds sl valid (cl_closures l) (keyed w1 es)" and o: "th_original hook = original"
      and n: "cl_extra l = int (length es) - 1" using l by (auto simp: list_ok_def)
    have "\<forall>d \<in> set es. fst d \<noteq> h" using in_use(2) [OF e] by (metis prod.collapse)
    then have "keyed ?w es = keyed w1 es" by (auto simp: w keyed_def hook_key_def)
    moreover have "ls_holds sl valid closures ((key, q) # keyed w1 es)"
      using ls.push_holds [OF holds, of q] by (simp add: key_def closures_def)
    ultimately show "list_ok sl valid ?w (t, ty) original ((h, q) # es)"
      using e o n i'(2) l in_use [OF e] by (auto simp: list_ok_def w hook_key_def)
  next
    fix t' ty' es original
    assume "(t', ty') \<noteq> (t, ty)" and e: "list_ok sl valid w1 (t', ty') original es"
    then show "list_ok sl valid ?w (t', ty') original es"
      using in_use [OF e] by (intro list_ok_frame [OF e]) (auto simp: w)
  next
    have "q \<notin> set (flat (?lv t))" using flat_code [OF hooks_okD(2) [OF i'(1), of t]] q by metis
    then show "distinct (flat (change_level ty (Cons (h, q)) (?lv t)))"
      using hooks_okD(3,4) [OF i'(1), of t] by (intro distinct_flat_cons)
  next
    fix h' hook' assume h': "w_hooks ?w h' = Some hook'"
    have "\<exists>es. Listed ty es \<in> set (?lv t)" using hooks_okD(5) [OF i'(1) l(1)] by (simp add: level_types_Listed)
    then obtain es where es: "Listed ty es \<in> set (?lv t)" ..
    note change = Listed_change [OF es, of ty "Cons (h, q)"]
    show "(\<exists>es q'. Listed (snd (th_list hook')) es \<in> set (change_level ty (Cons (h, q)) (?lv t)) \<and> (h', q') \<in> set es
        \<and> fst (th_list hook') = t) \<or> (w_hooks w1 h' = Some hook' \<and> th_list hook' \<noteq> (t, ty))"
    proof (cases "h' = h")
      case True
      then have "hook' = hook\<lparr>th_key := key\<rparr>" using h' w by simp
      then have "th_list hook' = (t, ty)" using i'(2) by simp
      moreover have "Listed ty ((h, q) # es) \<in> set (change_level ty (Cons (h, q)) (?lv t))" using change by simp
      ultimately show ?thesis using True by (metis fst_conv list.set_intros(1) snd_conv)
    next
      case False
      then have h1: "w_hooks w1 h' = Some hook'" using h' w by simp
      show ?thesis
      proof (cases "th_list hook' = (t, ty)")
        case True
        then obtain es' q' where "Listed ty es' \<in> set (?lv t)" "(h', q') \<in> set es'"
          using hooks_okD(6) [OF i'(1) h1] by auto
        then have "Listed ty ((h, q) # es') \<in> set (change_level ty (Cons (h, q)) (?lv t))" "(h', q') \<in> set ((h, q) # es')"
          using Listed_change [of ty es' "?lv t" ty "Cons (h, q)"] by simp_all
        then show ?thesis using True by (metis fst_conv snd_conv)
      qed (use h1 in simp)
    qed
  qed (use w q l in auto)
  then show "hooks_ok sl valid f ?w (lv(t := change_level ty (Cons (h, q)) (ensure_level ty (lv t))))" by simp
  show "closure_at ?w = (closure_at w)(q \<mapsto> c)"
    using i'(7) by (auto simp: w closure_at_def fun_eq_iff)
qed

lemma listed_split:
  assumes es: "list_ok sl valid w lk original es" and h: "(h, q) \<in> set es"
  obtains us vs where "es = us @ (h, q) # vs" "h \<notin> fst ` set us" "h \<notin> fst ` set vs"
proof -
  obtain us vs where s: "es = us @ (h, q) # vs" using h by (auto dest: split_list)
  obtain l where l: "ls_holds sl valid l (keyed w us @ (hook_key w h, q) # keyed w vs)"
    using es by (auto simp: list_ok_def s)
  have "distinct (map fst (keyed w us) @ hook_key w h # map fst (keyed w vs))"
    using ls.keys_distinct [OF l] by simp
  then have "hook_key w h \<notin> hook_key w ` fst ` set us" "hook_key w h \<notin> hook_key w ` fst ` set vs"
    by (auto simp: keyed_def image_image)
  then show thesis using that s by blast
qed

lemma drop_ok:
  assumes ok: "hooks_ok sl valid f w lv" and h: "w_hooks w h = Some hook" "th_list hook = (t, ty)"
  shows "hooks_ok sl valid f (drop_handle sl h w) (lv(t := change_level ty (filter (\<lambda>e. fst e \<noteq> h)) (lv t)))"
    and "q \<in> set (flat (change_level ty (filter (\<lambda>e. fst e \<noteq> h)) (lv t))) \<or> t' \<noteq> t \<and> q \<in> set (flat (lv t'))
      \<Longrightarrow> closure_at (drop_handle sl h w) q = closure_at w q"
proof -
  let ?w = "drop_handle sl h w"
  obtain es q0 where es: "Listed ty es \<in> set (lv t)" "(h, q0) \<in> set es"
    using hooks_okD(6) [OF ok h(1)] h(2) by auto
  obtain original where e: "list_ok sl valid w (t, ty) original es"
    using listed_entry [OF hooks_okD(2) [OF ok] es(1)] by blast
  obtain l where l: "w_lists w (t, ty) = Some l" by (meson e list_ok_def)
  define closures where "closures = snd (ls_remove sl (cl_closures l) (th_key hook))"
  have key: "hook_key w h = th_key hook" using h(1) by (simp add: hook_key_def)
  have removed: "fst (ls_remove sl (cl_closures l) (th_key hook)) = Some q0
      \<and> ls_holds sl valid closures (keyed w (filter (\<lambda>e. fst e \<noteq> h) es'))
      \<and> cl_extra l - 1 = int (length (filter (\<lambda>e. fst e \<noteq> h) es')) - 1"
    if e': "list_ok sl valid w (t, ty) original' es'" "(h, q0) \<in> set es'" for original' es'
  proof -
    obtain us vs where s: "es' = us @ (h, q0) # vs" "h \<notin> fst ` set us" "h \<notin> fst ` set vs"
      using listed_split [OF e'] by blast
    then have "filter (\<lambda>e. fst e \<noteq> h) us = us" "filter (\<lambda>e. fst e \<noteq> h) vs = vs"
      by (auto simp: filter_id_conv image_iff)
    then have filter: "filter (\<lambda>e. fst e \<noteq> h) es' = us @ vs" by (simp add: s(1))
    have holds: "ls_holds sl valid (cl_closures l) (keyed w us @ (th_key hook, q0) # keyed w vs)"
      and n: "cl_extra l = int (length es') - 1" using e'(1) l by (auto simp: list_ok_def s(1) key)
    have "map_of (keyed w us) (th_key hook) = None"
      using ls.keys_distinct [OF holds] by (simp add: map_of_eq_None_iff)
    then show ?thesis
      unfolding filter closures_def
      using ls.rem_holds [OF holds, of "th_key hook"] without_key_split [OF ls.keys_distinct [OF holds]] n
      by (simp add: s(1) map_add_def)
  qed
  have w: "?w = w\<lparr>w_hooks := (w_hooks w)(h := None),
      w_lists := (w_lists w)((t, ty) \<mapsto> l\<lparr>cl_closures := closures, cl_extra := cl_extra l - 1\<rparr>),
      w_code := (w_code w)(q0 := None)\<rparr>"
    using removed [OF e es(2)] by (simp add: drop_handle_def hook_drop_def h l closures_def split_beta)
  have apart: "r \<noteq> q0" "h' \<noteq> h"
    if "list_ok sl valid w lk original' es'" "(h', r) \<in> set es'" "lk \<noteq> (t, ty) \<or> h' \<noteq> h" for lk original' es' h' r
    using list_ok_entry [OF that(1,2)] list_ok_entry [OF e es(2)] h that(3) by auto
  have "hooks_ok sl valid f ?w (lv(t := change_level ty (filter (\<lambda>e. fst e \<noteq> h)) (lv t)))"
  proof (rule hooks_ok_change [OF ok])
    fix es' original'
    assume l': "Listed ty es' \<in> set (lv t)" and e': "list_ok sl valid w (t, ty) original' es'"
    have "es' = es" using Listed_unique [OF hooks_okD(3) [OF ok] l' es(1)] .
    then have "(h, q0) \<in> set es'" using es(2) by simp
    note r = removed [OF e' this]
    have "keyed ?w (filter (\<lambda>e. fst e \<noteq> h) es') = keyed w (filter (\<lambda>e. fst e \<noteq> h) es')"
      by (auto simp: w keyed_def hook_key_def)
    then show "list_ok sl valid ?w (t, ty) original' (filter (\<lambda>e. fst e \<noteq> h) es')"
      using r e' l apart [OF e'] by (auto simp: list_ok_def w)
  next
    fix t' ty' es' original'
    assume "(t', ty') \<noteq> (t, ty)" and e': "list_ok sl valid w (t', ty') original' es'"
    then show "list_ok sl valid ?w (t', ty') original' es'"
      using apart [OF e'] by (intro list_ok_frame [OF e']) (auto simp: w)
  next
    fix x c assume x: "w_code w x = Some c" "\<And>h d. c \<noteq> Temp_closure h d"
    have "\<exists>d. w_code w q0 = Some (Temp_closure h d)" using e es(2) by (auto simp: list_ok_def)
    then have "x \<noteq> q0" using x by (metis option.inject)
    then show "w_code ?w x = Some c" using x(1) by (simp add: w)
  next
    fix h' hook' assume h': "w_hooks ?w h' = Some hook'"
    then have h1: "w_hooks w h' = Some hook'" "h' \<noteq> h" by (auto simp: w split: if_splits)
    show "(\<exists>es q. Listed (snd (th_list hook')) es \<in> set (change_level ty (filter (\<lambda>e. fst e \<noteq> h)) (lv t)) \<and> (h', q) \<in> set es
        \<and> fst (th_list hook') = t) \<or> (w_hooks w h' = Some hook' \<and> th_list hook' \<noteq> (t, ty))"
    proof (cases "th_list hook' = (t, ty)")
      case True
      then obtain es' q' where e': "Listed ty es' \<in> set (lv t)" "(h', q') \<in> set es'"
        using hooks_okD(6) [OF ok h1(1)] by auto
      then have "Listed ty (filter (\<lambda>e. fst e \<noteq> h) es') \<in> set (change_level ty (filter (\<lambda>e. fst e \<noteq> h)) (lv t))"
        using Listed_change [OF e'(1), of ty "filter (\<lambda>e. fst e \<noteq> h)"] by simp
      moreover have "(h', q') \<in> set (filter (\<lambda>e. fst e \<noteq> h) es')" using e'(2) h1(2) by simp
      ultimately show ?thesis using True by (metis fst_conv snd_conv)
    qed (use h1 in simp)
  next
    show "distinct (flat (change_level ty (filter (\<lambda>e. fst e \<noteq> h)) (lv t)))"
      using hooks_okD(4) [OF ok] by (rule distinct_flat_filter)
  qed (auto simp: w l)
  note ok' = this
  show "hooks_ok sl valid f ?w (lv(t := change_level ty (filter (\<lambda>e. fst e \<noteq> h)) (lv t)))" by (rule ok')
  assume q: "q \<in> set (flat (change_level ty (filter (\<lambda>e. fst e \<noteq> h)) (lv t))) \<or> t' \<noteq> t \<and> q \<in> set (flat (lv t'))"
  have "w_code ?w q \<noteq> None"
    using q flat_code [OF hooks_okD(2) [OF ok', of t], of q] flat_code [OF hooks_okD(2) [OF ok', of t'], of q] by auto
  then have "q \<noteq> q0" by (auto simp: w)
  then show "closure_at ?w q = closure_at w q" by (simp add: w closure_at_def)
qed

lemma static_ok:
  assumes ok: "hooks_ok sl valid f w lv" and p: "w_code w p = None"
  shows "hooks_ok sl valid f (static_hook p c t w) (lv(t := Fixed p # lv t))"
    and "closure_at (static_hook p c t w) = (closure_at w)(p \<mapsto> c)"
proof -
  let ?w = "static_hook p c t w"
  have w: "?w = w\<lparr>w_thunk := (w_thunk w)(t := p), w_code := (w_code w)(p \<mapsto> Static_closure (w_thunk w t) c)\<rparr>"
    by (simp add: static_hook_def update_thunk_def)
  have frame: "layered sl valid ?w t' (f t') (w_thunk w t') (lv t')" for t'
  proof (rule layered_frame [OF hooks_okD(2) [OF ok]])
    fix ty es original
    assume e: "list_ok sl valid w (t', ty) original es"
    then have "q \<noteq> p" if "(h, q) \<in> set es" for h q using that p by (auto simp: list_ok_def)
    then show "list_ok sl valid ?w (t', ty) original es" by (intro list_ok_frame [OF e]) (auto simp: w)
  qed (use p w in auto)
  have "p \<notin> set (flat (lv t))" using flat_code [OF hooks_okD(2) [OF ok, of t]] p by metis
  moreover have "\<exists>es q. Listed (snd (th_list hook)) es \<in> set ((lv(t := Fixed p # lv t)) (fst (th_list hook))) \<and> (h, q) \<in> set es"
    if "w_hooks ?w h = Some hook" for h hook
    using that hooks_okD(6) [OF ok, of h hook] by (auto simp: w)
  moreover have "ty \<in> set (level_types ((lv(t := Fixed p # lv t)) t'))" if "w_lists ?w (t', ty) \<noteq> None" for t' ty
    using that hooks_okD(5) [OF ok, of t' ty] by (auto simp: w)
  moreover have "layered sl valid ?w t' (f t') (w_thunk ?w t') ((lv(t := Fixed p # lv t)) t')" for t'
    using frame [of t'] frame [of t] by (auto simp: w)
  ultimately show "hooks_ok sl valid f ?w (lv(t := Fixed p # lv t))"
    using hooks_okD(1,3,4) [OF ok] unfolding hooks_ok_def by simp
  show "closure_at ?w = (closure_at w)(p \<mapsto> c)"
    by (auto simp: w closure_at_def fun_eq_iff)
qed

section \<open>Histories\<close>

text \<open>
  What is done to the functions: a temporary hook with the addresses and the handle it gets, a static
  hook, the last reference to a handle dropped, and a call.
\<close>

datatype ('a, 'r, 'c) event =
    Hook nat nat nat nat nat "('a, 'r, 'c) closure"
  | Static_hook nat nat "('a, 'r, 'c) closure"
  | Drop_handle nat
  | Call nat 'a

fun do_event :: "('s, nat node) slab_ops \<Rightarrow> ('a, 'r, 'c) event \<Rightarrow> ('s, 'a, 'r, 'c) world \<Rightarrow> ('s, 'a, 'r, 'c) world" where
  "do_event sl (Hook t ty p q h c) w = hook_unchecked_lt sl p q h c (t, ty) w"
| "do_event sl (Static_hook t p c) w = static_hook p c t w"
| "do_event sl (Drop_handle h) w = drop_handle sl h w"
| "do_event sl (Call t a) w = (case call_target sl w t a of Some (r, w') \<Rightarrow> w' | None \<Rightarrow> w)"

text \<open>An allocation is at an address with no code; a handle is new.\<close>

fun fresh :: "('s, 'a, 'r, 'c) world \<Rightarrow> ('a, 'r, 'c) event \<Rightarrow> bool" where
  "fresh w (Hook t ty p q h c) \<longleftrightarrow> w_code w p = None \<and> w_code w q = None \<and> p \<noteq> q \<and> w_hooks w h = None"
| "fresh w (Static_hook t p c) \<longleftrightarrow> w_code w p = None"
| "fresh w _ \<longleftrightarrow> True"

fun history :: "('s, nat node) slab_ops \<Rightarrow> ('a, 'r, 'c) event list \<Rightarrow> ('s, 'a, 'r, 'c) world \<Rightarrow> ('s, 'a, 'r, 'c) world" where
  "history sl [] w = w"
| "history sl (e # es) w = history sl es (do_event sl e w)"

fun fresh_history :: "('s, nat node) slab_ops \<Rightarrow> ('a, 'r, 'c) event list \<Rightarrow> ('s, 'a, 'r, 'c) world \<Rightarrow> bool" where
  "fresh_history sl [] w \<longleftrightarrow> True"
| "fresh_history sl (e # es) w \<longleftrightarrow> fresh w e \<and> fresh_history sl es (do_event sl e w)"

text \<open>The same on the levels and the contents of the closures.\<close>

type_synonym ('a, 'r, 'c) hooks = "(nat \<Rightarrow> level list) \<times> (nat \<Rightarrow> ('a, 'r, 'c) closure)"

fun store :: "nat list \<Rightarrow> 'd list \<Rightarrow> (nat \<Rightarrow> 'd) \<Rightarrow> nat \<Rightarrow> 'd" where
  "store (q # qs) (c # cs) m = store qs cs (m(q := c))"
| "store qs cs m = m"

definition spec_result :: "(nat \<Rightarrow> 'a \<Rightarrow> 'r) \<Rightarrow> ('a, 'r, 'c) hooks \<Rightarrow> nat \<Rightarrow> 'a \<Rightarrow> 'r \<times> ('a, 'r, 'c) closure list" where
  "spec_result f s t a = spec_call (f t) (map (snd s) (flat (fst s t))) a"

fun spec_event :: "(nat \<Rightarrow> 'a \<Rightarrow> 'r) \<Rightarrow> ('a, 'r, 'c) event \<Rightarrow> ('a, 'r, 'c) hooks \<Rightarrow> ('a, 'r, 'c) hooks" where
  "spec_event f (Hook t ty p q h c) (lv, m) =
     (lv(t := change_level ty (Cons (h, q)) (ensure_level ty (lv t))), m(q := c))"
| "spec_event f (Static_hook t p c) (lv, m) = (lv(t := Fixed p # lv t), m(p := c))"
| "spec_event f (Drop_handle h) (lv, m) =
     (\<lambda>t. map (\<lambda>l. case l of Fixed q \<Rightarrow> Fixed q | Listed ty es \<Rightarrow> Listed ty (filter (\<lambda>e. fst e \<noteq> h) es)) (lv t), m)"
| "spec_event f (Call t a) (lv, m) = (lv, store (flat (lv t)) (snd (spec_result f (lv, m) t a)) m)"

definition spec_history :: "(nat \<Rightarrow> 'a \<Rightarrow> 'r) \<Rightarrow> ('a, 'r, 'c) event list \<Rightarrow> ('a, 'r, 'c) hooks" where
  "spec_history f es = fold (spec_event f) es (\<lambda>t. [], \<lambda>q. Shared (\<lambda>a. Return (f 0 a)))"

text \<open>Installed functions without hooks.\<close>

definition unhooked :: "(nat \<Rightarrow> 'a \<Rightarrow> 'r) \<Rightarrow> ('s, 'a, 'r, 'c) world \<Rightarrow> bool" where
  "unhooked f w \<longleftrightarrow> (\<forall>t. w_code w (w_thunk w t) = Some (Function (f t)))
     \<and> w_lists w = Map.empty \<and> w_hooks w = Map.empty"

definition hooked ::
    "('s, nat node) slab_ops \<Rightarrow> ('s \<Rightarrow> bool) \<Rightarrow> (nat \<Rightarrow> 'a \<Rightarrow> 'r) \<Rightarrow> ('s, 'a, 'r, 'c) world \<Rightarrow> ('a, 'r, 'c) hooks \<Rightarrow> bool" where
  "hooked sl valid f w s \<longleftrightarrow> hooks_ok sl valid f w (fst s)
     \<and> (\<forall>t. \<forall>q \<in> set (flat (fst s t)). closure_at w q = Some (snd s q))"

lemma unhooked_hooked:
  assumes "slab_laws sl valid" and "unhooked f w"
  shows "hooked sl valid f w (\<lambda>t. [], m)"
  using assms by (simp add: hooked_def hooks_ok_def unhooked_def)

lemma change_drop:
  assumes ok: "hooks_ok sl valid f w lv" and h: "w_hooks w h = Some hook" "th_list hook = (t, ty)"
  shows "map (\<lambda>l. case l of Fixed q \<Rightarrow> Fixed q | Listed ty es \<Rightarrow> Listed ty (filter (\<lambda>e. fst e \<noteq> h) es)) (lv t')
    = (lv(t := change_level ty (filter (\<lambda>e. fst e \<noteq> h)) (lv t))) t'"
proof -
  have keep: "filter (\<lambda>e. fst e \<noteq> h) es = es" if "list_ok sl valid w lk original es" "lk \<noteq> (t, ty)" for lk original es
    using list_ok_entry [OF that(1), of h] h that(2) by (auto simp: filter_id_conv)
  have "map (\<lambda>l. case l of Fixed q \<Rightarrow> Fixed q | Listed ty es \<Rightarrow> Listed ty (filter (\<lambda>e. fst e \<noteq> h) es)) ls
      = (if t' = t then change_level ty (filter (\<lambda>e. fst e \<noteq> h)) ls else ls)"
    if "layered sl valid w t' f' p ls" for f' p ls
    using that keep by (induction ls arbitrary: p rule: flat.induct) auto
  from this [OF hooks_okD(2) [OF ok]] show ?thesis by simp
qed

lemma change_drop_dead:
  assumes ok: "hooks_ok sl valid f w lv" and h: "w_hooks w h = None"
  shows "map (\<lambda>l. case l of Fixed q \<Rightarrow> Fixed q | Listed ty es \<Rightarrow> Listed ty (filter (\<lambda>e. fst e \<noteq> h) es)) (lv t) = lv t"
proof -
  have keep: "filter (\<lambda>e. fst e \<noteq> h) es = es" if "list_ok sl valid w lk original es" for lk original es
    using list_ok_entry [OF that, of h] h by (auto simp: filter_id_conv)
  have "map (\<lambda>l. case l of Fixed q \<Rightarrow> Fixed q | Listed ty es \<Rightarrow> Listed ty (filter (\<lambda>e. fst e \<noteq> h) es)) ls = ls"
    if "layered sl valid w t f' p ls" for f' p ls
    using that keep by (induction ls arbitrary: p rule: flat.induct) auto
  from this [OF hooks_okD(2) [OF ok]] show ?thesis .
qed

lemma list_ok_same_frame:
  assumes fr: "frame w w'" and e: "list_ok sl valid w lk original es"
  shows "list_ok sl valid w' lk original es"
proof -
  have "keyed w' es = keyed w es" using frame_sel [OF fr] by (simp add: keyed_def hook_key_def)
  moreover have "\<exists>c. w_code w' q = Some (Temp_closure h c)" if "(h, q) \<in> set es" for h q
    using list_ok_entry [OF e that] frame_code(3) [OF fr] by blast
  ultimately show ?thesis using e frame_sel [OF fr] by (auto simp: list_ok_def)
qed

lemma layered_same_frame: "frame w w' \<Longrightarrow> layered sl valid w t f p ls \<Longrightarrow> layered sl valid w' t f p ls"
proof (induction ls arbitrary: p rule: flat.induct)
  case (2 q ls)
  then show ?case using frame_code(4) [OF 2(2)] by fastforce
next
  case (3 ty es ls)
  then show ?case using frame_code(2) [OF 3(2)] list_ok_same_frame [OF 3(2)] by fastforce
qed (use frame_code(1) in auto)

lemma hooks_ok_same_frame: "hooks_ok sl valid f w lv \<Longrightarrow> frame w w' \<Longrightarrow> hooks_ok sl valid f w' lv"
  using layered_same_frame [of w w'] frame_sel [of w w'] unfolding hooks_ok_def by simp

lemma closure_at_store:
  assumes "\<And>q. q \<in> S \<Longrightarrow> closure_at w q = Some (m q)" and "set qs \<subseteq> S" and "r \<in> S"
  shows "closure_at (fill qs cs w) r = Some (store qs cs m r)"
  using assms
proof (induction qs cs m arbitrary: w rule: store.induct)
  case (1 q qs c cs m)
  have "closure_at (put_closure q c w) r = Some ((m(q := c)) r)" if "r \<in> S" for r
    using 1(2) [OF that] 1(2) [of q] 1(3) by (auto simp: closure_at_put)
  from 1(1) [OF this] 1(3,4) show ?case by (simp add: fun_upd_def)
qed simp_all

text \<open>A call does what the levels say.\<close>

lemma hooked_call:
  assumes "hooked sl valid f w s"
  shows "call_target sl w t a =
    Some (fst (spec_result f s t a), fill (flat (fst s t)) (snd (spec_result f s t a)) w)"
proof -
  have ok: "hooks_ok sl valid f w (fst s)"
    and c: "\<And>q. q \<in> set (flat (fst s t)) \<Longrightarrow> closure_at w q = Some (snd s q)"
    using assms unfolding hooked_def by auto
  have "contents w (flat (fst s t)) = map (snd s) (flat (fst s t))"
    using c by (simp add: contents_def)
  then show ?thesis
    using call_path [OF layered_path [OF hooks_okD(2) [OF ok]] hooks_okD(4) [OF ok] frame_refl, of t a]
    by (simp add: call_target_def spec_result_def split_beta)
qed

lemma set_flat_drop:
  "set (flat (map (\<lambda>l. case l of Fixed q \<Rightarrow> Fixed q | Listed ty es \<Rightarrow> Listed ty (filter P es)) ls)) \<subseteq> set (flat ls)"
  by (induction ls rule: flat.induct) auto

lemma flat_ensure [simp]: "flat (ensure_level ty ls) = flat ls"
  by (simp add: ensure_level_def)

lemma hooked_event:
  assumes "hooked sl valid f w s" and "fresh w e"
  shows "hooked sl valid f (do_event sl e w) (spec_event f e s)"
proof -
  obtain lv m where s: "s = (lv, m)" by (cases s)
  have ok: "hooks_ok sl valid f w lv" and c: "\<And>t q. q \<in> set (flat (lv t)) \<Longrightarrow> closure_at w q = Some (m q)"
    using assms(1) by (auto simp: hooked_def s)
  have unused: "q \<notin> set (flat (lv t))" if "w_code w q = None" for q t
    using c [of q t] that by (auto simp: closure_at_def)
  show ?thesis
  proof (cases e)
    case (Hook t ty p q h d)
    have fr: "w_code w p = None" "w_code w q = None" "p \<noteq> q" "w_hooks w h = None" using assms(2) Hook by simp_all
    note ho = hook_ok [OF ok fr, of d t ty]
    have "closure_at (hook_unchecked_lt sl p q h d (t, ty) w) r = Some ((m(q := d)) r)"
      if "r \<in> set (flat ((lv(t := change_level ty (Cons (h, q)) (ensure_level ty (lv t)))) t'))" for r t'
      using that flat_cons [of ty h q "ensure_level ty (lv t)"] c [of r t] c [of r t'] unused [OF fr(2)]
      by (auto simp: ho(2) split: if_splits)
    with ho(1) show ?thesis by (simp add: hooked_def s Hook)
  next
    case (Static_hook t p d)
    have p: "w_code w p = None" using assms(2) Static_hook by simp
    note st = static_ok [OF ok p, of d t]
    have "closure_at (static_hook p d t w) r = Some ((m(p := d)) r)"
      if "r \<in> set (flat ((lv(t := Fixed p # lv t)) t'))" for r t'
      using that c [of r t] c [of r t'] unused [OF p] by (auto simp: st(2) split: if_splits)
    with st(1) show ?thesis by (simp add: hooked_def s Static_hook)
  next
    case (Drop_handle h)
    show ?thesis
    proof (cases "w_hooks w h")
      case None
      with change_drop_dead [OF ok None] assms(1) show ?thesis by (simp add: s Drop_handle drop_handle_def)
    next
      case (Some hook)
      obtain t ty where lk: "th_list hook = (t, ty)" by (cases "th_list hook")
      note dr = drop_ok [OF ok Some lk]
      let ?g = "\<lambda>t. map (\<lambda>l. case l of Fixed q \<Rightarrow> Fixed q | Listed ty es \<Rightarrow> Listed ty (filter (\<lambda>e. fst e \<noteq> h) es)) (lv t)"
      have lv: "?g = lv(t := change_level ty (filter (\<lambda>e. fst e \<noteq> h)) (lv t))"
        using change_drop [OF ok Some lk] by (intro ext)
      have "closure_at (drop_handle sl h w) q = Some (m q)" if "q \<in> set (flat (?g t'))" for q t'
      proof -
        have "q \<in> set (flat (lv t'))" using that set_flat_drop by blast
        moreover have "closure_at (drop_handle sl h w) q = closure_at w q"
          using that dr(2) [of q t'] by (auto simp: fun_cong [OF lv, of t'] split: if_splits)
        ultimately show ?thesis using c by simp
      qed
      with dr(1) show ?thesis unfolding s Drop_handle hooked_def do_event.simps spec_event.simps fst_conv snd_conv
        by (simp add: lv [symmetric])
    qed
  next
    case (Call t a)
    let ?qs = "flat (lv t)" and ?cs = "snd (spec_result f s t a)"
    have w': "do_event sl e w = fill ?qs ?cs w"
      using hooked_call [OF assms(1), of t a] by (simp add: Call s)
    have "closure_at (fill ?qs ?cs w) q = Some (store ?qs ?cs m q)" if "q \<in> set (flat (lv t'))" for q t'
      using that c by (intro closure_at_store [of "\<Union>t. set (flat (lv t))"]) auto
    with w' hooks_ok_same_frame [OF ok frame_fill [OF frame_refl], of ?qs ?cs] show ?thesis
      by (auto simp: hooked_def s Call)
  qed
qed

lemma hooked_history:
  "hooked sl valid f w s \<Longrightarrow> fresh_history sl es w \<Longrightarrow> hooked sl valid f (history sl es w) (fold (spec_event f) es s)"
proof (induction es arbitrary: w s)
  case (Cons e es)
  then show ?case using hooked_event [OF Cons.prems(1), of e] by simp
qed simp

section \<open>A source that panics\<close>

text \<open>
  The world after one \<open>source\<close> has panicked in the first use of a list, and then two hooks were made:
  the count of extra hooks is zero although there is one.
\<close>

lemma hook_list_after_push:
  assumes l: "w_lists w (t, ty) = Some \<lparr>cl_closures = cl, cl_extra = x, cl_original = Some original\<rparr>"
    and es: "ls_holds sl valid cl es"
  obtains key cls where
    "hook_unchecked_lt sl p q h c (t, ty) w = w\<lparr>w_code := (w_code w)(q \<mapsto> Temp_closure h c),
       w_lists := (w_lists w)((t, ty) \<mapsto> \<lparr>cl_closures = cls, cl_extra = x + 1, cl_original = Some original\<rparr>),
       w_hooks := (w_hooks w)(h \<mapsto> \<lparr>th_list = (t, ty), th_original = original, th_key = key\<rparr>)\<rparr>"
    "ls_holds sl valid cls ((key, q) # es)"
proof -
  have "into_unowned_handle sl p (t, ty) w = (\<lparr>th_list = (t, ty), th_original = original, th_key = usize_max\<rparr>, w)"
    using l by (simp add: into_unowned_handle_def lib_closures_def)
  with l ls.push_holds [OF es, of q] that show thesis
    by (simp add: hook_unchecked_lt_def split_beta)
qed

lemma panicked_list:
  assumes laws: "slab_laws sl valid" and lists: "w_lists w (t, ty) = None" and p: "w_thunk w t \<noteq> p"
  obtains cls where "hook_source_panics sl p (t, ty) w = w\<lparr>w_thunk := (w_thunk w)(t := p),
      w_code := (w_code w)(p \<mapsto> Dispatcher (t, ty) (w_thunk w t)),
      w_lists := (w_lists w)((t, ty) \<mapsto> \<lparr>cl_closures = cls, cl_extra = -2, cl_original = Some (w_thunk w t)\<rparr>)\<rparr>"
    "ls_holds sl valid cls []"
proof -
  have new: "ls_holds sl valid (ls_new sl) []" by (rule ls_new_holds [OF laws])
  note rem = ls.rem_holds [OF new, of usize_max]
  have "hook_source_panics sl p (t, ty) w = w\<lparr>w_thunk := (w_thunk w)(t := p),
      w_code := (w_code w)(p \<mapsto> Dispatcher (t, ty) (w_thunk w t)),
      w_lists := (w_lists w)((t, ty) \<mapsto> \<lparr>cl_closures = snd (ls_remove sl (ls_new sl) usize_max), cl_extra = -2,
        cl_original = Some (w_thunk w t)\<rparr>)\<rparr>"
    using rem lists
    by (simp add: hook_source_panics_def into_unowned_handle_def lib_closures_def closure_list_default_def
        update_thunk_def hook_drop_def split_beta Let_def)
  with rem that show thesis by (simp add: without_key_def)
qed

section \<open>Properties\<close>

lemma hooked_from_start:
  assumes "slab_laws sl valid" and "unhooked f w" and "fresh_history sl es w"
  shows "hooked sl valid f (history sl es w) (spec_history f es)"
  unfolding spec_history_def using hooked_history [OF unhooked_hooked [OF assms(1,2)] assms(3)] .

lemma call_after_history:
  assumes "slab_laws sl valid" and "unhooked f w" and "fresh_history sl es w"
  shows "map_option fst (call_target sl (history sl es w) t a) = Some (fst (spec_result f (spec_history f es) t a))"
  using hooked_call [OF hooked_from_start [OF assms]] by simp

text \<open>
  C2. Whatever hooks were made, dropped and called before, a call of a function returns what the
  hooks on it return when each is called with the rest of them as its original, static hooks and lists
  of temporary hooks from the latest to the first, the temporary hooks of a list from the newest to the
  oldest, and the unhooked function last; a call never panics, runs released code or fails to return.
\<close>

theorem hooked_calls_in_order:
  assumes "slab_laws sl valid" and "unhooked f w" and "fresh_history sl es w"
  shows "map_option fst (call_target sl (history sl es w) t a) = Some (fst (spec_result f (spec_history f es) t a))"
  by (rule call_after_history [OF assms])

text \<open>
  Functions that append their address to a list, and hooks that append a mark and call on. The
  history: two hooks, a static hook, another hook, and the first handle dropped.
\<close>

definition marked_function :: "nat \<Rightarrow> nat list \<Rightarrow> nat list" where
  "marked_function t = (\<lambda>xs. xs @ [2 * t])"

definition example_world :: "((nat \<times> nat node) list, nat list, nat list, nat) world" where
  "example_world = \<lparr>w_thunk = (\<lambda>t. 2 * t), w_code = (\<lambda>p. if even p then Some (Function (\<lambda>xs. xs @ [p])) else None),
     w_lists = Map.empty, w_hooks = Map.empty\<rparr>"

definition example_hook :: "nat \<Rightarrow> (nat list, nat list, nat) closure" where
  "example_hook i = hook_fn (\<lambda>xs. Call_original (xs @ [i]) Return)"

definition example_history :: "(nat list, nat list, nat) event list" where
  "example_history = [Hook 5 0 1 3 0 (example_hook 101), Hook 5 0 5 7 1 (example_hook 102),
     Static_hook 5 9 (example_hook 103), Hook 5 0 11 13 2 (example_hook 104), Drop_handle 0]"

lemma example_unhooked: "unhooked marked_function example_world"
  by (simp add: unhooked_def marked_function_def example_world_def)

lemma usize_max_example [simp]: "0 \<noteq> usize_max" "Suc 0 \<noteq> usize_max" "2 \<noteq> usize_max" "3 \<noteq> usize_max" "usize_max \<noteq> 0"
  "usize_max \<noteq> Suc 0" "usize_max \<noteq> 2" "usize_max \<noteq> 3"
  by (simp_all add: usize_max_def)

lemmas example_eval = example_history_def example_world_def static_hook_def update_thunk_def hook_unchecked_lt_def
  into_unowned_handle_def lib_closures_def closure_list_default_def ls_push_front_def ls_new_def update_node_def
  fresh_key_def Let_def

lemma example_fresh: "fresh_history list_slab example_history example_world"
  by (simp add: example_eval)

theorem hooked_calls_in_order_witness:
  "map_option fst (call_target list_slab (history list_slab example_history example_world) 5 [])
    = Some [103, 104, 102, 10]"
  unfolding hooked_calls_in_order [OF list_slab_laws example_unhooked example_fresh]
  by (simp add: spec_history_def spec_result_def example_history_def ensure_level_def spec_call_def
      example_hook_def hook_fn_def marked_function_def)

lemma flat_hook_drop:
  assumes "\<And>ty es. Listed ty es \<in> set ls \<Longrightarrow> h \<notin> fst ` set es" and "distinct (level_types ls)"
  shows "flat (map (\<lambda>l. case l of Fixed q \<Rightarrow> Fixed q | Listed ty es \<Rightarrow> Listed ty (filter (\<lambda>e. fst e \<noteq> h) es))
    (change_level ty (Cons (h, q)) ls)) = flat ls"
  using assms
proof (induction ls rule: flat.induct)
  case (3 ty' es ls)
  have "filter (\<lambda>e. fst e \<noteq> h) es = es" using 3(2) [of ty' es] by (auto simp: filter_id_conv image_iff)
  moreover have "flat (map (\<lambda>l. case l of Fixed q \<Rightarrow> Fixed q | Listed ty es \<Rightarrow> Listed ty (filter (\<lambda>e. fst e \<noteq> h) es))
      (change_level ty (Cons (h, q)) ls)) = flat ls" using 3 by auto
  ultimately show ?case by simp
qed auto

lemma spec_hook_drop:
  assumes h: "hooked sl valid f w s" and fr: "fresh w (Hook t ty p q h c)"
  shows "spec_result f (spec_event f (Drop_handle h) (spec_event f (Hook t ty p q h c) s)) t' a = spec_result f s t' a"
proof -
  obtain lv m where s: "s = (lv, m)" by (cases s)
  have ok: "hooks_ok sl valid f w lv" and cl: "\<And>t r. r \<in> set (flat (lv t)) \<Longrightarrow> closure_at w r = Some (m r)"
    using h by (auto simp: hooked_def s)
  have dead: "h \<notin> fst ` set es" if "Listed ty' es \<in> set (lv t)" for t ty' es
    using listed_entry [OF hooks_okD(2) [OF ok] that] list_ok_entry fr by fastforce
  have ls: "h \<notin> fst ` set es" if "Listed ty' es \<in> set (ensure_level ty (lv t))" for ty' es
    using that dead by (auto simp: ensure_level_def split: if_splits)
  have dist: "distinct (level_types (ensure_level ty (lv t)))" using hooks_okD(3) [OF ok] by (simp add: ensure_level_def)
  have "flat (map (\<lambda>l. case l of Fixed q \<Rightarrow> Fixed q | Listed ty es \<Rightarrow> Listed ty (filter (\<lambda>e. fst e \<noteq> h) es)) (lv t')) = flat (lv t')" for t'
    using change_drop_dead [OF ok, of h t'] fr by simp
  then have "flat (fst (spec_event f (Drop_handle h) (spec_event f (Hook t ty p q h c) s)) t') = flat (lv t')"
    using flat_hook_drop [OF ls dist] by (simp add: s)
  moreover have "map (m(q := c)) (flat (lv t')) = map m (flat (lv t'))"
    using cl [of q t'] fr by (auto simp: closure_at_def)
  ultimately show ?thesis unfolding spec_result_def by (simp add: s del: map_eq_conv)
qed

lemma history_append: "history sl (es @ es') w = history sl es' (history sl es w)"
  by (induction es arbitrary: w) auto

lemma fresh_history_append:
  "fresh_history sl (es @ es') w \<longleftrightarrow> fresh_history sl es w \<and> fresh_history sl es' (history sl es w)"
  by (induction es arbitrary: w) auto

text \<open>
  C20. Dropping the handle of a hook just made takes back the hook: every function answers as it did
  before the hook, whatever the hook's closure is.
\<close>

theorem dropped_hook_is_gone:
  assumes "slab_laws sl valid" and "unhooked f w" and "fresh_history sl (es @ [Hook t ty p q h c, Drop_handle h]) w"
  shows "map_option fst (call_target sl (history sl (es @ [Hook t ty p q h c, Drop_handle h]) w) t' a)
    = map_option fst (call_target sl (history sl es w) t' a)"
proof -
  have fr: "fresh_history sl es w" "fresh (history sl es w) (Hook t ty p q h c)"
    using assms(3) by (simp_all add: fresh_history_append)
  show ?thesis
    unfolding call_after_history [OF assms] call_after_history [OF assms(1,2) fr(1)]
    using spec_hook_drop [OF hooked_from_start [OF assms(1,2) fr(1)] fr(2)] by (simp add: spec_history_def)
qed

theorem dropped_hook_is_gone_witness:
  "map_option fst (call_target list_slab (history list_slab [Hook 5 0 1 3 0 (example_hook 101), Drop_handle 0] example_world) 5 [])
    = map_option fst (call_target list_slab (history list_slab [] example_world) 5 [])"
  using dropped_hook_is_gone [OF list_slab_laws example_unhooked, of "[]" 5 0 1 3 0 "example_hook 101" 5 "[]"]
  by (simp add: example_world_def)

text \<open>
  C25. On a function that has no hook, when the \<open>source\<close> of the first hook panics, the count of extra
  hooks is left one too low: when two hooks are then made on it, calling the original from the newer one
  skips the older one and runs the unhooked function.
\<close>

theorem source_panic_skips_hook:
  assumes laws: "slab_laws sl valid" and w: "unhooked f w"
    and p: "w_code w p = None" and q: "w_code w q = None" "w_code w q' = None" "distinct [p, q, q']" and h: "h \<noteq> h'"
  shows "map_option fst (call_target sl (hook_unchecked_lt sl p' q' h' c' (t, ty)
      (hook_unchecked_lt sl p' q h c (t, ty) (hook_source_panics sl p (t, ty) w))) t a)
    = Some (fst (spec_call (f t) [c'] a))"
proof -
  let ?o = "w_thunk w t"
  have o: "?o \<noteq> p" "?o \<noteq> q" "?o \<noteq> q'" "w_code w ?o = Some (Function (f t))" and none: "w_lists w (t, ty) = None"
    using w p q by (auto simp: unhooked_def)
  obtain cls where w1: "hook_source_panics sl p (t, ty) w = w\<lparr>w_thunk := (w_thunk w)(t := p),
      w_code := (w_code w)(p \<mapsto> Dispatcher (t, ty) ?o),
      w_lists := (w_lists w)((t, ty) \<mapsto> \<lparr>cl_closures = cls, cl_extra = -2, cl_original = Some ?o\<rparr>)\<rparr>" (is "_ = ?w1")
    and cls: "ls_holds sl valid cls []"
    using panicked_list [OF laws none o(1)] by blast
  have l1: "w_lists ?w1 (t, ty) = Some \<lparr>cl_closures = cls, cl_extra = -2, cl_original = Some ?o\<rparr>" by simp
  obtain k cls1 where w2: "hook_unchecked_lt sl p' q h c (t, ty) ?w1 = ?w1\<lparr>w_code := (w_code ?w1)(q \<mapsto> Temp_closure h c),
      w_lists := (w_lists ?w1)((t, ty) \<mapsto> \<lparr>cl_closures = cls1, cl_extra = -2 + 1, cl_original = Some ?o\<rparr>),
      w_hooks := (w_hooks ?w1)(h \<mapsto> \<lparr>th_list = (t, ty), th_original = ?o, th_key = k\<rparr>)\<rparr>" (is "_ = ?w2")
    and cls1: "ls_holds sl valid cls1 [(k, q)]"
    by (rule hook_list_after_push [OF l1 cls]) (rule that)
  have l2: "w_lists ?w2 (t, ty) = Some \<lparr>cl_closures = cls1, cl_extra = -2 + 1, cl_original = Some ?o\<rparr>" by simp
  obtain k' cls2 where w3: "hook_unchecked_lt sl p' q' h' c' (t, ty) ?w2 = ?w2\<lparr>w_code := (w_code ?w2)(q' \<mapsto> Temp_closure h' c'),
      w_lists := (w_lists ?w2)((t, ty) \<mapsto> \<lparr>cl_closures = cls2, cl_extra = -2 + 1 + 1, cl_original = Some ?o\<rparr>),
      w_hooks := (w_hooks ?w2)(h' \<mapsto> \<lparr>th_list = (t, ty), th_original = ?o, th_key = k'\<rparr>)\<rparr>" (is "_ = ?w3")
    and cls2: "ls_holds sl valid cls2 [(k', q'), (k, q)]"
    by (rule hook_list_after_push [OF l2 cls1]) (rule that)
  define v where "v = ?w3"
  have v: "w_code v ?o = Some (Function (f t))" "w_code v q' = Some (Temp_closure h' c')"
      "w_code v p = Some (Dispatcher (t, ty) ?o)" "w_thunk v t = p"
      "w_lists v (t, ty) = Some \<lparr>cl_closures = cls2, cl_extra = 0, cl_original = Some ?o\<rparr>"
      "w_hooks v h' = Some \<lparr>th_list = (t, ty), th_original = ?o, th_key = k'\<rparr>"
    using o q by (simp_all add: v_def)
  have "path sl v (f t) ?o []" using v(1) by (rule path_function)
  then have "path sl v (f t) q' [q']"
    using path_temp [OF v(2,6), where l = "\<lparr>cl_closures = cls2, cl_extra = 0, cl_original = Some ?o\<rparr>"]
    by (simp add: next_closure_def v(5))
  then have "path sl v (f t) p [q']"
    using ls.front_holds [OF cls2] by (intro path_dispatcher [OF v(3,5)]) simp
  from call_path [OF this _ frame_refl] show ?thesis
    unfolding w1 w2 w3 v_def [symmetric] by (simp add: call_target_def contents_def closure_at_def split_beta v(2,4))
qed

theorem source_panic_skips_hook_witness:
  "map_option fst (call_target list_slab (hook_unchecked_lt list_slab 1 5 1 (example_hook 102) (5, 0)
      (hook_unchecked_lt list_slab 1 3 0 (example_hook 101) (5, 0) (hook_source_panics list_slab 1 (5, 0) example_world))) 5 [])
    = Some [102, 10]"
proof -
  have fresh: "w_code example_world 1 = None" "w_code example_world 3 = None" "w_code example_world 5 = None"
    by (simp_all add: example_world_def)
  show ?thesis
    using source_panic_skips_hook [OF list_slab_laws example_unhooked fresh, of 0 1 1 "example_hook 102" 5 0 "example_hook 101" "[]"]
    by (simp add: spec_call_def example_hook_def hook_fn_def marked_function_def)
qed

end
