(* ===== verification/Arch_Hook.thy ===== *)
theory Arch_Hook
  imports Install Hook_History
begin

text \<open>
  The functions of the crate's interface (\<open>installer/arch.rs\<close>): each installs the jumps to a thunk, unless
  the function has them already, and then puts a hook on it. Here the memory of \<open>Install\<close> and the hooks of
  \<open>Hook_Chain\<close> meet: a thunk's function pointer is eight bytes of memory, and the code at an address is
  what \<open>Hook_Chain\<close> says. That a trampoline does what the function did before it was hooked is taken from
  \<open>relocate\<close> keeping its instructions; the meaning of instructions is not modelled, so \<open>orig\<close> says what
  each function does.
\<close>

section \<open>The interface\<close>

record ('k, 's, 'a, 'r, 'c) hook_process =
  ps_context :: process_context
  ps_kernel :: 'k
  ps_memory :: memory
  ps_world :: "('s, 'a, 'r, 'c) world"

definition load64 :: "memory \<Rightarrow> nat \<Rightarrow> nat" where
  "load64 m p = nat (from_le (read_bytes m p 8))"

text \<open>The world as the memory shows it after an installation: a new trampoline is code that does what the function did.\<close>

definition see_thunk :: "(nat \<Rightarrow> 'a \<Rightarrow> 'r) \<Rightarrow> installer \<Rightarrow> memory \<Rightarrow> ('s, 'a, 'r, 'c) world \<Rightarrow> ('s, 'a, 'r, 'c) world" where
  "see_thunk orig i m w =
     (let p = load64 m (i_thunk i)
      in w\<lparr>w_thunk := (w_thunk w)(i_target i := p),
           w_code := (if w_code w p = None then (w_code w)(p \<mapsto> Function (orig (i_target i))) else w_code w)\<rparr>)"

text \<open>\<open>Installer::install\<close>; \<open>acq\<close> is the error of \<open>ProcessContext::acquire\<close>, if it has one.\<close>

definition arch_install :: "('d, 'k) host \<Rightarrow> (nat \<Rightarrow> 'a \<Rightarrow> 'r) \<Rightarrow> io_error option \<Rightarrow> nat \<Rightarrow> ('k, 's, 'a, 'r, 'c) hook_process
    \<Rightarrow> ((error + installer) \<times> ('k, 's, 'a, 'r, 'c) hook_process) option" where
  "arch_install H orig acq target ps = do {
     (res, c, k, m) \<leftarrow> install H (case acq of Some e \<Rightarrow> Inl e | None \<Rightarrow> Inr (ps_context ps)) target (ps_kernel ps, ps_memory ps);
     let ps = ps\<lparr>ps_context := (case c of Some c \<Rightarrow> c | None \<Rightarrow> ps_context ps), ps_kernel := k, ps_memory := m\<rparr>;
     Some (res, case res of Inl e \<Rightarrow> ps | Inr i \<Rightarrow> ps\<lparr>ps_world := see_thunk orig i m (ps_world ps)\<rparr>)
   }"

text \<open>\<open>Installer::update_thunk\<close> as the hooks of \<open>Hook_Chain\<close> use it: the pointer is in memory.\<close>

definition on_thunk :: "installer \<Rightarrow> (('s, 'a, 'r, 'c) world \<Rightarrow> ('s, 'a, 'r, 'c) world)
    \<Rightarrow> ('k, 's, 'a, 'r, 'c) hook_process \<Rightarrow> ('k, 's, 'a, 'r, 'c) hook_process" where
  "on_thunk i g ps =
     (let w = g (ps_world ps)
      in ps\<lparr>ps_world := w, ps_memory := write_bytes (i_thunk i) (le_bytes 8 (int (w_thunk w (i_target i)))) (ps_memory ps)\<rparr>)"

text \<open>\<open>hook\<close>, \<open>hook_mut\<close> and \<open>hook_once\<close>, which differ in the closure they wrap, and the three static hooks.\<close>

definition arch_hook :: "('d, 'k) host \<Rightarrow> (nat \<Rightarrow> 'a \<Rightarrow> 'r) \<Rightarrow> ('s, nat node) slab_ops \<Rightarrow> io_error option
    \<Rightarrow> nat \<Rightarrow> nat \<Rightarrow> nat \<Rightarrow> nat \<Rightarrow> nat \<Rightarrow> ('a, 'r, 'c) closure \<Rightarrow> ('k, 's, 'a, 'r, 'c) hook_process
    \<Rightarrow> ((error + nat) \<times> ('k, 's, 'a, 'r, 'c) hook_process) option" where
  "arch_hook H orig sl acq target ty p q h c ps = do {
     (res, ps) \<leftarrow> arch_install H orig acq target ps;
     Some (case res of Inl e \<Rightarrow> (Inl e, ps) | Inr i \<Rightarrow> (Inr h, on_thunk i (hook_unchecked_lt sl p q h c (target, ty)) ps))
   }"

definition arch_static_hook :: "('d, 'k) host \<Rightarrow> (nat \<Rightarrow> 'a \<Rightarrow> 'r) \<Rightarrow> io_error option
    \<Rightarrow> nat \<Rightarrow> nat \<Rightarrow> ('a, 'r, 'c) closure \<Rightarrow> ('k, 's, 'a, 'r, 'c) hook_process
    \<Rightarrow> ((error + nat) \<times> ('k, 's, 'a, 'r, 'c) hook_process) option" where
  "arch_static_hook H orig acq target p c ps = do {
     (res, ps) \<leftarrow> arch_install H orig acq target ps;
     Some (case res of Inl e \<Rightarrow> (Inl e, ps) | Inr i \<Rightarrow> (Inr p, on_thunk i (static_hook p c target) ps))
   }"

section \<open>Uses of the interface\<close>

datatype ('a, 'r, 'c) api_event =
    Api_install "io_error option" nat
  | Api_hook "io_error option" nat nat nat nat nat "('a, 'r, 'c) closure"
  | Api_static "io_error option" nat nat "('a, 'r, 'c) closure"
  | Api_drop nat
  | Api_call nat 'a

text \<open>One use, with what it did to the hooks: nothing if an installation failed.\<close>

fun api_step :: "('d, 'k) host \<Rightarrow> (nat \<Rightarrow> 'a \<Rightarrow> 'r) \<Rightarrow> ('s, nat node) slab_ops \<Rightarrow> ('a, 'r, 'c) api_event
    \<Rightarrow> ('k, 's, 'a, 'r, 'c) hook_process \<Rightarrow> (('a, 'r, 'c) event list \<times> ('k, 's, 'a, 'r, 'c) hook_process) option" where
  "api_step H orig sl (Api_install acq t) ps = map_option (\<lambda>(res, ps). ([], ps)) (arch_install H orig acq t ps)"
| "api_step H orig sl (Api_hook acq t ty p q h c) ps =
     map_option (\<lambda>(res, ps). (case res of Inl _ \<Rightarrow> [] | Inr _ \<Rightarrow> [Hook t ty p q h c], ps)) (arch_hook H orig sl acq t ty p q h c ps)"
| "api_step H orig sl (Api_static acq t p c) ps =
     map_option (\<lambda>(res, ps). (case res of Inl _ \<Rightarrow> [] | Inr _ \<Rightarrow> [Static_hook t p c], ps)) (arch_static_hook H orig acq t p c ps)"
| "api_step H orig sl (Api_drop h) ps = Some ([Drop_handle h], ps\<lparr>ps_world := drop_handle sl h (ps_world ps)\<rparr>)"
| "api_step H orig sl (Api_call t a) ps =
     map_option (\<lambda>(r, w). ([Call t a], ps\<lparr>ps_world := w\<rparr>)) (call_target sl (ps_world ps) t a)"

fun api_run :: "('d, 'k) host \<Rightarrow> (nat \<Rightarrow> 'a \<Rightarrow> 'r) \<Rightarrow> ('s, nat node) slab_ops \<Rightarrow> ('a, 'r, 'c) api_event list
    \<Rightarrow> ('k, 's, 'a, 'r, 'c) hook_process \<Rightarrow> (('a, 'r, 'c) event list \<times> ('k, 's, 'a, 'r, 'c) hook_process) option" where
  "api_run H orig sl [] ps = Some ([], ps)"
| "api_run H orig sl (e # es) ps = do {
     (evs, ps) \<leftarrow> api_step H orig sl e ps;
     (evs', ps) \<leftarrow> api_run H orig sl es ps;
     Some (evs @ evs', ps)
   }"

text \<open>
  The functions \<open>ts\<close> may be hooked. A closure's code is allocated at a new address of the memory \<open>J\<close>,
  which the allocator for thunks and trampolines (\<open>M\<close>) does not get.
\<close>

fun api_fresh :: "nat set \<Rightarrow> nat list \<Rightarrow> ('s, 'a, 'r, 'c) world \<Rightarrow> ('a, 'r, 'c) api_event \<Rightarrow> bool" where
  "api_fresh J ts w (Api_install acq t) \<longleftrightarrow> t \<in> set ts"
| "api_fresh J ts w (Api_hook acq t ty p q h c) \<longleftrightarrow> t \<in> set ts \<and> p \<in> J \<and> q \<in> J \<and> p < usize_size \<and> fresh w (Hook t ty p q h c)"
| "api_fresh J ts w (Api_static acq t p c) \<longleftrightarrow> t \<in> set ts \<and> p \<in> J \<and> p < usize_size \<and> fresh w (Static_hook t p c)"
| "api_fresh J ts w _ \<longleftrightarrow> True"

fun api_okay :: "('d, 'k) host \<Rightarrow> (nat \<Rightarrow> 'a \<Rightarrow> 'r) \<Rightarrow> ('s, nat node) slab_ops \<Rightarrow> ('k \<Rightarrow> nat set) \<Rightarrow> nat set \<Rightarrow> nat list
    \<Rightarrow> ('a, 'r, 'c) api_event list \<Rightarrow> ('k, 's, 'a, 'r, 'c) hook_process \<Rightarrow> bool" where
  "api_okay H orig sl M J ts [] ps \<longleftrightarrow> True"
| "api_okay H orig sl M J ts (e # es) ps \<longleftrightarrow> api_fresh J ts (ps_world ps) e
     \<and> (case api_step H orig sl e ps of
          None \<Rightarrow> True
        | Some (_, ps) \<Rightarrow> J \<inter> M (ps_kernel ps) = {} \<and> api_okay H orig sl M J ts es ps)"

text \<open>The encoder answers at least a byte for at least an instruction.\<close>

definition encoder_emits :: "'d iced \<Rightarrow> bool" where
  "encoder_emits C \<longleftrightarrow> (\<forall>insns ip enc. block_encode C insns ip = Inr enc \<and> insns \<noteq> [] \<longrightarrow> enc_code enc \<noteq> [])"

text \<open>
  A process before the first hook: the functions' code does not overlap, and a call of one of them
  runs the code at its address.
\<close>

definition api_start :: "('d, 'k) host \<Rightarrow> (nat \<Rightarrow> 'a \<Rightarrow> 'r) \<Rightarrow> ('k \<Rightarrow> nat set) \<Rightarrow> nat set \<Rightarrow> nat list
    \<Rightarrow> ('k, 's, 'a, 'r, 'c) hook_process \<Rightarrow> bool" where
  "api_start H orig M J ts ps \<longleftrightarrow> unhooked orig (ps_world ps) \<and> (\<forall>t \<in> set ts. w_thunk (ps_world ps) t = t \<and> host_ok H M t)
     \<and> thunks_inv (h_vec_mmap H) (h_page H) (ps_context ps) \<and> thunk_map (ps_context ps) = Some Map.empty
     \<and> os_owned (h_platform H) M (pc_alloc (ps_context ps), ps_kernel ps) (map (\<lambda>t. (t, t + DISASM_LEN)) ts)
     \<and> dom (w_code (ps_world ps)) \<subseteq> J \<union> set ts \<and> J \<inter> M (ps_kernel ps) = {}
     \<and> encoder_emits (h_iced H)"

section \<open>The invariant\<close>

text \<open>A hooked function: its jump, its thunk, and the pointer there.\<close>

definition jumps_to :: "(nat \<times> nat) list \<Rightarrow> memory \<Rightarrow> nat \<Rightarrow> nat \<Rightarrow> nat \<Rightarrow> bool" where
  "jumps_to live m t p v \<longleftrightarrow> (\<exists>th. p = th + THUNK_PTR \<and> (th, th + 16) \<in> set live \<and> m t = 0xe9 \<and> jump_target m t = Some th
     \<and> read_bytes m th 16 = thunk_bytes (thunk_new v) \<and> v < usize_size)"

definition code_known :: "nat set \<Rightarrow> (nat \<times> nat) list \<Rightarrow> ('s, 'a, 'r, 'c) world \<Rightarrow> bool" where
  "code_known J live w \<longleftrightarrow> (\<forall>p. w_code w p \<noteq> None \<longrightarrow> p \<in> J \<or> (\<exists>b \<in> set live. fst b \<le> p \<and> p < snd b))"

definition api_inv :: "('d, 'k) host \<Rightarrow> (nat \<Rightarrow> 'a \<Rightarrow> 'r) \<Rightarrow> ('s, nat node) slab_ops \<Rightarrow> ('s \<Rightarrow> bool) \<Rightarrow> ('k \<Rightarrow> nat set) \<Rightarrow> nat set
    \<Rightarrow> nat list \<Rightarrow> ('k, 's, 'a, 'r, 'c) hook_process \<Rightarrow> ('a, 'r, 'c) hooks \<Rightarrow> (nat \<rightharpoonup> nat) \<Rightarrow> (nat \<times> nat) list \<Rightarrow> bool" where
  "api_inv H orig sl valid M J ts ps s f live \<longleftrightarrow>
     hooked sl valid orig (ps_world ps) s \<and> thunks_inv (h_vec_mmap H) (h_page H) (ps_context ps)
     \<and> thunk_map (ps_context ps) = Some f \<and> dom f \<subseteq> set ts \<and> inj_on f (dom f)
     \<and> os_owned (h_platform H) M (pc_alloc (ps_context ps), ps_kernel ps) live
     \<and> (\<forall>t \<in> set ts. (t, t + DISASM_LEN) \<in> set live)
     \<and> (\<forall>t p. f t = Some p \<longrightarrow> jumps_to live (ps_memory ps) t p (w_thunk (ps_world ps) t))
     \<and> (\<forall>t \<in> set ts. f t = None \<longrightarrow> w_thunk (ps_world ps) t = t)
     \<and> (\<forall>t \<in> set ts. f t = None \<longrightarrow> fst s t = [])
     \<and> code_known J live (ps_world ps) \<and> J \<inter> M (ps_kernel ps) = {}"

section \<open>The memory of thunks\<close>

lemma DISASM_LEN_19: "DISASM_LEN = 19"
  by (simp add: DISASM_LEN_def JMP_REL_LEN_def MAX_INSN_LEN_def)

lemma load64_thunk:
  assumes "read_bytes m th 16 = thunk_bytes (thunk_new v)" and "v < usize_size"
  shows "load64 m (th + THUNK_PTR) = v"
proof -
  have "read_bytes m (th + 8) 8 = drop 8 (read_bytes m th 16)" by (simp add: read_bytes_drop)
  also have "\<dots> = le_bytes 8 (int v)" unfolding assms(1) thunk_bytes_new by simp
  finally show ?thesis using assms(2) by (simp add: load64_def THUNK_PTR_def from_le_bytes usize_defs)
qed

lemma write_thunk:
  assumes "read_bytes m th 16 = thunk_bytes (thunk_new u)"
  shows "read_bytes (write_bytes (th + THUNK_PTR) (le_bytes 8 (int v)) m) th 16 = thunk_bytes (thunk_new v)"
proof -
  let ?m = "write_bytes (th + 8) (le_bytes 8 (int v)) m"
  have "read_bytes ?m th 8 = read_bytes m th 8" by (rule read_write_apart) simp
  also have "\<dots> = take 8 (read_bytes m th 16)" by (simp add: read_bytes_take)
  also have "\<dots> = [0xff, 0x25, 2, 0, 0, 0, 0x0f, 0x0b]" unfolding assms thunk_bytes_new by simp
  finally have "read_bytes ?m th 8 = [0xff, 0x25, 2, 0, 0, 0, 0x0f, 0x0b]" .
  moreover have "read_bytes ?m (th + 8) 8 = le_bytes 8 (int v)" by (rule read_write_same) simp
  ultimately show ?thesis using read_bytes_append [of ?m th 8 8] by (simp add: thunk_bytes_new THUNK_PTR_def)
qed

lemma jump_rel_cong:
  assumes "m t = 0xe9" and "\<And>x. t \<le> x \<Longrightarrow> x < t + 5 \<Longrightarrow> m' x = m x"
  shows "jump_target m' t = jump_target m t \<and> m' t = 0xe9"
proof -
  have "read_bytes m' (t + 1) 4 = read_bytes m (t + 1) 4" by (rule read_bytes_cong) (use assms(2) in auto)
  with assms show ?thesis by (simp add: jump_target_def)
qed

text \<open>A hooked function keeps its jumps while its code and its thunk do.\<close>

lemma jumps_to_keeps:
  assumes "jumps_to live m t p v" and "keeps live' m m'" and "set live \<subseteq> insert (t0, t0 + DISASM_LEN) (set live')"
    and "(t, t + DISASM_LEN) \<in> set live'" and "set live' \<subseteq> set live''"
  shows "jumps_to live'' m' t p v"
proof -
  obtain th where th: "p = th + THUNK_PTR" "(th, th + 16) \<in> set live" "m t = 0xe9" "jump_target m t = Some th"
      "read_bytes m th 16 = thunk_bytes (thunk_new v)" "v < usize_size"
    using assms(1) by (auto simp: jumps_to_def)
  have th': "(th, th + 16) \<in> set live'" using th(2) assms(3) by (auto simp: DISASM_LEN_19)
  have "m' x = m x" if "t \<le> x" "x < t + 5" for x
    using assms(2,4) that unfolding keeps_def by (force simp: DISASM_LEN_19)
  with jump_rel_cong [of m t m', OF th(3)] have "jump_target m' t = Some th \<and> m' t = 0xe9" using th(4) by simp
  moreover have "read_bytes m' th 16 = read_bytes m th 16" by (rule keeps_read [OF assms(2) th'])
  ultimately show ?thesis using th th' assms(5) unfolding jumps_to_def by auto
qed

lemma os_owned_front:
  assumes "os_owned P M s (pre @ b # post)"
  shows "os_owned P M s (b # pre @ post)"
  using assms sorted_wrt_apart_remove [of pre b post] by (auto simp: os_owned_def owners_ok_def intro: apart_sym)

lemma owned_distinct_apart:
  assumes "os_owned P M s live" and "b \<in> set live" and "c \<in> set live" and "b \<noteq> c"
  shows "apart b c"
proof -
  obtain pre post where "live = pre @ b # post" using assms(2) by (meson split_list)
  with assms have "sorted_wrt apart (b # pre @ post)" "c \<in> set (pre @ post)"
    using os.owned_apart [OF os_owned_front [of P M s pre b post]] by auto
  then show ?thesis by simp
qed

section \<open>Installing\<close>

text \<open>A trampoline as the code of a function without hooks.\<close>

lemma hooked_trampoline:
  assumes h: "hooked sl valid orig w s" and none: "fst s t = []" and new: "w_code w p = None"
  shows "hooked sl valid orig (w\<lparr>w_thunk := (w_thunk w)(t := p), w_code := (w_code w)(p \<mapsto> Function (orig t))\<rparr>) s"
    (is "hooked sl valid orig ?w s")
proof -
  have ok: "hooks_ok sl valid orig w (fst s)" and cl: "\<And>t q. q \<in> set (flat (fst s t)) \<Longrightarrow> closure_at w q = Some (snd s q)"
    using h by (auto simp: hooked_def)
  have code: "w_code w x = Some c \<Longrightarrow> w_code ?w x = Some c" for x c using new by auto
  have list: "list_ok sl valid w lk original es \<Longrightarrow> list_ok sl valid ?w lk original es" for lk original es
    using code by (fastforce simp: list_ok_def keyed_def hook_key_def)
  have "layered sl valid ?w u (orig u) (w_thunk ?w u) (fst s u)" for u
  proof (cases "u = t")
    case False
    then show ?thesis using layered_frame [OF hooks_okD(2) [OF ok, of u], of ?w] code list by auto
  qed (simp add: none)
  then have "hooks_ok sl valid orig ?w (fst s)"
    using ok unfolding hooks_ok_def by simp
  moreover have "closure_at ?w q = closure_at w q" if "closure_at w q \<noteq> None" for q
    using that new by (auto simp: closure_at_def)
  ultimately show ?thesis using cl by (simp add: hooked_def)
qed

lemma install_context:
  assumes "install H (Inr c) t (k, m) = Some (res, c', k', m')"
  shows "\<exists>d. c' = Some d"
proof -
  obtain found where found: "get_thunk c t = Some found" using assms by (auto simp: install_def bind_eq_Some_conv)
  show ?thesis
  proof (cases found)
    case (Inl slot)
    with assms found obtain r a k1 m1 where "install_loop H t ((pc_alloc c, k), m) = Some (r, (a, k1), m1)"
      by (auto simp: install_def bind_eq_Some_conv)
    with assms found Inl show ?thesis by (cases r) (auto simp: install_def bind_eq_Some_conv)
  qed (use assms found in \<open>auto simp: install_def\<close>)
qed

lemma api_invD:
  assumes "api_inv H orig sl valid M J ts ps s f live"
  shows "hooked sl valid orig (ps_world ps) s" and "thunks_inv (h_vec_mmap H) (h_page H) (ps_context ps)"
    and "thunk_map (ps_context ps) = Some f" and "dom f \<subseteq> set ts" and "inj_on f (dom f)"
    and "os_owned (h_platform H) M (pc_alloc (ps_context ps), ps_kernel ps) live"
    and "t \<in> set ts \<Longrightarrow> (t, t + DISASM_LEN) \<in> set live"
    and "f t = Some p \<Longrightarrow> jumps_to live (ps_memory ps) t p (w_thunk (ps_world ps) t)"
    and "t \<in> set ts \<Longrightarrow> f t = None \<Longrightarrow> w_thunk (ps_world ps) t = t"
    and "t \<in> set ts \<Longrightarrow> f t = None \<Longrightarrow> fst s t = []"
    and "code_known J live (ps_world ps)" and "J \<inter> M (ps_kernel ps) = {}"
  using assms unfolding api_inv_def by blast+

text \<open>A pointer the world knows is seen as it is.\<close>

lemma see_known:
  assumes "hooked sl valid orig w s" and "jumps_to live m t p (w_thunk w t)" and "i_target i = t" and "i_thunk i = p"
  shows "see_thunk orig i m w = w"
proof -
  have "load64 m p = w_thunk w t" using assms(2) load64_thunk by (auto simp: jumps_to_def)
  moreover have "layered sl valid w t (orig t) (w_thunk w t) (fst s t)" using assms(1) hooks_okD(2) by (auto simp: hooked_def)
  then have "w_code w (w_thunk w t) \<noteq> None" by (cases "fst s t" rule: flat.cases) auto
  ultimately show ?thesis using assms(3,4) by (auto simp: see_thunk_def Let_def)
qed

lemma backed_in: "backed M b \<Longrightarrow> fst b \<le> x \<Longrightarrow> x < snd b \<Longrightarrow> x \<in> M"
  by (auto simp: backed_def)

lemma code_known_mono: "code_known J live w \<Longrightarrow> set live \<subseteq> set live' \<Longrightarrow> dom (w_code w') \<subseteq> dom (w_code w) \<Longrightarrow> code_known J live' w'"
  unfolding code_known_def by blast

lemma analyze_nonempty:
  assumes "analyze C addr bytes = Some (Inr site)"
  shows "hs_insns site \<noteq> []"
proof -
  obtain dec where dec: "decode_instructions C addr bytes = Some dec" using assms by (auto simp: analyze_def bind_eq_Some_conv)
  with assms obtain insns where d: "decode_instructions C addr bytes = Some (Inr insns)" by (cases dec) (simp_all add: analyze_def)
  obtain s0 n c where "analyze_loop (takeWhile (\<lambda>i. \<not> is_invalid i) insns)
      \<lparr>hs_bytes = bytes, hs_insns = insns, min_rel_addr = usize_max, max_rel_addr = 0,
       target_addr = addr, trampoline_target_addr = addr, will_branch = False\<rparr> 0 0 = (s0, n, c)" by (metis prod_cases3)
  with assms d show ?thesis by (auto simp: analyze_def bind_eq_Some_conv Let_def note_rel_def split: if_splits)
qed

lemma encode_at_nonempty:
  "encoder_emits C \<Longrightarrow> hs_insns site \<noteq> [] \<Longrightarrow> encode_at C site ip = Some (Inr (code, relocs)) \<Longrightarrow> code \<noteq> []"
  by (auto simp: encode_at_def encoder_emits_def bind_eq_Some_conv split: sum.splits if_splits)

text \<open>The other functions after an attempt to install the jumps of \<open>t\<close>.\<close>

lemma others_jump:
  assumes inv: "api_inv H orig sl valid M J ts ps s f live" and t: "f t = None" and live: "live = pre @ (t, t + DISASM_LEN) # post"
    and k: "keeps (pre @ post) (ps_memory ps) m'" and sub: "set (pre @ post) \<subseteq> set live'" and u: "f u = Some p"
  shows "jumps_to live' m' u p (w_thunk (ps_world ps) u)"
proof (rule jumps_to_keeps [OF api_invD(8) [OF inv u] k _ _ sub])
  show "set live \<subseteq> insert (t, t + DISASM_LEN) (set (pre @ post))" using live by auto
  have "u \<in> set ts" "u \<noteq> t" using api_invD(4) [OF inv] u t by auto
  with api_invD(7) [OF inv this(1)] live show "(u, u + DISASM_LEN) \<in> set (pre @ post)" by auto
qed

lemma arch_install_inv:
  assumes inv: "api_inv H orig sl valid M J ts ps s f live" and t: "t \<in> set ts" and host: "host_ok H M t"
    and emits: "encoder_emits (h_iced H)" and run: "arch_install H orig acq t ps = Some (res, ps')"
    and J: "J \<inter> M (ps_kernel ps') = {}"
  obtains f' live' where "api_inv H orig sl valid M J ts ps' s f' live'"
    and "case res of Inl e \<Rightarrow> True | Inr i \<Rightarrow> i_target i = t \<and> f' t = Some (i_thunk i)"
    and "w_hooks (ps_world ps') = w_hooks (ps_world ps)" and "\<forall>x \<in> J. w_code (ps_world ps') x = w_code (ps_world ps) x"
proof (cases acq)
  case (Some e)
  with run have "res = Inl (E_ProcessContext e)" "ps' = ps" by (auto simp: arch_install_def install_def)
  with inv show thesis by (intro that [of f live]) simp_all
next
  case None
  note D = api_invD [OF inv]
  let ?c = "ps_context ps" let ?k = "ps_kernel ps" let ?m = "ps_memory ps" let ?w = "ps_world ps"
  obtain r c' k' m' where run1: "install H (Inr ?c) t (?k, ?m) = Some (r, c', k', m')"
    using run None by (auto simp: arch_install_def bind_eq_Some_conv)
  from install_context [OF this] obtain d where "c' = Some d" by blast
  with run1 have inst: "install H (Inr ?c) t (?k, ?m) = Some (r, Some d, k', m')" by simp
  have res: "res = r"
    and ps': "ps' = (case r of Inl e \<Rightarrow> ps\<lparr>ps_context := d, ps_kernel := k', ps_memory := m'\<rparr>
      | Inr i \<Rightarrow> ps\<lparr>ps_context := d, ps_kernel := k', ps_memory := m', ps_world := see_thunk orig i m' ?w\<rparr>)"
    using run None inst by (auto simp: arch_install_def Let_def split: sum.splits)
  show thesis
  proof (cases rule: get_thunk_correct [OF D(2), of t, case_names Hooked Slot])
    case (Hooked thunk f1)
    then have "r = Inr \<lparr>i_target = t, i_thunk = thunk\<rparr>" "d = ?c" "k' = ?k" "m' = ?m" and f: "f t = Some thunk"
      using inst D(3) by (auto simp: install_def)
    moreover have "see_thunk orig \<lparr>i_target = t, i_thunk = thunk\<rparr> ?m ?w = ?w" by (rule see_known [OF D(1) D(8) [OF f]]) simp_all
    ultimately have "ps' = ps" using ps' by simp
    with inv f \<open>r = _\<close> res show thesis by (intro that [of f live]) simp_all
  next
    case (Slot slot thunks)
    have ft: "f t = None" using Slot(3,6) D(3) by (auto simp: thunk_map_def map_of_eq_None_iff image_image)
    obtain pre post where live: "live = pre @ (t, t + DISASM_LEN) # post" using split_list [OF D(7) [OF t]] by blast
    let ?rest = "pre @ post"
    have own: "os_owned (h_platform H) M (pc_alloc ?c, ?k) (held t ?rest)"
      using os_owned_front D(6) live by (metis held_def)
    from install_result [OF host D(2) own inst] D(3)
    have R: "thunks_inv (h_vec_mmap H) (h_page H) d" "keeps ?rest ?m m'"
      "case r of Inl e \<Rightarrow> thunk_map d = Some f \<and> os_owned (h_platform H) M (pc_alloc d, k') (held t ?rest)
       | Inr i \<Rightarrow> i_target i = t \<and> thunk_map d = Some (f(t \<mapsto> i_thunk i)) \<and>
         (\<exists>site thunk tramp code. i_thunk i = thunk + THUNK_PTR \<and> analyze (h_iced H) t (hs_bytes site) = Some (Inr site)
            \<and> in_place H t site thunk tramp code m'
            \<and> os_owned (h_platform H) M (pc_alloc d, k') (block_of tramp code @ (thunk, thunk + 16) # held t ?rest))"
      using ft by (auto split: sum.splits)
    have lv: "set live = set (held t ?rest)" by (auto simp: live held_def)
    have J': "J \<inter> M k' = {}" using J ps' by (cases r) simp_all
    show thesis
    proof (cases r)
      case (Inl e)
      have jumps: "jumps_to (held t ?rest) m' u p (w_thunk ?w u)" if "f u = Some p" for u p
        by (rule others_jump [OF inv ft live R(2) _ that]) (auto simp: held_def)
      have "api_inv H orig sl valid M J ts (ps\<lparr>ps_context := d, ps_kernel := k', ps_memory := m'\<rparr>) s f (held t ?rest)"
        using D(1,4,5,7,9,10,11) R(1,3) jumps J' Inl lv by (simp add: api_inv_def code_known_def)
      with Inl ps' res show thesis by (intro that [of f "held t ?rest"]) simp_all
    next
      case (Inr i)
      then obtain site thunk tramp code where i: "i_target i = t" "thunk_map d = Some (f(t \<mapsto> i_thunk i))" "i_thunk i = thunk + THUNK_PTR"
          and site: "analyze (h_iced H) t (hs_bytes site) = Some (Inr site)" and pl: "in_place H t site thunk tramp code m'"
          and own': "os_owned (h_platform H) M (pc_alloc d, k') (block_of tramp code @ (thunk, thunk + 16) # held t ?rest)"
        using R(3) by auto
      obtain relocs where enc: "encode_at (h_iced H) site tramp = Some (Inr (code, relocs))" using pl by (auto simp: in_place_def)
      have "code \<noteq> []" by (rule encode_at_nonempty [OF emits analyze_nonempty [OF site] enc])
      then have blk: "block_of tramp code = [(tramp, tramp + length code)]" by (simp add: block_of_def)
      let ?live = "(tramp, tramp + length code) # (thunk, thunk + 16) # held t ?rest"
      have own2: "os_owned (h_platform H) M (pc_alloc d, k') ?live" using own' blk by simp
      have ap: "apart (tramp, tramp + length code) b" "apart (thunk, thunk + 16) b" if "b \<in> set live" for b
        using os.owned_apart [OF own2] that lv by auto
      have "tramp \<in> M k'" using own2 \<open>code \<noteq> []\<close> by (auto simp: os_owned_def intro!: backed_in [of _ "(tramp, tramp + length code)"])
      then have nJ: "tramp \<notin> J" using J' by blast
      have new: "w_code ?w tramp = None"
      proof (rule ccontr)
        assume "w_code ?w tramp \<noteq> None"
        with D(11) nJ obtain b where "b \<in> set live" "fst b \<le> tramp" "tramp < snd b" by (auto simp: code_known_def)
        moreover have "0 < length code" using \<open>code \<noteq> []\<close> by simp
        ultimately show False using ap(1) [of b] by (auto simp: apart_def simp del: length_greater_0_conv)
      qed
      have th: "read_bytes m' thunk 16 = thunk_bytes (thunk_new tramp)" "tramp < usize_size"
        using pl by (auto simp: in_place_def va_max_def usize_defs)
      let ?w' = "?w\<lparr>w_thunk := (w_thunk ?w)(t := tramp), w_code := (w_code ?w)(tramp \<mapsto> Function (orig t))\<rparr>"
      have see: "see_thunk orig i m' ?w = ?w'" using load64_thunk [OF th] new i(1,3) by (simp add: see_thunk_def)
      have "thunk + THUNK_PTR \<notin> ran f"
      proof
        assume "thunk + THUNK_PTR \<in> ran f"
        then obtain u where "f u = Some (thunk + THUNK_PTR)" by (auto simp: ran_def)
        from D(8) [OF this] have "(thunk, thunk + 16) \<in> set live" by (auto simp: jumps_to_def)
        with ap(2) [of "(thunk, thunk + 16)"] show False by (simp add: apart_def)
      qed
      with D(5) ft have inj: "inj_on (f(t \<mapsto> i_thunk i)) (dom (f(t \<mapsto> i_thunk i)))"
        by (auto simp: inj_on_def ran_def i(3) dom_def)
      have "jumps_to ?live m' u p (w_thunk ?w' u)" if "(f(t \<mapsto> i_thunk i)) u = Some p" for u p
      proof (cases "u = t")
        case True
        then show ?thesis using pl that th i(3) by (auto simp: jumps_to_def in_place_def)
      next
        case False
        then show ?thesis using others_jump [OF inv ft live R(2), of ?live u p] that by (auto simp: held_def)
      qed
      moreover have "hooked sl valid orig ?w' s" by (rule hooked_trampoline [OF D(1) D(10) [OF t ft] new])
      moreover have "code_known J ?live ?w'"
        using D(11) lv \<open>code \<noteq> []\<close> unfolding code_known_def by auto
      ultimately have "api_inv H orig sl valid M J ts (ps\<lparr>ps_context := d, ps_kernel := k', ps_memory := m', ps_world := ?w'\<rparr>) s
          (f(t \<mapsto> i_thunk i)) ?live"
        using D(4,7,9,10) R(1) i(2) J' own2 lv t inj unfolding api_inv_def by auto
      moreover have "ps' = ps\<lparr>ps_context := d, ps_kernel := k', ps_memory := m', ps_world := ?w'\<rparr>" using ps' Inr see by simp
      ultimately show thesis using i(1) res Inr nJ by (intro that [of "f(t \<mapsto> i_thunk i)" ?live]) auto
    qed
  qed
qed

section \<open>Hooking\<close>

lemma on_thunk_inv:
  assumes inv: "api_inv H orig sl valid M J ts ps s f live" and i: "i_target i = t" "f t = Some (i_thunk i)"
    and thunk: "w_thunk (g (ps_world ps)) = (w_thunk (ps_world ps))(t := v)" "v < usize_size"
    and hooks: "hooked sl valid orig (g (ps_world ps)) s'" "\<And>u. u \<noteq> t \<Longrightarrow> fst s' u = fst s u"
    and code: "dom (w_code (g (ps_world ps))) \<subseteq> J \<union> dom (w_code (ps_world ps))"
  shows "api_inv H orig sl valid M J ts (on_thunk i g ps) s' f live"
proof -
  note D = api_invD [OF inv]
  let ?m' = "write_bytes (i_thunk i) (le_bytes 8 (int v)) (ps_memory ps)"
  have ps': "on_thunk i g ps = ps\<lparr>ps_world := g (ps_world ps), ps_memory := ?m'\<rparr>"
    using i(1) thunk(1) by (simp add: on_thunk_def Let_def)
  obtain th where th: "i_thunk i = th + THUNK_PTR" "(th, th + 16) \<in> set live" "ps_memory ps t = 0xe9" "jump_target (ps_memory ps) t = Some th"
      "read_bytes (ps_memory ps) th 16 = thunk_bytes (thunk_new (w_thunk (ps_world ps) t))"
    using D(8) [OF i(2)] by (auto simp: jumps_to_def)
  have kept: "x < th \<or> th + 16 \<le> x \<Longrightarrow> ?m' x = ps_memory ps x" for x
    using th(1) by (intro write_bytes_outside) (auto simp: THUNK_PTR_def)
  have keeps: "keeps [b] (ps_memory ps) ?m'" if "b \<in> set live" "b \<noteq> (th, th + 16)" for b
    using owned_distinct_apart [OF D(6) that(1) th(2) that(2)] kept unfolding keeps_def by (force simp: apart_def)
  have own: "jump_target ?m' u = jump_target (ps_memory ps) u \<and> ?m' u = 0xe9" if "u \<in> set ts" "ps_memory ps u = 0xe9" for u
    using jump_rel_cong [of "ps_memory ps" u ?m', OF that(2)] keeps [OF D(7) [OF that(1)]] by (force simp: keeps_def DISASM_LEN_19)
  have "jumps_to live ?m' u p (w_thunk (g (ps_world ps)) u)" if u: "f u = Some p" for u p
  proof -
    have ts: "u \<in> set ts" using u D(4) by auto
    obtain thu where thu: "p = thu + THUNK_PTR" "(thu, thu + 16) \<in> set live" "ps_memory ps u = 0xe9" "jump_target (ps_memory ps) u = Some thu"
        "read_bytes (ps_memory ps) thu 16 = thunk_bytes (thunk_new (w_thunk (ps_world ps) u))" "w_thunk (ps_world ps) u < usize_size"
      using D(8) [OF u] by (auto simp: jumps_to_def)
    show ?thesis
    proof (cases "u = t")
      case True
      then have "thu = th" using thu(4) th(4) by simp
      then show ?thesis using thu own [OF ts thu(3)] write_thunk [OF th(5), of v] True thunk th(1) by (auto simp: jumps_to_def)
    next
      case False
      then have "p \<noteq> i_thunk i" using D(5) u i(2) by (auto simp: inj_on_def dom_def)
      then have "thu \<noteq> th" using thu(1) th(1) by simp
      then have "read_bytes ?m' thu 16 = read_bytes (ps_memory ps) thu 16"
        by (intro keeps_read [OF keeps]) (use thu(2) in auto)
      then show ?thesis using thu own [OF ts thu(3)] False thunk(1) by (auto simp: jumps_to_def)
    qed
  qed
  moreover have "t \<in> set ts" "f t \<noteq> None" using i(2) D(4) by auto
  moreover have "code_known J live (g (ps_world ps))" using D(11) code unfolding code_known_def by blast
  moreover have "fst s' u = []" if "u \<in> set ts" "f u = None" for u
  proof -
    have "u \<noteq> t" using that(2) i(2) by auto
    with D(10) [OF that] hooks(2) show ?thesis by simp
  qed
  ultimately show ?thesis
    unfolding ps' api_inv_def using D(2-6,7,9,12) hooks(1) thunk(1) by auto
qed

lemma hook_effects:
  "\<exists>v \<in> {p, w_thunk w t}. w_thunk (hook_unchecked_lt sl p q h c (t, ty) w) = (w_thunk w)(t := v)"
  "dom (w_code (hook_unchecked_lt sl p q h c (t, ty) w)) \<subseteq> {p, q} \<union> dom (w_code w)"
  by (auto simp: hook_unchecked_lt_def into_unowned_handle_def lib_closures_def update_thunk_def Let_def split_beta split: option.splits)

text \<open>Dropping and calling change no pointer.\<close>

lemma world_step_inv:
  assumes inv: "api_inv H orig sl valid M J ts ps s f live" and w: "w_thunk w = w_thunk (ps_world ps)" "dom (w_code w) \<subseteq> dom (w_code (ps_world ps))"
    and hooks: "hooked sl valid orig w s'" "\<And>u. fst s u = [] \<Longrightarrow> fst s' u = []"
  shows "api_inv H orig sl valid M J ts (ps\<lparr>ps_world := w\<rparr>) s' f live"
  using api_invD [OF inv] assms(2-) code_known_mono [of J live "ps_world ps" live w] unfolding api_inv_def by simp

lemma drop_effects:
  "w_thunk (drop_handle sl h w) = w_thunk w" "dom (w_code (drop_handle sl h w)) \<subseteq> dom (w_code w)"
  by (auto simp: drop_handle_def hook_drop_def split_beta split: option.splits if_splits)

lemma frame_dom: "frame w w' \<Longrightarrow> dom (w_code w') = dom (w_code w)"
  unfolding frame_def dom_def by (metis option.map_disc_iff)

lemma api_step_inv:
  assumes inv: "api_inv H orig sl valid M J ts ps s f live" and host: "\<forall>t \<in> set ts. host_ok H M t" and emits: "encoder_emits (h_iced H)"
    and fr: "api_fresh J ts (ps_world ps) e" and run: "api_step H orig sl e ps = Some (evs, ps')" and J: "J \<inter> M (ps_kernel ps') = {}"
  obtains f' live' where "api_inv H orig sl valid M J ts ps' (fold (spec_event orig) evs s) f' live'"
proof (cases e)
  case (Api_install acq t)
  then obtain res where r: "arch_install H orig acq t ps = Some (res, ps')" "evs = []" "t \<in> set ts" using run fr by auto
  show thesis by (rule arch_install_inv [OF inv r(3) _ emits r(1) J]) (use host r that in auto)
next
  case (Api_hook acq t ty p q h c)
  then have ts: "t \<in> set ts" using fr by simp
  obtain res ps1 where r: "arch_install H orig acq t ps = Some (res, ps1)"
    using run Api_hook by (cases "arch_install H orig acq t ps") (auto simp: arch_hook_def)
  then have ps': "ps' = (case res of Inl e \<Rightarrow> ps1 | Inr i \<Rightarrow> on_thunk i (hook_unchecked_lt sl p q h c (t, ty)) ps1)"
    and evs: "evs = (case res of Inl e \<Rightarrow> [] | Inr i \<Rightarrow> [Hook t ty p q h c])"
    using run Api_hook by (cases res; simp add: arch_hook_def)+
  have J1: "J \<inter> M (ps_kernel ps1) = {}" using J ps' by (cases res) (simp_all add: on_thunk_def Let_def)
  obtain f1 live1 where 1: "api_inv H orig sl valid M J ts ps1 s f1 live1"
      "case res of Inl e \<Rightarrow> True | Inr i \<Rightarrow> i_target i = t \<and> f1 t = Some (i_thunk i)"
      "w_hooks (ps_world ps1) = w_hooks (ps_world ps)" "\<forall>x \<in> J. w_code (ps_world ps1) x = w_code (ps_world ps) x"
    by (rule arch_install_inv [OF inv ts _ emits r J1]) (use host ts in auto)
  show thesis
  proof (cases res)
    case (Inr i)
    have i: "i_target i = t" "f1 t = Some (i_thunk i)" using 1(2) Inr by auto
    have fr1: "fresh (ps_world ps1) (Hook t ty p q h c)" using fr 1(3,4) Api_hook by simp
    from hook_effects(1) [of p "ps_world ps1" t sl q h c ty]
    obtain v where v: "v \<in> {p, w_thunk (ps_world ps1) t}"
        "w_thunk (hook_unchecked_lt sl p q h c (t, ty) (ps_world ps1)) = (w_thunk (ps_world ps1))(t := v)" by blast
    have "w_thunk (ps_world ps1) t < usize_size" using api_invD(8) [OF 1(1) i(2)] by (auto simp: jumps_to_def)
    with v(1) fr Api_hook have small: "v < usize_size" by auto
    have "hooked sl valid orig (hook_unchecked_lt sl p q h c (t, ty) (ps_world ps1)) (spec_event orig (Hook t ty p q h c) s)"
      using hooked_event [OF api_invD(1) [OF 1(1)] fr1] by simp
    moreover have "fst (spec_event orig (Hook t ty p q h c) s) u = fst s u" if "u \<noteq> t" for u using that by (cases s) simp
    moreover have "dom (w_code (hook_unchecked_lt sl p q h c (t, ty) (ps_world ps1))) \<subseteq> J \<union> dom (w_code (ps_world ps1))"
      using hook_effects(2) [of sl p q h c t ty "ps_world ps1"] fr Api_hook by auto
    ultimately have "api_inv H orig sl valid M J ts (on_thunk i (hook_unchecked_lt sl p q h c (t, ty)) ps1)
        (spec_event orig (Hook t ty p q h c) s) f1 live1"
      by (rule on_thunk_inv [where g = "hook_unchecked_lt sl p q h c (t, ty)", OF 1(1) i v(2) small]) auto
    with Inr ps' evs that show thesis by simp
  qed (use 1(1) ps' evs that in simp)
next
  case (Api_static acq t p c)
  then have ts: "t \<in> set ts" using fr by simp
  obtain res ps1 where r: "arch_install H orig acq t ps = Some (res, ps1)"
    using run Api_static by (cases "arch_install H orig acq t ps") (auto simp: arch_static_hook_def)
  then have ps': "ps' = (case res of Inl e \<Rightarrow> ps1 | Inr i \<Rightarrow> on_thunk i (static_hook p c t) ps1)"
    and evs: "evs = (case res of Inl e \<Rightarrow> [] | Inr i \<Rightarrow> [Static_hook t p c])"
    using run Api_static by (cases res; simp add: arch_static_hook_def)+
  have J1: "J \<inter> M (ps_kernel ps1) = {}" using J ps' by (cases res) (simp_all add: on_thunk_def Let_def)
  obtain f1 live1 where 1: "api_inv H orig sl valid M J ts ps1 s f1 live1"
      "case res of Inl e \<Rightarrow> True | Inr i \<Rightarrow> i_target i = t \<and> f1 t = Some (i_thunk i)"
      "\<forall>x \<in> J. w_code (ps_world ps1) x = w_code (ps_world ps) x"
    by (rule arch_install_inv [OF inv ts _ emits r J1]) (use host ts in auto)
  show thesis
  proof (cases res)
    case (Inr i)
    have i: "i_target i = t" "f1 t = Some (i_thunk i)" using 1(2) Inr by auto
    have fr1: "fresh (ps_world ps1) (Static_hook t p c)" using fr 1(3) Api_static by simp
    have v: "w_thunk (static_hook p c t (ps_world ps1)) = (w_thunk (ps_world ps1))(t := p)" "p < usize_size"
      using fr Api_static by (auto simp: static_hook_def update_thunk_def)
    have "hooked sl valid orig (static_hook p c t (ps_world ps1)) (spec_event orig (Static_hook t p c) s)"
      using hooked_event [OF api_invD(1) [OF 1(1)] fr1] by simp
    moreover have "fst (spec_event orig (Static_hook t p c) s) u = fst s u" if "u \<noteq> t" for u using that by (cases s) simp
    moreover have "dom (w_code (static_hook p c t (ps_world ps1))) \<subseteq> J \<union> dom (w_code (ps_world ps1))"
      using fr Api_static by (auto simp: static_hook_def update_thunk_def)
    ultimately have "api_inv H orig sl valid M J ts (on_thunk i (static_hook p c t) ps1) (spec_event orig (Static_hook t p c) s) f1 live1"
      by (rule on_thunk_inv [where g = "static_hook p c t", OF 1(1) i v]) auto
    with Inr ps' evs that show thesis by simp
  qed (use 1(1) ps' evs that in simp)
next
  case (Api_drop h)
  have "hooked sl valid orig (drop_handle sl h (ps_world ps)) (spec_event orig (Drop_handle h) s)"
    using hooked_event [OF api_invD(1) [OF inv], of "Drop_handle h"] by simp
  moreover have "fst s u = [] \<Longrightarrow> fst (spec_event orig (Drop_handle h) s) u = []" for u by (cases s) simp
  ultimately have "api_inv H orig sl valid M J ts (ps\<lparr>ps_world := drop_handle sl h (ps_world ps)\<rparr>) (spec_event orig (Drop_handle h) s) f live"
    by (intro world_step_inv [OF inv drop_effects]) auto
  with run Api_drop that show thesis by auto
next
  case (Api_call t a)
  note call = hooked_call [OF api_invD(1) [OF inv], of t a]
  let ?w = "fill (flat (fst s t)) (snd (spec_result orig s t a)) (ps_world ps)"
  have fr: "frame (ps_world ps) ?w" using frame_fill [OF frame_refl] .
  have "hooked sl valid orig ?w (spec_event orig (Call t a) s)"
    using hooked_event [OF api_invD(1) [OF inv], of "Call t a"] call by simp
  moreover have "fst s u = [] \<Longrightarrow> fst (spec_event orig (Call t a) s) u = []" for u by (cases s) simp
  ultimately have "api_inv H orig sl valid M J ts (ps\<lparr>ps_world := ?w\<rparr>) (spec_event orig (Call t a) s) f live"
    using frame_sel [OF fr] frame_dom [OF fr] by (intro world_step_inv [OF inv]) auto
  with run Api_call call that show thesis by auto
qed

lemma api_run_inv:
  assumes "api_inv H orig sl valid M J ts ps s f live" and "\<forall>t \<in> set ts. host_ok H M t" and "encoder_emits (h_iced H)"
    and "api_okay H orig sl M J ts es ps" and "api_run H orig sl es ps = Some (evs, ps')"
  shows "\<exists>f' live'. api_inv H orig sl valid M J ts ps' (fold (spec_event orig) evs s) f' live'"
  using assms(1,4,5)
proof (induction es arbitrary: ps s f live evs)
  case (Cons e es)
  then obtain ev1 ps1 ev2 where r: "api_step H orig sl e ps = Some (ev1, ps1)" "api_run H orig sl es ps1 = Some (ev2, ps')" "evs = ev1 @ ev2"
    by (auto simp: bind_eq_Some_conv)
  with Cons.prems(2) have ok: "api_fresh J ts (ps_world ps) e" "J \<inter> M (ps_kernel ps1) = {}" "api_okay H orig sl M J ts es ps1" by auto
  obtain f1 live1 where "api_inv H orig sl valid M J ts ps1 (fold (spec_event orig) ev1 s) f1 live1"
    by (rule api_step_inv [OF Cons.prems(1) assms(2,3) ok(1) r(1) ok(2)])
  from Cons.IH [OF this ok(3) r(2)] r(3) show ?case by simp
qed auto

lemma api_start_inv:
  assumes "slab_laws sl valid" and "api_start H orig M J ts ps"
  shows "api_inv H orig sl valid M J ts ps (\<lambda>t. [], m) Map.empty (map (\<lambda>t. (t, t + DISASM_LEN)) ts)"
proof -
  have "code_known J (map (\<lambda>t. (t, t + DISASM_LEN)) ts) (ps_world ps)"
    using assms(2) by (force simp: api_start_def code_known_def DISASM_LEN_19)
  with assms show ?thesis using unhooked_hooked [OF assms(1)] by (auto simp: api_inv_def api_start_def)
qed

section \<open>The property\<close>

text \<open>
  C1. Installing and hooking together. After any use of the interface, failed installations included, a call
  of a function that was hooked jumps to its thunk and from there to the address in the thunk's
  memory; what runs there, or in the function itself if it was never hooked, is what the hooks that were
  put on it return when each is called with the rest as its original, and the function last.
\<close>

theorem hooked_process_calls:
  assumes "slab_laws sl valid" and "api_start H orig M J ts ps" and "api_okay H orig sl M J ts es ps"
    and "api_run H orig sl es ps = Some (evs, ps')" and "t \<in> set ts"
  shows "\<exists>f. thunk_map (ps_context ps') = Some f
    \<and> (case f t of
         Some p \<Rightarrow> \<exists>thunk. p = thunk + THUNK_PTR \<and> jump_target (ps_memory ps') t = Some thunk
           \<and> jump_target (ps_memory ps') thunk = Some (w_thunk (ps_world ps') t)
       | None \<Rightarrow> w_thunk (ps_world ps') t = t)
    \<and> map_option fst (call_at sl (ps_world ps') (w_thunk (ps_world ps') t) a) = Some (fst (spec_result orig (spec_history orig evs) t a))"
proof -
  have "\<forall>t \<in> set ts. host_ok H M t" "encoder_emits (h_iced H)" using assms(2) by (auto simp: api_start_def)
  from api_run_inv [OF api_start_inv [OF assms(1,2), where m = "\<lambda>q. Shared (\<lambda>a. Return (orig 0 a))"] this assms(3,4)]
  obtain f live where inv: "api_inv H orig sl valid M J ts ps' (spec_history orig evs) f live"
    by (auto simp: spec_history_def)
  note D = api_invD [OF inv]
  have "case f t of Some p \<Rightarrow> \<exists>thunk. p = thunk + THUNK_PTR \<and> jump_target (ps_memory ps') t = Some thunk
           \<and> jump_target (ps_memory ps') thunk = Some (w_thunk (ps_world ps') t)
       | None \<Rightarrow> w_thunk (ps_world ps') t = t"
  proof (cases "f t")
    case (Some p)
    from D(8) [OF this] thunk_lands show ?thesis by (auto simp: Some jumps_to_def)
  qed (use D(9) [OF assms(5)] in simp)
  with D(3) hooked_call [OF D(1), of t a] show ?thesis by (auto simp: call_target_def)
qed

section \<open>An example\<close>

text \<open>The function at 4096 of \<open>Install\<close>'s example, which appends its address to a list, and a hook that appends 7 first.\<close>

definition example_orig :: "nat \<Rightarrow> nat list \<Rightarrow> nat list" where
  "example_orig t = (if t = 4096 then (\<lambda>xs. xs @ [4096]) else (\<lambda>xs. xs))"

definition example_process :: "(nat set, (nat \<times> nat node) list, nat list, nat list, nat) hook_process" where
  "example_process = \<lparr>ps_context = hooking_context, ps_kernel = hooked_start, ps_memory = hooked_memory,
     ps_world = \<lparr>w_thunk = (\<lambda>t. if t = 4096 then 4096 else 1), w_code = [4096 \<mapsto> Function (\<lambda>xs. xs @ [4096]), 1 \<mapsto> Function (\<lambda>xs. xs)],
       w_lists = Map.empty, w_hooks = Map.empty\<rparr>\<rparr>"

abbreviation example_use :: "(nat list, nat list, nat) api_event list" where
  "example_use \<equiv> [Api_hook None 4096 0 101 103 0 (example_hook 7)]"

lemma example_process_start: "api_start example_host example_orig id {1, 101, 103} [4096] example_process"
proof -
  have "unhooked example_orig (ps_world example_process)" by (simp add: unhooked_def example_process_def example_orig_def)
  moreover have "thunks_inv (h_vec_mmap example_host) (h_page example_host) hooking_context"
    using example_context_inv by (simp add: example_host_def hooking_context_def)
  moreover have "thunk_map hooking_context = Some Map.empty"
    by (simp add: thunk_map_def hooking_context_def example_context_def vec_contents_def pod_vec_new_empty)
  moreover have "os_owned (h_platform example_host) id (pc_alloc hooking_context, hooked_start) [(4096, 4096 + DISASM_LEN)]"
    using hooked_owned by (simp add: hooking_context_def held_def)
  moreover have "encoder_emits (h_iced example_host)" by (simp add: encoder_emits_def example_host_def example_iced_def)
  ultimately show ?thesis
    using example_host_ok by (simp add: api_start_def example_process_def hooked_start_def dom_def) auto
qed

theorem hooked_process_calls_witness:
  "\<exists>ps thunk. api_run example_host example_orig list_slab example_use example_process = Some ([Hook 4096 0 101 103 0 (example_hook 7)], ps)
     \<and> jump_target (ps_memory ps) 4096 = Some thunk \<and> jump_target (ps_memory ps) thunk = Some 101
     \<and> map_option fst (call_at list_slab (ps_world ps) 101 []) = Some [7, 4096]"
proof -
  obtain c m where inst: "install example_host (Inr hooking_context) 4096 (hooked_start, hooked_memory)
     = Some (Inr \<lparr>i_target = 4096, i_thunk = 73720\<rparr>, Some c, hooked_start, m)" using hooked_install by blast
  let ?use = "Api_hook None 4096 0 101 103 0 (example_hook 7)"
  obtain ps where step: "api_step example_host example_orig list_slab ?use example_process = Some ([Hook 4096 0 101 103 0 (example_hook 7)], ps)"
      and k: "ps_kernel ps = hooked_start" and w: "w_thunk (ps_world ps) 4096 = 101"
    by (auto simp: arch_hook_def arch_install_def inst example_process_def on_thunk_def see_thunk_def Let_def
        hook_unchecked_lt_def into_unowned_handle_def lib_closures_def closure_list_default_def update_thunk_def split_beta)
  then have run: "api_run example_host example_orig list_slab example_use example_process = Some ([Hook 4096 0 101 103 0 (example_hook 7)], ps)"
    by (simp del: api_step.simps)
  have "{1, 101, 103} \<inter> hooked_start = {}" by (auto simp: hooked_start_def)
  moreover have "api_fresh {1, 101, 103} [4096] (ps_world example_process) ?use"
    by (simp add: example_process_def usize_defs)
  ultimately have ok: "api_okay example_host example_orig list_slab id {1, 101, 103} [4096] example_use example_process"
    using step k by (simp del: api_step.simps api_fresh.simps)
  have "spec_result example_orig (spec_history example_orig [Hook 4096 0 101 103 0 (example_hook 7)]) 4096 [] = ([7, 4096], [example_hook 7])"
    by (simp add: spec_history_def spec_result_def ensure_level_def spec_call_def example_hook_def hook_fn_def example_orig_def)
  with hooked_process_calls [OF list_slab_laws example_process_start ok run, of 4096 "[]"] run w show ?thesis
    by (auto split: option.splits)
qed

end
