(* ===== verification/Hook_Race.thy ===== *)
theory Hook_Race
  imports Linked_Slab
begin

text \<open>
  Temporary hooks used by many threads (\<open>hook/temp.rs\<close>): while some threads run through the list of
  one function, others add hooks and drop handles. The list is guarded by a read-write lock; the
  count of extra hooks is an atomic that is read without it, to call the original directly when
  there is no other hook. A step is one atomic access or one critical section.
\<close>

section \<open>State\<close>

text \<open>
  A hook: not yet made, pushed on the list by a thread that holds the write lock, made, no longer
  counted (\<open>drop\<close> has decremented the count), or removed from the list.
\<close>

datatype phase = Unmade | Making | Made | Uncounted | Removed

text \<open>
  What a thread is in: the closure of a hook, \<open>call_original\<close> with the upgraded handle before and
  after it has read the count, and during the call, the original function, and a panic because the
  handle is gone.
\<close>

datatype call_frame =
    Running nat | Holding nat | Loaded nat bool | Calling nat | In_original | Panicked nat

record 's race =
  r_list :: "'s linked_slab"
  r_extra :: int
  r_writer :: "nat option"
  r_key :: "nat \<Rightarrow> nat"
  r_phase :: "nat \<Rightarrow> phase"
  r_handle :: "nat \<Rightarrow> bool"
  r_stack :: "nat \<Rightarrow> call_frame list"

fun held_by :: "call_frame \<Rightarrow> nat option" where
  "held_by (Holding h) = Some h"
| "held_by (Loaded h b) = Some h"
| "held_by (Calling h) = Some h"
| "held_by _ = None"

text \<open>Whether there is a strong reference to the hook.\<close>

definition strong :: "'s race \<Rightarrow> nat \<Rightarrow> bool" where
  "strong s h \<longleftrightarrow> r_handle s h \<or> (\<exists>t. Some h \<in> held_by ` set (r_stack s t))"

definition set_stack :: "nat \<Rightarrow> call_frame list \<Rightarrow> 's race \<Rightarrow> 's race" where
  "set_stack t fs s = s\<lparr>r_stack := (r_stack s)(t := fs)\<rparr>"

section \<open>Steps\<close>

text \<open>\<open>hook_unchecked_lt\<close>: under the write lock, the push and then the count.\<close>

definition race_push :: "('s, nat node) slab_ops \<Rightarrow> nat \<Rightarrow> 's race \<Rightarrow> 's race" where
  "race_push sl h s =
     (let (key, closures) = ls_push_front sl (r_list s) h
      in s\<lparr>r_list := closures, r_key := (r_key s)(h := key), r_writer := Some h,
           r_phase := (r_phase s)(h := Making), r_handle := (r_handle s)(h := True)\<rparr>)"

definition race_count :: "nat \<Rightarrow> 's race \<Rightarrow> 's race" where
  "race_count h s = s\<lparr>r_extra := r_extra s + 1, r_writer := None, r_phase := (r_phase s)(h := Made)\<rparr>"

text \<open>\<open>Hook::drop\<close>: the count, and then the removal under the write lock.\<close>

definition race_uncount :: "nat \<Rightarrow> 's race \<Rightarrow> 's race" where
  "race_uncount h s = s\<lparr>r_extra := r_extra s - 1, r_phase := (r_phase s)(h := Uncounted)\<rparr>"

definition race_remove :: "('s, nat node) slab_ops \<Rightarrow> nat \<Rightarrow> 's race \<Rightarrow> 's race" where
  "race_remove sl h s = s\<lparr>r_list := snd (ls_remove sl (r_list s) (r_key s h)), r_phase := (r_phase s)(h := Removed)\<rparr>"

text \<open>The dispatcher: the first closure, or the original.\<close>

definition race_dispatch :: "('s, nat node) slab_ops \<Rightarrow> 's race \<Rightarrow> call_frame" where
  "race_dispatch sl s = (case ls_first sl (r_list s) of Some h \<Rightarrow> Running h | None \<Rightarrow> In_original)"

text \<open>\<open>call_original_slow\<close>: the next closure, or the original.\<close>

definition race_next :: "('s, nat node) slab_ops \<Rightarrow> nat \<Rightarrow> 's race \<Rightarrow> call_frame" where
  "race_next sl h s = (case ls_get_next sl (r_list s) (r_key s h) of Some g \<Rightarrow> Running g | None \<Rightarrow> In_original)"

inductive race_step :: "('s, nat node) slab_ops \<Rightarrow> 's race \<Rightarrow> 's race \<Rightarrow> bool" for sl where
  push: "r_phase s h = Unmade \<Longrightarrow> r_writer s = None \<Longrightarrow> race_step sl s (race_push sl h s)"
| count: "r_writer s = Some h \<Longrightarrow> race_step sl s (race_count h s)"
| release: "r_phase s h = Made \<Longrightarrow> race_step sl s (s\<lparr>r_handle := (r_handle s)(h := False)\<rparr>)"
| uncount: "r_phase s h = Made \<Longrightarrow> \<not> strong s h \<Longrightarrow> race_step sl s (race_uncount h s)"
| remove: "r_phase s h = Uncounted \<Longrightarrow> r_writer s = None \<Longrightarrow> race_step sl s (race_remove sl h s)"
| enter: "r_stack s t = fs \<Longrightarrow> r_writer s = None \<Longrightarrow> race_step sl s (set_stack t (race_dispatch sl s # fs) s)"
| use_handle: "r_stack s t = fs \<Longrightarrow> r_handle s h \<Longrightarrow> r_phase s h = Made
    \<Longrightarrow> race_step sl s (set_stack t (Holding h # fs) s)"
| upgrade: "r_stack s t = Running h # fs \<Longrightarrow> strong s h \<Longrightarrow> race_step sl s (set_stack t (Holding h # Running h # fs) s)"
| upgrade_fails: "r_stack s t = Running h # fs \<Longrightarrow> \<not> strong s h \<Longrightarrow> race_step sl s (set_stack t (Panicked h # Running h # fs) s)"
| load: "r_stack s t = Holding h # fs \<Longrightarrow> race_step sl s (set_stack t (Loaded h (0 < r_extra s) # fs) s)"
| call_fast: "r_stack s t = Loaded h False # fs \<Longrightarrow> race_step sl s (set_stack t (In_original # Calling h # fs) s)"
| call_slow: "r_stack s t = Loaded h True # fs \<Longrightarrow> r_writer s = None
    \<Longrightarrow> race_step sl s (set_stack t (race_next sl h s # Calling h # fs) s)"
| return_original: "r_stack s t = In_original # fs \<Longrightarrow> race_step sl s (set_stack t fs s)"
| return_hook: "r_stack s t = Running h # fs \<Longrightarrow> race_step sl s (set_stack t fs s)"
| return_call: "r_stack s t = Calling h # fs \<Longrightarrow> race_step sl s (set_stack t fs s)"

definition race_start :: "('s, nat node) slab_ops \<Rightarrow> 's race" where
  "race_start sl = \<lparr>r_list = ls_new sl, r_extra = -1, r_writer = None, r_key = (\<lambda>h. usize_max),
     r_phase = (\<lambda>h. Unmade), r_handle = (\<lambda>h. False), r_stack = (\<lambda>t. [])\<rparr>"

inductive race_reachable :: "('s, nat node) slab_ops \<Rightarrow> 's race \<Rightarrow> bool" for sl where
  start: "race_reachable sl (race_start sl)"
| step: "race_reachable sl s \<Longrightarrow> race_step sl s s' \<Longrightarrow> race_reachable sl s'"

section \<open>The invariant\<close>

definition on_list :: "phase \<Rightarrow> bool" where
  "on_list p \<longleftrightarrow> p = Making \<or> p = Made \<or> p = Uncounted"

definition counted :: "(nat \<Rightarrow> phase) \<Rightarrow> (nat \<times> nat) list \<Rightarrow> nat" where
  "counted ph es = length (filter (\<lambda>e. ph (snd e) \<noteq> Uncounted) es)"

lemma counted_simps [simp]:
  "counted ph [] = 0" "counted ph ((k, h) # es) = (if ph h = Uncounted then 0 else 1) + counted ph es"
  "counted ph (us @ vs) = counted ph us + counted ph vs"
  by (simp_all add: counted_def)

lemma counted_other [simp]: "h \<notin> snd ` set es \<Longrightarrow> counted (ph(h := p)) es = counted ph es"
  unfolding counted_def by (intro arg_cong [where f = length] filter_cong) auto

definition list_inv :: "('s, nat node) slab_ops \<Rightarrow> ('s \<Rightarrow> bool) \<Rightarrow> 's race \<Rightarrow> (nat \<times> nat) list \<Rightarrow> bool" where
  "list_inv sl valid s es \<longleftrightarrow> ls_holds sl valid (r_list s) es
     \<and> distinct (map snd es) \<and> (\<forall>h. h \<in> snd ` set es \<longleftrightarrow> on_list (r_phase s h)) \<and> (\<forall>(k, h) \<in> set es. r_key s h = k)
     \<and> r_extra s + 1 + (case r_writer s of None \<Rightarrow> 0 | Some _ \<Rightarrow> 1)
       = int (counted (r_phase s) es)
     \<and> (\<forall>h. r_phase s h = Making \<longleftrightarrow> r_writer s = Some h)
     \<and> (\<forall>h. r_writer s = Some h \<longrightarrow> h = snd (hd es))"

definition strong_inv :: "'s race \<Rightarrow> bool" where
  "strong_inv s \<longleftrightarrow> (\<forall>h. r_handle s h \<longrightarrow> r_phase s h = Making \<or> r_phase s h = Made)
     \<and> (\<forall>t h. Some h \<in> held_by ` set (r_stack s t) \<longrightarrow> r_phase s h = Made)
     \<and> (\<forall>t h. Running h \<in> set (r_stack s t) \<longrightarrow> r_phase s h \<noteq> Unmade \<and> r_phase s h \<noteq> Making)"

lemma set_stack_sel [simp]:
  "r_list (set_stack t fs s) = r_list s" "r_extra (set_stack t fs s) = r_extra s"
  "r_writer (set_stack t fs s) = r_writer s" "r_key (set_stack t fs s) = r_key s"
  "r_phase (set_stack t fs s) = r_phase s" "r_handle (set_stack t fs s) = r_handle s"
  "r_stack (set_stack t fs s) = (r_stack s)(t := fs)"
  by (simp_all add: set_stack_def)

lemma list_inv_stack [simp]: "list_inv sl valid (set_stack t fs s) es \<longleftrightarrow> list_inv sl valid s es"
  by (simp add: list_inv_def)

lemma list_invD:
  assumes "list_inv sl valid s es"
  shows "ls_holds sl valid (r_list s) es" "distinct (map snd es)" "h \<in> snd ` set es \<longleftrightarrow> on_list (r_phase s h)"
    and "(k, h) \<in> set es \<Longrightarrow> r_key s h = k"
    and "r_extra s + 1 + (case r_writer s of None \<Rightarrow> 0 | Some _ \<Rightarrow> 1)
       = int (counted (r_phase s) es)"
    and "r_phase s h = Making \<longleftrightarrow> r_writer s = Some h"
    and "r_writer s = Some h \<Longrightarrow> h = snd (hd es)"
  using assms unfolding list_inv_def by blast+

text \<open>The entry of a hook on the list.\<close>

lemma list_inv_split:
  assumes inv: "list_inv sl valid s es" and h: "on_list (r_phase s h)"
  obtains us vs where "es = us @ (r_key s h, h) # vs" "h \<notin> snd ` set us" "h \<notin> snd ` set vs"
proof -
  obtain k where "(k, h) \<in> set es" using h list_invD(3) [OF inv, of h] by auto
  moreover from this have "k = r_key s h" using list_invD(4) [OF inv] by simp
  ultimately obtain us vs where "es = us @ (r_key s h, h) # vs" by (auto dest: split_list)
  with list_invD(2) [OF inv] that show thesis by auto
qed

lemma push_list_inv:
  assumes inv: "list_inv sl valid s es" and h: "r_phase s h = Unmade" "r_writer s = None"
  shows "\<exists>k. list_inv sl valid (race_push sl h s) ((k, h) # es)"
proof -
  obtain k l where k: "ls_push_front sl (r_list s) h = (k, l)" by (cases "ls_push_front sl (r_list s) h")
  have holds: "ls_holds sl valid l ((k, h) # es)" using ls.push_holds [OF list_invD(1) [OF inv], of h] k by simp
  have new: "h \<notin> snd ` set es" using list_invD(3) [OF inv, of h] h(1) by (simp add: on_list_def)
  have absent: "(a, h) \<notin> set es" for a using new by (auto simp: rev_image_eqI)
  have none: "r_phase s g \<noteq> Making" for g using list_invD(6) [OF inv, of g] h(2) by simp
  have "list_inv sl valid (race_push sl h s) ((k, h) # es)"
    using holds new absent list_invD(2-6) [OF inv] h none
    unfolding list_inv_def by (auto simp: race_push_def k on_list_def)
  then show ?thesis ..
qed

lemma count_list_inv:
  assumes inv: "list_inv sl valid s es" and h: "r_writer s = Some h"
  shows "list_inv sl valid (race_count h s) es"
proof -
  have p: "r_phase s h = Making" using list_invD(6) [OF inv, of h] h by simp
  obtain us vs where es: "es = us @ (r_key s h, h) # vs" "h \<notin> snd ` set us" "h \<notin> snd ` set vs"
    using list_inv_split [OF inv, of h] p by (auto simp: on_list_def)
  have "r_phase s g \<noteq> Making" if "g \<noteq> h" for g using list_invD(6) [OF inv, of g] h that by simp
  then show ?thesis
    using list_invD(1-5) [OF inv] h p es(2,3)
    unfolding list_inv_def by (auto simp: race_count_def on_list_def es(1))
qed

lemma uncount_list_inv:
  assumes inv: "list_inv sl valid s es" and h: "r_phase s h = Made"
  shows "list_inv sl valid (race_uncount h s) es"
proof -
  obtain us vs where es: "es = us @ (r_key s h, h) # vs" "h \<notin> snd ` set us" "h \<notin> snd ` set vs"
    using list_inv_split [OF inv, of h] h by (auto simp: on_list_def)
  have "r_writer s \<noteq> Some h" using list_invD(6) [OF inv, of h] h by simp
  then show ?thesis
    using list_invD [OF inv] h es(2,3)
    unfolding list_inv_def by (auto simp: race_uncount_def on_list_def es(1))
qed

lemma remove_list_inv:
  assumes inv: "list_inv sl valid s es" and h: "r_phase s h = Uncounted" "r_writer s = None"
  shows "list_inv sl valid (race_remove sl h s) (filter (\<lambda>e. snd e \<noteq> h) es)"
proof -
  obtain us vs where es: "es = us @ (r_key s h, h) # vs" "h \<notin> snd ` set us" "h \<notin> snd ` set vs"
    using list_inv_split [OF inv, of h] h by (auto simp: on_list_def)
  note holds = list_invD(1) [OF inv, unfolded es(1)]
  have "ls_holds sl valid (snd (ls_remove sl (r_list s) (r_key s h))) (us @ vs)"
    using ls.rem_holds [OF holds, of "r_key s h"] without_key_split [OF ls.keys_distinct [OF holds]] by simp
  moreover have "r_phase s g \<noteq> Making" for g using list_invD(6) [OF inv, of g] h(2) by simp
  ultimately have "list_inv sl valid (race_remove sl h s) (us @ vs)"
    using list_invD(2-5) [OF inv] h es(2,3)
    unfolding list_inv_def by (auto simp: race_remove_def on_list_def es(1))
  moreover have "filter (\<lambda>e. snd e \<noteq> h) us = us" "filter (\<lambda>e. snd e \<noteq> h) vs = vs"
    using es(2,3) by (auto simp: filter_id_conv image_iff)
  ultimately show ?thesis by (simp add: es(1))
qed

lemma strong_invD:
  assumes "strong_inv s"
  shows "r_handle s h \<Longrightarrow> r_phase s h = Making \<or> r_phase s h = Made"
    and "f \<in> set (r_stack s t) \<Longrightarrow> held_by f = Some h \<Longrightarrow> r_phase s h = Made"
    and "Running h \<in> set (r_stack s t) \<Longrightarrow> r_phase s h \<noteq> Unmade \<and> r_phase s h \<noteq> Making"
  using assms unfolding strong_inv_def by (metis, metis imageI, metis)

lemma strong_invD_all:
  "strong_inv s \<Longrightarrow> r_stack s t = fs \<Longrightarrow>
    (\<forall>f \<in> set fs. \<forall>h. held_by f = Some h \<longrightarrow> r_phase s h = Made)
    \<and> (\<forall>h. Running h \<in> set fs \<longrightarrow> r_phase s h \<noteq> Unmade \<and> r_phase s h \<noteq> Making)"
  using strong_invD(2,3) by metis

lemma strong_inv_stack:
  assumes inv: "strong_inv s" and t: "r_stack s t = fs"
    and f: "\<And>f h. f \<in> set fs' \<Longrightarrow> held_by f = Some h \<Longrightarrow> r_phase s h = Made"
    and running: "\<And>h. Running h \<in> set fs' \<Longrightarrow> r_phase s h \<noteq> Unmade \<and> r_phase s h \<noteq> Making"
  shows "strong_inv (set_stack t fs' s)"
  using strong_invD [OF inv] f running unfolding strong_inv_def by (auto simp: image_iff)

lemma listed_running:
  assumes inv: "list_inv sl valid s es" and "r_writer s = None" and "(k, h) \<in> set es"
  shows "r_phase s h \<noteq> Unmade \<and> r_phase s h \<noteq> Making"
proof -
  have "h \<in> snd ` set es" using assms(3) by (auto simp: rev_image_eqI)
  then show ?thesis using list_invD(3,6) [OF inv, of h] assms(2) by (auto simp: on_list_def)
qed

lemma dispatch_running:
  assumes inv: "list_inv sl valid s es" and w: "r_writer s = None" and d: "race_dispatch sl s = Running h"
  shows "r_phase s h \<noteq> Unmade \<and> r_phase s h \<noteq> Making"
proof -
  have "\<exists>k. (k, h) \<in> set es"
    using ls.front_holds [OF list_invD(1) [OF inv]] d by (cases es) (auto simp: race_dispatch_def)
  then show ?thesis using listed_running [OF inv w] by blast
qed

lemma next_running:
  assumes inv: "list_inv sl valid s es" and w: "r_writer s = None" and d: "race_next sl h s = Running g"
  shows "r_phase s g \<noteq> Unmade \<and> r_phase s g \<noteq> Making"
proof -
  have "\<exists>k. (k, g) \<in> set es"
    using ls.get_next_holds [OF list_invD(1) [OF inv], of "r_key s h"] d next_of_in
    by (fastforce simp: race_next_def split: option.splits)
  then show ?thesis using listed_running [OF inv w] by blast
qed

lemma frame_kinds [simp]:
  "held_by (race_dispatch sl s) = None" "held_by (race_next sl h s) = None"
  "race_dispatch sl s \<noteq> Loaded g b" "Loaded g b \<noteq> race_dispatch sl s"
  "race_next sl h s \<noteq> Loaded g b" "Loaded g b \<noteq> race_next sl h s"
  by (auto simp: race_dispatch_def race_next_def split: option.splits)

text \<open>
  What a thread has concluded from a count of zero stays true until it calls the original: the hooks
  behind its own are all being removed, and new hooks come in front.
\<close>

definition behind :: "nat \<Rightarrow> (nat \<times> nat) list \<Rightarrow> (nat \<times> nat) list" where
  "behind h es = tl (dropWhile (\<lambda>e. snd e \<noteq> h) es)"

lemma behind_split: "h \<notin> snd ` set us \<Longrightarrow> behind h (us @ (k, h) # vs) = vs"
  by (induction us) (auto simp: behind_def)

lemma in_set_tl: "e \<in> set (tl es) \<Longrightarrow> e \<in> set es"
  by (cases es) auto

lemma behind_push [simp]: "g \<noteq> h \<Longrightarrow> behind h ((k, g) # es) = behind h es"
  by (simp add: behind_def)

lemma behind_filter: "g \<noteq> h \<Longrightarrow> behind g (filter (\<lambda>e. snd e \<noteq> h) es) = filter (\<lambda>e. snd e \<noteq> h) (behind g es)"
  by (induction es) (auto simp: behind_def)

definition settled :: "'s race \<Rightarrow> (nat \<times> nat) list \<Rightarrow> bool" where
  "settled s es \<longleftrightarrow> (\<forall>t h. Loaded h False \<in> set (r_stack s t)
     \<longrightarrow> (\<forall>e \<in> set (behind h es). r_phase s (snd e) = Uncounted))"

lemma settledD:
  "settled s es \<Longrightarrow> Loaded h False \<in> set (r_stack s t) \<Longrightarrow> e \<in> set (behind h es) \<Longrightarrow> r_phase s (snd e) = Uncounted"
  by (auto simp: settled_def)

lemma settled_phase:
  assumes "settled s es" and "r_stack s' = r_stack s"
    and "\<And>t g. Loaded g False \<in> set (r_stack s t) \<Longrightarrow> set (behind g es') \<subseteq> set (behind g es)"
    and "\<And>g. r_phase s g = Uncounted \<Longrightarrow> g \<in> snd ` set es' \<Longrightarrow> r_phase s' g = Uncounted"
  shows "settled s' es'"
  unfolding settled_def
proof (intro allI impI ballI)
  fix t h e assume h: "Loaded h False \<in> set (r_stack s' t)" and e: "e \<in> set (behind h es')"
  have stack: "Loaded h False \<in> set (r_stack s t)" using h by (simp only: assms(2))
  then have "r_phase s (snd e) = Uncounted" using settledD [OF assms(1) stack] assms(3) [OF stack] e by blast
  moreover have "e \<in> set es'"
    using e by (auto simp: behind_def dest!: in_set_tl dest: set_dropWhileD)
  ultimately show "r_phase s' (snd e) = Uncounted" using assms(4) by simp
qed

definition race_inv :: "('s, nat node) slab_ops \<Rightarrow> ('s \<Rightarrow> bool) \<Rightarrow> 's race \<Rightarrow> bool" where
  "race_inv sl valid s \<longleftrightarrow> (\<exists>es. list_inv sl valid s es \<and> settled s es) \<and> strong_inv s"

lemma race_invI: "list_inv sl valid s es \<Longrightarrow> settled s es \<Longrightarrow> strong_inv s \<Longrightarrow> race_inv sl valid s"
  by (auto simp: race_inv_def)

lemma counted_zero: "counted ph es = 0 \<longleftrightarrow> (\<forall>e \<in> set es. ph (snd e) = Uncounted)"
  by (auto simp: counted_def filter_empty_conv)

text \<open>The hooks behind one whose handle is held, while the count says there is no other.\<close>

lemma none_behind:
  assumes inv: "list_inv sl valid s (us @ (k, h) # vs)" and h: "r_phase s h = Made" "h \<notin> snd ` set us"
    and extra: "r_extra s \<le> 0"
  shows "\<forall>e \<in> set vs. r_phase s (snd e) = Uncounted"
proof (cases "r_writer s")
  case None
  then have "counted (r_phase s) vs = 0" using list_invD(5) [OF inv] h(1) extra by simp
  then show ?thesis by (simp add: counted_zero)
next
  case (Some g)
  have g: "r_phase s g = Making" "g = snd (hd (us @ (k, h) # vs))"
    using list_invD(6) [OF inv, of g] list_invD(7) [OF inv, of g] Some by auto
  then obtain j us' where "us = (j, g) # us'" using h(1) by (cases us) auto
  then have "counted (r_phase s) us \<ge> 1" using g(1) by simp
  then have "counted (r_phase s) vs = 0" using list_invD(5) [OF inv] h(1) extra Some by simp
  then show ?thesis by (simp add: counted_zero)
qed

lemma race_inv_stack:
  assumes "race_inv sl valid s" and t: "r_stack s t = fs"
    and "\<And>f h. f \<in> set fs' \<Longrightarrow> held_by f = Some h \<Longrightarrow> r_phase s h = Made"
    and "\<And>h. Running h \<in> set fs' \<Longrightarrow> r_phase s h \<noteq> Unmade \<and> r_phase s h \<noteq> Making"
    and loaded: "\<And>h. Loaded h False \<in> set fs' \<Longrightarrow> Loaded h False \<in> set fs \<or> r_extra s \<le> 0 \<and> r_phase s h = Made"
  shows "race_inv sl valid (set_stack t fs' s)"
proof -
  obtain es where es: "list_inv sl valid s es" "settled s es" and si: "strong_inv s"
    using assms(1) by (auto simp: race_inv_def)
  have "r_phase s (snd e) = Uncounted"
    if new: "Loaded h False \<in> set (r_stack (set_stack t fs' s) t')" "e \<in> set (behind h es)" for t' h e
  proof (cases "\<exists>t'. Loaded h False \<in> set (r_stack s t')")
    case True
    then show ?thesis using settledD [OF es(2)] new(2) by blast
  next
    case False
    then have h: "r_extra s \<le> 0" "r_phase s h = Made"
      using new(1) loaded [of h] t by (auto split: if_splits)
    then obtain us vs where s: "es = us @ (r_key s h, h) # vs" "h \<notin> snd ` set us"
      using list_inv_split [OF es(1), of h] unfolding on_list_def by blast
    show ?thesis
      using none_behind [OF es(1) [unfolded s(1)] h(2) s(2) h(1)] new(2) unfolding s(1) behind_split [OF s(2)] by blast
  qed
  then have "settled (set_stack t fs' s) es" unfolding settled_def set_stack_sel(5) by blast
  then show ?thesis using es(1) strong_inv_stack [OF si t] assms(3,4) by (auto intro!: race_invI)
qed

lemma race_inv_start: "slab_laws sl valid \<Longrightarrow> race_inv sl valid (race_start sl)"
  using ls_new_holds [of sl valid]
  by (auto simp: race_inv_def list_inv_def settled_def strong_inv_def race_start_def on_list_def intro!: exI [of _ "[]"])

lemma strong_made: "strong_inv s \<Longrightarrow> strong s h \<Longrightarrow> r_phase s h \<noteq> Making \<Longrightarrow> r_phase s h = Made"
  unfolding strong_def strong_inv_def by blast

lemma strong_inv_phase:
  assumes inv: "strong_inv s" and s': "r_stack s' = r_stack s" "r_phase s' = (r_phase s)(h := p)"
    and handle: "\<And>g. r_handle s' g \<Longrightarrow> r_handle s g \<or> g = h"
    and h: "r_handle s' h \<Longrightarrow> p = Making \<or> p = Made"
    and held: "strong s h \<Longrightarrow> r_phase s h = Made \<Longrightarrow> p = Made"
    and running: "r_phase s h \<noteq> Unmade \<Longrightarrow> r_phase s h \<noteq> Making \<Longrightarrow> p \<noteq> Unmade \<and> p \<noteq> Making"
  shows "strong_inv s'"
  unfolding strong_inv_def
proof (intro conjI allI impI)
  fix g assume g: "r_handle s' g"
  show "r_phase s' g = Making \<or> r_phase s' g = Made"
    using h g handle [OF g] strong_invD(1) [OF inv, of g] by (cases "g = h") (auto simp: s')
next
  fix t g assume "Some g \<in> held_by ` set (r_stack s' t)"
  then have g: "Some g \<in> held_by ` set (r_stack s t)" by (simp add: s'(1))
  then have "strong s g" "r_phase s g = Made" using inv by (auto simp: strong_def strong_inv_def)
  then show "r_phase s' g = Made" using held by (cases "g = h") (auto simp: s'(2))
next
  fix t g assume "Running g \<in> set (r_stack s' t)"
  then have "r_phase s g \<noteq> Unmade \<and> r_phase s g \<noteq> Making" using strong_invD(3) [OF inv, of g t] by (simp add: s'(1))
  then show "r_phase s' g \<noteq> Unmade" "r_phase s' g \<noteq> Making" using running by (auto simp: s'(2))
qed

lemma race_inv_step:
  assumes "race_step sl s s'" and inv: "race_inv sl valid s"
  shows "race_inv sl valid s'"
proof -
  obtain es where es: "list_inv sl valid s es" and set: "settled s es" and si: "strong_inv s"
    using inv by (auto simp: race_inv_def)
  have made: "r_phase s g = Made" if "Loaded g False \<in> set (r_stack s t)" for t g
    using strong_invD(2) [OF si that] by simp
  from assms(1) show ?thesis
  proof cases
    case (push h)
    have "strong_inv (race_push sl h s)"
      using push(2) by (intro strong_inv_phase [OF si, of _ h Making]) (auto simp: race_push_def split_beta split: if_splits)
    moreover obtain k where k: "list_inv sl valid (race_push sl h s) ((k, h) # es)"
      using push_list_inv [OF es push(2,3)] by blast
    moreover have "settled (race_push sl h s) ((k, h) # es)"
    proof (rule settled_phase [OF set])
      fix t g assume "Loaded g False \<in> set (r_stack s t)"
      then have "g \<noteq> h" using made [of g t] push(2) by auto
      then show "set (behind g ((k, h) # es)) \<subseteq> set (behind g es)" by simp
    qed (use push(2) in \<open>auto simp: race_push_def split_beta\<close>)
    ultimately show ?thesis using push(1) by (simp add: race_invI)
  next
    case (count h)
    have "strong_inv (race_count h s)"
      by (intro strong_inv_phase [OF si, of _ h Made]) (auto simp: race_count_def)
    moreover have "settled (race_count h s) es"
      using list_invD(6) [OF es, of h] count(2) by (intro settled_phase [OF set]) (auto simp: race_count_def)
    ultimately show ?thesis using count_list_inv [OF es count(2)] count(1) by (simp add: race_invI)
  next
    case (release h)
    have "strong_inv s'"
      using si by (auto simp: release(1) strong_inv_def)
    moreover have "list_inv sl valid s' es" using es by (simp add: release(1) list_inv_def)
    moreover have "settled s' es" using set by (simp add: release(1) settled_def)
    ultimately show ?thesis by (auto simp: race_inv_def)
  next
    case (uncount h)
    have "strong_inv (race_uncount h s)"
      using uncount by (intro strong_inv_phase [OF si, of _ h Uncounted]) (auto simp: race_uncount_def strong_def)
    moreover have "settled (race_uncount h s) es"
      by (intro settled_phase [OF set]) (auto simp: race_uncount_def)
    ultimately show ?thesis using uncount_list_inv [OF es uncount(2)] uncount(1) by (simp add: race_invI)
  next
    case (remove h)
    have "\<not> r_handle s h" using strong_invD(1) [OF si, of h] remove(2) by auto
    then have "strong_inv (race_remove sl h s)"
      using remove by (intro strong_inv_phase [OF si, of _ h Removed]) (auto simp: race_remove_def)
    moreover have "settled (race_remove sl h s) (filter (\<lambda>e. snd e \<noteq> h) es)"
    proof (rule settled_phase [OF set])
      fix t g assume "Loaded g False \<in> set (r_stack s t)"
      then have "g \<noteq> h" using made [of g t] remove(2) by auto
      then show "set (behind g (filter (\<lambda>e. snd e \<noteq> h) es)) \<subseteq> set (behind g es)" by (auto simp: behind_filter)
    qed (auto simp: race_remove_def)
    ultimately show ?thesis using remove_list_inv [OF es remove(2,3)] remove(1) by (simp add: race_invI)
  next
    case (enter t fs)
    then show ?thesis
      using strong_invD_all [OF si enter(2)] dispatch_running [OF es enter(3)]
      by (auto intro!: race_inv_stack [OF inv enter(2)])
  next
    case (use_handle t fs h)
    then show ?thesis using strong_invD_all [OF si use_handle(2)] by (auto intro!: race_inv_stack [OF inv use_handle(2)])
  next
    case (upgrade t h fs)
    have "r_phase s h = Made"
      using strong_made [OF si upgrade(3)] strong_invD_all [OF si upgrade(2)] by auto
    then show ?thesis
      using strong_invD_all [OF si upgrade(2)] upgrade(1) by (auto intro!: race_inv_stack [OF inv upgrade(2)])
  next
    case (upgrade_fails t h fs)
    then show ?thesis
      using strong_invD_all [OF si upgrade_fails(2)] by (auto intro!: race_inv_stack [OF inv upgrade_fails(2)])
  next
    case (load t h fs)
    then show ?thesis using strong_invD_all [OF si load(2)] by (auto intro!: race_inv_stack [OF inv load(2)])
  next
    case (call_fast t h fs)
    then show ?thesis using strong_invD_all [OF si call_fast(2)] by (auto intro!: race_inv_stack [OF inv call_fast(2)])
  next
    case (call_slow t h fs)
    then show ?thesis
      using strong_invD_all [OF si call_slow(2)] next_running [OF es call_slow(3)]
      by (auto intro!: race_inv_stack [OF inv call_slow(2)])
  next
    case (return_original t fs)
    then show ?thesis
      using strong_invD_all [OF si return_original(2)] by (auto intro!: race_inv_stack [OF inv return_original(2)])
  next
    case (return_hook t h fs)
    then show ?thesis using strong_invD_all [OF si return_hook(2)] by (auto intro!: race_inv_stack [OF inv return_hook(2)])
  next
    case (return_call t h fs)
    then show ?thesis using strong_invD_all [OF si return_call(2)] by (auto intro!: race_inv_stack [OF inv return_call(2)])
  qed
qed

lemma race_reachable_inv: "race_reachable sl s \<Longrightarrow> slab_laws sl valid \<Longrightarrow> race_inv sl valid s"
  by (induction rule: race_reachable.induct) (auto intro: race_inv_start race_inv_step)

section \<open>Properties\<close>

text \<open>
  C18. In every interleaving, from the upgrade of a hook's handle to the return of its call of the original,
  the hook stays on the list. When the thread, having read the count, goes on, the slow path goes to the
  newest of the hooks older than its own at that moment, or the original if there is none; and when it goes
  directly to the original, on a count read earlier, every older hook still on the list is being removed,
  its handle dropped.
\<close>

theorem call_original_goes_on:
  assumes "slab_laws sl valid" and "race_reachable sl s" and "f \<in> set (r_stack s t)"
    and "f = Holding h \<or> f = Loaded h extra \<or> f = Calling h"
  shows "\<exists>us vs. ls_holds sl valid (r_list s) (us @ (r_key s h, h) # vs)
    \<and> (\<forall>s' b fs g. r_stack s t = Loaded h b # fs \<longrightarrow> race_step sl s s' \<longrightarrow> r_stack s' t = g # Calling h # fs \<longrightarrow>
        (if b then g = (if vs = [] then In_original else Running (snd (hd vs)))
         else g = In_original \<and> (\<forall>e \<in> set vs. r_phase s (snd e) = Uncounted \<and> \<not> strong s (snd e))))"
proof -
  obtain es where es: "list_inv sl valid s es" "settled s es" and si: "strong_inv s"
    using race_reachable_inv [OF assms(2,1)] by (auto simp: race_inv_def)
  have "r_phase s h = Made" using strong_invD(2) [OF si assms(3)] assms(4) by auto
  then obtain us vs where s: "es = us @ (r_key s h, h) # vs" "h \<notin> snd ` set us"
    using list_inv_split [OF es(1), of h] unfolding on_list_def by blast
  note holds = list_invD(1) [OF es(1), unfolded s(1)]
  have slow: "race_next sl h s = (if vs = [] then In_original else Running (snd (hd vs)))"
    using ls.get_next_holds [OF holds, of "r_key s h"] next_of_split [OF keyed_before [OF ls.keys_distinct [OF holds]]]
    by (simp add: race_next_def)
  have "if b then g = (if vs = [] then In_original else Running (snd (hd vs)))
      else g = In_original \<and> (\<forall>e \<in> set vs. r_phase s (snd e) = Uncounted \<and> \<not> strong s (snd e))"
    if stack: "r_stack s t = Loaded h b # fs" and step: "race_step sl s s'" and gone: "r_stack s' t = g # Calling h # fs"
    for s' b fs g
  proof -
    have g: "g = (if b then race_next sl h s else In_original)"
      by (rule race_step.cases [OF step]) (use stack gone in \<open>auto simp: race_push_def race_count_def
        race_uncount_def race_remove_def split_beta split: if_splits\<close>)
    have "r_phase s (snd e) = Uncounted \<and> \<not> strong s (snd e)" if "\<not> b" "e \<in> set vs" for e
      using settledD [OF es(2), of h t e] stack that strong_made [OF si, of "snd e"]
      unfolding s(1) behind_split [OF s(2)] by auto
    with g slow show ?thesis by simp
  qed
  with holds show ?thesis by blast
qed

text \<open>Two hooks, and a thread that has upgraded the handle of the newer one.\<close>

definition example_race :: "(nat \<times> nat node) list race" where
  "example_race = set_stack 0 [Running 1] (race_count 1 (race_push list_slab 1 (race_count 0 (race_push list_slab 0 (race_start list_slab)))))"

lemmas race_eval = race_push_def race_count_def race_uncount_def race_remove_def race_start_def race_dispatch_def
  set_stack_def ls_push_front_def ls_new_def ls_first_def ls_get_def update_node_def fresh_key_def Let_def usize_max_def without_key_def

lemma push_count_reachable:
  assumes "race_reachable sl s" and "r_phase s h = Unmade" and "r_writer s = None"
  shows "race_reachable sl (race_count h (race_push sl h s))"
  by (rule race_reachable.step [OF race_reachable.step [OF assms(1) race_step.push [where sl = sl, OF assms(2,3)]] race_step.count [where sl = sl]])
    (simp add: race_push_def split_beta)

lemma example_race_reachable: "race_reachable list_slab example_race"
proof -
  let ?s = "race_count 1 (race_push list_slab 1 (race_count 0 (race_push list_slab 0 (race_start list_slab))))"
  have "race_reachable list_slab ?s"
    by (intro push_count_reachable race_reachable.start) (simp_all add: race_eval)
  moreover have "race_dispatch list_slab ?s = Running 1" "r_stack ?s 0 = []" "r_writer ?s = None"
    by (simp_all add: race_eval)
  ultimately show ?thesis
    using race_step.enter [of ?s 0 "[]" list_slab] by (auto simp: example_race_def intro: race_reachable.step)
qed

theorem call_original_goes_on_witness:
  "\<exists>s s'. race_reachable list_slab s \<and> r_stack s 0 = [Loaded 1 True, Running 1] \<and> race_step list_slab s s'
    \<and> r_stack s' 0 = [race_next list_slab 1 s, Calling 1, Running 1]
    \<and> (\<exists>us vs. ls_holds list_slab list_slab_valid (r_list s) (us @ (r_key s 1, 1) # vs)
      \<and> race_next list_slab 1 s = (if vs = [] then In_original else Running (snd (hd vs))))"
proof -
  let ?s1 = "set_stack 0 [Holding 1, Running 1] example_race"
  let ?s2 = "set_stack 0 [Loaded 1 True, Running 1] ?s1"
  let ?s3 = "set_stack 0 [race_next list_slab 1 ?s2, Calling 1, Running 1] ?s2"
  have "race_step list_slab example_race ?s1"
    by (rule race_step.upgrade) (simp_all add: example_race_def strong_def race_eval)
  moreover have "race_step list_slab ?s1 ?s2"
    using race_step.load [of ?s1 0 1 "[Running 1]" list_slab] by (simp add: example_race_def race_eval)
  ultimately have reach: "race_reachable list_slab ?s2"
    using example_race_reachable race_reachable.step by blast
  have step: "race_step list_slab ?s2 ?s3"
    by (rule race_step.call_slow) (simp_all add: example_race_def race_eval)
  from call_original_goes_on [OF list_slab_laws reach, of "Loaded 1 True" 0 1 True] obtain us vs
    where holds: "ls_holds list_slab list_slab_valid (r_list ?s2) (us @ (r_key ?s2 1, 1) # vs)"
      and goes: "\<And>s' b fs g. r_stack ?s2 0 = Loaded 1 b # fs \<Longrightarrow> race_step list_slab ?s2 s' \<Longrightarrow> r_stack s' 0 = g # Calling 1 # fs \<Longrightarrow>
        (if b then g = (if vs = [] then In_original else Running (snd (hd vs)))
         else g = In_original \<and> (\<forall>e \<in> set vs. r_phase ?s2 (snd e) = Uncounted \<and> \<not> strong ?s2 (snd e)))"
    by auto
  have "race_next list_slab 1 ?s2 = (if vs = [] then In_original else Running (snd (hd vs)))"
    using goes [of True "[Running 1]", OF _ step] by simp
  with holds reach step show ?thesis
    by (intro exI [of _ ?s2] exI [of _ ?s3] conjI exI [of _ us] exI [of _ vs]) simp_all
qed

text \<open>
  A handle dropped while another thread is in the hook's closure, which it entered when the handle
  was alive: the closure cannot upgrade its handle any more, so its call of the original panics, in
  the library's own code for a \<open>hook_once\<close> that has run before.
\<close>

theorem drop_panics_running_hook:
  "\<exists>s s'. race_reachable list_slab s \<and> r_stack s 0 = [Running 1] \<and> strong s 1
    \<and> rtranclp (race_step list_slab) s s' \<and> r_stack s' 0 = [Panicked 1, Running 1]"
proof -
  let ?s1 = "example_race\<lparr>r_handle := (r_handle example_race)(1 := False)\<rparr>"
  let ?s2 = "set_stack 0 [Panicked 1, Running 1] ?s1"
  have stack: "r_stack example_race 0 = [Running 1]" and live: "strong example_race 1"
    by (simp_all add: example_race_def strong_def race_eval)
  have "race_step list_slab example_race ?s1"
    by (rule race_step.release) (simp add: example_race_def race_eval)
  moreover have "race_step list_slab ?s1 ?s2"
  proof (rule race_step.upgrade_fails)
    show "r_stack ?s1 0 = [Running 1]" using stack by simp
    show "\<not> strong ?s1 1" by (auto simp: strong_def example_race_def race_eval split: if_splits)
  qed
  ultimately have "rtranclp (race_step list_slab) example_race ?s2" by auto
  moreover have "r_stack ?s2 0 = [Panicked 1, Running 1]" by simp
  ultimately show ?thesis using example_race_reachable stack live by blast
qed

end
