(* ===== verification/Thunk_Race.thy ===== *)
theory Thunk_Race
  imports Prelude
begin

text \<open>
  Hooks put on one function by several threads at once, while others call it
  (\<open>AtomicFnPtr::update\<close> in \<open>abi/src/fn_ptr.rs\<close>, used by \<open>Installer::update_thunk\<close> in \<open>installer.rs\<close>):
  the thunk's pointer is replaced by a loop of compare-and-exchange, and what was there before becomes
  the hook's original. Dispatchers (\<open>hook/temp.rs\<close>) and custom hooks (\<open>hook/custom.rs\<close>) store the original
  before the exchange, in every turn of the loop; static hooks (\<open>hook/leak.rs\<close>) after it, in a
  \<open>OnceLock\<close> a call waits for. All steps are on single atomics; the orderings make what was stored
  before the exchange visible to who reads the pointer.
\<close>

section \<open>The state\<close>

datatype maker = Before_swap | After_swap

text \<open>
  Where a thread is: in \<open>update\<close> for the new hook \<open>p\<close>, having loaded or been told \<open>prev\<close>; after it; or in a
  call of the function, at \<open>p\<close>, having run the hooks of the trail. A call remembers the hooks there were
  when it read the thunk.
\<close>

datatype thunk_pc =
    Idle
  | Loading maker nat
  | Setting maker nat nat
  | Swapping maker nat nat
  | Swapped maker nat nat
  | Hooked nat
  | Calling nat "nat list" "nat list"
  | Answered "nat list" "nat list"
  | Uninitialized

text \<open>\<open>tr_published\<close> are the hooks put on the function, the newest first.\<close>

record thunk_race =
  tr_ptr :: nat
  tr_next :: "nat \<Rightarrow> nat option"
  tr_kind :: "nat \<Rightarrow> maker option"
  tr_published :: "nat list"
  tr_pc :: "nat \<Rightarrow> thunk_pc"

definition thunk_goto :: "nat \<Rightarrow> thunk_pc \<Rightarrow> thunk_race \<Rightarrow> thunk_race" where
  "thunk_goto t c s = s\<lparr>tr_pc := (tr_pc s)(t := c)\<rparr>"

section \<open>The steps\<close>

definition fp_begin :: "nat \<Rightarrow> maker \<Rightarrow> nat \<Rightarrow> thunk_race \<Rightarrow> thunk_race" where
  "fp_begin t k p s = thunk_goto t (Loading k p) (s\<lparr>tr_kind := (tr_kind s)(p \<mapsto> k)\<rparr>)"

definition fp_load :: "nat \<Rightarrow> maker \<Rightarrow> nat \<Rightarrow> thunk_race \<Rightarrow> thunk_race" where
  "fp_load t k p s = thunk_goto t (Setting k p (tr_ptr s)) s"

text \<open>The closure given to \<open>update\<close>: it may store the original, and answers the new hook.\<close>

definition fp_set :: "nat \<Rightarrow> maker \<Rightarrow> nat \<Rightarrow> nat \<Rightarrow> thunk_race \<Rightarrow> thunk_race" where
  "fp_set t k p prev s = thunk_goto t (Swapping k p prev)
     (case k of Before_swap \<Rightarrow> s\<lparr>tr_next := (tr_next s)(p \<mapsto> prev)\<rparr> | After_swap \<Rightarrow> s)"

text \<open>\<open>compare_exchange_weak\<close>, which may fail for no reason (\<open>spurious\<close>) and answers the current value then.\<close>

definition fp_swap :: "nat \<Rightarrow> maker \<Rightarrow> nat \<Rightarrow> nat \<Rightarrow> bool \<Rightarrow> thunk_race \<Rightarrow> thunk_race" where
  "fp_swap t k p prev spurious s =
     (if tr_ptr s = prev \<and> \<not> spurious
      then thunk_goto t (Swapped k p prev) (s\<lparr>tr_ptr := p, tr_published := p # tr_published s\<rparr>)
      else thunk_goto t (Setting k p (tr_ptr s)) s)"

text \<open>\<open>get_or_init\<close> of a static hook's \<open>inner\<close>.\<close>

definition fp_finish :: "nat \<Rightarrow> maker \<Rightarrow> nat \<Rightarrow> nat \<Rightarrow> thunk_race \<Rightarrow> thunk_race" where
  "fp_finish t k p prev s = thunk_goto t (Hooked p)
     (case k of Before_swap \<Rightarrow> s | After_swap \<Rightarrow> s\<lparr>tr_next := (tr_next s)(p \<mapsto> prev)\<rparr>)"

definition fp_enter :: "nat \<Rightarrow> thunk_race \<Rightarrow> thunk_race" where
  "fp_enter t s = thunk_goto t (Calling (tr_ptr s) [] (tr_published s)) s"

text \<open>A hook calls its original; \<open>None\<close> while it waits for it.\<close>

definition fp_call :: "nat \<Rightarrow> nat \<Rightarrow> nat \<Rightarrow> nat list \<Rightarrow> nat list \<Rightarrow> thunk_race \<Rightarrow> thunk_race option" where
  "fp_call original t p trail seen s =
     (if p = original then Some (thunk_goto t (Answered trail seen) s)
      else case tr_next s p of
          Some q \<Rightarrow> Some (thunk_goto t (Calling q (trail @ [p]) seen) s)
        | None \<Rightarrow> if tr_kind s p = Some After_swap then None else Some (thunk_goto t Uninitialized s))"

inductive thunk_step :: "nat \<Rightarrow> thunk_race \<Rightarrow> thunk_race \<Rightarrow> bool" for original where
  begin_hook: "tr_pc s t = Idle \<Longrightarrow> tr_kind s p = None \<Longrightarrow> p \<noteq> original \<Longrightarrow> thunk_step original s (fp_begin t k p s)"
| load: "tr_pc s t = Loading k p \<Longrightarrow> thunk_step original s (fp_load t k p s)"
| set: "tr_pc s t = Setting k p prev \<Longrightarrow> thunk_step original s (fp_set t k p prev s)"
| swap: "tr_pc s t = Swapping k p prev \<Longrightarrow> thunk_step original s (fp_swap t k p prev spurious s)"
| finish: "tr_pc s t = Swapped k p prev \<Longrightarrow> thunk_step original s (fp_finish t k p prev s)"
| enter: "tr_pc s t = Idle \<Longrightarrow> thunk_step original s (fp_enter t s)"
| call: "tr_pc s t = Calling p trail seen \<Longrightarrow> fp_call original t p trail seen s = Some s' \<Longrightarrow> thunk_step original s s'"

definition thunk_start :: "nat \<Rightarrow> thunk_race" where
  "thunk_start original = \<lparr>tr_ptr = original, tr_next = (\<lambda>_. None), tr_kind = (\<lambda>_. None), tr_published = [], tr_pc = (\<lambda>_. Idle)\<rparr>"

section \<open>The invariant\<close>

text \<open>The hook a thread is making, until it is on the function, and until the thread is done with it.\<close>

fun trying :: "thunk_pc \<Rightarrow> nat option" where
  "trying (Loading k p) = Some p"
| "trying (Setting k p prev) = Some p"
| "trying (Swapping k p prev) = Some p"
| "trying _ = None"

fun making :: "thunk_pc \<Rightarrow> nat option" where
  "making (Swapped k p prev) = Some p"
| "making c = trying c"

text \<open>What comes after a hook on the function: in its memory, or still with the thread that made it.\<close>

definition goes_on :: "thunk_race \<Rightarrow> nat \<Rightarrow> nat \<Rightarrow> bool" where
  "goes_on s p q \<longleftrightarrow> tr_next s p = Some q
     \<or> (tr_next s p = None \<and> tr_kind s p = Some After_swap \<and> (\<exists>t. tr_pc s t = Swapped After_swap p q))"

fun chain_from :: "nat \<Rightarrow> thunk_race \<Rightarrow> nat \<Rightarrow> nat list \<Rightarrow> bool" where
  "chain_from original s p [] \<longleftrightarrow> p = original"
| "chain_from original s p (h # hs) \<longleftrightarrow> p = h \<and> (\<exists>q. goes_on s h q \<and> chain_from original s q hs)"

definition thread_ok :: "nat \<Rightarrow> thunk_race \<Rightarrow> thunk_pc \<Rightarrow> bool" where
  "thread_ok original s c \<longleftrightarrow>
     (case c of
        Loading k p \<Rightarrow> tr_kind s p = Some k \<and> p \<noteq> original \<and> p \<notin> set (tr_published s) \<and> (k = After_swap \<longrightarrow> tr_next s p = None)
      | Setting k p prev \<Rightarrow> tr_kind s p = Some k \<and> p \<noteq> original \<and> p \<notin> set (tr_published s) \<and> (k = After_swap \<longrightarrow> tr_next s p = None)
      | Swapping k p prev \<Rightarrow> tr_kind s p = Some k \<and> p \<noteq> original \<and> p \<notin> set (tr_published s)
          \<and> tr_next s p = (case k of Before_swap \<Rightarrow> Some prev | After_swap \<Rightarrow> None)
      | Swapped k p prev \<Rightarrow> tr_kind s p = Some k \<and> p \<in> set (tr_published s) \<and> goes_on s p prev
      | Hooked p \<Rightarrow> p \<in> set (tr_published s)
      | Calling p trail seen \<Rightarrow> (\<exists>rest. seen = trail @ rest \<and> chain_from original s p rest) \<and> set seen \<subseteq> set (tr_published s)
      | Answered trail seen \<Rightarrow> trail = seen
      | Uninitialized \<Rightarrow> False
      | Idle \<Rightarrow> True)"

definition thunk_inv :: "nat \<Rightarrow> thunk_race \<Rightarrow> bool" where
  "thunk_inv original s \<longleftrightarrow> chain_from original s (tr_ptr s) (tr_published s) \<and> original \<notin> set (tr_published s)
     \<and> (\<forall>p \<in> set (tr_published s). tr_kind s p \<noteq> None)
     \<and> (\<forall>p. tr_kind s p = None \<longrightarrow> tr_next s p = None)
     \<and> (\<forall>t u p. making (tr_pc s t) = Some p \<and> making (tr_pc s u) = Some p \<longrightarrow> t = u)
     \<and> (\<forall>t. thread_ok original s (tr_pc s t))"

lemma goes_on_same:
  assumes "goes_on s q r" and "tr_next s' q = tr_next s q" and "tr_kind s q = Some After_swap \<Longrightarrow> tr_kind s' q = Some After_swap"
    and "\<And>u. tr_pc s u = Swapped After_swap q r \<Longrightarrow> tr_pc s' u = Swapped After_swap q r"
  shows "goes_on s' q r"
  using assms unfolding goes_on_def by metis

lemma chain_from_cong:
  assumes "\<And>h q. h \<in> set hs \<Longrightarrow> goes_on s h q \<Longrightarrow> goes_on s' h q" and "chain_from original s p hs"
  shows "chain_from original s' p hs"
  using assms
proof (induction hs arbitrary: p)
  case (Cons h hs)
  then obtain q where "p = h" "goes_on s h q" "chain_from original s q hs" by auto
  with Cons show ?case by auto
qed simp

text \<open>A step that keeps what comes after each hook on the function keeps the other threads right.\<close>

lemma thread_ok_frame:
  assumes ok: "thread_ok original s c" and pub: "set (tr_published s) \<subseteq> set (tr_published s')"
    and kind: "\<And>p. tr_kind s p \<noteq> None \<Longrightarrow> tr_kind s' p = tr_kind s p"
    and on: "\<And>p q. p \<in> set (tr_published s) \<Longrightarrow> goes_on s p q \<Longrightarrow> goes_on s' p q"
    and own: "\<And>p. trying c = Some p \<Longrightarrow> tr_next s' p = tr_next s p \<and> p \<notin> set (tr_published s')"
  shows "thread_ok original s' c"
proof -
  have chain: "chain_from original s p rest \<Longrightarrow> set rest \<subseteq> set (tr_published s) \<Longrightarrow> chain_from original s' p rest" for p rest
    by (rule chain_from_cong [of rest s]) (use on in auto)
  show ?thesis
  proof (cases c)
    case (Calling p trail seen)
    then obtain rest where "seen = trail @ rest" "chain_from original s p rest" "set seen \<subseteq> set (tr_published s)"
      using ok by (auto simp: thread_ok_def)
    then show ?thesis using chain [of p rest] pub Calling by (auto simp: thread_ok_def)
  next
    case (Swapped k p prev)
    then show ?thesis using ok pub kind [of p] on [of p prev] by (auto simp: thread_ok_def)
  next
    case (Hooked p)
    then show ?thesis using ok pub by (auto simp: thread_ok_def)
  next
    case (Loading k p)
    then show ?thesis using ok kind [of p] own by (auto simp: thread_ok_def)
  next
    case (Setting k p prev)
    then show ?thesis using ok kind [of p] own by (auto simp: thread_ok_def)
  next
    case (Swapping k p prev)
    then show ?thesis using ok kind [of p] own by (auto simp: thread_ok_def)
  qed (use ok in \<open>simp_all add: thread_ok_def\<close>)
qed

lemma thunk_invD:
  assumes "thunk_inv original s"
  shows "chain_from original s (tr_ptr s) (tr_published s)" and "original \<notin> set (tr_published s)"
    and "p \<in> set (tr_published s) \<Longrightarrow> tr_kind s p \<noteq> None" and "tr_kind s p = None \<Longrightarrow> tr_next s p = None"
    and "making (tr_pc s t) = Some p \<Longrightarrow> making (tr_pc s u) = Some p \<Longrightarrow> t = u"
    and "thread_ok original s (tr_pc s t)"
  using assms unfolding thunk_inv_def by blast+

lemma thunk_inv_goto:
  assumes inv: "thunk_inv original s" and pc: "tr_pc s' = (tr_pc s)(t := c)"
    and pub: "chain_from original s' (tr_ptr s') (tr_published s')" "original \<notin> set (tr_published s')"
      "set (tr_published s) \<subseteq> set (tr_published s')"
    and kinds: "\<And>p. p \<in> set (tr_published s') \<Longrightarrow> tr_kind s' p \<noteq> None" "\<And>p. tr_kind s' p = None \<Longrightarrow> tr_next s' p = None"
    and kind: "\<And>p. tr_kind s p \<noteq> None \<Longrightarrow> tr_kind s' p = tr_kind s p"
    and on: "\<And>p q. p \<in> set (tr_published s) \<Longrightarrow> goes_on s p q \<Longrightarrow> goes_on s' p q"
    and own: "\<And>u p. u \<noteq> t \<Longrightarrow> trying (tr_pc s u) = Some p \<Longrightarrow> tr_next s' p = tr_next s p \<and> p \<notin> set (tr_published s')"
    and uniq: "\<And>u p. u \<noteq> t \<Longrightarrow> making (tr_pc s u) = Some p \<Longrightarrow> making c \<noteq> Some p"
    and ok: "thread_ok original s' c"
  shows "thunk_inv original s'"
proof -
  have "thread_ok original s' (tr_pc s' u)" for u
  proof (cases "u = t")
    case False
    have "thread_ok original s' (tr_pc s u)"
      by (rule thread_ok_frame [OF thunk_invD(6) [OF inv] pub(3) kind on own [OF False]])
    with False pc show ?thesis by simp
  qed (use ok pc in simp)
  moreover have "u = v" if "making (tr_pc s' u) = Some p" "making (tr_pc s' v) = Some p" for u v p
    using that uniq [of u p] uniq [of v p] thunk_invD(5) [OF inv, of u p v] pc by (cases "u = t"; cases "v = t") simp_all
  ultimately show ?thesis using pub(1,2) kinds unfolding thunk_inv_def by blast
qed

lemma trying_making: "trying c = Some p \<Longrightarrow> making c = Some p"
  by (cases c) simp_all

lemma thread_trying: "thread_ok original s c \<Longrightarrow> trying c = Some p \<Longrightarrow> p \<notin> set (tr_published s) \<and> tr_kind s p \<noteq> None"
  by (cases c) (auto simp: thread_ok_def)

lemma thread_making: "thread_ok original s c \<Longrightarrow> making c = Some p \<Longrightarrow> tr_kind s p \<noteq> None"
  by (cases c) (auto simp: thread_ok_def)

text \<open>A step that changes nothing but the thread.\<close>

lemma thunk_inv_move:
  assumes inv: "thunk_inv original s" and ok: "thread_ok original s c"
    and sw: "\<And>p q. tr_pc s t \<noteq> Swapped After_swap p q" and p: "making c = None \<or> (\<exists>p. making c = Some p \<and> making (tr_pc s t) = Some p)"
  shows "thunk_inv original (thunk_goto t c s)"
proof -
  have on: "goes_on s p q \<Longrightarrow> goes_on (thunk_goto t c s) p q" for p q
    using sw by (fastforce simp: goes_on_def thunk_goto_def)
  have "thread_ok original (thunk_goto t c s) c"
    by (rule thread_ok_frame [OF ok]) (use on in \<open>auto simp: thunk_goto_def dest: thread_trying [OF ok]\<close>)
  moreover have "chain_from original (thunk_goto t c s) (tr_ptr s) (tr_published s)"
    by (rule chain_from_cong [OF _ thunk_invD(1) [OF inv]]) (rule on)
  ultimately show ?thesis
    using thunk_invD(2,3,4) [OF inv] on thread_trying [OF thunk_invD(6) [OF inv]] p thunk_invD(5) [OF inv]
    by (intro thunk_inv_goto [OF inv, of _ t c]) (auto simp: thunk_goto_def)
qed

lemma begin_inv:
  assumes inv: "thunk_inv original s" and t: "tr_pc s t = Idle" and p: "tr_kind s p = None" "p \<noteq> original"
  shows "thunk_inv original (fp_begin t k p s)"
proof -
  let ?s = "fp_begin t k p s"
  have sel: "tr_ptr ?s = tr_ptr s" "tr_published ?s = tr_published s" "tr_next ?s = tr_next s" "tr_kind ?s = (tr_kind s)(p \<mapsto> k)"
    "tr_pc ?s = (tr_pc s)(t := Loading k p)" by (simp_all add: fp_begin_def thunk_goto_def)
  have new: "p \<notin> set (tr_published s)" using thunk_invD(3) [OF inv, of p] p(1) by auto
  have on: "goes_on s q r \<Longrightarrow> goes_on ?s q r" for q r
    by (erule goes_on_same) (use t p(1) in \<open>auto simp: sel\<close>)
  have "chain_from original ?s (tr_ptr s) (tr_published s)"
    by (rule chain_from_cong [OF _ thunk_invD(1) [OF inv]]) (rule on)
  moreover have "thread_ok original ?s (Loading k p)" using new p(2) thunk_invD(4) [OF inv p(1)] unfolding thread_ok_def thunk_pc.case sel by simp
  moreover have "making (Loading k p) \<noteq> Some q" if "making (tr_pc s u) = Some q" for u q
    using thread_making [OF thunk_invD(6) [OF inv] that] p(1) by auto
  ultimately show ?thesis
    using thunk_invD(2,3,4) [OF inv] new p on thread_trying [OF thunk_invD(6) [OF inv]]
    by (intro thunk_inv_goto [OF inv sel(5)]) (auto simp: sel split: if_splits)
qed

lemma set_inv:
  assumes inv: "thunk_inv original s" and t: "tr_pc s t = Setting k p prev"
  shows "thunk_inv original (fp_set t k p prev s)"
proof -
  let ?s = "fp_set t k p prev s"
  have sel: "tr_ptr ?s = tr_ptr s" "tr_published ?s = tr_published s" "tr_kind ?s = tr_kind s"
    "tr_next ?s = (case k of Before_swap \<Rightarrow> (tr_next s)(p \<mapsto> prev) | After_swap \<Rightarrow> tr_next s)"
    "tr_pc ?s = (tr_pc s)(t := Swapping k p prev)" by (simp_all add: fp_set_def thunk_goto_def split: maker.split)
  have own: "tr_kind s p = Some k" "p \<noteq> original" "p \<notin> set (tr_published s)" "k = After_swap \<longrightarrow> tr_next s p = None"
    using thunk_invD(6) [OF inv, of t] t by (simp_all add: thread_ok_def)
  have on: "goes_on ?s q r" if "q \<in> set (tr_published s)" "goes_on s q r" for q r
  proof -
    have "q \<noteq> p" using that own by auto
    then show ?thesis by (intro goes_on_same [OF that(2)]) (use t in \<open>auto simp: sel split: maker.split\<close>)
  qed
  have "chain_from original ?s (tr_ptr s) (tr_published s)"
    by (rule chain_from_cong [OF _ thunk_invD(1) [OF inv]]) (rule on)
  moreover have "tr_next ?s q = tr_next s q \<and> q \<notin> set (tr_published ?s)" if "u \<noteq> t" "trying (tr_pc s u) = Some q" for u q
    using that thunk_invD(5) [OF inv, of u q t] trying_making [OF that(2)] t thread_trying [OF thunk_invD(6) [OF inv] that(2)]
    by (auto simp: sel split: maker.split)
  moreover have "making (Swapping k p prev) \<noteq> Some q" if "u \<noteq> t" "making (tr_pc s u) = Some q" for u q
    using that thunk_invD(5) [OF inv, of u q t] t by auto
  moreover have "thread_ok original ?s (Swapping k p prev)" using own by (simp add: thread_ok_def sel split: maker.split)
  moreover have "tr_next ?s q = None" if "tr_kind ?s q = None" for q
    using that thunk_invD(4) [OF inv, of q] own(1) by (auto simp: sel split: maker.split if_splits)
  ultimately show ?thesis
    using thunk_invD(2,3) [OF inv] on by (intro thunk_inv_goto [OF inv sel(5)]) (simp_all add: sel)
qed

lemma swap_inv:
  assumes inv: "thunk_inv original s" and t: "tr_pc s t = Swapping k p prev"
  shows "thunk_inv original (fp_swap t k p prev spurious s)"
proof (cases "tr_ptr s = prev \<and> \<not> spurious")
  case False
  have "thread_ok original s (Setting k p (tr_ptr s))" using thunk_invD(6) [OF inv, of t] t by (simp add: thread_ok_def split: maker.splits)
  then have "thunk_inv original (thunk_goto t (Setting k p (tr_ptr s)) s)" by (rule thunk_inv_move [OF inv]) (use t in simp_all)
  with False show ?thesis unfolding fp_swap_def by (simp only: if_False)
next
  case True
  let ?s = "fp_swap t k p prev spurious s"
  have sel: "tr_ptr ?s = p" "tr_published ?s = p # tr_published s" "tr_kind ?s = tr_kind s" "tr_next ?s = tr_next s"
    "tr_pc ?s = (tr_pc s)(t := Swapped k p prev)" using True by (simp_all add: fp_swap_def thunk_goto_def)
  have own: "tr_kind s p = Some k" "p \<noteq> original" "p \<notin> set (tr_published s)"
      "tr_next s p = (case k of Before_swap \<Rightarrow> Some prev | After_swap \<Rightarrow> None)"
    using thunk_invD(6) [OF inv, of t] t by (simp_all add: thread_ok_def)
  have on: "goes_on s q r \<Longrightarrow> goes_on ?s q r" for q r
    by (erule goes_on_same) (use t in \<open>auto simp: sel\<close>)
  have new: "goes_on ?s p prev" using own(1,4) unfolding goes_on_def sel by (auto split: maker.splits intro: exI [of _ t])
  have "chain_from original ?s (tr_ptr s) (tr_published s)"
    by (rule chain_from_cong [OF _ thunk_invD(1) [OF inv]]) (rule on)
  then have "chain_from original ?s p (p # tr_published s)" using new True by auto
  moreover have "q \<noteq> p" if "u \<noteq> t" "making (tr_pc s u) = Some q" for u q
    using that thunk_invD(5) [OF inv, of u q t] t by auto
  moreover have "thread_ok original ?s (Swapped k p prev)" using own new by (simp add: thread_ok_def sel)
  ultimately show ?thesis
    using thunk_invD(2,3,4) [OF inv] own on thread_trying [OF thunk_invD(6) [OF inv]] trying_making
    by (intro thunk_inv_goto [OF inv sel(5)]) (auto simp: sel)
qed

lemma finish_hook_inv:
  assumes inv: "thunk_inv original s" and t: "tr_pc s t = Swapped k p prev"
  shows "thunk_inv original (fp_finish t k p prev s)"
proof -
  have own: "tr_kind s p = Some k" "p \<in> set (tr_published s)" "goes_on s p prev"
    using thunk_invD(6) [OF inv, of t] t by (simp_all add: thread_ok_def)
  show ?thesis
  proof (cases k)
    case Before_swap
    then show ?thesis
      unfolding fp_finish_def using own t by (simp add: thunk_inv_move [OF inv] thread_ok_def)
  next
    case After_swap
    let ?s = "fp_finish t k p prev s"
    have sel: "tr_ptr ?s = tr_ptr s" "tr_published ?s = tr_published s" "tr_kind ?s = tr_kind s" "tr_next ?s = (tr_next s)(p \<mapsto> prev)"
      "tr_pc ?s = (tr_pc s)(t := Hooked p)" using After_swap by (simp_all add: fp_finish_def thunk_goto_def)
    have on: "goes_on ?s q r" if "goes_on s q r" for q r
    proof (cases "q = p")
      case True
      have only: "u = t" if "tr_pc s u = Swapped After_swap p x" for u x
        using thunk_invD(5) [OF inv, of u p t] t that by simp
      have "r = prev"
      proof (cases "tr_next s p")
        case None
        then obtain u where "tr_pc s u = Swapped After_swap p r" using \<open>goes_on s q r\<close> True by (auto simp: goes_on_def)
        with only [OF this] t show ?thesis by simp
      next
        case (Some x)
        then show ?thesis using \<open>goes_on s q r\<close> own(3) True by (simp add: goes_on_def)
      qed
      with True show ?thesis by (simp add: goes_on_def sel)
    next
      case False
      then show ?thesis by (intro goes_on_same [OF that]) (use t in \<open>auto simp: sel\<close>)
    qed
    have "chain_from original ?s (tr_ptr s) (tr_published s)"
      by (rule chain_from_cong [OF _ thunk_invD(1) [OF inv]]) (rule on)
    moreover have "tr_next ?s q = tr_next s q \<and> q \<notin> set (tr_published ?s)" if "u \<noteq> t" "trying (tr_pc s u) = Some q" for u q
      using thread_trying [OF thunk_invD(6) [OF inv] that(2)] own(2) by (auto simp: sel)
    ultimately show ?thesis
      using thunk_invD(2,3,4) [OF inv] own on by (intro thunk_inv_goto [OF inv sel(5)]) (auto simp: sel thread_ok_def)
  qed
qed

lemma call_inv:
  assumes inv: "thunk_inv original s" and t: "tr_pc s t = Calling p trail seen" and c: "fp_call original t p trail seen s = Some s'"
  shows "thunk_inv original s'"
proof -
  obtain rest where rest: "seen = trail @ rest" "chain_from original s p rest" "set seen \<subseteq> set (tr_published s)"
    using thunk_invD(6) [OF inv, of t] t by (auto simp: thread_ok_def)
  show ?thesis
  proof (cases "p = original")
    case True
    then have "rest = []" using rest thunk_invD(2) [OF inv] by (cases rest) auto
    then have "thread_ok original s (Answered trail seen)" using rest by (simp add: thread_ok_def)
    then show ?thesis using c t True by (auto simp: fp_call_def intro: thunk_inv_move [OF inv])
  next
    case False
    then obtain rest' q where q: "rest = p # rest'" "goes_on s p q" "chain_from original s q rest'" using rest(2) by (cases rest) auto
    show ?thesis
    proof (cases "tr_next s p")
      case None
      then show ?thesis using c False q(2) by (simp add: fp_call_def goes_on_def)
    next
      case (Some r)
      then have "r = q" using q(2) by (simp add: goes_on_def)
      then have "thread_ok original s (Calling r (trail @ [p]) seen)" using q rest by (auto simp: thread_ok_def)
      then show ?thesis using c t False Some by (auto simp: fp_call_def intro: thunk_inv_move [OF inv])
    qed
  qed
qed

lemma thunk_step_inv: "thunk_step original s s' \<Longrightarrow> thunk_inv original s \<Longrightarrow> thunk_inv original s'"
proof (induction rule: thunk_step.induct)
  case (load s t k p)
  then have "thread_ok original s (Setting k p (tr_ptr s))" using thunk_invD(6) [OF load.prems, of t] by (simp add: thread_ok_def)
  with load show ?case unfolding fp_load_def by (intro thunk_inv_move) simp_all
next
  case (enter s t)
  then have "thread_ok original s (Calling (tr_ptr s) [] (tr_published s))" using thunk_invD(1) [OF enter.prems] by (simp add: thread_ok_def)
  with enter show ?case unfolding fp_enter_def by (intro thunk_inv_move) simp_all
qed (simp_all add: begin_inv set_inv swap_inv finish_hook_inv call_inv)

lemma thunk_reach: "(thunk_step original)\<^sup>*\<^sup>* (thunk_start original) s \<Longrightarrow> thunk_inv original s"
proof (induction rule: rtranclp_induct)
  case base
  show ?case by (simp add: thunk_inv_def thunk_start_def thread_ok_def)
qed (rule thunk_step_inv)

section \<open>Properties\<close>

text \<open>
  C19. No hook is lost. When threads hook one function at the same time, each hook that was put on it is
  run by every later call, each exactly once, from the newest to the oldest, whatever the interleaving;
  no call reads an original that is not there yet, and one that waits for a static hook's original
  waits for a thread that is about to give it.
\<close>

theorem concurrent_hooks_kept:
  assumes "(thunk_step original)\<^sup>*\<^sup>* (thunk_start original) s"
  shows "(tr_pc s t = Hooked p \<longrightarrow> p \<in> set (tr_published s)) \<and> (tr_pc s t = Answered trail seen \<longrightarrow> trail = seen)
    \<and> tr_pc s t \<noteq> Uninitialized
    \<and> (tr_pc s t = Calling p trail seen \<and> fp_call original t p trail seen s = None \<longrightarrow>
         (\<exists>u prev. tr_pc s u = Swapped After_swap p prev))"
proof -
  have inv: "thunk_inv original s" by (rule thunk_reach [OF assms])
  note ok = thunk_invD(6) [OF inv, of t]
  have "\<exists>u prev. tr_pc s u = Swapped After_swap p prev"
    if c: "tr_pc s t = Calling p trail seen" "fp_call original t p trail seen s = None"
  proof -
    obtain rest where "chain_from original s p rest" "p \<noteq> original" "tr_next s p = None"
      using ok c by (auto simp: thread_ok_def fp_call_def split: if_splits option.splits)
    then show ?thesis by (cases rest) (auto simp: goes_on_def)
  qed
  then show ?thesis using ok by (auto simp: thread_ok_def)
qed

text \<open>
  Threads 0 and 1 load the original 1 before either exchanges it; thread 1, which makes a static hook,
  is first, so thread 0 has to try again. Thread 2 calls the function, and waits for thread 1.
\<close>

definition two_hooks :: thunk_race where
  "two_hooks =
     (let s = fp_load 1 After_swap 3 (fp_load 0 Before_swap 2 (fp_begin 1 After_swap 3 (fp_begin 0 Before_swap 2 (thunk_start 1))));
          s = fp_swap 1 After_swap 3 1 False (fp_set 1 After_swap 3 1 (fp_set 0 Before_swap 2 1 s));
          s = fp_set 0 Before_swap 2 3 (fp_swap 0 Before_swap 2 1 False s);
          s = fp_finish 0 Before_swap 2 3 (fp_swap 0 Before_swap 2 3 False s)
      in the (fp_call 1 2 2 [] [2, 3] (fp_enter 2 s)))"

lemmas fp_defs = thunk_goto_def fp_begin_def fp_load_def fp_set_def fp_swap_def fp_finish_def fp_enter_def fp_call_def thunk_start_def

lemma two_hooks_reachable: "(thunk_step 1)\<^sup>*\<^sup>* (thunk_start 1) two_hooks"
proof -
  define a where "a = fp_begin 0 Before_swap 2 (thunk_start 1)"
  define b where "b = fp_begin 1 After_swap 3 a"
  define c where "c = fp_load 0 Before_swap 2 b"
  define d where "d = fp_load 1 After_swap 3 c"
  define e where "e = fp_set 0 Before_swap 2 1 d"
  define f where "f = fp_set 1 After_swap 3 1 e"
  define g where "g = fp_swap 1 After_swap 3 1 False f"
  define h where "h = fp_swap 0 Before_swap 2 1 False g"
  define i where "i = fp_set 0 Before_swap 2 3 h"
  define j where "j = fp_swap 0 Before_swap 2 3 False i"
  define k where "k = fp_finish 0 Before_swap 2 3 j"
  define l where "l = fp_enter 2 k"
  note defs = a_def b_def c_def d_def e_def f_def g_def h_def i_def j_def k_def l_def fp_defs
  have "(thunk_step 1)\<^sup>*\<^sup>* (thunk_start 1) a" unfolding a_def by (rule r_into_rtranclp, rule begin_hook) (simp_all add: defs)
  also have "(thunk_step 1)\<^sup>*\<^sup>* a b" unfolding b_def by (rule r_into_rtranclp, rule begin_hook) (simp_all add: defs)
  also have "(thunk_step 1)\<^sup>*\<^sup>* b c" unfolding c_def by (rule r_into_rtranclp, rule load) (simp add: defs)
  also have "(thunk_step 1)\<^sup>*\<^sup>* c d" unfolding d_def by (rule r_into_rtranclp, rule load) (simp add: defs)
  also have "(thunk_step 1)\<^sup>*\<^sup>* d e" unfolding e_def by (rule r_into_rtranclp, rule thunk_step.set) (simp add: defs)
  also have "(thunk_step 1)\<^sup>*\<^sup>* e f" unfolding f_def by (rule r_into_rtranclp, rule thunk_step.set) (simp add: defs)
  also have "(thunk_step 1)\<^sup>*\<^sup>* f g" unfolding g_def by (rule r_into_rtranclp, rule swap) (simp add: defs)
  also have "(thunk_step 1)\<^sup>*\<^sup>* g h" unfolding h_def by (rule r_into_rtranclp, rule swap) (simp add: defs)
  also have "(thunk_step 1)\<^sup>*\<^sup>* h i" unfolding i_def by (rule r_into_rtranclp, rule thunk_step.set) (simp add: defs)
  also have "(thunk_step 1)\<^sup>*\<^sup>* i j" unfolding j_def by (rule r_into_rtranclp, rule swap) (simp add: defs)
  also have "(thunk_step 1)\<^sup>*\<^sup>* j k" unfolding k_def by (rule r_into_rtranclp, rule finish) (simp add: defs)
  also have "(thunk_step 1)\<^sup>*\<^sup>* k l" unfolding l_def by (rule r_into_rtranclp, rule enter) (simp add: defs)
  also have "(thunk_step 1)\<^sup>*\<^sup>* l two_hooks"
  proof (rule r_into_rtranclp, rule call)
    show "tr_pc l 2 = Calling 2 [] [2, 3]" by (simp add: defs)
    show "fp_call 1 2 2 [] [2, 3] l = Some two_hooks"
      by (simp add: two_hooks_def Let_def a_def b_def c_def d_def e_def f_def g_def h_def i_def j_def k_def l_def) (simp add: fp_defs)
  qed
  finally show ?thesis .
qed

theorem concurrent_hooks_kept_witness:
  "2 \<in> set (tr_published two_hooks) \<and> (\<exists>u prev. tr_pc two_hooks u = Swapped After_swap 3 prev)"
proof
  have "tr_pc two_hooks 0 = Hooked 2" by (simp add: two_hooks_def Let_def fp_defs)
  then show "2 \<in> set (tr_published two_hooks)" using concurrent_hooks_kept [OF two_hooks_reachable, of 0 2] by simp
  have "tr_pc two_hooks 2 = Calling 3 [2] [2, 3]" "fp_call 1 2 3 [2] [2, 3] two_hooks = None"
    by (simp_all add: two_hooks_def Let_def fp_defs)
  then show "\<exists>u prev. tr_pc two_hooks u = Swapped After_swap 3 prev"
    using concurrent_hooks_kept [OF two_hooks_reachable, of 2 3] by blast
qed

end
