(* ===== verification/Scoped.thy ===== *)
theory Scoped
  imports Prelude
begin

text \<open>
  Scoped hooks (\<open>hook/scoped.rs\<close>): closures that borrow from the caller of \<open>scope\<close>. Each closure is in
  an \<open>Arc\<close> that the scope owns; a call of the hook holds another reference while it runs, and the
  end of the scope waits until no reference is left. A step is one operation on a reference count,
  one park or unpark, or one destructor. \<open>t\<close> ranges over the calls of hooks by all threads.
\<close>

section \<open>State\<close>

text \<open>The thread that created the scope: in its body; dropping the closures still listed; having got
  the closure out, about to drop it; before the test of the loop; before or in \<open>park\<close>; returned.\<close>

datatype scope_pc =
    In_scope
  | Draining "nat list"
  | Dropping_own nat "nat list"
  | Checking nat "nat list"
  | Parking nat "nat list"
  | Scope_over

text \<open>A call: not in a scoped closure, in one, dropping the closure it got out, and before \<open>unpark\<close>.\<close>

datatype call_pc = Outside | Inside nat | Dropping_value nat | Unparking

datatype value_state = Unmade | Alive | Dropped

record scope_state =
  sc_hooks :: "nat list"
  sc_count :: "nat \<Rightarrow> nat"
  sc_value :: "nat \<Rightarrow> value_state"
  sc_main :: scope_pc
  sc_token :: bool
  sc_call :: "nat \<Rightarrow> call_pc"

section \<open>Steps\<close>

text \<open>\<open>Arc::into_inner\<close>: gives up a reference; whether it was the last.\<close>

definition into_inner :: "nat \<Rightarrow> scope_state \<Rightarrow> bool \<times> scope_state" where
  "into_inner i s = (sc_count s i = 1, s\<lparr>sc_count := (sc_count s)(i := sc_count s i - 1)\<rparr>)"

text \<open>\<open>ScopedStrategy::hook\<close>: the closure's only reference goes to the scope's list.\<close>

definition scope_add :: "nat \<Rightarrow> scope_state \<Rightarrow> scope_state" where
  "scope_add i s = s\<lparr>sc_hooks := sc_hooks s @ [i], sc_count := (sc_count s)(i := 1), sc_value := (sc_value s)(i := Alive)\<rparr>"

text \<open>The end of the scope.\<close>

definition scope_take :: "scope_state \<Rightarrow> scope_state" where
  "scope_take s = s\<lparr>sc_main := Draining (rev (sc_hooks s)), sc_hooks := []\<rparr>"

definition scope_drain :: "nat \<Rightarrow> nat list \<Rightarrow> scope_state \<Rightarrow> scope_state" where
  "scope_drain i rest s =
     (let (is_last, s') = into_inner i s
      in s'\<lparr>sc_main := if is_last then Dropping_own i rest else Checking i rest\<rparr>)"

definition scope_dropped :: "nat \<Rightarrow> nat list \<Rightarrow> scope_state \<Rightarrow> scope_state" where
  "scope_dropped i rest s = s\<lparr>sc_value := (sc_value s)(i := Dropped), sc_main := Draining rest\<rparr>"

definition scope_check :: "nat \<Rightarrow> nat list \<Rightarrow> scope_state \<Rightarrow> scope_state" where
  "scope_check i rest s = s\<lparr>sc_main := if sc_count s i \<noteq> 0 then Parking i rest else Draining rest\<rparr>"

text \<open>The hook: \<open>upgrade\<close>, the closure, and the guard that ends the call.\<close>

definition call_enter :: "nat \<Rightarrow> nat \<Rightarrow> scope_state \<Rightarrow> scope_state" where
  "call_enter t i s = s\<lparr>sc_count := (sc_count s)(i := sc_count s i + 1), sc_call := (sc_call s)(t := Inside i)\<rparr>"

definition call_leave :: "nat \<Rightarrow> nat \<Rightarrow> scope_state \<Rightarrow> scope_state" where
  "call_leave t i s =
     (let (is_last, s') = into_inner i s
      in s'\<lparr>sc_call := (sc_call s')(t := if is_last then Dropping_value i else Outside)\<rparr>)"

definition call_dropped :: "nat \<Rightarrow> nat \<Rightarrow> scope_state \<Rightarrow> scope_state" where
  "call_dropped t i s = s\<lparr>sc_value := (sc_value s)(i := Dropped), sc_call := (sc_call s)(t := Unparking)\<rparr>"

definition call_unpark :: "nat \<Rightarrow> scope_state \<Rightarrow> scope_state" where
  "call_unpark t s = s\<lparr>sc_token := True, sc_call := (sc_call s)(t := Outside)\<rparr>"

text \<open>\<open>park\<close> returns when the token is there, which it takes, or for no reason.\<close>

inductive scope_step :: "scope_state \<Rightarrow> scope_state \<Rightarrow> bool" where
  add: "sc_main s = In_scope \<Longrightarrow> sc_value s i = Unmade \<Longrightarrow> scope_step s (scope_add i s)"
| take: "sc_main s = In_scope \<Longrightarrow> scope_step s (scope_take s)"
| drain: "sc_main s = Draining (i # rest) \<Longrightarrow> scope_step s (scope_drain i rest s)"
| dropped: "sc_main s = Dropping_own i rest \<Longrightarrow> scope_step s (scope_dropped i rest s)"
| check: "sc_main s = Checking i rest \<Longrightarrow> scope_step s (scope_check i rest s)"
| wake: "sc_main s = Parking i rest \<Longrightarrow> sc_token s \<Longrightarrow> scope_step s (s\<lparr>sc_token := False, sc_main := Checking i rest\<rparr>)"
| spurious: "sc_main s = Parking i rest \<Longrightarrow> scope_step s (s\<lparr>sc_main := Checking i rest\<rparr>)"
| over: "sc_main s = Draining [] \<Longrightarrow> scope_step s (s\<lparr>sc_main := Scope_over\<rparr>)"
| enter: "sc_call s t = Outside \<Longrightarrow> 0 < sc_count s i \<Longrightarrow> scope_step s (call_enter t i s)"
| leave: "sc_call s t = Inside i \<Longrightarrow> scope_step s (call_leave t i s)"
| call_dropped: "sc_call s t = Dropping_value i \<Longrightarrow> scope_step s (call_dropped t i s)"
| unpark: "sc_call s t = Unparking \<Longrightarrow> scope_step s (call_unpark t s)"

definition scope_start :: scope_state where
  "scope_start = \<lparr>sc_hooks = [], sc_count = (\<lambda>i. 0), sc_value = (\<lambda>i. Unmade), sc_main = In_scope,
     sc_token = False, sc_call = (\<lambda>t. Outside)\<rparr>"

inductive scope_reachable :: "scope_state \<Rightarrow> bool" where
  start: "scope_reachable scope_start"
| step: "scope_reachable s \<Longrightarrow> scope_step s s' \<Longrightarrow> scope_reachable s'"

section \<open>The invariant\<close>

text \<open>The closures whose reference the scope still holds.\<close>

fun owned :: "scope_state \<Rightarrow> nat set" where
  "owned s = (case sc_main s of
     In_scope \<Rightarrow> set (sc_hooks s)
   | Draining xs \<Rightarrow> set xs
   | Dropping_own i xs \<Rightarrow> set xs
   | Checking i xs \<Rightarrow> set xs
   | Parking i xs \<Rightarrow> set xs
   | Scope_over \<Rightarrow> {})"

text \<open>The one it waits for.\<close>

fun awaited :: "scope_pc \<Rightarrow> nat option" where
  "awaited (Checking i xs) = Some i"
| "awaited (Parking i xs) = Some i"
| "awaited _ = None"

fun remaining :: "scope_pc \<Rightarrow> nat list \<Rightarrow> nat list" where
  "remaining In_scope hs = hs"
| "remaining (Draining xs) hs = xs"
| "remaining (Dropping_own i xs) hs = i # xs"
| "remaining (Checking i xs) hs = i # xs"
| "remaining (Parking i xs) hs = i # xs"
| "remaining Scope_over hs = []"

definition inside :: "(nat \<Rightarrow> call_pc) \<Rightarrow> nat \<Rightarrow> nat" where
  "inside call i = card {t. call t = Inside i}"

definition scope_inv :: "scope_state \<Rightarrow> bool" where
  "scope_inv s \<longleftrightarrow> finite {t. sc_call s t \<noteq> Outside}
     \<and> distinct (remaining (sc_main s) (sc_hooks s)) \<and> (\<forall>i \<in> set (remaining (sc_main s) (sc_hooks s)). sc_value s i \<noteq> Unmade)
     \<and> (\<forall>i. sc_count s i = inside (sc_call s) i + (if i \<in> owned s then 1 else 0))
     \<and> (\<forall>i. 0 < sc_count s i \<longrightarrow> i \<in> owned s \<or> awaited (sc_main s) = Some i)"

definition wake_inv :: "scope_state \<Rightarrow> bool" where
  "wake_inv s \<longleftrightarrow> (\<forall>i rest. sc_main s = Parking i rest \<longrightarrow>
     0 < sc_count s i \<or> sc_token s \<or> (\<exists>t. sc_call s t = Dropping_value i \<or> sc_call s t = Unparking))"

lemma finite_upd: "finite {t. f t \<noteq> w} \<Longrightarrow> finite {t'. (f(t := v)) t' \<noteq> w}"
  by (rule finite_subset [of _ "insert t {t. f t \<noteq> w}"]) auto

lemma finite_inside: "finite {t. sc_call s t \<noteq> Outside} \<Longrightarrow> finite {t. sc_call s t = Inside i}"
  by (rule finite_subset [rotated]) auto

lemma inside_some: "finite {t. sc_call s t \<noteq> Outside} \<Longrightarrow> sc_call s t = Inside i \<Longrightarrow> 0 < inside (sc_call s) i"
  using finite_inside [of s i] by (auto simp: inside_def card_gt_0_iff)

lemma inside_upd:
  assumes "finite {t. sc_call s t \<noteq> Outside}"
  shows "inside ((sc_call s)(t := v)) i + (if sc_call s t = Inside i then 1 else 0)
    = inside (sc_call s) i + (if v = Inside i then 1 else 0)"
proof -
  let ?A = "{t. sc_call s t = Inside i}"
  have "{t'. ((sc_call s)(t := v)) t' = Inside i} = (if v = Inside i then insert t ?A else ?A - {t})" by auto
  then show ?thesis
    using finite_inside [OF assms, of i] card_Suc_Diff1 [of ?A t] by (auto simp: inside_def insert_absorb)
qed

lemma scope_invD:
  assumes "scope_inv s"
  shows "finite {t. sc_call s t \<noteq> Outside}" "distinct (remaining (sc_main s) (sc_hooks s))"
    and "i \<in> set (remaining (sc_main s) (sc_hooks s)) \<Longrightarrow> sc_value s i \<noteq> Unmade"
    and "sc_count s i = inside (sc_call s) i + (if i \<in> owned s then 1 else 0)"
    and "0 < sc_count s i \<Longrightarrow> i \<in> owned s \<or> awaited (sc_main s) = Some i"
  using assms unfolding scope_inv_def by blast+

lemma scope_inv_start: "scope_inv scope_start"
  by (simp add: scope_inv_def scope_start_def inside_def)

lemma scope_inv_call:
  assumes inv: "scope_inv s" and same: "sc_main s' = sc_main s" "sc_hooks s' = sc_hooks s"
    and "value": "\<And>j. sc_value s j \<noteq> Unmade \<Longrightarrow> sc_value s' j \<noteq> Unmade"
    and call: "sc_call s' = (sc_call s)(t := v)"
    and count: "\<And>j. sc_count s' j + (if sc_call s t = Inside j then 1 else 0) = sc_count s j + (if v = Inside j then 1 else 0)"
    and live: "\<And>j. v = Inside j \<Longrightarrow> 0 < sc_count s j"
  shows "scope_inv s'"
proof -
  have own: "owned s' = owned s" unfolding owned.simps same ..
  have "sc_count s' j = inside (sc_call s') j + (if j \<in> owned s' then 1 else 0)" for j
    using scope_invD(4) [OF inv, of j] count [of j] inside_upd [OF scope_invD(1) [OF inv], of t v j]
    unfolding call own by simp
  moreover have "j \<in> owned s' \<or> awaited (sc_main s') = Some j" if "0 < sc_count s' j" for j
  proof -
    have "0 < sc_count s j" using that count [of j] live [of j] by (auto split: if_splits)
    then show ?thesis using scope_invD(5) [OF inv, of j] by (simp add: own same(1) del: owned.simps)
  qed
  moreover have "finite {t. sc_call s' t \<noteq> Outside}" using finite_upd [OF scope_invD(1) [OF inv]] by (simp only: call)
  ultimately show ?thesis using scope_invD(2,3) [OF inv] "value" unfolding scope_inv_def same by blast
qed

lemma scope_inv_main:
  assumes inv: "scope_inv s" and same: "sc_call s' = sc_call s"
    and "value": "\<And>j. sc_value s j \<noteq> Unmade \<Longrightarrow> sc_value s' j \<noteq> Unmade"
    and rem: "distinct (remaining (sc_main s') (sc_hooks s'))"
      "set (remaining (sc_main s') (sc_hooks s')) \<subseteq> set (remaining (sc_main s) (sc_hooks s))"
    and count: "\<And>j. sc_count s' j + (if j \<in> owned s then 1 else 0) = sc_count s j + (if j \<in> owned s' then 1 else 0)"
    and live: "\<And>j. 0 < sc_count s' j \<Longrightarrow> j \<in> owned s' \<or> awaited (sc_main s') = Some j"
  shows "scope_inv s'"
proof -
  have "sc_count s' j = inside (sc_call s') j + (if j \<in> owned s' then 1 else 0)" for j
    using scope_invD(4) [OF inv, of j] count [of j] unfolding same by simp
  with scope_invD(1,3) [OF inv] "value" rem live show ?thesis unfolding scope_inv_def same by blast
qed

lemma scope_inv_step:
  assumes "scope_step s s'" and inv: "scope_inv s"
  shows "scope_inv s'"
  using assms(1)
proof cases
  case (add i)
  have new: "i \<notin> set (sc_hooks s)" using scope_invD(3) [OF inv, of i] add by auto
  then have "sc_count s i = 0" using scope_invD(5) [OF inv, of i] add by auto
  then have none: "inside (sc_call s) i = 0" using scope_invD(4) [OF inv, of i] by simp
  have s': "sc_main s' = In_scope" "sc_hooks s' = sc_hooks s @ [i]" "sc_call s' = sc_call s"
      "sc_count s' = (sc_count s)(i := 1)" "sc_value s' = (sc_value s)(i := Alive)"
    using add by (simp_all add: scope_add_def)
  have "sc_count s' j = inside (sc_call s') j + (if j \<in> owned s' then 1 else 0)" for j
    using scope_invD(4) [OF inv, of j] none new add(2) by (cases "j = i") (auto simp: s')
  moreover have "j \<in> owned s'" if "0 < sc_count s' j" for j
    using that scope_invD(5) [OF inv, of j] add(2) by (cases "j = i") (auto simp: s')
  moreover have "sc_value s' j \<noteq> Unmade" if "j \<in> set (remaining (sc_main s') (sc_hooks s'))" for j
    using that scope_invD(3) [OF inv, of j] add(2) by (cases "j = i") (auto simp: s')
  moreover have "distinct (remaining (sc_main s') (sc_hooks s'))"
    using scope_invD(2) [OF inv] add(2) new by (simp add: s')
  ultimately show ?thesis using scope_invD(1) [OF inv] unfolding scope_inv_def s'(3) by blast
next
  case (enter t i)
  then show ?thesis by (intro scope_inv_call [OF inv, of s' t "Inside i"]) (auto simp: call_enter_def)
next
  case (leave t i)
  have "0 < sc_count s i" using scope_invD(4) [OF inv, of i] inside_some [OF scope_invD(1) [OF inv] leave(2)] by simp
  then show ?thesis
    using leave by (intro scope_inv_call [OF inv, of s' t "sc_call s' t"]) (auto simp: call_leave_def into_inner_def split: if_splits)
next
  case (call_dropped t i)
  then show ?thesis by (intro scope_inv_call [OF inv, of s' t Unparking]) (auto simp: call_dropped_def)
next
  case (unpark t)
  then show ?thesis by (intro scope_inv_call [OF inv, of s' t Outside]) (auto simp: call_unpark_def)
next
  case take
  then show ?thesis
    using scope_invD(2) [OF inv] scope_invD(5) [OF inv]
    by (intro scope_inv_main [OF inv, of s']) (auto simp: scope_take_def)
next
  case (drain i rest)
  have d: "i \<notin> set rest" "distinct rest" using scope_invD(2) [OF inv] drain by auto
  have c: "sc_count s i = inside (sc_call s) i + 1" using scope_invD(4) [OF inv, of i] drain by simp
  have live: "j \<in> set rest" if "0 < sc_count s j" "j \<noteq> i" for j using scope_invD(5) [OF inv that(1)] that(2) drain by simp
  show ?thesis
    using d c live drain
    by (intro scope_inv_main [OF inv, of s']) (auto simp: scope_drain_def into_inner_def split: if_splits)
next
  case (dropped i rest)
  have d: "i \<notin> set rest" "distinct rest" using scope_invD(2) [OF inv] dropped by auto
  show ?thesis
    using d scope_invD(5) [OF inv] dropped
    by (intro scope_inv_main [OF inv, of s']) (auto simp: scope_dropped_def)
next
  case (check i rest)
  have d: "i \<notin> set rest" "distinct rest" using scope_invD(2) [OF inv] check by auto
  have live: "\<forall>j. 0 < sc_count s j \<longrightarrow> j \<in> set rest \<or> j = i \<and> 0 < sc_count s i"
    using scope_invD(5) [OF inv] check by auto
  show ?thesis
    using d live check by (intro scope_inv_main [OF inv, of s']) (auto simp: scope_check_def)
next
  case (wake i rest)
  then show ?thesis
    using scope_invD(2) [OF inv] scope_invD(5) [OF inv] by (intro scope_inv_main [OF inv, of s']) auto
next
  case (spurious i rest)
  then show ?thesis
    using scope_invD(2) [OF inv] scope_invD(5) [OF inv] by (intro scope_inv_main [OF inv, of s']) auto
next
  case over
  then show ?thesis
    using scope_invD(2) [OF inv] scope_invD(5) [OF inv] by (intro scope_inv_main [OF inv, of s']) auto
qed

lemma wake_inv_step:
  assumes "scope_step s s'" and inv: "wake_inv s" and si: "scope_inv s"
  shows "wake_inv s'"
  using assms(1)
proof cases
  case (leave t i)
  show ?thesis
    unfolding wake_inv_def
  proof (intro allI impI)
    fix j rest assume p: "sc_main s' = Parking j rest"
    then have p': "sc_main s = Parking j rest" by (simp add: leave(1) call_leave_def into_inner_def)
    consider "0 < sc_count s j" "sc_count s' j = 0" | "0 < sc_count s' j" | "sc_token s"
      | t' where "sc_call s t' = Dropping_value j \<or> sc_call s t' = Unparking"
      using inv p' unfolding wake_inv_def by (metis neq0_conv)
    then show "0 < sc_count s' j \<or> sc_token s' \<or> (\<exists>t. sc_call s' t = Dropping_value j \<or> sc_call s' t = Unparking)"
    proof cases
      case 1
      then have "j = i" "sc_count s i = 1" by (auto simp: leave(1) call_leave_def into_inner_def split: if_splits)
      then show ?thesis by (auto simp: leave(1) call_leave_def into_inner_def)
    next
      case 4
      then have "t' \<noteq> t" using leave(2) by auto
      then show ?thesis using 4 by (auto simp: leave(1) call_leave_def into_inner_def)
    qed (auto simp: leave(1) call_leave_def into_inner_def)
  qed
next
  case (call_dropped t i)
  then show ?thesis using inv unfolding wake_inv_def
    by (auto simp: call_dropped_def)
next
  case (enter t i)
  have "sc_call s' t' = sc_call s t'" if "sc_call s t' \<noteq> Outside" for t'
    using that enter by (auto simp: call_enter_def)
  moreover have "sc_count s j \<le> sc_count s' j" for j by (simp add: enter(1) call_enter_def)
  moreover have "sc_main s' = sc_main s" "sc_token s' = sc_token s" by (simp_all add: enter(1) call_enter_def)
  ultimately show ?thesis using inv unfolding wake_inv_def
    by (metis call_pc.distinct(3) call_pc.distinct(5) less_le_trans)
qed (use inv in \<open>auto simp: wake_inv_def scope_take_def scope_dropped_def scope_check_def scope_drain_def into_inner_def
  scope_add_def call_unpark_def split: if_splits\<close>)

lemma scope_reachable_inv: "scope_reachable s \<Longrightarrow> scope_inv s \<and> wake_inv s"
proof (induction rule: scope_reachable.induct)
  case start
  then show ?case by (simp add: scope_inv_start) (simp add: wake_inv_def scope_start_def)
next
  case (step s s')
  then show ?case using scope_inv_step wake_inv_step by blast
qed

section \<open>Properties\<close>

lemma over_forever:
  assumes "rtranclp scope_step s s'" and "scope_reachable s" and "sc_main s = Scope_over"
  shows "scope_reachable s' \<and> sc_main s' = Scope_over"
  using assms
proof (induction rule: rtranclp_induct)
  case (step y z)
  then have "scope_reachable z" by (blast intro: scope_reachable.step)
  moreover have "sc_main z = Scope_over"
    using step(2) step.IH step.prems
    by cases (auto simp: call_enter_def call_leave_def into_inner_def call_dropped_def call_unpark_def)
  ultimately show ?case ..
qed simp

lemma over_counts:
  assumes "scope_reachable s" and "sc_main s = Scope_over"
  shows "sc_count s i = 0" and "sc_call s t \<noteq> Inside i"
proof -
  have inv: "scope_inv s" using scope_reachable_inv [OF assms(1)] by simp
  show z: "sc_count s i = 0" using scope_invD(5) [OF inv, of i] assms(2) by auto
  then show "sc_call s t \<noteq> Inside i"
    using scope_invD(4) [OF inv, of i] inside_some [OF scope_invD(1) [OF inv], of t i] by auto
qed

text \<open>
  C21. When \<open>scope\<close> returns, in every interleaving, no call is in a scoped closure and none will be:
  no reference is left that a hook could upgrade, now or after any further steps.
\<close>

theorem scope_end_stops_hooks:
  assumes "scope_reachable s" and "sc_main s = Scope_over" and "rtranclp scope_step s s'"
  shows "sc_call s' t \<noteq> Inside i \<and> sc_count s' i = 0"
  using over_forever [OF assms(3,1,2)] over_counts by blast

text \<open>A hook that is called while its scope ends: the call leaves last, and drops the closure.\<close>

definition entered :: scope_state where
  "entered = call_enter 0 7 (scope_add 7 scope_start)"

definition left_last :: scope_state where
  "left_last = call_leave 0 7 (scope_drain 7 [] (scope_take entered))"

lemmas scope_eval = entered_def left_last_def call_enter_def scope_add_def scope_start_def scope_take_def scope_drain_def
  call_leave_def into_inner_def scope_check_def scope_dropped_def

lemma entered_reachable: "scope_reachable entered"
proof -
  have "scope_reachable (scope_add 7 scope_start)"
    by (rule scope_reachable.step [OF scope_reachable.start], rule scope_step.add) (simp_all add: scope_start_def)
  then show ?thesis
    unfolding entered_def by (rule scope_reachable.step, intro scope_step.enter) (simp_all add: scope_eval)
qed

lemma drained_reachable: "scope_reachable (scope_drain 7 [] (scope_take entered))"
proof -
  have "scope_reachable (scope_take entered)"
    by (rule scope_reachable.step [OF entered_reachable], rule scope_step.take) (simp add: scope_eval)
  then show ?thesis by (rule scope_reachable.step, intro scope_step.drain) (simp add: scope_eval)
qed

lemma left_last_reachable: "scope_reachable left_last"
  unfolding left_last_def
  by (rule scope_reachable.step [OF drained_reachable], rule scope_step.leave) (simp add: scope_eval)

lemma over_reachable: "scope_reachable (scope_check 7 [] left_last\<lparr>sc_main := Scope_over\<rparr>)"
proof -
  have "scope_reachable (scope_check 7 [] left_last)"
    by (rule scope_reachable.step [OF left_last_reachable], rule scope_step.check) (simp add: scope_eval)
  then show ?thesis by (rule scope_reachable.step, intro scope_step.over) (simp add: scope_eval)
qed

theorem scope_end_stops_hooks_witness:
  "sc_call (scope_check 7 [] left_last\<lparr>sc_main := Scope_over\<rparr>) 0 \<noteq> Inside 7"
  using scope_end_stops_hooks [OF over_reachable _ rtranclp.rtrancl_refl] by simp

text \<open>
  C23. A scope that waits is not left waiting: whenever it is parked, or about to park, for a closure,
  either a call still holds the closure, or the token that lets \<open>park\<close> return is there, or a call is
  on its way to give it.
\<close>

theorem scope_wait_is_woken:
  assumes "scope_reachable s" and "sc_main s = Parking i rest"
  shows "(\<exists>t. sc_call s t = Inside i) \<or> sc_token s
    \<or> (\<exists>t. sc_call s t = Dropping_value i \<or> sc_call s t = Unparking)"
proof -
  have inv: "scope_inv s" "wake_inv s" using scope_reachable_inv [OF assms(1)] by simp_all
  have "i \<notin> owned s" using scope_invD(2) [OF inv(1)] assms(2) by simp
  then have "\<exists>t. sc_call s t = Inside i" if "0 < sc_count s i"
    using that scope_invD(4) [OF inv(1), of i] by (auto simp: inside_def card_gt_0_iff)
  then show ?thesis using inv(2) assms(2) unfolding wake_inv_def by metis
qed

theorem scope_wait_is_woken_witness:
  "let s = scope_check 7 [] (scope_drain 7 [] (scope_take entered)) in sc_main s = Parking 7 []
    \<and> (\<exists>t. sc_call s t = Inside 7 \<or> sc_call s t = Dropping_value 7 \<or> sc_call s t = Unparking)"
proof -
  let ?s = "scope_check 7 [] (scope_drain 7 [] (scope_take entered))"
  have "scope_reachable ?s"
    by (rule scope_reachable.step [OF drained_reachable], rule scope_step.check) (simp add: scope_eval)
  moreover have "sc_main ?s = Parking 7 []" "\<not> sc_token ?s" by (simp_all add: scope_eval)
  ultimately show ?thesis using scope_wait_is_woken [of ?s 7 "[]"] by (auto simp: Let_def)
qed

text \<open>
  The scope can be over while a call is still dropping a closure of it: the last reference is
  given up before the closure is dropped, and the scope looks at the number of references only. The
  closure's destructor then runs with borrows that have ended.
\<close>

theorem scope_over_before_drop:
  "\<exists>s. scope_reachable s \<and> sc_main s = Scope_over \<and> sc_call s 0 = Dropping_value 7 \<and> sc_value s 7 = Alive"
  using over_reachable by (intro exI conjI) (auto simp: scope_eval)

end
