(* ===== verification/Scope_History.thy ===== *)
theory Scope_History
  imports Hook_History
begin

text \<open>
  Scoped hooks on functions (\<open>hook/scoped.rs\<close>): the closures a scope owns are called through temporary
  hooks that reach them by a weak reference, so when the scope drops them the hooks pass calls on.
  \<open>Scoped\<close> has the references and the threads; here is what a function answers after the scope.
\<close>

section \<open>Scoped closures\<close>

text \<open>\<open>ScopedHook\<close>, \<open>ScopedHookMut\<close> and \<open>ScopedHookOnce\<close>; their \<open>call\<close> is \<open>run_closure\<close>.\<close>

definition scoped_hook :: "('a \<Rightarrow> ('a, 'r, 'r) prog) \<Rightarrow> ('a, 'r, 'c) closure" where
  "scoped_hook f = Shared f"

definition scoped_hook_mut :: "('c \<Rightarrow> 'a \<Rightarrow> ('a, 'r \<times> 'c, 'r) prog) \<Rightarrow> 'c \<Rightarrow> ('a, 'r, 'c) closure" where
  "scoped_hook_mut f c = Locked f c"

definition scoped_hook_once :: "('a \<Rightarrow> ('a, 'r, 'r) prog) \<Rightarrow> ('a, 'r, 'c) closure" where
  "scoped_hook_once f = Once (Some f) True"

text \<open>
  The thunk: while the scope owns the closure, \<open>upgrade\<close> gives it, and the thunk calls what it finds at the
  address of its guard, which holds the reference and not the closure (\<open>scoped.rs\<close>, lines 168-171). What
  that runs the code does not determine: \<open>g\<close> is a parameter, any closure for the one that was boxed; the
  boxed one itself is \<open>g = id\<close>. Afterwards the hook calls the original, as does a \<open>hook_once\<close> closure that
  is spent.
\<close>

definition run_scoped ::
    "(('a, 'r, 'c) closure \<Rightarrow> ('a, 'r, 'c) closure)
      \<Rightarrow> bool \<Rightarrow> ('w \<Rightarrow> 'a \<Rightarrow> ('r \<times> 'w) option) \<Rightarrow> (('a, 'r, 'c) closure \<Rightarrow> 'w \<Rightarrow> 'w) \<Rightarrow> ('a, 'r, 'c) closure \<Rightarrow> 'w \<Rightarrow> 'a
      \<Rightarrow> ('r \<times> 'w) option" where
  "run_scoped g owned orig put c w a = (if owned then run_closure orig put (g c) w a else orig w a)"

definition gone :: "('a, 'r, 'c) closure" where
  "gone = Once None False"

lemma run_scoped_gone: "run_scoped g owned orig put c w a = run_closure orig put (if owned then g c else gone) w a"
  by (simp add: run_scoped_def gone_def)

section \<open>The scope\<close>

text \<open>
  What happens in a scope: a scoped hook, or anything else. The scope keeps its closures in order, each
  with the handle of the hook it is behind. Leaving, they are dropped from the last to the first, unless
  the hook is gone already.
\<close>

datatype ('a, 'r, 'c) scope_event =
    Scoped_hook nat nat nat nat nat "('a, 'r, 'c) closure"
  | Meanwhile "('a, 'r, 'c) event"

fun do_scoped ::
    "(('a, 'r, 'c) closure \<Rightarrow> ('a, 'r, 'c) closure)
      \<Rightarrow> ('s, nat node) slab_ops \<Rightarrow> ('a, 'r, 'c) scope_event \<Rightarrow> (nat \<times> nat) list \<times> ('s, 'a, 'r, 'c) world
      \<Rightarrow> (nat \<times> nat) list \<times> ('s, 'a, 'r, 'c) world" where
  "do_scoped g sl (Scoped_hook t ty p q h c) (hs, w) = (hs @ [(h, q)], hook_unchecked_lt sl p q h (g c) (t, ty) w)"
| "do_scoped g sl (Meanwhile e) (hs, w) = (hs, do_event sl e w)"

fun scope_run ::
    "(('a, 'r, 'c) closure \<Rightarrow> ('a, 'r, 'c) closure)
      \<Rightarrow> ('s, nat node) slab_ops \<Rightarrow> ('a, 'r, 'c) scope_event list \<Rightarrow> (nat \<times> nat) list \<times> ('s, 'a, 'r, 'c) world
      \<Rightarrow> (nat \<times> nat) list \<times> ('s, 'a, 'r, 'c) world" where
  "scope_run g sl [] z = z"
| "scope_run g sl (e # es) z = scope_run g sl es (do_scoped g sl e z)"

definition expire :: "nat \<times> nat \<Rightarrow> ('s, 'a, 'r, 'c) world \<Rightarrow> ('s, 'a, 'r, 'c) world" where
  "expire e w =
     (case w_code w (snd e) of
        Some (Temp_closure h c) \<Rightarrow> if h = fst e then put_closure (snd e) gone w else w
      | _ \<Rightarrow> w)"

definition scope_exit :: "(nat \<times> nat) list \<Rightarrow> ('s, 'a, 'r, 'c) world \<Rightarrow> ('s, 'a, 'r, 'c) world" where
  "scope_exit hs w = fold expire (rev hs) w"

text \<open>The same as events on functions, and when they are fresh: a handle is not one of the scope's.\<close>

fun plain_event :: "(('a, 'r, 'c) closure \<Rightarrow> ('a, 'r, 'c) closure) \<Rightarrow> ('a, 'r, 'c) scope_event \<Rightarrow> ('a, 'r, 'c) event" where
  "plain_event g (Scoped_hook t ty p q h c) = Hook t ty p q h (g c)"
| "plain_event g (Meanwhile e) = e"

fun new_handle :: "(nat \<times> nat) list \<Rightarrow> ('a, 'r, 'c) event \<Rightarrow> bool" where
  "new_handle hs (Hook t ty p q h c) \<longleftrightarrow> h \<notin> fst ` set hs"
| "new_handle hs _ \<longleftrightarrow> True"

fun scope_fresh ::
    "(('a, 'r, 'c) closure \<Rightarrow> ('a, 'r, 'c) closure)
      \<Rightarrow> ('s, nat node) slab_ops \<Rightarrow> ('a, 'r, 'c) scope_event list \<Rightarrow> (nat \<times> nat) list \<times> ('s, 'a, 'r, 'c) world \<Rightarrow> bool" where
  "scope_fresh g sl [] z \<longleftrightarrow> True"
| "scope_fresh g sl (e # es) z \<longleftrightarrow> fresh (snd z) (plain_event g e) \<and> new_handle (fst z) (plain_event g e)
     \<and> scope_fresh g sl es (do_scoped g sl e z)"

section \<open>Closures that pass calls on\<close>

fun erase :: "bool list \<Rightarrow> 'b list \<Rightarrow> 'b list" where
  "erase (b # bs) (c # cs) = (if b then c # erase bs cs else erase bs cs)"
| "erase bs cs = []"

definition others_gone :: "bool list \<Rightarrow> ('a, 'r, 'c) closure list \<Rightarrow> bool" where
  "others_gone bs cs \<longleftrightarrow> list_all2 (\<lambda>b c. b \<or> c = gone) bs cs"

lemma length_erase: "length cs = length bs \<Longrightarrow> length (erase bs cs) = length (filter (\<lambda>b. b) bs)"
  by (induction bs cs rule: erase.induct) auto

lemma erase_filter: "erase (map P xs) (map g xs) = map g (filter P xs)"
  by (induction xs) auto

text \<open>An original seen through \<open>g\<close> makes no difference to a closure.\<close>

lemma spec_prog_through:
  assumes "\<And>s a. P s \<Longrightarrow> orig' (g s) a = (fst (orig s a), g (snd (orig s a))) \<and> P (snd (orig s a))" and "P s"
  shows "spec_prog orig' p (g s) = (fst (spec_prog orig p s), g (snd (spec_prog orig p s))) \<and> P (snd (spec_prog orig p s))"
  using assms(2)
proof (induction p arbitrary: s)
  case (Call_original a k)
  then show ?case using assms(1) by (simp add: split_beta)
qed simp

lemma spec_closure_through:
  assumes "\<And>s a. P s \<Longrightarrow> orig' (g s) a = (fst (orig s a), g (snd (orig s a))) \<and> P (snd (orig s a))" and "P s"
  shows "spec_closure orig' c (g s) a =
      (fst (spec_closure orig c s a), fst (snd (spec_closure orig c s a)), g (snd (snd (spec_closure orig c s a))))
    \<and> P (snd (snd (spec_closure orig c s a)))"
  by (cases "(orig, c, s, a)" rule: spec_closure.cases)
    (simp_all add: split_beta assms spec_prog_through [where P = P and orig = orig and orig' = orig' and g = g, OF assms(1)])

lemma spec_layers_erase:
  "others_gone bs cs \<Longrightarrow>
    spec_layers f (length (filter (\<lambda>b. b) bs)) (erase bs cs) a
      = (fst (spec_layers f (length bs) cs a), erase bs (snd (spec_layers f (length bs) cs a)))
    \<and> others_gone bs (snd (spec_layers f (length bs) cs a))"
proof (induction bs arbitrary: cs a)
  case Nil
  then show ?case by (simp add: others_gone_def)
next
  case (Cons b bs)
  then obtain c cs' where cs: "cs = c # cs'" "others_gone bs cs'" "b \<or> c = gone"
    by (auto simp: others_gone_def list_all2_Cons1)
  show ?case
  proof (cases b)
    case True
    have "spec_closure (spec_layers f (length (filter (\<lambda>b. b) bs))) c (erase bs cs') a =
        (fst (spec_closure (spec_layers f (length bs)) c cs' a), fst (snd (spec_closure (spec_layers f (length bs)) c cs' a)),
         erase bs (snd (snd (spec_closure (spec_layers f (length bs)) c cs' a))))
      \<and> others_gone bs (snd (snd (spec_closure (spec_layers f (length bs)) c cs' a)))"
      by (rule spec_closure_through [where P = "others_gone bs", OF _ cs(2)]) (rule Cons.IH)
    with True show ?thesis by (simp add: cs(1) split_beta others_gone_def)
  next
    case False
    with cs(3) have "c = Once None False" by (simp add: gone_def)
    then show ?thesis using Cons.IH [OF cs(2), of a] False by (simp add: cs(1) split_beta others_gone_def gone_def)
  qed
qed

lemma spec_call_erase:
  assumes "others_gone bs cs"
  shows "fst (spec_call f (erase bs cs) a) = fst (spec_call f cs a)"
proof -
  have "length cs = length bs" using assms by (simp add: others_gone_def list_all2_lengthD)
  then show ?thesis using spec_layers_erase [OF assms, of f a] by (simp add: spec_call_def length_erase)
qed

section \<open>Leaving the scope\<close>

definition expired :: "(nat \<times> nat) list \<Rightarrow> ('s, 'a, 'r, 'c) world \<Rightarrow> nat \<Rightarrow> bool" where
  "expired hs w q \<longleftrightarrow> (\<exists>h c. (h, q) \<in> set hs \<and> w_code w q = Some (Temp_closure h c))"

lemma expire_frame [intro]: "frame w w' \<Longrightarrow> frame w (expire e w')"
  by (auto simp: expire_def split: option.splits callee.splits)

lemma frame_sym: "frame w w' \<Longrightarrow> frame w' w"
  by (simp add: frame_def)

lemma expired_cong: "frame w w' \<Longrightarrow> expired hs w' q \<longleftrightarrow> expired hs w q"
  unfolding expired_def using frame_code(3) [of w w' q] frame_code(3) [OF frame_sym, of w w' q] by metis

lemma closure_at_expire:
  "closure_at (expire e w) q = (if expired [e] w q then Some gone else closure_at w q)"
  by (cases e) (auto simp: expire_def expired_def closure_at_put closure_at_def split: option.splits callee.splits)

lemma fold_expire:
  "frame w (fold expire hs w)
    \<and> closure_at (fold expire hs w) q = (if expired hs w q then Some gone else closure_at w q)"
proof (induction hs arbitrary: w)
  case Nil
  then show ?case by (simp add: expired_def)
next
  case (Cons e hs)
  have fr: "frame w (expire e w)" by (rule expire_frame [OF frame_refl])
  have "frame w (fold expire hs (expire e w))"
    using Cons [of "expire e w"] fr by (simp add: frame_def)
  moreover have "expired (e # hs) w q \<longleftrightarrow> expired [e] w q \<or> expired hs w q" by (auto simp: expired_def)
  ultimately show ?case
    using Cons [of "expire e w"] expired_cong [OF fr] by (auto simp: closure_at_expire)
qed

lemma hooked_scope_exit:
  assumes "hooked sl valid f w (lv, m)"
  shows "hooked sl valid f (scope_exit hs w) (lv, \<lambda>q. if expired hs w q then gone else m q)"
proof -
  have ok: "hooks_ok sl valid f w lv" and c: "\<And>t q. q \<in> set (flat (lv t)) \<Longrightarrow> closure_at w q = Some (m q)"
    using assms by (auto simp: hooked_def)
  have "expired (rev hs) w q = expired hs w q" for q by (simp add: expired_def)
  then show ?thesis
    using hooks_ok_same_frame [OF ok] fold_expire [of w "rev hs"] c by (simp add: hooked_def scope_exit_def)
qed

text \<open>A handle of the scope that still has a hook is behind the closure the scope has for it.\<close>

definition scope_ok :: "(nat \<times> nat) list \<Rightarrow> (nat \<Rightarrow> level list) \<Rightarrow> bool" where
  "scope_ok hs lv \<longleftrightarrow> (\<forall>(h, q) \<in> set hs. \<forall>t ty es q'. Listed ty es \<in> set (lv t) \<longrightarrow> (h, q') \<in> set es \<longrightarrow> q' = q)"

lemma scope_okI: "(\<And>h q t ty es q'. (h, q) \<in> set hs \<Longrightarrow> Listed ty es \<in> set (lv t) \<Longrightarrow> (h, q') \<in> set es \<Longrightarrow> q' = q)
    \<Longrightarrow> scope_ok hs lv"
  by (auto simp: scope_ok_def)

lemma scope_okD: "scope_ok hs lv \<Longrightarrow> (h, q) \<in> set hs \<Longrightarrow> Listed ty es \<in> set (lv t) \<Longrightarrow> (h, q') \<in> set es \<Longrightarrow> q' = q"
  by (auto simp: scope_ok_def)

lemma Listed_hook:
  assumes "Listed ty' es \<in> set (change_level ty (Cons e) (ensure_level ty ls))"
  shows "\<exists>es0. (es0 = [] \<or> Listed ty' es0 \<in> set ls) \<and> (es = es0 \<or> es = e # es0)"
proof -
  have "\<exists>es0. Listed ty' es0 \<in> set ls' \<and> (es = es0 \<or> es = e # es0)"
    if "Listed ty' es \<in> set (change_level ty (Cons e) ls')" for ls'
    using that by (induction ls' rule: flat.induct) (auto split: if_splits)
  from this [OF assms] show ?thesis by (auto simp: ensure_level_def split: if_splits)
qed

lemma live_handle:
  assumes "hooks_ok sl valid f w lv" and "Listed ty es \<in> set (lv t)" and "(h, q) \<in> set es"
  shows "w_hooks w h \<noteq> None \<and> (\<exists>c. w_code w q = Some (Temp_closure h c))"
  using listed_entry [OF hooks_okD(2) [OF assms(1)] assms(2)] list_ok_entry assms(3) by fastforce

lemma scope_ok_event:
  assumes ok: "hooks_ok sl valid f w lv" and sc: "scope_ok hs lv" and fr: "fresh w e" "new_handle hs e"
  shows "scope_ok hs (fst (spec_event f e (lv, m)))"
    and "e = Hook t ty p q h c \<Longrightarrow> scope_ok (hs @ [(h, q)]) (fst (spec_event f e (lv, m)))"
proof -
  have hook: "q' = q0" if e: "e = Hook t ty p q h c" and h0: "(h0, q0) \<in> set hs \<or> (h0, q0) = (h, q)"
    and l: "Listed ty' es \<in> set (fst (spec_event f e (lv, m)) t')" "(h0, q') \<in> set es" for t ty p q h c h0 q0 ty' es t' q'
  proof -
    obtain es0 where es0: "es0 = [] \<or> Listed ty' es0 \<in> set (lv t')" "es = es0 \<or> es = (h, q) # es0"
      using l(1) Listed_hook [of ty' es ty "(h, q)" "lv t"] by (auto simp: e split: if_splits)
    show ?thesis
    proof (cases "(h0, q') \<in> set es0")
      case True
      then have "Listed ty' es0 \<in> set (lv t')" using es0(1) by auto
      with live_handle [OF ok this True] scope_okD [OF sc _ this True, of q0] h0 fr(1) show ?thesis by (auto simp: e)
    next
      case False
      with l(2) es0(2) have "h0 = h" "q' = q" by auto
      with h0 fr(2) show ?thesis by (force simp: e)
    qed
  qed
  show "scope_ok hs (fst (spec_event f e (lv, m)))"
  proof (cases e)
    case (Hook t ty p q h c)
    show ?thesis by (rule scope_okI) (rule hook [OF Hook disjI1])
  next
    case (Static_hook t p c)
    then show ?thesis using sc by (auto simp: scope_ok_def)
  next
    case (Drop_handle h)
    show ?thesis
    proof (rule scope_okI)
      fix h0 q0 t ty es q'
      assume h0: "(h0, q0) \<in> set hs" and "Listed ty es \<in> set (fst (spec_event f e (lv, m)) t)" "(h0, q') \<in> set es"
      then obtain es0 where "Listed ty es0 \<in> set (lv t)" "(h0, q') \<in> set es0"
        by (auto simp: Drop_handle split: level.splits)
      then show "q' = q0" by (rule scope_okD [OF sc h0])
    qed
  qed (use sc in simp)
  show "scope_ok (hs @ [(h, q)]) (fst (spec_event f e (lv, m)))" if "e = Hook t ty p q h c"
    by (rule scope_okI) (rule hook [OF that], auto)
qed

lemma scope_run_hooked:
  assumes "hooked sl valid f w s" and "scope_ok hs (fst s)" and "scope_fresh g sl es (hs, w)"
    and "scope_run g sl es (hs, w) = (hs', w')"
  shows "\<exists>s'. hooked sl valid f w' s' \<and> scope_ok hs' (fst s')"
  using assms
proof (induction es arbitrary: hs w s)
  case (Cons e es)
  obtain hs1 w1 where step: "do_scoped g sl e (hs, w) = (hs1, w1)" by (cases "do_scoped g sl e (hs, w)")
  obtain lv m where s: "s = (lv, m)" by (cases s)
  have ok: "hooks_ok sl valid f w lv" "scope_ok hs lv" "fresh w (plain_event g e)" "new_handle hs (plain_event g e)"
    using Cons.prems by (auto simp: hooked_def s)
  have "w1 = do_event sl (plain_event g e) w" using step by (cases e) auto
  then have "hooked sl valid f w1 (spec_event f (plain_event g e) s)"
    using hooked_event [OF Cons.prems(1) ok(3)] by simp
  moreover have "scope_ok hs1 (fst (spec_event f (plain_event g e) s))"
    using scope_ok_event [where m = m, OF ok] step by (cases e) (auto simp: s)
  ultimately show ?case using Cons.IH Cons.prems(3,4) step by simp
qed auto

section \<open>As if the hooks were dropped\<close>

definition without_handles :: "nat set \<Rightarrow> level list \<Rightarrow> level list" where
  "without_handles H ls = map (\<lambda>l. case l of Fixed q \<Rightarrow> Fixed q | Listed ty es \<Rightarrow> Listed ty (filter (\<lambda>e. fst e \<notin> H) es)) ls"

lemma drops_spec:
  "fold (spec_event f) (map (\<lambda>e. Drop_handle (fst e)) hs) (lv, m) = (\<lambda>t. without_handles (fst ` set hs) (lv t), m)"
proof (induction hs arbitrary: lv)
  case Nil
  have "without_handles {} ls = ls" for ls
    by (induction ls rule: flat.induct) (auto simp: without_handles_def)
  then show ?case by simp
next
  case (Cons e hs)
  then show ?case
    by (auto simp: without_handles_def fun_eq_iff conj_commute split: level.splits intro!: filter_cong)
qed

lemma flat_without:
  assumes ok: "hooks_ok sl valid f w lv" and sc: "scope_ok hs lv"
  shows "flat (without_handles (fst ` set hs) (lv t)) = filter (\<lambda>q. \<not> expired hs w q) (flat (lv t))"
proof -
  have "flat (without_handles (fst ` set hs) ls) = filter (\<lambda>q. \<not> expired hs w q) (flat ls)"
    if "layered sl valid w t (f t) p ls" "set ls \<subseteq> set (lv t)" for p ls
    using that
  proof (induction ls arbitrary: p rule: flat.induct)
    case (2 q ls)
    then show ?case by (auto simp: without_handles_def expired_def)
  next
    case (3 ty es ls)
    have "Listed ty es \<in> set (lv t)" using 3(3) by simp
    note e = live_handle [OF ok this] scope_okD [OF sc _ this]
    have "fst x \<notin> fst ` set hs \<longleftrightarrow> \<not> expired hs w (snd x)" if x: "x \<in> set es" for x
    proof -
      obtain h q where hq: "x = (h, q)" by (cases x)
      obtain c where c: "w_code w q = Some (Temp_closure h c)" using e(1) [of h q] x hq by auto
      have "q' = q" if "(h, q') \<in> set hs" for q' using e(2) [OF that, of q] x hq by simp
      then show ?thesis by (force simp: hq expired_def c)
    qed
    then have "map snd (filter (\<lambda>e. fst e \<notin> fst ` set hs) es) = filter (\<lambda>q. \<not> expired hs w q) (map snd es)"
      by (induction es) auto
    with 3 show ?case by (auto simp: without_handles_def)
  qed (simp add: without_handles_def)
  from this [OF hooks_okD(2) [OF ok]] show ?thesis by simp
qed

lemma exit_as_drops:
  assumes "hooked sl valid f w (lv, m)" and "scope_ok hs lv"
  shows "call_target sl (scope_exit hs w) t a \<noteq> None \<and> map_option fst (call_target sl (scope_exit hs w) t a)
    = map_option fst (call_target sl (fold (\<lambda>e. drop_handle sl (fst e)) hs w) t a)"
proof -
  let ?m = "\<lambda>q. if expired hs w q then gone else m q"
  have ok: "hooks_ok sl valid f w lv" using assms(1) by (simp add: hooked_def)
  have drops: "fold (\<lambda>e. drop_handle sl (fst e)) hs w = history sl (map (\<lambda>e. Drop_handle (fst e)) hs) w"
    by (induction hs arbitrary: w) auto
  have "fresh_history sl (map (\<lambda>e. Drop_handle (fst e)) hs) w" by (induction hs arbitrary: w) auto
  from hooked_history [OF assms(1) this]
  have dropped: "hooked sl valid f (fold (\<lambda>e. drop_handle sl (fst e)) hs w) (\<lambda>t. without_handles (fst ` set hs) (lv t), m)"
    by (simp only: drops drops_spec)
  have "others_gone (map (\<lambda>q. \<not> expired hs w q) (flat (lv t))) (map ?m (flat (lv t)))"
    by (simp add: others_gone_def list_all2_conv_all_nth)
  note gone = spec_call_erase [OF this, of "f t" a]
  have "map ?m (filter (\<lambda>q. \<not> expired hs w q) (flat (lv t))) = map m (filter (\<lambda>q. \<not> expired hs w q) (flat (lv t)))"
    by simp
  with gone
  have "fst (spec_result f (lv, ?m) t a) = fst (spec_result f (\<lambda>t. without_handles (fst ` set hs) (lv t), m) t a)"
    by (simp only: spec_result_def erase_filter flat_without [OF ok assms(2)] fst_conv snd_conv)
  then show ?thesis
    using hooked_call [OF hooked_scope_exit [OF assms(1)], of hs t a] hooked_call [OF dropped, of t a] by simp
qed

text \<open>
  C22. Leaving a scope takes its hooks back: whatever was hooked, dropped and called before and in the
  scope, and whatever closures \<open>g\<close> the calls in the scope ran in place of the boxed ones, provided they
  returned, a function then answers, without a panic, what it would answer had the handle of every
  scoped hook been dropped, although the scope only drops the closures and the hooks stay.
\<close>

theorem scope_exit_unhooks:
  assumes "slab_laws sl valid" and "unhooked f w" and "fresh_history sl es w"
    and "scope_fresh g sl ses ([], history sl es w)" and "scope_run g sl ses ([], history sl es w) = (hs, w')"
  shows "call_target sl (scope_exit hs w') t a \<noteq> None \<and> map_option fst (call_target sl (scope_exit hs w') t a)
    = map_option fst (call_target sl (fold (\<lambda>e. drop_handle sl (fst e)) hs w') t a)"
proof -
  have "scope_ok [] lv" for lv by (simp add: scope_ok_def)
  with scope_run_hooked [OF hooked_from_start [OF assms(1-3)] _ assms(4,5)]
  obtain s' where "hooked sl valid f w' s'" "scope_ok hs (fst s')" by blast
  then show ?thesis using exit_as_drops by (cases s') (simp only: fst_conv)
qed

text \<open>A plain hook, then a scope with a hook of its own above it, whose call runs some other closure.\<close>

definition example_scope :: "(nat list, nat list, nat) scope_event list" where
  "example_scope = [Scoped_hook 5 0 5 7 1 (example_hook 102), Meanwhile (Call 5 [])]"

lemma example_scope_fresh: "scope_fresh g list_slab example_scope ([], history list_slab [Hook 5 0 1 3 0 (example_hook 101)] example_world)"
  by (simp add: example_scope_def example_eval)

theorem scope_exit_unhooks_witness:
  "\<exists>w'. scope_run (\<lambda>_. example_hook 104) list_slab example_scope ([], history list_slab [Hook 5 0 1 3 0 (example_hook 101)] example_world) = ([(1, 7)], w')
    \<and> map_option fst (call_target list_slab (scope_exit [(1, 7)] w') 5 [])
      = map_option fst (call_target list_slab (drop_handle list_slab 1 w') 5 [])"
proof -
  let ?w = "history list_slab [Hook 5 0 1 3 0 (example_hook 101)] example_world"
  have fresh: "fresh_history list_slab [Hook 5 0 1 3 0 (example_hook 101)] example_world" by (simp add: example_world_def)
  obtain w' where run: "scope_run (\<lambda>_. example_hook 104) list_slab example_scope ([], ?w) = ([(1, 7)], w')"
    by (simp add: example_scope_def del: history.simps)
  from scope_exit_unhooks [OF list_slab_laws example_unhooked fresh example_scope_fresh run, of 5 "[]"] run
  show ?thesis by (intro exI [of _ w']) simp
qed

end
