(* ===== verification/Spec2Isabelle.thy ===== *)
theory Spec2Isabelle
  imports Process_Context Linked_Slab Pod_Sync Shared_Map Context_Acquire Jmp_Encoding Linux_Maps
    Hook_Args Anon_Map Custom_Hook Windows_Threads Signal_Handler Arch_Hook Hook_Race Thunk_Race Scoped
    Scope_History
begin

text \<open>
  diversion: function hooks for x86-64 on Windows and Linux. This development models the crate
  \<open>diversion\<close> (\<open>src/\<close>) and its support crate \<open>diversion_abi\<close> (\<open>abi/src/\<close>).

  \<^bold>\<open>The program.\<close> Hooking a function takes two steps. \<^emph>\<open>Installation\<close> makes the function jump,
  through a small block of memory within reach (the thunk), to the function whose address the thunk
  holds; at first that is a trampoline, a copy of the overwritten instructions followed by a jump to
  the rest of the function. \<^emph>\<open>Hooking\<close> replaces the address in the thunk. All copies of the library in
  a process share one context (found through a named shared mapping) with the table of thunks and
  an allocator of memory near given addresses. The hooks of one function form a chain, from the newest
  to the original function; temporary ones can be dropped, in any order, and scoped ones end with a
  scope. A \<^emph>\<open>custom hook\<close> saves every register and shows them to the hook.

  \<^bold>\<open>The theories\<close>, from the data structures up to installation:

  \<^item> \<open>Prelude\<close>: arithmetic of \<open>usize\<close> and \<open>isize\<close>, results, binary search; \<open>Vec_Spec\<close>, \<open>Keyed_List\<close>,
    \<open>Lock_Spec\<close>: the contracts (locales) of a vector, of a list with keys, and of a lock, used by the
    components below and interpreted on them; \<open>Bytes\<close>: little-endian integers and memory.

  \<^item> \<open>Pod_Vec\<close> (\<open>abi/src/alloc/vec.rs\<close>, \<open>alloc/linux.rs\<close>): the vector in mapped memory. It refines a
    list (\<open>pod_vec_is_list\<close>) and unmaps what it outgrows.

  \<^item> \<open>Range_Alloc\<close> (\<open>BoundedRangeAllocator\<close> in \<open>abi/src/context/process.rs\<close>): the allocator of
    blocks within bounds around an address, on a list of free ranges. Allocation is sound, complete up
    to one boundary case, and blocks in use never overlap.

  \<^item> \<open>Linked_Slab\<close> (\<open>abi/src/linked_slab.rs\<close>): the list of hooks, over the \<open>slab\<close> crate.

  \<^item> \<open>Pod_Sync\<close> (\<open>abi/src/sync/pod.rs\<close>): the two mutexes, as step relations of any number of threads;
    both simulate the abstract lock of \<open>Lock_Spec\<close>.

  \<^item> \<open>Shared_Map\<close> (\<open>abi/src/alloc.rs\<close>, \<open>alloc/linux.rs\<close>): the named mapping, as a step relation of the
    processes' threads; \<open>Context_Acquire\<close> (\<open>ProcessContext::acquire\<close>): how threads of all copies come to
    hold one context, exclusively; \<open>Process_Context\<close>: the sorted table of thunks, which refines a map.

  \<^item> \<open>Jmp_Encoding\<close> (\<open>installer/arch/x86_64.rs\<close>, \<open>intrinsics.rs\<close>): the bytes of the jumps and the thunk,
    the jump whose displacement repeats the bytes it covers, the atomic write.

  \<^item> \<open>Linux_Maps\<close> (\<open>installer/arch/os/linux.rs\<close>): \<open>/proc/self/maps\<close> and the iterator over regions;
    \<open>Os_Memory\<close> (\<open>os/memory.rs\<close>): the search for free memory near an address, changes of protection;
    \<open>Os_Alloc\<close> (\<open>installer/arch.rs\<close>, \<open>error.rs\<close>): the allocator that maps more memory when it has none,
    with the locale \<open>near_allocator\<close> as the contract the installer relies on. Its extension
    \<open>exact_allocator\<close> accounts for every byte: \<open>lost_bytes\<close> are those of the allocator's memory that are
    neither free nor in use, and \<open>scraps\<close> bounds how many of them, in pieces too short to be recorded, an
    operation may make; a block that is not given back is not one of them.

  \<^item> \<open>Hook_Site\<close> and \<open>Trampoline\<close> (\<open>installer/arch/x86_64/hook_site.rs\<close>): which instructions the jump
    replaces, and their copy elsewhere, over the \<open>iced-x86\<close> decoder and encoder. A copy that fails gives
    its buffer back (\<open>relocate_sound\<close>).

  \<^item> \<open>Linux_Threads\<close> (\<open>os/linux.rs\<close>, \<open>os/thread.rs\<close>): stopping the other threads by a signal and moving
    the instruction pointers inside the replaced code, as a step relation of the installing thread and
    the signal handlers, with the instruction pointer at which a thread was stopped (\<open>t_stop\<close>) as an
    auxiliary field that no step reads; \<open>Signal_Handler\<close> (\<open>os/linux.rs\<close>, \<open>os/linux/ffi.rs\<close>): the number of the signal, the
    layout of its \<open>siginfo_t\<close>, the one-time installation of the handler by every copy of the library, and
    how a handler forwards signals that are not its own to the one it replaced.

  \<^item> \<open>Windows_Memory\<close>, \<open>Windows_Threads\<close> (\<open>os/windows.rs\<close>, \<open>os/windows/ffi.rs\<close>) and \<open>Windows_Map\<close>
    (\<open>abi/src/alloc/windows.rs\<close>): the same parts on Windows. What \<open>memory.rs\<close> takes from the system is the record
    \<open>platform\<close>, with the instances \<open>linux\<close> and \<open>windows\<close>. Reading or writing the context of a thread may
    fail, which the code ignores; the thread then keeps its instruction pointer. \<open>Anon_Map\<close>: anonymous mappings on both, and the
    memory for compiled closures (\<open>alloc/jit.rs\<close>).

  \<^item> \<open>Install\<close> (\<open>installer/arch/x86_64.rs\<close>): the whole of \<open>install\<close>, with its retries and undo: every
    attempt that fails gives back what it allocated (\<open>install_sound\<close>).

  \<^item> \<open>Hook_Chain\<close> and \<open>Hook_History\<close> (\<open>hook/temp.rs\<close>, \<open>hook/leak.rs\<close>, \<open>abi/src/context/library.rs\<close>): temporary and
    static hooks. A call of a hooked function is refined to a list of closures, each the original of the
    one before, and any history of hooking and dropping to the changes of these lists. A panic in the
    source of a hook breaks this, and \<open>source_panic_skips_hook\<close> shows how. \<open>Hook_Race\<close>: calls of
    \<open>call_original\<close> while other threads hook and drop; \<open>Thunk_Race\<close> (\<open>abi/src/fn_ptr.rs\<close>): hooks put on by several
    threads at once; \<open>Scoped\<close> and \<open>Scope_History\<close> (\<open>hook/scoped.rs\<close>): the end of a scope waits for the calls
    inside, and functions then answer as if the scoped hooks had been dropped. The code calls a scoped
    closure through the address of the guard of its reference, not its own, so which closure a call in the
    scope runs is a parameter (\<open>run_scoped\<close>, \<open>do_scoped\<close>).

  \<^item> \<open>Arch_Hook\<close> (\<open>installer/arch.rs\<close>): installation and hooks together. In a history of \<open>hook\<close>,
    \<open>static_hook\<close> and drops on any functions, the code in memory leads a call through the thunk to the newest
    closure, and the call answers what the list of closures says (\<open>hooked_process_calls\<close>).

  \<^item> \<open>Xsave_Layout\<close>, \<open>Registers\<close>, \<open>Place\<close>, \<open>Context_Save\<close>, \<open>Context_Run\<close>, \<open>Hook_Args\<close>, \<open>Custom_Hook\<close> (\<open>hook/custom/\<close>,
    \<open>hook/custom.rs\<close>): the layout of the saved registers, their accesses, the check against duplicate
    arguments, the assembly that saves and restores the registers, instruction by instruction; closures
    of custom hooks, for which the registers are variables (\<open>closure_updates_registers\<close>); and the stubs of
    custom hooks, allocated and chained. What \<open>XSAVE\<close> and \<open>XRSTOR\<close> do is \<open>xsave_documented\<close>: the extended
    state is a value for each component, and an instruction saves and restores the components that are both
    enabled in XCR0 and in its bitmap, no others.

  \<^bold>\<open>Conventions.\<close> A \<open>usize\<close> is a natural number below \<open>2 ^ 64\<close>, with the checks, the wrap-around and
  the saturation of the source written out; an \<open>isize\<close> is an integer. A panic is \<open>None\<close>, an error \<open>Inl\<close>;
  debug assertions are on. What threads do is a step relation with one atomic access, system call or
  critical section per step. Structures in memory are lists of fields with sizes and alignments, from
  which the offsets are computed.

  \<^bold>\<open>Parameters.\<close> The systems (records of their calls over any state), the \<open>slab\<close>, \<open>iced-x86\<close> and \<open>rlsf\<close>
  crates, the waiting primitives, what other threads do to the code, the processor's extended state
  and its \<open>XSAVE\<close> instructions, and compiled hooks are arguments of the definitions. What the code
  relies on is a predicate on them with a name (\<open>slab_laws\<close>, \<open>decoder_ok\<close>, ...), and the examples next to
  each theorem satisfy it with concrete functions. The meaning of instructions is modelled for the jumps
  and for the context-saving code; in \<open>Arch_Hook\<close> what a function at an address computes is an argument, the
  hooked functions are at least as far apart as the code that is read of each, and the addresses of
  compiled closures are apart from the memory of the allocator.

  \<^bold>\<open>Loops.\<close> A loop that may not end (the search for memory, decoding, \<open>install\<close>, a call through hooks, the
  list of hooks, the regions of Windows) is a \<open>partial_function\<close> whose \<open>None\<close> includes running forever. \<open>analyze_total\<close> and
  \<open>win_region_iter_tiles\<close> show that decoding and the regions end, and the theorems on calls give their
  result. Fuel: \<open>run_machine\<close> takes the number of
  blocks, ten for one stub, and \<open>run_stubs\<close> the number of stubs in the chain; the threads of Windows are
  at most what the buffer of the bump allocator holds, an argument; a signal passes at most as many
  handlers as there are copies of the library.

  \<^bold>\<open>Not modelled.\<close> The parts for 32-bit x86 and other processors; the wrappers of locks in \<open>sync.rs\<close>,
  which call \<open>std\<close> or \<open>parking_lot\<close>; \<open>with.rs\<close> and \<open>make.rs\<close>, which pass every call on; the byte-wise atomic copy
  of the code to hook, whose result is a parameter; the \<open>bump-into\<close> allocator over the bytes behind
  the shared context; the declarations of foreign functions; \<open>Debug\<close>, \<open>Deref\<close>, \<open>Default\<close> and \<open>Clone\<close>; tests
  and benchmarks. In \<open>Scoped\<close> a call is inside the closure while it holds the reference, whatever it runs
  (\<open>hook/scoped.rs\<close>, line 170, casts the address of the guard).
\<close>

end
